(* ===== verification/Prelude.thy ===== *)
theory Prelude
  imports Main "HOL-Library.Word" "HOL-Library.Monad_Syntax" "HOL-Library.Signed_Division"
begin

text \<open>
  What the components share: the names of the C types of \<^verbatim>\<open>lib/stdint.h\<close> and
  \<^verbatim>\<open>lib/stddef.h\<close> at their width on the 80x86, the outcome of a kernel
  \<^verbatim>\<open>ASSERT\<close> or \<^verbatim>\<open>PANIC\<close> (\<^verbatim>\<open>lib/debug.h\<close>), the conversions
  between the integer types that the C code makes implicitly, the rounding macros of
  \<^verbatim>\<open>lib/round.h\<close>, and generic lemmas on words and lists.

  A C function that can stop the kernel is an \<open>option\<close>-valued function here: \<open>None\<close>
  is \<^verbatim>\<open>debug_panic\<close> or a CPU trap, and nothing after it runs. Every error that the
  code returns as a value (\<^verbatim>\<open>false\<close>, \<^verbatim>\<open>NULL\<close>, \<^verbatim>\<open>-1\<close>,
  \<^verbatim>\<open>BITMAP_ERROR\<close>) stays a value of the result.
\<close>

unbundle bit_operations_syntax

type_synonym uint8_t = "8 word"
type_synonym uint16_t = "16 word"
type_synonym uint32_t = "32 word"
type_synonym uint64_t = "64 word"
type_synonym size_t = "32 word"

subsection \<open>Kernel panics\<close>

definition ASSERT :: "bool \<Rightarrow> unit option" where
  "ASSERT P = (if P then Some () else None)"

lemma ASSERT_True [simp]: "ASSERT True = Some ()"
  by (simp add: ASSERT_def)

lemma ASSERT_False [simp]: "ASSERT False = None"
  by (simp add: ASSERT_def)

lemma ASSERT_eq_Some [simp]: "ASSERT P = Some u \<longleftrightarrow> P"
  by (simp add: ASSERT_def)

lemma bind_ASSERT_eq_Some [simp]: "(ASSERT P \<bind> f) = Some y \<longleftrightarrow> P \<and> f () = Some y"
  by (simp add: ASSERT_def)

subsection \<open>Signed integers\<close>

text \<open>
  A C \<^verbatim>\<open>int\<close> or \<^verbatim>\<open>long long\<close> value is an \<open>int\<close>; \<open>to_int32\<close> and
  \<open>to_int64\<close> are the conversions to the type, which keep the low 32 (64) bits and read
  them as two's complement. Division and remainder of signed values truncate towards
  zero: \<open>sdiv\<close> and \<open>smod\<close> of \<open>HOL-Library.Signed_Division\<close>.
\<close>

definition to_int32 :: "int \<Rightarrow> int" where
  "to_int32 x = signed_take_bit 31 x"

definition to_int64 :: "int \<Rightarrow> int" where
  "to_int64 x = signed_take_bit 63 x"

lemma to_int32_id: "- (2 ^ 31) \<le> x \<Longrightarrow> x < 2 ^ 31 \<Longrightarrow> to_int32 x = x"
  by (simp add: to_int32_def signed_take_bit_int_eq_self_iff)

lemma to_int64_id: "- (2 ^ 63) \<le> x \<Longrightarrow> x < 2 ^ 63 \<Longrightarrow> to_int64 x = x"
  by (simp add: to_int64_def signed_take_bit_int_eq_self_iff)

lemma to_int32_range: "- (2 ^ 31) \<le> to_int32 x \<and> to_int32 x < 2 ^ 31"
  using signed_take_bit_int_greater_eq_minus_exp [of 31 x] signed_take_bit_int_less_exp [of 31 x]
  by (simp add: to_int32_def)

subsection \<open>Rounding\<close>

definition ROUND_UP :: "'a::len word \<Rightarrow> 'a word \<Rightarrow> 'a word" where
  "ROUND_UP x step = (x + step - 1) div step * step"

definition DIV_ROUND_UP :: "'a::len word \<Rightarrow> 'a word \<Rightarrow> 'a word" where
  "DIV_ROUND_UP x step = (x + step - 1) div step"

definition ROUND_DOWN :: "'a::len word \<Rightarrow> 'a word \<Rightarrow> 'a word" where
  "ROUND_DOWN x step = x div step * step"

lemma unat_32_less: "unat (x :: 32 word) < 2 ^ 32"
  using unsigned_less [of x, where ?'a = nat] by simp

lemma unat_add_small: "unat x + unat y < 2 ^ LENGTH('a) \<Longrightarrow> unat (x + y) = unat x + unat (y :: 'a::len word)"
  by (simp add: unat_word_ariths)

lemma unat_add_le: "unat x + n < 2 ^ LENGTH('a) \<Longrightarrow> unat (x + of_nat n :: 'a::len word) = unat x + n"
  by (simp add: unat_word_ariths unat_of_nat)

subsection \<open>Counting loops\<close>

text \<open>\<^verbatim>\<open>for (i = 0; i < n; i++)\<close> over a body that may panic.\<close>

primrec for_loop :: "nat \<Rightarrow> (nat \<Rightarrow> 's \<Rightarrow> 's option) \<Rightarrow> 's \<Rightarrow> 's option" where
  "for_loop 0 f s = Some s"
| "for_loop (Suc n) f s = do { s \<leftarrow> for_loop n f s; f n s }"

lemma for_loop_invariant:
  assumes "P 0 s" "\<And>i s. i < n \<Longrightarrow> P i s \<Longrightarrow> \<exists>s'. f i s = Some s' \<and> P (Suc i) s'"
  shows "\<exists>s'. for_loop n f s = Some s' \<and> P n s'"
  using assms
proof (induction n)
  case (Suc n)
  then obtain t where "for_loop n f s = Some t" "P n t"
    by auto
  then show ?case
    using Suc.prems(2) [of n t] by auto
qed simp

lemma for_loop_None:
  assumes "P 0 s" "\<And>i s. i < k \<Longrightarrow> P i s \<Longrightarrow> \<exists>s'. f i s = Some s' \<and> P (Suc i) s'"
    and "\<And>s. P k s \<Longrightarrow> f k s = None" "k < n"
  shows "for_loop n f s = None"
  using \<open>k < n\<close>
proof (induction n)
  case (Suc n)
  obtain t where "for_loop k f s = Some t" "P k t"
    using for_loop_invariant [of P s k f] assms(1,2) by blast
  then show ?case
    using Suc assms(3) by (cases "k = n") auto
qed simp

end
