(* ===== verification/Arith64.thy ===== *)
theory Arith64
  imports Prelude
begin

text \<open>
  The 64-bit division routines of \<^verbatim>\<open>lib/arithmetic.c\<close>, which GCC calls for
  every \<^verbatim>\<open>long long\<close> division and remainder of the kernel. \<open>divl\<close> is the 80x86
  instruction: it divides a 64-bit dividend by a 32-bit divisor and traps with a divide
  error (\<open>None\<close>) when the divisor is zero or the quotient does not fit in 32 bits.
\<close>

subsection \<open>The routines\<close>

definition divl :: "uint64_t \<Rightarrow> uint32_t \<Rightarrow> uint32_t option" where
  "divl n d =
     (let n1 = (ucast (drop_bit 32 n) :: uint32_t);
          n0 = (ucast n :: uint32_t);
          dividend = unat n1 * 2 ^ 32 + unat n0
      in if d = 0 \<or> 2 ^ 32 \<le> dividend div unat d then None
         else Some (of_nat (dividend div unat d)))"

definition nlz :: "uint32_t \<Rightarrow> nat" where
  "nlz x =
     (let n = 0;
          (n, x) = (if x \<le> 0x0000FFFF then (n + 16, push_bit 16 x) else (n, x));
          (n, x) = (if x \<le> 0x00FFFFFF then (n + 8, push_bit 8 x) else (n, x));
          (n, x) = (if x \<le> 0x0FFFFFFF then (n + 4, push_bit 4 x) else (n, x));
          (n, x) = (if x \<le> 0x3FFFFFFF then (n + 2, push_bit 2 x) else (n, x))
      in if x \<le> 0x7FFFFFFF then n + 1 else n)"

definition udiv64 :: "uint64_t \<Rightarrow> uint64_t \<Rightarrow> uint64_t option" where
  "udiv64 n d =
     (if drop_bit 32 d = 0 then
        (let b = (push_bit 32 1 :: uint64_t);
             n1 = (ucast (drop_bit 32 n) :: uint32_t);
             n0 = (ucast n :: uint32_t);
             d0 = (ucast d :: uint32_t)
         in do {
           q \<leftarrow> divl (b * ucast (n1 mod d0) + ucast n0) d0;
           Some (ucast q + b * ucast (n1 div d0)) })
      else if n < d then Some 0
      else
        (let d1 = (ucast (drop_bit 32 d) :: uint32_t);
             s = nlz d1
         in do {
           q0 \<leftarrow> divl (drop_bit 1 n) (ucast (drop_bit 32 (push_bit s d)));
           let q = (ucast (drop_bit (31 - s) q0) :: uint64_t);
           Some (if n - (q - 1) * d < d then q - 1 else q) }))"

definition umod64 :: "uint64_t \<Rightarrow> uint64_t \<Rightarrow> uint32_t option" where
  "umod64 n d = do { q \<leftarrow> udiv64 n d; Some (ucast (n - d * q)) }"

definition sdiv64 :: "int \<Rightarrow> int \<Rightarrow> int option" where
  "sdiv64 n d =
     (let n_abs = (if n \<ge> 0 then word_of_int n else - word_of_int n :: uint64_t);
          d_abs = (if d \<ge> 0 then word_of_int d else - word_of_int d :: uint64_t)
      in do {
        q_abs \<leftarrow> udiv64 n_abs d_abs;
        Some (if (n < 0) = (d < 0) then sint q_abs else to_int64 (- sint q_abs)) })"

definition smod64 :: "int \<Rightarrow> int \<Rightarrow> int option" where
  "smod64 n d = do { q \<leftarrow> sdiv64 n d; Some (to_int32 (to_int64 (n - to_int64 (d * q)))) }"

definition divdi3 :: "int \<Rightarrow> int \<Rightarrow> int option" where
  "divdi3 n d = sdiv64 n d"

definition moddi3 :: "int \<Rightarrow> int \<Rightarrow> int option" where
  "moddi3 n d = smod64 n d"

definition udivdi3 :: "uint64_t \<Rightarrow> uint64_t \<Rightarrow> uint64_t option" where
  "udivdi3 n d = udiv64 n d"

definition umoddi3 :: "uint64_t \<Rightarrow> uint64_t \<Rightarrow> uint64_t option" where
  "umoddi3 n d = do { r \<leftarrow> umod64 n d; Some (ucast r) }"

subsection \<open>Leading zeros\<close>

lemma unat_push_bit_small:
  fixes x :: "'a::len word"
  assumes "unat x * 2 ^ k < 2 ^ LENGTH('a)"
  shows "unat (push_bit k x) = unat x * 2 ^ k"
proof -
  have "unat (push_bit k x) = take_bit LENGTH('a) (unat x * 2 ^ k)"
    by (simp only: unsigned_push_bit_eq) (simp add: push_bit_eq_mult)
  then show ?thesis
    using assms by (simp only: take_bit_nat_eq_self)
qed

text \<open>One conditional shift of \<open>nlz\<close>: it multiplies by a power of two and doubles the
  number of leading bits that are known not to be all zero.\<close>

lemma nlz_stage:
  fixes x :: uint32_t
  assumes "0 < k" "k \<le> 16" "2 ^ (32 - 2 * k) \<le> unat x"
    and "(n', x') = (if unat x < 2 ^ (32 - k) then (n + k, push_bit k x) else (n, x))"
    and "unat x0 * 2 ^ n = unat x"
  shows "unat x0 * 2 ^ n' = unat x' \<and> 2 ^ (32 - k) \<le> unat x'"
proof (cases "unat x < 2 ^ (32 - k)")
  case True
  have "unat x * 2 ^ k < 2 ^ (32 - k) * 2 ^ k"
    using True by simp
  also have "\<dots> = 2 ^ 32"
    using assms(2) by (simp flip: power_add)
  finally have shift: "unat (push_bit k x) = unat x * 2 ^ k"
    by (intro unat_push_bit_small) simp
  have "(2::nat) ^ (32 - k) = 2 ^ (32 - 2 * k) * 2 ^ k"
    using assms(2) by (simp flip: power_add)
  also have "\<dots> \<le> unat x * 2 ^ k"
    using assms(3) by simp
  finally show ?thesis
    using True shift assms(4,5) by (simp add: power_add)
next
  case False
  then show ?thesis
    using assms(4,5) by simp
qed

lemma nlz_guard:
  fixes x :: uint32_t
  shows "x \<le> 0x0000FFFF \<longleftrightarrow> unat x < 2 ^ (32 - 16)"
    and "x \<le> 0x00FFFFFF \<longleftrightarrow> unat x < 2 ^ (32 - 8)"
    and "x \<le> 0x0FFFFFFF \<longleftrightarrow> unat x < 2 ^ (32 - 4)"
    and "x \<le> 0x3FFFFFFF \<longleftrightarrow> unat x < 2 ^ (32 - 2)"
    and "x \<le> 0x7FFFFFFF \<longleftrightarrow> unat x < 2 ^ (32 - 1)"
  by (auto simp: word_le_nat_alt)

lemma nlz_normalizes:
  assumes "x \<noteq> 0"
  shows "2 ^ 31 \<le> unat x * 2 ^ nlz x" and "unat x * 2 ^ nlz x < 2 ^ 32" and "nlz x < 32"
proof -
  define p1 where "p1 = (if unat x < 2 ^ (32 - 16) then (0 + 16 :: nat, push_bit 16 x) else (0, x))"
  obtain n1 x1 where p1: "p1 = (n1, x1)" by (cases p1)
  define p2 where "p2 = (if unat x1 < 2 ^ (32 - 8) then (n1 + 8, push_bit 8 x1) else (n1, x1))"
  obtain n2 x2 where p2: "p2 = (n2, x2)" by (cases p2)
  define p3 where "p3 = (if unat x2 < 2 ^ (32 - 4) then (n2 + 4, push_bit 4 x2) else (n2, x2))"
  obtain n3 x3 where p3: "p3 = (n3, x3)" by (cases p3)
  define p4 where "p4 = (if unat x3 < 2 ^ (32 - 2) then (n3 + 2, push_bit 2 x3) else (n3, x3))"
  obtain n4 x4 where p4: "p4 = (n4, x4)" by (cases p4)
  define p5 where "p5 = (if unat x4 < 2 ^ (32 - 1) then (n4 + 1, push_bit 1 x4) else (n4, x4))"
  obtain n5 x5 where p5: "p5 = (n5, x5)" by (cases p5)
  have "nlz x = n5"
    using p1 p2 p3 p4 p5
    by (simp add: nlz_def nlz_guard p1_def p2_def p3_def p4_def p5_def Let_def split: if_splits)
  moreover have "unat x * 2 ^ n5 = unat x5 \<and> 2 ^ (32 - 1) \<le> unat x5"
  proof -
    have "1 \<le> unat x" using assms by (simp add: Suc_leI unat_gt_0)
    then have s1: "unat x * 2 ^ n1 = unat x1 \<and> 2 ^ (32 - 16) \<le> unat x1"
      using p1 by (intro nlz_stage) (auto simp: p1_def)
    then have s2: "unat x * 2 ^ n2 = unat x2 \<and> 2 ^ (32 - 8) \<le> unat x2"
      using p2 by (intro nlz_stage) (auto simp: p2_def)
    then have s3: "unat x * 2 ^ n3 = unat x3 \<and> 2 ^ (32 - 4) \<le> unat x3"
      using p3 by (intro nlz_stage) (auto simp: p3_def)
    then have s4: "unat x * 2 ^ n4 = unat x4 \<and> 2 ^ (32 - 2) \<le> unat x4"
      using p4 by (intro nlz_stage) (auto simp: p4_def)
    then show ?thesis
      using p5 by (intro nlz_stage) (auto simp: p5_def)
  qed
  ultimately show ge: "2 ^ 31 \<le> unat x * 2 ^ nlz x" and lt: "unat x * 2 ^ nlz x < 2 ^ 32"
    using unsigned_less [of x5] by simp_all
  show "nlz x < 32"
  proof (rule ccontr)
    assume "\<not> nlz x < 32"
    then have "(2::nat) ^ 32 \<le> 1 * 2 ^ nlz x"
      using power_increasing [of 32 "nlz x" "2::nat"] by simp
    also have "\<dots> \<le> unat x * 2 ^ nlz x"
      using assms by (intro mult_right_mono) (simp_all add: Suc_leI unat_gt_0)
    finally show False using lt by simp
  qed
qed

subsection \<open>Unsigned division\<close>

lemma unat_ucast_32 [simp]: "unat (ucast (x :: uint64_t) :: uint32_t) = unat x mod 2 ^ 32"
  by (simp add: unsigned_ucast_eq take_bit_eq_mod)

lemma unat_high: "unat (drop_bit 32 (x :: uint64_t)) = unat x div 2 ^ 32"
  unfolding unat_drop_bit_eq by (rule drop_bit_eq_div)

lemma high_less: "unat (x :: uint64_t) div 2 ^ 32 < 2 ^ 32"
  using unsigned_less [of x, where 'a = nat] by (simp add: less_mult_imp_div_less)

lemma divl_eq:
  "divl n d = (if d = 0 \<or> 2 ^ 32 \<le> unat n div unat d then None
               else Some (of_nat (unat n div unat d)))"
proof -
  have "unat n div 2 ^ 32 mod 2 ^ 32 * 2 ^ 32 + unat n mod 2 ^ 32 = unat n"
    using high_less [of n] by (simp add: mult.commute)
  then show ?thesis
    by (simp only: divl_def Let_def unat_ucast_32 unat_high)
qed

lemma pow2_split: "a + b = c \<Longrightarrow> (2::nat) ^ c = 2 ^ a * 2 ^ b"
  by (auto simp: power_add)

lemma round_down_ge: "b = k * c \<Longrightarrow> b \<le> a \<Longrightarrow> 0 < c \<Longrightarrow> b \<le> a div c * (c :: nat)"
  using div_le_mono [of b a c] by simp

text \<open>The estimate of Hacker's Delight: dividing by the leading 32 bits of the normalized
  divisor gives the quotient or one more.\<close>

lemma quotient_estimate:
  fixes n d s :: nat
  assumes "s < 32" "2 ^ 63 \<le> d * 2 ^ s" "n < 2 ^ 64"
  defines "q \<equiv> n div 2 div (d * 2 ^ s div 2 ^ 32) div 2 ^ (31 - s)"
  shows "n div d \<le> q" and "q \<le> n div d + 1"
proof -
  define e where "e = d div 2 ^ (32 - s) * 2 ^ (32 - s)"
  define r where "r = d mod 2 ^ (32 - s)"
  have d_split: "d = e + r" and "r < 2 ^ (32 - s)"
    unfolding e_def r_def by (simp_all only: div_mult_mod_eq) simp
  have pow: "(2::nat) ^ 32 = 2 ^ (32 - s) * 2 ^ s"
    using assms(1) by (simp flip: power_add)
  have v: "d * 2 ^ s div 2 ^ 32 = d div 2 ^ (32 - s)"
    by (simp only: pow div_mult_mult2 power_not_zero zero_neq_numeral [symmetric] not_False_eq_True)
  have "2 * (d div 2 ^ (32 - s)) * 2 ^ (31 - s) = e"
    using assms(1) unfolding e_def by (simp add: mult.assoc mult.left_commute [of 2] flip: power_Suc Suc_diff_le)
  then have q: "q = n div e"
    unfolding q_def v by (simp only: div_mult2_eq [symmetric])
  have pow63: "(2::nat) ^ 63 = 2 ^ (63 - s) * 2 ^ s"
    using assms(1) by (simp flip: power_add)
  with assms(2) have d_ge: "2 ^ (63 - s) \<le> d"
    by (simp only: mult_le_cancel2) simp
  have "(2::nat) ^ (63 - s) = 2 ^ 31 * 2 ^ (32 - s)"
    using assms(1) by (intro pow2_split) simp
  with d_ge have e_ge: "2 ^ (63 - s) \<le> e"
    unfolding e_def by (intro round_down_ge) auto
  have "0 < e"
    using e_ge by (metis less_le_trans zero_less_numeral zero_less_power)
  then show "n div d \<le> q"
    using d_split by (simp add: q div_le_mono2)
  have "n div d < 2 ^ (s + 1)"
  proof -
    have "(2::nat) ^ 64 = 2 ^ (s + 1) * 2 ^ (63 - s)"
      using assms(1) by (intro pow2_split) simp
    with assms(3) have "n < 2 ^ (s + 1) * 2 ^ (63 - s)"
      by (simp only:)
    also have "\<dots> \<le> 2 ^ (s + 1) * d"
      using d_ge by simp
    finally show ?thesis
      by (simp add: less_mult_imp_div_less)
  qed
  then have "(n div d + 1) * r \<le> 2 ^ (s + 1) * (2 ^ (32 - s) - 1)"
    using \<open>r < 2 ^ (32 - s)\<close> by (intro mult_mono) auto
  also have "\<dots> \<le> 2 ^ (63 - s)"
  proof -
    have "(2::nat) ^ 33 = 2 ^ (s + 1) * 2 ^ (32 - s)"
      using assms(1) by (intro pow2_split) simp
    then have "(2::nat) ^ (s + 1) * (2 ^ (32 - s) - 1) = 2 ^ 33 - 2 ^ (s + 1)"
      by (simp only: right_diff_distrib' mult_1_right)
    moreover have "(2::nat) ^ 33 - 2 ^ (s + 1) \<le> 2 ^ (63 - s)"
    proof (cases "s = 31")
      case True
      then show ?thesis by simp
    next
      case False
      with assms(1) have "(2::nat) ^ 33 \<le> 2 ^ (63 - s)"
        by (intro power_increasing) auto
      then show ?thesis by linarith
    qed
    ultimately show ?thesis by simp
  qed
  also note e_ge
  finally have excess: "(n div d + 1) * r \<le> e" .
  have "n < (n div d + 1) * d"
    using \<open>0 < e\<close> d_split dividend_less_div_times [of d n] by (simp only: distrib_right mult_1) simp
  also have "\<dots> = (n div d + 1) * e + (n div d + 1) * r"
    by (simp only: distrib_left [symmetric] d_split [symmetric])
  also have "\<dots> \<le> (n div d + 1) * e + e"
    using excess by simp
  also have "\<dots> = (n div d + 2) * e"
    by simp
  finally show "q \<le> n div d + 1"
    unfolding q using less_mult_imp_div_less [of n "n div d + 2" e] by simp
qed

lemma ucast_32_64: "(ucast (w :: uint32_t) :: uint64_t) = of_nat (unat w)"
  by simp

lemma push_bit_32_1: "(push_bit 32 1 :: uint64_t) = of_nat (2 ^ 32)"
  by simp

lemma udiv64_small:
  assumes "d \<noteq> 0" and "unat d < 2 ^ 32"
  shows "udiv64 n d = Some (n div d)"
proof -
  define n1 where "n1 = unat n div 2 ^ 32"
  define n0 where "n0 = unat n mod 2 ^ 32"
  define d0 where "d0 = (ucast d :: uint32_t)"
  define w1 where "w1 = (ucast (drop_bit 32 n) :: uint32_t)"
  define w0 where "w0 = (ucast n :: uint32_t)"
  define k where "k = n1 mod unat d * 2 ^ 32 + n0"
  have d0: "unat d0 = unat d" "0 < unat d"
    using assms by (simp_all add: d0_def unat_gt_0)
  then have d0_nz: "d0 \<noteq> 0"
    by auto
  have n: "unat n = n1 * 2 ^ 32 + n0"
    by (simp add: n1_def n0_def)
  have high: "drop_bit 32 d = 0"
    by (metis assms(2) div_less unat_eq_0 unat_high)
  have n1: "n1 < 2 ^ 32" and n0: "n0 < 2 ^ 32"
    using high_less by (simp_all add: n1_def n0_def)
  have w1: "unat w1 = n1"
    using n1 by (simp only: w1_def unat_ucast_32 unat_high n1_def mod_less)
  have w0: "unat w0 = n0"
    by (simp add: w0_def n0_def)
  have k: "k < unat d * 2 ^ 32"
  proof -
    have "k < (n1 mod unat d + 1) * 2 ^ 32"
      using n0 by (simp add: k_def)
    also have "\<dots> \<le> unat d * 2 ^ 32"
      using mod_less_divisor [OF d0(2), of n1] by (intro mult_right_mono) auto
    finally show ?thesis .
  qed
  also have "\<dots> \<le> 2 ^ 32 * 2 ^ 32"
    using assms(2) by (intro mult_right_mono) auto
  finally have unat_k: "unat (of_nat k :: uint64_t) = k"
    by (simp add: unat_of_nat)
  have arg: "push_bit 32 1 * ucast (w1 mod d0) + ucast w0 = (of_nat k :: uint64_t)"
    unfolding push_bit_32_1 ucast_32_64 unat_mod_distrib w1 w0 d0(1) k_def
    by (simp only: of_nat_add of_nat_mult mult.commute)
  have quot: "k div unat d < 2 ^ 32"
    using k by (simp add: less_mult_imp_div_less mult.commute)
  then have dv: "divl (of_nat k) d0 = Some (of_nat (k div unat d))"
    using d0 d0_nz by (simp add: divl_eq unat_k)
  have "unat n = k + n1 div unat d * 2 ^ 32 * unat d"
  proof -
    have "unat n = (n1 div unat d * unat d + n1 mod unat d) * 2 ^ 32 + n0"
      by (simp only: n div_mult_mod_eq)
    then show ?thesis
      by (simp only: k_def distrib_right mult.assoc mult.commute [of "unat d"] add.assoc add.commute add.left_commute)
  qed
  then have "unat n div unat d = k div unat d + n1 div unat d * 2 ^ 32"
    using d0(2) by (simp add: mult.commute)
  then have res: "ucast (of_nat (k div unat d) :: uint32_t) + push_bit 32 1 * ucast (w1 div d0) = n div d"
    unfolding push_bit_32_1 ucast_32_64 unat_div_distrib w1 d0(1) word_arith_nat_div [of n d]
    using quot by (simp add: unat_of_nat mult.commute)
  show ?thesis
    using high dv res
    by (simp only: udiv64_def Let_def if_True arg Option.bind.simps simp_thms flip: d0_def w1_def w0_def)
qed

lemma unat_normalized:
  fixes d :: uint64_t
  assumes "drop_bit 32 d \<noteq> 0"
  defines "s \<equiv> nlz (ucast (drop_bit 32 d))"
  shows "s < 32" and "2 ^ 63 \<le> unat d * 2 ^ s" and "unat (push_bit s d) = unat d * 2 ^ s"
proof -
  define d1 where "d1 = (ucast (drop_bit 32 d) :: uint32_t)"
  have d1: "unat d1 = unat d div 2 ^ 32"
    unfolding d1_def unat_ucast_32 unat_high using high_less [of d] by (simp only: mod_less)
  have "d1 \<noteq> 0"
    using assms(1) d1 by (metis unat_0 unat_eq_0 unat_high)
  note norm = nlz_normalizes [OF this, unfolded d1, folded s_def [folded d1_def]]
  show "s < 32"
    by (rule norm(3))
  have "2 ^ 31 * 2 ^ 32 \<le> unat d div 2 ^ 32 * 2 ^ s * 2 ^ 32"
    using norm(1) by (intro mult_right_mono) auto
  also have "\<dots> \<le> unat d * 2 ^ s"
    by (metis (no_types) div_times_less_eq_dividend mult.assoc mult.commute mult_le_mono1)
  finally show "2 ^ 63 \<le> unat d * 2 ^ s"
    by simp
  have "unat d < (unat d div 2 ^ 32 + 1) * 2 ^ 32"
    by (simp add: dividend_less_div_times)
  then have "unat d * 2 ^ s < (unat d div 2 ^ 32 + 1) * 2 ^ 32 * 2 ^ s"
    by (intro mult_strict_right_mono) simp_all
  also have "\<dots> = (unat d div 2 ^ 32 * 2 ^ s + 2 ^ s) * 2 ^ 32"
    by (simp only: distrib_right mult_1 mult.assoc mult.commute [of "2 ^ 32"])
  also have "\<dots> \<le> 2 ^ 32 * 2 ^ 32"
  proof (rule mult_right_mono)
    have p32: "(2::nat) ^ 32 = 2 ^ (32 - s) * 2 ^ s"
      using norm(3) by (intro pow2_split) simp
    have "unat d div 2 ^ 32 * 2 ^ s < 2 ^ (32 - s) * 2 ^ s"
      using norm(2) by (simp only: p32 [symmetric])
    then have "unat d div 2 ^ 32 < 2 ^ (32 - s)"
      by (simp only: mult_less_cancel2)
    then have "unat d div 2 ^ 32 + 1 \<le> 2 ^ (32 - s)"
      by linarith
    then have "(unat d div 2 ^ 32 + 1) * 2 ^ s \<le> 2 ^ (32 - s) * 2 ^ s"
      by (rule mult_right_mono) simp
    then show "unat d div 2 ^ 32 * 2 ^ s + 2 ^ s \<le> 2 ^ 32"
      by (simp only: p32 [symmetric] distrib_right mult_1)
  qed simp
  finally show "unat (push_bit s d) = unat d * 2 ^ s"
    by (intro unat_push_bit_small) simp
qed

lemma quotient_correction:
  fixes n d :: "'a::len word" and q :: nat
  assumes "\<not> n < d" "d \<noteq> 0" "unat n div unat d \<le> q" "q \<le> unat n div unat d + 1"
  shows "(if n - (of_nat q - 1) * d < d then of_nat q - 1 else of_nat q) = n div d"
proof -
  define Q where "Q = unat n div unat d"
  have dn: "unat d \<le> unat n" and "0 < unat d"
    using assms(1,2) by (simp_all add: word_less_nat_alt unat_gt_0)
  then have Q: "1 \<le> Q"
    by (simp add: Q_def Suc_leI div_greater_zero_iff)
  have n: "unat n = Q * unat d + unat n mod unat d"
    by (simp add: Q_def)
  have "(q - 1) * unat d \<le> Q * unat d"
    using assms(4) by (intro mult_right_mono) (auto simp: Q_def)
  also have "\<dots> \<le> unat n"
    by (simp add: Q_def)
  finally have le: "(q - 1) * unat d \<le> unat n" .
  have pred: "(of_nat q - 1 :: 'a word) = of_nat (q - 1)"
    using Q assms(3) by (simp add: Q_def)
  have "n - (of_nat q - 1) * d = of_nat (unat n - (q - 1) * unat d)"
    unfolding pred using le by (simp add: of_nat_diff)
  then have rem: "unat (n - (of_nat q - 1) * d) = unat n - (q - 1) * unat d"
    by (simp add: unat_of_nat) (metis diff_le_self le_less_trans mod_less unsigned_less)
  have quot: "n div d = of_nat Q"
    by (simp add: Q_def word_arith_nat_div)
  consider "q = Q" | "q = Q + 1"
    using assms(3,4) Q_def by linarith
  then show ?thesis
  proof cases
    case 1
    have "unat n - (Q - 1) * unat d = unat d + unat n mod unat d"
      using Q n by (cases Q) auto
    then show ?thesis
      using 1 rem by (simp add: word_less_nat_alt quot)
  next
    case 2
    then have "unat n - (q - 1) * unat d = unat n mod unat d"
      using n by simp
    then show ?thesis
      using 2 rem \<open>0 < unat d\<close> by (simp add: word_less_nat_alt quot)
  qed
qed

lemma udiv64_large:
  assumes "drop_bit 32 d \<noteq> 0"
  shows "udiv64 n d = Some (n div d)"
proof (cases "n < d")
  case True
  then show ?thesis
    using assms by (simp add: udiv64_def div_word_less)
next
  case False
  define s where "s = nlz (ucast (drop_bit 32 d))"
  note norm = unat_normalized [OF assms, folded s_def]
  define v where "v = unat d * 2 ^ s div 2 ^ 32"
  define q where "q = unat n div 2 div v div 2 ^ (31 - s)"
  have n: "unat n < 2 ^ 64"
    using unsigned_less [of n, where 'a = nat] by simp
  have v_ge: "2 ^ 31 \<le> v"
    using norm(2) unfolding v_def by simp
  have v: "unat (ucast (drop_bit 32 (push_bit s d)) :: uint32_t) = v"
    unfolding v_def unat_ucast_32 unat_high norm(3)
    using high_less [of "push_bit s d"] by (simp only: norm(3) mod_less)
  have est: "unat n div unat d \<le> q" "q \<le> unat n div unat d + 1"
    unfolding q_def v_def using quotient_estimate [OF norm(1,2) n] by simp_all
  have q0: "unat n div 2 div v < 2 ^ 32"
  proof -
    have "unat n div 2 < 2 ^ 32 * 2 ^ 31"
      using n by simp
    also have "\<dots> \<le> 2 ^ 32 * v"
      using v_ge by (intro mult_left_mono) auto
    finally show ?thesis
      by (rule less_mult_imp_div_less)
  qed
  moreover have "unat (drop_bit 1 n) = unat n div 2"
    unfolding unat_drop_bit_eq by (simp add: drop_bit_eq_div)
  moreover have nz: "(ucast (drop_bit 32 (push_bit s d)) :: uint32_t) \<noteq> 0"
  proof
    assume "(ucast (drop_bit 32 (push_bit s d)) :: uint32_t) = 0"
    then have "v = 0" using v by (simp only: unat_0)
    then show False using v_ge by simp
  qed
  ultimately have dv: "divl (drop_bit 1 n) (ucast (drop_bit 32 (push_bit s d)))
      = Some (of_nat (unat n div 2 div v))"
    using nz by (simp only: divl_eq v linorder_not_le [symmetric] simp_thms if_False)
  define w where "w = (ucast (drop_bit (31 - s) (of_nat (unat n div 2 div v) :: uint32_t)) :: uint64_t)"
  have "unat (of_nat (unat n div 2 div v) :: uint32_t) = unat n div 2 div v"
    using q0 by (simp add: unat_of_nat)
  then have w: "w = of_nat q"
    unfolding w_def q_def ucast_32_64 unat_drop_bit_eq by (simp add: drop_bit_eq_div)
  have "(if n - (w - 1) * d < d then w - 1 else w) = n div d"
    using False est assms unfolding w by (intro quotient_correction) auto
  then show ?thesis
    using assms False
    by (simp only: udiv64_def Let_def if_False dv Option.bind.simps flip: s_def w_def)
qed

lemma udiv64_eq_div: "d \<noteq> 0 \<Longrightarrow> udiv64 n d = Some (n div d)"
proof (cases "drop_bit 32 d = 0")
  case True
  then have "unat d div 2 ^ 32 = 0"
    by (simp only: unat_0 flip: unat_high)
  then have "unat d < 2 ^ 32"
    by (simp only: div_eq_0_iff) simp
  then show "d \<noteq> 0 \<Longrightarrow> ?thesis"
    by (rule udiv64_small [rotated])
next
  case False
  then show ?thesis
    by (rule udiv64_large)
qed

lemma udiv64_zero: "udiv64 n 0 = None"
  by (simp add: udiv64_def divl_def)

lemma udiv64_eq: "udiv64 n d = (if d = 0 then None else Some (n div d))"
  by (simp add: udiv64_eq_div udiv64_zero)

lemma umod64_eq: "umod64 n d = (if d = 0 then None else Some (ucast (n mod d)))"
  by (simp add: umod64_def udiv64_eq minus_mult_div_eq_mod)

subsection \<open>Signed division\<close>

lemma to_int64_eqI: "take_bit 64 x = take_bit 64 y \<Longrightarrow> to_int64 x = to_int64 y"
  by (simp add: to_int64_def signed_take_bit_eq_iff_take_bit_eq)

lemma to_int32_eqI: "take_bit 32 x = take_bit 32 y \<Longrightarrow> to_int32 x = to_int32 y"
  by (simp add: to_int32_def signed_take_bit_eq_iff_take_bit_eq)

lemma take_bit_to_int64: "m \<le> 64 \<Longrightarrow> take_bit m (to_int64 x) = take_bit m x"
  by (simp add: to_int64_def take_bit_signed_take_bit)

lemma sint_64: "sint (w :: uint64_t) = to_int64 (uint w)"
  by (simp add: to_int64_def sint_uint)

lemma magnitude:
  fixes n :: int
  assumes "- (2 ^ 63) \<le> n" "n < 2 ^ 63"
  shows "uint (if n \<ge> 0 then word_of_int n else - word_of_int n :: uint64_t) = \<bar>n\<bar>"
proof -
  have "uint (word_of_int \<bar>n\<bar> :: uint64_t) = take_bit 64 \<bar>n\<bar>"
    by (simp add: unsigned_of_int)
  also have "\<dots> = \<bar>n\<bar>"
    using assms by (intro take_bit_int_eq_self) auto
  finally show ?thesis
    by (auto simp: abs_if)
qed

lemma sdiv64_eq:
  assumes "- (2 ^ 63) \<le> n" "n < 2 ^ 63" "- (2 ^ 63) \<le> d" "d < 2 ^ 63"
  shows "sdiv64 n d = (if d = 0 then None else Some (to_int64 (n sdiv d)))"
proof -
  define n_abs where "n_abs = (if n \<ge> 0 then word_of_int n else - word_of_int n :: uint64_t)"
  define d_abs where "d_abs = (if d \<ge> 0 then word_of_int d else - word_of_int d :: uint64_t)"
  have abs: "uint n_abs = \<bar>n\<bar>" "uint d_abs = \<bar>d\<bar>"
    unfolding n_abs_def d_abs_def using assms magnitude by blast+
  then have z: "d_abs = 0 \<longleftrightarrow> d = 0"
    by (metis abs_eq_0_iff uint_0_iff)
  have q: "uint (n_abs div d_abs) = \<bar>n\<bar> div \<bar>d\<bar>"
    by (simp add: uint_div_distrib abs)
  have neg: "to_int64 (- to_int64 x) = to_int64 (- x)" for x
    by (rule to_int64_eqI) (metis order_refl take_bit_minus take_bit_to_int64)
  show ?thesis
    by (auto simp: sdiv64_def Let_def udiv64_eq z sint_64 q neg signed_divide_int_def sgn_if
        simp flip: n_abs_def d_abs_def)
qed

lemma smod64_eq:
  assumes "- (2 ^ 63) \<le> n" "n < 2 ^ 63" "- (2 ^ 63) \<le> d" "d < 2 ^ 63"
  shows "smod64 n d = (if d = 0 then None else Some (to_int32 (n smod d)))"
proof -
  have low: "take_bit 32 (to_int64 x) = take_bit 32 x" for x
    by (simp add: take_bit_to_int64)
  have "to_int32 (to_int64 (n - to_int64 (d * to_int64 (n sdiv d)))) = to_int32 (n - d * (n sdiv d))"
    by (rule to_int32_eqI) (metis low take_bit_diff take_bit_mult)
  then show ?thesis
    by (simp add: smod64_def sdiv64_eq [OF assms] minus_mult_sdiv_eq_smod)
qed

subsection \<open>Properties\<close>

text \<open>
  C32: the unsigned 64-bit division the compiler calls returns the exact quotient for every
  dividend and every nonzero divisor, so neither \<open>DIVL\<close> inside it traps; only division by
  zero traps.
\<close>

theorem udivdi3_correct: "udivdi3 n d = (if d = 0 then None else Some (n div d))"
  by (simp add: udivdi3_def udiv64_eq)

text \<open>
  the signed 64-bit division truncates towards zero as C asks, for every pair of
  \<^verbatim>\<open>long long\<close> operands; the one quotient that does not fit, \<open>- 2 ^ 63\<close> by
  \<open>- 1\<close>, wraps around.
\<close>

theorem divdi3_correct:
  assumes "- (2 ^ 63) \<le> n" "n < 2 ^ 63" "- (2 ^ 63) \<le> d" "d < 2 ^ 63"
  shows "divdi3 n d = (if d = 0 then None
           else if n = - (2 ^ 63) \<and> d = - 1 then Some (- (2 ^ 63))
           else Some (n sdiv d))"
proof -
  have "- (2 ^ 63) \<le> n sdiv d \<and> n sdiv d < 2 ^ 63" if nd: "\<not> (n = - (2 ^ 63) \<and> d = - 1)" "d \<noteq> 0"
  proof (cases "n = - (2 ^ 63)")
    case True
    consider "d = 1" | "2 \<le> \<bar>d\<bar>"
      using nd True by linarith
    then show ?thesis
    proof cases
      case 1
      then show ?thesis using True by simp
    next
      case 2
      have "(2 ^ 63 :: int) div \<bar>d\<bar> \<le> 2 ^ 63 div 2"
        using 2 by (intro zdiv_mono2) auto
      moreover have "0 \<le> (2 ^ 63 :: int) div \<bar>d\<bar>"
        by (intro pos_imp_zdiv_nonneg_iff [THEN iffD2]) (use 2 in auto)
      moreover have "n sdiv d = 2 ^ 63 div \<bar>d\<bar> \<or> n sdiv d = - (2 ^ 63 div \<bar>d\<bar>)"
        using True nd(2) by (auto simp: signed_divide_int_def sgn_if)
      ultimately show ?thesis
        by auto
    qed
  next
    case False
    then show ?thesis
      using sdiv_int_range [of n d] assms by auto
  qed
  then show ?thesis
    using sdiv64_eq [OF assms] by (auto simp: divdi3_def to_int64_id) (simp add: to_int64_def)
qed

theorem divdi3_correct_witness: "divdi3 (- 7) 2 = Some (- 3)"
  using divdi3_correct [of "- 7" 2] by simp

text \<open>
  C33: the unsigned remainder goes through the 32-bit return type of \<^verbatim>\<open>umod64\<close>, so
  \<^verbatim>\<open>__umoddi3\<close> returns the remainder exactly when it fits in 32 bits.
\<close>

theorem umoddi3_correct_iff:
  assumes "d \<noteq> 0"
  shows "umoddi3 n d = Some (n mod d) \<longleftrightarrow> unat (n mod d) < 2 ^ 32"
proof -
  have "umoddi3 n d = Some (ucast (ucast (n mod d) :: uint32_t))"
    using assms by (simp add: umoddi3_def umod64_eq)
  moreover have "(ucast (ucast (n mod d) :: uint32_t) :: uint64_t) = n mod d \<longleftrightarrow> unat (n mod d) mod 2 ^ 32 = unat (n mod d)"
    by (simp only: ucast_32_64 unat_ucast_32 word_unat_eq_iff unat_of_nat) simp
  ultimately show ?thesis
    by (simp only: option.inject mod_eq_self_iff_div_eq_0 div_eq_0_iff) simp
qed

theorem umoddi3_correct_iff_witness:
  "umoddi3 0x100000000 0x200000000 \<noteq> Some (0x100000000 mod 0x200000000)"
  using umoddi3_correct_iff [of "0x200000000" "0x100000000"] by simp

end
