(* ===== verification/Fifo.thy ===== *)
theory Fifo
  imports Prelude
begin

text \<open>
  The contract of a first-in first-out queue, as the kernel's linked lists
  (\<^verbatim>\<open>list_push_back\<close>, \<^verbatim>\<open>list_pop_front\<close>) and the interrupt queues
  (\<^verbatim>\<open>intq_putc\<close>, \<^verbatim>\<open>intq_getc\<close>) offer it: a representation relation between the
  concrete state and a sequence, a condition under which an element may be
  added, and the laws of the two operations. What the clients rely on, that the
  elements come out in the order they went in, is proved once from the laws.
\<close>

primrec push_all :: "('s \<Rightarrow> 'e \<Rightarrow> 's option) \<Rightarrow> 's \<Rightarrow> 'e list \<Rightarrow> 's option" where
  "push_all push s [] = Some s"
| "push_all push s (e # es) = do { s \<leftarrow> push s e; push_all push s es }"

primrec pop_all :: "('s \<Rightarrow> ('e \<times> 's) option) \<Rightarrow> nat \<Rightarrow> 's \<Rightarrow> ('e list \<times> 's) option" where
  "pop_all pop 0 s = Some ([], s)"
| "pop_all pop (Suc n) s = do { (e, s) \<leftarrow> pop s; (es, s) \<leftarrow> pop_all pop n s; Some (e # es, s) }"

locale fifo =
  fixes rep :: "'s \<Rightarrow> 'e list \<Rightarrow> bool"
    and room :: "'e list \<Rightarrow> 'e \<Rightarrow> bool"
    and push :: "'s \<Rightarrow> 'e \<Rightarrow> 's option"
    and pop :: "'s \<Rightarrow> ('e \<times> 's) option"
  assumes push_rep: "rep s xs \<Longrightarrow> room xs e \<Longrightarrow> \<exists>s'. push s e = Some s' \<and> rep s' (xs @ [e])"
    and pop_rep: "rep s (x # xs) \<Longrightarrow> \<exists>s'. pop s = Some (x, s') \<and> rep s' xs"
    and pop_empty: "rep s [] \<Longrightarrow> pop s = None"
begin

lemma push_all_rep:
  "rep s xs \<Longrightarrow> (\<And>i. i < length es \<Longrightarrow> room (xs @ take i es) (es ! i)) \<Longrightarrow>
   \<exists>s'. push_all push s es = Some s' \<and> rep s' (xs @ es)"
proof (induction es arbitrary: s xs)
  case (Cons e es)
  obtain s' where s': "push s e = Some s'" "rep s' (xs @ [e])"
    using push_rep [OF Cons.prems(1)] Cons.prems(2) [of 0] by auto
  have "room ((xs @ [e]) @ take i es) (es ! i)" if "i < length es" for i
    using that Cons.prems(2) [of "Suc i"] by simp
  then show ?case
    using Cons.IH [OF s'(2)] s'(1) by auto
qed simp

lemma pop_all_rep: "rep s xs \<Longrightarrow> \<exists>s'. pop_all pop (length xs) s = Some (xs, s') \<and> rep s' []"
proof (induction xs arbitrary: s)
  case (Cons x xs)
  obtain s' where "pop s = Some (x, s')" "rep s' xs"
    using pop_rep [OF Cons.prems] by blast
  then show ?case
    using Cons.IH by fastforce
qed simp

lemma fifo_order:
  assumes "rep s xs" "\<And>i. i < length es \<Longrightarrow> room (xs @ take i es) (es ! i)"
  shows "\<exists>s' s''. push_all push s es = Some s' \<and> pop_all pop (length (xs @ es)) s' = Some (xs @ es, s'')
    \<and> rep s'' [] \<and> pop s'' = None"
  using push_all_rep [OF assms] pop_all_rep pop_empty by metis

end

end
