(* ===== verification/DList.thy ===== *)
theory DList
  imports Fifo "HOL-Library.Multiset"
begin

text \<open>
  The doubly linked lists of \<^verbatim>\<open>lib/kernel/list.c\<close>, on an explicit heap of
  \<^verbatim>\<open>struct list_elem\<close> fields, since every operation of the file works by updating
  the links of elements that other code owns. A pointer is an address; a
  \<^verbatim>\<open>struct list\<close> at address \<open>l\<close> holds its head element at \<open>l\<close> and its tail
  element at \<open>l + 8\<close> (\<^verbatim>\<open>lib/kernel/list.h\<close>). Reading or writing a field through a
  null pointer is a page fault in the kernel, \<open>None\<close>. The comparison functions the
  callers pass (with their auxiliary data) look at the structures around the elements,
  never at the links, so they are functions of the two addresses.

  A loop that follows links may run forever on a cyclic structure; such loops are
  \<^theory_text>\<open>partial_function (option)\<close>, and the lemmas below prove that they return.
\<close>

subsection \<open>Elements and lists\<close>

type_synonym ptr = nat

abbreviation (input) NULL :: ptr where "NULL \<equiv> 0"

record list_elems =
  prev :: "ptr \<Rightarrow> ptr"
  nxt :: "ptr \<Rightarrow> ptr"

definition head_of :: "ptr \<Rightarrow> ptr" where
  "head_of l = l"

definition tail_of :: "ptr \<Rightarrow> ptr" where
  "tail_of l = l + 8"

definition load_prev :: "list_elems \<Rightarrow> ptr \<Rightarrow> ptr option" where
  "load_prev h p = (if p = NULL then None else Some (prev h p))"

definition load_next :: "list_elems \<Rightarrow> ptr \<Rightarrow> ptr option" where
  "load_next h p = (if p = NULL then None else Some (nxt h p))"

definition store_prev :: "list_elems \<Rightarrow> ptr \<Rightarrow> ptr \<Rightarrow> list_elems option" where
  "store_prev h p v = (if p = NULL then None else Some (h\<lparr>prev := (prev h)(p := v)\<rparr>))"

definition store_next :: "list_elems \<Rightarrow> ptr \<Rightarrow> ptr \<Rightarrow> list_elems option" where
  "store_next h p v = (if p = NULL then None else Some (h\<lparr>nxt := (nxt h)(p := v)\<rparr>))"

definition is_head :: "list_elems \<Rightarrow> ptr \<Rightarrow> bool" where
  "is_head h e = (e \<noteq> NULL \<and> prev h e = NULL \<and> nxt h e \<noteq> NULL)"

definition is_interior :: "list_elems \<Rightarrow> ptr \<Rightarrow> bool" where
  "is_interior h e = (e \<noteq> NULL \<and> prev h e \<noteq> NULL \<and> nxt h e \<noteq> NULL)"

definition is_tail :: "list_elems \<Rightarrow> ptr \<Rightarrow> bool" where
  "is_tail h e = (e \<noteq> NULL \<and> prev h e \<noteq> NULL \<and> nxt h e = NULL)"

definition list_init :: "list_elems \<Rightarrow> ptr \<Rightarrow> list_elems option" where
  "list_init h l = do {
     ASSERT (l \<noteq> NULL);
     h \<leftarrow> store_prev h (head_of l) NULL;
     h \<leftarrow> store_next h (head_of l) (tail_of l);
     h \<leftarrow> store_prev h (tail_of l) (head_of l);
     store_next h (tail_of l) NULL }"

subsection \<open>Traversal\<close>

definition list_begin :: "list_elems \<Rightarrow> ptr \<Rightarrow> ptr option" where
  "list_begin h l = do { ASSERT (l \<noteq> NULL); load_next h (head_of l) }"

definition list_next :: "list_elems \<Rightarrow> ptr \<Rightarrow> ptr option" where
  "list_next h e = do { ASSERT (is_head h e \<or> is_interior h e); load_next h e }"

definition list_end :: "ptr \<Rightarrow> ptr option" where
  "list_end l = do { ASSERT (l \<noteq> NULL); Some (tail_of l) }"

definition list_rbegin :: "list_elems \<Rightarrow> ptr \<Rightarrow> ptr option" where
  "list_rbegin h l = do { ASSERT (l \<noteq> NULL); load_prev h (tail_of l) }"

definition list_prev :: "list_elems \<Rightarrow> ptr \<Rightarrow> ptr option" where
  "list_prev h e = do { ASSERT (is_interior h e \<or> is_tail h e); load_prev h e }"

definition list_rend :: "ptr \<Rightarrow> ptr option" where
  "list_rend l = do { ASSERT (l \<noteq> NULL); Some (head_of l) }"

definition list_head :: "ptr \<Rightarrow> ptr option" where
  "list_head l = do { ASSERT (l \<noteq> NULL); Some (head_of l) }"

definition list_tail :: "ptr \<Rightarrow> ptr option" where
  "list_tail l = do { ASSERT (l \<noteq> NULL); Some (tail_of l) }"

subsection \<open>Insertion and removal\<close>

definition list_insert :: "list_elems \<Rightarrow> ptr \<Rightarrow> ptr \<Rightarrow> list_elems option" where
  "list_insert h before elem = do {
     ASSERT (is_interior h before \<or> is_tail h before);
     ASSERT (elem \<noteq> NULL);
     p \<leftarrow> load_prev h before;
     h \<leftarrow> store_prev h elem p;
     h \<leftarrow> store_next h elem before;
     p \<leftarrow> load_prev h before;
     h \<leftarrow> store_next h p elem;
     store_prev h before elem }"

definition list_splice :: "list_elems \<Rightarrow> ptr \<Rightarrow> ptr \<Rightarrow> ptr \<Rightarrow> list_elems option" where
  "list_splice h before first lst = do {
     ASSERT (is_interior h before \<or> is_tail h before);
     if first = lst then Some h
     else do {
       lst \<leftarrow> list_prev h lst;
       ASSERT (is_interior h first);
       ASSERT (is_interior h lst);
       p \<leftarrow> load_prev h first;
       n \<leftarrow> load_next h lst;
       h \<leftarrow> store_next h p n;
       n \<leftarrow> load_next h lst;
       p \<leftarrow> load_prev h first;
       h \<leftarrow> store_prev h n p;
       p \<leftarrow> load_prev h before;
       h \<leftarrow> store_prev h first p;
       h \<leftarrow> store_next h lst before;
       p \<leftarrow> load_prev h before;
       h \<leftarrow> store_next h p first;
       store_prev h before lst } }"

definition list_push_front :: "list_elems \<Rightarrow> ptr \<Rightarrow> ptr \<Rightarrow> list_elems option" where
  "list_push_front h l elem = do { b \<leftarrow> list_begin h l; list_insert h b elem }"

definition list_push_back :: "list_elems \<Rightarrow> ptr \<Rightarrow> ptr \<Rightarrow> list_elems option" where
  "list_push_back h l elem = do { e \<leftarrow> list_end l; list_insert h e elem }"

definition list_remove :: "list_elems \<Rightarrow> ptr \<Rightarrow> (ptr \<times> list_elems) option" where
  "list_remove h elem = do {
     ASSERT (is_interior h elem);
     p \<leftarrow> load_prev h elem;
     n \<leftarrow> load_next h elem;
     h \<leftarrow> store_next h p n;
     n \<leftarrow> load_next h elem;
     p \<leftarrow> load_prev h elem;
     h \<leftarrow> store_prev h n p;
     n \<leftarrow> load_next h elem;
     Some (n, h) }"

definition list_empty :: "list_elems \<Rightarrow> ptr \<Rightarrow> bool option" where
  "list_empty h l = do { b \<leftarrow> list_begin h l; e \<leftarrow> list_end l; Some (b = e) }"

definition list_front :: "list_elems \<Rightarrow> ptr \<Rightarrow> ptr option" where
  "list_front h l = do { e \<leftarrow> list_empty h l; ASSERT (\<not> e); load_next h (head_of l) }"

definition list_back :: "list_elems \<Rightarrow> ptr \<Rightarrow> ptr option" where
  "list_back h l = do { e \<leftarrow> list_empty h l; ASSERT (\<not> e); load_prev h (tail_of l) }"

definition list_pop_front :: "list_elems \<Rightarrow> ptr \<Rightarrow> (ptr \<times> list_elems) option" where
  "list_pop_front h l = do {
     front \<leftarrow> list_front h l;
     (_, h) \<leftarrow> list_remove h front;
     Some (front, h) }"

definition list_pop_back :: "list_elems \<Rightarrow> ptr \<Rightarrow> (ptr \<times> list_elems) option" where
  "list_pop_back h l = do {
     back \<leftarrow> list_back h l;
     (_, h) \<leftarrow> list_remove h back;
     Some (back, h) }"

partial_function (option) list_size_loop ::
  "list_elems \<Rightarrow> ptr \<Rightarrow> ptr \<Rightarrow> size_t \<Rightarrow> size_t option" where
  "list_size_loop h e lend cnt =
     (if e = lend then Some cnt
      else do { e' \<leftarrow> list_next h e; list_size_loop h e' lend (cnt + 1) })"

definition list_size :: "list_elems \<Rightarrow> ptr \<Rightarrow> size_t option" where
  "list_size h l = do { b \<leftarrow> list_begin h l; e \<leftarrow> list_end l; list_size_loop h b e 0 }"

subsection \<open>Reversal\<close>

text \<open>\<open>swap\<close> on the two fields of one element, and on one field each of two elements.\<close>

definition swap_links :: "list_elems \<Rightarrow> ptr \<Rightarrow> list_elems option" where
  "swap_links h e = do {
     p \<leftarrow> load_prev h e;
     n \<leftarrow> load_next h e;
     h \<leftarrow> store_prev h e n;
     store_next h e p }"

partial_function (option) list_reverse_loop ::
  "list_elems \<Rightarrow> ptr \<Rightarrow> ptr \<Rightarrow> list_elems option" where
  "list_reverse_loop h e lend =
     (if e = lend then Some h
      else do {
        h \<leftarrow> swap_links h e;
        e' \<leftarrow> load_prev h e;
        list_reverse_loop h e' lend })"

definition list_reverse :: "list_elems \<Rightarrow> ptr \<Rightarrow> list_elems option" where
  "list_reverse h l = do {
     empty \<leftarrow> list_empty h l;
     if empty then Some h
     else do {
       b \<leftarrow> list_begin h l;
       e \<leftarrow> list_end l;
       h \<leftarrow> list_reverse_loop h b e;
       n \<leftarrow> load_next h (head_of l);
       p \<leftarrow> load_prev h (tail_of l);
       h \<leftarrow> store_next h (head_of l) p;
       h \<leftarrow> store_prev h (tail_of l) n;
       f \<leftarrow> load_next h (head_of l);
       b \<leftarrow> load_prev h (tail_of l);
       fp \<leftarrow> load_prev h f;
       bn \<leftarrow> load_next h b;
       h \<leftarrow> store_prev h f bn;
       store_next h b fp } }"

subsection \<open>Ordered lists\<close>

type_synonym list_less_func = "ptr \<Rightarrow> ptr \<Rightarrow> bool"

partial_function (option) is_sorted_loop ::
  "list_elems \<Rightarrow> ptr \<Rightarrow> ptr \<Rightarrow> list_less_func \<Rightarrow> bool option" where
  "is_sorted_loop h a b lt = do {
     a \<leftarrow> list_next h a;
     if a = b then Some True
     else do {
       p \<leftarrow> list_prev h a;
       if lt a p then Some False else is_sorted_loop h a b lt } }"

definition is_sorted :: "list_elems \<Rightarrow> ptr \<Rightarrow> ptr \<Rightarrow> list_less_func \<Rightarrow> bool option" where
  "is_sorted h a b lt = (if a \<noteq> b then is_sorted_loop h a b lt else Some True)"

partial_function (option) end_of_run_loop ::
  "list_elems \<Rightarrow> ptr \<Rightarrow> ptr \<Rightarrow> list_less_func \<Rightarrow> ptr option" where
  "end_of_run_loop h a b lt = do {
     a \<leftarrow> list_next h a;
     if a = b then Some a
     else do {
       p \<leftarrow> list_prev h a;
       if \<not> lt a p then end_of_run_loop h a b lt else Some a } }"

definition find_end_of_run :: "list_elems \<Rightarrow> ptr \<Rightarrow> ptr \<Rightarrow> list_less_func \<Rightarrow> ptr option" where
  "find_end_of_run h a b lt = do {
     ASSERT (a \<noteq> NULL);
     ASSERT (b \<noteq> NULL);
     ASSERT (a \<noteq> b);
     end_of_run_loop h a b lt }"

partial_function (option) inplace_merge_loop ::
  "list_elems \<Rightarrow> ptr \<Rightarrow> ptr \<Rightarrow> ptr \<Rightarrow> list_less_func \<Rightarrow> list_elems option" where
  "inplace_merge_loop h a0 a1b0 b1 lt =
     (if a0 \<noteq> a1b0 \<and> a1b0 \<noteq> b1 then
        (if \<not> lt a1b0 a0 then do {
           a0 \<leftarrow> list_next h a0;
           inplace_merge_loop h a0 a1b0 b1 lt }
         else do {
           a1b0 \<leftarrow> list_next h a1b0;
           p \<leftarrow> list_prev h a1b0;
           h \<leftarrow> list_splice h a0 p a1b0;
           inplace_merge_loop h a0 a1b0 b1 lt })
      else Some h)"

definition inplace_merge ::
  "list_elems \<Rightarrow> ptr \<Rightarrow> ptr \<Rightarrow> ptr \<Rightarrow> list_less_func \<Rightarrow> list_elems option" where
  "inplace_merge h a0 a1b0 b1 lt = do {
     ASSERT (a0 \<noteq> NULL);
     ASSERT (a1b0 \<noteq> NULL);
     ASSERT (b1 \<noteq> NULL);
     s \<leftarrow> is_sorted h a0 a1b0 lt;
     ASSERT s;
     s \<leftarrow> is_sorted h a1b0 b1 lt;
     ASSERT s;
     inplace_merge_loop h a0 a1b0 b1 lt }"

partial_function (option) list_sort_pass ::
  "list_elems \<Rightarrow> ptr \<Rightarrow> ptr \<Rightarrow> list_less_func \<Rightarrow> size_t \<Rightarrow> (size_t \<times> list_elems) option" where
  "list_sort_pass h l a0 lt output_run_cnt = do {
     e \<leftarrow> list_end l;
     if a0 = e then Some (output_run_cnt, h)
     else do {
       a1b0 \<leftarrow> find_end_of_run h a0 e lt;
       if a1b0 = e then Some (output_run_cnt + 1, h)
       else do {
         b1 \<leftarrow> find_end_of_run h a1b0 e lt;
         h \<leftarrow> inplace_merge h a0 a1b0 b1 lt;
         list_sort_pass h l b1 lt (output_run_cnt + 1) } } }"

partial_function (option) list_sort_loop ::
  "list_elems \<Rightarrow> ptr \<Rightarrow> list_less_func \<Rightarrow> list_elems option" where
  "list_sort_loop h l lt = do {
     b \<leftarrow> list_begin h l;
     (output_run_cnt, h) \<leftarrow> list_sort_pass h l b lt 0;
     if output_run_cnt > 1 then list_sort_loop h l lt else Some h }"

definition list_sort :: "list_elems \<Rightarrow> ptr \<Rightarrow> list_less_func \<Rightarrow> list_elems option" where
  "list_sort h l lt = do {
     ASSERT (l \<noteq> NULL);
     h \<leftarrow> list_sort_loop h l lt;
     b \<leftarrow> list_begin h l;
     e \<leftarrow> list_end l;
     s \<leftarrow> is_sorted h b e lt;
     ASSERT s;
     Some h }"

partial_function (option) insert_position ::
  "list_elems \<Rightarrow> ptr \<Rightarrow> ptr \<Rightarrow> ptr \<Rightarrow> list_less_func \<Rightarrow> ptr option" where
  "insert_position h e lend elem lt =
     (if e = lend then Some e
      else if lt elem e then Some e
      else do { e' \<leftarrow> list_next h e; insert_position h e' lend elem lt })"

definition list_insert_ordered ::
  "list_elems \<Rightarrow> ptr \<Rightarrow> ptr \<Rightarrow> list_less_func \<Rightarrow> list_elems option" where
  "list_insert_ordered h l elem lt = do {
     ASSERT (l \<noteq> NULL);
     ASSERT (elem \<noteq> NULL);
     b \<leftarrow> list_begin h l;
     lend \<leftarrow> list_end l;
     e \<leftarrow> insert_position h b lend elem lt;
     list_insert h e elem }"

partial_function (option) list_unique_loop ::
  "list_elems \<Rightarrow> ptr \<Rightarrow> ptr \<Rightarrow> ptr \<Rightarrow> list_less_func \<Rightarrow> list_elems option" where
  "list_unique_loop h l duplicates elem lt = do {
     n \<leftarrow> list_next h elem;
     e \<leftarrow> list_end l;
     if n = e then Some h
     else if \<not> lt elem n \<and> \<not> lt n elem then do {
       (_, h) \<leftarrow> list_remove h n;
       h \<leftarrow> (if duplicates \<noteq> NULL then list_push_back h duplicates n else Some h);
       list_unique_loop h l duplicates elem lt }
     else list_unique_loop h l duplicates n lt }"

definition list_unique ::
  "list_elems \<Rightarrow> ptr \<Rightarrow> ptr \<Rightarrow> list_less_func \<Rightarrow> list_elems option" where
  "list_unique h l duplicates lt = do {
     ASSERT (l \<noteq> NULL);
     empty \<leftarrow> list_empty h l;
     if empty then Some h
     else do { elem \<leftarrow> list_begin h l; list_unique_loop h l duplicates elem lt } }"

partial_function (option) list_max_loop ::
  "list_elems \<Rightarrow> ptr \<Rightarrow> ptr \<Rightarrow> ptr \<Rightarrow> list_less_func \<Rightarrow> ptr option" where
  "list_max_loop h lend e m lt =
     (if e = lend then Some m
      else do {
        e' \<leftarrow> list_next h e;
        list_max_loop h lend e' (if lt m e then e else m) lt })"

definition list_max :: "list_elems \<Rightarrow> ptr \<Rightarrow> list_less_func \<Rightarrow> ptr option" where
  "list_max h l lt = do {
     m \<leftarrow> list_begin h l;
     lend \<leftarrow> list_end l;
     if m \<noteq> lend then do { e \<leftarrow> list_next h m; list_max_loop h lend e m lt }
     else Some m }"

partial_function (option) list_min_loop ::
  "list_elems \<Rightarrow> ptr \<Rightarrow> ptr \<Rightarrow> ptr \<Rightarrow> list_less_func \<Rightarrow> ptr option" where
  "list_min_loop h lend e m lt =
     (if e = lend then Some m
      else do {
        e' \<leftarrow> list_next h e;
        list_min_loop h lend e' (if lt e m then e else m) lt })"

definition list_min :: "list_elems \<Rightarrow> ptr \<Rightarrow> list_less_func \<Rightarrow> ptr option" where
  "list_min h l lt = do {
     m \<leftarrow> list_begin h l;
     lend \<leftarrow> list_end l;
     if m \<noteq> lend then do { e \<leftarrow> list_next h m; list_min_loop h lend e m lt }
     else Some m }"

subsection \<open>The abstraction: a heap holds a list\<close>

fun linked :: "list_elems \<Rightarrow> ptr list \<Rightarrow> bool" where
  "linked h (a # b # ps) = (nxt h a = b \<and> prev h b = a \<and> linked h (b # ps))"
| "linked h _ = True"

abbreviation cells :: "ptr \<Rightarrow> ptr list \<Rightarrow> ptr list" where
  "cells l xs \<equiv> head_of l # xs @ [tail_of l]"

definition dlist :: "list_elems \<Rightarrow> ptr \<Rightarrow> ptr list \<Rightarrow> bool" where
  "dlist h l xs \<longleftrightarrow> 0 \<notin> set (cells l xs) \<and> distinct (cells l xs) \<and> linked h (cells l xs)
     \<and> prev h (head_of l) = NULL \<and> nxt h (tail_of l) = NULL"

definition unchanged_outside :: "ptr set \<Rightarrow> list_elems \<Rightarrow> list_elems \<Rightarrow> bool" where
  "unchanged_outside A h h' \<longleftrightarrow> (\<forall>p. p \<notin> A \<longrightarrow> prev h' p = prev h p \<and> nxt h' p = nxt h p)"

named_theorems heap_ops

lemmas heap_op_defs [heap_ops] =
  load_prev_def load_next_def store_prev_def store_next_def
  is_head_def is_interior_def is_tail_def

lemma unchanged_outside_refl [simp]: "unchanged_outside A h h"
  by (simp add: unchanged_outside_def)

lemma unchanged_outside_trans:
  "unchanged_outside A h h' \<Longrightarrow> unchanged_outside B h' h'' \<Longrightarrow> unchanged_outside (A \<union> B) h h''"
  by (auto simp: unchanged_outside_def)

lemma unchanged_outside_mono: "unchanged_outside A h h' \<Longrightarrow> A \<subseteq> B \<Longrightarrow> unchanged_outside B h h'"
  by (auto simp: unchanged_outside_def)

lemma unchanged_outside_step:
  "unchanged_outside A h h' \<Longrightarrow> unchanged_outside B h' h'' \<Longrightarrow> A \<subseteq> C \<Longrightarrow> B \<subseteq> C \<Longrightarrow> unchanged_outside C h h''"
  by (rule unchanged_outside_mono [OF unchanged_outside_trans [of A h h' B h'']]) auto

lemma linked_append:
  "linked h (xs @ ys) \<longleftrightarrow> linked h xs \<and> linked h ys \<and>
     (xs \<noteq> [] \<and> ys \<noteq> [] \<longrightarrow> nxt h (last xs) = hd ys \<and> prev h (hd ys) = last xs)"
proof (induction xs rule: induct_list012)
  case (2 x)
  then show ?case by (cases ys) auto
qed auto

lemma linked_glue:
  "linked h xs \<Longrightarrow> linked h ys \<Longrightarrow> nxt h (last xs) = hd ys \<Longrightarrow> prev h (hd ys) = last xs \<Longrightarrow>
   linked h (xs @ ys)"
  by (simp add: linked_append)

lemma linked_Cons:
  "linked h (x # ys) \<longleftrightarrow> linked h ys \<and> (ys \<noteq> [] \<longrightarrow> nxt h x = hd ys \<and> prev h (hd ys) = x)"
  using linked_append [of h "[x]" ys] by simp

lemma linked_cong:
  "\<forall>p \<in> set (butlast ps). nxt h' p = nxt h p \<Longrightarrow> \<forall>p \<in> set (tl ps). prev h' p = prev h p \<Longrightarrow>
   linked h' ps = linked h ps"
  by (induction ps rule: induct_list012) auto

lemma dlist_frame:
  assumes "unchanged_outside A h h'" "A \<inter> set (cells l xs) = {}"
  shows "dlist h' l xs = dlist h l xs"
proof -
  have "linked h' (cells l xs) = linked h (cells l xs)"
    using assms by (intro linked_cong) (auto simp: unchanged_outside_def butlast_append)
  then show ?thesis
    using assms by (auto simp: dlist_def unchanged_outside_def)
qed

lemma dlist_not_NULL: "dlist h l xs \<Longrightarrow> l \<noteq> NULL"
  by (simp add: dlist_def head_of_def)

lemma hd_neq: "z \<notin> set xs \<Longrightarrow> xs \<noteq> [] \<Longrightarrow> hd xs \<noteq> z"
  using hd_in_set by blast

lemma last_neq: "z \<notin> set xs \<Longrightarrow> xs \<noteq> [] \<Longrightarrow> last xs \<noteq> z"
  using last_in_set by blast

lemma last_notin_butlast: "distinct xs \<Longrightarrow> xs \<noteq> [] \<Longrightarrow> last xs \<notin> set (butlast xs)"
  by (metis append_butlast_last_id distinct.simps(2) distinct1_rotate rotate1.simps(2))

lemma hd_notin_tl: "distinct xs \<Longrightarrow> xs \<noteq> [] \<Longrightarrow> hd xs \<notin> set (tl xs)"
  by (metis distinct.simps(2) list.collapse)

text \<open>A linked run survives any change of the links that leave it.\<close>

lemma linked_update:
  assumes "linked h ps" "distinct ps"
    and "\<And>p. p \<in> set ps \<Longrightarrow> p \<noteq> last ps \<Longrightarrow> nxt h' p = nxt h p"
    and "\<And>p. p \<in> set ps \<Longrightarrow> p \<noteq> hd ps \<Longrightarrow> prev h' p = prev h p"
  shows "linked h' ps"
proof (cases "ps = []")
  case False
  have "nxt h' p = nxt h p" if "p \<in> set (butlast ps)" for p
    using that assms(3) last_notin_butlast [OF assms(2) False] in_set_butlastD by metis
  moreover have "prev h' p = prev h p" if "p \<in> set (tl ps)" for p
    using that assms(4) hd_notin_tl [OF assms(2) False] list.set_sel(2) [OF False] by metis
  ultimately show ?thesis
    using assms(1) linked_cong [of ps h' h] by blast
qed simp

lemma dlist_parts:
  assumes "dlist h l (xs @ ys)"
  shows "linked h (head_of l # xs)" "linked h (ys @ [tail_of l])"
    and "distinct (head_of l # xs)" "distinct (ys @ [tail_of l])"
    and "set (head_of l # xs) \<inter> set (ys @ [tail_of l]) = {}"
  using assms linked_append [of h "head_of l # xs" "ys @ [tail_of l]"] by (auto simp: dlist_def)

text \<open>The links across any split point of a list, and around one element.\<close>

lemma dlist_split:
  assumes "dlist h l (xs @ ys)"
  shows "nxt h (last (head_of l # xs)) = hd (ys @ [tail_of l])"
    and "prev h (hd (ys @ [tail_of l])) = last (head_of l # xs)"
    and "hd (ys @ [tail_of l]) \<noteq> 0" and "last (head_of l # xs) \<noteq> 0"
proof -
  have "linked h ((head_of l # xs) @ (ys @ [tail_of l]))"
    using assms by (simp add: dlist_def)
  then show "nxt h (last (head_of l # xs)) = hd (ys @ [tail_of l])"
    "prev h (hd (ys @ [tail_of l])) = last (head_of l # xs)"
    unfolding linked_append by blast+
  show "hd (ys @ [tail_of l]) \<noteq> 0" "last (head_of l # xs) \<noteq> 0"
    using assms by (intro hd_neq last_neq; simp add: dlist_def)+
qed

lemma dlist_links:
  assumes "dlist h l (xs @ e # ys)"
  shows "nxt h e = hd (ys @ [tail_of l])" and "prev h e = last (head_of l # xs)"
    and "e \<noteq> 0" and "hd (ys @ [tail_of l]) \<noteq> 0" and "last (head_of l # xs) \<noteq> 0"
  using dlist_split [of h l "xs @ [e]" ys] dlist_split [of h l xs "e # ys"] assms by auto

lemma dlist_interior: "dlist h l (xs @ e # ys) \<Longrightarrow> is_interior h e"
  using dlist_links [of h l xs e ys] by (simp add: is_interior_def)

lemma dlist_head: "dlist h l xs \<Longrightarrow> is_head h (head_of l)"
  using dlist_split [of h l "[]" xs] by (auto simp: is_head_def dlist_def)

lemma dlist_tail: "dlist h l xs \<Longrightarrow> is_tail h (tail_of l)"
  using dlist_split [of h l xs "[]"] by (auto simp: is_tail_def dlist_def)

lemma dlist_hd_valid:
  "dlist h l (xs @ ys) \<Longrightarrow> is_interior h (hd (ys @ [tail_of l])) \<or> is_tail h (hd (ys @ [tail_of l]))"
  by (cases ys) (auto dest: dlist_interior dlist_tail)

lemma list_next_interior: "dlist h l (xs @ e # ys) \<Longrightarrow> list_next h e = Some (hd (ys @ [tail_of l]))"
  using dlist_links [of h l xs e ys] dlist_interior [of h l xs e ys]
  by (simp add: list_next_def load_next_def)

lemma list_prev_hd:
  "dlist h l (xs @ ys) \<Longrightarrow> list_prev h (hd (ys @ [tail_of l])) = Some (last (head_of l # xs))"
  using dlist_split [of h l xs ys] dlist_hd_valid [of h l xs ys]
  by (simp add: list_prev_def load_prev_def)

lemma list_begin_dlist: "dlist h l xs \<Longrightarrow> list_begin h l = Some (hd (xs @ [tail_of l]))"
  using dlist_split [of h l "[]" xs] dlist_not_NULL [of h l xs]
  by (simp add: list_begin_def load_next_def)

lemma list_end_dlist: "dlist h l xs \<Longrightarrow> list_end l = Some (tail_of l)"
  using dlist_not_NULL [of h l xs] by (simp add: list_end_def)

lemma dlist_hd_eq_tail: "dlist h l (xs @ ys) \<Longrightarrow> hd (ys @ [tail_of l]) = tail_of l \<longleftrightarrow> ys = []"
  by (cases ys) (auto simp: dlist_def)

lemma list_empty_dlist: "dlist h l xs \<Longrightarrow> list_empty h l = Some (xs = [])"
  using dlist_hd_eq_tail [of h l "[]" xs]
  by (simp add: list_empty_def list_begin_dlist list_end_dlist)

subsection \<open>Insertion and removal keep the list\<close>

lemma list_insert_dlist:
  assumes l: "dlist h l (xs @ ys)" and e: "e \<notin> set (cells l (xs @ ys))" "e \<noteq> NULL"
  shows "\<exists>h'. list_insert h (hd (ys @ [tail_of l])) e = Some h' \<and> dlist h' l (xs @ e # ys)
    \<and> unchanged_outside (insert e (set (cells l (xs @ ys)))) h h'"
proof -
  define b where "b = hd (ys @ [tail_of l])"
  define p where "p = last (head_of l # xs)"
  define h' where "h' = h\<lparr>prev := (prev h)(e := p, b := e), nxt := (nxt h)(e := b, p := e)\<rparr>"
  have b: "b \<in> set (ys @ [tail_of l])" and p: "p \<in> set (head_of l # xs)"
    unfolding b_def p_def by (rule hd_in_set, simp) (rule last_in_set, simp)
  have pb: "p \<noteq> b" "e \<noteq> b" "e \<noteq> p"
    using b p e l by (auto simp: dlist_def)
  note links = dlist_split [OF l, folded b_def p_def]
  have "list_insert h b e = Some h'"
    using links pb e(2) dlist_hd_valid [OF l, folded b_def]
    by (simp add: list_insert_def h'_def load_prev_def store_prev_def store_next_def)
  moreover have "dlist h' l (xs @ e # ys)"
  proof -
    note parts = dlist_parts [OF l]
    have "linked h' (head_of l # xs)"
      using parts b e pb by (intro linked_update [OF parts(1,3)]) (auto simp: h'_def p_def)
    moreover have "linked h' (ys @ [tail_of l])"
      using parts p e pb by (intro linked_update [OF parts(2,4)]) (auto simp: h'_def b_def)
    moreover have "nxt h' p = e" "prev h' e = p" "nxt h' e = b" "prev h' b = e"
      using pb by (simp_all add: h'_def)
    ultimately have "linked h' ((head_of l # xs) @ [e] @ (ys @ [tail_of l]))"
      unfolding b_def p_def by (intro linked_glue [where xs = "head_of l # xs"] linked_glue [where xs = "[e]"]) simp_all
    then show ?thesis
      using l e b p pb by (auto simp: dlist_def h'_def)
  qed
  moreover have "unchanged_outside (insert e (set (cells l (xs @ ys)))) h h'"
    using b p by (auto simp: unchanged_outside_def h'_def)
  ultimately show ?thesis
    unfolding b_def by blast
qed

lemma list_remove_dlist:
  assumes l: "dlist h l (xs @ e # ys)"
  shows "\<exists>h'. list_remove h e = Some (hd (ys @ [tail_of l]), h') \<and> dlist h' l (xs @ ys)
    \<and> unchanged_outside (set (cells l (xs @ ys))) h h'"
proof -
  define b where "b = hd (ys @ [tail_of l])"
  define p where "p = last (head_of l # xs)"
  define h' where "h' = h\<lparr>prev := (prev h)(b := p), nxt := (nxt h)(p := b)\<rparr>"
  have b: "b \<in> set (ys @ [tail_of l])" and p: "p \<in> set (head_of l # xs)"
    unfolding b_def p_def by (rule hd_in_set, simp) (rule last_in_set, simp)
  have pb: "p \<noteq> b" "e \<noteq> b" "e \<noteq> p"
    using b p l by (auto simp: dlist_def)
  note links = dlist_links [OF l, folded b_def p_def]
  have "list_remove h e = Some (b, h')"
    using links pb dlist_interior [OF l]
    by (simp add: list_remove_def h'_def load_prev_def load_next_def store_prev_def store_next_def)
  moreover have "dlist h' l (xs @ ys)"
  proof -
    have l': "dlist h l ((xs @ [e]) @ ys)"
      using l by simp
    note left = dlist_parts [OF l] and right = dlist_parts [OF l']
    have "linked h' (head_of l # xs)"
      using left b pb by (intro linked_update [OF left(1,3)]) (auto simp: h'_def p_def)
    moreover have "linked h' (ys @ [tail_of l])"
      using right p pb by (intro linked_update [OF right(2,4)]) (auto simp: h'_def b_def)
    moreover have "nxt h' p = b" "prev h' b = p"
      by (simp_all add: h'_def)
    ultimately have "linked h' ((head_of l # xs) @ (ys @ [tail_of l]))"
      unfolding b_def p_def by (intro linked_glue [where xs = "head_of l # xs"]) simp_all
    then show ?thesis
      using l b p pb by (auto simp: dlist_def h'_def)
  qed
  moreover have "unchanged_outside (set (cells l (xs @ ys))) h h'"
    using b p by (auto simp: unchanged_outside_def h'_def)
  ultimately show ?thesis
    unfolding b_def by blast
qed

lemma list_init_dlist:
  assumes "l \<noteq> NULL"
  shows "\<exists>h'. list_init h l = Some h' \<and> dlist h' l [] \<and> unchanged_outside {head_of l, tail_of l} h h'"
  using assms
  by (auto simp: list_init_def heap_ops head_of_def tail_of_def dlist_def unchanged_outside_def)

lemma list_push_front_dlist:
  assumes "dlist h l xs" "e \<notin> set (cells l xs)" "e \<noteq> NULL"
  shows "\<exists>h'. list_push_front h l e = Some h' \<and> dlist h' l (e # xs)
    \<and> unchanged_outside (insert e (set (cells l xs))) h h'"
  using list_insert_dlist [of h l "[]" xs e] assms
  by (simp add: list_push_front_def list_begin_dlist)

lemma list_push_back_dlist:
  assumes "dlist h l xs" "e \<notin> set (cells l xs)" "e \<noteq> NULL"
  shows "\<exists>h'. list_push_back h l e = Some h' \<and> dlist h' l (xs @ [e])
    \<and> unchanged_outside (insert e (set (cells l xs))) h h'"
  using list_insert_dlist [of h l xs "[]" e] assms
  by (simp add: list_push_back_def list_end_dlist)

lemma list_pop_front_dlist:
  assumes "dlist h l (x # xs)"
  shows "\<exists>h'. list_pop_front h l = Some (x, h') \<and> dlist h' l xs
    \<and> unchanged_outside (set (cells l xs)) h h'"
  using list_remove_dlist [of h l "[]" x xs] dlist_split [of h l "[]" "x # xs"] assms
  by (auto simp: list_pop_front_def list_front_def list_empty_dlist load_next_def)

lemma list_pop_back_dlist:
  assumes "dlist h l (xs @ [x])"
  shows "\<exists>h'. list_pop_back h l = Some (x, h') \<and> dlist h' l xs
    \<and> unchanged_outside (set (cells l xs)) h h'"
  using list_remove_dlist [of h l xs x "[]"] dlist_split [of h l "xs @ [x]" "[]"] assms
  by (auto simp: list_pop_back_def list_back_def list_empty_dlist load_prev_def)

lemma list_pop_front_empty: "dlist h l [] \<Longrightarrow> list_pop_front h l = None"
  by (simp add: list_pop_front_def list_front_def list_empty_dlist)

lemma list_pop_back_empty: "dlist h l [] \<Longrightarrow> list_pop_back h l = None"
  by (simp add: list_pop_back_def list_back_def list_empty_dlist)

lemma list_size_loop_dlist:
  "dlist h l (xs @ ys) \<Longrightarrow>
   list_size_loop h (hd (ys @ [tail_of l])) (tail_of l) cnt = Some (cnt + of_nat (length ys))"
proof (induction ys arbitrary: xs cnt)
  case Nil
  then show ?case by (simp add: list_size_loop.simps)
next
  case (Cons y ys)
  have "y \<noteq> tail_of l"
    using Cons.prems by (auto simp: dlist_def)
  then show ?case
    using Cons.IH [of "xs @ [y]" "cnt + 1"] Cons.prems list_next_interior [OF Cons.prems]
    by (simp add: list_size_loop.simps [of h y])
qed

lemma list_size_dlist: "dlist h l xs \<Longrightarrow> list_size h l = Some (of_nat (length xs))"
  using list_size_loop_dlist [of h l "[]" xs 0]
  by (simp add: list_size_def list_begin_dlist list_end_dlist)

subsection \<open>Reversal\<close>

lemma list_reverse_loop_swaps:
  assumes "linked h (xs @ [lend])" "distinct (xs @ [lend])" "0 \<notin> set xs"
  shows "list_reverse_loop h (hd (xs @ [lend])) lend =
    Some (h\<lparr>prev := (\<lambda>p. if p \<in> set xs then nxt h p else prev h p),
            nxt := (\<lambda>p. if p \<in> set xs then prev h p else nxt h p)\<rparr>)"
  using assms
proof (induction xs arbitrary: h)
  case Nil
  then show ?case by (simp add: list_reverse_loop.simps)
next
  case (Cons x xs)
  define g where "g = h\<lparr>prev := (prev h)(x := nxt h x), nxt := (nxt h)(x := prev h x)\<rparr>"
  have x: "linked h (xs @ [lend])" "nxt h x = hd (xs @ [lend])" "x \<noteq> lend" "x \<noteq> 0"
    using Cons.prems by (auto simp: linked_Cons)
  moreover have "linked g (xs @ [lend])"
    using Cons.prems by (intro linked_update [OF x(1)]) (auto simp: g_def)
  ultimately have "list_reverse_loop h x lend = list_reverse_loop g (hd (xs @ [lend])) lend"
    and "list_reverse_loop g (hd (xs @ [lend])) lend =
      Some (g\<lparr>prev := (\<lambda>p. if p \<in> set xs then nxt g p else prev g p),
              nxt := (\<lambda>p. if p \<in> set xs then prev g p else nxt g p)\<rparr>)"
    using Cons.IH [of g] Cons.prems
    by (simp_all add: list_reverse_loop.simps [of h x] swap_links_def heap_ops g_def)
  then show ?case
    using Cons.prems by (auto simp: g_def fun_eq_iff)
qed

lemma linked_rev:
  assumes "linked h ps" "\<And>p. p \<in> set ps \<Longrightarrow> prev h' p = nxt h p \<and> nxt h' p = prev h p"
  shows "linked h' (rev ps)"
  using assms by (induction ps rule: induct_list012) (auto simp: linked_append)

lemma list_reverse_dlist:
  assumes l: "dlist h l xs"
  shows "\<exists>h'. list_reverse h l = Some h' \<and> dlist h' l (rev xs) \<and> unchanged_outside (set (cells l xs)) h h'"
proof (cases "xs = []")
  case True
  then show ?thesis
    using l by (auto simp: list_reverse_def list_empty_dlist)
next
  case False
  define g where "g = h\<lparr>prev := (\<lambda>p. if p \<in> set xs then nxt h p else prev h p),
      nxt := (\<lambda>p. if p \<in> set xs then prev h p else nxt h p)\<rparr>"
  define h' where "h' = g\<lparr>prev := (prev g)(tail_of l := hd xs, last xs := head_of l),
      nxt := (nxt g)(head_of l := last xs, hd xs := tail_of l)\<rparr>"
  have xs: "hd xs \<in> set xs" "last xs \<in> set xs"
    using False by simp_all
  have outer: "nxt h (head_of l) = hd xs" "prev h (tail_of l) = last xs"
    "nxt h (last xs) = tail_of l" "prev h (hd xs) = head_of l"
    using dlist_split [of h l "[]" xs] dlist_split [of h l xs "[]"] l False by auto
  have cells: "distinct (cells l xs)" "0 \<notin> set (cells l xs)"
    using l by (simp_all add: dlist_def)
  have neq: "hd xs \<noteq> head_of l" "hd xs \<noteq> tail_of l" "last xs \<noteq> head_of l" "last xs \<noteq> tail_of l"
    "hd xs \<noteq> 0" "last xs \<noteq> 0"
    using cells False by (intro hd_neq last_neq; simp)+
  have "list_reverse_loop h (hd xs) (tail_of l) = Some g"
    using list_reverse_loop_swaps [of h xs "tail_of l"] dlist_parts [of h l "[]" xs] cells l False
    by (simp add: g_def)
  moreover have "nxt g (head_of l) = hd xs" "prev g (tail_of l) = last xs"
    "prev g (last xs) = tail_of l" "nxt g (hd xs) = head_of l"
    using xs outer cells by (auto simp: g_def)
  ultimately have "list_reverse h l = Some h'"
    using l False neq cells
    by (simp add: list_reverse_def list_empty_dlist list_begin_dlist list_end_dlist heap_ops h'_def)
  moreover have "dlist h' l (rev xs)"
  proof -
    have "linked h xs"
      using l linked_append [of h "[head_of l]" "xs @ [tail_of l]"] linked_append [of h xs "[tail_of l]"]
      by (simp add: dlist_def)
    then have "linked g (rev xs)"
      by (rule linked_rev) (simp add: g_def)
    then have "linked h' (rev xs)"
      using cells False by (rule_tac linked_update [of g]) (auto simp: h'_def hd_rev last_rev)
    then have "linked h' ([head_of l] @ rev xs @ [tail_of l])"
      using cells False xs
      by (intro linked_glue [where xs = "[head_of l]"] linked_glue [where xs = "rev xs"])
        (auto simp: h'_def hd_append hd_rev last_rev)
    then show ?thesis
      using l cells xs by (auto simp: dlist_def h'_def g_def)
  qed
  moreover have "unchanged_outside (set (cells l xs)) h h'"
    using xs by (auto simp: unchanged_outside_def h'_def g_def)
  ultimately show ?thesis by blast
qed

subsection \<open>Splicing\<close>

lemma list_splice_single:
  assumes "is_interior h a \<or> is_tail h a" "list_prev h n = Some b" "b \<noteq> n"
    and "list_remove h b = Some (n', g)" "list_insert g a b = Some h'"
  shows "list_splice h a b n = Some h'"
  using assms
  by (auto simp: list_splice_def list_remove_def list_insert_def bind_eq_Some_conv)

lemma list_splice_move:
  assumes l: "dlist h l (us @ a # as @ b # bs)"
  shows "\<exists>h'. list_splice h a b (hd (bs @ [tail_of l])) = Some h' \<and> dlist h' l (us @ b # a # as @ bs)
    \<and> unchanged_outside (set (cells l (us @ a # as @ b # bs))) h h'"
proof -
  have l': "dlist h l ((us @ a # as) @ b # bs)" "dlist h l ((us @ a # as @ [b]) @ bs)"
    using l by simp_all
  obtain g where g: "list_remove h b = Some (hd (bs @ [tail_of l]), g)" "dlist g l (us @ a # as @ bs)"
    "unchanged_outside (set (cells l (us @ a # as @ bs))) h g"
    using list_remove_dlist [OF l'(1)] by auto
  have "b \<notin> set (cells l (us @ a # as @ bs))" "b \<noteq> 0"
    using l by (auto simp: dlist_def)
  then obtain h' where h': "list_insert g a b = Some h'" "dlist h' l (us @ b # a # as @ bs)"
    "unchanged_outside (insert b (set (cells l (us @ a # as @ bs)))) g h'"
    using list_insert_dlist [of g l us "a # as @ bs" b] g(2) by auto
  have "list_prev h (hd (bs @ [tail_of l])) = Some b" "b \<noteq> hd (bs @ [tail_of l])"
    using list_prev_hd [OF l'(2)] l hd_in_set [of "bs @ [tail_of l]"] by (auto simp: dlist_def)
  then have "list_splice h a b (hd (bs @ [tail_of l])) = Some h'"
    using list_splice_single [OF _ _ _ g(1) h'(1)] dlist_interior [OF l] by blast
  then show ?thesis
    using h'(2) unchanged_outside_trans [OF g(3) h'(3)] by (auto elim: unchanged_outside_mono)
qed

subsection \<open>Runs and merging\<close>

abbreviation in_order :: "list_less_func \<Rightarrow> ptr list \<Rightarrow> bool" where
  "in_order lt \<equiv> successively (\<lambda>x y. \<not> lt y x)"

fun run_split :: "list_less_func \<Rightarrow> ptr list \<Rightarrow> ptr list \<times> ptr list" where
  "run_split lt (x # y # ys) =
     (if lt y x then ([x], y # ys) else let (r, s) = run_split lt (y # ys) in (x # r, s))"
| "run_split lt xs = (xs, [])"

fun merge :: "list_less_func \<Rightarrow> ptr list \<Rightarrow> ptr list \<Rightarrow> ptr list" where
  "merge lt (a # as) (b # bs) =
     (if lt b a then b # merge lt (a # as) bs else a # merge lt as (b # bs))"
| "merge lt as [] = as"
| "merge lt [] bs = bs"

lemma is_sorted_loop_dlist:
  "dlist h l (us @ x # xs @ vs) \<Longrightarrow>
   is_sorted_loop h x (hd (vs @ [tail_of l])) lt = Some (in_order lt (x # xs))"
proof (induction xs arbitrary: us x)
  case Nil
  then show ?case
    using list_next_interior [of h l us x vs] by (simp add: is_sorted_loop.simps)
next
  case (Cons y xs)
  have "hd (vs @ [tail_of l]) \<noteq> y"
    using Cons.prems hd_in_set [of "vs @ [tail_of l]"] by (auto simp: dlist_def)
  moreover have "list_next h x = Some y" "list_prev h y = Some x"
    using Cons.prems list_next_interior [of h l us x "y # xs @ vs"]
      list_prev_hd [of h l "us @ [x]" "y # xs @ vs"] by simp_all
  ultimately show ?case
    using Cons.IH [of "us @ [x]" y] Cons.prems by (simp add: is_sorted_loop.simps [of h x])
qed

lemma is_sorted_dlist:
  assumes "dlist h l (us @ xs @ vs)"
  shows "is_sorted h (hd (xs @ vs @ [tail_of l])) (hd (vs @ [tail_of l])) lt = Some (in_order lt xs)"
proof (cases xs)
  case (Cons x xs')
  have "hd (vs @ [tail_of l]) \<noteq> x"
    using assms Cons hd_in_set [of "vs @ [tail_of l]"] by (auto simp: dlist_def)
  then show ?thesis
    using assms Cons is_sorted_loop_dlist [of h l us x xs' vs lt] by (simp add: is_sorted_def)
qed (simp add: is_sorted_def)

lemma end_of_run_loop_dlist:
  "dlist h l (us @ x # xs) \<Longrightarrow>
   end_of_run_loop h x (tail_of l) lt = Some (hd (snd (run_split lt (x # xs)) @ [tail_of l]))"
proof (induction xs arbitrary: us x)
  case Nil
  then show ?case
    using list_next_interior [of h l us x "[]"] by (simp add: end_of_run_loop.simps)
next
  case (Cons y xs)
  have "y \<noteq> tail_of l"
    using Cons.prems by (auto simp: dlist_def)
  moreover have "list_next h x = Some y" "list_prev h y = Some x"
    using Cons.prems list_next_interior [of h l us x "y # xs"]
      list_prev_hd [of h l "us @ [x]" "y # xs"] by simp_all
  ultimately show ?case
    using Cons.IH [of "us @ [x]" y] Cons.prems
    by (simp add: end_of_run_loop.simps [of h x] split: prod.split)
qed

lemma find_end_of_run_dlist:
  assumes "dlist h l (us @ xs)" "xs \<noteq> []"
  shows "find_end_of_run h (hd (xs @ [tail_of l])) (tail_of l) lt =
    Some (hd (snd (run_split lt xs) @ [tail_of l]))"
  using assms end_of_run_loop_dlist [of h l us "hd xs" "tl xs" lt]
  by (cases xs) (auto simp: find_end_of_run_def dlist_def)

lemma inplace_merge_loop_dlist:
  "dlist h l (us @ as @ bs @ vs) \<Longrightarrow>
   \<exists>h'. inplace_merge_loop h (hd (as @ bs @ vs @ [tail_of l])) (hd (bs @ vs @ [tail_of l]))
          (hd (vs @ [tail_of l])) lt = Some h'
     \<and> dlist h' l (us @ merge lt as bs @ vs) \<and> unchanged_outside (set (cells l (us @ as @ bs @ vs))) h h'"
proof (induction lt as bs arbitrary: us h rule: merge.induct)
  case (1 lt a as b bs)
  have neq: "a \<noteq> b" "b \<noteq> hd (vs @ [tail_of l])"
    using "1.prems" hd_in_set [of "vs @ [tail_of l]"] by (auto simp: dlist_def)
  show ?case
  proof (cases "lt b a")
    case True
    obtain g where g: "list_splice h a b (hd (bs @ vs @ [tail_of l])) = Some g"
      "dlist g l (us @ b # a # as @ bs @ vs)"
      "unchanged_outside (set (cells l (us @ a # as @ b # bs @ vs))) h g"
      using list_splice_move [of h l us a as b "bs @ vs"] "1.prems" by auto
    have "list_next h b = Some (hd (bs @ vs @ [tail_of l]))"
      "list_prev h (hd (bs @ vs @ [tail_of l])) = Some b"
      using list_next_interior [of h l "us @ a # as" b "bs @ vs"]
        list_prev_hd [of h l "us @ a # as @ [b]" "bs @ vs"] "1.prems" by simp_all
    moreover obtain h' where "inplace_merge_loop g a (hd (bs @ vs @ [tail_of l])) (hd (vs @ [tail_of l])) lt = Some h'"
      "dlist h' l (us @ b # merge lt (a # as) bs @ vs)"
      "unchanged_outside (set (cells l (us @ b # a # as @ bs @ vs))) g h'"
      using "1.IH"(1) [OF True, of g "us @ [b]"] g(2) by auto
    ultimately show ?thesis
      using g True neq
      by (auto simp: inplace_merge_loop.simps [of h a b] intro: unchanged_outside_step [OF g(3)])
  next
    case False
    have "list_next h a = Some (hd (as @ b # bs @ vs @ [tail_of l]))"
      using list_next_interior [of h l us a "as @ b # bs @ vs"] "1.prems" by simp
    then show ?thesis
      using "1.IH"(2) [OF False, of h "us @ [a]"] "1.prems" False neq
      by (auto simp: inplace_merge_loop.simps [of h a b])
  qed
qed (auto simp: inplace_merge_loop.simps)

lemma run_split_append [simp]: "fst (run_split lt xs) @ snd (run_split lt xs) = xs"
  by (induction lt xs rule: run_split.induct) (auto split: prod.splits)

lemma run_split_nonempty: "xs \<noteq> [] \<Longrightarrow> fst (run_split lt xs) \<noteq> []"
  by (induction lt xs rule: run_split.induct) (auto split: prod.splits)

lemma run_split_hd: "xs \<noteq> [] \<Longrightarrow> hd (fst (run_split lt xs)) = hd xs"
  by (induction lt xs rule: run_split.induct) (auto split: prod.splits)

lemma in_order_run: "in_order lt (fst (run_split lt xs))"
proof (induction lt xs rule: run_split.induct)
  case (1 lt x y ys)
  then show ?case
    using run_split_hd [of "y # ys" lt] run_split_nonempty [of "y # ys" lt]
    by (auto simp: successively_Cons split: prod.splits)
qed auto

lemma run_split_length: "xs \<noteq> [] \<Longrightarrow> length (snd (run_split lt xs)) < length xs"
  using run_split_nonempty [of xs lt] arg_cong [OF run_split_append [of lt xs], of length]
  by (cases "fst (run_split lt xs)") auto

function merge_pass :: "list_less_func \<Rightarrow> ptr list \<Rightarrow> ptr list" where
  "merge_pass lt xs =
     (if xs = [] then []
      else let (r, s) = run_split lt xs in
        if s = [] then r
        else let (r', s') = run_split lt s in merge lt r r' @ merge_pass lt s')"
  by pat_completeness auto
termination
proof (relation "measure (length \<circ> snd)", goal_cases)
  case (2 lt xs p r s q r' s')
  then show ?case
    using run_split_length [of xs lt] run_split_length [of s lt] by (metis comp_apply in_measure order.strict_trans snd_conv)
qed simp

declare merge_pass.simps [simp del]

fun runs :: "list_less_func \<Rightarrow> ptr list \<Rightarrow> nat" where
  "runs lt (x # y # ys) = (if lt y x then 1 else 0) + runs lt (y # ys)"
| "runs lt [x] = 1"
| "runs lt [] = 0"

lemma runs_run_split: "xs \<noteq> [] \<Longrightarrow> runs lt xs = Suc (runs lt (snd (run_split lt xs)))"
  by (induction lt xs rule: run_split.induct) (auto split: prod.splits)

lemma runs_in_order: "in_order lt xs \<longleftrightarrow> runs lt xs \<le> 1"
proof (induction lt xs rule: runs.induct)
  case (1 lt x y ys)
  then show ?case
    using runs_run_split [of "y # ys" lt] by auto
qed auto

lemma runs_append: "runs lt (xs @ ys) \<le> runs lt xs + runs lt ys"
proof (induction lt xs rule: runs.induct)
  case (2 lt x)
  then show ?case by (cases ys) auto
qed auto

lemma runs_le_length: "runs lt xs \<le> length xs"
  by (induction lt xs rule: runs.induct) auto

lemma hd_merge: "merge lt as bs \<noteq> [] \<Longrightarrow> hd (merge lt as bs) \<in> {hd as, hd bs}"
  by (cases "(lt, as, bs)" rule: merge.cases) auto

lemma in_order_merge:
  "asymp lt \<Longrightarrow> in_order lt as \<Longrightarrow> in_order lt bs \<Longrightarrow> in_order lt (merge lt as bs)"
proof (induction lt as bs rule: merge.induct)
  case (1 lt a as b bs)
  then show ?case
    using hd_merge [of lt "a # as" bs] hd_merge [of lt as "b # bs"]
      asympD [OF "1.prems"(1), of b a]
    by (cases "lt b a") (auto simp: successively_Cons)
qed auto

lemma mset_merge [simp]: "mset (merge lt as bs) = mset as + mset bs"
  by (induction lt as bs rule: merge.induct) auto

lemma set_merge [simp]: "set (merge lt as bs) = set as \<union> set bs"
  by (induction lt as bs rule: merge.induct) auto

lemma merge_eq_Nil [simp]: "merge lt as bs = [] \<longleftrightarrow> as = [] \<and> bs = []"
  by (cases "(lt, as, bs)" rule: merge.cases) auto

lemma merge_pass_cases:
  obtains "xs = []" "merge_pass lt xs = []"
  | "xs \<noteq> []" "snd (run_split lt xs) = []" "merge_pass lt xs = xs" "in_order lt xs" "runs lt xs = 1"
  | r r' ys where "xs = r @ r' @ ys" "r \<noteq> []" "r' \<noteq> []" "in_order lt r" "in_order lt r'"
    "snd (run_split lt xs) = r' @ ys" "snd (run_split lt (r' @ ys)) = ys"
    "merge_pass lt xs = merge lt r r' @ merge_pass lt ys" "runs lt xs = runs lt ys + 2"
proof (cases "xs = []")
  case True
  then show ?thesis
    using that(1) by (simp add: merge_pass.simps)
next
  case False
  show ?thesis
  proof (cases "snd (run_split lt xs) = []")
    case True
    then show ?thesis
      using False that(2) run_split_append [of lt xs] in_order_run [of lt xs] runs_run_split [of xs lt]
      by (simp add: merge_pass.simps [of lt xs] case_prod_beta')
  next
    case more: False
    define r r' ys where "r = fst (run_split lt xs)"
      and "r' = fst (run_split lt (snd (run_split lt xs)))"
      and "ys = snd (run_split lt (snd (run_split lt xs)))"
    have *: "snd (run_split lt xs) = r' @ ys"
      by (simp add: r'_def ys_def)
    have "xs = r @ r' @ ys" "snd (run_split lt (r' @ ys)) = ys"
      using run_split_append [of lt xs] by (simp_all add: r_def flip: *) (simp add: ys_def)
    moreover have "r \<noteq> []" "r' \<noteq> []" "in_order lt r" "in_order lt r'"
      unfolding r_def r'_def by (rule run_split_nonempty in_order_run; fact)+
    moreover have "merge_pass lt xs = merge lt r r' @ merge_pass lt ys"
      using False more by (simp add: merge_pass.simps [of lt xs] case_prod_beta' Let_def r_def r'_def ys_def)
    moreover have "runs lt xs = runs lt ys + 2"
      using runs_run_split [OF False, of lt] runs_run_split [OF more, of lt] by (simp add: ys_def)
    ultimately show ?thesis
      using that(3) * by blast
  qed
qed

lemma mset_merge_pass [simp]: "mset (merge_pass lt xs) = mset xs"
proof (induction "length xs" arbitrary: xs rule: less_induct)
  case less
  show ?case
    by (cases rule: merge_pass_cases [of xs lt]) (use less in \<open>auto simp: ac_simps\<close>)
qed

lemma runs_merge_pass:
  assumes asym: "asymp lt"
  shows "runs lt (merge_pass lt xs) \<le> (runs lt xs + 1) div 2"
proof (induction "length xs" arbitrary: xs rule: less_induct)
  case less
  show ?case
  proof (cases rule: merge_pass_cases [of xs lt])
    case (3 r r' ys)
    have "runs lt (merge lt r r') \<le> 1"
      using in_order_merge [OF asym] 3 runs_in_order [of lt "merge lt r r'"] by simp
    then show ?thesis
      using less [of ys] 3 runs_append [of lt "merge lt r r'" "merge_pass lt ys"] by simp
  qed auto
qed

lemma inplace_merge_dlist:
  assumes l: "dlist h l (us @ as @ bs @ vs)" and "in_order lt as" "in_order lt bs"
  shows "\<exists>h'. inplace_merge h (hd (as @ bs @ vs @ [tail_of l])) (hd (bs @ vs @ [tail_of l]))
          (hd (vs @ [tail_of l])) lt = Some h'
     \<and> dlist h' l (us @ merge lt as bs @ vs) \<and> unchanged_outside (set (cells l (us @ as @ bs @ vs))) h h'"
  using assms inplace_merge_loop_dlist [OF l] is_sorted_dlist [of h l us as "bs @ vs"]
    is_sorted_dlist [of h l "us @ as" bs vs] dlist_split [of h l us "as @ bs @ vs"]
    dlist_split [of h l "us @ as" "bs @ vs"] dlist_split [of h l "us @ as @ bs" vs]
  by (simp add: inplace_merge_def)

lemma list_sort_pass_dlist:
  "dlist h l (us @ xs) \<Longrightarrow>
   \<exists>h'. list_sort_pass h l (hd (xs @ [tail_of l])) lt n = Some (n + of_nat ((runs lt xs + 1) div 2), h')
     \<and> dlist h' l (us @ merge_pass lt xs) \<and> unchanged_outside (set (cells l (us @ xs))) h h'"
proof (induction "length xs" arbitrary: xs us h n rule: less_induct)
  case less
  note lend = list_end_dlist [OF less.prems]
  have neq: "hd (xs @ [tail_of l]) \<noteq> tail_of l" if "xs \<noteq> []"
    using that dlist_hd_eq_tail [OF less.prems] by simp
  note run = find_end_of_run_dlist [OF less.prems, of lt]
  show ?case
  proof (cases rule: merge_pass_cases [of xs lt])
    case 1
    then show ?thesis
      using less.prems lend by (simp add: list_sort_pass.simps)
  next
    case 2
    then show ?thesis
      using less.prems lend neq run by (simp add: list_sort_pass.simps)
  next
    case (3 r r' ys)
    obtain g where g: "inplace_merge h (hd (xs @ [tail_of l])) (hd (r' @ ys @ [tail_of l]))
        (hd (ys @ [tail_of l])) lt = Some g" "dlist g l (us @ merge lt r r' @ ys)"
        "unchanged_outside (set (cells l (us @ xs))) h g"
      using inplace_merge_dlist [of h l us r r' ys lt] less.prems 3 by auto
    have run': "find_end_of_run h (hd (r' @ ys @ [tail_of l])) (tail_of l) lt = Some (hd (ys @ [tail_of l]))"
      using find_end_of_run_dlist [of h l "us @ r" "r' @ ys" lt] less.prems 3 by simp
    have neq': "hd (r' @ ys @ [tail_of l]) \<noteq> tail_of l"
      using dlist_hd_eq_tail [of h l "us @ r" "r' @ ys"] less.prems 3 by simp
    obtain h' where h': "list_sort_pass g l (hd (ys @ [tail_of l])) lt (n + 1) =
        Some (n + 1 + of_nat ((runs lt ys + 1) div 2), h')" "dlist h' l (us @ merge_pass lt xs)"
        "unchanged_outside (set (cells l (us @ merge lt r r' @ ys))) g h'"
      using less.hyps [of ys g "us @ merge lt r r'" "n + 1"] g(2) 3 by auto
    have "list_sort_pass h l (hd (xs @ [tail_of l])) lt n = Some (n + of_nat ((runs lt xs + 1) div 2), h')"
      using lend neq neq' run run' g(1) h'(1) 3
      by (subst list_sort_pass.simps) simp
    moreover have "unchanged_outside (set (cells l (us @ xs))) h h'"
      using 3 by (intro unchanged_outside_step [OF g(3) h'(3)]) auto
    ultimately show ?thesis
      using h'(2) by blast
  qed
qed

text \<open>The sorting loop repeats the pass until one run is left.\<close>

lemma list_sort_loop_dlist:
  "asymp lt \<Longrightarrow> dlist h l xs \<Longrightarrow> length xs < 2 ^ 32 \<Longrightarrow>
   \<exists>h' n. list_sort_loop h l lt = Some h' \<and> dlist h' l ((merge_pass lt ^^ n) xs)
     \<and> in_order lt ((merge_pass lt ^^ n) xs) \<and> unchanged_outside (set (cells l xs)) h h'"
proof (induction "runs lt xs" arbitrary: xs h rule: less_induct)
  case less
  obtain g where g: "list_sort_pass h l (hd (xs @ [tail_of l])) lt 0 = Some (of_nat ((runs lt xs + 1) div 2), g)"
      "dlist g l (merge_pass lt xs)" "unchanged_outside (set (cells l xs)) h g"
    using list_sort_pass_dlist [of h l "[]" xs lt 0] less.prems by auto
  let ?n = "(runs lt xs + 1) div 2"
  have word: "(of_nat ?n :: size_t) > 1 \<longleftrightarrow> ?n > 1"
    using runs_le_length [of lt xs] less.prems by (simp add: word_less_nat_alt unat_of_nat)
  have runs: "runs lt (merge_pass lt xs) \<le> ?n"
    using runs_merge_pass less.prems by blast
  show ?case
  proof (cases "?n > 1")
    case True
    have "length (merge_pass lt xs) < 2 ^ 32" "set (cells l (merge_pass lt xs)) = set (cells l xs)"
      using less.prems mset_eq_length [OF mset_merge_pass] mset_eq_setD [OF mset_merge_pass] by simp_all
    moreover have "runs lt (merge_pass lt xs) < runs lt xs"
      using runs True by simp
    ultimately obtain h' n where h': "list_sort_loop g l lt = Some h'" "dlist h' l ((merge_pass lt ^^ Suc n) xs)"
        "in_order lt ((merge_pass lt ^^ Suc n) xs)" "unchanged_outside (set (cells l xs)) g h'"
      using less.hyps [of "merge_pass lt xs" g] less.prems g(2) by (auto simp: funpow_swap1)
    then have "list_sort_loop h l lt = Some h'"
      using g True less.prems word by (simp add: list_sort_loop.simps [of h] list_begin_dlist)
    then show ?thesis
      using h'(2,3) unchanged_outside_step [OF g(3) h'(4)] by blast
  next
    case False
    then have "list_sort_loop h l lt = Some g"
      using g less.prems word by (simp add: list_sort_loop.simps [of h] list_begin_dlist)
    then show ?thesis
      using False runs g by (intro exI [of _ g] exI [of _ 1]) (auto simp: runs_in_order)
  qed
qed

lemma list_sort_dlist:
  assumes "asymp lt" "dlist h l xs" "length xs < 2 ^ 32"
  shows "\<exists>h' n. list_sort h l lt = Some h' \<and> dlist h' l ((merge_pass lt ^^ n) xs)
     \<and> in_order lt ((merge_pass lt ^^ n) xs) \<and> unchanged_outside (set (cells l xs)) h h'"
proof -
  obtain h' n where h': "list_sort_loop h l lt = Some h'" "dlist h' l ((merge_pass lt ^^ n) xs)"
    "in_order lt ((merge_pass lt ^^ n) xs)" "unchanged_outside (set (cells l xs)) h h'"
    using list_sort_loop_dlist [OF assms] by blast
  then show ?thesis
    using is_sorted_dlist [of h' l "[]" "(merge_pass lt ^^ n) xs" "[]" lt] dlist_not_NULL [OF assms(2)]
    by (auto simp: list_sort_def list_begin_dlist list_end_dlist)
qed

lemma mset_merge_passes: "mset ((merge_pass lt ^^ n) xs) = mset xs"
  by (induction n) auto

subsection \<open>Sorting by a key is stable\<close>

abbreviation key_less :: "(ptr \<Rightarrow> 'k::linorder) \<Rightarrow> list_less_func" where
  "key_less key \<equiv> \<lambda>x y. key x < key y"

lemma asymp_key_less: "asymp (key_less key)"
  by (auto intro: asympI)

lemma in_order_key: "in_order (key_less key) xs \<longleftrightarrow> sorted (map key xs)"
  by (induction xs rule: induct_list012) (auto simp: not_less intro: order_trans)

lemma filter_merge:
  "sorted (map key as) \<Longrightarrow> filter (\<lambda>x. key x = k) (merge (key_less key) as bs) =
   filter (\<lambda>x. key x = k) as @ filter (\<lambda>x. key x = k) bs"
proof (induction "key_less key" as bs rule: merge.induct)
  case (1 a as b bs)
  show ?case
  proof (cases "key b < key a")
    case True
    have "filter (\<lambda>x. key x = key b) (a # as) = []"
      using True "1.prems" by (auto simp: filter_empty_conv)
    then show ?thesis
      using True 1 by auto
  qed (use 1 in auto)
qed auto

lemma filter_merge_pass:
  "filter (\<lambda>x. key x = k) (merge_pass (key_less key) xs) = filter (\<lambda>x. key x = k) xs"
proof (induction "length xs" arbitrary: xs rule: less_induct)
  case less
  show ?case
    by (cases rule: merge_pass_cases [of xs "key_less key"])
      (use less in \<open>auto simp: filter_merge in_order_key\<close>)
qed

lemma merge_passes_sort_key:
  assumes "in_order (key_less key) ((merge_pass (key_less key) ^^ n) xs)"
  shows "(merge_pass (key_less key) ^^ n) xs = sort_key key xs"
proof (rule properties_for_sort_key [symmetric])
  show "mset ((merge_pass (key_less key) ^^ n) xs) = mset xs"
    by (rule mset_merge_passes)
  show "filter (\<lambda>x. key k = key x) ((merge_pass (key_less key) ^^ n) xs) = filter (\<lambda>x. key k = key x) xs" for k
    by (induction n) (simp_all add: filter_merge_pass eq_commute [of "key k"])
  show "sorted (map key ((merge_pass (key_less key) ^^ n) xs))"
    using assms by (simp add: in_order_key)
qed

subsection \<open>Insertion into an ordered list, maximum and minimum\<close>

lemma insert_position_dlist:
  "dlist h l (us @ xs) \<Longrightarrow> insert_position h (hd (xs @ [tail_of l])) (tail_of l) elem lt =
   Some (hd (dropWhile (\<lambda>x. \<not> lt elem x) xs @ [tail_of l]))"
proof (induction xs arbitrary: us)
  case (Cons x xs)
  have "x \<noteq> tail_of l"
    using Cons.prems by (auto simp: dlist_def)
  then show ?case
    using Cons.IH [of "us @ [x]"] Cons.prems list_next_interior [OF Cons.prems]
    by (auto simp: insert_position.simps [of h x])
qed (simp add: insert_position.simps)

lemma list_insert_ordered_dlist:
  assumes "dlist h l xs" "e \<notin> set (cells l xs)" "e \<noteq> NULL"
  shows "\<exists>h'. list_insert_ordered h l e lt = Some h'
    \<and> dlist h' l (takeWhile (\<lambda>x. \<not> lt e x) xs @ e # dropWhile (\<lambda>x. \<not> lt e x) xs)
    \<and> unchanged_outside (insert e (set (cells l xs))) h h'"
  using list_insert_dlist [of h l "takeWhile (\<lambda>x. \<not> lt e x) xs" "dropWhile (\<lambda>x. \<not> lt e x) xs" e]
    insert_position_dlist [of h l "[]" xs e lt] assms dlist_not_NULL [OF assms(1)]
  by (simp add: list_insert_ordered_def list_begin_dlist list_end_dlist)

lemma list_max_loop_dlist:
  "dlist h l (us @ xs) \<Longrightarrow> list_max_loop h (tail_of l) (hd (xs @ [tail_of l])) m lt =
   Some (foldl (\<lambda>m e. if lt m e then e else m) m xs)"
proof (induction xs arbitrary: us m)
  case (Cons x xs)
  have "x \<noteq> tail_of l"
    using Cons.prems by (auto simp: dlist_def)
  then show ?case
    using Cons.IH [of "us @ [x]"] Cons.prems list_next_interior [OF Cons.prems]
    by (simp add: list_max_loop.simps [of h _ x])
qed (simp add: list_max_loop.simps)

lemma list_min_loop_dlist:
  "dlist h l (us @ xs) \<Longrightarrow> list_min_loop h (tail_of l) (hd (xs @ [tail_of l])) m lt =
   Some (foldl (\<lambda>m e. if lt e m then e else m) m xs)"
proof (induction xs arbitrary: us m)
  case (Cons x xs)
  have "x \<noteq> tail_of l"
    using Cons.prems by (auto simp: dlist_def)
  then show ?case
    using Cons.IH [of "us @ [x]"] Cons.prems list_next_interior [OF Cons.prems]
    by (simp add: list_min_loop.simps [of h _ x])
qed (simp add: list_min_loop.simps)

lemma list_max_dlist:
  assumes "dlist h l (x # xs)"
  shows "list_max h l lt = Some (foldl (\<lambda>m e. if lt m e then e else m) x xs)"
  using assms list_max_loop_dlist [of h l "[x]" xs x lt] list_next_interior [of h l "[]" x xs]
    dlist_hd_eq_tail [of h l "[]" "x # xs"]
  by (simp add: list_max_def list_begin_dlist list_end_dlist)

lemma list_min_dlist:
  assumes "dlist h l (x # xs)"
  shows "list_min h l lt = Some (foldl (\<lambda>m e. if lt e m then e else m) x xs)"
  using assms list_min_loop_dlist [of h l "[x]" xs x lt] list_next_interior [of h l "[]" x xs]
    dlist_hd_eq_tail [of h l "[]" "x # xs"]
  by (simp add: list_min_def list_begin_dlist list_end_dlist)

lemma list_max_min_empty:
  assumes "dlist h l []"
  shows "list_max h l lt = Some (tail_of l)" "list_min h l lt = Some (tail_of l)"
  using assms by (simp_all add: list_max_def list_min_def list_begin_dlist list_end_dlist)

text \<open>Keeping the first of the largest keys, as the loop of \<^verbatim>\<open>list_max\<close> does.\<close>

lemma foldl_max_key:
  "\<exists>as bs. x # xs = as @ foldl (\<lambda>m e. if key m < (key e :: 'k::linorder) then e else m) x xs # bs
    \<and> (\<forall>y \<in> set as. key y < key (foldl (\<lambda>m e. if key m < key e then e else m) x xs))
    \<and> (\<forall>y \<in> set bs. key y \<le> key (foldl (\<lambda>m e. if key m < key e then e else m) x xs))"
proof (induction xs rule: rev_induct)
  case (snoc y xs)
  let ?m = "foldl (\<lambda>m e. if key m < key e then e else m) x xs"
  obtain as bs where *: "x # xs = as @ ?m # bs" "\<forall>y \<in> set as. key y < key ?m" "\<forall>y \<in> set bs. key y \<le> key ?m"
    using snoc by blast
  show ?case
  proof (cases "key ?m < key y")
    case True
    moreover have "\<forall>z \<in> set (x # xs). key z < key y"
      unfolding *(1) using * True by auto
    ultimately show ?thesis
      by (intro exI [of _ "x # xs"] exI [of _ "[]"]) simp
  next
    case False
    then show ?thesis
      using * by (intro exI [of _ as] exI [of _ "bs @ [y]"]) auto
  qed
qed (intro exI [of _ "[]"], simp)

subsection \<open>Removing duplicates\<close>

fun uniq :: "list_less_func \<Rightarrow> ptr list \<Rightarrow> ptr list" where
  "uniq lt (x # y # ys) =
     (if \<not> lt x y \<and> \<not> lt y x then uniq lt (x # ys) else x # uniq lt (y # ys))"
| "uniq lt [x] = [x]"
| "uniq lt [] = []"

fun dups :: "list_less_func \<Rightarrow> ptr list \<Rightarrow> ptr list" where
  "dups lt (x # y # ys) =
     (if \<not> lt x y \<and> \<not> lt y x then y # dups lt (x # ys) else dups lt (y # ys))"
| "dups lt xs = []"

lemma mset_uniq_dups: "mset (uniq lt xs) + mset (dups lt xs) = mset xs"
  by (induction lt xs rule: uniq.induct) auto

definition apart :: "list_elems \<Rightarrow> ptr \<Rightarrow> ptr list \<Rightarrow> ptr \<Rightarrow> ptr list \<Rightarrow> bool" where
  "apart h l xs d ds \<longleftrightarrow> dlist h l xs \<and>
     (d \<noteq> NULL \<longrightarrow> dlist h d ds \<and> set (cells d ds) \<inter> set (cells l xs) = {})"

lemma move_duplicate:
  assumes a: "apart h l (us @ y # ys) d ds"
  shows "\<exists>n g g'. list_remove h y = Some (n, g)
    \<and> (if d \<noteq> NULL then list_push_back g d y else Some g) = Some g' \<and> apart g' l (us @ ys) d (ds @ [y])"
proof -
  have l: "dlist h l (us @ y # ys)"
    using a by (simp add: apart_def)
  obtain n g where g: "list_remove h y = Some (n, g)" "dlist g l (us @ ys)"
      "unchanged_outside (set (cells l (us @ ys))) h g"
    using list_remove_dlist [OF l] by auto
  show ?thesis
  proof (cases "d = NULL")
    case True
    then show ?thesis using g by (simp add: apart_def)
  next
    case False
    then have d: "dlist h d ds" "set (cells d ds) \<inter> set (cells l (us @ y # ys)) = {}"
      using a by (simp_all add: apart_def)
    then have "dlist g d ds" "y \<notin> set (cells d ds)" "y \<noteq> NULL"
      using dlist_frame [OF g(3), of d ds] l by (auto simp: dlist_def)
    then obtain g' where g': "list_push_back g d y = Some g'" "dlist g' d (ds @ [y])"
        "unchanged_outside (insert y (set (cells d ds))) g g'"
      using list_push_back_dlist by blast
    have "insert y (set (cells d ds)) \<inter> set (cells l (us @ ys)) = {}"
      using d l by (auto simp: dlist_def)
    then show ?thesis
      using dlist_frame [OF g'(3), of l "us @ ys"] g g' False by (auto simp: apart_def)
  qed
qed

lemma list_unique_loop_dlist:
  "apart h l (us @ x # xs) d ds \<Longrightarrow>
   \<exists>h'. list_unique_loop h l d x lt = Some h' \<and> apart h' l (us @ uniq lt (x # xs)) d (ds @ dups lt (x # xs))"
proof (induction lt "x # xs" arbitrary: x xs us ds h rule: uniq.induct)
  case (1 lt x y ys)
  have l: "dlist h l (us @ x # y # ys)"
    using "1.prems" by (simp add: apart_def)
  have nx: "list_next h x = Some y" "list_end l = Some (tail_of l)" "y \<noteq> tail_of l"
    using list_next_interior [OF l] list_end_dlist [OF l] l by (auto simp: dlist_def)
  show ?case
  proof (cases "\<not> lt x y \<and> \<not> lt y x")
    case True
    then obtain n g g' where g: "list_remove h y = Some (n, g)"
        "(if d \<noteq> NULL then list_push_back g d y else Some g) = Some g'" "apart g' l (us @ x # ys) d (ds @ [y])"
      using move_duplicate [of h l "us @ [x]" y ys d ds] "1.prems" by auto
    then have "list_unique_loop h l d x lt = list_unique_loop g' l d x lt"
      using True nx by (simp add: list_unique_loop.simps [of h])
    then show ?thesis
      using "1.hyps"(1) [OF True g(3)] True by simp
  next
    case False
    then have "list_unique_loop h l d x lt = list_unique_loop h l d y lt"
      using nx by (subst list_unique_loop.simps) auto
    then show ?thesis
      using "1.hyps"(2) [OF False, of h "us @ [x]" ds] False "1.prems" by auto
  qed
next
  case (2 lt x)
  then show ?case
    using list_next_interior [of h l us x "[]"] list_end_dlist [of h l]
    by (auto simp: list_unique_loop.simps [of h] apart_def)
qed

lemma list_unique_dlist:
  assumes a: "apart h l xs d ds"
  shows "\<exists>h'. list_unique h l d lt = Some h' \<and> apart h' l (uniq lt xs) d (ds @ dups lt xs)"
proof -
  have l: "dlist h l xs" "l \<noteq> NULL"
    using a dlist_not_NULL by (auto simp: apart_def)
  show ?thesis
  proof (cases xs)
    case Nil
    then show ?thesis
      using a l by (simp add: list_unique_def list_empty_dlist)
  next
    case (Cons x ys)
    then show ?thesis
      using a l list_unique_loop_dlist [of h l "[]" x ys d ds lt]
      by (simp add: list_unique_def list_empty_dlist list_begin_dlist)
  qed
qed

text \<open>On a list ordered by a key, the elements kept have strictly increasing keys.\<close>

lemma uniq_key:
  "sorted (map key xs) \<Longrightarrow> sorted_wrt (<) (map key (uniq (key_less key) xs))
     \<and> key ` set (uniq (key_less key) xs) = key ` set xs"
proof (induction "key_less key" xs rule: uniq.induct)
  case (1 x y ys)
  then show ?case
    by (cases "key x < key y") (auto simp: not_less)
qed auto

subsection \<open>Splicing between lists\<close>

definition spliced :: "list_elems \<Rightarrow> ptr \<Rightarrow> ptr \<Rightarrow> ptr \<Rightarrow> ptr \<Rightarrow> ptr \<Rightarrow> ptr \<Rightarrow> list_elems" where
  "spliced h p b q e z w =
     h\<lparr>prev := (prev h)(e := q, z := p, b := w), nxt := (nxt h)(q := e, w := b, p := z)\<rparr>"

lemma list_splice_step:
  assumes "dlist h l (xs @ ys)" and m: "dlist h m (us @ z # zs @ vs)"
    and "b = hd (ys @ [tail_of l])" "p = last (head_of l # xs)"
    and "e = hd (vs @ [tail_of m])" "q = last (head_of m # us)" "w = last (z # zs)"
    and "p \<noteq> b" "b \<noteq> e" "b \<noteq> q" "b \<noteq> w" "b \<noteq> z" "p \<noteq> e" "p \<noteq> q" "p \<noteq> w" "p \<noteq> z" "e \<noteq> q" "e \<noteq> w" "e \<noteq> z"
      "q \<noteq> w" "q \<noteq> z"
  shows "list_splice h b z e = Some (spliced h p b q e z w)"
proof -
  have m': "dlist h m ((us @ z # zs) @ vs)" "dlist h m ((us @ butlast (z # zs)) @ w # vs)"
    using m append_butlast_last_id [of "z # zs"] unfolding assms(7)
    by (simp, metis append.assoc append_Cons append_Nil list.discI)
  have "nxt h p = b" "prev h b = p" "nxt h q = z" "prev h z = q" "nxt h w = e" "prev h e = w"
    "b \<noteq> 0" "p \<noteq> 0" "z \<noteq> 0" "q \<noteq> 0" "e \<noteq> 0" "w \<noteq> 0"
    using dlist_split [OF assms(1)] dlist_split [OF m] dlist_split [OF m'(1)] by (simp_all add: assms(3-7))
  moreover have "is_interior h z" "is_interior h w" "list_prev h e = Some w" "is_interior h b \<or> is_tail h b"
    using dlist_interior [OF m] dlist_interior [OF m'(2)] list_prev_hd [OF m'(1)] dlist_hd_valid [OF assms(1)]
    by (simp_all add: assms(3-7))
  ultimately show ?thesis
    using assms(8-) by (auto simp: list_splice_def heap_op_defs(1-4) spliced_def)
qed

lemma list_splice_dlists:
  assumes l: "dlist h l (xs @ ys)" and m: "dlist h m (us @ z # zs @ vs)"
    and disj: "set (cells l (xs @ ys)) \<inter> set (cells m (us @ z # zs @ vs)) = {}"
  shows "\<exists>h'. list_splice h (hd (ys @ [tail_of l])) z (hd (vs @ [tail_of m])) = Some h'
    \<and> dlist h' l (xs @ z # zs @ ys) \<and> dlist h' m (us @ vs)"
proof -
  define b p where "b = hd (ys @ [tail_of l])" and "p = last (head_of l # xs)"
  define e q w where "e = hd (vs @ [tail_of m])" and "q = last (head_of m # us)" and "w = last (z # zs)"
  define A B U Z V where "A = set (head_of l # xs)" and "B = set (ys @ [tail_of l])"
    and "U = set (head_of m # us)" and "Z = set (z # zs)" and "V = set (vs @ [tail_of m])"
  note sets = A_def B_def U_def Z_def V_def
  have m': "dlist h m ((us @ z # zs) @ vs)"
    using m by simp
  have mem: "b \<in> B" "p \<in> A" "e \<in> V" "q \<in> U" "w \<in> Z" "z \<in> Z"
    unfolding b_def p_def e_def q_def w_def sets by (rule hd_in_set last_in_set list.set_intros, simp?)+
  note parts = dlist_parts [OF l] dlist_parts [OF m] dlist_parts [OF m']
  have "A \<union> B = set (cells l (xs @ ys))" "U \<union> Z \<union> V = set (cells m (us @ z # zs @ vs))"
    by (auto simp: sets)
  then have dj: "A \<inter> B = {}" "(A \<union> B) \<inter> (U \<union> Z \<union> V) = {}" "U \<inter> (Z \<union> V) = {}" "(U \<union> Z) \<inter> V = {}"
    using disj parts(5,10,15) by (simp_all add: sets Un_assoc)
  then have neq: "p \<noteq> b" "b \<noteq> e" "b \<noteq> q" "b \<noteq> w" "b \<noteq> z" "p \<noteq> e" "p \<noteq> q" "p \<noteq> w" "p \<noteq> z"
    "e \<noteq> q" "e \<noteq> w" "e \<noteq> z" "q \<noteq> w" "q \<noteq> z"
    using mem by blast+
  define h' where "h' = spliced h p b q e z w"
  have keep: "linked h' ps" if "linked h ps" "distinct ps"
    "set ps \<inter> {q, w, p} \<subseteq> {last ps}" "set ps \<inter> {e, z, b} \<subseteq> {hd ps}" for ps
    using that(3,4) by (intro linked_update [OF that(1,2)]) (auto simp: h'_def spliced_def)
  have z: "linked h (z # zs)" "distinct (z # zs)"
    using parts(11,13) by (auto simp: linked_append linked_Cons)
  then have "linked h' (z # zs)"
    by (rule keep) (use mem dj in \<open>fold sets w_def, auto\<close>)
  moreover have "linked h' (head_of l # xs)"
    by (rule keep [OF parts(1,3)]) (use mem dj in \<open>fold sets p_def, auto\<close>)
  moreover have "linked h' (ys @ [tail_of l])"
    by (rule keep [OF parts(2,4)]) (use mem dj in \<open>fold sets b_def, auto\<close>)
  moreover have "linked h' (head_of m # us)"
    by (rule keep [OF parts(6,8)]) (use mem dj in \<open>fold sets q_def, auto\<close>)
  moreover have "linked h' (vs @ [tail_of m])"
    by (rule keep [OF parts(12,14)]) (use mem dj in \<open>fold sets e_def, auto\<close>)
  moreover have "nxt h' p = z" "prev h' z = p" "nxt h' w = b" "prev h' b = w" "nxt h' q = e" "prev h' e = q"
    using neq by (simp_all add: h'_def spliced_def)
  ultimately have "linked h' ((head_of l # xs) @ (z # zs) @ (ys @ [tail_of l]))"
    "linked h' ((head_of m # us) @ (vs @ [tail_of m]))"
    unfolding b_def p_def q_def e_def w_def
    by (intro linked_glue [where xs = "head_of l # xs"] linked_glue [where xs = "z # zs"]
        linked_glue [where xs = "head_of m # us"]; simp)+
  moreover have "prev h' (head_of l) = 0" "nxt h' (tail_of l) = 0" "prev h' (head_of m) = 0" "nxt h' (tail_of m) = 0"
  proof -
    have "head_of l \<in> A" "tail_of l \<in> B" "head_of m \<in> U" "tail_of m \<in> V"
      by (simp_all add: sets)
    then have "head_of l \<notin> {e, z, b}" "tail_of l \<notin> {q, w, p}" "head_of m \<notin> {e, z, b}" "tail_of m \<notin> {q, w, p}"
      using mem dj by blast+
    then show "prev h' (head_of l) = 0" "nxt h' (tail_of l) = 0" "prev h' (head_of m) = 0" "nxt h' (tail_of m) = 0"
      using l m by (simp_all add: h'_def spliced_def dlist_def)
  qed
  moreover have "distinct ((head_of l # xs) @ (z # zs) @ (ys @ [tail_of l]))"
    "distinct ((head_of m # us) @ (vs @ [tail_of m]))"
    using parts(3,4,8,14) z(2) dj
    unfolding distinct_append [of "head_of l # xs"] distinct_append [of "z # zs"] distinct_append [of "head_of m # us"]
      set_append [of "z # zs"] sets by blast+
  moreover have "0 \<notin> set (cells l (xs @ z # zs @ ys))" "0 \<notin> set (cells m (us @ vs))"
    using l m by (auto simp: dlist_def)
  ultimately have "dlist h' l (xs @ z # zs @ ys)" "dlist h' m (us @ vs)"
    by (simp_all add: dlist_def)
  moreover have "list_splice h b z e = Some h'"
    unfolding h'_def by (rule list_splice_step [OF l m]) (use neq b_def p_def e_def q_def w_def in simp_all)
  ultimately show ?thesis
    unfolding b_def e_def by blast
qed

lemma sorted_while:
  "sorted (map key xs) \<Longrightarrow> takeWhile (\<lambda>x. \<not> k < key x) xs = filter (\<lambda>x. key x \<le> (k::'k::linorder)) xs
     \<and> dropWhile (\<lambda>x. \<not> k < key x) xs = filter (\<lambda>x. k < key x) xs"
proof (induction xs)
  case (Cons x xs)
  have "filter (\<lambda>x. key x \<le> k) xs = []" "filter (\<lambda>x. k < key x) xs = xs" if "k < key x"
    using that Cons.prems by (auto simp: filter_empty_conv filter_id_conv)
  then show ?case
    using Cons by (auto simp: not_less)
qed simp

subsection \<open>The queue contract\<close>

interpretation list_queue: fifo
  "\<lambda>h. dlist h l" "\<lambda>xs e. e \<notin> set (cells l xs) \<and> e \<noteq> NULL" "\<lambda>h. list_push_back h l" "\<lambda>h. list_pop_front h l"
  for l
proof
  show "\<exists>h'. list_push_back h l e = Some h' \<and> dlist h' l (xs @ [e])"
    if "dlist h l xs" "e \<notin> set (cells l xs) \<and> e \<noteq> NULL" for h xs e
    using list_push_back_dlist that by blast
  show "\<exists>h'. list_pop_front h l = Some (x, h') \<and> dlist h' l xs" if "dlist h l (x # xs)" for h x xs
    using list_pop_front_dlist [OF that] by blast
qed (rule list_pop_front_empty)

subsection \<open>Properties\<close>

text \<open>A list of five elements at addresses 10 to 50, headed at 100, for the concrete instances.\<close>

definition sample_heap :: list_elems where
  "sample_heap = \<lparr>
     prev = (\<lambda>_. 0)(30 := 100, 10 := 30, 50 := 10, 20 := 50, 40 := 20, 108 := 40, 208 := 200),
     nxt = (\<lambda>_. 0)(100 := 30, 30 := 10, 10 := 50, 50 := 20, 20 := 40, 40 := 108, 200 := 208)\<rparr>"

lemma sample_heap_dlist: "dlist sample_heap 100 [30, 10, 50, 20, 40]" "dlist sample_heap 200 []"
  by (simp_all add: sample_heap_def dlist_def head_of_def tail_of_def)

text \<open>C27: \<^verbatim>\<open>list_sort\<close> with a comparison by a key returns (no assertion of
  \<^verbatim>\<open>inplace_merge\<close>, \<^verbatim>\<open>find_end_of_run\<close> or \<^verbatim>\<open>list_sort\<close> itself fails and the passes
  terminate), leaves the list holding exactly its elements in key order with equal
  keys in their original order, and touches no link outside the list.\<close>

theorem list_sort_stable:
  assumes "dlist h l xs" "length xs < 2 ^ 32"
  shows "\<exists>h'. list_sort h l (\<lambda>x y. key x < (key y :: 'k::linorder)) = Some h' \<and> dlist h' l (sort_key key xs)
    \<and> unchanged_outside (set (cells l xs)) h h'"
  using list_sort_dlist [OF asymp_key_less assms] merge_passes_sort_key by metis

theorem list_sort_stable_witness:
  "\<exists>h'. list_sort sample_heap 100 (\<lambda>x y. x div 20 < y div 20) = Some h' \<and> dlist h' 100 [10, 30, 20, 50, 40]"
  using list_sort_stable [OF sample_heap_dlist(1), of "\<lambda>x. x div 20"] by auto

text \<open>\<^verbatim>\<open>list_sort\<close> needs of the comparison only that it is asymmetric: it still
  returns, permutes the elements, and leaves no element that is less than its
  predecessor.\<close>

theorem list_sort_in_order:
  assumes "asymp lt" "dlist h l xs" "length xs < 2 ^ 32"
  shows "\<exists>h' ys. list_sort h l lt = Some h' \<and> dlist h' l ys \<and> mset ys = mset xs
    \<and> successively (\<lambda>x y. \<not> lt y x) ys"
  using list_sort_dlist [OF assms] mset_merge_passes by blast

theorem list_sort_in_order_witness:
  "\<exists>h' ys. list_sort sample_heap 100 (\<lambda>x y. x + 10 = y) = Some h' \<and> dlist h' 100 ys
    \<and> mset ys = {#10, 20, 30, 40, 50#} \<and> successively (\<lambda>x y. y + 10 \<noteq> x) ys"
proof -
  have "asymp (\<lambda>x y. x + 10 = (y::nat))"
    by (auto intro: asympI)
  then show ?thesis
    using list_sort_in_order [OF _ sample_heap_dlist(1)] by (fastforce simp: add_mset_commute)
qed

text \<open>\<^verbatim>\<open>list_insert_ordered\<close> into a list sorted by a key leaves a sorted list with
  the new element after every element of the same key.\<close>

theorem list_insert_ordered_sorted:
  assumes "dlist h l xs" "e \<notin> set (cells l xs)" "e \<noteq> NULL" "sorted (map key xs)"
  shows "\<exists>h'. list_insert_ordered h l e (\<lambda>x y. key x < (key y :: 'k::linorder)) = Some h'
    \<and> dlist h' l (filter (\<lambda>x. key x \<le> key e) xs @ e # filter (\<lambda>x. key e < key x) xs)
    \<and> sorted (map key (filter (\<lambda>x. key x \<le> key e) xs @ e # filter (\<lambda>x. key e < key x) xs))"
proof -
  have "sorted (map key (filter (\<lambda>x. key x \<le> key e) xs @ e # filter (\<lambda>x. key e < key x) xs))"
    using assms(4) by (auto simp: sorted_append sorted_filter intro: order_trans less_imp_le)
  then show ?thesis
    using list_insert_ordered_dlist [OF assms(1-3), of "\<lambda>x y. key x < key y"] sorted_while [OF assms(4), of "key e"]
    by auto
qed

theorem list_insert_ordered_sorted_witness:
  "\<exists>h'. list_insert_ordered sample_heap 100 60 (\<lambda>x y. x div 100 < y div 100) = Some h'
    \<and> dlist h' 100 [30, 10, 50, 20, 40, 60]"
  using list_insert_ordered_sorted [OF sample_heap_dlist(1), of 60 "\<lambda>x. x div 100"]
  by (auto simp: head_of_def tail_of_def)

text \<open>\<^verbatim>\<open>list_reverse\<close> reverses every list, the empty one included.\<close>

theorem list_reverse_reverses:
  assumes "dlist h l xs"
  shows "\<exists>h'. list_reverse h l = Some h' \<and> dlist h' l (rev xs) \<and> unchanged_outside (set (cells l xs)) h h'"
  by (rule list_reverse_dlist [OF assms])

theorem list_reverse_reverses_witness:
  "\<exists>h'. list_reverse sample_heap 100 = Some h' \<and> dlist h' 100 [40, 20, 50, 10, 30]"
  using list_reverse_reverses [OF sample_heap_dlist(1)] by auto

text \<open>\<^verbatim>\<open>list_unique\<close> on a list sorted by a key keeps the first element of every key,
  in order, and appends every other element to the duplicates list when there is one.\<close>

theorem list_unique_distinct_keys:
  assumes "dlist h l xs" "dlist h d ds" "set (cells d ds) \<inter> set (cells l xs) = {}" "sorted (map key xs)"
  shows "\<exists>h' ys zs. list_unique h l d (\<lambda>x y. key x < (key y :: 'k::linorder)) = Some h'
    \<and> dlist h' l ys \<and> dlist h' d (ds @ zs) \<and> mset ys + mset zs = mset xs
    \<and> sorted_wrt (<) (map key ys) \<and> key ` set ys = key ` set xs"
proof -
  let ?lt = "\<lambda>x y. key x < key y"
  have d: "apart h l xs d ds" "d \<noteq> NULL"
    using assms dlist_not_NULL [OF assms(2)] by (simp_all add: apart_def)
  obtain h' where "list_unique h l d ?lt = Some h'" "apart h' l (uniq ?lt xs) d (ds @ dups ?lt xs)"
    using list_unique_dlist [OF d(1)] by blast
  then show ?thesis
    using d(2) uniq_key [OF assms(4)] mset_uniq_dups [of ?lt xs]
    by (intro exI [of _ h'] exI [of _ "uniq ?lt xs"] exI [of _ "dups ?lt xs"]) (simp add: apart_def)
qed

theorem list_unique_distinct_keys_witness:
  "\<exists>h' ys zs. list_unique sample_heap 100 200 (\<lambda>x y. x div 100 < y div 100) = Some h'
    \<and> dlist h' 100 ys \<and> dlist h' 200 ([] @ zs) \<and> mset ys + mset zs = mset [30, 10, 50, 20, 40]
    \<and> sorted_wrt (<) (map (\<lambda>x. x div 100) ys)
    \<and> (\<lambda>x. x div 100) ` set ys = (\<lambda>x. x div 100) ` set [30, 10, 50, 20, 40]"
  using sample_heap_dlist by (rule list_unique_distinct_keys) (auto simp: head_of_def tail_of_def)

text \<open>\<^verbatim>\<open>list_splice\<close> moves a run of elements out of one list and in front of any
  position of another, leaving both well formed.\<close>

theorem list_splice_moves:
  assumes "dlist h l (xs @ ys)" "dlist h m (us @ z # zs @ vs)"
    and "set (cells l (xs @ ys)) \<inter> set (cells m (us @ z # zs @ vs)) = {}"
  shows "\<exists>h'. list_splice h (hd (ys @ [tail_of l])) z (hd (vs @ [tail_of m])) = Some h'
    \<and> dlist h' l (xs @ z # zs @ ys) \<and> dlist h' m (us @ vs)"
  by (rule list_splice_dlists [OF assms])

theorem list_splice_moves_witness:
  "\<exists>h'. list_splice sample_heap 208 10 20 = Some h' \<and> dlist h' 200 [10, 50] \<and> dlist h' 100 [30, 20, 40]"
  using list_splice_moves [of sample_heap 200 "[]" "[]" 100 "[30]" 10 "[50]" "[20, 40]"] sample_heap_dlist
  by (auto simp: head_of_def tail_of_def)

text \<open>elements pushed with \<^verbatim>\<open>list_push_back\<close> come out of \<^verbatim>\<open>list_pop_front\<close> in the
  order they went in, behind those already there; a further \<^verbatim>\<open>list_pop_front\<close> fails its
  assertion.\<close>

theorem list_is_fifo:
  assumes "dlist h l xs" "distinct (cells l xs @ es)" "0 \<notin> set es"
  shows "\<exists>h' h''. push_all (\<lambda>h. list_push_back h l) h es = Some h'
    \<and> pop_all (\<lambda>h. list_pop_front h l) (length (xs @ es)) h' = Some (xs @ es, h'')
    \<and> dlist h'' l [] \<and> list_pop_front h'' l = None"
proof (rule list_queue.fifo_order [OF assms(1)])
  show "es ! i \<notin> set (cells l (xs @ take i es)) \<and> es ! i \<noteq> NULL" if "i < length es" for i
  proof -
    have "distinct es"
      using assms(2) by simp
    then have "es ! i \<in> set es" "es ! i \<notin> set (take i es)"
      using that by (auto simp: in_set_conv_nth nth_eq_iff_index_eq)
    then show ?thesis
      using assms by auto
  qed
qed

theorem list_is_fifo_witness:
  "\<exists>h' h''. push_all (\<lambda>h. list_push_back h 200) sample_heap [7, 5, 6] = Some h'
    \<and> pop_all (\<lambda>h. list_pop_front h 200) 3 h' = Some ([7, 5, 6], h'') \<and> list_pop_front h'' 200 = None"
  using list_is_fifo [OF sample_heap_dlist(2), of "[7, 5, 6]"]
  by (auto simp: head_of_def tail_of_def numeral_3_eq_3)

text \<open>\<^verbatim>\<open>list_max\<close> returns the first element with the largest key.\<close>

theorem list_max_first:
  assumes "dlist h l xs" "xs \<noteq> []"
  shows "\<exists>as m bs. list_max h l (\<lambda>x y. key x < (key y :: 'k::linorder)) = Some m \<and> xs = as @ m # bs
    \<and> (\<forall>y \<in> set as. key y < key m) \<and> (\<forall>y \<in> set bs. key y \<le> key m)"
proof (cases xs)
  case (Cons x ys)
  then show ?thesis
    using list_max_dlist [of h l x ys "\<lambda>x y. key x < key y"] foldl_max_key [of x ys key] assms(1) by auto
qed (use assms in simp)

theorem list_max_first_witness:
  "\<exists>as m bs. list_max sample_heap 100 (\<lambda>x y. x div 20 < y div 20) = Some m \<and> [30, 10, 50, 20, 40] = as @ m # bs
    \<and> (\<forall>y \<in> set as. y div 20 < m div 20) \<and> (\<forall>y \<in> set bs. y div 20 \<le> m div 20)"
  using list_max_first [OF sample_heap_dlist(1), of "\<lambda>x. x div 20"] by simp

end
