(* ===== verification/Bytes.thy ===== *)
theory Bytes
  imports Prelude
begin

text \<open>
  Memory as bytes: the little-endian representation of 32-bit values on the 80x86,
  arrays of them, and reading and writing a block of bytes at an offset. The
  components that copy structures to and from disk sectors and user memory
  (bitmaps, inodes, directory entries, the user stack) use it.
\<close>

type_synonym bytes = "uint8_t list"

definition le_bytes :: "uint32_t \<Rightarrow> bytes" where
  "le_bytes w = [ucast w, ucast (drop_bit 8 w), ucast (drop_bit 16 w), ucast (drop_bit 24 w)]"

definition le_word :: "bytes \<Rightarrow> uint32_t" where
  "le_word bs = ucast (bs ! 0) OR push_bit 8 (ucast (bs ! 1)) OR push_bit 16 (ucast (bs ! 2))
     OR push_bit 24 (ucast (bs ! 3))"

definition words_bytes :: "uint32_t list \<Rightarrow> bytes" where
  "words_bytes ws = concat (map le_bytes ws)"

fun bytes_words :: "bytes \<Rightarrow> uint32_t list" where
  "bytes_words (a # b # c # d # bs) = le_word [a, b, c, d] # bytes_words bs"
| "bytes_words _ = []"

text \<open>\<open>put_bytes m off bs\<close> is \<^verbatim>\<open>memcpy (m + off, bs, length bs)\<close>; \<open>get_bytes m off n\<close>
  the \<open>n\<close> bytes at \<open>off\<close>.\<close>

definition put_bytes :: "bytes \<Rightarrow> nat \<Rightarrow> bytes \<Rightarrow> bytes" where
  "put_bytes m off bs = take off m @ bs @ drop (off + length bs) m"

definition get_bytes :: "bytes \<Rightarrow> nat \<Rightarrow> nat \<Rightarrow> bytes" where
  "get_bytes m off n = take n (drop off m)"

lemma length_le_bytes [simp]: "length (le_bytes w) = 4"
  by (simp add: le_bytes_def)

lemma le_word_le_bytes [simp]: "le_word (le_bytes w) = w"
proof (rule bit_word_eqI)
  fix n
  assume "n < LENGTH(32)"
  then consider "n < 8" | "8 \<le> n" "n < 16" | "16 \<le> n" "n < 24" | "24 \<le> n" "n < 32"
    by (simp, linarith)
  then show "bit (le_word (le_bytes w)) n = bit w n"
    by cases (auto simp add: le_word_def le_bytes_def bit_simps)
qed

lemma le_bytes_le_word: "length bs = 4 \<Longrightarrow> le_bytes (le_word bs) = bs"
proof -
  assume "length bs = 4"
  then obtain a b c d where bs: "bs = [a, b, c, d]"
    by (auto simp: numeral_eq_Suc length_Suc_conv)
  have beyond: "\<not> bit (x :: uint8_t) (n + 8)" for x n
    using bit_imp_le_length [of x "n + 8"] by auto
  have "ucast (le_word bs) = a" "ucast (drop_bit 8 (le_word bs)) = b"
    "ucast (drop_bit 16 (le_word bs)) = c" "ucast (drop_bit 24 (le_word bs)) = d"
    using beyond [of a] beyond [of b] beyond [of c] beyond [of a "_ + 8"] beyond [of b "_ + 8"] beyond [of a "_ + 16"]
    by (auto intro!: bit_word_eqI simp: bs le_word_def bit_simps ac_simps)
  then show ?thesis
    by (simp add: le_bytes_def bs)
qed

lemma length_words_bytes [simp]: "length (words_bytes ws) = 4 * length ws"
  by (induction ws) (simp_all add: words_bytes_def)

lemma bytes_words_append: "bytes_words (le_bytes w @ bs) = w # bytes_words bs"
  using le_word_le_bytes [of w] by (simp add: le_bytes_def)

lemma bytes_words_bytes [simp]: "bytes_words (words_bytes ws) = ws"
  by (induction ws) (simp_all add: words_bytes_def bytes_words_append)

lemma length_bytes_words: "length (bytes_words bs) = length bs div 4"
  by (induction bs rule: bytes_words.induct) simp_all

lemma length_put_bytes [simp]: "off + length bs \<le> length m \<Longrightarrow> length (put_bytes m off bs) = length m"
  by (simp add: put_bytes_def)

lemma length_get_bytes [simp]: "off + n \<le> length m \<Longrightarrow> length (get_bytes m off n) = n"
  by (simp add: get_bytes_def)

lemma get_put_bytes [simp]: "off + length bs \<le> length m \<Longrightarrow> get_bytes (put_bytes m off bs) off (length bs) = bs"
  by (simp add: get_bytes_def put_bytes_def)

lemma nth_put_bytes:
  "off + length bs \<le> length m \<Longrightarrow> i < length m \<Longrightarrow>
   put_bytes m off bs ! i = (if off \<le> i \<and> i < off + length bs then bs ! (i - off) else m ! i)"
  by (auto simp: put_bytes_def nth_append min_def)

lemma put_bytes_self [simp]: "off + n \<le> length m \<Longrightarrow> put_bytes m off (get_bytes m off n) = m"
  by (simp add: put_bytes_def get_bytes_def) (metis append_take_drop_id drop_drop add.commute)

lemma put_bytes_all [simp]: "length bs = length m \<Longrightarrow> put_bytes m 0 bs = bs"
  by (simp add: put_bytes_def)

end
