(* ===== verification/Bitmap.thy ===== *)
theory Bitmap
  imports Bytes
begin

text \<open>
  The bitmaps of \<^verbatim>\<open>lib/kernel/bitmap.c\<close>: an array of 32-bit elements that simulates an
  array of bits. The page allocator and the free map of the file system are clients.
  Indices and counts are \<^verbatim>\<open>size_t\<close> words, so that the sums the code forms wrap as they
  do there; an access outside the element array is \<open>None\<close>. The lemmas show that every
  operation implements the corresponding one on a list of booleans.
\<close>

subsection \<open>The operations\<close>

type_synonym elem_type = "32 word"

record bitmap =
  bit_cnt :: size_t
  bits :: "elem_type list"

definition BITMAP_ERROR :: size_t where
  "BITMAP_ERROR = - 1"

definition ELEM_BITS :: size_t where
  "ELEM_BITS = 32"

definition elem_idx :: "size_t \<Rightarrow> size_t" where
  "elem_idx bit_idx = bit_idx div ELEM_BITS"

definition bit_mask :: "size_t \<Rightarrow> elem_type" where
  "bit_mask bit_idx = push_bit (unat (bit_idx mod ELEM_BITS)) 1"

definition elem_cnt :: "size_t \<Rightarrow> size_t" where
  "elem_cnt cnt = DIV_ROUND_UP cnt ELEM_BITS"

definition byte_cnt :: "size_t \<Rightarrow> size_t" where
  "byte_cnt cnt = 4 * elem_cnt cnt"

definition last_mask :: "bitmap \<Rightarrow> elem_type" where
  "last_mask b = (let last_bits = unat (bit_cnt b mod ELEM_BITS) in
     if last_bits \<noteq> 0 then push_bit last_bits 1 - 1 else - 1)"

definition bitmap_buf_size :: "size_t \<Rightarrow> size_t" where
  "bitmap_buf_size cnt = 8 + byte_cnt cnt"

definition bitmap_size :: "bitmap \<Rightarrow> size_t" where
  "bitmap_size b = bit_cnt b"

definition load_elem :: "bitmap \<Rightarrow> size_t \<Rightarrow> elem_type option" where
  "load_elem b idx = (if unat idx < length (bits b) then Some (bits b ! unat idx) else None)"

definition store_elem :: "bitmap \<Rightarrow> size_t \<Rightarrow> elem_type \<Rightarrow> bitmap option" where
  "store_elem b idx w =
     (if unat idx < length (bits b) then Some (b\<lparr>bits := (bits b)[unat idx := w]\<rparr>) else None)"

definition bitmap_mark :: "bitmap \<Rightarrow> size_t \<Rightarrow> bitmap option" where
  "bitmap_mark b bit_idx = do {
     w \<leftarrow> load_elem b (elem_idx bit_idx);
     store_elem b (elem_idx bit_idx) (w OR bit_mask bit_idx) }"

definition bitmap_reset :: "bitmap \<Rightarrow> size_t \<Rightarrow> bitmap option" where
  "bitmap_reset b bit_idx = do {
     w \<leftarrow> load_elem b (elem_idx bit_idx);
     store_elem b (elem_idx bit_idx) (w AND NOT (bit_mask bit_idx)) }"

definition bitmap_flip :: "bitmap \<Rightarrow> size_t \<Rightarrow> bitmap option" where
  "bitmap_flip b bit_idx = do {
     w \<leftarrow> load_elem b (elem_idx bit_idx);
     store_elem b (elem_idx bit_idx) (w XOR bit_mask bit_idx) }"

definition bitmap_set :: "bitmap \<Rightarrow> size_t \<Rightarrow> bool \<Rightarrow> bitmap option" where
  "bitmap_set b idx value = do {
     ASSERT (idx < bit_cnt b);
     if value then bitmap_mark b idx else bitmap_reset b idx }"

definition bitmap_test :: "bitmap \<Rightarrow> size_t \<Rightarrow> bool option" where
  "bitmap_test b idx = do {
     ASSERT (idx < bit_cnt b);
     w \<leftarrow> load_elem b (elem_idx idx);
     Some (w AND bit_mask idx \<noteq> 0) }"

definition bitmap_set_multiple :: "bitmap \<Rightarrow> size_t \<Rightarrow> size_t \<Rightarrow> bool \<Rightarrow> bitmap option" where
  "bitmap_set_multiple b start cnt value = do {
     ASSERT (start \<le> bit_cnt b);
     ASSERT (start + cnt \<le> bit_cnt b);
     for_loop (unat cnt) (\<lambda>i b. bitmap_set b (start + of_nat i) value) b }"

definition bitmap_set_all :: "bitmap \<Rightarrow> bool \<Rightarrow> bitmap option" where
  "bitmap_set_all b value = bitmap_set_multiple b 0 (bitmap_size b) value"

definition bitmap_create :: "bool \<Rightarrow> elem_type list option \<Rightarrow> size_t \<Rightarrow> bitmap option option" where
  "bitmap_create got_struct got_bits cnt =
     (if got_struct \<and> (got_bits \<noteq> None \<or> cnt = 0) then do {
        b \<leftarrow> bitmap_set_all \<lparr>bit_cnt = cnt, bits = (case got_bits of Some ws \<Rightarrow> ws | None \<Rightarrow> [])\<rparr> False;
        Some (Some b) }
      else Some None)"

definition bitmap_create_in_buf :: "size_t \<Rightarrow> elem_type list \<Rightarrow> size_t \<Rightarrow> bitmap option" where
  "bitmap_create_in_buf cnt block block_size = do {
     ASSERT (block_size \<ge> bitmap_buf_size cnt);
     bitmap_set_all \<lparr>bit_cnt = cnt, bits = drop 2 block\<rparr> False }"

definition bitmap_count :: "bitmap \<Rightarrow> size_t \<Rightarrow> size_t \<Rightarrow> bool \<Rightarrow> size_t option" where
  "bitmap_count b start cnt value = do {
     ASSERT (start \<le> bit_cnt b);
     ASSERT (start + cnt \<le> bit_cnt b);
     for_loop (unat cnt) (\<lambda>i value_cnt. do {
       t \<leftarrow> bitmap_test b (start + of_nat i);
       Some (if t = value then value_cnt + 1 else value_cnt) }) 0 }"

fun bitmap_contains_loop :: "bitmap \<Rightarrow> size_t \<Rightarrow> bool \<Rightarrow> nat \<Rightarrow> nat \<Rightarrow> bool option" where
  "bitmap_contains_loop b start value i 0 = Some False"
| "bitmap_contains_loop b start value i (Suc left) = do {
     t \<leftarrow> bitmap_test b (start + of_nat i);
     if t = value then Some True else bitmap_contains_loop b start value (Suc i) left }"

definition bitmap_contains :: "bitmap \<Rightarrow> size_t \<Rightarrow> size_t \<Rightarrow> bool \<Rightarrow> bool option" where
  "bitmap_contains b start cnt value = do {
     ASSERT (start \<le> bit_cnt b);
     ASSERT (start + cnt \<le> bit_cnt b);
     bitmap_contains_loop b start value 0 (unat cnt) }"

definition bitmap_any :: "bitmap \<Rightarrow> size_t \<Rightarrow> size_t \<Rightarrow> bool option" where
  "bitmap_any b start cnt = bitmap_contains b start cnt True"

definition bitmap_none :: "bitmap \<Rightarrow> size_t \<Rightarrow> size_t \<Rightarrow> bool option" where
  "bitmap_none b start cnt = map_option Not (bitmap_contains b start cnt True)"

definition bitmap_all :: "bitmap \<Rightarrow> size_t \<Rightarrow> size_t \<Rightarrow> bool option" where
  "bitmap_all b start cnt = map_option Not (bitmap_contains b start cnt False)"

partial_function (option) bitmap_scan_loop ::
  "bitmap \<Rightarrow> size_t \<Rightarrow> bool \<Rightarrow> size_t \<Rightarrow> size_t \<Rightarrow> size_t option" where
  "bitmap_scan_loop b cnt value last_idx i =
     (if i \<le> last_idx then do {
        c \<leftarrow> bitmap_contains b i cnt (\<not> value);
        if \<not> c then Some i else bitmap_scan_loop b cnt value last_idx (i + 1) }
      else Some BITMAP_ERROR)"

definition bitmap_scan :: "bitmap \<Rightarrow> size_t \<Rightarrow> size_t \<Rightarrow> bool \<Rightarrow> size_t option" where
  "bitmap_scan b start cnt value = do {
     ASSERT (start \<le> bit_cnt b);
     if cnt \<le> bit_cnt b then bitmap_scan_loop b cnt value (bit_cnt b - cnt) start
     else Some BITMAP_ERROR }"

definition bitmap_scan_and_flip :: "bitmap \<Rightarrow> size_t \<Rightarrow> size_t \<Rightarrow> bool \<Rightarrow> (size_t \<times> bitmap) option" where
  "bitmap_scan_and_flip b start cnt value = do {
     idx \<leftarrow> bitmap_scan b start cnt value;
     b \<leftarrow> (if idx \<noteq> BITMAP_ERROR then bitmap_set_multiple b idx cnt (\<not> value) else Some b);
     Some (idx, b) }"

text \<open>
  Storing a bitmap in a file. The two arguments are the result of
  \<^verbatim>\<open>file_read_at (file, b->bits, size, 0)\<close>, the bytes it copied, and the number of bytes
  that \<^verbatim>\<open>file_write_at (file, b->bits, size, 0)\<close> reports as written.
\<close>

definition bitmap_file_size :: "bitmap \<Rightarrow> size_t" where
  "bitmap_file_size b = byte_cnt (bit_cnt b)"

definition bitmap_read :: "(nat \<Rightarrow> bytes) \<Rightarrow> bitmap \<Rightarrow> (bool \<times> bitmap) option" where
  "bitmap_read file_read_at b =
     (if bit_cnt b > 0 then do {
        let size = unat (byte_cnt (bit_cnt b));
        let data = file_read_at size;
        let b = b\<lparr>bits := bytes_words (put_bytes (words_bytes (bits b)) 0 data)\<rparr>;
        w \<leftarrow> load_elem b (elem_cnt (bit_cnt b) - 1);
        b \<leftarrow> store_elem b (elem_cnt (bit_cnt b) - 1) (w AND last_mask b);
        Some (length data = size, b) }
      else Some (True, b))"

definition bitmap_write :: "(bytes \<Rightarrow> nat) \<Rightarrow> bitmap \<Rightarrow> bool" where
  "bitmap_write file_write_at b =
     (let size = unat (byte_cnt (bit_cnt b)) in
      file_write_at (take size (words_bytes (bits b))) = size)"

subsection \<open>The abstraction: a list of booleans\<close>

definition wf_bitmap :: "bitmap \<Rightarrow> bool" where
  "wf_bitmap b \<longleftrightarrow> unat (bit_cnt b) \<le> 32 * length (bits b)"

definition bit_list :: "bitmap \<Rightarrow> bool list" where
  "bit_list b = map (\<lambda>i. bit (bits b ! (i div 32)) (i mod 32)) [0..<unat (bit_cnt b)]"

named_theorems bitmap_abs

lemma length_bit_list [simp, bitmap_abs]: "length (bit_list b) = unat (bit_cnt b)"
  by (simp add: bit_list_def)

lemma unat_elem_idx [simp]: "unat (elem_idx i) = unat i div 32"
  by (simp add: elem_idx_def ELEM_BITS_def unat_div)

lemma bit_bit_mask [simp]: "bit (bit_mask i) n \<longleftrightarrow> n = unat i mod 32"
  by (auto simp: bit_mask_def ELEM_BITS_def bit_simps unat_mod)

lemma wf_bitmap_idx: "wf_bitmap b \<Longrightarrow> i < bit_cnt b \<Longrightarrow> unat i div 32 < length (bits b)"
  by (auto simp: wf_bitmap_def word_less_nat_alt)

lemma nth_bit_list: "i < unat (bit_cnt b) \<Longrightarrow> bit_list b ! i = bit (bits b ! (i div 32)) (i mod 32)"
  by (simp add: bit_list_def)

lemma mask_test: "w AND bit_mask i \<noteq> 0 \<longleftrightarrow> bit w (unat i mod 32)"
proof -
  have "w AND bit_mask i = 0 \<longleftrightarrow> (\<forall>n. \<not> bit (w AND bit_mask i) n)"
    using bit_imp_le_length [of "w AND bit_mask i"] by (auto simp: bit_eq_iff)
  then show ?thesis
    by (simp add: bit_and_iff)
qed

lemma bitmap_test_eq:
  "wf_bitmap b \<Longrightarrow> bitmap_test b i = (if i < bit_cnt b then Some (bit_list b ! unat i) else None)"
  by (auto simp: bitmap_test_def load_elem_def wf_bitmap_idx mask_test nth_bit_list word_less_nat_alt
      dest: wf_bitmap_idx)

text \<open>Changing the element that holds bit \<open>i\<close> in that bit alone changes that bit alone.\<close>

lemma bit_list_store:
  assumes "wf_bitmap b" "i < unat (bit_cnt b)"
    and "\<And>n. n < 32 \<Longrightarrow> bit w n = (if n = i mod 32 then v else bit (bits b ! (i div 32)) n)"
  shows "bit_list (b\<lparr>bits := (bits b)[i div 32 := w]\<rparr>) = (bit_list b)[i := v]"
proof (rule nth_equalityI)
  fix j
  assume "j < length (bit_list (b\<lparr>bits := (bits b)[i div 32 := w]\<rparr>))"
  then have j: "j < unat (bit_cnt b)"
    by simp
  have len: "i div 32 < length (bits b)"
    using assms(1,2) by (simp add: wf_bitmap_def)
  have "j mod 32 = i mod 32 \<longleftrightarrow> j = i" if "j div 32 = i div 32"
    using that by (metis div_mult_mod_eq)
  then show "bit_list (b\<lparr>bits := (bits b)[i div 32 := w]\<rparr>) ! j = (bit_list b)[i := v] ! j"
    using j assms(2) assms(3) [of "j mod 32"] len
    by (cases "j div 32 = i div 32") (auto simp: nth_bit_list nth_list_update)
qed simp

lemma bitmap_update:
  assumes "wf_bitmap b" "i < bit_cnt b"
  shows "\<exists>b'. bitmap_mark b i = Some b' \<and> wf_bitmap b' \<and> bit_cnt b' = bit_cnt b
      \<and> bit_list b' = (bit_list b)[unat i := True]"
    and "\<exists>b'. bitmap_reset b i = Some b' \<and> wf_bitmap b' \<and> bit_cnt b' = bit_cnt b
      \<and> bit_list b' = (bit_list b)[unat i := False]"
    and "\<exists>b'. bitmap_flip b i = Some b' \<and> wf_bitmap b' \<and> bit_cnt b' = bit_cnt b
      \<and> bit_list b' = (bit_list b)[unat i := \<not> bit_list b ! unat i]"
  using assms wf_bitmap_idx [OF assms] bit_list_store [OF assms(1), of "unat i"]
  by (auto simp: bitmap_mark_def bitmap_reset_def bitmap_flip_def load_elem_def store_elem_def
      wf_bitmap_def word_less_nat_alt bit_or_iff bit_and_iff bit_not_iff bit_xor_iff nth_bit_list)

lemma bitmap_set_eq:
  assumes "wf_bitmap b" "i < bit_cnt b"
  shows "\<exists>b'. bitmap_set b i v = Some b' \<and> wf_bitmap b' \<and> bit_cnt b' = bit_cnt b
      \<and> bit_list b' = (bit_list b)[unat i := v]"
  using bitmap_update [OF assms] assms by (cases v) (simp_all add: bitmap_set_def)

lemma bitmap_set_None: "\<not> i < bit_cnt b \<Longrightarrow> bitmap_set b i v = None"
  by (simp add: bitmap_set_def)

definition set_range :: "bool list \<Rightarrow> nat \<Rightarrow> nat \<Rightarrow> bool \<Rightarrow> bool list" where
  "set_range xs i n v = take i xs @ replicate n v @ drop (i + n) xs"

lemma nth_set_range:
  "i + n \<le> length xs \<Longrightarrow> j < length xs \<Longrightarrow> set_range xs i n v ! j = (if i \<le> j \<and> j < i + n then v else xs ! j)"
  by (auto simp: set_range_def nth_append min_def)

lemma length_set_range [simp]: "i + n \<le> length xs \<Longrightarrow> length (set_range xs i n v) = length xs"
  by (simp add: set_range_def)

lemma set_range_Suc: "i + n < length xs \<Longrightarrow> (set_range xs i n v)[i + n := v] = set_range xs i (Suc n) v"
  by (rule nth_equalityI) (auto simp: nth_set_range nth_list_update)

lemma bitmap_set_loop:
  assumes "wf_bitmap b" "unat start + i < unat (bit_cnt b)"
    and "wf_bitmap c" "bit_cnt c = bit_cnt b" "bit_list c = set_range (bit_list b) (unat start) i v"
  shows "\<exists>d. bitmap_set c (start + of_nat i) v = Some d \<and> wf_bitmap d \<and> bit_cnt d = bit_cnt b
    \<and> bit_list d = set_range (bit_list b) (unat start) (Suc i) v"
proof -
  have "unat (start + of_nat i) = unat start + i"
    using assms(2) unat_32_less [of "bit_cnt b"] by (intro unat_add_le) simp
  moreover from this have "start + of_nat i < bit_cnt c"
    using assms by (simp add: word_less_nat_alt)
  ultimately show ?thesis
    using bitmap_set_eq [OF assms(3), of "start + of_nat i" v] assms by (simp add: set_range_Suc)
qed

lemma bitmap_set_multiple_eq:
  assumes b: "wf_bitmap b" and range: "unat start + unat cnt \<le> unat (bit_cnt b)"
  shows "\<exists>b'. bitmap_set_multiple b start cnt v = Some b' \<and> wf_bitmap b' \<and> bit_cnt b' = bit_cnt b
    \<and> bit_list b' = set_range (bit_list b) (unat start) (unat cnt) v"
proof -
  have "unat (start + cnt) = unat start + unat cnt"
    using range unat_32_less [of "bit_cnt b"] by (intro unat_add_small) simp
  then have "start \<le> bit_cnt b" "start + cnt \<le> bit_cnt b"
    using range by (simp_all add: word_le_nat_alt)
  moreover have "\<exists>b'. for_loop (unat cnt) (\<lambda>i b. bitmap_set b (start + of_nat i) v) b = Some b'
      \<and> wf_bitmap b' \<and> bit_cnt b' = bit_cnt b \<and> bit_list b' = set_range (bit_list b) (unat start) (unat cnt) v"
    by (rule for_loop_invariant)
      (use b range bitmap_set_loop [OF b] in \<open>auto simp: set_range_def [of _ _ 0]\<close>)
  ultimately show ?thesis
    by (simp add: bitmap_set_multiple_def)
qed

lemma bitmap_set_multiple_None:
  assumes b: "wf_bitmap b" and range: "unat (bit_cnt b) < unat start + unat cnt"
  shows "bitmap_set_multiple b start cnt v = None"
proof (cases "start \<le> bit_cnt b")
  case True
  define k where "k = unat (bit_cnt b) - unat start"
  have k: "unat start + k = unat (bit_cnt b)"
    using True by (simp add: k_def word_le_nat_alt)
  then have "start + of_nat k = bit_cnt b"
    using of_nat_add [of "unat start" k, where ?'a = "32 word"] by simp
  have "for_loop (unat cnt) (\<lambda>i b. bitmap_set b (start + of_nat i) v) b = None"
  proof (rule for_loop_None [where k = k])
    show "bitmap_set c (start + of_nat k) v = None"
      if "wf_bitmap c \<and> bit_cnt c = bit_cnt b \<and> bit_list c = set_range (bit_list b) (unat start) k v" for c
      using that \<open>start + of_nat k = bit_cnt b\<close> by (simp add: bitmap_set_None)
  qed (use b range k bitmap_set_loop [OF b] in \<open>auto simp: set_range_def [of _ _ 0]\<close>)
  then show ?thesis
    by (simp add: bitmap_set_multiple_def ASSERT_def)
qed (simp add: bitmap_set_multiple_def)

lemma bitmap_test_in_range:
  assumes "wf_bitmap b" "unat start + i < unat (bit_cnt b)"
  shows "bitmap_test b (start + of_nat i) = Some (bit_list b ! (unat start + i))"
proof -
  have "unat (start + of_nat i) = unat start + i"
    using assms(2) unat_32_less [of "bit_cnt b"] by (intro unat_add_le) simp
  then show ?thesis
    using assms by (simp add: bitmap_test_eq word_less_nat_alt)
qed

lemma in_range:
  assumes "unat start + unat cnt \<le> unat (n :: size_t)"
  shows "start \<le> n" "start + cnt \<le> n"
proof -
  have "unat (start + cnt) = unat start + unat cnt"
    using assms unat_32_less [of n] by (intro unat_add_small) simp
  then show "start \<le> n" "start + cnt \<le> n"
    using assms by (simp_all add: word_le_nat_alt)
qed

lemma bitmap_contains_loop_eq:
  "wf_bitmap b \<Longrightarrow> unat start + i + n \<le> unat (bit_cnt b) \<Longrightarrow>
   bitmap_contains_loop b start v i n = Some (\<exists>j < n. bit_list b ! (unat start + i + j) = v)"
proof (induction n arbitrary: i)
  case (Suc n)
  then show ?case
    using bitmap_test_in_range [of b start i] Suc.IH [of "Suc i"]
    by (auto simp: less_Suc_eq_0_disj)
qed simp

lemma bitmap_contains_eq:
  assumes "wf_bitmap b" "unat start + unat cnt \<le> unat (bit_cnt b)"
  shows "bitmap_contains b start cnt v = Some (\<exists>j < unat cnt. bit_list b ! (unat start + j) = v)"
  using assms in_range [OF assms(2)] bitmap_contains_loop_eq [of b start 0 "unat cnt" v]
  by (simp add: bitmap_contains_def)

lemma bitmap_count_eq:
  assumes b: "wf_bitmap b" and range: "unat start + unat cnt \<le> unat (bit_cnt b)"
  shows "bitmap_count b start cnt v =
    Some (of_nat (length (filter (\<lambda>x. x = v) (take (unat cnt) (drop (unat start) (bit_list b))))))"
proof -
  let ?f = "\<lambda>i. length (filter (\<lambda>x. x = v) (take i (drop (unat start) (bit_list b))))"
  let ?body = "\<lambda>i value_cnt. do { t \<leftarrow> bitmap_test b (start + of_nat i); Some (if t = v then value_cnt + 1 else value_cnt) }"
  have "\<exists>c. for_loop (unat cnt) ?body 0 = Some c \<and> c = (of_nat (?f (unat cnt)) :: size_t)"
  proof (rule for_loop_invariant)
    show "\<exists>c'. ?body i c = Some c' \<and> c' = of_nat (?f (Suc i))" if "i < unat cnt" "c = of_nat (?f i)" for i c
      using that range bitmap_test_in_range [OF b, of start i]
      by (simp add: take_Suc_conv_app_nth)
  qed simp
  then show ?thesis
    using in_range [OF range] by (simp add: bitmap_count_def)
qed

definition first_fit :: "bool list \<Rightarrow> nat \<Rightarrow> nat \<Rightarrow> bool \<Rightarrow> nat option" where
  "first_fit xs start n v = find (\<lambda>i. \<forall>j < n. xs ! (i + j) = v) [start..<length xs + 1 - n]"

lemma first_fit_Some:
  "first_fit xs start n v = Some i \<longleftrightarrow>
     start \<le> i \<and> i + n \<le> length xs \<and> (\<forall>j < n. xs ! (i + j) = v) \<and>
     (\<forall>k. start \<le> k \<and> k < i \<longrightarrow> (\<exists>j < n. xs ! (k + j) \<noteq> v))"
  (is "?l \<longleftrightarrow> ?r")
proof
  assume ?l
  then obtain k where k: "k < length [start..<length xs + 1 - n]" "i = start + k"
    "\<forall>j<n. xs ! (i + j) = v" "\<forall>j<k. \<not> (\<forall>m<n. xs ! (start + j + m) = v)"
    by (auto simp: first_fit_def find_Some_iff)
  show ?r
  proof (intro conjI allI impI)
    fix m
    assume "start \<le> m \<and> m < i"
    then show "\<exists>j<n. xs ! (m + j) \<noteq> v"
      using k(2) k(4) [rule_format, of "m - start"] by auto
  qed (use k in auto)
next
  assume ?r
  then show ?l
    unfolding first_fit_def find_Some_iff by (intro exI [of _ "i - start"]) auto
qed

lemma first_fit_None:
  "first_fit xs start n v = None \<longleftrightarrow> (\<forall>i. start \<le> i \<and> i + n \<le> length xs \<longrightarrow> (\<exists>j < n. xs ! (i + j) \<noteq> v))"
  by (auto simp: first_fit_def find_None_iff)

lemma first_fit_step:
  assumes "i + n \<le> length xs" "\<exists>j < n. xs ! (i + j) \<noteq> v"
  shows "first_fit xs i n v = first_fit xs (Suc i) n v"
proof -
  have "[i..<length xs + 1 - n] = i # [Suc i..<length xs + 1 - n]"
    using assms(1) by (intro upt_conv_Cons) linarith
  then show ?thesis
    using assms(2) unfolding first_fit_def by auto
qed

lemma bitmap_scan_loop_eq:
  assumes b: "wf_bitmap b" and cnt: "unat cnt \<le> unat (bit_cnt b)"
  shows "bitmap_scan_loop b cnt v (bit_cnt b - cnt) i =
    Some (case first_fit (bit_list b) (unat i) (unat cnt) v of Some k \<Rightarrow> of_nat k | None \<Rightarrow> BITMAP_ERROR)"
proof (induction "Suc (unat (bit_cnt b)) - unat i" arbitrary: i rule: less_induct)
  case less
  have sub: "unat (bit_cnt b - cnt) = unat (bit_cnt b) - unat cnt"
    using cnt by (simp add: unat_sub word_le_nat_alt)
  show ?case
  proof (cases "i \<le> bit_cnt b - cnt")
    case True
    then have le: "unat i + unat cnt \<le> unat (bit_cnt b)"
      using sub cnt by (simp add: word_le_nat_alt)
    show ?thesis
    proof (cases "\<exists>j < unat cnt. bit_list b ! (unat i + j) \<noteq> v")
      case found: True
      then have "unat (i + 1) = Suc (unat i)"
        using le unat_32_less [of "bit_cnt b"] unat_add_small [of i 1] by auto
      then show ?thesis
        using found le True less [of "i + 1"] first_fit_step [of "unat i" "unat cnt" "bit_list b" v]
        by (simp add: bitmap_scan_loop.simps [of b cnt v _ i] bitmap_contains_eq [OF b le])
    next
      case False
      then have "first_fit (bit_list b) (unat i) (unat cnt) v = Some (unat i)"
        using le by (auto simp: first_fit_Some)
      then show ?thesis
        using False le True
        by (simp add: bitmap_scan_loop.simps [of b cnt v _ i] bitmap_contains_eq [OF b le])
    qed
  next
    case False
    then have "first_fit (bit_list b) (unat i) (unat cnt) v = None"
      using sub cnt by (auto simp: first_fit_None word_le_nat_alt)
    then show ?thesis
      using False by (simp add: bitmap_scan_loop.simps [of b cnt v _ i])
  qed
qed

lemma bitmap_scan_eq:
  assumes b: "wf_bitmap b" and "unat start \<le> unat (bit_cnt b)"
  shows "bitmap_scan b start cnt v =
    Some (case first_fit (bit_list b) (unat start) (unat cnt) v of Some k \<Rightarrow> of_nat k | None \<Rightarrow> BITMAP_ERROR)"
proof (cases "cnt \<le> bit_cnt b")
  case True
  then show ?thesis
    using assms bitmap_scan_loop_eq [OF b, of cnt v start] by (simp add: bitmap_scan_def word_le_nat_alt)
next
  case False
  then have "first_fit (bit_list b) (unat start) (unat cnt) v = None"
    by (auto simp: first_fit_None word_le_nat_alt)
  then show ?thesis
    using False assms(2) by (simp add: bitmap_scan_def word_le_nat_alt)
qed

lemma bitmap_scan_and_flip_Some:
  assumes b: "wf_bitmap b" and start: "unat start \<le> unat (bit_cnt b)"
    and fit: "first_fit (bit_list b) (unat start) (unat cnt) v = Some k"
  shows "\<exists>b'. bitmap_scan_and_flip b start cnt v = Some (of_nat k, b') \<and> wf_bitmap b' \<and> bit_cnt b' = bit_cnt b
    \<and> bit_list b' = set_range (bit_list b) k (unat cnt) (\<not> v)"
proof -
  have k: "k + unat cnt \<le> unat (bit_cnt b)"
    using fit by (simp add: first_fit_Some)
  then have "unat (of_nat k :: size_t) = k"
    using unat_32_less [of "bit_cnt b"] by (simp add: unat_of_nat)
  moreover have "unat cnt = 0" if "of_nat k = BITMAP_ERROR"
    using arg_cong [OF that, of unat] calculation k unat_32_less [of "bit_cnt b"] by (simp add: BITMAP_ERROR_def unsigned_minus_1_eq_mask mask_eq_exp_minus_1)
  ultimately show ?thesis
    using bitmap_set_multiple_eq [OF b, of "of_nat k" cnt "\<not> v"] k bitmap_scan_eq [OF b start] fit b
    by (cases "of_nat k = BITMAP_ERROR") (auto simp: bitmap_scan_and_flip_def set_range_def)
qed

lemma bitmap_scan_and_flip_None:
  assumes "wf_bitmap b" "unat start \<le> unat (bit_cnt b)"
    and "first_fit (bit_list b) (unat start) (unat cnt) v = None"
  shows "bitmap_scan_and_flip b start cnt v = Some (BITMAP_ERROR, b)"
  using bitmap_scan_eq [OF assms(1,2)] assms(3) by (simp add: bitmap_scan_and_flip_def)

lemma bitmap_set_all_eq:
  assumes "wf_bitmap b"
  shows "\<exists>b'. bitmap_set_all b v = Some b' \<and> wf_bitmap b' \<and> bit_cnt b' = bit_cnt b
    \<and> bit_list b' = replicate (unat (bit_cnt b)) v"
  using bitmap_set_multiple_eq [OF assms, of 0 "bit_cnt b" v]
  by (simp add: bitmap_set_all_def bitmap_size_def set_range_def)

subsection \<open>Files\<close>

lemma unat_elem_cnt: "unat cnt + 31 < 2 ^ 32 \<Longrightarrow> unat (elem_cnt cnt) = (unat cnt + 31) div 32"
  using unat_add_small [of 31 cnt] by (simp add: elem_cnt_def DIV_ROUND_UP_def ELEM_BITS_def unat_div)

lemma unat_byte_cnt: "unat cnt + 31 < 2 ^ 32 \<Longrightarrow> unat (byte_cnt cnt) = 4 * ((unat cnt + 31) div 32)"
  using unat_elem_cnt [of cnt] by (simp add: byte_cnt_def unat_word_ariths)

lemma bit_last_mask:
  "n < 32 \<Longrightarrow> bit (last_mask b) n \<longleftrightarrow> unat (bit_cnt b) mod 32 = 0 \<or> n < unat (bit_cnt b) mod 32"
  by (auto simp: last_mask_def Let_def ELEM_BITS_def unat_mod bit_simps push_bit_eq_mult
      simp flip: mask_eq_exp_minus_1)

lemma bit_list_eq_iff:
  "bit_cnt b = bit_cnt c \<Longrightarrow> bit_list b = bit_list c \<longleftrightarrow>
     (\<forall>i < unat (bit_cnt b). bit (bits b ! (i div 32)) (i mod 32) = bit (bits c ! (i div 32)) (i mod 32))"
  by (auto simp: list_eq_iff_nth_eq nth_bit_list)

lemma last_elem_mod:
  assumes "i < (n::nat)" "i div 32 = (n + 31) div 32 - 1"
  shows "n mod 32 = 0 \<or> i mod 32 < n mod 32"
proof (rule disjCI)
  assume "\<not> i mod 32 < n mod 32"
  show "n mod 32 = 0"
  proof (rule ccontr)
    assume "n mod 32 \<noteq> 0"
    then have "(n + 31) div 32 = n div 32 + 1"
      by (simp add: div_add1_eq [of n 31] div_nat_eqI)
    then have "i div 32 = n div 32"
      using assms(2) by simp
    then show False
      using assms(1) \<open>\<not> i mod 32 < n mod 32\<close> div_mult_mod_eq [of i 32] div_mult_mod_eq [of n 32] by linarith
  qed
qed

lemma masked_last_elem:
  assumes "0 < unat (bit_cnt b)" "i < unat (bit_cnt b)"
    and "length ws = (unat (bit_cnt b) + 31) div 32" "k = (unat (bit_cnt b) + 31) div 32 - 1"
  shows "bit (ws[k := ws ! k AND last_mask b] ! (i div 32)) (i mod 32) = bit (ws ! (i div 32)) (i mod 32)"
proof (cases "i div 32 = k")
  case True
  have "unat (bit_cnt b) mod 32 = 0 \<or> i mod 32 < unat (bit_cnt b) mod 32"
    using True assms last_elem_mod by blast
  moreover have "k < length ws"
    using assms by linarith
  ultimately show ?thesis
    using True by (simp add: bit_and_iff bit_last_mask)
qed simp

text \<open>Reading a file that holds what \<^verbatim>\<open>bitmap_write\<close> stored gives the bits back.\<close>

lemma bitmap_read_bits:
  assumes "unat (bit_cnt b) + 31 < 2 ^ 32" "length (bits b) = unat (elem_cnt (bit_cnt b))"
    and "bit_cnt c = bit_cnt b" "length (bits c) = length (bits b)"
  shows "\<exists>d. bitmap_read (\<lambda>n. take n (words_bytes (bits b))) c = Some (True, d)
    \<and> bit_cnt d = bit_cnt b \<and> length (bits d) = length (bits b) \<and> bit_list d = bit_list b"
proof (cases "bit_cnt b = 0")
  case True
  then show ?thesis
    using assms by (simp add: bitmap_read_def bit_list_def)
next
  case False
  then have pos: "0 < unat (bit_cnt b)" "0 < bit_cnt b"
    by (simp_all add: unat_gt_0 word_gt_0)
  let ?n = "(unat (bit_cnt b) + 31) div 32"
  let ?d = "c\<lparr>bits := (bits b)[?n - 1 := bits b ! (?n - 1) AND last_mask b]\<rparr>"
  have n: "length (bits b) = ?n" "unat (byte_cnt (bit_cnt b)) = 4 * ?n" "0 < ?n"
    using unat_elem_cnt [OF assms(1)] unat_byte_cnt [OF assms(1)] assms(2) pos by simp_all
  have idx: "unat (elem_cnt (bit_cnt b) - 1) = ?n - 1"
    using unat_elem_cnt [OF assms(1)] n(3) by (simp add: unat_sub word_le_nat_alt)
  have "put_bytes (words_bytes (bits c)) 0 (words_bytes (bits b)) = words_bytes (bits b)"
    using assms(4) by simp
  then have "bitmap_read (\<lambda>n. take n (words_bytes (bits b))) c = Some (True, ?d)"
    using pos n idx assms(3) by (simp add: bitmap_read_def load_elem_def store_elem_def last_mask_def)
  moreover have "bit_list ?d = bit_list b"
    using masked_last_elem [OF pos(1) _ n(1) refl] assms(3) by (subst bit_list_eq_iff) simp_all
  ultimately show ?thesis
    using assms(3) by simp
qed

subsection \<open>Properties\<close>

definition sample_bitmap :: bitmap where
  "sample_bitmap = \<lparr>bit_cnt = 40, bits = [0xFFFF00F1, 0xABCDEF0F]\<rparr>"

lemma sample_bitmap_wf: "wf_bitmap sample_bitmap" "bit_cnt sample_bitmap = 40"
  by (simp_all add: sample_bitmap_def wf_bitmap_def)

text \<open>\<^verbatim>\<open>bitmap_set\<close> changes the bit it names, as \<^verbatim>\<open>bitmap_test\<close> shows, and no
  other, and keeps the bitmap well formed; outside the bitmap both fail their assertions.\<close>

theorem bitmap_set_test:
  assumes "wf_bitmap b"
  shows "if i < bit_cnt b then
      \<exists>b'. bitmap_set b i v = Some b' \<and> wf_bitmap b' \<and> bit_list b' = (bit_list b)[unat i := v]
        \<and> (\<forall>j. bitmap_test b' j = (if j = i then Some v else bitmap_test b j))
    else bitmap_set b i v = None \<and> bitmap_test b i = None"
proof (cases "i < bit_cnt b")
  case True
  then obtain b' where b': "bitmap_set b i v = Some b'" "wf_bitmap b'" "bit_cnt b' = bit_cnt b"
      "bit_list b' = (bit_list b)[unat i := v]"
    using bitmap_set_eq [OF assms] by blast
  then have "bitmap_test b' j = (if j = i then Some v else bitmap_test b j)" for j
    using True assms by (auto simp: bitmap_test_eq nth_list_update word_less_nat_alt simp flip: word_unat_eq_iff)
  then show ?thesis
    using b' True by auto
next
  case False
  then show ?thesis
    by (simp add: bitmap_set_def bitmap_test_def)
qed

theorem bitmap_set_test_witness:
  "\<exists>b'. bitmap_set sample_bitmap 5 True = Some b' \<and> bitmap_test b' 5 = Some True
    \<and> bitmap_test b' 6 = bitmap_test sample_bitmap 6"
  using bitmap_set_test [OF sample_bitmap_wf(1), of 5 True] by (auto simp: sample_bitmap_wf)

text \<open>\<^verbatim>\<open>bitmap_set_multiple\<close> sets exactly the bits of the range when it lies in the
  bitmap, and stops the kernel otherwise, even when \<^verbatim>\<open>start + cnt\<close> wraps around.\<close>

theorem bitmap_set_multiple_range:
  assumes "wf_bitmap b"
  shows "if unat start + unat cnt \<le> unat (bit_cnt b) then
      \<exists>b'. bitmap_set_multiple b start cnt v = Some b' \<and> wf_bitmap b'
        \<and> bit_list b' = take (unat start) (bit_list b) @ replicate (unat cnt) v
            @ drop (unat start + unat cnt) (bit_list b)
    else bitmap_set_multiple b start cnt v = None"
  using bitmap_set_multiple_eq [OF assms, of start cnt v] bitmap_set_multiple_None [OF assms, of start cnt v]
  by (auto simp: set_range_def not_le)

theorem bitmap_set_multiple_range_witness:
  "bitmap_set_multiple sample_bitmap 38 (- 1) True = None"
  using bitmap_set_multiple_range [OF sample_bitmap_wf(1), of 38 "- 1" True]
  by (simp add: sample_bitmap_wf unsigned_minus_1_eq_mask mask_eq_exp_minus_1)

text \<open>C31: \<^verbatim>\<open>bitmap_scan_and_flip\<close> returns the first group of \<open>cnt\<close> bits equal to \<open>value\<close>
  at or after \<open>start\<close> and flips exactly them, or returns \<^verbatim>\<open>BITMAP_ERROR\<close> and changes
  nothing if there is no such group; its loop always ends. For \<open>cnt\<close> zero the group is empty and the
  result is \<open>start\<close>, with no bit changed; the comment of the function says that it is 0.\<close>

theorem bitmap_scan_and_flip_first_fit:
  assumes "wf_bitmap b" "unat start \<le> unat (bit_cnt b)"
  shows "\<exists>b'. bitmap_scan_and_flip b start cnt v =
      Some (case first_fit (bit_list b) (unat start) (unat cnt) v of
          Some k \<Rightarrow> (of_nat k, b') | None \<Rightarrow> (BITMAP_ERROR, b))
    \<and> wf_bitmap b' \<and> bit_cnt b' = bit_cnt b
    \<and> (\<forall>k. first_fit (bit_list b) (unat start) (unat cnt) v = Some k \<longrightarrow>
        bit_list b' = set_range (bit_list b) k (unat cnt) (\<not> v))
    \<and> (cnt = 0 \<longrightarrow> bitmap_scan_and_flip b start cnt v = Some (start, b') \<and> bit_list b' = bit_list b)"
proof -
  have zero: "first_fit (bit_list b) (unat start) (unat cnt) v = Some (unat start)" if "cnt = 0"
    using that assms by (simp add: first_fit_Some)
  show ?thesis
  proof (cases "first_fit (bit_list b) (unat start) (unat cnt) v")
    case None
    then show ?thesis
      using bitmap_scan_and_flip_None [OF assms None] assms(1) zero by auto
  next
    case (Some k)
    then show ?thesis
      using bitmap_scan_and_flip_Some [OF assms Some] zero by (auto simp: set_range_def)
  qed
qed

theorem bitmap_scan_and_flip_first_fit_witness:
  "\<exists>b'. bitmap_scan_and_flip sample_bitmap 0 5 False = Some (8, b')
    \<and> bit_list b' = set_range (bit_list sample_bitmap) 8 5 True"
proof -
  have "first_fit (bit_list sample_bitmap) 0 5 False = Some 8"
    by code_simp
  then show ?thesis
    using bitmap_scan_and_flip_first_fit [OF sample_bitmap_wf(1), of 0 5 False] by auto
qed

text \<open>a bitmap read back from a file that holds what \<^verbatim>\<open>bitmap_write\<close> wrote has the
  same bits, whatever the elements held before and whatever the unused bits of the last
  element are.\<close>

theorem bitmap_write_read:
  assumes "unat (bit_cnt b) + 31 < 2 ^ 32" "length (bits b) = unat (elem_cnt (bit_cnt b))"
    and "bit_cnt c = bit_cnt b" "length (bits c) = length (bits b)"
  shows "bitmap_write (\<lambda>bs. if bs = words_bytes (bits b) then length bs else 0) b
    \<and> (\<exists>d. bitmap_read (\<lambda>n. take n (words_bytes (bits b))) c = Some (True, d)
        \<and> bit_cnt d = bit_cnt b \<and> bit_list d = bit_list b)"
  using bitmap_read_bits [OF assms] unat_byte_cnt [OF assms(1)] unat_elem_cnt [OF assms(1)] assms(2)
  by (auto simp: bitmap_write_def Let_def)

theorem bitmap_write_read_witness:
  "\<exists>d. bitmap_read (\<lambda>n. take n (words_bytes [0xFFFF00F1, 0xABCDEF0F])) \<lparr>bit_cnt = 40, bits = [0, 7]\<rparr> = Some (True, d)
    \<and> bit_list d = bit_list sample_bitmap"
  using bitmap_write_read [of sample_bitmap "\<lparr>bit_cnt = 40, bits = [0, 7]\<rparr>"]
  by (auto simp: sample_bitmap_def elem_cnt_def DIV_ROUND_UP_def ELEM_BITS_def)

end
