(* ===== verification/Hash.thy ===== *)
theory Hash
  imports DList Bytes
begin

text \<open>
  The chained hash tables of \<^verbatim>\<open>lib/kernel/hash.c\<close>. A bucket is a \<^verbatim>\<open>struct list\<close>, here the
  sequence of elements it holds: that the list operations implement sequences is the
  subject of theory \<open>DList\<close>. The hash and comparison functions the user of a table passes
  (with their auxiliary data) are parameters, and so is whether \<^verbatim>\<open>malloc\<close> finds memory
  for a new bucket array.
\<close>

subsection \<open>The operations\<close>

record 'e hash =
  h_elem_cnt :: size_t
  bucket_cnt :: size_t
  buckets :: "'e list list"

definition find_bucket :: "('e \<Rightarrow> uint32_t) \<Rightarrow> 'e hash \<Rightarrow> 'e \<Rightarrow> nat" where
  "find_bucket hf h e = unat (hf e AND (bucket_cnt h - 1))"

definition find_elem :: "('e \<Rightarrow> 'e \<Rightarrow> bool) \<Rightarrow> 'e list \<Rightarrow> 'e \<Rightarrow> 'e option" where
  "find_elem lt bucket e = find (\<lambda>hi. \<not> lt hi e \<and> \<not> lt e hi) bucket"

definition turn_off_least_1bit :: "size_t \<Rightarrow> size_t" where
  "turn_off_least_1bit x = x AND (x - 1)"

definition is_power_of_2 :: "size_t \<Rightarrow> bool" where
  "is_power_of_2 x = (x \<noteq> 0 \<and> turn_off_least_1bit x = 0)"

partial_function (option) round_to_power :: "size_t \<Rightarrow> size_t option" where
  "round_to_power n =
     (if \<not> is_power_of_2 n then round_to_power (turn_off_least_1bit n) else Some n)"

definition ideal_bucket_cnt :: "size_t \<Rightarrow> size_t option" where
  "ideal_bucket_cnt elem_cnt = (let n = elem_cnt div 2 in round_to_power (if n < 4 then 4 else n))"

definition push_bucket :: "('e \<Rightarrow> uint32_t) \<Rightarrow> 'e \<Rightarrow> 'e hash \<Rightarrow> 'e hash" where
  "push_bucket hf e h =
     (let i = find_bucket hf h e in h\<lparr>buckets := (buckets h)[i := e # buckets h ! i]\<rparr>)"

definition rehash :: "('e \<Rightarrow> uint32_t) \<Rightarrow> bool \<Rightarrow> 'e hash \<Rightarrow> 'e hash option" where
  "rehash hf malloc_ok h = do {
     new_bucket_cnt \<leftarrow> ideal_bucket_cnt (h_elem_cnt h);
     if new_bucket_cnt = bucket_cnt h then Some h
     else if \<not> malloc_ok then Some h
     else
       let old_buckets = take (unat (bucket_cnt h)) (buckets h);
           h' = h\<lparr>buckets := replicate (unat new_bucket_cnt) [], bucket_cnt := new_bucket_cnt\<rparr>
       in Some (fold (fold (push_bucket hf)) old_buckets h') }"

definition insert_elem :: "'e hash \<Rightarrow> nat \<Rightarrow> 'e \<Rightarrow> 'e hash" where
  "insert_elem h bucket e =
     h\<lparr>h_elem_cnt := h_elem_cnt h + 1, buckets := (buckets h)[bucket := e # buckets h ! bucket]\<rparr>"

definition remove_elem :: "'e hash \<Rightarrow> nat \<Rightarrow> 'e \<Rightarrow> 'e hash" where
  "remove_elem h bucket e =
     h\<lparr>h_elem_cnt := h_elem_cnt h - 1, buckets := (buckets h)[bucket := remove1 e (buckets h ! bucket)]\<rparr>"

definition hash_clear :: "'e hash \<Rightarrow> 'e list \<times> 'e hash" where
  "hash_clear h = (concat (take (unat (bucket_cnt h)) (buckets h)),
     h\<lparr>h_elem_cnt := 0, buckets := replicate (unat (bucket_cnt h)) []\<rparr>)"

definition hash_init :: "bool \<Rightarrow> 'e hash option" where
  "hash_init malloc_ok =
     (if malloc_ok then Some (snd (hash_clear \<lparr>h_elem_cnt = 0, bucket_cnt = 4, buckets = []\<rparr>)) else None)"

definition hash_insert ::
  "('e \<Rightarrow> uint32_t) \<Rightarrow> ('e \<Rightarrow> 'e \<Rightarrow> bool) \<Rightarrow> bool \<Rightarrow> 'e hash \<Rightarrow> 'e \<Rightarrow> ('e option \<times> 'e hash) option" where
  "hash_insert hf lt malloc_ok h new = do {
     let bucket = find_bucket hf h new;
     let old = find_elem lt (buckets h ! bucket) new;
     h \<leftarrow> rehash hf malloc_ok (if old = None then insert_elem h bucket new else h);
     Some (old, h) }"

definition hash_replace ::
  "('e \<Rightarrow> uint32_t) \<Rightarrow> ('e \<Rightarrow> 'e \<Rightarrow> bool) \<Rightarrow> bool \<Rightarrow> 'e hash \<Rightarrow> 'e \<Rightarrow> ('e option \<times> 'e hash) option" where
  "hash_replace hf lt malloc_ok h new = do {
     let bucket = find_bucket hf h new;
     let old = find_elem lt (buckets h ! bucket) new;
     let h = (case old of Some e \<Rightarrow> remove_elem h bucket e | None \<Rightarrow> h);
     h \<leftarrow> rehash hf malloc_ok (insert_elem h bucket new);
     Some (old, h) }"

definition hash_find :: "('e \<Rightarrow> uint32_t) \<Rightarrow> ('e \<Rightarrow> 'e \<Rightarrow> bool) \<Rightarrow> 'e hash \<Rightarrow> 'e \<Rightarrow> 'e option" where
  "hash_find hf lt h e = find_elem lt (buckets h ! find_bucket hf h e) e"

definition hash_delete ::
  "('e \<Rightarrow> uint32_t) \<Rightarrow> ('e \<Rightarrow> 'e \<Rightarrow> bool) \<Rightarrow> bool \<Rightarrow> 'e hash \<Rightarrow> 'e \<Rightarrow> ('e option \<times> 'e hash) option" where
  "hash_delete hf lt malloc_ok h e =
     (case find_elem lt (buckets h ! find_bucket hf h e) e of
        None \<Rightarrow> Some (None, h)
      | Some found \<Rightarrow> do {
          h \<leftarrow> rehash hf malloc_ok (remove_elem h (find_bucket hf h e) found);
          Some (Some found, h) })"

definition hash_apply :: "('e \<Rightarrow> 's \<Rightarrow> 's) \<Rightarrow> 'e hash \<Rightarrow> 's \<Rightarrow> 's" where
  "hash_apply action h = fold (fold action) (take (unat (bucket_cnt h)) (buckets h))"

definition hash_size :: "'e hash \<Rightarrow> size_t" where
  "hash_size h = h_elem_cnt h"

definition hash_empty :: "'e hash \<Rightarrow> bool" where
  "hash_empty h = (h_elem_cnt h = 0)"

text \<open>
  An iterator is the index of the current bucket and a position in it: 0 is the head
  sentinel of the list, \<open>k + 1\<close> its element \<open>k\<close>.
\<close>

type_synonym hash_iterator = "nat \<times> nat"

definition hash_first :: hash_iterator where
  "hash_first = (0, 0)"

fun next_bucket :: "'e hash \<Rightarrow> nat \<Rightarrow> nat \<Rightarrow> (nat \<times> nat) option" where
  "next_bucket h bucket 0 = None"
| "next_bucket h bucket (Suc left) =
     (if buckets h ! bucket = [] then next_bucket h (Suc bucket) left else Some (bucket, 1))"

definition hash_next :: "'e hash \<Rightarrow> hash_iterator \<Rightarrow> ('e \<times> hash_iterator) option" where
  "hash_next h i = (case i of (bucket, pos) \<Rightarrow>
     if pos < length (buckets h ! bucket) then Some (buckets h ! bucket ! pos, (bucket, Suc pos))
     else map_option (\<lambda>(b, p). (buckets h ! b ! 0, (b, p)))
       (next_bucket h (Suc bucket) (unat (bucket_cnt h) - Suc bucket)))"

subsection \<open>Hash functions\<close>

definition FNV_32_PRIME :: uint32_t where "FNV_32_PRIME = 16777619"

definition FNV_32_BASIS :: uint32_t where "FNV_32_BASIS = 2166136261"

definition hash_bytes :: "bytes \<Rightarrow> uint32_t" where
  "hash_bytes buf = foldl (\<lambda>hash b. (hash * FNV_32_PRIME) XOR ucast b) FNV_32_BASIS buf"

fun hash_string_loop :: "uint32_t \<Rightarrow> bytes \<Rightarrow> uint32_t option" where
  "hash_string_loop hash [] = None"
| "hash_string_loop hash (c # s) =
     (if c \<noteq> 0 then hash_string_loop ((hash * FNV_32_PRIME) XOR ucast c) s else Some hash)"

definition hash_string :: "bytes \<Rightarrow> uint32_t option" where
  "hash_string s = hash_string_loop FNV_32_BASIS s"

definition hash_int :: "int \<Rightarrow> uint32_t" where
  "hash_int i = hash_bytes (le_bytes (word_of_int i))"

lemma option_eqI: "(\<And>x. a = Some x \<longleftrightarrow> b = Some x) \<Longrightarrow> a = b"
  by (cases a; cases b) auto

subsection \<open>The table as a map from keys to elements\<close>

text \<open>
  The documented contract of the two functions: the comparison is a strict ordering by a
  key of the element and the hash is a function of that key.
\<close>

abbreviation (input) key_hash :: "('k \<Rightarrow> uint32_t) \<Rightarrow> ('e \<Rightarrow> 'k) \<Rightarrow> 'e \<Rightarrow> uint32_t" where
  "key_hash kh key \<equiv> \<lambda>e. kh (key e)"

abbreviation (input) key_lt :: "('e \<Rightarrow> 'k::linorder) \<Rightarrow> 'e \<Rightarrow> 'e \<Rightarrow> bool" where
  "key_lt key \<equiv> \<lambda>a b. key a < key b"

definition elems :: "'e hash \<Rightarrow> 'e list" where
  "elems h = concat (buckets h)"

definition placed :: "('e \<Rightarrow> uint32_t) \<Rightarrow> 'e hash \<Rightarrow> bool" where
  "placed hf h \<longleftrightarrow> bucket_cnt h \<noteq> 0 \<and> length (buckets h) = unat (bucket_cnt h) \<and>
     (\<forall>i < length (buckets h). \<forall>e \<in> set (buckets h ! i). find_bucket hf h e = i)"

definition wf_hash :: "('k \<Rightarrow> uint32_t) \<Rightarrow> ('e \<Rightarrow> 'k) \<Rightarrow> 'e hash \<Rightarrow> bool" where
  "wf_hash kh key h \<longleftrightarrow> placed (key_hash kh key) h \<and> distinct (map key (elems h)) \<and>
     h_elem_cnt h = of_nat (length (elems h))"

definition table :: "('e \<Rightarrow> 'k) \<Rightarrow> 'e hash \<Rightarrow> 'k \<Rightarrow> 'e option" where
  "table key h k = find (\<lambda>e. key e = k) (elems h)"

lemma find_key_Some:
  "distinct (map key xs) \<Longrightarrow> find (\<lambda>e. key e = k) xs = Some x \<longleftrightarrow> x \<in> set xs \<and> key x = k"
  by (induction xs) (auto simp: rev_image_eqI)

lemma table_Some: "wf_hash kh key h \<Longrightarrow> table key h k = Some x \<longleftrightarrow> x \<in> set (elems h) \<and> key x = k"
  by (simp add: wf_hash_def table_def find_key_Some)

lemma find_bucket_less: "bucket_cnt h \<noteq> 0 \<Longrightarrow> find_bucket hf h e < unat (bucket_cnt h)"
proof -
  assume "bucket_cnt h \<noteq> 0"
  moreover have "unat (hf e AND (bucket_cnt h - 1)) \<le> unat (bucket_cnt h - 1)"
    using word_and_le1 [of "hf e" "bucket_cnt h - 1"] word_le_nat_alt by blast
  ultimately show ?thesis
    using unat_minus_one [of "bucket_cnt h"] unat_gt_0 [of "bucket_cnt h"] by (simp add: find_bucket_def)
qed

lemma find_bucket_cong: "bucket_cnt h' = bucket_cnt h \<Longrightarrow> find_bucket hf h' e = find_bucket hf h e"
  by (simp add: find_bucket_def)

lemma placed_idx: "placed hf h \<Longrightarrow> find_bucket hf h e < length (buckets h)"
  by (simp add: placed_def find_bucket_less)

lemma in_elems:
  assumes "placed hf h"
  shows "x \<in> set (elems h) \<longleftrightarrow> x \<in> set (buckets h ! find_bucket hf h x)"
proof
  assume "x \<in> set (elems h)"
  then obtain i where "i < length (buckets h)" "x \<in> set (buckets h ! i)"
    unfolding elems_def by (auto simp: in_set_conv_nth [of _ "buckets h"])
  then show "x \<in> set (buckets h ! find_bucket hf h x)"
    using assms by (auto simp: placed_def)
next
  assume "x \<in> set (buckets h ! find_bucket hf h x)"
  then show "x \<in> set (elems h)"
    using placed_idx [OF assms, of x] nth_mem by (auto simp: elems_def)
qed

lemma distinct_bucket: "distinct (map key (concat bs)) \<Longrightarrow> b \<in> set bs \<Longrightarrow> distinct (map key b)"
  by (induction bs) auto

lemma hash_find_table:
  assumes wf: "wf_hash kh key h"
  shows "hash_find (key_hash kh key) (key_lt key) h e = table key h (key e)"
proof -
  let ?hf = "key_hash kh key"
  have p: "placed ?hf h"
    using wf by (simp add: wf_hash_def)
  have "distinct (map key (buckets h ! find_bucket ?hf h e))"
    using wf nth_mem [OF placed_idx [OF p]] distinct_bucket unfolding wf_hash_def elems_def by blast
  moreover have "(\<lambda>hi. \<not> key_lt key hi e \<and> \<not> key_lt key e hi) = (\<lambda>hi. key hi = key e)"
    by auto
  ultimately have "hash_find ?hf (key_lt key) h e = Some x \<longleftrightarrow>
      x \<in> set (buckets h ! find_bucket ?hf h e) \<and> key x = key e" for x
    by (simp add: hash_find_def find_elem_def find_key_Some)
  moreover have "find_bucket ?hf h x = find_bucket ?hf h e" if "key x = key e" for x
    using that by (simp add: find_bucket_def)
  ultimately have "hash_find ?hf (key_lt key) h e = Some x \<longleftrightarrow> x \<in> set (elems h) \<and> key x = key e" for x
    using in_elems [OF p, of x] by metis
  then have "hash_find ?hf (key_lt key) h e = Some x \<longleftrightarrow> table key h (key e) = Some x" for x
    using table_Some [OF wf] by simp
  then show ?thesis
    by (rule option_eqI)
qed

lemma find_elem_table:
  "wf_hash kh key h \<Longrightarrow>
   find_elem (key_lt key) (buckets h ! find_bucket (key_hash kh key) h e) e = table key h (key e)"
  using hash_find_table [of kh key h e] by (simp add: hash_find_def)

text \<open>Replacing one bucket.\<close>

lemma mset_concat_update:
  "i < length bs \<Longrightarrow> mset (concat (bs[i := b])) + mset (bs ! i) = mset (concat bs) + mset b"
  by (induction bs arbitrary: i) (auto split: nat.splits)

lemma placed_update:
  assumes "placed hf h" "i < length (buckets h)" "\<forall>e \<in> set b. find_bucket hf h e = i"
    and "bucket_cnt h' = bucket_cnt h" "buckets h' = (buckets h)[i := b]"
  shows "placed hf h'"
  using assms by (auto simp: placed_def find_bucket_def nth_list_update)

lemma push_bucket_placed:
  assumes "placed hf h"
  shows "placed hf (push_bucket hf e h)" "mset (elems (push_bucket hf e h)) = add_mset e (mset (elems h))"
    "h_elem_cnt (push_bucket hf e h) = h_elem_cnt h" "bucket_cnt (push_bucket hf e h) = bucket_cnt h"
proof -
  let ?i = "find_bucket hf h e"
  note i = placed_idx [OF assms, of e]
  have "\<forall>x \<in> set (e # buckets h ! ?i). find_bucket hf h x = ?i"
    using assms i by (auto simp: placed_def)
  then show "placed hf (push_bucket hf e h)"
    by (rule placed_update [OF assms i]) (simp_all add: push_bucket_def Let_def)
  show "mset (elems (push_bucket hf e h)) = add_mset e (mset (elems h))"
    using mset_concat_update [OF i, of "e # buckets h ! ?i"] by (simp add: push_bucket_def Let_def elems_def)
qed (simp_all add: push_bucket_def Let_def)

lemma fold_push_bucket:
  "placed hf h \<Longrightarrow> placed hf (fold (push_bucket hf) es h)
    \<and> mset (elems (fold (push_bucket hf) es h)) = mset es + mset (elems h)
    \<and> h_elem_cnt (fold (push_bucket hf) es h) = h_elem_cnt h"
  by (induction es arbitrary: h) (auto simp: push_bucket_placed)

lemma fold_fold_push_bucket:
  "placed hf h \<Longrightarrow> placed hf (fold (fold (push_bucket hf)) bs h)
    \<and> mset (elems (fold (fold (push_bucket hf)) bs h)) = mset (concat bs) + mset (elems h)
    \<and> h_elem_cnt (fold (fold (push_bucket hf)) bs h) = h_elem_cnt h"
  by (induction bs arbitrary: h) (auto simp: fold_push_bucket)

lemma turn_off_less: "x \<noteq> 0 \<Longrightarrow> turn_off_least_1bit x < x"
proof -
  assume "x \<noteq> 0"
  then have "unat (x - 1) < unat x"
    using unat_minus_one [of x] unat_gt_0 [of x] by simp
  moreover have "turn_off_least_1bit x \<le> x - 1"
    by (simp add: turn_off_least_1bit_def word_and_le1)
  ultimately show ?thesis
    by (simp add: word_less_nat_alt word_le_nat_alt)
qed

lemma round_to_power_returns: "x \<noteq> 0 \<Longrightarrow> \<exists>y. round_to_power x = Some y \<and> is_power_of_2 y \<and> y \<le> x"
proof (induction x rule: measure_induct_rule [of unat])
  case (less x)
  show ?case
  proof (cases "is_power_of_2 x")
    case True
    then show ?thesis
      by (simp add: round_to_power.simps [of x])
  next
    case False
    then have "turn_off_least_1bit x \<noteq> 0" "turn_off_least_1bit x < x"
      using less.prems turn_off_less by (auto simp: is_power_of_2_def)
    then show ?thesis
      using less.IH [of "turn_off_least_1bit x"] False
      by (auto simp: round_to_power.simps [of x] word_less_nat_alt word_le_nat_alt)
  qed
qed

lemma ideal_bucket_cnt_returns: "\<exists>y. ideal_bucket_cnt n = Some y \<and> is_power_of_2 y"
proof -
  let ?m = "if n div 2 < 4 then 4 else n div 2"
  have "?m \<noteq> 0"
    by auto
  then show ?thesis
    using round_to_power_returns [of ?m] unfolding ideal_bucket_cnt_def Let_def by blast
qed

lemma placed_empty: "cnt \<noteq> 0 \<Longrightarrow> placed hf (h\<lparr>buckets := replicate (unat cnt) [], bucket_cnt := cnt\<rparr>)"
  by (simp add: placed_def)

lemma rehash_wf:
  assumes "wf_hash kh key h"
  shows "\<exists>h'. rehash (key_hash kh key) malloc_ok h = Some h' \<and> wf_hash kh key h'
    \<and> mset (elems h') = mset (elems h)"
proof -
  let ?hf = "key_hash kh key"
  obtain n where n: "ideal_bucket_cnt (h_elem_cnt h) = Some n" "n \<noteq> 0"
    using ideal_bucket_cnt_returns by (auto simp: is_power_of_2_def)
  let ?h = "h\<lparr>buckets := replicate (unat n) [], bucket_cnt := n\<rparr>"
  let ?h' = "fold (fold (push_bucket ?hf)) (buckets h) ?h"
  have "elems ?h = []"
    by (auto simp: elems_def)
  then have *: "placed ?hf ?h'" "mset (elems ?h') = mset (elems h)" "h_elem_cnt ?h' = h_elem_cnt h"
    using fold_fold_push_bucket [OF placed_empty [OF n(2)], of ?hf "buckets h" h] by (simp_all add: elems_def)
  then have "wf_hash kh key ?h'"
    using assms mset_eq_length [OF *(2)] mset_eq_imp_distinct_iff [of "map key (elems ?h')" "map key (elems h)"]
    by (simp add: wf_hash_def)
  moreover have "take (unat (bucket_cnt h)) (buckets h) = buckets h"
    using assms by (simp add: wf_hash_def placed_def)
  ultimately show ?thesis
    using n *(2) assms by (auto simp: rehash_def Let_def)
qed

lemma insert_elem_wf:
  assumes wf: "wf_hash kh key h" and new: "table key h (key e) = None"
  shows "wf_hash kh key (insert_elem h (find_bucket (key_hash kh key) h e) e)"
    and "mset (elems (insert_elem h (find_bucket (key_hash kh key) h e) e)) = add_mset e (mset (elems h))"
proof -
  let ?hf = "key_hash kh key" and ?h' = "insert_elem h (find_bucket (key_hash kh key) h e) e"
  have p: "placed ?hf h"
    using wf by (simp add: wf_hash_def)
  have "elems ?h' = elems (push_bucket ?hf e h)" "bucket_cnt ?h' = bucket_cnt (push_bucket ?hf e h)"
      "buckets ?h' = buckets (push_bucket ?hf e h)"
    by (simp_all add: insert_elem_def push_bucket_def elems_def Let_def)
  then have *: "placed ?hf ?h'" "mset (elems ?h') = add_mset e (mset (elems h))"
    using push_bucket_placed [OF p, of e] by (simp_all add: placed_def find_bucket_def)
  moreover have "key e \<notin> key ` set (elems h)"
    using new table_Some [OF wf] by (metis image_iff option.distinct(1))
  moreover have "h_elem_cnt ?h' = of_nat (length (elems ?h'))"
    using wf mset_eq_length [of "elems ?h'" "e # elems h"] *(2) by (simp add: wf_hash_def insert_elem_def)
  ultimately show "wf_hash kh key ?h'"
    using wf mset_eq_imp_distinct_iff [of "map key (elems ?h')" "map key (e # elems h)"] by (simp add: wf_hash_def)
  show "mset (elems ?h') = add_mset e (mset (elems h))"
    by (rule *)
qed

lemma remove_elem_wf:
  assumes wf: "wf_hash kh key h" and x: "x \<in> set (elems h)"
  shows "wf_hash kh key (remove_elem h (find_bucket (key_hash kh key) h x) x)"
    and "mset (elems h) = add_mset x (mset (elems (remove_elem h (find_bucket (key_hash kh key) h x) x)))"
proof -
  let ?hf = "key_hash kh key" and ?i = "find_bucket (key_hash kh key) h x"
  let ?h' = "remove_elem h ?i x"
  have p: "placed ?hf h"
    using wf by (simp add: wf_hash_def)
  note i = placed_idx [OF p, of x]
  have mem: "x \<in> set (buckets h ! ?i)"
    using in_elems [OF p] x by blast
  have placed: "placed ?hf ?h'"
    using p i by (intro placed_update [OF p i, of "remove1 x (buckets h ! ?i)"])
      (auto simp: remove_elem_def placed_def dest!: subsetD [OF set_remove1_subset])
  have *: "mset (elems h) = add_mset x (mset (elems ?h'))"
  proof -
    define M where "M = mset (buckets h ! ?i) - {#x#}"
    have "mset (buckets h ! ?i) = add_mset x M" "mset (remove1 x (buckets h ! ?i)) = M"
      using mem by (simp_all add: M_def)
    then have "mset (elems ?h') + add_mset x M = mset (elems h) + M"
      using mset_concat_update [OF i, of "remove1 x (buckets h ! ?i)"] by (simp add: remove_elem_def elems_def)
    then show ?thesis
      by simp
  qed
  moreover have "h_elem_cnt ?h' = of_nat (length (elems ?h'))"
  proof -
    have "h_elem_cnt ?h' = h_elem_cnt h - 1"
      by (simp add: remove_elem_def)
    then show ?thesis
      using wf mset_eq_length [of "elems h" "x # elems ?h'"] * by (simp add: wf_hash_def)
  qed
  ultimately show "wf_hash kh key ?h'"
    using wf placed mset_eq_imp_distinct_iff [of "map key (elems h)" "map key (x # elems ?h')"]
    by (simp add: wf_hash_def)
  show "mset (elems h) = add_mset x (mset (elems ?h'))"
    by (rule *)
qed

lemma table_cong:
  assumes "wf_hash kh key h" "wf_hash kh key h'" "mset (elems h') = mset (elems h)"
  shows "table key h' = table key h"
  by (rule ext, rule option_eqI)
    (simp add: table_Some [OF assms(1)] table_Some [OF assms(2)] mset_eq_setD [OF assms(3)])

lemma table_add:
  assumes "wf_hash kh key h" "wf_hash kh key h'" "mset (elems h') = add_mset e (mset (elems h))"
  shows "table key h' = (table key h)(key e \<mapsto> e)" "table key h (key e) = None"
proof -
  have set: "set (elems h') = insert e (set (elems h))"
    using arg_cong [OF assms(3), of set_mset] by simp
  have "mset (map key (elems h')) = mset (key e # map key (elems h))"
    using assms(3) by simp
  then have "distinct (key e # map key (elems h))"
    using assms(2) mset_eq_imp_distinct_iff [of "map key (elems h')" "key e # map key (elems h)"]
    by (simp add: wf_hash_def)
  then have new: "\<forall>x \<in> set (elems h). key x \<noteq> key e"
    by (auto simp: image_iff)
  then show "table key h (key e) = None"
    using table_Some [OF assms(1)] by (metis not_None_eq)
  show "table key h' = (table key h)(key e \<mapsto> e)"
    by (rule ext, rule option_eqI) (use set new in \<open>auto simp: table_Some [OF assms(1)] table_Some [OF assms(2)]\<close>)
qed

subsection \<open>Operation sequences refine a finite map\<close>

datatype 'e hash_op = Insert 'e | Replace 'e | Delete 'e | Find 'e

fun hash_step ::
  "('e \<Rightarrow> uint32_t) \<Rightarrow> ('e \<Rightarrow> 'e \<Rightarrow> bool) \<Rightarrow> bool \<Rightarrow> 'e hash_op \<Rightarrow> 'e hash \<Rightarrow> ('e option \<times> 'e hash) option" where
  "hash_step hf lt malloc_ok (Insert e) h = hash_insert hf lt malloc_ok h e"
| "hash_step hf lt malloc_ok (Replace e) h = hash_replace hf lt malloc_ok h e"
| "hash_step hf lt malloc_ok (Delete e) h = hash_delete hf lt malloc_ok h e"
| "hash_step hf lt malloc_ok (Find e) h = Some (hash_find hf lt h e, h)"

fun map_step :: "('e \<Rightarrow> 'k) \<Rightarrow> 'e hash_op \<Rightarrow> ('k \<Rightarrow> 'e option) \<Rightarrow> 'e option \<times> ('k \<Rightarrow> 'e option)" where
  "map_step key (Insert e) m = (m (key e), if m (key e) = None then m(key e \<mapsto> e) else m)"
| "map_step key (Replace e) m = (m (key e), m(key e \<mapsto> e))"
| "map_step key (Delete e) m = (m (key e), m(key e := None))"
| "map_step key (Find e) m = (m (key e), m)"

fun hash_run ::
  "('e \<Rightarrow> uint32_t) \<Rightarrow> ('e \<Rightarrow> 'e \<Rightarrow> bool) \<Rightarrow> ('e hash_op \<times> bool) list \<Rightarrow> 'e hash \<Rightarrow> ('e option list \<times> 'e hash) option" where
  "hash_run hf lt [] h = Some ([], h)"
| "hash_run hf lt ((op, malloc_ok) # ops) h = do {
     (r, h) \<leftarrow> hash_step hf lt malloc_ok op h;
     (rs, h) \<leftarrow> hash_run hf lt ops h;
     Some (r # rs, h) }"

fun map_run :: "('e \<Rightarrow> 'k) \<Rightarrow> 'e hash_op list \<Rightarrow> ('k \<Rightarrow> 'e option) \<Rightarrow> 'e option list \<times> ('k \<Rightarrow> 'e option)" where
  "map_run key [] m = ([], m)"
| "map_run key (op # ops) m =
     (let (r, m) = map_step key op m; (rs, m) = map_run key ops m in (r # rs, m))"

lemma rehash_table:
  assumes "wf_hash kh key h"
  shows "\<exists>h'. rehash (key_hash kh key) malloc_ok h = Some h' \<and> wf_hash kh key h' \<and> table key h' = table key h"
  using rehash_wf [OF assms] table_cong [OF assms] by metis

lemma remove_elem_table:
  assumes wf: "wf_hash kh key h" and x: "table key h (key e) = Some x"
  defines "h' \<equiv> remove_elem h (find_bucket (key_hash kh key) h e) x"
  shows "wf_hash kh key h'" "table key h' = (table key h)(key e := None)"
    "find_bucket (key_hash kh key) h' e = find_bucket (key_hash kh key) h e"
proof -
  have x': "x \<in> set (elems h)" "key x = key e"
    using x table_Some [OF wf] by auto
  then have h': "h' = remove_elem h (find_bucket (key_hash kh key) h x) x"
    by (simp add: h'_def find_bucket_def)
  note r = remove_elem_wf [OF wf x'(1), folded h']
  show "wf_hash kh key h'"
    by (rule r)
  show "table key h' = (table key h)(key e := None)"
    using table_add [OF r(1) wf r(2)] x'(2) by (auto simp: fun_eq_iff)
  show "find_bucket (key_hash kh key) h' e = find_bucket (key_hash kh key) h e"
    by (simp add: h'_def remove_elem_def find_bucket_def)
qed

lemma insert_elem_table:
  assumes wf: "wf_hash kh key h" and new: "table key h (key e) = None"
  defines "h' \<equiv> insert_elem h (find_bucket (key_hash kh key) h e) e"
  shows "wf_hash kh key h'" "table key h' = (table key h)(key e \<mapsto> e)"
  using insert_elem_wf [OF wf new] table_add [OF wf] by (simp_all add: h'_def)

lemma hash_step_refines:
  assumes wf: "wf_hash kh key h"
  shows "\<exists>h'. hash_step (key_hash kh key) (key_lt key) malloc_ok op h = Some (fst (map_step key op (table key h)), h')
    \<and> wf_hash kh key h' \<and> table key h' = snd (map_step key op (table key h))"
proof (cases op)
  case (Insert e)
  then show ?thesis
  proof (cases "table key h (key e)")
    case None
    then show ?thesis
      using Insert wf rehash_table [OF insert_elem_table(1) [OF wf None], of malloc_ok] insert_elem_table(2) [OF wf None]
      by (auto simp: hash_insert_def find_elem_table [OF wf])
  next
    case (Some x)
    then show ?thesis
      using Insert wf rehash_table [OF wf, of malloc_ok] by (auto simp: hash_insert_def find_elem_table [OF wf])
  qed
next
  case (Replace e)
  show ?thesis
  proof (cases "table key h (key e)")
    case None
    then show ?thesis
      using Replace wf rehash_table [OF insert_elem_table(1) [OF wf None], of malloc_ok] insert_elem_table(2) [OF wf None]
      by (auto simp: hash_replace_def find_elem_table [OF wf])
  next
    case (Some x)
    note r = remove_elem_table [OF wf Some]
    have new: "table key (remove_elem h (find_bucket (key_hash kh key) h e) x) (key e) = None"
      using r(2) by simp
    note i = insert_elem_table [OF r(1) new, unfolded r(3)]
    show ?thesis
      using Replace Some rehash_table [OF i(1), of malloc_ok] i(2) r(2)
      by (auto simp: hash_replace_def find_elem_table [OF wf])
  qed
next
  case (Delete e)
  then show ?thesis
    using wf remove_elem_table [OF wf] rehash_table [OF remove_elem_table(1) [OF wf], of e _ malloc_ok]
    by (cases "table key h (key e)") (auto simp: hash_delete_def find_elem_table [OF wf] fun_upd_idem)
next
  case (Find e)
  then show ?thesis
    using wf by (simp add: hash_find_table)
qed

lemma hash_run_refines:
  "wf_hash kh key h \<Longrightarrow>
   \<exists>h'. hash_run (key_hash kh key) (key_lt key) ops h = Some (fst (map_run key (map fst ops) (table key h)), h')
     \<and> wf_hash kh key h' \<and> table key h' = snd (map_run key (map fst ops) (table key h))"
proof (induction ops arbitrary: h)
  case (Cons opm ops)
  obtain op malloc_ok where op: "opm = (op, malloc_ok)"
    by (cases opm)
  obtain h' where h': "hash_step (key_hash kh key) (key_lt key) malloc_ok op h =
      Some (fst (map_step key op (table key h)), h')" "wf_hash kh key h'"
      "table key h' = snd (map_step key op (table key h))"
    using hash_step_refines [OF Cons.prems] by blast
  then show ?case
    using Cons.IH [OF h'(2)] by (auto simp: op case_prod_beta' Let_def)
qed simp

lemma hash_init_wf: "\<exists>h. hash_init True = Some h \<and> wf_hash kh key h \<and> table key h = Map.empty"
  by (auto simp: hash_init_def hash_clear_def wf_hash_def placed_def elems_def table_def fun_eq_iff)

subsection \<open>Iteration\<close>

definition remaining :: "'e hash \<Rightarrow> hash_iterator \<Rightarrow> 'e list" where
  "remaining h i = drop (snd i) (buckets h ! fst i) @ concat (drop (Suc (fst i)) (buckets h))"

primrec iterate :: "'e hash \<Rightarrow> nat \<Rightarrow> hash_iterator \<Rightarrow> 'e list \<times> bool" where
  "iterate h 0 i = ([], False)"
| "iterate h (Suc n) i = (case hash_next h i of None \<Rightarrow> ([], True)
     | Some (e, i) \<Rightarrow> let (es, done) = iterate h n i in (e # es, done))"

lemma next_bucket_remaining:
  "b + left = length (buckets h) \<Longrightarrow>
   (case next_bucket h b left of
      None \<Rightarrow> concat (drop b (buckets h)) = []
    | Some (b', p) \<Rightarrow> b' < length (buckets h) \<and> p = 1 \<and>
        concat (drop b (buckets h)) = buckets h ! b' ! 0 # remaining h (b', 1))"
proof (induction left arbitrary: b)
  case (Suc left)
  have "drop b (buckets h) = buckets h ! b # drop (Suc b) (buckets h)"
    using Suc.prems by (simp add: Cons_nth_drop_Suc)
  then show ?case
    using Suc.IH [of "Suc b"] Suc.prems by (cases "buckets h ! b") (auto simp: remaining_def split: option.splits)
qed simp

lemma hash_next_remaining:
  assumes "length (buckets h) = unat (bucket_cnt h)" "fst i < length (buckets h)"
  shows "case hash_next h i of None \<Rightarrow> remaining h i = []
    | Some (e, i') \<Rightarrow> fst i' < length (buckets h) \<and> remaining h i = e # remaining h i'"
proof (cases i)
  case (Pair b p)
  show ?thesis
  proof (cases "p < length (buckets h ! b)")
    case True
    then show ?thesis
      using assms Pair by (simp add: hash_next_def remaining_def flip: Cons_nth_drop_Suc)
  next
    case False
    then show ?thesis
      using assms Pair next_bucket_remaining [of "Suc b" "unat (bucket_cnt h) - Suc b" h]
      by (auto simp: hash_next_def remaining_def split: option.splits)
  qed
qed

lemma iterate_remaining:
  assumes "length (buckets h) = unat (bucket_cnt h)"
  shows "fst i < length (buckets h) \<Longrightarrow> length (remaining h i) < n \<Longrightarrow> iterate h n i = (remaining h i, True)"
proof (induction n arbitrary: i)
  case (Suc n)
  then show ?case
    using hash_next_remaining [OF assms Suc.prems(1)] by (auto split: option.splits)
qed simp

subsection \<open>Properties\<close>

text \<open>C26: every sequence of insertions, replacements, deletions and lookups, whatever
  \<^verbatim>\<open>malloc\<close> returns when the table is resized, returns and gives the answers of a finite
  map from keys to elements, and keeps the table well formed: each element in the bucket
  of its hash, one element per key, and the element count exact.\<close>

theorem hash_refines_map:
  assumes "wf_hash kh key h"
  shows "\<exists>h'. hash_run (\<lambda>e. kh (key e)) (\<lambda>a b. key a < (key b :: 'k::linorder)) ops h =
      Some (fst (map_run key (map fst ops) (table key h)), h')
    \<and> wf_hash kh key h' \<and> table key h' = snd (map_run key (map fst ops) (table key h))"
  by (rule hash_run_refines [OF assms])

definition sample_hash :: "nat hash" where
  "sample_hash = \<lparr>h_elem_cnt = 2, bucket_cnt = 4, buckets = [[], [], [6, 2], []]\<rparr>"

lemma sample_hash_wf: "wf_hash of_nat id sample_hash"
  by (simp add: wf_hash_def placed_def sample_hash_def elems_def find_bucket_def All_less_Suc)

theorem hash_refines_map_witness:
  "\<exists>h'. hash_run (\<lambda>e. of_nat (id e)) (\<lambda>a b. id a < id b)
      [(Find 6, True), (Delete 6, True), (Insert 6, False), (Find 7, True)] sample_hash =
      Some ([Some 6, Some 6, None, None], h') \<and> wf_hash of_nat id h'"
  using hash_refines_map [OF sample_hash_wf, of "[(Find 6, True), (Delete 6, True), (Insert 6, False), (Find 7, True)]"]
  by (auto simp: table_def elems_def sample_hash_def)

text \<open>\<^verbatim>\<open>hash_first\<close> followed by \<^verbatim>\<open>hash_next\<close> until it returns a null pointer visits
  every element of the table exactly once.\<close>

theorem hash_iteration_complete:
  assumes "placed hf h" "length (elems h) < n"
  shows "iterate h n hash_first = (elems h, True)"
proof -
  have len: "length (buckets h) = unat (bucket_cnt h)" "0 < length (buckets h)"
    using assms(1) by (auto simp: placed_def unat_gt_0)
  then have "remaining h hash_first = elems h"
    by (cases "buckets h") (auto simp: remaining_def hash_first_def elems_def)
  then show ?thesis
    using iterate_remaining [OF len(1), of hash_first n] len(2) assms(2) by (simp add: hash_first_def)
qed

theorem hash_iteration_complete_witness: "iterate sample_hash 3 hash_first = ([6, 2], True)"
proof -
  have "placed (\<lambda>e. of_nat (id e)) sample_hash" "length (elems sample_hash) < 3"
    using sample_hash_wf by (simp_all add: wf_hash_def elems_def sample_hash_def)
  from hash_iteration_complete [OF this] show ?thesis
    by (simp add: elems_def sample_hash_def)
qed

end
