(* ===== verification/Block.thy ===== *)
theory Block
  imports Bytes
begin

text \<open>
  The block device layer (\<^verbatim>\<open>devices/block.c\<close>) and the partitions on top of it
  (\<^verbatim>\<open>devices/partition.c\<close>). A device is a disk, whose sectors the model keeps, or a
  partition of another device: the two kinds of \<^verbatim>\<open>struct block_operations\<close> of the
  kernel. Devices are numbered in probe order. A PANIC is \<open>None\<close>, and so is a recursion
  that does not end.

  \<open>sector_store\<close> is the contract that a store of sectors gives its users, with what
  follows from it for sequences of reads and writes. Block devices meet it here,
  the buffer cache in theory \<open>Buffer_Cache\<close>.
\<close>

subsection \<open>Block devices\<close>

definition BLOCK_SECTOR_SIZE :: nat where
  "BLOCK_SECTOR_SIZE = 512"

type_synonym block_sector_t = "32 word"

datatype block_type =
  BLOCK_KERNEL | BLOCK_FILESYS | BLOCK_SCRATCH | BLOCK_SWAP | BLOCK_RAW | BLOCK_FOREIGN

datatype block_operations = Disk | Partition nat block_sector_t

record block =
  b_name :: string
  b_type :: block_type
  b_size :: block_sector_t
  ops :: block_operations
  read_cnt :: uint64_t
  write_cnt :: uint64_t

record block_table =
  all_blocks :: "block list"
  block_by_role :: "block_type \<Rightarrow> nat option"
  sectors :: "nat \<Rightarrow> block_sector_t \<Rightarrow> bytes"

definition block_size :: "block_table \<Rightarrow> nat \<Rightarrow> block_sector_t" where
  "block_size t b = b_size (all_blocks t ! b)"

definition check_sector :: "block_table \<Rightarrow> nat \<Rightarrow> block_sector_t \<Rightarrow> unit option" where
  "check_sector t b sector = ASSERT (\<not> sector \<ge> block_size t b)"

definition count_read :: "block_table \<Rightarrow> nat \<Rightarrow> block_table" where
  "count_read t b = t\<lparr>all_blocks := (all_blocks t)[b := (all_blocks t ! b)\<lparr>read_cnt := read_cnt (all_blocks t ! b) + 1\<rparr>]\<rparr>"

definition count_write :: "block_table \<Rightarrow> nat \<Rightarrow> block_table" where
  "count_write t b = t\<lparr>all_blocks := (all_blocks t)[b := (all_blocks t ! b)\<lparr>write_cnt := write_cnt (all_blocks t ! b) + 1\<rparr>]\<rparr>"

partial_function (option) block_read ::
  "block_table \<Rightarrow> nat \<Rightarrow> block_sector_t \<Rightarrow> (bytes \<times> block_table) option" where
  "block_read t b sector = do {
     check_sector t b sector;
     (buffer, t) \<leftarrow> (case ops (all_blocks t ! b) of
         Disk \<Rightarrow> Some (sectors t b sector, t)
       | Partition parent start \<Rightarrow> block_read t parent (start + sector));
     Some (buffer, count_read t b) }"

partial_function (option) block_write ::
  "block_table \<Rightarrow> nat \<Rightarrow> block_sector_t \<Rightarrow> bytes \<Rightarrow> block_table option" where
  "block_write t b sector buffer = do {
     check_sector t b sector;
     ASSERT (b_type (all_blocks t ! b) \<noteq> BLOCK_FOREIGN);
     t \<leftarrow> (case ops (all_blocks t ! b) of
         Disk \<Rightarrow> Some (t\<lparr>sectors := (sectors t)(b := (sectors t b)(sector := buffer))\<rparr>)
       | Partition parent start \<Rightarrow> block_write t parent (start + sector) buffer);
     Some (count_write t b) }"

definition block_role :: "block_type \<Rightarrow> bool" where
  "block_role t = (t \<in> {BLOCK_KERNEL, BLOCK_FILESYS, BLOCK_SCRATCH, BLOCK_SWAP})"

definition block_get_role :: "block_table \<Rightarrow> block_type \<Rightarrow> nat option option" where
  "block_get_role t role = do { ASSERT (block_role role); Some (block_by_role t role) }"

definition block_set_role :: "block_table \<Rightarrow> block_type \<Rightarrow> nat option \<Rightarrow> block_table option" where
  "block_set_role t role b = do {
     ASSERT (block_role role);
     Some (t\<lparr>block_by_role := (block_by_role t)(role := b)\<rparr>) }"

definition block_first :: "block_table \<Rightarrow> nat option" where
  "block_first t = (if all_blocks t = [] then None else Some 0)"

definition block_next :: "block_table \<Rightarrow> nat \<Rightarrow> nat option" where
  "block_next t b = (if Suc b < length (all_blocks t) then Some (Suc b) else None)"

fun find_name :: "block list \<Rightarrow> string \<Rightarrow> nat \<Rightarrow> nat option" where
  "find_name [] name i = None"
| "find_name (b # bs) name i = (if name = b_name b then Some i else find_name bs name (Suc i))"

definition block_get_by_name :: "block_table \<Rightarrow> string \<Rightarrow> nat option" where
  "block_get_by_name t name = find_name (all_blocks t) name 0"

definition block_register ::
  "block_table \<Rightarrow> bool \<Rightarrow> string \<Rightarrow> block_type \<Rightarrow> block_sector_t \<Rightarrow> block_operations \<Rightarrow> (nat \<times> block_table) option" where
  "block_register t malloc_ok name type sz oprs = do {
     ASSERT malloc_ok;
     let b = \<lparr>b_name = take 15 name, b_type = type, b_size = sz, ops = oprs, read_cnt = 0, write_cnt = 0\<rparr>;
     Some (length (all_blocks t), t\<lparr>all_blocks := all_blocks t @ [b]\<rparr>) }"

subsection \<open>Partitions\<close>

text \<open>
  Decimal digits, as \<^verbatim>\<open>snprintf\<close> prints the number of a partition; the \<^verbatim>\<open>malloc\<close> of
  \<^verbatim>\<open>found_partition\<close> and of \<^verbatim>\<open>block_register\<close> both panic when there is no memory, so
  one flag stands for them.
\<close>

fun decimal :: "nat \<Rightarrow> string" where
  "decimal n = (if n < 10 then [char_of (48 + n)] else decimal (n div 10) @ [char_of (48 + n mod 10)])"

declare decimal.simps [simp del]

definition partition_block_type :: "uint8_t \<Rightarrow> block_type" where
  "partition_block_type part_type =
     (if part_type = 0x20 then BLOCK_KERNEL
      else if part_type = 0x21 then BLOCK_FILESYS
      else if part_type = 0x22 then BLOCK_SCRATCH
      else if part_type = 0x23 then BLOCK_SWAP
      else BLOCK_FOREIGN)"

definition found_partition ::
  "block_table \<Rightarrow> bool \<Rightarrow> nat \<Rightarrow> uint8_t \<Rightarrow> block_sector_t \<Rightarrow> block_sector_t \<Rightarrow> nat \<Rightarrow> block_table option" where
  "found_partition t malloc_ok b part_type start sz part_nr =
     (if start \<ge> block_size t b then Some t
      else if start + sz < start \<or> start + sz > block_size t b then Some t
      else do {
        (_, t) \<leftarrow> block_register t malloc_ok (take 15 (b_name (all_blocks t ! b) @ decimal part_nr))
                   (partition_block_type part_type) sz (Partition b start);
        Some t })"

text \<open>A partition table sector: four entries of 16 bytes at offset 446, and the signature.\<close>

definition entry_type :: "bytes \<Rightarrow> nat \<Rightarrow> uint8_t" where
  "entry_type pt i = pt ! (446 + 16 * i + 4)"

definition entry_offset :: "bytes \<Rightarrow> nat \<Rightarrow> uint32_t" where
  "entry_offset pt i = le_word (get_bytes pt (446 + 16 * i + 8) 4)"

definition entry_size :: "bytes \<Rightarrow> nat \<Rightarrow> uint32_t" where
  "entry_size pt i = le_word (get_bytes pt (446 + 16 * i + 12) 4)"

definition pt_signature :: "bytes \<Rightarrow> uint16_t" where
  "pt_signature pt = ucast (pt ! 510) OR push_bit 8 (ucast (pt ! 511))"

definition extended_type :: "uint8_t \<Rightarrow> bool" where
  "extended_type ty = (ty = 0x05 \<or> ty = 0x0f \<or> ty = 0x85 \<or> ty = 0xc5)"

text \<open>
  \<^verbatim>\<open>read_partition_table\<close> and its loop over the entries call each other; with \<open>None\<close>
  for the table this is the entry of the function, with \<open>Some\<close> of the sector it read it
  is the loop at index \<open>i\<close>. The state is the partition counter and the devices.
\<close>

partial_function (option) read_partition_entries ::
  "bool \<Rightarrow> nat \<Rightarrow> block_sector_t \<Rightarrow> block_sector_t \<Rightarrow> bytes option \<Rightarrow> nat \<Rightarrow> nat \<times> block_table
    \<Rightarrow> (nat \<times> block_table) option" where
  "read_partition_entries malloc_ok b sector primary pt i st =
     (case pt of
        None \<Rightarrow>
          (case st of (part_nr, t) \<Rightarrow>
             if sector \<ge> block_size t b then Some (part_nr, t)
             else do {
               ASSERT malloc_ok;
               (buffer, t) \<leftarrow> block_read t b 0;
               if pt_signature buffer \<noteq> 0xaa55 then Some (part_nr, t)
               else read_partition_entries malloc_ok b sector primary (Some buffer) 0 (part_nr, t) })
      | Some buffer \<Rightarrow>
          if i < 4 then do {
            st \<leftarrow> (if entry_size buffer i = 0 \<or> entry_type buffer i = 0 then Some st
                  else if extended_type (entry_type buffer i) then
                    (if sector = 0
                     then read_partition_entries malloc_ok b (entry_offset buffer i) (entry_offset buffer i) None 0 st
                     else read_partition_entries malloc_ok b (entry_offset buffer i + primary) primary None 0 st)
                  else (case st of (part_nr, t) \<Rightarrow> do {
                    t \<leftarrow> found_partition t malloc_ok b (entry_type buffer i) (entry_offset buffer i + sector)
                          (entry_size buffer i) (part_nr + 1);
                    Some (part_nr + 1, t) }));
            read_partition_entries malloc_ok b sector primary pt (i + 1) st }
          else Some st)"

definition read_partition_table ::
  "bool \<Rightarrow> nat \<Rightarrow> block_sector_t \<Rightarrow> block_sector_t \<Rightarrow> nat \<times> block_table \<Rightarrow> (nat \<times> block_table) option" where
  "read_partition_table malloc_ok b sector primary = read_partition_entries malloc_ok b sector primary None 0"

definition partition_scan :: "bool \<Rightarrow> nat \<Rightarrow> block_table \<Rightarrow> block_table option" where
  "partition_scan malloc_ok b t = map_option snd (read_partition_table malloc_ok b 0 0 (0, t))"

subsection \<open>The contract of a store of sectors\<close>

datatype request = Read block_sector_t | Write block_sector_t bytes

fun serve :: "('s \<Rightarrow> block_sector_t \<Rightarrow> (bytes \<times> 's) option) \<Rightarrow> ('s \<Rightarrow> block_sector_t \<Rightarrow> bytes \<Rightarrow> 's option)
    \<Rightarrow> request list \<Rightarrow> 's \<Rightarrow> (bytes list \<times> 's) option" where
  "serve rd wr [] s = Some ([], s)"
| "serve rd wr (Read k # rs) s = do { (buf, s) \<leftarrow> rd s k; (bufs, s) \<leftarrow> serve rd wr rs s; Some (buf # bufs, s) }"
| "serve rd wr (Write k buf # rs) s = do { s \<leftarrow> wr s k buf; serve rd wr rs s }"

fun array_replies :: "request list \<Rightarrow> (block_sector_t \<Rightarrow> bytes) \<Rightarrow> bytes list" where
  "array_replies [] m = []"
| "array_replies (Read k # rs) m = m k # array_replies rs m"
| "array_replies (Write k buf # rs) m = array_replies rs (m(k := buf))"

fun array_after :: "request list \<Rightarrow> (block_sector_t \<Rightarrow> bytes) \<Rightarrow> (block_sector_t \<Rightarrow> bytes)" where
  "array_after [] m = m"
| "array_after (Read k # rs) m = array_after rs m"
| "array_after (Write k buf # rs) m = array_after rs (m(k := buf))"

fun request_ok :: "block_sector_t \<Rightarrow> request \<Rightarrow> bool" where
  "request_ok sz (Read k) = (k < sz)"
| "request_ok sz (Write k buf) = (k < sz \<and> length buf = BLOCK_SECTOR_SIZE)"

locale sector_store =
  fixes inv :: "'s \<Rightarrow> bool"
    and sz :: block_sector_t
    and contents :: "'s \<Rightarrow> block_sector_t \<Rightarrow> bytes"
    and rd :: "'s \<Rightarrow> block_sector_t \<Rightarrow> (bytes \<times> 's) option"
    and wr :: "'s \<Rightarrow> block_sector_t \<Rightarrow> bytes \<Rightarrow> 's option"
  assumes rd_contents: "inv s \<Longrightarrow> k < sz \<Longrightarrow>
      \<exists>s'. rd s k = Some (contents s k, s') \<and> inv s' \<and> contents s' = contents s"
    and wr_contents: "inv s \<Longrightarrow> k < sz \<Longrightarrow> length buf = BLOCK_SECTOR_SIZE \<Longrightarrow>
      \<exists>s'. wr s k buf = Some s' \<and> inv s' \<and> contents s' = (contents s)(k := buf)"
begin

lemma serve_refines:
  "inv s \<Longrightarrow> list_all (request_ok sz) rs \<Longrightarrow>
   \<exists>s'. serve rd wr rs s = Some (array_replies rs (contents s), s') \<and> inv s'
     \<and> contents s' = array_after rs (contents s)"
proof (induction rs arbitrary: s)
  case (Cons r rs)
  show ?case
  proof (cases r)
    case (Read k)
    then obtain s' where "rd s k = Some (contents s k, s')" "inv s'" "contents s' = contents s"
      using rd_contents Cons.prems by fastforce
    then show ?thesis
      using Cons.IH [of s'] Cons.prems Read by fastforce
  next
    case (Write k buf)
    then obtain s' where "wr s k buf = Some s'" "inv s'" "contents s' = (contents s)(k := buf)"
      using wr_contents Cons.prems by fastforce
    then show ?thesis
      using Cons.IH [of s'] Cons.prems Write by fastforce
  qed
qed simp

end

subsection \<open>Devices as stores of sectors\<close>

definition wf_table :: "block_table \<Rightarrow> bool" where
  "wf_table t \<longleftrightarrow> (\<forall>b < length (all_blocks t). case ops (all_blocks t ! b) of
       Disk \<Rightarrow> True
     | Partition parent start \<Rightarrow> parent < b \<and> b_type (all_blocks t ! parent) \<noteq> BLOCK_FOREIGN
         \<and> unat start + unat (block_size t b) \<le> unat (block_size t parent))"

text \<open>The disk and the sector of it that sector \<open>s\<close> of device \<open>b\<close> is.\<close>

function locate :: "block list \<Rightarrow> nat \<Rightarrow> block_sector_t \<Rightarrow> nat \<times> block_sector_t" where
  "locate bs b s = (case ops (bs ! b) of
       Disk \<Rightarrow> (b, s)
     | Partition parent start \<Rightarrow> if parent < b then locate bs parent (start + s) else (b, s))"
  by pat_completeness auto
termination
  by (relation "measure (\<lambda>(bs, b, s). b)") auto

declare locate.simps [simp del]

definition contents :: "block_table \<Rightarrow> nat \<Rightarrow> block_sector_t \<Rightarrow> bytes" where
  "contents t b s = (case locate (all_blocks t) b s of (d, k) \<Rightarrow> sectors t d k)"

definition same_geometry :: "block_table \<Rightarrow> block_table \<Rightarrow> bool" where
  "same_geometry t t' \<longleftrightarrow> length (all_blocks t') = length (all_blocks t) \<and>
     (\<forall>b. b_type (all_blocks t' ! b) = b_type (all_blocks t ! b)
        \<and> b_size (all_blocks t' ! b) = b_size (all_blocks t ! b) \<and> ops (all_blocks t' ! b) = ops (all_blocks t ! b))"

lemma same_geometry_trans: "same_geometry t t' \<Longrightarrow> same_geometry t' t'' \<Longrightarrow> same_geometry t t''"
  by (simp add: same_geometry_def)

lemma same_geometry_refl [simp]: "same_geometry t t"
  by (simp add: same_geometry_def)

lemma nth_update_same:
  assumes "\<And>x. f (g x) = f x"
  shows "f (xs[b := g (xs ! b)] ! i) = f (xs ! i)"
proof (cases "b < length xs")
  case True
  then show ?thesis
    using assms by (cases "i = b") simp_all
qed (simp add: list_update_beyond)

lemma same_geometry_count [simp]:
  "same_geometry t (count_read t b)" "same_geometry t (count_write t b)"
  by (auto simp: same_geometry_def count_read_def count_write_def
      intro!: nth_update_same [where g = "\<lambda>x. x\<lparr>read_cnt := read_cnt x + 1\<rparr>"]
        nth_update_same [where g = "\<lambda>x. x\<lparr>write_cnt := write_cnt x + 1\<rparr>"])

lemma same_geometry_sectors [simp]: "same_geometry t (t\<lparr>sectors := f\<rparr>)"
  by (simp add: same_geometry_def)

lemma locate_geometry: "same_geometry t t' \<Longrightarrow> locate (all_blocks t') b s = locate (all_blocks t) b s"
proof (induction b arbitrary: s rule: less_induct)
  case (less b)
  then have "ops (all_blocks t' ! b) = ops (all_blocks t ! b)"
    by (simp add: same_geometry_def)
  then show ?case
    using less by (subst (1 2) locate.simps) (simp split: block_operations.split)
qed

lemma wf_table_geometry: "same_geometry t t' \<Longrightarrow> wf_table t' = wf_table t"
  by (simp add: same_geometry_def wf_table_def block_size_def split: block_operations.split)

lemma sectors_count [simp]: "sectors (count_read t b) = sectors t" "sectors (count_write t b) = sectors t"
  by (simp_all add: count_read_def count_write_def)

lemma contents_geometry: "same_geometry t t' \<Longrightarrow> sectors t' = sectors t \<Longrightarrow> contents t' = contents t"
  by (auto simp: contents_def fun_eq_iff locate_geometry)

lemma partition_sector:
  assumes "unat start + unat sz \<le> unat (psz :: block_sector_t)" "s < sz"
  shows "start + s < psz" "unat (start + s) = unat start + unat s"
proof -
  show *: "unat (start + s) = unat start + unat s"
    using assms unat_32_less [of psz] by (intro unat_add_small) (simp add: word_less_nat_alt)
  show "start + s < psz"
    using assms * by (simp add: word_less_nat_alt)
qed

lemma block_read_ok:
  "wf_table t \<Longrightarrow> b < length (all_blocks t) \<Longrightarrow> s < block_size t b \<Longrightarrow>
   \<exists>t'. block_read t b s = Some (contents t b s, t') \<and> same_geometry t t' \<and> sectors t' = sectors t"
proof (induction b arbitrary: s rule: less_induct)
  case (less b)
  show ?case
  proof (cases "ops (all_blocks t ! b)")
    case Disk
    then show ?thesis
      using less.prems by (subst block_read.simps) (simp add: check_sector_def contents_def locate.simps [of _ b])
  next
    case (Partition parent start)
    then have p: "parent < b" "unat start + unat (block_size t b) \<le> unat (block_size t parent)"
      using less.prems(1,2) by (auto simp: wf_table_def dest!: spec [of _ b])
    then obtain t' where t': "block_read t parent (start + s) = Some (contents t parent (start + s), t')"
        "same_geometry t t'" "sectors t' = sectors t"
      using less.IH [of parent "start + s"] less.prems partition_sector by fastforce
    moreover have "contents t parent (start + s) = contents t b s"
      using Partition p(1) by (simp add: contents_def locate.simps [of _ b])
    ultimately show ?thesis
      using Partition less.prems same_geometry_trans [OF t'(2) same_geometry_count(1)]
      by (subst block_read.simps) (simp add: check_sector_def)
  qed
qed

lemma locate_inj: "locate bs b s = locate bs b s' \<Longrightarrow> s = s'"
proof (induction b arbitrary: s s' rule: less_induct)
  case (less b)
  show ?case
  proof (cases "ops (bs ! b)")
    case Disk
    then show ?thesis
      using less.prems by (simp add: locate.simps [of bs b])
  next
    case (Partition parent start)
    then show ?thesis
      using less.prems less.IH [of parent "start + s" "start + s'"]
      by (simp add: locate.simps [of bs b] split: if_splits)
  qed
qed

definition put_sector :: "block_table \<Rightarrow> nat \<times> block_sector_t \<Rightarrow> bytes \<Rightarrow> nat \<Rightarrow> block_sector_t \<Rightarrow> bytes" where
  "put_sector t loc buf = (\<lambda>d k. if (d, k) = loc then buf else sectors t d k)"

lemma block_write_ok:
  "wf_table t \<Longrightarrow> b < length (all_blocks t) \<Longrightarrow> s < block_size t b \<Longrightarrow> b_type (all_blocks t ! b) \<noteq> BLOCK_FOREIGN \<Longrightarrow>
   \<exists>t'. block_write t b s buf = Some t' \<and> same_geometry t t'
     \<and> sectors t' = put_sector t (locate (all_blocks t) b s) buf"
proof (induction b arbitrary: s rule: less_induct)
  case (less b)
  show ?case
  proof (cases "ops (all_blocks t ! b)")
    case Disk
    have "(sectors t)(b := (sectors t b)(s := buf)) = put_sector t (b, s) buf"
      by (auto simp: put_sector_def fun_eq_iff)
    then show ?thesis
      using Disk less.prems same_geometry_trans [OF same_geometry_sectors same_geometry_count(2)]
      by (subst block_write.simps) (simp add: check_sector_def locate.simps [of _ b])
  next
    case (Partition parent start)
    then have p: "parent < b" "unat start + unat (block_size t b) \<le> unat (block_size t parent)"
        "b_type (all_blocks t ! parent) \<noteq> BLOCK_FOREIGN"
      using less.prems(1,2) by (auto simp: wf_table_def dest!: spec [of _ b])
    then obtain t' where t': "block_write t parent (start + s) buf = Some t'" "same_geometry t t'"
        "sectors t' = put_sector t (locate (all_blocks t) parent (start + s)) buf"
      using less.IH [of parent "start + s"] less.prems partition_sector by fastforce
    then show ?thesis
      using Partition less.prems p(1) same_geometry_trans [OF t'(2) same_geometry_count(2)]
      by (subst block_write.simps) (simp add: check_sector_def locate.simps [of _ b])
  qed
qed

lemma contents_put:
  assumes "same_geometry t t'" "sectors t' = put_sector t (locate (all_blocks t) b s) buf"
  shows "contents t' b = (contents t b)(s := buf)"
proof
  fix k
  have "locate (all_blocks t) b k = locate (all_blocks t) b s \<longleftrightarrow> k = s"
    using locate_inj by metis
  then show "contents t' b k = ((contents t b)(s := buf)) k"
    using assms by (simp add: contents_def locate_geometry put_sector_def case_prod_beta')
qed

definition device_ok :: "nat \<Rightarrow> block_sector_t \<Rightarrow> block_table \<Rightarrow> bool" where
  "device_ok b sz t \<longleftrightarrow> wf_table t \<and> b < length (all_blocks t) \<and> block_size t b = sz
     \<and> b_type (all_blocks t ! b) \<noteq> BLOCK_FOREIGN"

lemma device_ok_geometry: "same_geometry t t' \<Longrightarrow> device_ok b sz t \<Longrightarrow> device_ok b sz t'"
  by (auto simp: device_ok_def wf_table_geometry) (auto simp: same_geometry_def block_size_def)

lemma block_read_device:
  assumes "device_ok b sz t" "s < sz"
  shows "\<exists>t'. block_read t b s = Some (contents t b s, t') \<and> device_ok b sz t' \<and> contents t' b = contents t b"
proof -
  obtain t' where "block_read t b s = Some (contents t b s, t')" "same_geometry t t'" "sectors t' = sectors t"
    using block_read_ok [of t b s] assms by (auto simp: device_ok_def)
  then show ?thesis
    using assms device_ok_geometry contents_geometry by (intro exI [of _ t']) simp
qed

lemma block_write_device:
  assumes "device_ok b sz t" "s < sz"
  shows "\<exists>t'. block_write t b s buf = Some t' \<and> device_ok b sz t' \<and> contents t' b = (contents t b)(s := buf)"
proof -
  obtain t' where "block_write t b s buf = Some t'" "same_geometry t t'"
      "sectors t' = put_sector t (locate (all_blocks t) b s) buf"
    using block_write_ok [of t b s buf] assms by (auto simp: device_ok_def)
  then show ?thesis
    using assms device_ok_geometry contents_put by (intro exI [of _ t']) simp
qed

interpretation device: sector_store
  "device_ok b sz" sz "\<lambda>t. contents t b" "\<lambda>t. block_read t b" "\<lambda>t. block_write t b" for b sz
  by unfold_locales (use block_read_device block_write_device in blast)+

subsection \<open>Properties\<close>

definition sample_disk :: block_table where
  "sample_disk = \<lparr>
     all_blocks = [
       \<lparr>b_name = ''hda'', b_type = BLOCK_RAW, b_size = 100, ops = Disk, read_cnt = 0, write_cnt = 0\<rparr>,
       \<lparr>b_name = ''hda1'', b_type = BLOCK_FILESYS, b_size = 20, ops = Partition 0 30, read_cnt = 0, write_cnt = 0\<rparr>],
     block_by_role = (\<lambda>_. None)(BLOCK_FILESYS := Some 1),
     sectors = (\<lambda>_ _. replicate 512 0)\<rparr>"

lemma sample_disk_ok: "device_ok 1 20 sample_disk"
  by (simp add: device_ok_def wf_table_def sample_disk_def block_size_def All_less_Suc)

text \<open>C30: a partition gives access to its own sectors only: a write inside it changes one
  sector of the underlying device, in the range from \<open>start\<close> to \<open>start + size\<close>, and no
  other sector of any disk.\<close>

theorem partition_write_isolated:
  assumes "wf_table t" "b < length (all_blocks t)" "ops (all_blocks t ! b) = Partition parent start"
    and "b_type (all_blocks t ! b) \<noteq> BLOCK_FOREIGN" "s < block_size t b"
  shows "\<exists>t'. block_write t b s buf = Some t' \<and> wf_table t'
    \<and> contents t' parent = (contents t parent)(start + s := buf)
    \<and> unat (start + s) = unat start + unat s \<and> start + s < block_size t parent
    \<and> (\<forall>d k. (d, k) \<noteq> locate (all_blocks t) b s \<longrightarrow> sectors t' d k = sectors t d k)"
proof -
  obtain t' where t': "block_write t b s buf = Some t'" "same_geometry t t'"
      "sectors t' = put_sector t (locate (all_blocks t) b s) buf"
    using block_write_ok [OF assms(1,2,5,4)] by blast
  have p: "parent < b" "unat start + unat (block_size t b) \<le> unat (block_size t parent)"
    using assms(1-3) by (auto simp: wf_table_def dest!: spec [of _ b])
  then have "locate (all_blocks t) b s = locate (all_blocks t) parent (start + s)"
    using assms(3) by (simp add: locate.simps [of _ b])
  then have "contents t' parent = (contents t parent)(start + s := buf)"
    using contents_put t' by simp
  then show ?thesis
    using t' assms(1) wf_table_geometry partition_sector [OF p(2) assms(5)] by (auto simp: put_sector_def)
qed

theorem partition_write_isolated_witness:
  "\<exists>t'. block_write sample_disk 1 7 (replicate 512 1) = Some t'
    \<and> contents t' 0 = (contents sample_disk 0)(37 := replicate 512 1)"
proof -
  have "wf_table sample_disk"
    using sample_disk_ok by (simp add: device_ok_def)
  from partition_write_isolated [OF this, of 1 0 30 7 "replicate 512 1"] show ?thesis
    by (auto simp: sample_disk_def block_size_def)
qed

lemma wf_table_append:
  assumes "wf_table t" "b < length (all_blocks t)" "b_type (all_blocks t ! b) \<noteq> BLOCK_FOREIGN"
    and "ops new = Partition b start" "unat start + unat (b_size new) \<le> unat (block_size t b)"
  shows "wf_table (t\<lparr>all_blocks := all_blocks t @ [new]\<rparr>)"
  unfolding wf_table_def
proof (intro allI impI)
  fix c
  let ?t = "t\<lparr>all_blocks := all_blocks t @ [new]\<rparr>"
  assume "c < length (all_blocks ?t)"
  then consider "c = length (all_blocks t)" | "c < length (all_blocks t)"
    by fastforce
  then show "case ops (all_blocks ?t ! c) of Disk \<Rightarrow> True
    | Partition parent start \<Rightarrow> parent < c \<and> b_type (all_blocks ?t ! parent) \<noteq> BLOCK_FOREIGN
        \<and> unat start + unat (block_size ?t c) \<le> unat (block_size ?t parent)"
  proof cases
    case 1
    then show ?thesis
      using assms by (simp add: block_size_def nth_append)
  next
    case 2
    then show ?thesis
      using assms(1) by (auto simp: wf_table_def block_size_def nth_append split: block_operations.splits)
  qed
qed

lemma in_device_iff:
  "\<not> start + sz < start \<and> \<not> start + sz > (n :: block_sector_t) \<longleftrightarrow> unat start + unat sz \<le> unat n"
proof (cases "unat start + unat sz < 2 ^ 32")
  case True
  then have "unat (start + sz) = unat start + unat sz"
    by (intro unat_add_small) simp
  then show ?thesis
    by (auto simp: word_less_nat_alt)
next
  case False
  then have "unat (start + sz) = unat start + unat sz - 2 ^ 32"
    using unat_32_less [of start] unat_32_less [of sz]
    by (simp add: unat_word_ariths mod_if)
  then show ?thesis
    using False unat_32_less [of n] unat_32_less [of sz] by (auto simp: word_less_nat_alt)
qed

text \<open>\<^verbatim>\<open>found_partition\<close> registers a partition exactly when all of it lies in the
  device, although the end of the range is computed with wrap-around, and so keeps the
  devices well formed.\<close>

theorem found_partition_in_device:
  assumes "wf_table t" "b < length (all_blocks t)" "b_type (all_blocks t ! b) \<noteq> BLOCK_FOREIGN"
  shows "\<exists>t'. found_partition t True b ty start sz nr = Some t' \<and> wf_table t' \<and>
    (if start < block_size t b \<and> unat start + unat sz \<le> unat (block_size t b)
     then \<exists>name. all_blocks t' = all_blocks t @ [\<lparr>b_name = name, b_type = partition_block_type ty, b_size = sz,
            ops = Partition b start, read_cnt = 0, write_cnt = 0\<rparr>]
     else t' = t)"
proof (cases "start < block_size t b \<and> unat start + unat sz \<le> unat (block_size t b)")
  case True
  then show ?thesis
    using in_device_iff [of start sz "block_size t b"] wf_table_append [OF assms, of _ start]
    by (auto simp: found_partition_def block_register_def)
next
  case False
  then show ?thesis
    using in_device_iff [of start sz "block_size t b"] assms(1) by (auto simp: found_partition_def)
qed

theorem found_partition_in_device_witness:
  "\<exists>t'. found_partition sample_disk True 0 0x21 90 (- 50) 2 = Some t' \<and> t' = sample_disk"
proof -
  have "wf_table sample_disk" "0 < length (all_blocks sample_disk)" "b_type (all_blocks sample_disk ! 0) \<noteq> BLOCK_FOREIGN"
    using sample_disk_ok by (simp_all add: device_ok_def sample_disk_def)
  from found_partition_in_device [OF this, of "0x21" 90 "- 50" 2] show ?thesis
    by (auto simp: sample_disk_def block_size_def)
qed

definition extended_disk :: "nat \<Rightarrow> block_sector_t \<Rightarrow> block_table \<Rightarrow> bool" where
  "extended_disk b off t \<longleftrightarrow> ops (all_blocks t ! b) = Disk \<and> 0 < block_size t b
     \<and> off < block_size t b \<and> off + off < block_size t b
     \<and> pt_signature (sectors t b 0) = 0xaa55 \<and> extended_type (entry_type (sectors t b 0) 0)
     \<and> entry_size (sectors t b 0) 0 \<noteq> 0 \<and> entry_offset (sectors t b 0) 0 = off"

lemma extended_disk_count: "extended_disk b off t \<Longrightarrow> extended_disk b off (count_read t b)"
  using same_geometry_count(1) [of t b] by (auto simp: extended_disk_def same_geometry_def block_size_def)

definition scanning :: "nat \<Rightarrow> block_sector_t \<Rightarrow> block_sector_t \<Rightarrow> block_sector_t \<Rightarrow> bytes option \<Rightarrow> nat \<Rightarrow> block_table \<Rightarrow> bool" where
  "scanning b off sector primary pt i t \<longleftrightarrow> extended_disk b off t
     \<and> (sector = 0 \<or> primary = off \<and> sector \<in> {off, off + off})
     \<and> (pt = None \<or> pt = Some (sectors t b 0) \<and> i = 0)"

lemma scanning_None:
  assumes "scanning b off sector primary None i t"
  shows "block_read t b 0 = Some (sectors t b 0, count_read t b)" "\<not> block_size t b \<le> sector"
    "pt_signature (sectors t b 0) = 0xaa55"
    "scanning b off sector primary (Some (sectors t b 0)) 0 (count_read t b)"
proof -
  show "block_read t b 0 = Some (sectors t b 0, count_read t b)"
    using assms by (subst block_read.simps) (auto simp: scanning_def extended_disk_def check_sector_def)
qed (use assms extended_disk_count in \<open>auto simp: scanning_def extended_disk_def\<close>)

lemma scanning_Some:
  assumes "scanning b off sector primary (Some buffer) i t"
  shows "i = 0" "entry_size buffer 0 \<noteq> 0" "entry_type buffer 0 \<noteq> 0" "extended_type (entry_type buffer 0)"
    "sector = 0 \<Longrightarrow> scanning b off (entry_offset buffer 0) (entry_offset buffer 0) None 0 t"
    "sector \<noteq> 0 \<Longrightarrow> scanning b off (entry_offset buffer 0 + primary) primary None 0 t"
  using assms by (auto simp: scanning_def extended_disk_def extended_type_def)

lemma extended_scan_diverges:
  assumes "read_partition_entries malloc_ok b sector primary pt i st = Some r"
  shows "\<not> scanning b off sector primary pt i (snd st)"
proof (rule read_partition_entries.raw_induct
    [where P = "\<lambda>malloc_ok b sector primary pt i st r. \<not> scanning b off sector primary pt i (snd st)", OF _ assms],
    goal_cases)
  case step: (1 rec malloc_ok b sector primary pt i st r)
  show ?case
  proof
    assume s: "scanning b off sector primary pt i (snd st)"
    show False
    proof (cases pt)
      case None
      then have *: "rec malloc_ok b sector primary (Some (sectors (snd st) b 0)) 0 (fst st, count_read (snd st) b) = Some r"
        using step(2) scanning_None [of b off sector primary i "snd st"] s by (auto simp: case_prod_beta')
      show False
        using step(1) [OF *] scanning_None(4) [of b off sector primary i "snd st"] s None by simp
    next
      case (Some buffer)
      note * = scanning_Some [OF s [unfolded Some]]
      obtain r' where "if sector = 0 then rec malloc_ok b (entry_offset buffer 0) (entry_offset buffer 0) None 0 st = Some r'
          else rec malloc_ok b (entry_offset buffer 0 + primary) primary None 0 st = Some r'"
        using step(2) * Some by (auto simp: bind_eq_Some_conv split: if_splits)
      then show False
        using step(1) *(5,6) by (auto split: if_splits)
    qed
  qed
qed

text \<open>the scan reads sector 0 again for every extended partition table instead of the
  table's own sector, so on a disk whose partition table starts with an extended
  partition (its offset, and twice its offset, on the disk) the scan never returns.\<close>

theorem partition_scan_diverges:
  assumes "extended_disk b off t"
  shows "partition_scan malloc_ok b t = None"
proof (cases "partition_scan malloc_ok b t")
  case (Some t')
  then obtain r where "read_partition_entries malloc_ok b 0 0 None 0 (0, t) = Some r"
    by (auto simp: partition_scan_def read_partition_table_def)
  then show ?thesis
    using extended_scan_diverges [of malloc_ok b 0 0 None 0 "(0, t)" r off] assms by (simp add: scanning_def)
qed

definition sample_extended :: block_table where
  "sample_extended = \<lparr>
     all_blocks = [
       \<lparr>b_name = ''hda'', b_type = BLOCK_RAW, b_size = 100, ops = Disk, read_cnt = 0, write_cnt = 0\<rparr>],
     block_by_role = (\<lambda>_. None),
     sectors = (\<lambda>_ _. replicate 446 0 @ [0, 0, 0, 0, 5, 0, 0, 0, 30, 0, 0, 0, 60, 0, 0, 0] @ replicate 48 0 @ [0x55, 0xaa])\<rparr>"

theorem partition_scan_diverges_witness: "partition_scan True 0 sample_extended = None"
proof -
  have "extended_disk 0 30 sample_extended"
    by (simp add: extended_disk_def sample_extended_def block_size_def pt_signature_def extended_type_def
        entry_type_def entry_size_def entry_offset_def get_bytes_def le_word_def nth_append)
  then show ?thesis
    by (rule partition_scan_diverges)
qed

end
