(* ===== verification/Buffer_Cache.thy ===== *)
theory Buffer_Cache
  imports Block
begin

text \<open>
  The write-back cache of disk sectors in \<^verbatim>\<open>filesys/buffer.c\<close>: 64 blocks, replaced by the
  clock algorithm. Every function runs from start to end with \<^verbatim>\<open>cache_lock\<close> held, so it is
  one step on the cache and the device; the two fields of a block that hold locks have no
  part in what the functions compute. The lemmas show that the cache behaves like the disk
  it caches, that its clock loop ends, and that a flush leaves the disk up to date.
\<close>

subsection \<open>The operations\<close>

definition CACHE_BLOCKS :: nat where
  "CACHE_BLOCKS = 64"

record cache_block =
  sector :: block_sector_t
  data :: bytes
  valid :: bool
  dirty :: bool
  recently_used :: bool

record cache =
  cache_blocks :: "cache_block list"
  clock_index :: uint32_t
  cache_miss :: size_t
  cache_hit :: size_t
  fs_device :: nat
  devices :: block_table

definition upd_block :: "cache \<Rightarrow> nat \<Rightarrow> (cache_block \<Rightarrow> cache_block) \<Rightarrow> cache" where
  "upd_block c i f = c\<lparr>cache_blocks := (cache_blocks c)[i := f (cache_blocks c ! i)]\<rparr>"

definition cache_block_write :: "cache \<Rightarrow> nat \<Rightarrow> cache option" where
  "cache_block_write c i = do {
     t \<leftarrow> block_write (devices c) (fs_device c) (sector (cache_blocks c ! i)) (data (cache_blocks c ! i));
     Some (upd_block (c\<lparr>devices := t\<rparr>) i (\<lambda>b. b\<lparr>dirty := False\<rparr>)) }"

definition filesys_cache_init :: "cache \<Rightarrow> cache" where
  "filesys_cache_init c = c\<lparr>clock_index := 0, cache_miss := 0, cache_hit := 0,
     cache_blocks := map (\<lambda>b. b\<lparr>valid := False, dirty := False\<rparr>) (cache_blocks c)\<rparr>"

definition cache_check :: "cache \<Rightarrow> block_sector_t \<Rightarrow> nat option \<times> cache" where
  "cache_check c s =
     (case find (\<lambda>i. valid (cache_blocks c ! i) \<and> sector (cache_blocks c ! i) = s) [0..<CACHE_BLOCKS] of
        Some i \<Rightarrow> (Some i, c\<lparr>cache_hit := cache_hit c + 1\<rparr>)
      | None \<Rightarrow> (None, c\<lparr>cache_miss := cache_miss c + 1\<rparr>))"

partial_function (option) cache_get_block :: "cache \<Rightarrow> (nat \<times> cache) option" where
  "cache_get_block c =
     (let i = unat (clock_index c); b = cache_blocks c ! i in
      if \<not> valid b then Some (i, c)
      else if recently_used b then
        (let c' = upd_block c i (\<lambda>b. b\<lparr>recently_used := False\<rparr>);
             next_index = clock_index c' + 1
         in cache_get_block (c'\<lparr>clock_index := if next_index = of_nat CACHE_BLOCKS then 0 else next_index\<rparr>))
      else do {
        c' \<leftarrow> (if dirty b then cache_block_write c i else Some c);
        Some (i, upd_block c' i (\<lambda>b. b\<lparr>valid := False\<rparr>)) })"

definition cache_read_at :: "cache \<Rightarrow> block_sector_t \<Rightarrow> (bytes \<times> cache) option" where
  "cache_read_at c s =
     (case cache_check c s of
        (None, c) \<Rightarrow> do {
          (i, c) \<leftarrow> cache_get_block c;
          let c = upd_block c i (\<lambda>b. b\<lparr>sector := s, valid := True, dirty := False\<rparr>);
          (buf, t) \<leftarrow> block_read (devices c) (fs_device c) s;
          let c = upd_block (c\<lparr>devices := t\<rparr>) i (\<lambda>b. b\<lparr>data := buf, recently_used := True\<rparr>);
          Some (data (cache_blocks c ! i), c) }
      | (Some i, c) \<Rightarrow>
          let c = upd_block c i (\<lambda>b. b\<lparr>recently_used := True\<rparr>) in
          Some (data (cache_blocks c ! i), c))"

definition cache_write_at :: "cache \<Rightarrow> block_sector_t \<Rightarrow> bytes \<Rightarrow> cache option" where
  "cache_write_at c s buffer =
     (case cache_check c s of
        (None, c) \<Rightarrow> do {
          (i, c) \<leftarrow> cache_get_block c;
          Some (upd_block c i (\<lambda>b. b\<lparr>sector := s, valid := True, dirty := True, recently_used := True, data := buffer\<rparr>)) }
      | (Some i, c) \<Rightarrow>
          Some (upd_block c i (\<lambda>b. b\<lparr>dirty := True, recently_used := True, data := buffer\<rparr>)))"

definition cache_flush :: "cache \<Rightarrow> cache option" where
  "cache_flush c = for_loop CACHE_BLOCKS (\<lambda>i c.
     if valid (cache_blocks c ! i) \<and> dirty (cache_blocks c ! i) then cache_block_write c i else Some c) c"

definition cache_reset :: "cache \<Rightarrow> cache option" where
  "cache_reset c = do {
     c \<leftarrow> cache_flush c;
     Some (c\<lparr>clock_index := 0, cache_miss := 0, cache_hit := 0,
       cache_blocks := map (\<lambda>b. b\<lparr>valid := False\<rparr>) (cache_blocks c)\<rparr>) }"

definition get_cache_hit :: "cache \<Rightarrow> int" where
  "get_cache_hit c = sint (cache_hit c)"

definition get_cache_miss :: "cache \<Rightarrow> int" where
  "get_cache_miss c = sint (cache_miss c)"

subsection \<open>The contents the cache stands for\<close>

definition in_cache :: "cache \<Rightarrow> nat \<Rightarrow> block_sector_t \<Rightarrow> bool" where
  "in_cache c i s \<longleftrightarrow> i < CACHE_BLOCKS \<and> valid (cache_blocks c ! i) \<and> sector (cache_blocks c ! i) = s"

definition view :: "cache \<Rightarrow> block_sector_t \<Rightarrow> bytes" where
  "view c s = (case fst (cache_check c s) of
      Some i \<Rightarrow> data (cache_blocks c ! i) | None \<Rightarrow> contents (devices c) (fs_device c) s)"

definition cache_ok :: "block_sector_t \<Rightarrow> cache \<Rightarrow> bool" where
  "cache_ok sz c \<longleftrightarrow> length (cache_blocks c) = CACHE_BLOCKS \<and> unat (clock_index c) < CACHE_BLOCKS
     \<and> device_ok (fs_device c) sz (devices c)
     \<and> (\<forall>i s. in_cache c i s \<longrightarrow> s < sz
          \<and> (dirty (cache_blocks c ! i) \<or> data (cache_blocks c ! i) = contents (devices c) (fs_device c) s))
     \<and> (\<forall>i j s. in_cache c i s \<longrightarrow> in_cache c j s \<longrightarrow> i = j)"

lemma cache_check_None: "fst (cache_check c s) = None \<longleftrightarrow> (\<forall>i. \<not> in_cache c i s)"
proof -
  have "fst (cache_check c s) = find (\<lambda>i. valid (cache_blocks c ! i) \<and> sector (cache_blocks c ! i) = s) [0..<CACHE_BLOCKS]"
    by (simp add: cache_check_def split: option.split)
  then show ?thesis
    by (auto simp: in_cache_def find_None_iff)
qed

lemma cache_check_Some: "fst (cache_check c s) = Some i \<Longrightarrow> in_cache c i s"
  by (auto simp: cache_check_def in_cache_def find_Some_iff split: option.splits)

lemma cache_okI:
  assumes "length (cache_blocks c) = CACHE_BLOCKS" "unat (clock_index c) < CACHE_BLOCKS"
    and "device_ok (fs_device c) sz (devices c)"
    and "\<And>i s. in_cache c i s \<Longrightarrow> s < sz"
    and "\<And>i s. in_cache c i s \<Longrightarrow> \<not> dirty (cache_blocks c ! i) \<Longrightarrow>
      data (cache_blocks c ! i) = contents (devices c) (fs_device c) s"
    and "\<And>i j s. in_cache c i s \<Longrightarrow> in_cache c j s \<Longrightarrow> i = j"
  shows "cache_ok sz c"
  using assms unfolding cache_ok_def by blast

lemma cache_okD:
  assumes "cache_ok sz c"
  shows "length (cache_blocks c) = CACHE_BLOCKS" "unat (clock_index c) < CACHE_BLOCKS"
    and "device_ok (fs_device c) sz (devices c)"
    and "in_cache c i s \<Longrightarrow> s < sz"
    and "in_cache c i s \<Longrightarrow> \<not> dirty (cache_blocks c ! i) \<Longrightarrow>
      data (cache_blocks c ! i) = contents (devices c) (fs_device c) s"
    and "in_cache c i s \<Longrightarrow> in_cache c j s \<Longrightarrow> i = j"
  using assms unfolding cache_ok_def by blast+

lemmas cache_ok_inj = cache_okD(6)

lemma view_hit:
  assumes "cache_ok sz c" "in_cache c i s"
  shows "view c s = data (cache_blocks c ! i)"
proof -
  obtain j where "fst (cache_check c s) = Some j"
    using cache_check_None [of c s] assms(2) by auto
  then show ?thesis
    using cache_ok_inj [OF assms(1,2)] cache_check_Some by (auto simp: view_def)
qed

lemma view_miss: "\<forall>i. \<not> in_cache c i s \<Longrightarrow> view c s = contents (devices c) (fs_device c) s"
  using cache_check_None [of c s] by (simp add: view_def)

lemma view_eqI:
  assumes "cache_ok sz c" "cache_ok sz c'"
    and "\<And>i s. in_cache c' i s \<Longrightarrow> view c s = data (cache_blocks c' ! i)"
    and "\<And>s. \<forall>i. \<not> in_cache c' i s \<Longrightarrow> view c s = contents (devices c') (fs_device c') s"
  shows "view c' = view c"
proof
  fix s
  show "view c' s = view c s"
    using assms view_hit [OF assms(2)] view_miss [of c' s] by (cases "\<exists>i. in_cache c' i s") metis+
qed

lemma in_cache_upd:
  assumes "length (cache_blocks c) = CACHE_BLOCKS" "i < CACHE_BLOCKS"
  shows "in_cache (upd_block c i f) j s \<longleftrightarrow>
    (if j = i then valid (f (cache_blocks c ! i)) \<and> sector (f (cache_blocks c ! i)) = s else in_cache c j s)"
  using assms by (auto simp: in_cache_def upd_block_def)

lemma upd_block_simps [simp]:
  "devices (upd_block c i f) = devices c" "fs_device (upd_block c i f) = fs_device c"
  "clock_index (upd_block c i f) = clock_index c" "length (cache_blocks (upd_block c i f)) = length (cache_blocks c)"
  "cache_hit (upd_block c i f) = cache_hit c" "cache_miss (upd_block c i f) = cache_miss c"
  by (simp_all add: upd_block_def)

lemma nth_upd_block:
  "i < length (cache_blocks c) \<Longrightarrow>
   cache_blocks (upd_block c i f) ! j = (if j = i then f (cache_blocks c ! i) else cache_blocks c ! j)"
  by (simp add: upd_block_def)

text \<open>Writing a block back changes neither the invariant nor the contents.\<close>

lemma write_back_ok:
  assumes c: "cache_ok sz c" and i: "in_cache c i s"
  shows "\<exists>c'. cache_block_write c i = Some c' \<and> cache_ok sz c' \<and> view c' = view c
    \<and> cache_blocks c' = (cache_blocks c)[i := (cache_blocks c ! i)\<lparr>dirty := False\<rparr>]
    \<and> clock_index c' = clock_index c \<and> fs_device c' = fs_device c
    \<and> contents (devices c') (fs_device c) = (contents (devices c) (fs_device c))(s := data (cache_blocks c ! i))"
proof -
  have s: "s < sz" "sector (cache_blocks c ! i) = s" "i < CACHE_BLOCKS"
    and len: "length (cache_blocks c) = CACHE_BLOCKS"
    using c i by (auto simp: cache_ok_def in_cache_def)
  obtain t where t: "block_write (devices c) (fs_device c) s (data (cache_blocks c ! i)) = Some t"
      "device_ok (fs_device c) sz t"
      "contents t (fs_device c) = (contents (devices c) (fs_device c))(s := data (cache_blocks c ! i))"
    using block_write_device [OF cache_okD(3) [OF c] s(1)] by blast
  define c' where "c' = upd_block (c\<lparr>devices := t\<rparr>) i (\<lambda>b. b\<lparr>dirty := False\<rparr>)"
  have in': "in_cache c' j k \<longleftrightarrow> in_cache c j k" for j k
    using s len by (simp add: c'_def in_cache_def nth_upd_block)
  have data': "data (cache_blocks c' ! j) = data (cache_blocks c ! j)" for j
    using s len by (simp add: c'_def nth_upd_block)
  have "cache_ok sz c'"
  proof (rule cache_okI)
    fix j k
    assume jk: "in_cache c' j k"
    show "k < sz"
      using cache_okD(4) [OF c] jk in' by blast
    show "data (cache_blocks c' ! j) = contents (devices c') (fs_device c') k" if "\<not> dirty (cache_blocks c' ! j)"
      using that jk in' data' t(3) cache_okD(5,6) [OF c] s len i
      by (cases "j = i") (auto simp: c'_def nth_upd_block in_cache_def)
  qed (use t(2) cache_okD [OF c] in' in \<open>auto simp: c'_def\<close>)
  moreover have "view c' = view c"
  proof (rule view_eqI [OF c \<open>cache_ok sz c'\<close>])
    show "view c k = data (cache_blocks c' ! j)" if "in_cache c' j k" for j k
      using that in' data' view_hit [OF c] by simp
    show "view c k = contents (devices c') (fs_device c') k" if "\<forall>j. \<not> in_cache c' j k" for k
      using that in' view_miss [of c k] t(3) i by (auto simp: c'_def)
  qed
  ultimately show ?thesis
    using t s by (simp add: cache_block_write_def c'_def) (simp add: upd_block_def)
qed

lemma cache_ok_cong:
  assumes c: "cache_ok sz c" and same: "devices c' = devices c" "fs_device c' = fs_device c"
    "length (cache_blocks c') = CACHE_BLOCKS" "unat (clock_index c') < CACHE_BLOCKS"
    and blocks: "\<And>j. j < CACHE_BLOCKS \<Longrightarrow> valid (cache_blocks c' ! j) = valid (cache_blocks c ! j)
      \<and> sector (cache_blocks c' ! j) = sector (cache_blocks c ! j)
      \<and> data (cache_blocks c' ! j) = data (cache_blocks c ! j) \<and> dirty (cache_blocks c' ! j) = dirty (cache_blocks c ! j)"
  shows "cache_ok sz c'" "view c' = view c" "in_cache c' j s = in_cache c j s"
proof -
  have in': "in_cache c' j s = in_cache c j s" for j s
    using blocks by (auto simp: in_cache_def)
  have bound: "j < CACHE_BLOCKS" if "in_cache c j s" for j s
    using that by (simp add: in_cache_def)
  show ok: "cache_ok sz c'"
  proof (rule cache_okI)
    fix i k
    assume "in_cache c' i k"
    then have k: "in_cache c i k" "i < CACHE_BLOCKS"
      using in' bound by blast+
    show "k < sz"
      by (rule cache_okD(4) [OF c k(1)])
    show "data (cache_blocks c' ! i) = contents (devices c') (fs_device c') k" if "\<not> dirty (cache_blocks c' ! i)"
      using cache_okD(5) [OF c k(1)] that blocks [OF k(2)] same by simp
    show "i = j" if "in_cache c' j k" for j
      using cache_okD(6) [OF c k(1)] that in' by blast
  qed (use same cache_okD(3) [OF c] in simp_all)
  show "view c' = view c"
  proof (rule view_eqI [OF c ok])
    show "view c k = data (cache_blocks c' ! i)" if "in_cache c' i k" for i k
      using that in' view_hit [OF c] blocks bound by metis
    show "view c k = contents (devices c') (fs_device c') k" if "\<forall>i. \<not> in_cache c' i k" for k
      using that in' view_miss same by metis
  qed
  show "in_cache c' j s = in_cache c j s"
    by (rule in')
qed

lemma invalidate_ok:
  assumes c: "cache_ok sz c" and i: "in_cache c i s" "\<not> dirty (cache_blocks c ! i)"
  defines "c' \<equiv> upd_block c i (\<lambda>b. b\<lparr>valid := False\<rparr>)"
  shows "cache_ok sz c'" "view c' = view c" "in_cache c' j k \<longleftrightarrow> j \<noteq> i \<and> in_cache c j k"
proof -
  have len: "i < CACHE_BLOCKS" "length (cache_blocks c) = CACHE_BLOCKS"
    using i cache_okD [OF c] by (simp_all add: in_cache_def)
  have in': "in_cache c' j k \<longleftrightarrow> j \<noteq> i \<and> in_cache c j k" for j k
    using len by (auto simp: c'_def in_cache_upd)
  have nth': "cache_blocks c' ! j = cache_blocks c ! j" if "j \<noteq> i" for j
    using that len by (simp add: c'_def nth_upd_block)
  have same: "devices c' = devices c" "fs_device c' = fs_device c" "clock_index c' = clock_index c"
    by (simp_all add: c'_def)
  show ok: "cache_ok sz c'"
  proof (rule cache_okI)
    fix j k
    assume "in_cache c' j k"
    then have k: "in_cache c j k" "j \<noteq> i"
      using in' by blast+
    show "k < sz"
      by (rule cache_okD(4) [OF c k(1)])
    show "data (cache_blocks c' ! j) = contents (devices c') (fs_device c') k" if "\<not> dirty (cache_blocks c' ! j)"
      using cache_okD(5) [OF c k(1)] that nth' [OF k(2)] same by simp
    show "j = l" if "in_cache c' l k" for l
      using cache_okD(6) [OF c k(1)] that in' by blast
  qed (use same len cache_okD [OF c] in \<open>simp_all add: c'_def\<close>)
  show "view c' = view c"
  proof (rule view_eqI [OF c ok])
    show "view c k = contents (devices c') (fs_device c') k" if "\<forall>j. \<not> in_cache c' j k" for k
    proof (cases "in_cache c i k")
      case True
      then show ?thesis
        using view_hit [OF c True] cache_okD(5) [OF c True i(2)] same by simp
    next
      case False
      then show ?thesis
        using that in' same by (simp, intro view_miss) metis
    qed
  qed (use in' nth' view_hit [OF c] in simp)
  show "in_cache c' j k \<longleftrightarrow> j \<noteq> i \<and> in_cache c j k"
    by (rule in')
qed

lemma next_index_less:
  assumes "unat (i :: uint32_t) < CACHE_BLOCKS"
  shows "unat (if i + 1 = of_nat CACHE_BLOCKS then 0 else i + 1) < CACHE_BLOCKS"
proof -
  have "unat (i + 1) = unat i + 1"
    using assms unat_add_small [of i 1] by (simp add: CACHE_BLOCKS_def)
  then show ?thesis
    using assms by (auto simp: CACHE_BLOCKS_def word_unat_eq_iff)
qed

lemma filter_update_less:
  "i < length xs \<Longrightarrow> P (xs ! i) \<Longrightarrow> \<not> P y \<Longrightarrow> length (filter P (xs[i := y])) < length (filter P xs)"
proof (induction xs arbitrary: i)
  case (Cons x xs)
  then show ?case by (cases i) auto
qed simp

lemma cache_get_block_ok:
  "cache_ok sz c \<Longrightarrow>
   \<exists>i c'. cache_get_block c = Some (i, c') \<and> i < CACHE_BLOCKS \<and> cache_ok sz c' \<and> view c' = view c
     \<and> \<not> valid (cache_blocks c' ! i) \<and> (\<forall>j s. in_cache c' j s \<longrightarrow> in_cache c j s) \<and> fs_device c' = fs_device c"
proof (induction "length (filter recently_used (cache_blocks c))" arbitrary: c rule: less_induct)
  case less
  note c = less.prems and D = cache_okD [OF less.prems]
  define i where "i = unat (clock_index c)"
  define b where "b = cache_blocks c ! i"
  have i: "i < CACHE_BLOCKS" "i < length (cache_blocks c)"
    using D by (simp_all add: i_def)
  consider "\<not> valid b" | "valid b" "recently_used b" | "valid b" "\<not> recently_used b"
    by blast
  then show ?case
  proof cases
    case 1
    then show ?thesis
      using c i by (subst cache_get_block.simps) (auto simp: i_def b_def Let_def)
  next
    case 2
    define c' where "c' = (upd_block c i (\<lambda>b. b\<lparr>recently_used := False\<rparr>))
      \<lparr>clock_index := if clock_index c + 1 = of_nat CACHE_BLOCKS then 0 else clock_index c + 1\<rparr>"
    have step: "cache_get_block c = cache_get_block c'"
      using 2 by (subst cache_get_block.simps) (simp add: i_def b_def c'_def Let_def)
    have "unat (clock_index c') < CACHE_BLOCKS"
      using next_index_less [OF D(2)] by (simp add: c'_def)
    then have ok: "cache_ok sz c'" "view c' = view c" "\<And>j s. in_cache c' j s = in_cache c j s"
      using i D(1) by (intro cache_ok_cong [OF c]; simp add: c'_def nth_upd_block)+
    have "length (filter recently_used (cache_blocks c')) < length (filter recently_used (cache_blocks c))"
      using filter_update_less [OF i(2)] 2(2) by (simp add: c'_def b_def upd_block_def)
    then show ?thesis
      using less.hyps [of c'] ok step by (auto simp: c'_def)
  next
    case 3
    then have in_i: "in_cache c i (sector b)"
      using i by (simp add: in_cache_def b_def)
    obtain g where g: "(if dirty b then cache_block_write c i else Some c) = Some g" "cache_ok sz g" "view g = view c"
        "in_cache g i (sector b)" "\<not> dirty (cache_blocks g ! i)" "\<And>j s. in_cache g j s = in_cache c j s"
        "fs_device g = fs_device c"
    proof (cases "dirty b")
      case True
      obtain g where g: "cache_block_write c i = Some g" "cache_ok sz g" "view g = view c" "fs_device g = fs_device c"
          "cache_blocks g = (cache_blocks c)[i := (cache_blocks c ! i)\<lparr>dirty := False\<rparr>]"
        using write_back_ok [OF c in_i] by blast
      then have "in_cache g j s = in_cache c j s" for j s
        using i by (auto simp: in_cache_def nth_list_update)
      then show ?thesis
        using True g i in_i by (intro that [of g]) simp_all
    next
      case False
      then show ?thesis
        using c in_i by (intro that [of c]) (simp_all add: b_def)
    qed
    note inv = invalidate_ok [OF g(2,4,5)]
    have "cache_get_block c = Some (i, upd_block g i (\<lambda>b. b\<lparr>valid := False\<rparr>))"
      using 3 g(1) by (subst cache_get_block.simps) (auto simp: i_def b_def Let_def split: if_splits)
    moreover have "\<not> valid (cache_blocks (upd_block g i (\<lambda>b. b\<lparr>valid := False\<rparr>)) ! i)"
      using i cache_okD(1) [OF g(2)] by (simp add: nth_upd_block)
    ultimately show ?thesis
      using i inv g by auto
  qed
qed

text \<open>Filling a free block with a sector that is not in the cache.\<close>

lemma fill_ok:
  assumes c: "cache_ok sz c" and i: "i < CACHE_BLOCKS" "\<not> valid (cache_blocks c ! i)"
    and s: "\<forall>j. \<not> in_cache c j s" "s < sz"
    and t: "device_ok (fs_device c) sz t" "contents t (fs_device c) = contents (devices c) (fs_device c)"
    and f: "valid (f (cache_blocks c ! i))" "sector (f (cache_blocks c ! i)) = s"
      "dirty (f (cache_blocks c ! i)) \<or> data (f (cache_blocks c ! i)) = contents (devices c) (fs_device c) s"
  defines "c' \<equiv> upd_block (c\<lparr>devices := t\<rparr>) i f"
  shows "cache_ok sz c'" "view c' = (view c)(s := data (f (cache_blocks c ! i)))"
proof -
  have len: "length (cache_blocks c) = CACHE_BLOCKS"
    by (rule cache_okD(1) [OF c])
  have blk: "cache_blocks c' ! j = (if j = i then f (cache_blocks c ! i) else cache_blocks c ! j)" for j
    using len i by (simp add: c'_def nth_upd_block)
  have in': "in_cache c' j k \<longleftrightarrow> (if j = i then k = s else in_cache c j k)" for j k
    using blk i f by (auto simp: in_cache_def)
  have same: "devices c' = t" "fs_device c' = fs_device c" "clock_index c' = clock_index c"
    by (simp_all add: c'_def)
  show ok: "cache_ok sz c'"
  proof (rule cache_okI)
    fix j k
    assume k: "in_cache c' j k"
    show "k < sz"
      using k in' s(2) cache_okD(4) [OF c] by (auto split: if_splits)
    show "data (cache_blocks c' ! j) = contents (devices c') (fs_device c') k" if "\<not> dirty (cache_blocks c' ! j)"
      using that k in' blk same t(2) f(3) cache_okD(5) [OF c] by (auto split: if_splits)
    show "j = l" if "in_cache c' l k" for l
      using that k in' s(1) cache_okD(6) [OF c] by (metis (full_types))
  qed (use same len t(1) cache_okD [OF c] in \<open>simp_all add: c'_def\<close>)
  show "view c' = (view c)(s := data (f (cache_blocks c ! i)))"
  proof
    fix k
    have "j \<noteq> i" if "in_cache c j k" for j
      using that i(2) by (auto simp: in_cache_def)
    then consider "k = s" | j where "j \<noteq> i" "in_cache c j k" "k \<noteq> s" | "k \<noteq> s" "\<forall>j. \<not> in_cache c j k"
      by blast
    then show "view c' k = ((view c)(s := data (f (cache_blocks c ! i)))) k"
    proof cases
      case 1
      then show ?thesis
        using view_hit [OF ok, of i s] in' blk by simp
    next
      case (2 j)
      then show ?thesis
        using view_hit [OF ok, of j k] view_hit [OF c, of j k] in' blk by simp
    next
      case 3
      then show ?thesis
        using view_miss [of c' k] view_miss [of c k] in' same t(2) by simp
    qed
  qed
qed

lemma cache_check_cases:
  assumes "cache_ok sz c"
  obtains (hit) i c' where "cache_check c s = (Some i, c')" "in_cache c' i s" "cache_ok sz c'" "view c' = view c"
      "fs_device c' = fs_device c"
  | (miss) c' where "cache_check c s = (None, c')" "\<forall>i. \<not> in_cache c' i s" "cache_ok sz c'" "view c' = view c"
      "fs_device c' = fs_device c"
proof -
  obtain r c' where r: "cache_check c s = (r, c')"
    by fastforce
  have *: "cache_ok sz c'" "view c' = view c" "\<And>j k. in_cache c' j k = in_cache c j k"
    using cache_okD [OF assms] r
    by (intro cache_ok_cong [OF assms]; auto simp: cache_check_def split: option.splits)+
  have "fs_device c' = fs_device c"
    using r by (auto simp: cache_check_def split: option.splits)
  then show ?thesis
    using that r * cache_check_None [of c s] cache_check_Some [of c s] by (cases r) auto
qed

lemma cache_read_at_ok:
  assumes c: "cache_ok sz c" and s: "s < sz"
  shows "\<exists>c'. cache_read_at c s = Some (view c s, c') \<and> cache_ok sz c' \<and> view c' = view c \<and> fs_device c' = fs_device c"
  using c
proof (cases rule: cache_check_cases [where s = s])
  case (hit i c1)
  let ?c = "upd_block c1 i (\<lambda>b. b\<lparr>recently_used := True\<rparr>)"
  have i: "i < length (cache_blocks c1)"
    using hit(2) cache_okD(1) [OF hit(3)] by (simp add: in_cache_def)
  have "cache_ok sz ?c" "view ?c = view c1"
    using cache_okD [OF hit(3)] i by (intro cache_ok_cong [OF hit(3)]; simp add: nth_upd_block)+
  then show ?thesis
    using hit i view_hit [OF hit(3,2)] by (simp add: cache_read_at_def Let_def nth_upd_block)
next
  case (miss c1)
  obtain i c2 where c2: "cache_get_block c1 = Some (i, c2)" "i < CACHE_BLOCKS" "cache_ok sz c2" "view c2 = view c1"
      "\<not> valid (cache_blocks c2 ! i)" "\<forall>j s. in_cache c2 j s \<longrightarrow> in_cache c1 j s" "fs_device c2 = fs_device c1"
    using cache_get_block_ok [OF miss(3)] by blast
  obtain t where t: "block_read (devices c2) (fs_device c2) s = Some (contents (devices c2) (fs_device c2) s, t)"
      "device_ok (fs_device c2) sz t" "contents t (fs_device c2) = contents (devices c2) (fs_device c2)"
    using block_read_device [OF cache_okD(3) [OF c2(3)] s] by blast
  let ?f = "\<lambda>b. b\<lparr>sector := s, valid := True, dirty := False, data := contents (devices c2) (fs_device c2) s, recently_used := True\<rparr>"
  have no: "\<forall>j. \<not> in_cache c2 j s"
    using miss(2) c2(6) by blast
  note fill = fill_ok [OF c2(3,2,5) no s t(2,3), of ?f]
  have v: "view c s = contents (devices c2) (fs_device c2) s"
    using view_miss [OF no] c2(4) miss(4) by simp
  have "cache_read_at c s = Some (contents (devices c2) (fs_device c2) s, upd_block (c2\<lparr>devices := t\<rparr>) i ?f)"
    using miss(1) c2(1,2) t(1) cache_okD(1) [OF c2(3)]
    by (simp add: cache_read_at_def nth_upd_block Let_def) (simp add: upd_block_def)
  then show ?thesis
    using fill v c2(4,7) miss(4,5) by (simp add: fun_upd_idem)
qed

lemma cache_write_at_ok:
  assumes c: "cache_ok sz c" and s: "s < sz"
  shows "\<exists>c'. cache_write_at c s buf = Some c' \<and> cache_ok sz c' \<and> view c' = (view c)(s := buf) \<and> fs_device c' = fs_device c"
  using c
proof (cases rule: cache_check_cases [where s = s])
  case (hit i c1)
  define c2 where "c2 = upd_block c1 i (\<lambda>b. b\<lparr>dirty := True, recently_used := True, data := buf\<rparr>)"
  have i: "i < CACHE_BLOCKS" "i < length (cache_blocks c1)"
    using hit(2) cache_okD(1) [OF hit(3)] by (simp_all add: in_cache_def)
  have in': "in_cache c2 j k = in_cache c1 j k" for j k
    using i by (auto simp: c2_def in_cache_def nth_upd_block)
  have blk: "cache_blocks c2 ! j = cache_blocks c1 ! j" if "j \<noteq> i" for j
    using i that by (simp add: c2_def nth_upd_block)
  have same: "devices c2 = devices c1" "fs_device c2 = fs_device c1" "clock_index c2 = clock_index c1"
    "dirty (cache_blocks c2 ! i)" "data (cache_blocks c2 ! i) = buf"
    using i by (simp_all add: c2_def nth_upd_block)
  have ok: "cache_ok sz c2"
  proof (rule cache_okI)
    fix j k
    assume k: "in_cache c2 j k"
    show "data (cache_blocks c2 ! j) = contents (devices c2) (fs_device c2) k" if "\<not> dirty (cache_blocks c2 ! j)"
      using that k in' blk same cache_okD(5) [OF hit(3)] by (cases "j = i") auto
  qed (use same cache_okD [OF hit(3)] in' in \<open>auto simp: c2_def\<close>)
  have "view c2 = (view c1)(s := buf)"
  proof
    fix k
    show "view c2 k = ((view c1)(s := buf)) k"
    proof (cases "\<exists>j. in_cache c1 j k")
      case True
      then obtain j where j: "in_cache c1 j k" by blast
      then have "j = i \<longleftrightarrow> k = s"
        using hit(2) cache_okD(6) [OF hit(3)] by (auto simp: in_cache_def)
      then show ?thesis
        using j view_hit [OF ok, of j k] view_hit [OF hit(3) j] in' blk same by auto
    next
      case False
      then show ?thesis
        using hit(2) view_miss [of c2 k] view_miss [of c1 k] in' same by auto
    qed
  qed
  then show ?thesis
    using hit ok by (simp add: cache_write_at_def flip: c2_def) (simp add: c2_def)
next
  case (miss c1)
  obtain i c2 where c2: "cache_get_block c1 = Some (i, c2)" "i < CACHE_BLOCKS" "cache_ok sz c2" "view c2 = view c1"
      "\<not> valid (cache_blocks c2 ! i)" "\<forall>j s. in_cache c2 j s \<longrightarrow> in_cache c1 j s" "fs_device c2 = fs_device c1"
    using cache_get_block_ok [OF miss(3)] by blast
  let ?f = "\<lambda>b. b\<lparr>sector := s, valid := True, dirty := True, recently_used := True, data := buf\<rparr>"
  have no: "\<forall>j. \<not> in_cache c2 j s"
    using miss(2) c2(6) by blast
  note fill = fill_ok [OF c2(3,2,5) no s cache_okD(3) [OF c2(3)] refl, of ?f]
  show ?thesis
    using miss c2 fill by (simp add: cache_write_at_def)
qed

lemma cache_flush_step:
  assumes "cache_ok sz c" "i < CACHE_BLOCKS"
  shows "\<exists>c'. (if valid (cache_blocks c ! i) \<and> dirty (cache_blocks c ! i) then cache_block_write c i else Some c) = Some c'
    \<and> cache_ok sz c' \<and> view c' = view c \<and> fs_device c' = fs_device c
    \<and> (\<forall>j. valid (cache_blocks c' ! j) = valid (cache_blocks c ! j))
    \<and> (\<forall>j. dirty (cache_blocks c' ! j) \<longrightarrow> dirty (cache_blocks c ! j))
    \<and> \<not> (valid (cache_blocks c' ! i) \<and> dirty (cache_blocks c' ! i))"
proof (cases "valid (cache_blocks c ! i) \<and> dirty (cache_blocks c ! i)")
  case True
  then have "in_cache c i (sector (cache_blocks c ! i))"
    using assms(2) by (simp add: in_cache_def)
  from write_back_ok [OF assms(1) this] obtain c' where c': "cache_block_write c i = Some c'" "cache_ok sz c'"
      "view c' = view c" "fs_device c' = fs_device c"
      "cache_blocks c' = (cache_blocks c)[i := (cache_blocks c ! i)\<lparr>dirty := False\<rparr>]"
    by blast
  moreover have "valid (cache_blocks c' ! j) = valid (cache_blocks c ! j)"
      "dirty (cache_blocks c' ! j) = (j \<noteq> i \<and> dirty (cache_blocks c ! j))" for j
    using c'(5) assms(2) cache_okD(1) [OF assms(1)] by (simp_all add: nth_list_update)
  ultimately show ?thesis
    using True by auto
qed (use assms in auto)

lemma cache_flush_ok:
  assumes c: "cache_ok sz c"
  shows "\<exists>c'. cache_flush c = Some c' \<and> cache_ok sz c' \<and> view c' = view c \<and> fs_device c' = fs_device c
    \<and> contents (devices c') (fs_device c) = view c"
proof -
  define P where "P n c' \<longleftrightarrow> cache_ok sz c' \<and> view c' = view c \<and> fs_device c' = fs_device c \<and>
    (\<forall>j < n. \<not> (valid (cache_blocks c' ! j) \<and> dirty (cache_blocks c' ! j)))" for n c'
  have "\<exists>c'. cache_flush c = Some c' \<and> P CACHE_BLOCKS c'"
    unfolding cache_flush_def
  proof (rule for_loop_invariant)
    fix i s
    assume "i < CACHE_BLOCKS" "P i s"
    then show "\<exists>s'. (if valid (cache_blocks s ! i) \<and> dirty (cache_blocks s ! i) then cache_block_write s i else Some s) = Some s'
        \<and> P (Suc i) s'"
      using cache_flush_step [of sz s i] by (fastforce simp: P_def less_Suc_eq)
  qed (use c in \<open>simp add: P_def\<close>)
  then obtain c' where c': "cache_flush c = Some c'" "P CACHE_BLOCKS c'"
    by blast
  then have ok: "cache_ok sz c'" and v: "view c' = view c" and "fs_device c' = fs_device c"
    by (simp_all add: P_def)
  moreover have "contents (devices c') (fs_device c') k = view c' k" for k
  proof (cases "\<exists>j. in_cache c' j k")
    case True
    then obtain j where j: "in_cache c' j k" by blast
    then have "\<not> dirty (cache_blocks c' ! j)"
      using c'(2) by (auto simp: P_def in_cache_def)
    then show ?thesis
      using view_hit [OF ok j] cache_okD(5) [OF ok j] by simp
  qed (use view_miss in metis)
  ultimately show ?thesis
    using c'(1) by auto
qed

lemma no_valid_block:
  assumes "length (cache_blocks c) = CACHE_BLOCKS" "\<forall>j < CACHE_BLOCKS. \<not> valid (cache_blocks c ! j)"
    and "unat (clock_index c) < CACHE_BLOCKS" "device_ok (fs_device c) sz (devices c)"
  shows "cache_ok sz c" "view c = contents (devices c) (fs_device c)"
proof -
  have no: "\<not> in_cache c i s" for i s
    using assms(2) by (auto simp: in_cache_def)
  then show "cache_ok sz c"
    using assms by (intro cache_okI) auto
  show "view c = contents (devices c) (fs_device c)"
    using view_miss no by blast
qed

lemma filesys_cache_init_ok:
  assumes "length (cache_blocks c) = CACHE_BLOCKS" "device_ok (fs_device c) sz (devices c)"
  shows "cache_ok sz (filesys_cache_init c)" "view (filesys_cache_init c) = contents (devices c) (fs_device c)"
  using no_valid_block [of "filesys_cache_init c" sz] assms
  by (simp_all add: filesys_cache_init_def CACHE_BLOCKS_def)

lemma cache_reset_ok:
  assumes c: "cache_ok sz c"
  shows "\<exists>c'. cache_reset c = Some c' \<and> cache_ok sz c' \<and> view c' = view c \<and> fs_device c' = fs_device c
    \<and> contents (devices c') (fs_device c) = view c \<and> cache_hit c' = 0 \<and> cache_miss c' = 0"
proof -
  obtain g where g: "cache_flush c = Some g" "cache_ok sz g" "view g = view c" "fs_device g = fs_device c"
      "contents (devices g) (fs_device c) = view c"
    using cache_flush_ok [OF c] by blast
  let ?c = "g\<lparr>clock_index := 0, cache_miss := 0, cache_hit := 0,
      cache_blocks := map (\<lambda>b. b\<lparr>valid := False\<rparr>) (cache_blocks g)\<rparr>"
  have "cache_ok sz ?c" "view ?c = contents (devices g) (fs_device g)"
    using no_valid_block [of ?c sz] cache_okD [OF g(2)] by (simp_all add: CACHE_BLOCKS_def)
  then show ?thesis
    using g by (simp add: cache_reset_def)
qed

interpretation buffer_cache: sector_store
  "\<lambda>c. cache_ok sz c \<and> fs_device c = b" sz view cache_read_at cache_write_at for sz b
proof
  show "\<exists>c'. cache_read_at c k = Some (view c k, c') \<and> (cache_ok sz c' \<and> fs_device c' = b) \<and> view c' = view c"
    if "cache_ok sz c \<and> fs_device c = b" "k < sz" for c k
    using cache_read_at_ok that by blast
  show "\<exists>c'. cache_write_at c k buf = Some c' \<and> (cache_ok sz c' \<and> fs_device c' = b) \<and> view c' = (view c)(k := buf)"
    if "cache_ok sz c \<and> fs_device c = b" "k < sz" for c k buf
    using cache_write_at_ok that by blast
qed

subsection \<open>Properties\<close>

text \<open>C1: the cache is transparent and write-back is complete. Started on a device, any
  sequence of sector reads and writes through the cache returns, gives every read the
  data of the latest write to that sector (or what the disk held), and a flush after it
  leaves the disk with the result of all the writes.\<close>

theorem cache_transparent:
  assumes "length (cache_blocks c) = CACHE_BLOCKS" "device_ok (fs_device c) sz (devices c)"
    and "list_all (request_ok sz) rs"
  shows "\<exists>c' c''. serve cache_read_at cache_write_at rs (filesys_cache_init c) =
      Some (array_replies rs (contents (devices c) (fs_device c)), c')
    \<and> cache_flush c' = Some c''
    \<and> contents (devices c'') (fs_device c) = array_after rs (contents (devices c) (fs_device c))
    \<and> view c'' = array_after rs (contents (devices c) (fs_device c))"
proof -
  note init = filesys_cache_init_ok [OF assms(1,2)]
  have "fs_device (filesys_cache_init c) = fs_device c"
    by (simp add: filesys_cache_init_def)
  then obtain c' where c': "serve cache_read_at cache_write_at rs (filesys_cache_init c) =
        Some (array_replies rs (contents (devices c) (fs_device c)), c')"
      "cache_ok sz c'" "fs_device c' = fs_device c" "view c' = array_after rs (contents (devices c) (fs_device c))"
    using buffer_cache.serve_refines [of sz "filesys_cache_init c" "fs_device c" rs] init assms(3) by auto
  then show ?thesis
    using cache_flush_ok [OF c'(2)] by auto
qed

definition sample_cache :: cache where
  "sample_cache = \<lparr>
     cache_blocks = replicate 64 \<lparr>sector = 0, data = [], valid = False, dirty = False, recently_used = False\<rparr>,
     clock_index = 0, cache_miss = 0, cache_hit = 0, fs_device = 1, devices = sample_disk\<rparr>"

lemma sample_cache_ok: "cache_ok 20 (filesys_cache_init sample_cache)"
  using filesys_cache_init_ok [of sample_cache 20] sample_disk_ok by (simp add: sample_cache_def CACHE_BLOCKS_def)

theorem cache_transparent_witness:
  "\<exists>c'. serve cache_read_at cache_write_at [Write 3 (replicate 512 7), Read 3, Read 4] (filesys_cache_init sample_cache) =
     Some ([replicate 512 7, contents sample_disk 1 4], c')"
proof -
  have "length (cache_blocks sample_cache) = CACHE_BLOCKS" "device_ok (fs_device sample_cache) 20 (devices sample_cache)"
    using sample_disk_ok by (simp_all add: sample_cache_def CACHE_BLOCKS_def)
  from cache_transparent [OF this, of "[Write 3 (replicate 512 7), Read 3, Read 4]"] show ?thesis
    by (auto simp: BLOCK_SECTOR_SIZE_def sample_cache_def)
qed

text \<open>the clock loop of \<^verbatim>\<open>cache_get_block\<close> ends in every state of the cache, gives a
  free block, and loses nothing: the block it evicts was written back if it was dirty.\<close>

theorem cache_get_block_evicts:
  assumes "cache_ok sz c"
  shows "\<exists>i c'. cache_get_block c = Some (i, c') \<and> i < CACHE_BLOCKS \<and> \<not> valid (cache_blocks c' ! i)
    \<and> cache_ok sz c' \<and> view c' = view c"
  using cache_get_block_ok [OF assms] by blast

theorem cache_get_block_evicts_witness:
  "\<exists>i c'. cache_get_block (filesys_cache_init sample_cache) = Some (i, c') \<and> i < 64
    \<and> \<not> valid (cache_blocks c' ! i) \<and> view c' = view (filesys_cache_init sample_cache)"
  using cache_get_block_evicts [OF sample_cache_ok] by (auto simp: CACHE_BLOCKS_def)

end
