(* ===== verification/Inode.thy ===== *)
theory Inode
  imports Buffer_Cache Bitmap
begin

text \<open>
  Files on disk: the index nodes of \<^verbatim>\<open>filesys/inode.c\<close> and the free map of
  \<^verbatim>\<open>filesys/free-map.c\<close>, which call each other (growing a file takes sectors from the
  free map, and every change of the free map is written to its own file). An in-memory
  inode is named by its sector, since the list of open inodes holds at most one per
  sector. Offsets and lengths (\<^verbatim>\<open>off_t\<close>) are integers; \<^verbatim>\<open>block_sector_t\<close> and
  \<^verbatim>\<open>size_t\<close> values are words. The temporary blocks that the code takes from \<^verbatim>\<open>calloc\<close>
  are values here; the two places where it checks for a failed allocation take the
  outcome as an argument.
\<close>

subsection \<open>On-disk structures\<close>

type_synonym off_t = int

definition INODE_MAGIC :: uint32_t where "INODE_MAGIC = 0x494e4f44"

definition DIRECT_PTRS :: nat where "DIRECT_PTRS = 122"

definition INDIRECT_BLOCK_PTRS :: nat where "INDIRECT_BLOCK_PTRS = 128"

record inode_disk =
  direct_ptrs :: "block_sector_t list"
  indirect_ptr :: block_sector_t
  doubly_indirect_ptr :: block_sector_t
  directory :: bool
  parent_node :: block_sector_t
  i_length :: off_t
  magic :: uint32_t

definition encode_inode :: "inode_disk \<Rightarrow> bytes" where
  "encode_inode d = words_bytes (direct_ptrs d @ [indirect_ptr d, doubly_indirect_ptr d,
     if directory d then 1 else 0, parent_node d, word_of_int (i_length d), magic d])"

definition decode_inode :: "bytes \<Rightarrow> inode_disk" where
  "decode_inode bs = (let ws = bytes_words bs in
     \<lparr>direct_ptrs = take DIRECT_PTRS ws, indirect_ptr = ws ! 122, doubly_indirect_ptr = ws ! 123,
      directory = (ws ! 124 AND 0xFF \<noteq> 0), parent_node = ws ! 125, i_length = sint (ws ! 126), magic = ws ! 127\<rparr>)"

definition empty_sector :: bytes where
  "empty_sector = replicate BLOCK_SECTOR_SIZE 0"

record inode =
  i_sector :: block_sector_t
  open_cnt :: int
  removed :: bool
  deny_write_cnt :: int
  i_data :: inode_disk

record fsys =
  fs_cache :: cache
  free_map :: bitmap
  free_map_file :: "block_sector_t option"
  open_inodes :: "inode list"

definition cread :: "fsys \<Rightarrow> block_sector_t \<Rightarrow> (bytes \<times> fsys) option" where
  "cread s k = do { (b, c) \<leftarrow> cache_read_at (fs_cache s) k; Some (b, s\<lparr>fs_cache := c\<rparr>) }"

definition cwrite :: "fsys \<Rightarrow> block_sector_t \<Rightarrow> bytes \<Rightarrow> fsys option" where
  "cwrite s k b = do { c \<leftarrow> cache_write_at (fs_cache s) k b; Some (s\<lparr>fs_cache := c\<rparr>) }"

definition bytes_to_sectors :: "off_t \<Rightarrow> size_t" where
  "bytes_to_sectors sz = word_of_int ((sz + 512 - 1) sdiv 512)"

subsection \<open>Reading and writing the data of an inode\<close>

definition byte_to_sector :: "fsys \<Rightarrow> inode_disk \<Rightarrow> off_t \<Rightarrow> (block_sector_t \<times> fsys) option" where
  "byte_to_sector s d pos =
     (if pos > i_length d \<or> pos < 0 then Some (- 1, s)
      else
        let block_index = pos div 512;
            direct_limit = 122; indirect_limit = 122 + 128; doubly_indirect_limit = indirect_limit + 128 * 128 in
        if block_index < direct_limit then Some (direct_ptrs d ! nat block_index, s)
        else if block_index < indirect_limit then do {
          (b, s) \<leftarrow> cread s (indirect_ptr d);
          Some (bytes_words b ! nat (block_index - direct_limit), s) }
        else if block_index < doubly_indirect_limit then do {
          (b, s) \<leftarrow> cread s (doubly_indirect_ptr d);
          (b, s) \<leftarrow> cread s (bytes_words b ! nat ((block_index - indirect_limit) div 128));
          Some (bytes_words b ! nat ((block_index - indirect_limit) mod 128), s) }
        else Some (- 1, s))"

partial_function (option) inode_read_loop ::
  "fsys \<Rightarrow> inode_disk \<Rightarrow> bool \<Rightarrow> off_t \<Rightarrow> off_t \<Rightarrow> bytes \<Rightarrow> (bytes \<times> fsys) option" where
  "inode_read_loop s d bounce_ok sz offset buffer =
     (if sz > 0 then do {
        (sector_idx, s) \<leftarrow> byte_to_sector s d offset;
        let sector_ofs = offset smod 512;
        let inode_left = i_length d - offset;
        let sector_left = 512 - sector_ofs;
        let min_left = (if inode_left < sector_left then inode_left else sector_left);
        let chunk_size = (if sz < min_left then sz else min_left);
        if chunk_size \<le> 0 then Some (buffer, s)
        else if sector_ofs = 0 \<and> chunk_size = 512 then do {
          (b, s) \<leftarrow> cread s sector_idx;
          inode_read_loop s d bounce_ok (sz - chunk_size) (offset + chunk_size) (buffer @ b) }
        else if \<not> bounce_ok then Some (buffer, s)
        else do {
          (bounce, s) \<leftarrow> cread s sector_idx;
          inode_read_loop s d bounce_ok (sz - chunk_size) (offset + chunk_size)
            (buffer @ get_bytes bounce (nat sector_ofs) (nat chunk_size)) } }
      else Some (buffer, s))"

partial_function (option) inode_write_loop ::
  "fsys \<Rightarrow> inode_disk \<Rightarrow> bool \<Rightarrow> bytes \<Rightarrow> off_t \<Rightarrow> off_t \<Rightarrow> off_t \<Rightarrow> (off_t \<times> fsys) option" where
  "inode_write_loop s d bounce_ok buffer sz offset bytes_written =
     (if sz > 0 then do {
        (sector_idx, s) \<leftarrow> byte_to_sector s d offset;
        let sector_ofs = offset smod 512;
        let inode_left = i_length d - offset;
        let sector_left = 512 - sector_ofs;
        let min_left = (if inode_left < sector_left then inode_left else sector_left);
        let chunk_size = (if sz < min_left then sz else min_left);
        let chunk = take (nat chunk_size) (drop (nat bytes_written) buffer);
        if chunk_size \<le> 0 then Some (bytes_written, s)
        else if sector_ofs = 0 \<and> chunk_size = 512 then do {
          s \<leftarrow> cwrite s sector_idx chunk;
          inode_write_loop s d bounce_ok buffer (sz - chunk_size) (offset + chunk_size) (bytes_written + chunk_size) }
        else if \<not> bounce_ok then Some (bytes_written, s)
        else do {
          (bounce, s) \<leftarrow> (if sector_ofs > 0 \<or> chunk_size < sector_left then cread s sector_idx
                         else Some (empty_sector, s));
          s \<leftarrow> cwrite s sector_idx (put_bytes bounce (nat sector_ofs) chunk);
          inode_write_loop s d bounce_ok buffer (sz - chunk_size) (offset + chunk_size) (bytes_written + chunk_size) } }
      else Some (bytes_written, s))"

subsection \<open>Allocation of sectors and growth of inodes\<close>

text \<open>
  \<open>alloc\<close> stands for \<^verbatim>\<open>free_map_allocate (1, &p)\<close>: the sector stored in \<^verbatim>\<open>p\<close>, or \<open>None\<close> when
  it returns false. The loops that fill a range of pointers, in \<^verbatim>\<open>allocate_indirect_block\<close>
  and four times in \<^verbatim>\<open>inode_extend\<close>, are all \<open>alloc_range\<close>. A function that works on an
  \<^verbatim>\<open>inode_disk\<close> in place returns it updated, also when it fails half way.
\<close>

type_synonym allocator = "fsys \<Rightarrow> (block_sector_t option \<times> fsys) option"

fun alloc_range ::
  "allocator \<Rightarrow> nat \<Rightarrow> nat \<Rightarrow> fsys \<Rightarrow> block_sector_t list \<Rightarrow> (bool \<times> block_sector_t list \<times> fsys) option" where
  "alloc_range alloc 0 i s ptrs = Some (True, ptrs, s)"
| "alloc_range alloc (Suc n) i s ptrs = do {
     (r, s) \<leftarrow> alloc s;
     case r of
       None \<Rightarrow> Some (False, ptrs, s)
     | Some sec \<Rightarrow> do {
         s \<leftarrow> cwrite s sec empty_sector;
         alloc_range alloc n (Suc i) s (ptrs[i := sec]) } }"

definition allocate_indirect_block ::
  "allocator \<Rightarrow> fsys \<Rightarrow> block_sector_t list \<Rightarrow> off_t \<Rightarrow> off_t \<Rightarrow> (bool \<times> block_sector_t list \<times> fsys) option" where
  "allocate_indirect_block alloc s block start_index stop_index = do {
     ASSERT (start_index \<ge> 0);
     ASSERT (stop_index < 128);
     alloc_range alloc (nat (stop_index - start_index + 1)) (nat start_index) s block }"

fun extend_second_level ::
  "allocator \<Rightarrow> nat \<Rightarrow> off_t \<Rightarrow> off_t \<Rightarrow> off_t \<Rightarrow> off_t \<Rightarrow> off_t \<Rightarrow> fsys \<Rightarrow> block_sector_t list \<Rightarrow> (bool \<times> fsys) option" where
  "extend_second_level alloc 0 i min_first max_first curr_second new_second s dbl = Some (True, s)"
| "extend_second_level alloc (Suc n) i min_first max_first curr_second new_second s dbl = do {
     let lo = (if i = min_first then curr_second + 1 else 0);
     let hi = (if i = max_first then new_second else 128);
     (b, s) \<leftarrow> cread s (dbl ! nat i);
     (ok, block, s) \<leftarrow> allocate_indirect_block alloc s (bytes_words b) lo hi;
     if \<not> ok then Some (False, s)
     else do {
       s \<leftarrow> cwrite s (dbl ! nat i) (words_bytes block);
       extend_second_level alloc n (i + 1) min_first max_first curr_second new_second s dbl } }"

definition extend_direct ::
  "allocator \<Rightarrow> size_t \<Rightarrow> size_t \<Rightarrow> fsys \<Rightarrow> inode_disk \<Rightarrow> (bool \<times> size_t \<times> inode_disk \<times> fsys) option" where
  "extend_direct alloc cur new s d =
     (if cur < 122 then do {
        let limit = (if new \<ge> 122 then 122 else new);
        (ok, ptrs, s) \<leftarrow> alloc_range alloc (unat (limit - cur)) (unat cur) s (direct_ptrs d);
        Some (ok, if new \<ge> 122 then 122 else cur, d\<lparr>direct_ptrs := ptrs\<rparr>, s) }
      else Some (True, cur, d, s))"

definition extend_indirect ::
  "allocator \<Rightarrow> size_t \<Rightarrow> size_t \<Rightarrow> fsys \<Rightarrow> inode_disk \<Rightarrow> (bool \<times> size_t \<times> fsys) option" where
  "extend_indirect alloc cur new s d =
     (if cur < 250 \<and> new > 122 then do {
        (b, s) \<leftarrow> cread s (indirect_ptr d);
        let limit = (if new \<ge> 250 then 250 - 122 else new - 122);
        (ok, block, s) \<leftarrow> alloc_range alloc (unat limit - unat (cur - 122)) (unat (cur - 122)) s (bytes_words b);
        if \<not> ok then Some (False, cur, s)
        else do {
          s \<leftarrow> cwrite s (indirect_ptr d) (words_bytes block);
          Some (True, if new \<ge> 250 then 250 else cur, s) } }
      else Some (True, cur, s))"

definition extend_doubly ::
  "allocator \<Rightarrow> size_t \<Rightarrow> size_t \<Rightarrow> fsys \<Rightarrow> inode_disk \<Rightarrow> (bool \<times> fsys) option" where
  "extend_doubly alloc cur new s d =
     (if cur < 250 + 128 * 128 \<and> new > 250 then do {
        let new_first = sint (DIV_ROUND_UP (new - 250) 128 - 1);
        let new_second = sint ((new - 250) mod 128 - 1);
        let curr_first = sint (DIV_ROUND_UP (cur - 250) 128 - 1);
        let curr_second = sint ((cur - 250) mod 128 - 1);
        let min_first = curr_first + 1;
        let max_first = new_first;
        (b, s) \<leftarrow> cread s (doubly_indirect_ptr d);
        (ok, dbl, s) \<leftarrow> allocate_indirect_block alloc s (bytes_words b) min_first max_first;
        if \<not> ok then Some (False, s)
        else do {
          (ok, s) \<leftarrow> extend_second_level alloc (nat (max_first - min_first + 1)) min_first min_first max_first
                    curr_second new_second s dbl;
          if \<not> ok then Some (False, s)
          else do {
            s \<leftarrow> cwrite s (doubly_indirect_ptr d) (words_bytes dbl);
            Some (True, s) } } }
      else Some (True, s))"

definition inode_extend_with ::
  "allocator \<Rightarrow> fsys \<Rightarrow> inode_disk \<Rightarrow> off_t \<Rightarrow> (bool \<times> inode_disk \<times> fsys) option" where
  "inode_extend_with alloc s d len = do {
     ASSERT (len \<ge> 0);
     let cur = bytes_to_sectors (i_length d);
     let new = bytes_to_sectors len;
     if new < cur then Some (False, d, s)
     else if new = cur then Some (True, d, s)
     else if len > (122 + 128 + 128 * 122) * 512 \<or> len < i_length d then Some (False, d, s)
     else do {
       (ok, cur, d, s) \<leftarrow> extend_direct alloc cur new s d;
       if \<not> ok then Some (False, d, s)
       else do {
         (ok, cur, s) \<leftarrow> extend_indirect alloc cur new s d;
         if \<not> ok then Some (False, d, s)
         else do {
           (ok, s) \<leftarrow> extend_doubly alloc cur new s d;
           if \<not> ok then Some (False, d, s)
           else Some (True, d\<lparr>i_length := len\<rparr>, s) } } } }"

definition get_inode :: "fsys \<Rightarrow> block_sector_t \<Rightarrow> inode option" where
  "get_inode s k = find (\<lambda>i. i_sector i = k) (open_inodes s)"

definition upd_inode :: "fsys \<Rightarrow> block_sector_t \<Rightarrow> (inode \<Rightarrow> inode) \<Rightarrow> fsys" where
  "upd_inode s k f = s\<lparr>open_inodes := map (\<lambda>i. if i_sector i = k then f i else i) (open_inodes s)\<rparr>"

definition inode_write_at_with ::
  "allocator \<Rightarrow> bool \<Rightarrow> fsys \<Rightarrow> block_sector_t \<Rightarrow> bytes \<Rightarrow> off_t \<Rightarrow> off_t \<Rightarrow> (off_t \<times> fsys) option" where
  "inode_write_at_with alloc bounce_ok s k buffer sz offset = do {
     inode \<leftarrow> get_inode s k;
     if deny_write_cnt inode \<noteq> 0 then Some (0, s)
     else do {
       (sec, s) \<leftarrow> byte_to_sector s (i_data inode) (offset + sz - 1);
       (ok, d, s) \<leftarrow> (if sec = - 1 then do {
           (ok, d, s) \<leftarrow> inode_extend_with alloc s (i_data inode) (offset + sz);
           let d = (if ok then d\<lparr>i_length := offset + sz\<rparr> else d);
           let s = upd_inode s k (\<lambda>i. i\<lparr>i_data := d\<rparr>);
           if ok then do { s \<leftarrow> cwrite s (i_sector inode) (encode_inode d); Some (True, d, s) }
           else Some (False, d, s) }
         else Some (True, i_data inode, s));
       if \<not> ok then Some (0, s)
       else inode_write_loop s d bounce_ok buffer sz offset 0 } }"

definition free_map_write_with ::
  "(fsys \<Rightarrow> block_sector_t \<Rightarrow> bytes \<Rightarrow> off_t \<Rightarrow> off_t \<Rightarrow> (off_t \<times> fsys) option) \<Rightarrow> fsys \<Rightarrow> (bool \<times> fsys) option" where
  "free_map_write_with wr s = do {
     file \<leftarrow> free_map_file s;
     let size = unat (byte_cnt (bit_cnt (free_map s)));
     (n, s) \<leftarrow> wr s file (take size (words_bytes (bits (free_map s)))) (int size) 0;
     Some (n = int size, s) }"

definition free_map_allocate_with ::
  "(fsys \<Rightarrow> block_sector_t \<Rightarrow> bytes \<Rightarrow> off_t \<Rightarrow> off_t \<Rightarrow> (off_t \<times> fsys) option) \<Rightarrow> size_t \<Rightarrow> allocator" where
  "free_map_allocate_with wr cnt s = do {
     (sec, b) \<leftarrow> bitmap_scan_and_flip (free_map s) 0 cnt False;
     let s = s\<lparr>free_map := b\<rparr>;
     if sec \<noteq> BITMAP_ERROR \<and> free_map_file s \<noteq> None then do {
       (ok, s) \<leftarrow> free_map_write_with wr s;
       if \<not> ok then do {
         b \<leftarrow> bitmap_set_multiple (free_map s) sec cnt False;
         Some (None, s\<lparr>free_map := b\<rparr>) }
       else Some (Some sec, s) }
     else Some (if sec \<noteq> BITMAP_ERROR then Some sec else None, s) }"

text \<open>
  \<^verbatim>\<open>free_map_allocate\<close> writes the free map with \<^verbatim>\<open>inode_write_at\<close>, which could call
  \<^verbatim>\<open>free_map_allocate\<close> again; each nested call has marked one more sector, so one level
  for each bit of the map is enough.
\<close>

primrec free_map_allocate_n :: "bool \<Rightarrow> nat \<Rightarrow> size_t \<Rightarrow> allocator" where
  "free_map_allocate_n mem 0 cnt s = None"
| "free_map_allocate_n mem (Suc n) cnt s =
     free_map_allocate_with (inode_write_at_with (free_map_allocate_n mem n 1) mem) cnt s"

definition free_map_allocate :: "bool \<Rightarrow> size_t \<Rightarrow> allocator" where
  "free_map_allocate mem cnt s = free_map_allocate_n mem (Suc (Suc (unat (bit_cnt (free_map s))))) cnt s"

definition inode_extend :: "bool \<Rightarrow> fsys \<Rightarrow> inode_disk \<Rightarrow> off_t \<Rightarrow> (bool \<times> inode_disk \<times> fsys) option" where
  "inode_extend mem = inode_extend_with (free_map_allocate mem 1)"

definition inode_write_at ::
  "bool \<Rightarrow> fsys \<Rightarrow> block_sector_t \<Rightarrow> bytes \<Rightarrow> off_t \<Rightarrow> off_t \<Rightarrow> (off_t \<times> fsys) option" where
  "inode_write_at mem = inode_write_at_with (free_map_allocate mem 1) mem"

definition inode_read_at ::
  "bool \<Rightarrow> fsys \<Rightarrow> block_sector_t \<Rightarrow> off_t \<Rightarrow> off_t \<Rightarrow> (bytes \<times> fsys) option" where
  "inode_read_at mem s k sz offset = do {
     inode \<leftarrow> get_inode s k;
     inode_read_loop s (i_data inode) mem sz offset [] }"

definition free_map_release :: "bool \<Rightarrow> fsys \<Rightarrow> block_sector_t \<Rightarrow> size_t \<Rightarrow> fsys option" where
  "free_map_release mem s sec cnt = do {
     all \<leftarrow> bitmap_all (free_map s) sec cnt;
     ASSERT all;
     b \<leftarrow> bitmap_set_multiple (free_map s) sec cnt False;
     (_, s) \<leftarrow> free_map_write_with (inode_write_at mem) (s\<lparr>free_map := b\<rparr>);
     Some s }"

subsection \<open>Creating and releasing inodes\<close>

definition inode_alloc :: "bool \<Rightarrow> fsys \<Rightarrow> inode_disk \<Rightarrow> (bool \<times> inode_disk \<times> fsys) option" where
  "inode_alloc mem s d = do {
     (r, s) \<leftarrow> free_map_allocate mem 1 s;
     case r of
       None \<Rightarrow> Some (False, d, s)
     | Some p \<Rightarrow> do {
         let d = d\<lparr>indirect_ptr := p\<rparr>;
         s \<leftarrow> cwrite s p empty_sector;
         (r, s) \<leftarrow> free_map_allocate mem 1 s;
         case r of
           None \<Rightarrow> Some (False, d, s)
         | Some q \<Rightarrow> do {
             s \<leftarrow> cwrite s q empty_sector;
             Some (True, d\<lparr>doubly_indirect_ptr := q\<rparr>, s) } } }"

definition inode_create :: "bool \<Rightarrow> fsys \<Rightarrow> block_sector_t \<Rightarrow> off_t \<Rightarrow> bool \<Rightarrow> (bool \<times> fsys) option" where
  "inode_create mem s sec len dir = do {
     ASSERT (len \<ge> 0);
     if \<not> mem then Some (False, s)
     else do {
       let d = \<lparr>direct_ptrs = replicate DIRECT_PTRS 0, indirect_ptr = 0, doubly_indirect_ptr = 0,
                directory = dir, parent_node = 0, i_length = 0, magic = INODE_MAGIC\<rparr>;
       (success, d, s) \<leftarrow> inode_alloc mem s d;
       (ext, d, s) \<leftarrow> inode_extend mem s d len;
       s \<leftarrow> cwrite s sec (encode_inode d);
       Some (ext \<and> success, s) } }"

text \<open>
  The loops of \<^verbatim>\<open>inode_dealloc\<close> over an array of pointers: the slot is cleared and what is
  then in it is released. The flag of the result says that the count of blocks to release
  has reached zero; the count is a \<^verbatim>\<open>size_t\<close>, so \<^verbatim>\<open>blocks_to_deallocate <= 0\<close> tests for zero.
\<close>

fun release_ptrs ::
  "bool \<Rightarrow> nat \<Rightarrow> nat \<Rightarrow> block_sector_t list \<Rightarrow> size_t \<Rightarrow> fsys \<Rightarrow> (bool \<times> size_t \<times> fsys) option" where
  "release_ptrs mem 0 i ptrs blocks s = Some (False, blocks, s)"
| "release_ptrs mem (Suc n) i ptrs blocks s = do {
     let ptrs = ptrs[i := 0];
     s \<leftarrow> free_map_release mem s (ptrs ! i) 1;
     let blocks = blocks - 1;
     if blocks \<le> 0 then Some (True, blocks, s)
     else release_ptrs mem n (Suc i) ptrs blocks s }"

fun release_second_level ::
  "bool \<Rightarrow> nat \<Rightarrow> nat \<Rightarrow> block_sector_t \<Rightarrow> block_sector_t list \<Rightarrow> size_t \<Rightarrow> fsys \<Rightarrow> fsys option" where
  "release_second_level mem 0 i doubly_ptr dbl blocks s = Some s"
| "release_second_level mem (Suc n) i doubly_ptr dbl blocks s = do {
     (b, s) \<leftarrow> cread s (dbl ! i);
     (stop, blocks, s) \<leftarrow> release_ptrs mem INDIRECT_BLOCK_PTRS 0 (bytes_words b) blocks s;
     s \<leftarrow> free_map_release mem s (dbl ! i) 1;
     if stop then free_map_release mem s doubly_ptr 1
     else release_second_level mem n (Suc i) doubly_ptr dbl blocks s }"

definition inode_dealloc :: "bool \<Rightarrow> fsys \<Rightarrow> inode_disk \<Rightarrow> (bool \<times> fsys) option" where
  "inode_dealloc mem s d = do {
     let curr_num_blocks = bytes_to_sectors (i_length d);
     let blocks = bytes_to_sectors (i_length d);
     (stop, blocks, s) \<leftarrow> release_ptrs mem DIRECT_PTRS 0 (direct_ptrs d) blocks s;
     if stop then Some (True, s)
     else do {
       (stop, blocks, s) \<leftarrow> (if curr_num_blocks > 122 then do {
           (b, s) \<leftarrow> cread s (indirect_ptr d);
           (stop, blocks, s) \<leftarrow> release_ptrs mem INDIRECT_BLOCK_PTRS 0 (bytes_words b) blocks s;
           if stop then do { s \<leftarrow> free_map_release mem s (indirect_ptr d) 1; Some (True, blocks, s) }
           else Some (False, blocks, s) }
         else Some (False, blocks, s));
       if stop then Some (True, s)
       else if curr_num_blocks > 122 + 128 then do {
         (b, s) \<leftarrow> cread s (doubly_indirect_ptr d);
         s \<leftarrow> release_second_level mem INDIRECT_BLOCK_PTRS 0 (doubly_indirect_ptr d) (bytes_words b) blocks s;
         Some (True, s) }
       else Some (True, s) } }"

subsection \<open>The table of open inodes\<close>

definition inode_init :: "fsys \<Rightarrow> fsys" where
  "inode_init s = s\<lparr>open_inodes := []\<rparr>"

definition inode_reopen :: "fsys \<Rightarrow> block_sector_t \<Rightarrow> fsys" where
  "inode_reopen s k = upd_inode s k (\<lambda>i. i\<lparr>open_cnt := open_cnt i + 1\<rparr>)"

definition inode_open :: "bool \<Rightarrow> fsys \<Rightarrow> block_sector_t \<Rightarrow> (block_sector_t option \<times> fsys) option" where
  "inode_open mem s k = (case get_inode s k of
     Some inode \<Rightarrow> Some (Some k, inode_reopen s k)
   | None \<Rightarrow>
       if \<not> mem then Some (None, s)
       else do {
         (b, s) \<leftarrow> cread s k;
         Some (Some k, s\<lparr>open_inodes := \<lparr>i_sector = k, open_cnt = 1, removed = False, deny_write_cnt = 0,
                                       i_data = decode_inode b\<rparr> # open_inodes s\<rparr>) })"

definition inode_close :: "bool \<Rightarrow> fsys \<Rightarrow> block_sector_t \<Rightarrow> fsys option" where
  "inode_close mem s k = do {
     let s = upd_inode s k (\<lambda>i. i\<lparr>open_cnt := open_cnt i - 1\<rparr>);
     inode \<leftarrow> get_inode s k;
     if open_cnt inode = 0 then do {
       let s = s\<lparr>open_inodes := filter (\<lambda>i. i_sector i \<noteq> k) (open_inodes s)\<rparr>;
       if removed inode then do {
         s \<leftarrow> free_map_release mem s (i_sector inode) 1;
         (_, s) \<leftarrow> inode_dealloc mem s (i_data inode);
         Some s }
       else Some s }
     else Some s }"

definition inode_remove :: "fsys \<Rightarrow> block_sector_t \<Rightarrow> fsys option" where
  "inode_remove s k = do {
     _ \<leftarrow> get_inode s k;
     Some (upd_inode s k (\<lambda>i. i\<lparr>removed := True\<rparr>)) }"

definition inode_deny_write :: "fsys \<Rightarrow> block_sector_t \<Rightarrow> fsys option" where
  "inode_deny_write s k = do {
     let s = upd_inode s k (\<lambda>i. i\<lparr>deny_write_cnt := deny_write_cnt i + 1\<rparr>);
     inode \<leftarrow> get_inode s k;
     ASSERT (deny_write_cnt inode \<le> open_cnt inode);
     Some s }"

definition inode_allow_write :: "fsys \<Rightarrow> block_sector_t \<Rightarrow> fsys option" where
  "inode_allow_write s k = do {
     inode \<leftarrow> get_inode s k;
     ASSERT (deny_write_cnt inode > 0);
     ASSERT (deny_write_cnt inode \<le> open_cnt inode);
     Some (upd_inode s k (\<lambda>i. i\<lparr>deny_write_cnt := deny_write_cnt i - 1\<rparr>)) }"

definition inode_length :: "fsys \<Rightarrow> block_sector_t \<Rightarrow> off_t option" where
  "inode_length s k = do { inode \<leftarrow> get_inode s k; Some (i_length (i_data inode)) }"

definition inode_removed :: "fsys \<Rightarrow> block_sector_t \<Rightarrow> bool option" where
  "inode_removed s k = do { inode \<leftarrow> get_inode s k; Some (removed inode) }"

definition inode_is_dir :: "fsys \<Rightarrow> block_sector_t \<Rightarrow> bool option" where
  "inode_is_dir s k = do { inode \<leftarrow> get_inode s k; Some (directory (i_data inode)) }"

definition inode_get_inumber :: "fsys \<Rightarrow> block_sector_t \<Rightarrow> block_sector_t option" where
  "inode_get_inumber s k = do { inode \<leftarrow> get_inode s k; Some (i_sector inode) }"

definition inode_set_parent :: "fsys \<Rightarrow> block_sector_t \<Rightarrow> block_sector_t \<Rightarrow> fsys option" where
  "inode_set_parent s k p = do {
     parent_inode \<leftarrow> get_inode s p;
     Some (upd_inode s k (\<lambda>i. i\<lparr>i_data := (i_data i)\<lparr>parent_node := i_sector parent_inode\<rparr>\<rparr>)) }"

definition inode_set_disknode_directory :: "fsys \<Rightarrow> block_sector_t \<Rightarrow> bool \<Rightarrow> fsys" where
  "inode_set_disknode_directory s k is_dir =
     upd_inode s k (\<lambda>i. i\<lparr>i_data := (i_data i)\<lparr>directory := is_dir\<rparr>\<rparr>)"

definition inode_get_parent :: "fsys \<Rightarrow> block_sector_t \<Rightarrow> block_sector_t option" where
  "inode_get_parent s k = do { inode \<leftarrow> get_inode s k; Some (parent_node (i_data inode)) }"

subsection \<open>The free map file\<close>

definition FREE_MAP_SECTOR :: block_sector_t where "FREE_MAP_SECTOR = 0"

definition ROOT_DIR_SECTOR :: block_sector_t where "ROOT_DIR_SECTOR = 1"

definition free_map_init :: "bool \<Rightarrow> elem_type list option \<Rightarrow> fsys \<Rightarrow> fsys option" where
  "free_map_init got_struct got_bits s = do {
     r \<leftarrow> bitmap_create got_struct got_bits (block_size (devices (fs_cache s)) (fs_device (fs_cache s)));
     b \<leftarrow> r;
     b \<leftarrow> bitmap_mark b FREE_MAP_SECTOR;
     b \<leftarrow> bitmap_mark b ROOT_DIR_SECTOR;
     Some (s\<lparr>free_map := b\<rparr>) }"

end
