(* ===== verification/Inode_Data.thy ===== *)
theory Inode_Data
  imports Inode
begin

text \<open>
  What the data of an inode is, and that \<^verbatim>\<open>inode_read_at\<close> and \<^verbatim>\<open>inode_write_at\<close> read and
  write it. The content of a file is defined from the contents of the sectors through
  the direct, indirect and doubly indirect pointers; the operations work through the
  buffer cache. A chunk written must not land on one of the pointer blocks on the way to
  the data, nor on a second block of the file: that is the well-formedness of an inode.
\<close>

subsection \<open>Sectors as the file system sees them\<close>

definition sview :: "fsys \<Rightarrow> block_sector_t \<Rightarrow> bytes" where
  "sview s = view (fs_cache s)"

definition fs_ok :: "block_sector_t \<Rightarrow> fsys \<Rightarrow> bool" where
  "fs_ok sz s \<longleftrightarrow> cache_ok sz (fs_cache s) \<and> (\<forall>k < sz. length (sview s k) = BLOCK_SECTOR_SIZE)"

text \<open>\<open>moved sz s v s'\<close>: the step from \<open>s\<close> to \<open>s'\<close> changed the cache only, and the
  sectors are now as \<open>v\<close> says.\<close>

definition moved :: "block_sector_t \<Rightarrow> fsys \<Rightarrow> (block_sector_t \<Rightarrow> bytes) \<Rightarrow> fsys \<Rightarrow> bool" where
  "moved sz s v s' \<longleftrightarrow> fs_ok sz s' \<and> sview s' = v \<and> s' = s\<lparr>fs_cache := fs_cache s'\<rparr>
     \<and> fs_device (fs_cache s') = fs_device (fs_cache s)"

lemma moved_refl: "fs_ok sz s \<Longrightarrow> moved sz s (sview s) s"
  by (simp add: moved_def)

lemma moved_trans: "moved sz s v s' \<Longrightarrow> moved sz s' w s'' \<Longrightarrow> moved sz s w s''"
  unfolding moved_def by (cases s; cases s'; cases s''; simp)

lemma moved_ok: "moved sz s v s' \<Longrightarrow> fs_ok sz s' \<and> sview s' = v"
  by (simp add: moved_def)

lemma moved_fields:
  "moved sz s v s' \<Longrightarrow> free_map s' = free_map s \<and> free_map_file s' = free_map_file s \<and> open_inodes s' = open_inodes s"
  unfolding moved_def by (cases s; cases s'; simp)

lemma cread_ok:
  assumes "fs_ok sz s" "k < sz"
  shows "\<exists>s'. cread s k = Some (sview s k, s') \<and> moved sz s (sview s) s'"
proof -
  obtain c where "cache_read_at (fs_cache s) k = Some (view (fs_cache s) k, c)" "cache_ok sz c"
    "view c = view (fs_cache s)" "fs_device c = fs_device (fs_cache s)"
    using cache_read_at_ok [of sz "fs_cache s" k] assms by (auto simp: fs_ok_def)
  then show ?thesis
    using assms by (auto simp: cread_def moved_def fs_ok_def sview_def)
qed

lemma cwrite_ok:
  assumes "fs_ok sz s" "k < sz" "length b = BLOCK_SECTOR_SIZE"
  shows "\<exists>s'. cwrite s k b = Some s' \<and> moved sz s ((sview s)(k := b)) s'"
proof -
  obtain c where "cache_write_at (fs_cache s) k b = Some c" "cache_ok sz c"
    "view c = (view (fs_cache s))(k := b)" "fs_device c = fs_device (fs_cache s)"
    using cache_write_at_ok [of sz "fs_cache s" k b] assms by (auto simp: fs_ok_def)
  then show ?thesis
    using assms by (auto simp: cwrite_def moved_def fs_ok_def sview_def)
qed

subsection \<open>The content of a file\<close>

definition second_ptr :: "(block_sector_t \<Rightarrow> bytes) \<Rightarrow> inode_disk \<Rightarrow> nat \<Rightarrow> block_sector_t" where
  "second_ptr v d k = bytes_words (v (doubly_indirect_ptr d)) ! ((k - 250) div 128)"

definition sector_of :: "(block_sector_t \<Rightarrow> bytes) \<Rightarrow> inode_disk \<Rightarrow> nat \<Rightarrow> block_sector_t" where
  "sector_of v d k =
     (if k < 122 then direct_ptrs d ! k
      else if k < 250 then bytes_words (v (indirect_ptr d)) ! (k - 122)
      else bytes_words (v (second_ptr v d k)) ! ((k - 250) mod 128))"

definition byte_at :: "(block_sector_t \<Rightarrow> bytes) \<Rightarrow> inode_disk \<Rightarrow> nat \<Rightarrow> uint8_t" where
  "byte_at v d i = v (sector_of v d (i div 512)) ! (i mod 512)"

definition content :: "(block_sector_t \<Rightarrow> bytes) \<Rightarrow> inode_disk \<Rightarrow> bytes" where
  "content v d = map (byte_at v d) [0..<nat (i_length d)]"

definition nblocks :: "inode_disk \<Rightarrow> nat" where
  "nblocks d = (nat (i_length d) + 511) div 512"

text \<open>The pointer blocks that the way to block \<open>k\<close> leads through.\<close>

definition path :: "(block_sector_t \<Rightarrow> bytes) \<Rightarrow> inode_disk \<Rightarrow> nat \<Rightarrow> block_sector_t set" where
  "path v d k = (if k < 122 then {} else if k < 250 then {indirect_ptr d}
     else {doubly_indirect_ptr d, second_ptr v d k})"

definition wf_inode :: "block_sector_t \<Rightarrow> (block_sector_t \<Rightarrow> bytes) \<Rightarrow> inode_disk \<Rightarrow> bool" where
  "wf_inode sz v d \<longleftrightarrow> 0 \<le> i_length d \<and> nat (i_length d) div 512 < 250 + 128 * 128
     \<and> (\<forall>k \<le> nat (i_length d) div 512. \<forall>p \<in> path v d k. p < sz)
     \<and> (\<forall>k < nblocks d. sector_of v d k < sz)"

definition sep_inode :: "(block_sector_t \<Rightarrow> bytes) \<Rightarrow> inode_disk \<Rightarrow> bool" where
  "sep_inode v d \<longleftrightarrow> inj_on (sector_of v d) {..<nblocks d}
     \<and> (\<forall>k \<le> nat (i_length d) div 512. path v d k \<inter> sector_of v d ` {..<nblocks d} = {})"

lemma length_content [simp]: "length (content v d) = nat (i_length d)"
  by (simp add: content_def)

lemma block_in_file: "i < nat (i_length d) \<Longrightarrow> i div 512 < nblocks d"
  unfolding nblocks_def by linarith

lemma byte_to_sector_ok:
  assumes s: "fs_ok sz s" and d: "wf_inode sz (sview s) d" and pos: "0 \<le> pos" "pos \<le> i_length d"
  shows "\<exists>s'. byte_to_sector s d pos = Some (sector_of (sview s) d (nat pos div 512), s')
    \<and> moved sz s (sview s) s'"
proof -
  define k where "k = nat pos div 512"
  have kk: "pos div 512 = int k" "k \<le> nat (i_length d) div 512"
    using pos by (simp_all add: k_def nat_div_distrib zdiv_int div_le_mono)
  have path: "p < sz" if "p \<in> path (sview s) d k" for p
    using d kk that by (auto simp: wf_inode_def)
  have lim: "k < 250 + 128 * 128"
    using d kk by (simp add: wf_inode_def)
  consider "k < 122" | "122 \<le> k" "k < 250" | "250 \<le> k"
    by linarith
  then show ?thesis
  proof cases
    case 1
    then show ?thesis
      using pos kk moved_refl [OF s] by (simp add: byte_to_sector_def sector_of_def k_def [symmetric])
  next
    case 2
    then obtain s1 where s1: "cread s (indirect_ptr d) = Some (sview s (indirect_ptr d), s1)" "moved sz s (sview s) s1"
      using cread_ok [OF s, of "indirect_ptr d"] path [of "indirect_ptr d"] by (auto simp: path_def)
    moreover have "nat (int k - 122) = k - 122"
      by (simp add: nat_diff_distrib)
    ultimately show ?thesis
      using pos kk 2 by (simp add: byte_to_sector_def sector_of_def k_def [symmetric])
  next
    case 3
    then obtain s1 where s1: "cread s (doubly_indirect_ptr d) = Some (sview s (doubly_indirect_ptr d), s1)"
        "moved sz s (sview s) s1"
      using cread_ok [OF s, of "doubly_indirect_ptr d"] path [of "doubly_indirect_ptr d"] by (auto simp: path_def)
    with 3 obtain s2 where s2: "cread s1 (second_ptr (sview s) d k) = Some (sview s (second_ptr (sview s) d k), s2)"
        "moved sz s1 (sview s) s2"
      using cread_ok [of sz s1 "second_ptr (sview s) d k"] path [of "second_ptr (sview s) d k"] moved_ok [OF s1(2)]
      by (auto simp: path_def)
    have idx: "nat ((int k - 250) div 128) = (k - 250) div 128" "nat ((int k - 250) mod 128) = (k - 250) mod 128"
      using 3 by (simp_all add: nat_div_distrib nat_mod_distrib nat_diff_distrib)
    have "\<not> i_length d < pos" "\<not> pos < 0" "\<not> int k < 122" "\<not> int k < 250" "int k < 16634"
      "\<not> k < 122" "\<not> k < 250"
      using 3 lim pos by auto
    then have "byte_to_sector s d pos = Some (sector_of (sview s) d k, s2)"
      by (simp add: byte_to_sector_def kk(1) s1(1) idx sector_of_def s2(1) [unfolded second_ptr_def] second_ptr_def)
    then show ?thesis
      using moved_trans [OF s1(2) s2(2)] by (auto simp: k_def)
  qed
qed

lemma byte_to_sector_outside:
  "pos < 0 \<or> pos > i_length d \<Longrightarrow> byte_to_sector s d pos = Some (- 1, s)"
  by (auto simp: byte_to_sector_def)

lemma smod_512: "0 \<le> offset \<Longrightarrow> offset smod (512 :: int) = int (nat offset mod 512)"
  by (simp add: signed_modulo_int_def signed_divide_int_def sgn_if nat_mod_as_int minus_mult_div_eq_mod zmod_int)

lemma block_add:
  fixes q i n :: nat
  assumes "q mod n + i < n"
  shows "(q + i) div n = q div n" "(q + i) mod n = q mod n + i"
proof -
  have e: "((q mod n + i) + (q div n) * n) div n = q div n" "((q mod n + i) + (q div n) * n) mod n = q mod n + i"
    using assms by (simp_all only: div_mult_self1 mod_mult_self1 div_less mod_less)
  show "(q + i) div n = q div n" "(q + i) mod n = q mod n + i"
    using e by (simp_all add: add.commute [of _ "q div n * n"] add.assoc [symmetric])
qed

lemma same_block:
  fixes q i n m :: nat
  assumes "q mod n + m \<le> n"
  shows "q \<le> i \<and> i < q + m \<longleftrightarrow> i div n = q div n \<and> q mod n \<le> i mod n \<and> i mod n < q mod n + m" (is ?in)
    and "i div n = q div n \<Longrightarrow> i mod n - q mod n = i - q"
proof -
  have e: "i = n * (i div n) + i mod n" "q = n * (q div n) + q mod n"
    by simp_all
  then show "i div n = q div n \<Longrightarrow> i mod n - q mod n = i - q"
    by (metis diff_cancel2 add.commute)
  show ?in
  proof
    assume "q \<le> i \<and> i < q + m"
    then show "i div n = q div n \<and> q mod n \<le> i mod n \<and> i mod n < q mod n + m"
      using block_add [of q n "i - q"] assms by auto
  next
    assume "i div n = q div n \<and> q mod n \<le> i mod n \<and> i mod n < q mod n + m"
    moreover from this have "i = n * (q div n) + i mod n"
      using e(1) by metis
    ultimately show "q \<le> i \<and> i < q + m"
      using e(2) by linarith
  qed
qed

subsection \<open>Reading\<close>

text \<open>A chunk that lies within one sector and within the file.\<close>

lemma chunk_content:
  assumes "q + c \<le> nat (i_length d)" "q mod 512 + c \<le> 512"
    and "length (v (sector_of v d (q div 512))) = 512"
  shows "get_bytes (v (sector_of v d (q div 512))) (q mod 512) c = take c (drop q (content v d))"
proof (rule nth_equalityI)
  fix i
  assume "i < length (get_bytes (v (sector_of v d (q div 512))) (q mod 512) c)"
  then have i: "i < c"
    using assms by (simp add: get_bytes_def)
  have "(q + i) div 512 = q div 512" "(q + i) mod 512 = q mod 512 + i"
    using i assms(2) by (simp_all add: block_add)
  with i assms show "get_bytes (v (sector_of v d (q div 512))) (q mod 512) c ! i = take c (drop q (content v d)) ! i"
    by (simp add: get_bytes_def content_def byte_at_def)
qed (use assms in simp)

lemma sector_ok:
  assumes "fs_ok sz s" "wf_inode sz (sview s) d" "q < nat (i_length d)"
  shows "sector_of (sview s) d (q div 512) < sz" "length (sview s (sector_of (sview s) d (q div 512))) = 512"
  using assms block_in_file [OF assms(3)] by (simp_all add: fs_ok_def wf_inode_def BLOCK_SECTOR_SIZE_def)

text \<open>The number of bytes that one round of the loops copies.\<close>

definition chunk_size :: "inode_disk \<Rightarrow> int \<Rightarrow> nat \<Rightarrow> int" where
  "chunk_size d n q = min n (min (i_length d - int q) (512 - int (q mod 512)))"

lemma if_less_min: "(if a < b then a else b) = min a (b :: int)"
  by simp

lemma chunk_size_bounds:
  assumes "n > 0" "q < nat (i_length d)"
  shows "0 < chunk_size d n q" "chunk_size d n q \<le> n" "q + nat (chunk_size d n q) \<le> nat (i_length d)"
    "q mod 512 + nat (chunk_size d n q) \<le> 512"
  using assms unfolding chunk_size_def by (auto simp: min_def)

lemma inode_read_loop_stop:
  assumes "n > 0" "byte_to_sector s d (int q) = Some (k, s1)" "q \<ge> nat (i_length d)" "0 \<le> i_length d"
  shows "inode_read_loop s d True n (int q) buf = Some (buf, s1)"
  using assms by (subst inode_read_loop.simps) (auto simp: Let_def smod_512 if_less_min)

lemma inode_read_loop_step:
  assumes "n > 0" "byte_to_sector s d (int q) = Some (k, s1)" "q < nat (i_length d)"
    and "cread s1 k = Some (b, s2)" "length b = 512"
  shows "inode_read_loop s d True n (int q) buf =
    inode_read_loop s2 d True (n - chunk_size d n q) (int (q + nat (chunk_size d n q)))
      (buf @ get_bytes b (q mod 512) (nat (chunk_size d n q)))"
proof -
  define c where "c = chunk_size d n q"
  have c: "0 < c" "int (nat c) = c" "min n (min (i_length d - int q) (512 - int (q mod 512))) = c"
    using chunk_size_bounds(1) [OF assms(1,3)] by (simp_all only: c_def chunk_size_def nat_0_le less_imp_le)
  show ?thesis
  proof (cases "q mod 512 = 0 \<and> c = 512")
    case True
    then have "min n (min (i_length d - int q) 512) = 512"
      using c by simp
    then show ?thesis
      using assms True
      by (subst inode_read_loop.simps) (simp add: Let_def smod_512 if_less_min c_def [symmetric] get_bytes_def)
  next
    case False
    then show ?thesis
      using assms c by (subst inode_read_loop.simps) (auto simp: Let_def smod_512 if_less_min c_def [symmetric])
  qed
qed

lemma inode_read_loop_ok:
  assumes "fs_ok sz s" "wf_inode sz (sview s) d" "0 \<le> n"
  shows "\<exists>s'. inode_read_loop s d True n (int q) buf =
      Some (buf @ take (nat n) (drop q (content (sview s) d)), s') \<and> moved sz s (sview s) s'"
  using assms
proof (induction "nat n" arbitrary: n s q buf rule: less_induct)
  case less
  have len: "0 \<le> i_length d"
    using less.prems by (simp add: wf_inode_def)
  consider "n = 0" | "n > 0" "q > nat (i_length d)" | "n > 0" "q = nat (i_length d)" | "n > 0" "q < nat (i_length d)"
    using less.prems(3) by linarith
  then show ?case
  proof cases
    case 1
    then show ?thesis
      using moved_refl [OF less.prems(1)] by (subst inode_read_loop.simps) simp
  next
    case 2
    then show ?thesis
      using inode_read_loop_stop [of n s d q "- 1" s] byte_to_sector_outside [of "int q" d s] len
        moved_refl [OF less.prems(1)] by auto
  next
    case 3
    then show ?thesis
      using byte_to_sector_ok [OF less.prems(1,2), of "int q"] inode_read_loop_stop [of n s d q] len by auto
  next
    case 4
    let ?k = "sector_of (sview s) d (q div 512)"
    define c where "c = chunk_size d n q"
    have in_file: "int q \<le> i_length d"
      using 4 by linarith
    obtain s1 where s1: "byte_to_sector s d (int q) = Some (?k, s1)" "moved sz s (sview s) s1"
      using byte_to_sector_ok [OF less.prems(1,2), of "int q"] in_file by auto
    obtain s2 where s2: "cread s1 ?k = Some (sview s ?k, s2)" "moved sz s1 (sview s) s2"
      using cread_ok [of sz s1 ?k] moved_ok [OF s1(2)] sector_ok [OF less.prems(1,2) 4(2)] by auto
    have m: "moved sz s (sview s) s2" "fs_ok sz s2" "sview s2 = sview s"
      using moved_trans [OF s1(2) s2(2)] moved_ok [OF s2(2)] by auto
    have cs: "0 < c" "c \<le> n" "q + nat c \<le> nat (i_length d)" "q mod 512 + nat c \<le> 512"
      using chunk_size_bounds [OF 4] by (simp_all add: c_def)
    obtain s3 where s3: "inode_read_loop s2 d True (n - c) (int (q + nat c)) (buf @ get_bytes (sview s ?k) (q mod 512) (nat c)) =
        Some ((buf @ get_bytes (sview s ?k) (q mod 512) (nat c)) @ take (nat (n - c)) (drop (q + nat c) (content (sview s) d)), s3)"
        "moved sz s2 (sview s) s3"
      using less.hyps [of "n - c" s2 "q + nat c" "buf @ get_bytes (sview s ?k) (q mod 512) (nat c)"] less.prems(2) m(2,3) cs(1,2)
      by auto
    have "take (nat c) (drop q (content (sview s) d)) @ take (nat (n - c)) (drop (q + nat c) (content (sview s) d)) =
        take (nat n) (drop q (content (sview s) d))"
      using cs by (metis add.commute drop_drop nat_add_distrib take_add diff_add_cancel diff_ge_0_iff_ge less_imp_le)
    then have "inode_read_loop s d True n (int q) buf =
        Some (buf @ take (nat n) (drop q (content (sview s) d)), s3)"
      using s3(1) inode_read_loop_step [OF 4(1) s1(1) 4(2) s2(1)] sector_ok [OF less.prems(1,2) 4(2)]
        chunk_content [OF cs(3,4)] by (simp add: c_def)
    then show ?thesis
      using moved_trans [OF m(1) s3(2)] by blast
  qed
qed

subsection \<open>Writing\<close>

lemma path_cong:
  assumes "\<forall>p \<in> path v d j. v' p = v p"
  shows "sector_of v' d j = sector_of v d j" "path v' d j = path v d j"
  using assms by (auto simp: path_def sector_of_def second_ptr_def split: if_splits)

lemma nblocks_le: "j < nblocks d \<Longrightarrow> j \<le> nat (i_length d) div 512"
  unfolding nblocks_def by linarith

text \<open>Changing sectors that are not on the way to the data keeps the structure.\<close>

lemma inode_cong:
  assumes "\<forall>j \<le> nat (i_length d) div 512. \<forall>p \<in> path v d j. v' p = v p"
  shows "\<And>j. j \<le> nat (i_length d) div 512 \<Longrightarrow> sector_of v' d j = sector_of v d j"
    and "wf_inode sz v' d = wf_inode sz v d" "sep_inode v' d = sep_inode v d"
proof -
  have *: "sector_of v' d j = sector_of v d j" "path v' d j = path v d j" if "j \<le> nat (i_length d) div 512" for j
    using path_cong [of v d j v'] assms that by auto
  then show "\<And>j. j \<le> nat (i_length d) div 512 \<Longrightarrow> sector_of v' d j = sector_of v d j"
    by blast
  have img: "sector_of v' d ` {..<nblocks d} = sector_of v d ` {..<nblocks d}"
    "inj_on (sector_of v' d) {..<nblocks d} = inj_on (sector_of v d) {..<nblocks d}"
    using * nblocks_le [of _ d] by (auto intro!: image_cong simp: inj_on_def)
  show "wf_inode sz v' d = wf_inode sz v d" "sep_inode v' d = sep_inode v d"
    using * nblocks_le [of _ d] by (auto simp: wf_inode_def sep_inode_def img)
qed

lemma write_chunk:
  assumes sep: "sep_inode v d" and k: "k = sector_of v d (q div 512)" "length (v k) = 512"
    and bs: "bs \<noteq> []" "q + length bs \<le> nat (i_length d)" "q mod 512 + length bs \<le> 512"
  defines "v' \<equiv> v(k := put_bytes (v k) (q mod 512) bs)"
  shows "content v' d = put_bytes (content v d) q bs" "wf_inode sz v' d = wf_inode sz v d" "sep_inode v' d"
    "\<And>j. j < nblocks d \<Longrightarrow> sector_of v' d j = sector_of v d j"
    "\<And>i. nat (i_length d) \<le> i \<Longrightarrow> i div 512 < nblocks d \<Longrightarrow> byte_at v' d i = byte_at v d i"
proof -
  have q: "q div 512 < nblocks d"
    using bs by (intro block_in_file) (simp add: Suc_le_eq [symmetric] neq_Nil_conv, auto)
  have off: "\<forall>j \<le> nat (i_length d) div 512. \<forall>p \<in> path v d j. v' p = v p"
    using sep q by (auto simp: sep_inode_def v'_def k(1))
  show "wf_inode sz v' d = wf_inode sz v d" "sep_inode v' d"
    using inode_cong [OF off] sep by auto
  show so: "\<And>j. j < nblocks d \<Longrightarrow> sector_of v' d j = sector_of v d j"
    using inode_cong(1) [OF off] nblocks_le by blast
  have byte: "byte_at v' d i = (if q \<le> i \<and> i < q + length bs then bs ! (i - q) else byte_at v d i)"
    if i: "i div 512 < nblocks d" for i
  proof -
    have same: "sector_of v d (i div 512) = k \<longleftrightarrow> i div 512 = q div 512"
      using sep i q by (auto simp: sep_inode_def k inj_on_def)
    have "byte_at v' d i = v' (sector_of v d (i div 512)) ! (i mod 512)"
      by (simp add: byte_at_def so [OF i])
    also have "\<dots> = (if q \<le> i \<and> i < q + length bs then bs ! (i - q) else byte_at v d i)"
    proof (cases "i div 512 = q div 512")
      case True
      then show ?thesis
        using same_block [OF bs(3), of i] k bs(3) by (simp add: byte_at_def v'_def nth_put_bytes)
    next
      case False
      then show ?thesis
        using same_block(1) [OF bs(3), of i] same by (auto simp: byte_at_def v'_def)
    qed
    finally show ?thesis .
  qed
  show "\<And>i. nat (i_length d) \<le> i \<Longrightarrow> i div 512 < nblocks d \<Longrightarrow> byte_at v' d i = byte_at v d i"
    using byte bs(2) by simp
  show "content v' d = put_bytes (content v d) q bs"
  proof (rule nth_equalityI)
    fix i
    assume "i < length (content v' d)"
    then have i: "i < nat (i_length d)" "i div 512 < nblocks d"
      by (auto intro: block_in_file)
    have "put_bytes (content v d) q bs ! i = (if q \<le> i \<and> i < q + length bs then bs ! (i - q) else byte_at v d i)"
      using i bs by (simp add: nth_put_bytes) (simp add: content_def)
    then show "content v' d ! i = put_bytes (content v d) q bs ! i"
      using i byte by (simp add: content_def)
  qed (use bs in simp)
qed

lemma inode_write_loop_stop:
  assumes "n > 0" "byte_to_sector s d (int q) = Some (k, s1)" "q \<ge> nat (i_length d)" "0 \<le> i_length d"
  shows "inode_write_loop s d True buf n (int q) w = Some (w, s1)"
  using assms by (subst inode_write_loop.simps) (auto simp: Let_def smod_512 if_less_min)

text \<open>One round: whether the sector is written whole or read first, the chunk replaces the
  bytes it covers. (The branch that starts from a sector of zeros is never taken: a chunk
  that neither starts after the beginning of its sector nor ends before its end is a
  whole sector.)\<close>

lemma inode_write_loop_step:
  assumes n: "n > 0" and bts: "byte_to_sector s d (int q) = Some (k, s1)" and q: "q < nat (i_length d)"
    and s1: "fs_ok sz s1" "k < sz" and w: "n + int w \<le> int (length buf)"
  defines "c \<equiv> chunk_size d n q"
  shows "\<exists>s2. moved sz s1 ((sview s1)(k := put_bytes (sview s1 k) (q mod 512) (take (nat c) (drop w buf)))) s2
    \<and> inode_write_loop s d True buf n (int q) (int w) =
        inode_write_loop s2 d True buf (n - c) (int (q + nat c)) (int (w + nat c))"
proof -
  have c: "0 < c" "int (nat c) = c" "min n (min (i_length d - int q) (512 - int (q mod 512))) = c" "c \<le> n"
      "q mod 512 + nat c \<le> 512"
    using chunk_size_bounds [OF n q] by (simp_all only: c_def chunk_size_def nat_0_le less_imp_le)
  define z where "z = take (nat c) (drop w buf)"
  have z: "length z = nat c" "length (sview s1 k) = 512"
    using c w s1 by (auto simp: z_def fs_ok_def BLOCK_SECTOR_SIZE_def)
  show ?thesis
  proof (cases "q mod 512 = 0 \<and> c = 512")
    case True
    then have full: "min n (min (i_length d - int q) 512) = 512" "put_bytes (sview s1 k) (q mod 512) z = z" "length z = 512"
      using c z by simp_all
    obtain s2 where "cwrite s1 k z = Some s2" "moved sz s1 ((sview s1)(k := z)) s2"
      using cwrite_ok [OF s1, of z] full by (auto simp: BLOCK_SECTOR_SIZE_def)
    moreover from this have "inode_write_loop s d True buf n (int q) (int w) =
        inode_write_loop s2 d True buf (n - c) (int (q + nat c)) (int (w + nat c))"
      using True bts n full(1) unfolding z_def
      by (subst inode_write_loop.simps) (simp add: Let_def smod_512 if_less_min)
    ultimately show ?thesis
      using full by (auto simp: z_def)
  next
    case False
    have rd: "0 < q mod 512 \<or> c < 512 - int (q mod 512)"
      using False c(1,5) by linarith
    obtain s' where s': "cread s1 k = Some (sview s1 k, s')" "moved sz s1 (sview s1) s'"
      using cread_ok [OF s1] by blast
    obtain s2 where s2: "cwrite s' k (put_bytes (sview s1 k) (q mod 512) z) = Some s2"
        "moved sz s' ((sview s1)(k := put_bytes (sview s1 k) (q mod 512) z)) s2"
      using cwrite_ok [of sz s' k "put_bytes (sview s1 k) (q mod 512) z"] moved_ok [OF s'(2)] s1 z c(5)
      by (auto simp: BLOCK_SECTOR_SIZE_def)
    have "inode_write_loop s d True buf n (int q) (int w) =
        inode_write_loop s2 d True buf (n - c) (int (q + nat c)) (int (w + nat c))"
      using False bts n c(1-3) s2(1) rd unfolding z_def
      by (subst inode_write_loop.simps) (auto simp: Let_def smod_512 if_less_min s'(1))
    then show ?thesis
      using moved_trans [OF s'(2) s2(2)] by (auto simp: z_def)
  qed
qed

lemma put_bytes_append:
  "q + length a + length b \<le> length m \<Longrightarrow> put_bytes (put_bytes m q a) (q + length a) b = put_bytes m q (a @ b)"
  by (cases a) (simp_all add: put_bytes_def ac_simps)

lemma put_bytes_Nil [simp]: "put_bytes m q [] = m"
  by (simp add: put_bytes_def)

lemma min_split:
  fixes a c l q :: nat
  assumes "c \<le> a" "q + c \<le> l"
  shows "min a (l - q) = c + min (a - c) (l - (q + c))" "q + c + min (a - c) (l - (q + c)) \<le> l"
  using assms by arith+

text \<open>What writing \<open>bs\<close> at \<open>q\<close> does to the sectors: the content changes there, the inode
  stays well-formed, and no sector but the data sectors of the file changes.\<close>

definition wrote :: "block_sector_t \<Rightarrow> inode_disk \<Rightarrow> nat \<Rightarrow> bytes \<Rightarrow>
    (block_sector_t \<Rightarrow> bytes) \<Rightarrow> (block_sector_t \<Rightarrow> bytes) \<Rightarrow> bool" where
  "wrote sz d q bs v v' \<longleftrightarrow> content v' d = put_bytes (content v d) q bs \<and> wf_inode sz v' d \<and> sep_inode v' d
     \<and> (\<forall>j < nblocks d. sector_of v' d j = sector_of v d j)
     \<and> (\<forall>i. nat (i_length d) \<le> i \<and> i div 512 < nblocks d \<longrightarrow> byte_at v' d i = byte_at v d i)
     \<and> (\<forall>k. k \<notin> sector_of v d ` {..<nblocks d} \<longrightarrow> v' k = v k)"

lemma wrote_Nil: "wf_inode sz v d \<Longrightarrow> sep_inode v d \<Longrightarrow> wrote sz d q [] v v"
  by (simp add: wrote_def)

lemma wrote_append:
  assumes "wrote sz d q a v v'" "wrote sz d (q + length a) b v' v''" "q + length a + length b \<le> nat (i_length d)"
  shows "wrote sz d q (a @ b) v v''"
proof -
  have "sector_of v' d ` {..<nblocks d} = sector_of v d ` {..<nblocks d}"
    using assms(1) by (intro image_cong) (auto simp: wrote_def)
  then show ?thesis
    using assms by (simp add: wrote_def put_bytes_append)
qed

lemma wrote_chunk:
  assumes "wf_inode sz v d" "sep_inode v d" "k = sector_of v d (q div 512)" "length (v k) = 512"
    and "bs \<noteq> []" "q + length bs \<le> nat (i_length d)" "q mod 512 + length bs \<le> 512"
  shows "wrote sz d q bs v (v(k := put_bytes (v k) (q mod 512) bs))"
proof -
  have "q div 512 < nblocks d"
    using assms(5,6) by (intro block_in_file) (auto simp: neq_Nil_conv)
  then have "j \<noteq> k" if "j \<notin> sector_of v d ` {..<nblocks d}" for j
    using that assms(3) by auto
  then show ?thesis
    using write_chunk [OF assms(2-7)] assms(1) by (auto simp: wrote_def)
qed

lemma inode_write_loop_ok:
  assumes "fs_ok sz s" "wf_inode sz (sview s) d" "sep_inode (sview s) d" "0 \<le> n" "n + int w \<le> int (length buf)"
  shows "\<exists>s' v'. inode_write_loop s d True buf n (int q) (int w) =
        Some (int (w + min (nat n) (nat (i_length d) - q)), s')
    \<and> moved sz s v' s' \<and> wrote sz d q (take (min (nat n) (nat (i_length d) - q)) (drop w buf)) (sview s) v'"
  using assms
proof (induction "nat n" arbitrary: n s q w rule: less_induct)
  case less
  note wf = less.prems(1-3)
  have len: "0 \<le> i_length d"
    using wf by (simp add: wf_inode_def)
  note stay = moved_refl [OF wf(1)] wrote_Nil [OF wf(2,3)]
  consider "n = 0" | "n > 0" "q > nat (i_length d)" | "n > 0" "q = nat (i_length d)" | "n > 0" "q < nat (i_length d)"
    using less.prems(4) by linarith
  then show ?case
  proof cases
    case 1
    then show ?thesis
      using stay by (subst inode_write_loop.simps) auto
  next
    case 2
    then show ?thesis
      using inode_write_loop_stop [of n s d q "- 1" s] byte_to_sector_outside [of "int q" d s] len stay by auto
  next
    case 3
    then obtain s1 where s1: "byte_to_sector s d (int q) = Some (sector_of (sview s) d (q div 512), s1)" "moved sz s (sview s) s1"
      using byte_to_sector_ok [OF wf(1,2), of "int q"] len by auto
    then have "inode_write_loop s d True buf n (int q) (int w) = Some (int w, s1)"
      using inode_write_loop_stop [OF 3(1) s1(1) _ len] 3(2) by simp
    then show ?thesis
      using s1(2) stay(2) 3(2) by auto
  next
    case 4
    let ?k = "sector_of (sview s) d (q div 512)"
    define c where "c = nat (chunk_size d n q)"
    define z where "z = take c (drop w buf)"
    define v1 where "v1 = (sview s)(?k := put_bytes (sview s ?k) (q mod 512) z)"
    have cs: "0 < c" "int c \<le> n" "q + c \<le> nat (i_length d)" "q mod 512 + c \<le> 512" "chunk_size d n q = int c"
      using chunk_size_bounds [OF 4] by (simp_all add: c_def)
    obtain s1 where s1: "byte_to_sector s d (int q) = Some (?k, s1)" "moved sz s (sview s) s1"
      using byte_to_sector_ok [OF wf(1,2), of "int q"] 4 by fastforce
    have k: "?k < sz" "length (sview s ?k) = 512" "fs_ok sz s1" "sview s1 = sview s"
      using sector_ok [OF wf(1,2) 4(2)] moved_ok [OF s1(2)] by auto
    obtain s2 where s2: "moved sz s1 v1 s2"
        "inode_write_loop s d True buf n (int q) (int w) = inode_write_loop s2 d True buf (n - int c) (int (q + c)) (int (w + c))"
      using inode_write_loop_step [OF 4(1) s1(1) 4(2) k(3,1), of w buf] less.prems(5) k(4) cs(5)
      by (auto simp: v1_def z_def)
    have z: "length z = c" "z \<noteq> []"
      using cs less.prems(5) by (auto simp: z_def)
    have wr: "wrote sz d q z (sview s) v1"
      unfolding v1_def using wrote_chunk [OF wf(2,3) refl k(2) z(2)] z(1) cs by simp
    define m where "m = min (nat (n - int c)) (nat (i_length d) - (q + c))"
    obtain s3 v3 where s3: "inode_write_loop s2 d True buf (n - int c) (int (q + c)) (int (w + c)) = Some (int (w + c + m), s3)"
        "moved sz s2 v3 s3" "wrote sz d (q + c) (take m (drop (w + c) buf)) v1 v3"
      using less.hyps [of "n - int c" s2 "w + c" "q + c"] cs less.prems(5) moved_ok [OF s2(1)] wr
      by (auto simp: wrote_def m_def)
    have "nat (n - int c) = nat n - c"
      by (simp add: nat_diff_distrib')
    moreover have "c \<le> nat n"
      using cs(2) by simp
    ultimately have m: "min (nat n) (nat (i_length d) - q) = c + m" "q + c + m \<le> nat (i_length d)"
      using min_split [of c "nat n" q "nat (i_length d)"] cs(3) unfolding m_def by simp_all
    have bs: "take (c + m) (drop w buf) = z @ take m (drop (w + c) buf)" "length (take m (drop (w + c) buf)) \<le> m"
      by (simp_all add: z_def take_add add.commute)
    have "wrote sz d q (take (c + m) (drop w buf)) (sview s) v3"
      unfolding bs(1) by (rule wrote_append [OF wr]) (use s3(3) z(1) m(2) bs(2) in simp_all)
    then show ?thesis
      unfolding m(1) using s2(2) s3(1) moved_trans [OF s1(2) moved_trans [OF s2(1) s3(2)]] by (auto simp: add.assoc)
  qed
qed

subsection \<open>Reading and writing open inodes\<close>

definition open_file :: "block_sector_t \<Rightarrow> fsys \<Rightarrow> block_sector_t \<Rightarrow> inode_disk \<Rightarrow> bool" where
  "open_file sz s k d \<longleftrightarrow> fs_ok sz s \<and> wf_inode sz (sview s) d \<and> sep_inode (sview s) d
     \<and> (\<exists>i. get_inode s k = Some i \<and> i_data i = d \<and> deny_write_cnt i = 0)"

lemma inode_read_at_ok:
  assumes "open_file sz s k d" "0 \<le> offset" "0 \<le> n"
  shows "\<exists>s'. inode_read_at True s k n offset = Some (take (nat n) (drop (nat offset) (content (sview s) d)), s')
    \<and> moved sz s (sview s) s'"
  using inode_read_loop_ok [of sz s d n "nat offset" "[]"] assms by (auto simp: open_file_def inode_read_at_def)

lemma moved_get_inode: "moved sz s v s' \<Longrightarrow> get_inode s' k = get_inode s k"
  by (simp add: get_inode_def moved_fields)

lemma open_file_wrote:
  assumes "open_file sz s k d" "moved sz s v' s'" "wrote sz d q bs (sview s) v'"
  shows "open_file sz s' k d"
  using assms moved_ok [OF assms(2)] by (auto simp: open_file_def wrote_def moved_get_inode)

lemma not_minus_one: "(p :: block_sector_t) < sz \<Longrightarrow> p \<noteq> - 1"
  using word_order.extremum_strict by auto

lemma partial_block: "m mod 512 \<noteq> 0 \<Longrightarrow> m div 512 < (m + 511) div (512 :: nat)"
  using div_mult_mod_eq [of m 512] by linarith

text \<open>A write within the file, and the write that ends one byte behind it, do not grow it.\<close>

lemma inode_write_at_in_place:
  assumes f: "open_file sz s k d" and o: "0 \<le> offset" "0 < n" "n \<le> int (length buf)"
    and len: "nat (offset + n - 1) div 512 < nblocks d" "offset + n - 1 \<le> i_length d"
  defines "m \<equiv> min (nat n) (nat (i_length d) - nat offset)"
  shows "\<exists>s' v'. inode_write_at_with alloc True s k buf n offset = Some (int m, s')
    \<and> moved sz s v' s' \<and> wrote sz d (nat offset) (take m buf) (sview s) v' \<and> open_file sz s' k d"
proof -
  let ?p = "sector_of (sview s) d (nat (offset + n - 1) div 512)"
  obtain i where i: "get_inode s k = Some i" "i_data i = d" "deny_write_cnt i = 0"
    and ok: "fs_ok sz s" "wf_inode sz (sview s) d" "sep_inode (sview s) d"
    using f by (auto simp: open_file_def)
  obtain s1 where s1: "byte_to_sector s d (offset + n - 1) = Some (?p, s1)" "moved sz s (sview s) s1"
    using byte_to_sector_ok [OF ok(1,2), of "offset + n - 1"] o len by auto
  have p: "?p \<noteq> - 1"
    using ok(2) len(1) by (intro not_minus_one [of _ sz]) (simp add: wf_inode_def)
  obtain s2 v2 where s2: "inode_write_loop s1 d True buf n offset 0 = Some (int m, s2)" "moved sz s1 v2 s2"
      "wrote sz d (nat offset) (take m buf) (sview s) v2"
    using inode_write_loop_ok [of sz s1 d n 0 buf "nat offset"] moved_ok [OF s1(2)] ok o by (auto simp: m_def)
  have "inode_write_at_with alloc True s k buf n offset = Some (int m, s2)"
    using s1(1) s2(1) p by (simp add: inode_write_at_with_def i)
  then show ?thesis
    using moved_trans [OF s1(2) s2(2)] s2(3) open_file_wrote [OF f] by blast
qed

lemma inode_write_at_within:
  assumes "open_file sz s k d" "0 \<le> offset" "0 < n" "n = int (length buf)" "offset + n \<le> i_length d"
  shows "\<exists>s' v'. inode_write_at True s k buf n offset = Some (n, s') \<and> moved sz s v' s'
    \<and> wrote sz d (nat offset) buf (sview s) v' \<and> open_file sz s' k d"
proof -
  have "nat (offset + n - 1) < nat (i_length d)"
    using assms(2,3,5) by linarith
  then have m: "nat (offset + n - 1) div 512 < nblocks d" "offset + n - 1 \<le> i_length d"
      "min (nat n) (nat (i_length d) - nat offset) = nat n" "take (nat n) buf = buf"
    using assms(2-5) by (simp only: block_in_file, linarith, linarith, simp)
  show ?thesis
    using inode_write_at_in_place [OF assms(1-3) eq_refl [OF assms(4)] m(1,2), of "free_map_allocate True 1"]
      nat_0_le [of n] less_imp_le [OF assms(3)]
    unfolding m(3,4) inode_write_at_def by auto
qed

subsection \<open>The inode on disk\<close>

lemma length_encode_inode: "length (direct_ptrs d) = DIRECT_PTRS \<Longrightarrow> length (encode_inode d) = BLOCK_SECTOR_SIZE"
  by (simp add: encode_inode_def DIRECT_PTRS_def BLOCK_SECTOR_SIZE_def)

lemma sint_of_int_32: "- (2 ^ 31) \<le> x \<Longrightarrow> x < 2 ^ 31 \<Longrightarrow> sint (word_of_int x :: uint32_t) = x"
  by (simp add: int_word_sint)

lemma decode_encode_inode:
  assumes "length (direct_ptrs d) = DIRECT_PTRS" "- (2 ^ 31) \<le> i_length d" "i_length d < 2 ^ 31"
  shows "decode_inode (encode_inode d) = d"
  using assms
  by (simp add: decode_inode_def encode_inode_def nth_append DIRECT_PTRS_def sint_of_int_32)

subsection \<open>A small file system\<close>

text \<open>Twenty sectors: the free map's inode in sector 0 with its data in sector 2 and its
  pointer blocks in sectors 3 and 4; a file of 700 bytes in sector 5 with its data in
  sectors 6 and 7 and its pointer blocks in sectors 8 and 9.\<close>

definition sample_map_inode :: inode_disk where
  "sample_map_inode = \<lparr>direct_ptrs = 2 # replicate 121 0, indirect_ptr = 3, doubly_indirect_ptr = 4,
     directory = False, parent_node = 0, i_length = 4, magic = INODE_MAGIC\<rparr>"

definition sample_inode :: inode_disk where
  "sample_inode = \<lparr>direct_ptrs = 6 # 7 # replicate 120 0, indirect_ptr = 8, doubly_indirect_ptr = 9,
     directory = False, parent_node = 1, i_length = 700, magic = INODE_MAGIC\<rparr>"

definition sample_fs :: fsys where
  "sample_fs = \<lparr>fs_cache = filesys_cache_init sample_cache, free_map = \<lparr>bit_cnt = 20, bits = [0x3FF]\<rparr>,
     free_map_file = Some 0,
     open_inodes = [
       \<lparr>i_sector = 5, open_cnt = 1, removed = False, deny_write_cnt = 0, i_data = sample_inode\<rparr>,
       \<lparr>i_sector = 0, open_cnt = 1, removed = False, deny_write_cnt = 0, i_data = sample_map_inode\<rparr>]\<rparr>"

lemma sview_sample_fs: "sview sample_fs = (\<lambda>_. replicate 512 0)"
proof -
  have "view (filesys_cache_init sample_cache) = contents (devices sample_cache) (fs_device sample_cache)"
    using filesys_cache_init_ok [of sample_cache 20] sample_disk_ok by (simp add: sample_cache_def CACHE_BLOCKS_def)
  then show ?thesis
    by (simp add: sview_def sample_fs_def sample_cache_def contents_def sample_disk_def fun_eq_iff)
qed

lemma length_sample_inode [simp]: "i_length sample_inode = 700"
  by (simp add: sample_inode_def)

lemma sample_fs_ok: "fs_ok 20 sample_fs"
  unfolding fs_ok_def sview_sample_fs using sample_cache_ok by (simp add: sample_fs_def BLOCK_SECTOR_SIZE_def)

lemma sample_open_file: "open_file 20 sample_fs 5 sample_inode"
proof -
  have "sector_of (sview sample_fs) sample_inode 0 = 6" "sector_of (sview sample_fs) sample_inode 1 = 7"
    by (simp_all add: sector_of_def sample_inode_def)
  moreover have "path (sview sample_fs) sample_inode k = {}" if "k \<le> 1" for k
    using that by (simp add: path_def)
  moreover have "nblocks sample_inode = 2" "nat (i_length sample_inode) div 512 = 1" "{..<2 :: nat} = {0, 1}"
    by (auto simp: nblocks_def sample_inode_def)
  ultimately have "wf_inode 20 (sview sample_fs) sample_inode" "sep_inode (sview sample_fs) sample_inode"
    by (simp_all add: wf_inode_def sep_inode_def less_2_cases_iff inj_on_def sample_inode_def)
  then show ?thesis
    using sample_fs_ok by (simp add: open_file_def get_inode_def) (simp add: sample_fs_def)
qed

subsection \<open>Properties\<close>

text \<open>C19: \<^verbatim>\<open>inode_read_at\<close> returns exactly the bytes of the file from the offset on, cut off
  at the end of the file, through direct, indirect and doubly indirect pointers alike, and
  reading changes no sector and nothing else of the file system.\<close>

theorem inode_read_at_content:
  assumes "open_file sz s k d" "0 \<le> offset" "0 \<le> n"
  shows "\<exists>s'. inode_read_at True s k n offset = Some (take (nat n) (drop (nat offset) (content (sview s) d)), s')
    \<and> sview s' = sview s \<and> free_map s' = free_map s \<and> open_inodes s' = open_inodes s"
proof -
  obtain s' where "inode_read_at True s k n offset = Some (take (nat n) (drop (nat offset) (content (sview s) d)), s')"
      "moved sz s (sview s) s'"
    using inode_read_at_ok [OF assms] by blast
  then show ?thesis
    using moved_ok [of sz s "sview s" s'] moved_fields [of sz s "sview s" s'] by auto
qed

theorem inode_read_at_content_witness:
  "\<exists>s'. inode_read_at True sample_fs 5 300 600 = Some (replicate 100 0, s') \<and> sview s' = sview sample_fs"
proof -
  have "byte_at (sview sample_fs) sample_inode i = 0" if "i < 700" for i
    unfolding byte_at_def sview_sample_fs by simp
  then have "content (sview sample_fs) sample_inode = replicate 700 0"
    by (intro nth_equalityI) (simp_all add: content_def)
  then show ?thesis
    using inode_read_at_content [OF sample_open_file, of 600 300] by auto
qed

text \<open>C18: a write that stays within the file stores all its bytes at the offset and
  changes no other byte of the file, no sector that is not a data sector of the file (so no
  other file, no pointer block and no inode), and neither the free map nor the length;
  reading the same range back gives the bytes written.\<close>

theorem inode_write_at_content:
  assumes "open_file sz s k d" "0 \<le> offset" "0 < n" "n = int (length buf)" "offset + n \<le> i_length d"
  shows "\<exists>s'. inode_write_at True s k buf n offset = Some (n, s')
    \<and> content (sview s') d = put_bytes (content (sview s) d) (nat offset) buf
    \<and> (\<forall>p. p \<notin> sector_of (sview s) d ` {..<nblocks d} \<longrightarrow> sview s' p = sview s p)
    \<and> free_map s' = free_map s \<and> open_inodes s' = open_inodes s \<and> open_file sz s' k d
    \<and> (\<exists>s''. inode_read_at True s' k n offset = Some (buf, s''))"
proof -
  obtain s' v' where s': "inode_write_at True s k buf n offset = Some (n, s')" "moved sz s v' s'"
      "wrote sz d (nat offset) buf (sview s) v'" "open_file sz s' k d"
    using inode_write_at_within [OF assms] by blast
  have v': "sview s' = v'" "free_map s' = free_map s" "open_inodes s' = open_inodes s"
    using moved_ok [OF s'(2)] moved_fields [OF s'(2)] by auto
  have content: "content v' d = put_bytes (content (sview s) d) (nat offset) buf"
    using s'(3) by (simp add: wrote_def)
  have "get_bytes (content v' d) (nat offset) (length buf) = buf"
    unfolding content using assms(2,4,5) by (intro get_put_bytes) simp
  then have "\<exists>s''. inode_read_at True s' k n offset = Some (buf, s'')"
    using inode_read_at_ok [OF s'(4) assms(2), of n] assms(3,4) v'(1) by (auto simp: get_bytes_def)
  then show ?thesis
    using s' v' content by (auto simp: wrote_def)
qed

theorem inode_write_at_content_witness:
  "\<exists>s'. inode_write_at True sample_fs 5 [1, 2, 3, 4] 4 510 = Some (4, s')
    \<and> content (sview s') sample_inode = put_bytes (content (sview sample_fs) sample_inode) 510 [1, 2, 3, 4]"
proof -
  have "(0 :: int) \<le> 510" "(0 :: int) < 4" "4 = int (length [1, 2, 3, 4 :: uint8_t])"
      "510 + (4 :: int) \<le> i_length sample_inode"
    by simp_all
  from inode_write_at_content [OF sample_open_file this] show ?thesis
    by (simp only: nat_numeral) blast
qed

text \<open>C34: a write that ends exactly one byte behind the end of the file does not grow it, since
  \<^verbatim>\<open>byte_to_sector\<close> accepts the position equal to the length: the last byte is dropped, so
  appending a single byte to a file whose last sector is partly filled writes nothing and
  returns 0.\<close>

theorem inode_append_byte_lost:
  assumes "open_file sz s k d" "i_length d mod 512 \<noteq> 0"
  shows "\<exists>s'. inode_write_at True s k [b] 1 (i_length d) = Some (0, s')
    \<and> content (sview s') d = content (sview s) d \<and> open_file sz s' k d"
proof -
  have "0 \<le> i_length d"
    using assms(1) by (simp add: open_file_def wf_inode_def)
  moreover from this have "nat (i_length d) mod 512 \<noteq> 0"
    using assms(2) by (simp add: nat_mod_as_int)
  then have "nat (i_length d) div 512 < nblocks d"
    using partial_block by (simp add: nblocks_def)
  ultimately obtain s' v' where s': "inode_write_at True s k [b] 1 (i_length d) = Some (0, s')" "moved sz s v' s'"
      "wrote sz d (nat (i_length d)) [] (sview s) v'" "open_file sz s' k d"
    using inode_write_at_in_place [OF assms(1), of "i_length d" 1 "[b]" "free_map_allocate True 1"]
    by (auto simp: inode_write_at_def)
  then show ?thesis
    using moved_ok [OF s'(2)] by (auto simp: wrote_def)
qed

theorem inode_append_byte_lost_witness:
  "\<exists>s'. inode_write_at True sample_fs 5 [42] 1 700 = Some (0, s')"
  using inode_append_byte_lost [OF sample_open_file, of 42] by (auto simp: sample_inode_def)

text \<open>the on-disk form of an inode fills one sector and reading it back gives the same
  inode, for every length that fits in \<^verbatim>\<open>off_t\<close>.\<close>

theorem inode_disk_roundtrip:
  assumes "length (direct_ptrs d) = DIRECT_PTRS" "- (2 ^ 31) \<le> i_length d" "i_length d < 2 ^ 31"
  shows "length (encode_inode d) = BLOCK_SECTOR_SIZE \<and> decode_inode (encode_inode d) = d"
  using decode_encode_inode [OF assms] length_encode_inode [OF assms(1)] by simp

theorem inode_disk_roundtrip_witness:
  "decode_inode (encode_inode sample_inode) = sample_inode"
  using inode_disk_roundtrip [of sample_inode] by (simp add: sample_inode_def DIRECT_PTRS_def)

end
