(* ===== verification/Free_Map.thy ===== *)
theory Free_Map
  imports Inode_Data
begin

text \<open>
  The free map as the source of sectors for growing files. The interface
  \<open>sector_source\<close> states what \<^verbatim>\<open>inode_extend\<close> needs of \<^verbatim>\<open>free_map_allocate (1, &p)\<close>: a
  sector that was free, is now in use, and whose allocation changed no sector but those of
  the free map's own file. The interpretation shows it for the model of
  \<^verbatim>\<open>filesys/free-map.c\<close>, which writes the whole map to its file at each allocation.
\<close>

subsection \<open>The interface\<close>

locale sector_source =
  fixes alloc :: allocator and sz :: block_sector_t and ok :: "fsys \<Rightarrow> bool"
    and in_use :: "fsys \<Rightarrow> block_sector_t \<Rightarrow> bool" and own :: "block_sector_t set" and home :: block_sector_t
  assumes ok_fs: "ok s \<Longrightarrow> fs_ok sz s"
    and own_in_use: "ok s \<Longrightarrow> k \<in> own \<Longrightarrow> in_use s k"
    and alloc_total: "ok s \<Longrightarrow> \<exists>r s'. alloc s = Some (r, s')"
    and alloc_None: "ok s \<Longrightarrow> alloc s = Some (None, s') \<Longrightarrow> s' = s \<and> (\<forall>p < sz. in_use s p)"
    and alloc_Some: "ok s \<Longrightarrow> alloc s = Some (Some q, s') \<Longrightarrow>
      ok s' \<and> q < sz \<and> \<not> in_use s q \<and> in_use s' = (in_use s)(q := True) \<and> open_inodes s' = open_inodes s
      \<and> (\<forall>k. k \<notin> own \<longrightarrow> sview s' k = sview s k)"
    and other_write: "ok s \<Longrightarrow> moved sz s v s' \<Longrightarrow> \<forall>k \<in> own. v k = sview s k \<Longrightarrow> ok s' \<and> in_use s' = in_use s"
    and other_inode: "ok s \<Longrightarrow> k \<noteq> home \<Longrightarrow> (\<And>i. i_sector (g i) = i_sector i) \<Longrightarrow>
      ok (upd_inode s k g) \<and> in_use (upd_inode s k g) = in_use s"

subsection \<open>The free map\<close>

definition used :: "fsys \<Rightarrow> block_sector_t \<Rightarrow> bool" where
  "used s p \<longleftrightarrow> p < bit_cnt (free_map s) \<and> bit_list (free_map s) ! unat p"

text \<open>The sectors of an inode: its data and the pointer blocks on the way.\<close>

definition inode_sectors :: "(block_sector_t \<Rightarrow> bytes) \<Rightarrow> inode_disk \<Rightarrow> block_sector_t set" where
  "inode_sectors v d = sector_of v d ` {..<nblocks d} \<union> (\<Union>k \<le> nat (i_length d) div 512. path v d k)"

lemma bitmap_set_length: "bitmap_set b i v = Some b' \<Longrightarrow> length (bits b') = length (bits b)"
  by (auto simp: bitmap_set_def bitmap_mark_def bitmap_reset_def store_elem_def
      split: if_splits Option.bind_split_asm)

lemma bitmap_set_multiple_length: "bitmap_set_multiple b start n v = Some b' \<Longrightarrow> length (bits b') = length (bits b)"
proof -
  have "for_loop k (\<lambda>i b. bitmap_set b (start + of_nat i) v) b = Some b' \<Longrightarrow> length (bits b') = length (bits b)" for k b'
    by (induction k arbitrary: b') (auto split: Option.bind_split_asm dest: bitmap_set_length)
  then show "bitmap_set_multiple b start n v = Some b' \<Longrightarrow> length (bits b') = length (bits b)"
    by (auto simp: bitmap_set_multiple_def split: Option.bind_split_asm)
qed

lemma bitmap_scan_and_flip_length:
  "bitmap_scan_and_flip b start n v = Some (i, b') \<Longrightarrow> length (bits b') = length (bits b)"
  by (auto simp: bitmap_scan_and_flip_def split: if_splits Option.bind_split_asm dest: bitmap_set_multiple_length)

text \<open>\<open>f\<close> is the sector of the free map's inode, \<open>m\<close> the inode, \<open>own\<close> its sectors.\<close>

definition map_ok :: "block_sector_t \<Rightarrow> block_sector_t \<Rightarrow> inode_disk \<Rightarrow> block_sector_t set \<Rightarrow> fsys \<Rightarrow> bool" where
  "map_ok sz f m own s \<longleftrightarrow> open_file sz s f m \<and> free_map_file s = Some f
     \<and> wf_bitmap (free_map s) \<and> bit_cnt (free_map s) = sz \<and> length (bits (free_map s)) = unat (elem_cnt sz)
     \<and> 0 < sz \<and> unat sz + 31 < 2 ^ 32
     \<and> i_length m = int (unat (byte_cnt sz)) \<and> inode_sectors (sview s) m = own \<and> (\<forall>p \<in> own. used s p)"

text \<open>The file of the free map holds the map.\<close>

definition map_saved :: "inode_disk \<Rightarrow> fsys \<Rightarrow> bool" where
  "map_saved m s \<longleftrightarrow> content (sview s) m = take (unat (byte_cnt (bit_cnt (free_map s)))) (words_bytes (bits (free_map s)))"

lemma inode_sectors_cong:
  assumes "\<forall>k \<in> inode_sectors v d - sector_of v d ` {..<nblocks d}. v' k = v k" "sep_inode v d"
  shows "inode_sectors v' d = inode_sectors v d" "wf_inode sz v' d = wf_inode sz v d" "sep_inode v' d"
proof -
  have "\<forall>j \<le> nat (i_length d) div 512. \<forall>p \<in> path v d j. v' p = v p"
    using assms unfolding sep_inode_def inode_sectors_def by blast
  note c = inode_cong [OF this] and p = path_cong [of v d _ v'] and this
  then have "path v' d j = path v d j" if "j \<le> nat (i_length d) div 512" for j
    using that by blast
  then show "inode_sectors v' d = inode_sectors v d"
    unfolding inode_sectors_def using c(1) nblocks_le by (intro arg_cong2 [of _ _ _ _ "(\<union>)"] image_cong SUP_cong) auto
  show "wf_inode sz v' d = wf_inode sz v d" "sep_inode v' d"
    using c assms by auto
qed

lemma map_file_size:
  assumes "wf_bitmap b" "bit_cnt b = sz" "unat sz + 31 < 2 ^ 32"
  shows "length (take (unat (byte_cnt sz)) (words_bytes (bits b))) = unat (byte_cnt sz)"
  using assms by (simp add: wf_bitmap_def unat_byte_cnt)

lemma byte_cnt_pos: "0 < sz \<Longrightarrow> unat sz + 31 < 2 ^ 32 \<Longrightarrow> 0 < unat (byte_cnt sz)"
  by (simp add: unat_byte_cnt word_less_nat_alt)

text \<open>Writing the map to its file stays within the file, so it takes no sector; what is
  passed as the allocator does not matter.\<close>

lemma free_map_write_ok:
  assumes f: "open_file sz s f m" "free_map_file s = Some f" and b: "wf_bitmap (free_map s)" "bit_cnt (free_map s) = sz"
    and sz: "0 < sz" "unat sz + 31 < 2 ^ 32" and len: "i_length m = int (unat (byte_cnt sz))"
  shows "\<exists>s' v'. free_map_write_with (inode_write_at_with alloc True) s = Some (True, s') \<and> moved sz s v' s'
    \<and> wrote sz m 0 (take (unat (byte_cnt sz)) (words_bytes (bits (free_map s)))) (sview s) v'"
proof -
  define n where "n = unat (byte_cnt sz)"
  define buf where "buf = take n (words_bytes (bits (free_map s)))"
  have n: "0 < n" "length buf = n" "nat (i_length m) = n"
    using byte_cnt_pos [OF sz] map_file_size [OF b sz(2)] len by (simp_all add: n_def buf_def)
  have "(n - 1) div 512 < nblocks m"
    using n by (intro block_in_file) simp
  moreover have "nat (0 + int n - 1) = n - 1"
    by simp
  ultimately obtain s' v' where "inode_write_at_with alloc True s f buf (int n) 0 = Some (int n, s')"
      "moved sz s v' s'" "wrote sz m 0 buf (sview s) v'"
    using inode_write_at_in_place [OF f(1), of 0 "int n" buf alloc] n len by (auto simp: n_def [symmetric])
  then show ?thesis
    using f(2) b(2) by (auto simp: free_map_write_with_def n_def [symmetric] buf_def [symmetric])
qed

lemma map_ok_written:
  assumes ok: "map_ok sz f m own s" and b: "wf_bitmap b" "bit_cnt b = sz" "length (bits b) = length (bits (free_map s))"
    and used: "\<forall>p \<in> own. used (s\<lparr>free_map := b\<rparr>) p"
    and s': "moved sz (s\<lparr>free_map := b\<rparr>) v' s'" "wrote sz m 0 bs (sview s) v'"
  shows "map_ok sz f m own s'" "open_inodes s' = open_inodes s" "free_map s' = b" "\<And>k. k \<notin> own \<Longrightarrow> sview s' k = sview s k"
proof -
  have v: "\<forall>k. k \<notin> sector_of (sview s) m ` {..<nblocks m} \<longrightarrow> sview s' k = sview s k" "sep_inode (sview s) m"
    using s' moved_ok [OF s'(1)] ok by (auto simp: wrote_def map_ok_def open_file_def)
  have fs: "free_map s' = b" "open_inodes s' = open_inodes s" "free_map_file s' = free_map_file s"
    using moved_fields [OF s'(1)] by simp_all
  then show "open_inodes s' = open_inodes s" "free_map s' = b"
    by simp_all
  have own: "inode_sectors (sview s') m = own"
    using inode_sectors_cong(1) [of "sview s" m "sview s'"] v ok by (auto simp: map_ok_def)
  show "\<And>k. k \<notin> own \<Longrightarrow> sview s' k = sview s k"
    using v(1) ok by (auto simp: map_ok_def inode_sectors_def)
  have u: "used s' = used (s\<lparr>free_map := b\<rparr>)"
    by (simp add: used_def fun_eq_iff fs)
  have "open_file sz (s\<lparr>free_map := b\<rparr>) f m"
    using ok moved_refl by (auto simp: map_ok_def open_file_def fs_ok_def sview_def get_inode_def)
  then have "open_file sz s' f m"
    using open_file_wrote [OF _ s'(1)] s'(2) by (auto simp: sview_def)
  then show "map_ok sz f m own s'"
    using ok b own used by (simp add: map_ok_def fs u)
qed

lemma map_saved_written:
  assumes ok: "map_ok sz f m own s" and b: "wf_bitmap b" "bit_cnt b = sz"
    and s': "moved sz (s\<lparr>free_map := b\<rparr>) v' s'" "wrote sz m 0 (take (unat (byte_cnt sz)) (words_bytes (bits b))) (sview s) v'"
  shows "map_saved m s'"
proof -
  have "length (take (unat (byte_cnt sz)) (words_bytes (bits b))) = unat (byte_cnt sz)"
    using map_file_size [OF b] ok by (simp add: map_ok_def)
  then have "content v' m = take (unat (byte_cnt sz)) (words_bytes (bits b))"
    using s'(2) ok put_bytes_all [of "take (unat (byte_cnt sz)) (words_bytes (bits b))" "content (sview s) m"]
    by (simp add: wrote_def map_ok_def del: length_take)
  then show ?thesis
    using moved_ok [OF s'(1)] moved_fields [OF s'(1)] b(2) by (simp add: map_saved_def)
qed

lemma used_set:
  assumes "bit_cnt b = bit_cnt (free_map s)" "bit_list b = set_range (bit_list (free_map s)) (unat p) 1 value"
    and "p < bit_cnt (free_map s)"
  shows "used (s\<lparr>free_map := b\<rparr>) = (used s)(p := value)"
proof
  fix q
  have "unat p \<le> unat q \<and> unat q < unat p + 1 \<longleftrightarrow> q = p"
    by (auto simp: less_Suc_eq_le word_le_nat_alt [symmetric] intro: antisym)
  then show "used (s\<lparr>free_map := b\<rparr>) q = ((used s)(p := value)) q"
    using assms by (auto simp: used_def word_less_nat_alt nth_set_range)
qed

text \<open>An allocation: the first free sector, or nothing if there is none.\<close>

lemma free_map_allocate_ok:
  assumes ok: "map_ok sz f m own s"
  shows "(\<forall>p < sz. used s p) \<and> free_map_allocate True 1 s = Some (None, s)
    \<or> (\<exists>p s'. p < sz \<and> \<not> used s p \<and> (\<forall>q < p. used s q) \<and> free_map_allocate True 1 s = Some (Some p, s')
        \<and> map_ok sz f m own s' \<and> used s' = (used s)(p := True) \<and> open_inodes s' = open_inodes s
        \<and> map_saved m s' \<and> (\<forall>k. k \<notin> own \<longrightarrow> sview s' k = sview s k))"
proof -
  have b: "wf_bitmap (free_map s)" "bit_cnt (free_map s) = sz" "free_map_file s = Some f"
    using ok by (simp_all add: map_ok_def)
  let ?wr = "inode_write_at_with (free_map_allocate_n True (Suc (unat sz)) 1) True"
  have unfold: "free_map_allocate True 1 s = free_map_allocate_with ?wr 1 s"
    by (simp add: free_map_allocate_def b(2))
  show ?thesis
  proof (cases "first_fit (bit_list (free_map s)) 0 1 False")
    case None
    then have "\<forall>i < unat sz. bit_list (free_map s) ! i"
      using b(2) by (auto simp: first_fit_None)
    then have "\<forall>p < sz. used s p"
      by (simp add: used_def b(2) word_less_nat_alt)
    moreover have "bitmap_scan_and_flip (free_map s) 0 1 False = Some (BITMAP_ERROR, free_map s)"
      using bitmap_scan_and_flip_None [OF b(1), of 0 1 False] None by simp
    ultimately show ?thesis
      by (simp add: unfold free_map_allocate_with_def)
  next
    case (Some k)
    define p :: block_sector_t where "p = of_nat k"
    have k: "k < unat sz" "\<not> bit_list (free_map s) ! k" "\<forall>j < k. bit_list (free_map s) ! j"
      using Some b(2) by (auto simp: first_fit_Some)
    then have p: "unat p = k" "p < sz"
      using unat_32_less [of sz] by (simp_all add: p_def unat_of_nat word_less_nat_alt)
    have p_used: "\<not> used s p" "\<forall>q < p. used s q"
      using k p by (auto simp: used_def b(2) word_less_nat_alt)
    obtain b' where b': "bitmap_scan_and_flip (free_map s) 0 1 False = Some (p, b')" "wf_bitmap b'" "bit_cnt b' = sz"
        "bit_list b' = set_range (bit_list (free_map s)) k 1 True"
      using bitmap_scan_and_flip_Some [OF b(1), of 0 1 False k] Some b(2) by (auto simp: p_def)
    have used: "used (s\<lparr>free_map := b'\<rparr>) = (used s)(p := True)"
      using used_set [of b' s p] b' b(2) p by simp
    have "open_file sz (s\<lparr>free_map := b'\<rparr>) f m"
      using ok by (auto simp: map_ok_def open_file_def fs_ok_def sview_def get_inode_def)
    then obtain s' v' where s': "free_map_write_with ?wr (s\<lparr>free_map := b'\<rparr>) = Some (True, s')"
        "moved sz (s\<lparr>free_map := b'\<rparr>) v' s'"
        "wrote sz m 0 (take (unat (byte_cnt sz)) (words_bytes (bits b'))) (sview s) v'"
      using free_map_write_ok [of sz "s\<lparr>free_map := b'\<rparr>" f m "free_map_allocate_n True (Suc (unat sz)) 1"] b'(2,3) ok
      by (auto simp: map_ok_def sview_def simp del: free_map_allocate_n.simps)
    have "p \<noteq> BITMAP_ERROR"
      using not_minus_one [OF p(2)] by (simp add: BITMAP_ERROR_def)
    then have "free_map_allocate True 1 s = Some (Some p, s')"
      using b'(1) s'(1) b(3) by (simp add: unfold free_map_allocate_with_def)
    moreover have "used s' = (used s)(p := True)"
      using used moved_fields [OF s'(2)] by (simp add: used_def fun_eq_iff)
    ultimately show ?thesis
      using map_ok_written [OF ok b'(2,3) bitmap_scan_and_flip_length [OF b'(1)] _ s'(2,3)] map_saved_written [OF ok b'(2,3) s'(2,3)] p(2) p_used ok
      by (auto simp: used map_ok_def)
  qed
qed

lemma upd_inode_fields [simp]:
  "fs_cache (upd_inode s k g) = fs_cache s" "free_map (upd_inode s k g) = free_map s"
  "free_map_file (upd_inode s k g) = free_map_file s" "sview (upd_inode s k g) = sview s"
  "fs_ok sz (upd_inode s k g) = fs_ok sz s" "used (upd_inode s k g) = used s"
  by (simp_all add: upd_inode_def sview_def fs_ok_def used_def fun_eq_iff)

lemma find_map_other:
  "f \<noteq> k \<Longrightarrow> (\<And>i. i_sector (g i) = i_sector i) \<Longrightarrow>
   find (\<lambda>i. i_sector i = f) (map (\<lambda>i. if i_sector i = k then g i else i) xs) = find (\<lambda>i. i_sector i = f) xs"
  by (induction xs) auto

lemma find_map_same:
  "(\<And>i. i_sector (g i) = i_sector i) \<Longrightarrow>
   find (\<lambda>i. i_sector i = k) (map (\<lambda>i. if i_sector i = k then g i else i) xs) =
     map_option g (find (\<lambda>i. i_sector i = k) xs)"
  by (induction xs) auto

lemma get_upd_inode_other:
  "f \<noteq> k \<Longrightarrow> (\<And>i. i_sector (g i) = i_sector i) \<Longrightarrow> get_inode (upd_inode s k g) f = get_inode s f"
  by (simp add: get_inode_def upd_inode_def find_map_other)

lemma get_upd_inode:
  "(\<And>i. i_sector (g i) = i_sector i) \<Longrightarrow> get_inode (upd_inode s k g) k = map_option g (get_inode s k)"
  by (simp add: get_inode_def upd_inode_def find_map_same)

text \<open>A release: the sector must be in use, and is free afterwards.\<close>

lemma free_map_release_ok:
  assumes ok: "map_ok sz f m own s" and p: "p < sz" "p \<notin> own"
  shows "(if used s p
      then \<exists>s'. free_map_release True s p 1 = Some s' \<and> map_ok sz f m own s' \<and> used s' = (used s)(p := False)
        \<and> open_inodes s' = open_inodes s \<and> (\<forall>k. k \<notin> own \<longrightarrow> sview s' k = sview s k)
      else free_map_release True s p 1 = None)"
proof -
  have b: "wf_bitmap (free_map s)" "bit_cnt (free_map s) = sz" and r: "unat p + unat (1 :: size_t) \<le> unat sz"
    using ok p by (simp_all add: map_ok_def word_less_nat_alt)
  have all: "bitmap_all (free_map s) p 1 = Some (used s p)"
    using bitmap_contains_eq [OF b(1), of p 1 False] r p(1) by (simp add: bitmap_all_def b(2) used_def)
  show ?thesis
  proof (cases "used s p")
    case False
    then show ?thesis
      by (simp add: free_map_release_def all)
  next
    case True
    obtain b' where b': "bitmap_set_multiple (free_map s) p 1 False = Some b'" "wf_bitmap b'" "bit_cnt b' = sz"
        "bit_list b' = set_range (bit_list (free_map s)) (unat p) 1 False"
      using bitmap_set_multiple_eq [OF b(1), of p 1 False] r b(2) by auto
    have used: "used (s\<lparr>free_map := b'\<rparr>) = (used s)(p := False)"
      using used_set [of b' s p] b' b(2) p by simp
    have "open_file sz (s\<lparr>free_map := b'\<rparr>) f m"
      using ok by (auto simp: map_ok_def open_file_def fs_ok_def sview_def get_inode_def)
    then obtain s' v' where s': "free_map_write_with (inode_write_at True) (s\<lparr>free_map := b'\<rparr>) = Some (True, s')"
        "moved sz (s\<lparr>free_map := b'\<rparr>) v' s'"
        "wrote sz m 0 (take (unat (byte_cnt sz)) (words_bytes (bits b'))) (sview s) v'"
      using free_map_write_ok [of sz "s\<lparr>free_map := b'\<rparr>" f m "free_map_allocate True 1"] b'(2,3) ok
      by (auto simp: map_ok_def sview_def inode_write_at_def)
    have "used s' = (used s)(p := False)"
      using used moved_fields [OF s'(2)] by (simp add: used_def fun_eq_iff)
    moreover have "free_map_release True s p 1 = Some s'"
      using True s'(1) b'(1) by (simp add: free_map_release_def all)
    moreover have "\<forall>q \<in> own. used (s\<lparr>free_map := b'\<rparr>) q"
      using ok p(2) by (auto simp: used map_ok_def)
    ultimately show ?thesis
      using map_ok_written [OF ok b'(2,3) bitmap_set_multiple_length [OF b'(1)] _ s'(2,3)] True by auto
  qed
qed

interpretation free_map_source: sector_source "free_map_allocate True 1" sz "map_ok sz f m own" used own f
  for sz f m own
proof unfold_locales
  fix s
  assume ok: "map_ok sz f m own s"
  then show "fs_ok sz s"
    by (simp add: map_ok_def open_file_def)
  show "used s k" if "k \<in> own" for k
    using ok that by (simp add: map_ok_def)
  show "\<exists>r s'. free_map_allocate True 1 s = Some (r, s')"
    using free_map_allocate_ok [OF ok] by blast
  show "s' = s \<and> (\<forall>p < sz. used s p)" if "free_map_allocate True 1 s = Some (None, s')" for s'
    using free_map_allocate_ok [OF ok] that by auto
  show "map_ok sz f m own s' \<and> q < sz \<and> \<not> used s q \<and> used s' = (used s)(q := True) \<and> open_inodes s' = open_inodes s
      \<and> (\<forall>k. k \<notin> own \<longrightarrow> sview s' k = sview s k)" if "free_map_allocate True 1 s = Some (Some q, s')" for q s'
    using free_map_allocate_ok [OF ok] that by auto
  show "map_ok sz f m own s' \<and> used s' = used s" if s': "moved sz s v s'" and v: "\<forall>k \<in> own. v k = sview s k" for v s'
  proof -
    have "\<forall>j \<in> inode_sectors (sview s) m. sview s' j = sview s j"
      using v ok moved_ok [OF s'] by (auto simp: map_ok_def)
    note c = inode_sectors_cong [of "sview s" m "sview s'"] this
    have "used s' = used s"
      using moved_fields [OF s'] by (simp add: used_def fun_eq_iff)
    then show ?thesis
      using c ok moved_ok [OF s'] moved_fields [OF s'] moved_get_inode [OF s'] by (auto simp: map_ok_def open_file_def)
  qed
  show "map_ok sz f m own (upd_inode s k g) \<and> used (upd_inode s k g) = used s"
    if "k \<noteq> f" "\<And>i. i_sector (g i) = i_sector i" for k g
    using ok get_upd_inode_other [of f k g s] that by (simp add: map_ok_def open_file_def)
qed

subsection \<open>Releasing the blocks of a removed file\<close>

lemma bytes_to_sectors_eq:
  assumes "0 \<le> n" "n < 2 ^ 31"
  shows "bytes_to_sectors n = of_nat ((nat n + 511) div 512)" "unat (bytes_to_sectors n) = (nat n + 511) div 512"
proof -
  have "(511 + n) sdiv 512 = int ((nat n + 511) div 512)"
    using assms(1) by (simp add: signed_divide_int_def sgn_if zdiv_int add.commute)
  then show "bytes_to_sectors n = of_nat ((nat n + 511) div 512)"
    by (simp add: bytes_to_sectors_def)
  moreover have "(nat n + 511) div 512 < 2 ^ 32"
    using assms by (simp add: div_less_iff_less_mult)
  ultimately show "unat (bytes_to_sectors n) = (nat n + 511) div 512"
    by (simp add: unat_of_nat)
qed

text \<open>The loop clears each pointer before it releases what the pointer holds: it releases
  sector 0 each time, and the second release of a sector stops the kernel.\<close>

lemma release_ptrs_panics:
  assumes ok: "map_ok sz f m own s" and z: "0 \<notin> own" and i: "Suc i < length ptrs" and blocks: "blocks \<noteq> 1"
  shows "release_ptrs True (Suc (Suc n)) i ptrs blocks s = None"
proof -
  have "0 < sz"
    using ok by (simp add: map_ok_def)
  note release = free_map_release_ok [OF _ this z]
  have "\<not> blocks - 1 \<le> 0"
    using blocks by (auto simp: word_le_nat_alt unat_eq_0)
  moreover have "free_map_release True s1 0 1 = None" if "free_map_release True s 0 1 = Some s1" for s1
    using release [OF ok] release [of f m s1] that by (auto split: if_splits)
  ultimately show ?thesis
    using i by (cases "free_map_release True s 0 1") auto
qed

lemma inode_dealloc_panics:
  assumes "map_ok sz f m own s" "0 \<notin> own" "length (direct_ptrs d) = DIRECT_PTRS"
    and "0 \<le> i_length d" "i_length d < 2 ^ 31" "nblocks d \<noteq> 1"
  shows "inode_dealloc True s d = None"
proof -
  have "bytes_to_sectors (i_length d) \<noteq> 1"
    using bytes_to_sectors_eq(2) [OF assms(4,5)] assms(6) by (auto simp: nblocks_def)
  then have "release_ptrs True (Suc (Suc 120)) 0 (direct_ptrs d) (bytes_to_sectors (i_length d)) s = None"
    using assms(3) by (intro release_ptrs_panics [OF assms(1,2)]) (simp_all add: DIRECT_PTRS_def)
  moreover have "DIRECT_PTRS = Suc (Suc 120)"
    by (simp add: DIRECT_PTRS_def)
  ultimately show ?thesis
    by (simp add: inode_dealloc_def del: release_ptrs.simps)
qed

lemma inode_dealloc_one_block:
  assumes ok: "map_ok sz f m own s" and z: "0 \<notin> own" "used s 0" and "length (direct_ptrs d) = DIRECT_PTRS"
    and "0 \<le> i_length d" "i_length d < 2 ^ 31" "nblocks d = 1"
  shows "\<exists>s'. inode_dealloc True s d = Some (True, s') \<and> map_ok sz f m own s' \<and> used s' = (used s)(0 := False)"
proof -
  have "bytes_to_sectors (i_length d) = 1"
    using bytes_to_sectors_eq(1) [OF assms(5,6)] assms(7) by (simp add: nblocks_def)
  moreover obtain s' where "free_map_release True s 0 1 = Some s'" "map_ok sz f m own s'" "used s' = (used s)(0 := False)"
    using free_map_release_ok [OF ok _ z(1)] z(2) ok by (auto simp: map_ok_def)
  moreover from this have "release_ptrs True (Suc n) 0 (direct_ptrs d) 1 s = Some (True, 0, s')" for n
    using assms(4) by (cases "direct_ptrs d") (simp_all add: DIRECT_PTRS_def)
  from this [of 121] have "release_ptrs True DIRECT_PTRS 0 (direct_ptrs d) 1 s = Some (True, 0, s')"
    by (simp add: DIRECT_PTRS_def)
  ultimately show ?thesis
    by (simp add: inode_dealloc_def)
qed

subsection \<open>Properties\<close>

lemma sample_used: "used sample_fs p \<longleftrightarrow> p < 10"
proof -
  have bit: "bit (0x3FF :: uint32_t) i \<longleftrightarrow> i < 10" if "i < 32" for i
    using that bit_mask_iff [where 'a = uint32_t, of 10 i] by (simp add: mask_eq_exp_minus_1)
  have "bit_list (free_map sample_fs) ! unat p \<longleftrightarrow> p < 10" if "p < 20"
    using that bit [of "unat p"] by (simp add: sample_fs_def nth_bit_list word_less_nat_alt)
  moreover have "p < 20" if "p < 10"
    using that by (simp add: word_less_nat_alt)
  ultimately show ?thesis
    by (auto simp: used_def sample_fs_def)
qed

lemma sample_first_free:
  "\<not> (\<forall>p < 20. used sample_fs p)" "\<not> used sample_fs p \<Longrightarrow> \<forall>q < p. used sample_fs q \<Longrightarrow> p = 10"
proof -
  have 10: "\<not> used sample_fs 10"
    by (simp add: sample_used)
  moreover have "(10 :: block_sector_t) < 20"
    by simp
  ultimately show "\<not> (\<forall>p < 20. used sample_fs p)"
    by blast
  assume p: "\<not> used sample_fs p" "\<forall>q < p. used sample_fs q"
  then have "10 \<le> p"
    by (simp add: sample_used)
  moreover have "p \<le> 10"
    using p(2) 10 by (meson not_le)
  ultimately show "p = 10"
    by simp
qed

lemma sample_map_ok: "map_ok 20 0 sample_map_inode {2} sample_fs"
proof -
  have so: "sector_of v sample_map_inode 0 = 2" "path v sample_map_inode 0 = {}" for v
    by (simp_all add: sector_of_def path_def sample_map_inode_def)
  have n: "nblocks sample_map_inode = 1" "nat (i_length sample_map_inode) div 512 = 0" "i_length sample_map_inode = 4"
    by (simp_all add: nblocks_def sample_map_inode_def)
  have "wf_inode 20 (sview sample_fs) sample_map_inode" "sep_inode (sview sample_fs) sample_map_inode"
    "inode_sectors (sview sample_fs) sample_map_inode = {2}"
    by (simp_all add: wf_inode_def sep_inode_def inode_sectors_def so n inj_on_def lessThan_Suc)
  moreover have "get_inode sample_fs 0 = Some
      \<lparr>i_sector = 0, open_cnt = 1, removed = False, deny_write_cnt = 0, i_data = sample_map_inode\<rparr>"
    by (simp add: get_inode_def sample_fs_def)
  moreover have "wf_bitmap (free_map sample_fs)" "bit_cnt (free_map sample_fs) = 20" "free_map_file sample_fs = Some 0"
    "length (bits (free_map sample_fs)) = 1"
    by (simp_all add: wf_bitmap_def sample_fs_def)
  moreover have "unat (byte_cnt 20) = 4" "unat (elem_cnt 20) = 1"
    by (simp_all add: unat_byte_cnt unat_elem_cnt)
  ultimately show ?thesis
    using sample_fs_ok by (simp add: map_ok_def open_file_def n sample_used)
qed

text \<open>C24: an allocation takes the first sector that is not in use, marks exactly that one and
  stores the map in its file without touching any sector outside that file; the map stays
  consistent, and the only failure is a full disk. The recursion through the map's own file
  always ends.\<close>

theorem free_map_allocate_first_free:
  assumes "map_ok sz f m own s"
  shows "(\<forall>p < sz. used s p) \<and> free_map_allocate True 1 s = Some (None, s)
    \<or> (\<exists>p s'. p < sz \<and> \<not> used s p \<and> (\<forall>q < p. used s q) \<and> free_map_allocate True 1 s = Some (Some p, s')
        \<and> map_ok sz f m own s' \<and> used s' = (used s)(p := True) \<and> open_inodes s' = open_inodes s
        \<and> map_saved m s' \<and> (\<forall>k. k \<notin> own \<longrightarrow> sview s' k = sview s k))"
  by (rule free_map_allocate_ok [OF assms])

theorem free_map_allocate_first_free_witness:
  "\<exists>s'. free_map_allocate True 1 sample_fs = Some (Some 10, s') \<and> map_ok 20 0 sample_map_inode {2} s'"
  using free_map_allocate_first_free [OF sample_map_ok] sample_first_free by blast

text \<open>C35: \<^verbatim>\<open>inode_dealloc\<close> clears each pointer before it passes it to \<^verbatim>\<open>free_map_release\<close>. For
  a file that does not have exactly one block, the empty file included, the kernel panics at
  the second release of sector 0; for a file of one block it marks sector 0, the inode of
  the free map, as free, keeps the block of the file in use, and the next allocation hands
  out sector 0.\<close>

theorem inode_dealloc_releases_sector_zero:
  assumes "map_ok sz f m own s" "0 \<notin> own" "used s 0" "length (direct_ptrs d) = DIRECT_PTRS"
    and "0 \<le> i_length d" "i_length d < 2 ^ 31"
  shows "if nblocks d = 1
    then \<exists>s' s''. inode_dealloc True s d = Some (True, s') \<and> used s' = (used s)(0 := False)
      \<and> free_map_allocate True 1 s' = Some (Some 0, s'')
    else inode_dealloc True s d = None"
proof (cases "nblocks d = 1")
  case False
  then show ?thesis
    using inode_dealloc_panics [OF assms(1,2,4-6)] by simp
next
  case True
  obtain s' where s': "inode_dealloc True s d = Some (True, s')" "map_ok sz f m own s'" "used s' = (used s)(0 := False)"
    using inode_dealloc_one_block [OF assms True] by blast
  have "0 < sz"
    using assms(1) by (simp add: map_ok_def)
  then have "\<exists>s''. free_map_allocate True 1 s' = Some (Some 0, s'')"
    using free_map_allocate_ok [OF s'(2)] s'(3) word_gt_0 by fastforce
  then show ?thesis
    using s' True by auto
qed

theorem inode_dealloc_releases_sector_zero_witness:
  "inode_dealloc True sample_fs sample_inode = None"
proof -
  have "nblocks sample_inode \<noteq> 1" "length (direct_ptrs sample_inode) = DIRECT_PTRS" "used sample_fs 0"
    by (simp_all add: nblocks_def DIRECT_PTRS_def sample_used) (simp add: sample_inode_def)
  then show ?thesis
    using inode_dealloc_releases_sector_zero [OF sample_map_ok, of sample_inode] by simp
qed

end
