(* ===== verification/Inode_Growth.thy ===== *)
theory Inode_Growth
  imports Free_Map
begin

text \<open>
  Growth of files by \<^verbatim>\<open>inode_extend\<close> and \<^verbatim>\<open>inode_write_at\<close>, up to the blocks that the direct
  pointers and the indirect block reach. The lemmas are proved once for every source of
  sectors (\<open>sector_source\<close>) and used for the free map. The last part is about files beyond
  the indirect block, where \<^verbatim>\<open>inode_extend\<close> stops the kernel.
\<close>

subsection \<open>Taking a number of fresh sectors\<close>

text \<open>From \<open>s\<close> to \<open>s'\<close> the sectors \<open>ps\<close> were taken and zeroed, and no other sector changed
  but those of the source itself.\<close>

definition took :: "block_sector_t \<Rightarrow> (fsys \<Rightarrow> bool) \<Rightarrow> (fsys \<Rightarrow> block_sector_t \<Rightarrow> bool) \<Rightarrow> block_sector_t set \<Rightarrow>
    fsys \<Rightarrow> block_sector_t list \<Rightarrow> fsys \<Rightarrow> bool" where
  "took sz ok in_use own s ps s' \<longleftrightarrow> ok s' \<and> distinct ps \<and> (\<forall>p \<in> set ps. p < sz \<and> \<not> in_use s p)
     \<and> (\<forall>p. in_use s' p \<longleftrightarrow> in_use s p \<or> p \<in> set ps) \<and> open_inodes s' = open_inodes s
     \<and> (\<forall>p \<in> set ps. sview s' p = empty_sector)
     \<and> (\<forall>k. k \<notin> own \<longrightarrow> k \<notin> set ps \<longrightarrow> sview s' k = sview s k)"

definition free_sectors :: "block_sector_t \<Rightarrow> (fsys \<Rightarrow> block_sector_t \<Rightarrow> bool) \<Rightarrow> fsys \<Rightarrow> block_sector_t set" where
  "free_sectors sz in_use s = {p. p < sz \<and> \<not> in_use s p}"

lemma took_Nil: "ok s \<Longrightarrow> took sz ok in_use own s [] s"
  by (simp add: took_def)

lemma finite_free_sectors [simp]: "finite (free_sectors sz in_use s)"
  by simp

lemma took_free_sectors: "took sz ok in_use own s ps s' \<Longrightarrow> free_sectors sz in_use s' = free_sectors sz in_use s - set ps"
  by (auto simp: took_def free_sectors_def)

lemma took_card:
  assumes "took sz ok in_use own s ps s'"
  shows "card (free_sectors sz in_use s) = card (free_sectors sz in_use s') + length ps"
proof -
  have "set ps \<subseteq> free_sectors sz in_use s" "card (set ps) = length ps"
    using assms by (auto simp: took_def free_sectors_def distinct_card)
  then show ?thesis
    using took_free_sectors [OF assms] card_mono [of "free_sectors sz in_use s" "set ps"] by (simp add: card_Diff_subset)
qed

text \<open>A file whose blocks are reached by the direct pointers and the indirect block, with the
  bytes of its last sector behind the end of the file zero.\<close>

definition small_file :: "block_sector_t \<Rightarrow> (block_sector_t \<Rightarrow> bool) \<Rightarrow> block_sector_t set \<Rightarrow>
    (block_sector_t \<Rightarrow> bytes) \<Rightarrow> inode_disk \<Rightarrow> bool" where
  "small_file sz taken own v d \<longleftrightarrow> length (direct_ptrs d) = 122 \<and> 0 \<le> i_length d \<and> i_length d < 250 * 512
     \<and> indirect_ptr d < sz \<and> taken (indirect_ptr d) \<and> indirect_ptr d \<notin> own
     \<and> inj_on (sector_of v d) {..<nblocks d}
     \<and> (\<forall>k < nblocks d. sector_of v d k < sz \<and> taken (sector_of v d k) \<and> sector_of v d k \<notin> own
          \<and> sector_of v d k \<noteq> indirect_ptr d)
     \<and> (\<forall>i. nat (i_length d) \<le> i \<and> i < nblocks d * 512 \<longrightarrow> byte_at v d i = 0)"

text \<open>The inode \<open>d\<close> was given the fresh sectors \<open>ps\<close> as its next blocks and is now \<open>d'\<close>; \<open>v\<close>
  and \<open>v'\<close> are the sectors before and after.\<close>

definition extended :: "nat \<Rightarrow> nat \<Rightarrow> block_sector_t list \<Rightarrow> (block_sector_t \<Rightarrow> bytes) \<Rightarrow> inode_disk \<Rightarrow>
    (block_sector_t \<Rightarrow> bytes) \<Rightarrow> inode_disk \<Rightarrow> bool" where
  "extended c n ps v d v' d' \<longleftrightarrow> length ps = n - c \<and> length (direct_ptrs d') = 122 \<and> indirect_ptr d' = indirect_ptr d
     \<and> (\<forall>k < c. sector_of v' d' k = sector_of v d k) \<and> (\<forall>k. c \<le> k \<and> k < n \<longrightarrow> sector_of v' d' k = ps ! (k - c))"

definition same_but :: "block_sector_t set \<Rightarrow> (block_sector_t \<Rightarrow> bytes) \<Rightarrow> (block_sector_t \<Rightarrow> bytes) \<Rightarrow> bool" where
  "same_but K v v' \<longleftrightarrow> (\<forall>k. k \<notin> K \<longrightarrow> v' k = v k)"

lemma small_file_length: "small_file sz taken own v d \<Longrightarrow> 0 \<le> i_length d \<and> i_length d < 2 ^ 31 \<and> nblocks d \<le> 250"
  unfolding small_file_def nblocks_def by auto

lemma sector_of_direct: "k < 122 \<Longrightarrow> sector_of v d k = direct_ptrs d ! k"
  by (simp add: sector_of_def)

lemma sector_of_indirect: "122 \<le> k \<Longrightarrow> k < 250 \<Longrightarrow> sector_of v d k = bytes_words (v (indirect_ptr d)) ! (k - 122)"
  by (simp add: sector_of_def)

lemma sector_of_length [simp]: "sector_of v (d\<lparr>i_length := len\<rparr>) = sector_of v d"
  by (simp add: sector_of_def second_ptr_def fun_eq_iff)

lemma byte_at_length [simp]: "byte_at v (d\<lparr>i_length := len\<rparr>) = byte_at v d"
  by (simp add: byte_at_def fun_eq_iff)

lemma extended_direct:
  assumes "length (direct_ptrs d) = 122" "c \<le> n" "n \<le> 122" "length ps = n - c"
    and "direct_ptrs d' = take c (direct_ptrs d) @ ps @ drop n (direct_ptrs d)" "indirect_ptr d' = indirect_ptr d"
  shows "extended c n ps v d v' d'"
  using assms by (auto simp: extended_def sector_of_direct nth_append)

lemma extended_indirect:
  assumes d: "length (direct_ptrs d) = 122" and n: "c \<le> n" "122 < n" "n \<le> 250" and ps: "length ps = 122 - c"
    and d': "direct_ptrs d' = take c (direct_ptrs d) @ ps @ drop (c + length ps) (direct_ptrs d)" "indirect_ptr d' = indirect_ptr d"
    and ws: "length ws = 128" "bytes_words (v (indirect_ptr d)) = ws"
    and qs: "length qs = n - max c 122"
    and v': "v' (indirect_ptr d) = words_bytes (take (max c 122 - 122) ws @ qs @ drop (n - 122) ws)"
  shows "extended c n (ps @ qs) v d v' d'"
proof -
  have "sector_of v' d' k = (if k < c then sector_of v d k else (ps @ qs) ! (k - c))" if "k < n" for k
  proof (cases "k < 122")
    case True
    then show ?thesis
      using d ps d'(1) by (simp add: sector_of_direct nth_append) auto
  next
    case False
    have "sector_of v' d' k = (take (max c 122 - 122) ws @ qs @ drop (n - 122) ws) ! (k - 122)"
      using False that n(3) d'(2) by (simp add: sector_of_indirect v')
    also have "\<dots> = (if k < c then ws ! (k - 122) else (ps @ qs) ! (k - c))"
    proof (cases "c \<le> 122")
      case True
      then have "(ps @ qs) ! (k - c) = qs ! (k - 122)"
        using False ps by (auto simp: nth_append)
      then show ?thesis
        using True False that qs by (auto simp: nth_append [of _ _ "k - 122"])
    next
      case c: False
      then have "max c 122 = c" "ps = []" "length (take (c - 122) ws) = c - 122"
        using ps n(1,3) ws(1) by auto
      moreover have "(k - 122 < c - 122) = (k < c)" "k - 122 - (c - 122) = k - c"
        using c False by auto
      ultimately show ?thesis
        using that qs by (auto simp: nth_append)
    qed
    finally show ?thesis
      using False that n(3) ws(2) by (simp add: sector_of_indirect)
  qed
  then show ?thesis
    using assms by (auto simp: extended_def max_def)
qed

definition grown :: "block_sector_t \<Rightarrow> (fsys \<Rightarrow> bool) \<Rightarrow> (fsys \<Rightarrow> block_sector_t \<Rightarrow> bool) \<Rightarrow> block_sector_t set \<Rightarrow>
    nat \<Rightarrow> fsys \<Rightarrow> inode_disk \<Rightarrow> nat \<Rightarrow> inode_disk \<Rightarrow> fsys \<Rightarrow> bool" where
  "grown sz ok in_use own c s d n d' s' \<longleftrightarrow> (\<exists>ps k. d' = d\<lparr>direct_ptrs := k\<rparr>
    \<and> extended c n ps (sview s) d (sview s') d' \<and> ok s' \<and> open_inodes s' = open_inodes s
    \<and> distinct ps \<and> (\<forall>p \<in> set ps. p < sz \<and> \<not> in_use s p \<and> sview s' p = empty_sector)
    \<and> (\<forall>p. in_use s' p \<longleftrightarrow> in_use s p \<or> p \<in> set ps)
    \<and> same_but (own \<union> set ps \<union> {indirect_ptr d}) (sview s) (sview s'))"

lemma small_file_wf:
  assumes "small_file sz taken own v d"
  shows "wf_inode sz v d" "sep_inode v d"
proof -
  have "nat (i_length d) div 512 < 250"
    using assms by (auto simp: small_file_def div_less_iff_less_mult)
  then have "path v d k \<subseteq> {indirect_ptr d}" if "k \<le> nat (i_length d) div 512" for k
    using that by (simp add: path_def)
  with \<open>_ < 250\<close> show "wf_inode sz v d" "sep_inode v d"
    using assms unfolding wf_inode_def sep_inode_def small_file_def by fastforce+
qed

text \<open>Changing sectors that are neither data nor the indirect block keeps the file.\<close>

lemma small_file_cong:
  assumes f: "small_file sz taken own v d" and v': "\<forall>k < nblocks d. v' (sector_of v d k) = v (sector_of v d k)"
      "v' (indirect_ptr d) = v (indirect_ptr d)"
  shows "small_file sz taken own v' d" "content v' d = content v d"
    "\<And>k. k < nblocks d \<Longrightarrow> sector_of v' d k = sector_of v d k"
proof -
  have so: "sector_of v' d k = sector_of v d k" if "k < nblocks d" for k
    using that small_file_length [OF f] v'(2) by (simp add: sector_of_def)
  then show "\<And>k. k < nblocks d \<Longrightarrow> sector_of v' d k = sector_of v d k" .
  have byte: "byte_at v' d i = byte_at v d i" if "i div 512 < nblocks d" for i
    using so [OF that] v'(1) that by (simp add: byte_at_def)
  then show "content v' d = content v d"
    using byte block_in_file by (simp add: content_def)
  have "inj_on (sector_of v' d) {..<nblocks d} = inj_on (sector_of v d) {..<nblocks d}"
    using so by (simp add: inj_on_def)
  then show "small_file sz taken own v' d"
    using f so byte by (simp add: small_file_def div_less_iff_less_mult)
qed

lemma small_file_wrote:
  assumes f: "small_file sz taken own v d" and w: "wrote sz d q bs v v'"
  shows "small_file sz taken own v' d"
proof -
  have so: "sector_of v' d k = sector_of v d k" if "k < nblocks d" for k
    using w that by (simp add: wrote_def)
  have tail: "\<forall>i. nat (i_length d) \<le> i \<and> i < nblocks d * 512 \<longrightarrow> byte_at v' d i = 0"
    using w f by (simp add: wrote_def small_file_def div_less_iff_less_mult)
  have "inj_on (sector_of v' d) {..<nblocks d} = inj_on (sector_of v d) {..<nblocks d}"
    using so by (simp add: inj_on_def)
  then show ?thesis
    using f so tail by (simp add: small_file_def)
qed

lemma i_sector_get: "get_inode s k = Some i \<Longrightarrow> i_sector i = k"
  by (auto simp: get_inode_def find_Some_iff)

context sector_source
begin

lemma took_append:
  assumes s: "ok s" and a: "took sz ok in_use own s ps s'" and b: "took sz ok in_use own s' qs s''"
  shows "took sz ok in_use own s (ps @ qs) s''"
proof -
  have "p \<notin> own" if "p \<in> set ps" for p
    using that a own_in_use [OF s] by (auto simp: took_def)
  moreover have "p \<notin> set ps" if "p \<in> set qs" for p
    using that a b by (auto simp: took_def)
  ultimately show ?thesis
    using a b by (auto simp: took_def)
qed

lemma take_one:
  assumes s: "ok s" and a: "alloc s = Some (Some q, s1)"
  shows "\<exists>s2. cwrite s1 q empty_sector = Some s2 \<and> took sz ok in_use own s [q] s2"
proof -
  note q = alloc_Some [OF s a]
  obtain s2 where s2: "cwrite s1 q empty_sector = Some s2" "moved sz s1 ((sview s1)(q := empty_sector)) s2"
    using cwrite_ok [of sz s1 q empty_sector] ok_fs [of s1] q by (auto simp: empty_sector_def)
  have "q \<notin> own"
    using own_in_use [OF s] q by auto
  then show ?thesis
    using s2 q other_write [OF _ s2(2)] moved_ok [OF s2(2)] moved_fields [OF s2(2)]
    by (auto simp: took_def)
qed

text \<open>The loop takes the sectors it needs if there are enough; if not it stops with false.
  It never fails in any other way.\<close>

lemma alloc_range_ok:
  assumes "ok s" "i + n \<le> length ptrs"
  shows "\<exists>ps s' b. alloc_range alloc n i s ptrs =
      Some (b, take i ptrs @ ps @ drop (i + length ps) ptrs, s')
    \<and> took sz ok in_use own s ps s' \<and> length ps \<le> n \<and> (b \<longleftrightarrow> length ps = n)
    \<and> (b \<longleftrightarrow> n \<le> card (free_sectors sz in_use s))"
  using assms
proof (induction n arbitrary: i s ptrs)
  case 0
  then show ?case
    using took_Nil by auto
next
  case (Suc n)
  obtain r s1 where r: "alloc s = Some (r, s1)"
    using alloc_total [OF Suc.prems(1)] by blast
  show ?case
  proof (cases r)
    case None
    then have "s1 = s" "free_sectors sz in_use s = {}"
      using alloc_None [OF Suc.prems(1)] r by (auto simp: free_sectors_def)
    then show ?thesis
      using r None took_Nil [of ok s] Suc.prems by (intro exI [of _ "[]"]) auto
  next
    case (Some q)
    with r obtain s2 where s2: "cwrite s1 q empty_sector = Some s2" "took sz ok in_use own s [q] s2"
      using take_one [OF Suc.prems(1)] by blast
    then have "ok s2"
      by (simp add: took_def)
    then obtain ps s3 b where ps: "alloc_range alloc n (Suc i) s2 (ptrs[i := q]) =
          Some (b, take (Suc i) (ptrs[i := q]) @ ps @ drop (Suc i + length ps) (ptrs[i := q]), s3)"
        "took sz ok in_use own s2 ps s3" "length ps \<le> n" "b \<longleftrightarrow> length ps = n" "b \<longleftrightarrow> n \<le> card (free_sectors sz in_use s2)"
      using Suc.IH [of s2 "Suc i" "ptrs[i := q]"] Suc.prems(2) by auto
    have "take (Suc i) (ptrs[i := q]) @ ps @ drop (Suc i + length ps) (ptrs[i := q]) =
        take i ptrs @ (q # ps) @ drop (i + length (q # ps)) ptrs"
      using Suc.prems(2) by (simp add: take_Suc_conv_app_nth)
    moreover have "took sz ok in_use own s (q # ps) s3"
      using took_append [OF Suc.prems(1) s2(2) ps(2)] by simp
    ultimately show ?thesis
      using r Some s2(1) ps(1,3-5) took_card [OF s2(2)] by (intro exI [of _ "q # ps"]) auto
  qed
qed

lemma extend_direct_ok:
  assumes s: "ok s" and d: "length (direct_ptrs d) = 122" and cur: "unat cur = c" and new: "unat new = n" "c \<le> n"
  defines "l \<equiv> min n 122"
  shows "\<exists>ps s' b. extend_direct alloc cur new s d =
      Some (b, if c < 122 \<and> 122 \<le> n then 122 else cur,
        d\<lparr>direct_ptrs := take c (direct_ptrs d) @ ps @ drop (c + length ps) (direct_ptrs d)\<rparr>, s')
    \<and> took sz ok in_use own s ps s' \<and> length ps \<le> l - c \<and> (b \<longleftrightarrow> length ps = l - c)
    \<and> (b \<longleftrightarrow> l - c \<le> card (free_sectors sz in_use s))"
proof (cases "c < 122")
  case False
  then show ?thesis
    using took_Nil [of ok, OF s] cur
    by (intro exI [of _ "[]"] exI [of _ s] exI [of _ True]) (simp add: extend_direct_def word_less_nat_alt l_def)
next
  case True
  let ?limit = "if new \<ge> 122 then 122 else new"
  have limit: "unat ?limit = l" "new \<ge> 122 \<longleftrightarrow> 122 \<le> n" "cur < 122"
    using True cur new by (auto simp: word_le_nat_alt word_less_nat_alt l_def)
  then have cnt: "unat (?limit - cur) = l - c"
    using True cur new by (subst unat_sub) (auto simp: word_le_nat_alt l_def)
  have fits: "c + (l - c) \<le> length (direct_ptrs d)"
    using True d by (simp add: l_def)
  obtain ps s' b where ps: "alloc_range alloc (l - c) c s (direct_ptrs d) =
        Some (b, take c (direct_ptrs d) @ ps @ drop (c + length ps) (direct_ptrs d), s')"
      "took sz ok in_use own s ps s'" "length ps \<le> l - c" "b \<longleftrightarrow> length ps = l - c"
      "b \<longleftrightarrow> l - c \<le> card (free_sectors sz in_use s)"
    using alloc_range_ok [OF s, of c "l - c" "direct_ptrs d"] d fits by blast
  have "extend_direct alloc cur new s d = Some (b, if c < 122 \<and> 122 \<le> n then 122 else cur,
      d\<lparr>direct_ptrs := take c (direct_ptrs d) @ ps @ drop (c + length ps) (direct_ptrs d)\<rparr>, s')"
    unfolding extend_direct_def Let_def cnt cur using ps(1) limit(2,3) True by simp
  then show ?thesis
    using ps(2-5) by blast
qed

lemma extend_indirect_ok:
  assumes s: "ok s" and k: "indirect_ptr d < sz" "indirect_ptr d \<notin> own" and cur: "unat cur = c" "122 \<le> c" "c < n"
    and new: "unat new = n" "n \<le> 250"
  defines "ws \<equiv> bytes_words (sview s (indirect_ptr d))"
  shows "\<exists>ps s'. (if n - c \<le> card (free_sectors sz in_use s)
     then (\<exists>c'. extend_indirect alloc cur new s d = Some (True, c', s')) \<and> length ps = n - c
       \<and> (\<exists>s1. took sz ok in_use own s ps s1
          \<and> moved sz s1 ((sview s1)(indirect_ptr d := words_bytes (take (c - 122) ws @ ps @ drop (n - 122) ws))) s')
     else extend_indirect alloc cur new s d = Some (False, cur, s') \<and> took sz ok in_use own s ps s')"
proof -
  have limit: "unat (if new \<ge> 250 then 250 - 122 else new - 122) - unat (cur - 122) = n - c" "unat (cur - 122) = c - 122"
      "cur < 250" "new > 122"
    using cur new by (auto simp: word_le_nat_alt word_less_nat_alt unat_sub)
  obtain s0 where s0: "cread s (indirect_ptr d) = Some (sview s (indirect_ptr d), s0)" "moved sz s (sview s) s0"
    using cread_ok [OF ok_fs [OF s] k(1)] by blast
  have ok0: "ok s0" "in_use s0 = in_use s" "sview s0 = sview s" "open_inodes s0 = open_inodes s"
    using other_write [OF s s0(2)] moved_ok [OF s0(2)] moved_fields [OF s0(2)] by auto
  have took0: "took sz ok in_use own s0 ps t \<longleftrightarrow> took sz ok in_use own s ps t" for ps t
    by (simp add: took_def ok0)
  have free0: "free_sectors sz in_use s0 = free_sectors sz in_use s"
    by (simp add: free_sectors_def ok0)
  have len: "length ws = 128"
    using ok_fs [OF s] k(1) by (simp add: ws_def fs_ok_def BLOCK_SECTOR_SIZE_def length_bytes_words)
  have fits: "c - 122 + (n - c) \<le> length ws"
    using cur new len by simp
  obtain ps s1 b where ps: "alloc_range alloc (n - c) (c - 122) s0 ws =
        Some (b, take (c - 122) ws @ ps @ drop (c - 122 + length ps) ws, s1)"
      "took sz ok in_use own s ps s1" "b \<longleftrightarrow> length ps = n - c" "b \<longleftrightarrow> n - c \<le> card (free_sectors sz in_use s)"
    using alloc_range_ok [OF ok0(1) fits] unfolding took0 free0 by blast
  show ?thesis
  proof (cases b)
    case False
    then have "extend_indirect alloc cur new s d = Some (False, cur, s1)"
      using ps(1) limit by (simp add: extend_indirect_def s0(1) ws_def [symmetric] Let_def)
    then show ?thesis
      using False ps by auto
  next
    case True
    let ?ws = "take (c - 122) ws @ ps @ drop (n - 122) ws"
    have n: "c - 122 + length ps = n - 122" "length (words_bytes ?ws) = BLOCK_SECTOR_SIZE"
      using True ps(3) cur new len by (auto simp: BLOCK_SECTOR_SIZE_def)
    obtain s2 where s2: "cwrite s1 (indirect_ptr d) (words_bytes ?ws) = Some s2"
        "moved sz s1 ((sview s1)(indirect_ptr d := words_bytes ?ws)) s2"
      using cwrite_ok [OF _ k(1) n(2), of s1] ps(2) ok_fs by (auto simp: took_def)
    have "\<exists>c'. extend_indirect alloc cur new s d = Some (True, c', s2)"
      using ps(1) limit True s2(1) n(1) by (simp add: extend_indirect_def s0(1) ws_def [symmetric] Let_def)
    then show ?thesis
      using True ps(2-4) s2(2) by auto
  qed
qed

text \<open>What growing a file by the sectors \<open>ps\<close> keeps of the rest of the file system.\<close>

lemma took_same_but: "took sz ok in_use own s ps s' \<Longrightarrow> same_but (own \<union> set ps) (sview s) (sview s')"
  by (auto simp: took_def same_but_def)

lemma grown_direct:
  assumes s: "ok s" and d: "length (direct_ptrs d) = 122" and n: "c \<le> n" "n \<le> 122"
    and ps: "took sz ok in_use own s ps s'" "length ps = n - c"
  shows "grown sz ok in_use own c s d n (d\<lparr>direct_ptrs := take c (direct_ptrs d) @ ps @ drop n (direct_ptrs d)\<rparr>) s'"
  unfolding grown_def
  using extended_direct [OF d n ps(2), of _ "sview s" "sview s'"] ps(1)
  by (intro exI [of "\<lambda>x. \<exists>y. _ x y" ps] exI [of _ "take c (direct_ptrs d) @ ps @ drop n (direct_ptrs d)"])
    (auto simp: took_def same_but_def)

lemma grown_indirect:
  assumes s: "ok s" and d: "length (direct_ptrs d) = 122" "indirect_ptr d < sz" "indirect_ptr d \<notin> own" "in_use s (indirect_ptr d)"
    and n: "c \<le> n" "122 < n" "n \<le> 250" and ps: "took sz ok in_use own s ps s1" "length ps = 122 - c"
    and qs: "took sz ok in_use own s1 qs s2" "length qs = n - max c 122"
    and s': "moved sz s2 ((sview s2)(indirect_ptr d := words_bytes (take (max c 122 - 122) ws @ qs @ drop (n - 122) ws))) s'"
    and ws: "ws = bytes_words (sview s (indirect_ptr d))"
  shows "grown sz ok in_use own c s d n (d\<lparr>direct_ptrs := take c (direct_ptrs d) @ ps @ drop (c + length ps) (direct_ptrs d)\<rparr>) s'"
proof -
  have len: "length ws = 128"
    using ok_fs [OF s] d(2) by (simp add: ws fs_ok_def BLOCK_SECTOR_SIZE_def length_bytes_words)
  have t: "took sz ok in_use own s (ps @ qs) s2"
    using took_append [OF s ps(1) qs(1)] .
  have ind: "indirect_ptr d \<notin> set (ps @ qs)"
    using t d(4) by (auto simp: took_def)
  have "ok s2"
    using qs(1) by (simp add: took_def)
  then have ok': "ok s'" "in_use s' = in_use s2" "open_inodes s' = open_inodes s2"
    using other_write [OF _ s'] d(3) moved_fields [OF s'] by auto
  have v': "sview s' = (sview s2)(indirect_ptr d := words_bytes (take (max c 122 - 122) ws @ qs @ drop (n - 122) ws))"
    using moved_ok [OF s'] by simp
  have "extended c n (ps @ qs) (sview s) d (sview s')
      (d\<lparr>direct_ptrs := take c (direct_ptrs d) @ ps @ drop (c + length ps) (direct_ptrs d)\<rparr>)"
    by (rule extended_indirect [OF d(1) n ps(2) _ _ len _ qs(2)]) (simp_all add: v' ws)
  moreover have "same_but (own \<union> set (ps @ qs) \<union> {indirect_ptr d}) (sview s) (sview s')"
    using took_same_but [OF t] by (auto simp: same_but_def v')
  moreover have "\<forall>p \<in> set (ps @ qs). sview s' p = empty_sector"
    using t ind by (auto simp: took_def v')
  ultimately show ?thesis
    unfolding grown_def using t ok'
    by (intro exI [of "\<lambda>x. \<exists>y. _ x y" "ps @ qs"]
        exI [of _ "take c (direct_ptrs d) @ ps @ drop (c + length ps) (direct_ptrs d)"]) (auto simp: took_def)
qed

lemma inode_extend_grow:
  assumes s: "ok s" and f: "small_file sz (in_use s) own (sview s) d"
    and len: "i_length d \<le> len" "len < 250 * 512"
  defines "c \<equiv> nblocks d" and "n \<equiv> (nat len + 511) div 512"
  assumes cn: "c < n"
  shows "if n - c \<le> card (free_sectors sz in_use s)
    then \<exists>s' d'. inode_extend_with alloc s d len = Some (True, d'\<lparr>i_length := len\<rparr>, s') \<and> grown sz ok in_use own c s d n d' s'
    else \<exists>s' d'. inode_extend_with alloc s d len = Some (False, d', s')"
proof -
  have d: "length (direct_ptrs d) = 122" "indirect_ptr d < sz" "indirect_ptr d \<notin> own" "in_use s (indirect_ptr d)"
    using f by (simp_all add: small_file_def)
  define cur where "cur = bytes_to_sectors (i_length d)"
  define new where "new = bytes_to_sectors len"
  have "n \<le> 250"
    using len(2) by (simp add: n_def)
  then have u: "unat cur = c" "unat new = n" "n \<le> 250" "\<not> new < cur" "new \<noteq> cur" "\<not> len > (122 + 128 + 128 * 122) * 512"
    using bytes_to_sectors_eq(2) [of "i_length d"] bytes_to_sectors_eq(2) [of len] small_file_length [OF f] len cn
    by (auto simp: cur_def new_def c_def n_def nblocks_def word_less_nat_alt)
  define l where "l = min n 122"
  define d1 where "d1 ps = d\<lparr>direct_ptrs := take c (direct_ptrs d) @ ps @ drop (c + length ps) (direct_ptrs d)\<rparr>" for ps
  define cur1 where "cur1 = (if c < 122 \<and> 122 \<le> n then 122 else cur)"
  obtain ps s1 b where ps: "extend_direct alloc cur new s d = Some (b, cur1, d1 ps, s1)"
      "took sz ok in_use own s ps s1" "length ps \<le> l - c" "b \<longleftrightarrow> length ps = l - c"
      "b \<longleftrightarrow> l - c \<le> card (free_sectors sz in_use s)"
    using extend_direct_ok [OF s d(1) u(1,2) less_imp_le [OF cn]] unfolding d1_def cur1_def l_def by blast
  have no_doubly: "extend_doubly alloc x new t e = Some (True, t)" for x t e
    using u(2,3) by (simp add: extend_doubly_def word_less_nat_alt)
  have unfold: "inode_extend_with alloc s d len = (if \<not> b then Some (False, d1 ps, s1) else do {
      (ok, x, t) \<leftarrow> extend_indirect alloc cur1 new s1 (d1 ps);
      if \<not> ok then Some (False, d1 ps, t) else Some (True, (d1 ps)\<lparr>i_length := len\<rparr>, t) })"
    using u(4-6) len small_file_length [OF f] ps(1)
    by (cases "extend_indirect alloc cur1 new s1 (d1 ps)")
      (auto simp: inode_extend_with_def cur_def [symmetric] new_def [symmetric] no_doubly)
  consider "\<not> b" | "b" "n \<le> 122" | "b" "122 < n"
    by linarith
  then show ?thesis
  proof cases
    case 1
    moreover have "\<not> n - c \<le> card (free_sectors sz in_use s)"
      using 1 ps(5) by (auto simp: l_def)
    ultimately show ?thesis
      using unfold by auto
  next
    case 2
    have "extend_indirect alloc cur1 new s1 (d1 ps) = Some (True, cur1, s1)"
      using 2 u(2) by (simp add: extend_indirect_def word_less_nat_alt)
    moreover have "grown sz ok in_use own c s d n (d1 ps) s1"
      using grown_direct [OF s d(1) less_imp_le [OF cn] 2(2) ps(2)] 2 ps(4) cn by (simp add: l_def d1_def)
    ultimately show ?thesis
      using unfold 2 ps(5) by (auto simp: l_def)
  next
    case 3
    let ?e = "max c 122"
    have c1: "unat cur1 = ?e" "122 \<le> ?e" "?e < n"
      using 3 u(1) cn by (auto simp: cur1_def)
    have ind: "indirect_ptr (d1 ps) = indirect_ptr d" "sview s1 (indirect_ptr d) = sview s (indirect_ptr d)" "ok s1"
      using ps(2) d(3,4) by (auto simp: d1_def took_def)
    have len_ps: "length ps = 122 - c"
      using 3 ps(4) by (simp add: l_def)
    then have room: "n - ?e \<le> card (free_sectors sz in_use s1) \<longleftrightarrow> n - c \<le> card (free_sectors sz in_use s)"
      using took_card [OF ps(2)] 3(2) cn by auto
    obtain qs t where qs: "if n - ?e \<le> card (free_sectors sz in_use s1)
        then (\<exists>x. extend_indirect alloc cur1 new s1 (d1 ps) = Some (True, x, t)) \<and> length qs = n - ?e
          \<and> (\<exists>s2. took sz ok in_use own s1 qs s2 \<and> moved sz s2 ((sview s2)(indirect_ptr d :=
              words_bytes (take (?e - 122) (bytes_words (sview s (indirect_ptr d))) @ qs
                @ drop (n - 122) (bytes_words (sview s (indirect_ptr d)))))) t)
        else extend_indirect alloc cur1 new s1 (d1 ps) = Some (False, cur1, t) \<and> took sz ok in_use own s1 qs t"
      using extend_indirect_ok [OF ind(3) _ _ c1 u(2,3), of "d1 ps", unfolded ind(1,2), OF d(2,3)] by blast
    show ?thesis
    proof (cases "n - c \<le> card (free_sectors sz in_use s)")
      case False
      then show ?thesis
        using qs room unfold 3(1) by auto
    next
      case True
      then obtain x s2 where x: "extend_indirect alloc cur1 new s1 (d1 ps) = Some (True, x, t)" "length qs = n - ?e"
          "took sz ok in_use own s1 qs s2" "moved sz s2 ((sview s2)(indirect_ptr d :=
              words_bytes (take (?e - 122) (bytes_words (sview s (indirect_ptr d))) @ qs
                @ drop (n - 122) (bytes_words (sview s (indirect_ptr d)))))) t"
        using qs room by auto
      have "grown sz ok in_use own c s d n (d1 ps) t"
        unfolding d1_def
        by (rule grown_indirect [OF s d less_imp_le [OF cn] 3(2) u(3) ps(2) len_ps x(3,2,4) refl])
      then show ?thesis
        using True x(1) unfold 3(1) by auto
    qed
  qed
qed

lemma grown_blocks:
  assumes s: "ok s" and f: "small_file sz (in_use s) own (sview s) d" and g: "grown sz ok in_use own (nblocks d) s d n d' s'"
  shows "k < nblocks d \<Longrightarrow> sector_of (sview s') d' k = sector_of (sview s) d k \<and>
      sview s' (sector_of (sview s) d k) = sview s (sector_of (sview s) d k)"
    and "nblocks d \<le> k \<Longrightarrow> k < n \<Longrightarrow> sector_of (sview s') d' k < sz \<and> in_use s' (sector_of (sview s') d' k)
      \<and> \<not> in_use s (sector_of (sview s') d' k) \<and> sview s' (sector_of (sview s') d' k) = empty_sector"
    and "inj_on (sector_of (sview s') d') {nblocks d..<n}"
proof -
  obtain ps where ps: "extended (nblocks d) n ps (sview s) d (sview s') d'" "distinct ps"
      "\<forall>p \<in> set ps. p < sz \<and> \<not> in_use s p \<and> sview s' p = empty_sector" "\<forall>p. in_use s' p \<longleftrightarrow> in_use s p \<or> p \<in> set ps"
      "same_but (own \<union> set ps \<union> {indirect_ptr d}) (sview s) (sview s')"
    using g unfolding grown_def by blast
  show "sector_of (sview s') d' k = sector_of (sview s) d k \<and>
      sview s' (sector_of (sview s) d k) = sview s (sector_of (sview s) d k)" if "k < nblocks d"
    using that ps f by (auto simp: extended_def same_but_def small_file_def)
  have new: "sector_of (sview s') d' k = ps ! (k - nblocks d) \<and> k - nblocks d < length ps" if "nblocks d \<le> k" "k < n" for k
    using that ps(1) by (auto simp: extended_def)
  then show "sector_of (sview s') d' k < sz \<and> in_use s' (sector_of (sview s') d' k)
      \<and> \<not> in_use s (sector_of (sview s') d' k) \<and> sview s' (sector_of (sview s') d' k) = empty_sector"
    if "nblocks d \<le> k" "k < n"
    using that ps(3,4) by (simp add: nth_mem)
  show "inj_on (sector_of (sview s') d') {nblocks d..<n}"
  proof (rule inj_onI)
    fix j k
    assume "j \<in> {nblocks d..<n}" "k \<in> {nblocks d..<n}" "sector_of (sview s') d' j = sector_of (sview s') d' k"
    then have "ps ! (j - nblocks d) = ps ! (k - nblocks d)" "j - nblocks d < length ps" "k - nblocks d < length ps"
      "nblocks d \<le> j" "nblocks d \<le> k"
      using new by auto
    then show "j = k"
      using nth_eq_iff_index_eq [OF ps(2)] by auto
  qed
qed

lemma grown_bytes:
  assumes "ok s" "small_file sz (in_use s) own (sview s) d" "grown sz ok in_use own (nblocks d) s d n d' s'" "i < n * 512"
  shows "byte_at (sview s') d' i = (if i < nat (i_length d) then byte_at (sview s) d i else 0)"
proof (cases "i div 512 < nblocks d")
  case True
  then have "i < nblocks d * 512"
    by (simp add: div_less_iff_less_mult)
  then show ?thesis
    using grown_blocks(1) [OF assms(1-3) True] assms(2) by (auto simp: byte_at_def small_file_def)
next
  case False
  moreover have "i div 512 < n"
    using assms(4) by (simp add: div_less_iff_less_mult)
  moreover have "\<not> i < nat (i_length d)"
    using False block_in_file by blast
  ultimately show ?thesis
    using grown_blocks(2) [OF assms(1-3)] by (simp add: byte_at_def empty_sector_def BLOCK_SECTOR_SIZE_def)
qed

lemma grown_content:
  assumes "ok s" "small_file sz (in_use s) own (sview s) d" "grown sz ok in_use own (nblocks d) s d n d' s'"
    and "i_length d \<le> len" "n = (nat len + 511) div 512"
  shows "content (sview s') (d'\<lparr>i_length := len\<rparr>) = content (sview s) d @ replicate (nat len - nat (i_length d)) 0"
proof (rule nth_equalityI)
  fix i
  assume "i < length (content (sview s') (d'\<lparr>i_length := len\<rparr>))"
  then have i: "i < nat len"
    by simp
  then have "i < n * 512"
    unfolding assms(5) by linarith
  with i show "content (sview s') (d'\<lparr>i_length := len\<rparr>) ! i =
      (content (sview s) d @ replicate (nat len - nat (i_length d)) 0) ! i"
    using grown_bytes [OF assms(1-3)] by (auto simp: content_def nth_append)
qed (use assms(4) in auto)

lemma grown_small_file:
  assumes s: "ok s" and f: "small_file sz (in_use s) own (sview s) d" and g: "grown sz ok in_use own (nblocks d) s d n d' s'"
    and len: "i_length d \<le> len" "len < 250 * 512" "n = (nat len + 511) div 512"
  shows "small_file sz (in_use s') own (sview s') (d'\<lparr>i_length := len\<rparr>)" "ok s'"
proof -
  obtain ps where "extended (nblocks d) n ps (sview s) d (sview s') d'" "ok s'" "\<forall>p. in_use s' p \<longleftrightarrow> in_use s p \<or> p \<in> set ps"
    using g unfolding grown_def by blast
  then have g': "length (direct_ptrs d') = 122" "indirect_ptr d' = indirect_ptr d" "\<forall>p. in_use s p \<longrightarrow> in_use s' p" and "ok s'"
    by (simp_all add: extended_def)
  then show "ok s'"
    by simp
  have n: "nblocks (d'\<lparr>i_length := len\<rparr>) = n"
    by (simp add: nblocks_def len(3))
  have old: "sector_of (sview s') d' j = sector_of (sview s) d j" "sector_of (sview s) d j < sz" "in_use s (sector_of (sview s) d j)"
      "sector_of (sview s) d j \<notin> own" "sector_of (sview s) d j \<noteq> indirect_ptr d" if "j < nblocks d" for j
    using grown_blocks(1) [OF s f g that] f that by (auto simp: small_file_def)
  have new: "sector_of (sview s') d' j < sz" "in_use s' (sector_of (sview s') d' j)" "\<not> in_use s (sector_of (sview s') d' j)"
    if "\<not> j < nblocks d" "j < n" for j
    using grown_blocks(2) [OF s f g] that by auto
  have inj: "inj_on (sector_of (sview s') d') {..<n}"
  proof (rule inj_onI)
    fix i j
    assume "i \<in> {..<n}" "j \<in> {..<n}" and eq: "sector_of (sview s') d' i = sector_of (sview s') d' j"
    moreover have "inj_on (sector_of (sview s) d) {..<nblocks d}"
      using f by (simp add: small_file_def)
    ultimately show "i = j"
      using old [of i] old [of j] new [of i] new [of j] grown_blocks(3) [OF s f g]
      by (cases "i < nblocks d"; cases "j < nblocks d") (auto simp: inj_on_def)
  qed
  have "sector_of (sview s') d' j < sz \<and> in_use s' (sector_of (sview s') d' j) \<and> sector_of (sview s') d' j \<notin> own
      \<and> sector_of (sview s') d' j \<noteq> indirect_ptr d" if "j < n" for j
    using old [of j] new [of j] that own_in_use [OF s] f g'(3) by (cases "j < nblocks d") (auto simp: small_file_def)
  moreover have "byte_at (sview s') d' i = 0" if "nat len \<le> i" "i < n * 512" for i
    using grown_bytes [OF s f g that(2)] that(1) nat_mono [OF len(1)] by simp
  moreover have "0 \<le> len"
    using f len(1) by (simp add: small_file_def)
  ultimately show "small_file sz (in_use s') own (sview s') (d'\<lparr>i_length := len\<rparr>)"
    using inj f g' len(2) by (simp add: small_file_def n)
qed

text \<open>The step of \<^verbatim>\<open>inode_write_at\<close> that makes room: the inode in memory and its sector get the
  new length and pointers, and the content of the file is continued with zeros.\<close>

lemma make_room:
  assumes s: "ok s" and i: "get_inode s k = Some i" "i_data i = d"
    and f: "small_file sz (in_use s) own (sview s) d"
    and k: "k < sz" "in_use s k" "k \<notin> own" "k \<noteq> home" "k \<noteq> indirect_ptr d" "\<forall>j < nblocks d. sector_of (sview s) d j \<noteq> k"
    and len: "i_length d \<le> len" "len < 250 * 512"
    and room: "(nat len + 511) div 512 - nblocks d \<le> card (free_sectors sz in_use s)"
  shows "\<exists>d1 d' s1 s'. inode_extend_with alloc s d len = Some (True, d1, s1) \<and> d' = d1\<lparr>i_length := len\<rparr>
    \<and> cwrite (upd_inode s1 k (\<lambda>i. i\<lparr>i_data := d'\<rparr>)) k (encode_inode d') = Some s' \<and> ok s'
    \<and> small_file sz (in_use s') own (sview s') d' \<and> (\<forall>j < nblocks d'. sector_of (sview s') d' j \<noteq> k)
    \<and> content (sview s') d' = content (sview s) d @ replicate (nat len - nat (i_length d)) 0
    \<and> get_inode s' k = Some (i\<lparr>i_data := d'\<rparr>) \<and> sview s' k = encode_inode d'
    \<and> (\<forall>j < nblocks d'. in_use s (sector_of (sview s') d' j) \<longrightarrow> sector_of (sview s') d' j \<in> sector_of (sview s) d ` {..<nblocks d})
    \<and> (\<forall>p. in_use s p \<and> p \<notin> own \<and> p \<noteq> k \<and> p \<noteq> indirect_ptr d \<longrightarrow> sview s' p = sview s p)"
proof -
  define n where "n = (nat len + 511) div 512"
  have "nblocks d \<le> n"
    using nat_mono [OF len(1)] by (simp add: nblocks_def n_def div_le_mono)
  have "\<exists>d0 d1 s1. inode_extend_with alloc s d len = Some (True, d1, s1) \<and> d1\<lparr>i_length := len\<rparr> = d0\<lparr>i_length := len\<rparr>
      \<and> grown sz ok in_use own (nblocks d) s d n d0 s1"
  proof (cases "nblocks d = n")
    case True
    then have "bytes_to_sectors len = bytes_to_sectors (i_length d)"
      using bytes_to_sectors_eq(1) [of "i_length d"] bytes_to_sectors_eq(1) [of len] small_file_length [OF f] len
      by (simp add: nblocks_def n_def)
    then have "inode_extend_with alloc s d len = Some (True, d, s)"
      using small_file_length [OF f] len by (simp add: inode_extend_with_def)
    moreover have "grown sz ok in_use own (nblocks d) s d n d s"
      using s f True unfolding grown_def
      by (intro exI [of "\<lambda>x. \<exists>y. _ x y" "[]"] exI [of _ "direct_ptrs d"]) (auto simp: extended_def same_but_def small_file_def)
    ultimately show ?thesis
      by blast
  next
    case False
    then show ?thesis
      using inode_extend_grow [OF s f len] room \<open>nblocks d \<le> n\<close> by (auto simp: n_def)
  qed
  then obtain d0 d1 s1 where d1: "inode_extend_with alloc s d len = Some (True, d1, s1)"
      "d1\<lparr>i_length := len\<rparr> = d0\<lparr>i_length := len\<rparr>" and g: "grown sz ok in_use own (nblocks d) s d n d0 s1"
    by blast
  define d' where "d' = d0\<lparr>i_length := len\<rparr>"
  define s2 where "s2 = upd_inode s1 k (\<lambda>i. i\<lparr>i_data := d'\<rparr>)"
  note file1 = grown_small_file [OF s f g len n_def, folded d'_def]
  note content1 = grown_content [OF s f g len(1) n_def, folded d'_def]
  have ok2: "ok s2" "in_use s2 = in_use s1" "sview s2 = sview s1"
    using other_inode [OF file1(2) k(4), of "\<lambda>i. i\<lparr>i_data := d'\<rparr>"] by (simp_all add: s2_def)
  have n: "nblocks d' = n" "indirect_ptr d' = indirect_ptr d" "length (direct_ptrs d') = DIRECT_PTRS"
    using file1(1) g by (auto simp: d'_def nblocks_def n_def grown_def extended_def small_file_def DIRECT_PTRS_def)
  have away: "sector_of (sview s1) d' j \<noteq> k" if "j < n" for j
    using grown_blocks(1) [OF s f g, of j] grown_blocks(2) [OF s f g, of j] k(2,6) that
    by (cases "j < nblocks d") (auto simp: d'_def)
  obtain s' where s': "cwrite s2 k (encode_inode d') = Some s'" "moved sz s2 ((sview s2)(k := encode_inode d')) s'"
    using cwrite_ok [OF ok_fs [OF ok2(1)] k(1) length_encode_inode [OF n(3)]] by blast
  have ok': "ok s'" "in_use s' = in_use s1" "sview s' = (sview s1)(k := encode_inode d')"
    using other_write [OF ok2(1) s'(2)] k(3) ok2 moved_ok [OF s'(2)] by auto
  note file' = small_file_cong [OF file1(1), of "sview s'"]
  have "open_inodes s1 = open_inodes s"
    using g unfolding grown_def by blast
  then have "get_inode s1 k = Some i"
    using i(1) by (simp add: get_inode_def)
  then have "get_inode s' k = Some (i\<lparr>i_data := d'\<rparr>)"
    using moved_get_inode [OF s'(2), of k] get_upd_inode [of "\<lambda>i. i\<lparr>i_data := d'\<rparr>" s1 k] by (simp add: s2_def)
  moreover have "\<forall>j < n. in_use s (sector_of (sview s1) d' j) \<longrightarrow> sector_of (sview s1) d' j \<in> sector_of (sview s) d ` {..<nblocks d}"
  proof (intro allI impI)
    fix j
    assume "j < n" "in_use s (sector_of (sview s1) d' j)"
    then show "sector_of (sview s1) d' j \<in> sector_of (sview s) d ` {..<nblocks d}"
      using grown_blocks(1,2) [OF s f g, of j] by (cases "j < nblocks d") (auto simp: d'_def)
  qed
  moreover have "\<forall>p. in_use s p \<and> p \<notin> own \<and> p \<noteq> indirect_ptr d \<longrightarrow> sview s1 p = sview s p"
    using g by (auto simp: grown_def same_but_def)
  ultimately show ?thesis
    using d1 s'(1) ok' file' away n k(5) content1 unfolding s2_def
    by (intro exI [of _ d1] exI [of _ d'] exI [of _ s1] exI [of _ s']) (simp add: d'_def)
qed

lemma inode_write_at_grows:
  assumes s: "ok s" and i: "get_inode s k = Some i" "i_data i = d" "deny_write_cnt i = 0"
    and f: "small_file sz (in_use s) own (sview s) d"
    and k: "k < sz" "in_use s k" "k \<notin> own" "k \<noteq> home" "k \<noteq> indirect_ptr d" "\<forall>j < nblocks d. sector_of (sview s) d j \<noteq> k"
    and n: "0 \<le> offset" "n = int (length buf)" "i_length d < offset + n - 1" "offset + n < 250 * 512"
    and room: "(nat (offset + n) + 511) div 512 - nblocks d \<le> card (free_sectors sz in_use s)"
  shows "\<exists>d' s'. inode_write_at_with alloc True s k buf n offset = Some (n, s') \<and> ok s'
    \<and> get_inode s' k = Some (i\<lparr>i_data := d'\<rparr>) \<and> sview s' k = encode_inode d' \<and> i_length d' = offset + n
    \<and> small_file sz (in_use s') own (sview s') d'
    \<and> content (sview s') d' =
        put_bytes (content (sview s) d @ replicate (nat (offset + n) - nat (i_length d)) 0) (nat offset) buf
    \<and> (\<forall>p. in_use s p \<and> p \<notin> own \<and> p \<noteq> k \<and> p \<noteq> indirect_ptr d \<and> p \<notin> sector_of (sview s) d ` {..<nblocks d}
        \<longrightarrow> sview s' p = sview s p)"
proof -
  have len: "i_length d \<le> offset + n"
    using n(3) by simp
  obtain d1 d' s1 s2 where d1: "inode_extend_with alloc s d (offset + n) = Some (True, d1, s1)" "d' = d1\<lparr>i_length := offset + n\<rparr>"
      "cwrite (upd_inode s1 k (\<lambda>i. i\<lparr>i_data := d'\<rparr>)) k (encode_inode d') = Some s2"
    and s2: "ok s2" "small_file sz (in_use s2) own (sview s2) d'" "\<forall>j < nblocks d'. sector_of (sview s2) d' j \<noteq> k"
      "content (sview s2) d' = content (sview s) d @ replicate (nat (offset + n) - nat (i_length d)) 0"
      "get_inode s2 k = Some (i\<lparr>i_data := d'\<rparr>)" "sview s2 k = encode_inode d'"
    and frame: "\<forall>j < nblocks d'. in_use s (sector_of (sview s2) d' j) \<longrightarrow> sector_of (sview s2) d' j \<in> sector_of (sview s) d ` {..<nblocks d}"
      "\<forall>p. in_use s p \<and> p \<notin> own \<and> p \<noteq> k \<and> p \<noteq> indirect_ptr d \<longrightarrow> sview s2 p = sview s p"
    using make_room [OF s i(1,2) f k len n(4) room] by blast
  have l: "i_length d' = offset + n"
    by (simp add: d1(2))
  have m: "min (nat n) (nat (i_length d') - nat offset) = length buf" "int (length buf) = n"
    using n(1,2) by (simp_all add: l nat_add_distrib)
  have "0 \<le> n" "n + int 0 \<le> int (length buf)"
    by (simp_all add: n(2))
  from inode_write_loop_ok [OF ok_fs [OF s2(1)] small_file_wf [OF s2(2)] this, of "nat offset", unfolded m(1)]
  obtain s3 v3 where s3: "inode_write_loop s2 d' True buf n offset 0 = Some (n, s3)" "moved sz s2 v3 s3"
      "wrote sz d' (nat offset) buf (sview s2) v3"
    using n(1,2) by auto
  have v3: "sview s3 = v3"
    using moved_ok [OF s3(2)] by simp
  have keep: "v3 p = sview s2 p" if "\<And>j. j < nblocks d' \<Longrightarrow> sector_of (sview s2) d' j \<noteq> p" for p
  proof -
    have "p \<notin> sector_of (sview s2) d' ` {..<nblocks d'}"
      using that by blast
    then show ?thesis
      using s3(3) by (simp add: wrote_def)
  qed
  have own: "\<forall>p \<in> own. v3 p = sview s2 p"
    using s2(2) by (auto simp: small_file_def intro!: keep)
  have k3: "v3 k = sview s2 k"
    using s2(3) by (intro keep) auto
  have "inode_write_at_with alloc True s k buf n offset = Some (n, s3)"
    using n(3) d1 s3(1) by (simp add: inode_write_at_with_def i byte_to_sector_outside get_inode_def [symmetric] Let_def i_sector_get [OF i(1)])
  moreover have "small_file sz (in_use s3) own (sview s3) d'" "ok s3"
    using small_file_wrote [OF s2(2) s3(3)] other_write [OF s2(1) s3(2) own] v3 by simp_all
  moreover have "content (sview s3) d' = put_bytes (content (sview s2) d') (nat offset) buf"
    using s3(3) v3 by (simp add: wrote_def)
  moreover have "\<forall>p. in_use s p \<and> p \<notin> own \<and> p \<noteq> k \<and> p \<noteq> indirect_ptr d \<and> p \<notin> sector_of (sview s) d ` {..<nblocks d}
        \<longrightarrow> sview s3 p = sview s p"
    unfolding v3 using keep frame by metis
  ultimately show ?thesis
    using s2(4-6) l k3 v3 moved_get_inode [OF s3(2), of k] by (intro exI [of _ d'] exI [of _ s3]) simp
qed

end

subsection \<open>Beyond the indirect block\<close>

text \<open>With more than one second-level block to fill, the first of them is filled up to index
  128, which the assertion of \<^verbatim>\<open>allocate_indirect_block\<close> rejects.\<close>

lemma extend_doubly_never:
  assumes new: "378 < unat new" "unat new < 2 ^ 23"
  shows "extend_doubly alloc 250 new s d \<noteq> Some (True, s')"
proof -
  define q where "q = DIV_ROUND_UP (new - 250) 128 - 1"
  have "unat (new - 250) = unat new - 250"
    using new by (subst unat_sub) (simp_all add: word_le_nat_alt)
  moreover from this have "unat (new - 250 + 127) = unat new - 250 + 127"
    using new by (subst unat_add_small) simp_all
  ultimately have "unat (DIV_ROUND_UP (new - 250) 128) = (unat new - 123) div 128"
    using new by (simp add: DIV_ROUND_UP_def unat_div)
  moreover have "2 \<le> (unat new - 123) div 128" "(unat new - 123) div 128 < 2 ^ 24"
    using new by (auto simp: div_less_iff_less_mult less_eq_div_iff_mult_less_eq)
  ultimately have q: "1 \<le> unat q" "unat q < 2 ^ 24"
    unfolding q_def by (subst unat_sub; simp add: word_le_nat_alt)+
  have "int (unat q) < int (2 ^ 24)"
    using q(2) by (simp only: of_nat_less_iff)
  then have "uint q < 2 ^ 31" "- (2 ^ 31) \<le> uint q"
    using order_trans [OF _ uint_ge_0 [of q], of "- (2 ^ 31)"] by simp_all
  then have sq: "sint q = int (unat q)"
    by (simp add: sint_uint signed_take_bit_int_eq_self)
  then obtain n where n: "nat (sint q + 1) = Suc n" "sint q \<noteq> 0"
    using q by (metis Suc_eq_plus1 nat_int nat_int_add of_nat_1 of_nat_eq_0_iff not_one_le_zero)
  have "extend_second_level alloc (Suc n) 0 0 (sint q) (- 1) x t dbl = None" for x t dbl
    using n(2) by (cases "cread t (dbl ! 0)") (auto simp: allocate_indirect_block_def)
  moreover have "new > 250" "(250 :: size_t) < 250 + 128 * 128"
    using new by (simp_all add: word_less_nat_alt)
  moreover have "DIV_ROUND_UP (0 :: size_t) 128 = 0"
    by (simp add: DIV_ROUND_UP_def)
  ultimately show ?thesis
    using n(1) by (auto simp: extend_doubly_def q_def [symmetric] Let_def simp del: extend_second_level.simps
        split: Option.bind_split if_splits)
qed

lemma inode_extend_never:
  assumes "0 \<le> i_length d" "nblocks d \<le> 250" "378 * 512 < len" "len < 2 ^ 31"
  shows "inode_extend_with alloc s d len \<noteq> Some (True, d', s')"
proof -
  define cur where "cur = bytes_to_sectors (i_length d)"
  define new where "new = bytes_to_sectors len"
  have "i_length d < 2 ^ 31"
    using assms(2) by (simp add: nblocks_def)
  then have u: "unat cur = nblocks d" "unat new = (nat len + 511) div 512"
    using bytes_to_sectors_eq(2) assms by (simp_all add: cur_def new_def nblocks_def)
  have new: "378 < unat new" "unat new < 2 ^ 23" "\<not> new < cur" "new \<noteq> cur" "122 \<le> new" "122 < new" "250 \<le> new"
    using assms u by (auto simp: word_less_nat_alt word_le_nat_alt)
  have cur: "cur \<le> 250"
    using assms(2) u by (simp add: word_le_nat_alt)
  have direct: "cur1 = (if cur < 122 then 122 else cur)" if "extend_direct alloc cur new s d = Some (True, cur1, d1, s1)" for cur1 d1 s1
    using that new(5) by (auto simp: extend_direct_def Let_def split: if_splits Option.bind_split_asm)
  have indirect: "cur2 = 250" if "extend_indirect alloc (if cur < 122 then 122 else cur) new s1 d1 = Some (True, cur2, s2)" for cur2 s1 d1 s2
    using that new(6,7) cur by (auto simp: extend_indirect_def Let_def split: if_splits Option.bind_split_asm)
  show ?thesis
  proof
    assume "inode_extend_with alloc s d len = Some (True, d', s')"
    then obtain cur1 d1 s1 cur2 s2 where
      "extend_direct alloc cur new s d = Some (True, cur1, d1, s1)"
      "extend_indirect alloc cur1 new s1 d1 = Some (True, cur2, s2)"
      "extend_doubly alloc cur2 new s2 d1 = Some (True, s')"
      using new(3,4) by (auto simp: inode_extend_with_def cur_def [symmetric] new_def [symmetric] Let_def
          split: if_splits Option.bind_split_asm)
    then show False
      using direct indirect extend_doubly_never [OF new(1,2)] by blast
  qed
qed

subsection \<open>Properties\<close>

text \<open>C20: a write past the end of a file (by more than one byte) whose new end is still
  reached by the direct pointers and the indirect block: if the disk has enough free
  sectors, all bytes are written, the file has the new length in memory and on disk, its
  content is the old content continued with zeros and then overwritten at the offset, it
  stays well-formed with its blocks marked in use, the free map stays consistent and no
  sector of any other file changes; if not, the call returns 0. It never stops the kernel.\<close>

theorem write_past_end_grows_file:
  assumes "map_ok sz f m own s" "get_inode s k = Some i" "i_data i = d" "deny_write_cnt i = 0"
    and "small_file sz (used s) own (sview s) d"
    and "k < sz" "used s k" "k \<notin> own" "k \<noteq> f" "k \<noteq> indirect_ptr d" "\<forall>j < nblocks d. sector_of (sview s) d j \<noteq> k"
    and "0 \<le> offset" "n = int (length buf)" "i_length d < offset + n - 1" "offset + n < 250 * 512"
  shows "if (nat (offset + n) + 511) div 512 - nblocks d \<le> card (free_sectors sz used s)
    then \<exists>d' s'. inode_write_at True s k buf n offset = Some (n, s') \<and> map_ok sz f m own s'
      \<and> get_inode s' k = Some (i\<lparr>i_data := d'\<rparr>) \<and> sview s' k = encode_inode d' \<and> i_length d' = offset + n
      \<and> small_file sz (used s') own (sview s') d'
      \<and> content (sview s') d' =
          put_bytes (content (sview s) d @ replicate (nat (offset + n) - nat (i_length d)) 0) (nat offset) buf
      \<and> (\<forall>p. used s p \<and> p \<notin> own \<and> p \<noteq> k \<and> p \<noteq> indirect_ptr d \<and> p \<notin> sector_of (sview s) d ` {..<nblocks d}
          \<longrightarrow> sview s' p = sview s p)
    else \<exists>s'. inode_write_at True s k buf n offset = Some (0, s')"
proof (cases "(nat (offset + n) + 511) div 512 - nblocks d \<le> card (free_sectors sz used s)")
  case True
  then show ?thesis
    using free_map_source.inode_write_at_grows [OF assms True] by (simp add: inode_write_at_def)
next
  case False
  have len: "i_length d \<le> offset + n" "nblocks d < (nat (offset + n) + 511) div 512"
    using assms(14) False by auto
  obtain s' d' where "inode_extend_with (free_map_allocate True 1) s d (offset + n) = Some (False, d', s')"
    using free_map_source.inode_extend_grow [OF assms(1,5) len(1) assms(15) len(2)] False by auto
  then show ?thesis
    using False assms(2-4,14) by (simp add: inode_write_at_def inode_write_at_with_def byte_to_sector_outside Let_def)
qed

text \<open>The state of the sample file system in which the witness writes.\<close>

lemma sample_small_file: "small_file 20 (used sample_fs) {2} (sview sample_fs) sample_inode"
proof -
  have "sector_of (sview sample_fs) sample_inode 0 = 6" "sector_of (sview sample_fs) sample_inode 1 = 7"
    by (simp_all add: sector_of_def sample_inode_def)
  moreover have "nblocks sample_inode = 2" "{..<2 :: nat} = {0, 1}"
    by (auto simp: nblocks_def)
  moreover have "byte_at (sview sample_fs) sample_inode i = 0" for i
    by (simp add: byte_at_def sview_sample_fs)
  ultimately show ?thesis
    by (simp add: small_file_def less_2_cases_iff inj_on_def sample_used) (simp add: sample_inode_def)
qed

lemma sample_free: "card (free_sectors 20 used sample_fs) = 10"
proof -
  have "free_sectors 20 used sample_fs = {10..<20 :: block_sector_t}"
    by (auto simp: free_sectors_def sample_used)
  also have "\<dots> = of_nat ` {10..<20}"
    by (auto simp: word_le_nat_alt word_less_nat_alt unat_of_nat intro!: image_eqI [where x = "unat _"])
  also have "card \<dots> = 10"
    by (subst card_image) (auto simp: inj_on_def of_nat_eq_iff word_unat_eq_iff unat_of_nat)
  finally show ?thesis .
qed

theorem write_past_end_grows_file_witness:
  "\<exists>d' s'. inode_write_at True sample_fs 5 [1, 2, 3] 3 1500 = Some (3, s') \<and> i_length d' = 1503
    \<and> content (sview s') d' =
        put_bytes (content (sview sample_fs) sample_inode @ replicate 803 0) 1500 [1, 2, 3]"
proof -
  have i: "get_inode sample_fs 5 = Some
      \<lparr>i_sector = 5, open_cnt = 1, removed = False, deny_write_cnt = 0, i_data = sample_inode\<rparr>"
    by (simp add: get_inode_def sample_fs_def)
  have so: "\<forall>j < nblocks sample_inode. sector_of (sview sample_fs) sample_inode j \<noteq> 5"
    by (simp add: nblocks_def less_2_cases_iff sector_of_def) (simp add: sample_inode_def)
  have "(5 :: block_sector_t) < 20" "used sample_fs 5" "(5 :: block_sector_t) \<notin> {2}" "(5 :: block_sector_t) \<noteq> 0"
      "(5 :: block_sector_t) \<noteq> indirect_ptr sample_inode"
    by (simp_all add: sample_used) (simp add: sample_inode_def)
  from write_past_end_grows_file [OF sample_map_ok i _ _ sample_small_file this so, of 1500 3 "[1, 2, 3]"]
  show ?thesis
    by (simp add: sample_free nblocks_def) (elim exE conjE, intro exI conjI; assumption)
qed

text \<open>no call of \<^verbatim>\<open>inode_extend\<close> takes a file of at most 250 blocks to more than 378 blocks,
  whatever the free space: the second-level loop asks \<^verbatim>\<open>allocate_indirect_block\<close> for the
  indices up to and including 128 of every block but the last, which its assertion rejects.
  (The limit checked by the function is 15866 blocks.)\<close>

theorem inode_extend_doubly_never_succeeds:
  assumes "0 \<le> i_length d" "nblocks d \<le> 250" "378 * 512 < len" "len < 2 ^ 31"
  shows "inode_extend mem s d len \<noteq> Some (True, d', s')"
  unfolding inode_extend_def by (rule inode_extend_never [OF assms])

theorem inode_extend_doubly_never_succeeds_witness:
  "\<forall>d' s'. inode_extend True sample_fs sample_inode 200000 \<noteq> Some (True, d', s')"
  using inode_extend_doubly_never_succeeds [of sample_inode 200000 True sample_fs] by (simp add: nblocks_def)

end
