(* ===== verification/File.thy ===== *)
theory File
  imports Inode_Growth
begin

text \<open>
  Open files (\<^verbatim>\<open>filesys/file.c\<close>) and the operations of \<^verbatim>\<open>filesys/free-map.c\<close> that go through
  them. A \<^verbatim>\<open>struct file *\<close> is a record that the operations return updated; a null pointer is
  \<open>None\<close>. The argument \<open>mem\<close> says whether the allocator of kernel memory gives memory during
  the call.
\<close>

subsection \<open>The operations\<close>

record file_t =
  f_inode :: block_sector_t
  f_pos :: off_t
  f_deny_write :: bool

definition inode_close_ptr :: "bool \<Rightarrow> fsys \<Rightarrow> block_sector_t option \<Rightarrow> fsys option" where
  "inode_close_ptr mem s inode = (case inode of None \<Rightarrow> Some s | Some k \<Rightarrow> inode_close mem s k)"

definition file_open :: "bool \<Rightarrow> fsys \<Rightarrow> block_sector_t option \<Rightarrow> (file_t option \<times> fsys) option" where
  "file_open mem s inode = (case inode of
     Some k \<Rightarrow>
       if mem then Some (Some \<lparr>f_inode = k, f_pos = 0, f_deny_write = False\<rparr>, s)
       else do { s \<leftarrow> inode_close_ptr mem s inode; Some (None, s) }
   | None \<Rightarrow> do { s \<leftarrow> inode_close_ptr mem s inode; Some (None, s) })"

definition file_reopen :: "bool \<Rightarrow> fsys \<Rightarrow> file_t \<Rightarrow> (file_t option \<times> fsys) option" where
  "file_reopen mem s f = file_open mem (inode_reopen s (f_inode f)) (Some (f_inode f))"

definition file_allow_write :: "fsys \<Rightarrow> file_t \<Rightarrow> (file_t \<times> fsys) option" where
  "file_allow_write s f =
     (if f_deny_write f then do {
        s \<leftarrow> inode_allow_write s (f_inode f);
        Some (f\<lparr>f_deny_write := False\<rparr>, s) }
      else Some (f, s))"

definition file_deny_write :: "fsys \<Rightarrow> file_t \<Rightarrow> (file_t \<times> fsys) option" where
  "file_deny_write s f =
     (if \<not> f_deny_write f then do {
        s \<leftarrow> inode_deny_write s (f_inode f);
        Some (f\<lparr>f_deny_write := True\<rparr>, s) }
      else Some (f, s))"

definition file_close :: "bool \<Rightarrow> fsys \<Rightarrow> file_t option \<Rightarrow> fsys option" where
  "file_close mem s file = (case file of
     Some f \<Rightarrow> do {
       (f, s) \<leftarrow> file_allow_write s f;
       inode_close mem s (f_inode f) }
   | None \<Rightarrow> Some s)"

definition file_get_inode :: "file_t \<Rightarrow> block_sector_t" where
  "file_get_inode f = f_inode f"

definition file_read :: "bool \<Rightarrow> fsys \<Rightarrow> file_t \<Rightarrow> off_t \<Rightarrow> (bytes \<times> file_t \<times> fsys) option" where
  "file_read mem s f sz = do {
     (buf, s) \<leftarrow> inode_read_at mem s (f_inode f) sz (f_pos f);
     Some (buf, f\<lparr>f_pos := f_pos f + int (length buf)\<rparr>, s) }"

definition file_read_at :: "bool \<Rightarrow> fsys \<Rightarrow> file_t \<Rightarrow> off_t \<Rightarrow> off_t \<Rightarrow> (bytes \<times> fsys) option" where
  "file_read_at mem s f sz ofs = inode_read_at mem s (f_inode f) sz ofs"

definition file_write :: "bool \<Rightarrow> fsys \<Rightarrow> file_t \<Rightarrow> bytes \<Rightarrow> off_t \<Rightarrow> (off_t \<times> file_t \<times> fsys) option" where
  "file_write mem s f buffer sz = do {
     (n, s) \<leftarrow> inode_write_at mem s (f_inode f) buffer sz (f_pos f);
     Some (n, f\<lparr>f_pos := f_pos f + n\<rparr>, s) }"

definition file_write_at :: "bool \<Rightarrow> fsys \<Rightarrow> file_t \<Rightarrow> bytes \<Rightarrow> off_t \<Rightarrow> off_t \<Rightarrow> (off_t \<times> fsys) option" where
  "file_write_at mem s f buffer sz ofs = inode_write_at mem s (f_inode f) buffer sz ofs"

definition file_length :: "fsys \<Rightarrow> file_t \<Rightarrow> off_t option" where
  "file_length s f = inode_length s (f_inode f)"

definition file_seek :: "file_t \<Rightarrow> off_t \<Rightarrow> file_t option" where
  "file_seek f new_pos = do { ASSERT (new_pos \<ge> 0); Some (f\<lparr>f_pos := new_pos\<rparr>) }"

definition file_tell :: "file_t \<Rightarrow> off_t" where
  "file_tell f = f_pos f"

subsection \<open>The free map file\<close>

definition free_map_open :: "bool \<Rightarrow> fsys \<Rightarrow> fsys option" where
  "free_map_open mem s = do {
     (inode, s) \<leftarrow> inode_open mem s FREE_MAP_SECTOR;
     (file, s) \<leftarrow> file_open mem s inode;
     f \<leftarrow> file;
     let s = s\<lparr>free_map_file := Some (f_inode f)\<rparr>;
     (buf, s) \<leftarrow> file_read_at mem s f (int (unat (byte_cnt (bit_cnt (free_map s))))) 0;
     (ok, b) \<leftarrow> bitmap_read (\<lambda>n. take n buf) (free_map s);
     ASSERT ok;
     Some (s\<lparr>free_map := b\<rparr>) }"

definition free_map_close :: "bool \<Rightarrow> fsys \<Rightarrow> fsys option" where
  "free_map_close mem s =
     file_close mem s (map_option (\<lambda>k. \<lparr>f_inode = k, f_pos = 0, f_deny_write = False\<rparr>) (free_map_file s))"

definition free_map_create :: "bool \<Rightarrow> fsys \<Rightarrow> fsys option" where
  "free_map_create mem s = do {
     (ok, s) \<leftarrow> inode_create mem s FREE_MAP_SECTOR (int (unat (bitmap_file_size (free_map s)))) False;
     ASSERT ok;
     (inode, s) \<leftarrow> inode_open mem s FREE_MAP_SECTOR;
     (file, s) \<leftarrow> file_open mem s inode;
     f \<leftarrow> file;
     let s = s\<lparr>free_map_file := Some (f_inode f)\<rparr>;
     (ok, s) \<leftarrow> free_map_write_with (inode_write_at mem) s;
     ASSERT ok;
     Some s }"

subsection \<open>Persistence of the free map\<close>

lemma inode_open_again:
  assumes "get_inode s k = Some i"
  shows "inode_open mem s k = Some (Some k, inode_reopen s k)" "sview (inode_reopen s k) = sview s"
    "free_map (inode_reopen s k) = free_map s" "open_file sz s k d \<Longrightarrow> open_file sz (inode_reopen s k) k d"
  using assms get_upd_inode [of "\<lambda>i. i\<lparr>open_cnt := open_cnt i + 1\<rparr>" s k]
  by (auto simp: inode_open_def inode_reopen_def open_file_def)

lemma free_map_open_saved:
  assumes ok: "map_ok sz FREE_MAP_SECTOR m own s" and saved: "map_saved m s"
    and c: "bit_cnt c = sz" "length (bits c) = unat (elem_cnt sz)"
  shows "\<exists>s'. free_map_open True (s\<lparr>free_map := c\<rparr>) = Some s' \<and> used s' = used s \<and> sview s' = sview s"
proof -
  have b: "open_file sz s FREE_MAP_SECTOR m" "bit_cnt (free_map s) = sz" "unat sz + 31 < 2 ^ 32"
      "i_length m = int (unat (byte_cnt sz))" and exact: "length (bits (free_map s)) = unat (elem_cnt sz)"
    using ok by (simp_all add: map_ok_def)
  define s1 where "s1 = (inode_reopen (s\<lparr>free_map := c\<rparr>) FREE_MAP_SECTOR)\<lparr>free_map_file := Some FREE_MAP_SECTOR\<rparr>"
  have f0: "open_file sz (s\<lparr>free_map := c\<rparr>) FREE_MAP_SECTOR m"
    using b(1) by (auto simp: open_file_def fs_ok_def sview_def get_inode_def)
  then obtain i where i: "get_inode (s\<lparr>free_map := c\<rparr>) FREE_MAP_SECTOR = Some i"
    by (auto simp: open_file_def)
  note opened = inode_open_again [OF i]
  have s1: "open_file sz s1 FREE_MAP_SECTOR m" "sview s1 = sview s" "free_map s1 = c"
    using opened(4) [OF f0] opened(2,3) by (auto simp: s1_def open_file_def fs_ok_def sview_def get_inode_def)
  have words: "content (sview s) m = words_bytes (bits (free_map s))"
    using saved exact b(3) by (simp add: map_saved_def b(2) unat_byte_cnt unat_elem_cnt)
  obtain s2 where s2: "inode_read_at True s1 FREE_MAP_SECTOR (int (unat (byte_cnt sz))) 0 =
        Some (words_bytes (bits (free_map s)), s2)" "moved sz s1 (sview s1) s2"
    using inode_read_at_ok [OF s1(1), of 0 "int (unat (byte_cnt sz))"] words b(4) s1(2)
      length_content [of "sview s" m] by auto
  obtain d where d: "bitmap_read (\<lambda>n. take n (words_bytes (bits (free_map s)))) c = Some (True, d)"
      "bit_cnt d = sz" "bit_list d = bit_list (free_map s)"
    using bitmap_read_bits [of "free_map s" c] b(2,3) exact c by auto
  have "free_map_open True (s\<lparr>free_map := c\<rparr>) = Some (s2\<lparr>free_map := d\<rparr>)"
    using opened(1,3) s2(1) d(1) moved_fields [OF s2(2)] s1(3) c(1)
    by (simp add: free_map_open_def file_open_def s1_def [symmetric] file_read_at_def)
  moreover have "used (s2\<lparr>free_map := d\<rparr>) = used s" "sview (s2\<lparr>free_map := d\<rparr>) = sview s"
    using d(2,3) b(2) moved_ok [OF s2(2)] s1(2) by (simp_all add: used_def fun_eq_iff sview_def)
  ultimately show ?thesis
    by blast
qed

subsection \<open>Properties\<close>

text \<open>C25: an allocation survives closing and reopening the free map: reading the map back from
  its file, into a map with any contents, gives the map before the allocation with the
  allocated sector marked.\<close>

theorem allocation_persists:
  assumes "map_ok sz FREE_MAP_SECTOR m own s" "free_map_allocate True 1 s = Some (Some p, s1)"
    and "bit_cnt c = sz" "length (bits c) = unat (elem_cnt sz)"
  shows "\<exists>s2. free_map_open True (s1\<lparr>free_map := c\<rparr>) = Some s2 \<and> \<not> used s p \<and> used s2 = (used s)(p := True)"
proof -
  have "map_ok sz FREE_MAP_SECTOR m own s1" "map_saved m s1" "used s1 = (used s)(p := True)" "\<not> used s p"
    using free_map_allocate_ok [OF assms(1)] assms(2) by auto
  then show ?thesis
    using free_map_open_saved [OF _ _ assms(3,4)] by fastforce
qed

theorem allocation_persists_witness:
  "\<exists>s1 s2. free_map_allocate True 1 sample_fs = Some (Some 10, s1)
    \<and> free_map_open True (s1\<lparr>free_map := \<lparr>bit_cnt = 20, bits = [0]\<rparr>\<rparr>) = Some s2 \<and> used s2 10 \<and> used s2 2"
proof -
  obtain p s1 where s1: "free_map_allocate True 1 sample_fs = Some (Some p, s1)" "\<not> used sample_fs p" "\<forall>q < p. used sample_fs q"
    using free_map_allocate_ok [OF sample_map_ok] sample_first_free(1) by blast
  have p: "p = 10"
    using sample_first_free(2) [OF s1(2,3)] .
  have ok: "map_ok 20 FREE_MAP_SECTOR sample_map_inode {2} sample_fs"
    using sample_map_ok by (simp add: FREE_MAP_SECTOR_def)
  have "unat (elem_cnt 20) = 1"
    by (simp add: unat_elem_cnt)
  then show ?thesis
    using allocation_persists [OF ok s1(1), of "\<lparr>bit_cnt = 20, bits = [0]\<rparr>"] s1(1) p by (auto simp: sample_used)
qed

lemma upd_inode_undo:
  assumes "\<And>i. g (h i) = i" "\<And>i. i_sector (h i) = i_sector i"
  shows "upd_inode (upd_inode s k h) k g = s"
proof -
  have "map (\<lambda>i. if i_sector i = k then g i else i) (map (\<lambda>i. if i_sector i = k then h i else i) xs) = xs" for xs
    using assms by (induction xs) auto
  then show ?thesis
    by (simp add: upd_inode_def)
qed

text \<open>C28: as long as one opener has called \<^verbatim>\<open>file_deny_write\<close>, no write through any handle of the
  same inode changes anything: it returns 0 and leaves the position of the handle and the
  file system as they are. \<^verbatim>\<open>file_allow_write\<close> undoes the denial exactly.\<close>

theorem deny_write_blocks_writes:
  assumes "get_inode s (f_inode f) = Some i" "0 \<le> deny_write_cnt i" "deny_write_cnt i < open_cnt i" "\<not> f_deny_write f"
    and "f_inode g = f_inode f"
  shows "\<exists>f' s'. file_deny_write s f = Some (f', s') \<and> file_write mem s' g buf n = Some (0, g, s')
    \<and> file_allow_write s' f' = Some (f, s)"
proof -
  define up where "up = (\<lambda>i :: inode. i\<lparr>deny_write_cnt := deny_write_cnt i + 1\<rparr>)"
  let ?s = "upd_inode s (f_inode f) up"
  have get: "get_inode ?s (f_inode f) = Some (up i)"
    using assms(1) by (simp add: get_upd_inode up_def)
  have "file_deny_write s f = Some (f\<lparr>f_deny_write := True\<rparr>, ?s)"
    using assms(3,4) get by (simp add: file_deny_write_def inode_deny_write_def up_def [symmetric]) (simp add: up_def)
  moreover have "file_write mem ?s g buf n = Some (0, g, ?s)"
    using assms(2,5) get by (simp add: file_write_def inode_write_at_def inode_write_at_with_def) (simp add: up_def)
  moreover have "upd_inode ?s (f_inode f) (\<lambda>i. i\<lparr>deny_write_cnt := deny_write_cnt i - 1\<rparr>) = s"
    by (rule upd_inode_undo) (simp_all add: up_def)
  then have "file_allow_write ?s (f\<lparr>f_deny_write := True\<rparr>) = Some (f, s)"
    using assms(2-4) get by (simp add: file_allow_write_def inode_allow_write_def) (simp add: up_def)
  ultimately show ?thesis
    by blast
qed

theorem deny_write_blocks_writes_witness:
  "\<exists>f' s'. file_deny_write sample_fs \<lparr>f_inode = 5, f_pos = 0, f_deny_write = False\<rparr> = Some (f', s')
    \<and> file_write True s' \<lparr>f_inode = 5, f_pos = 10, f_deny_write = False\<rparr> [1] 1 =
        Some (0, \<lparr>f_inode = 5, f_pos = 10, f_deny_write = False\<rparr>, s')"
  using deny_write_blocks_writes [of sample_fs "\<lparr>f_inode = 5, f_pos = 0, f_deny_write = False\<rparr>" _
      "\<lparr>f_inode = 5, f_pos = 10, f_deny_write = False\<rparr>" True "[1]" 1]
  by (auto simp: get_inode_def sample_fs_def)

end
