(* ===== verification/Directory.thy ===== *)
theory Directory
  imports File
begin

text \<open>
  Directories (\<^verbatim>\<open>filesys/directory.c\<close>): files of fixed-size entries. A file name is the list
  of its bytes before the terminating null byte. Entries are kept as the bytes of the C
  structure, since the code reads and writes whole structures and \<^verbatim>\<open>strlcpy\<close> leaves the
  bytes behind the terminator as they were. The abstraction of a directory is the map from
  names to inode sectors.
\<close>

subsection \<open>Entries\<close>

type_synonym name = bytes

definition NAME_MAX :: nat where "NAME_MAX = 14"

definition DIR_ENTRY_SIZE :: nat where "DIR_ENTRY_SIZE = 20"

definition entry_sector :: "bytes \<Rightarrow> block_sector_t" where
  "entry_sector e = le_word (take 4 e)"

definition entry_name :: "bytes \<Rightarrow> name" where
  "entry_name e = takeWhile (\<lambda>b. b \<noteq> 0) (take (NAME_MAX + 1) (drop 4 e))"

definition entry_in_use :: "bytes \<Rightarrow> bool" where
  "entry_in_use e \<longleftrightarrow> e ! 19 \<noteq> 0"

definition set_in_use :: "bytes \<Rightarrow> bool \<Rightarrow> bytes" where
  "set_in_use e b = put_bytes e 19 [if b then 1 else 0]"

definition set_name :: "bytes \<Rightarrow> name \<Rightarrow> bytes" where
  "set_name e name = put_bytes e 4 (take NAME_MAX name @ [0])"

definition set_sector :: "bytes \<Rightarrow> block_sector_t \<Rightarrow> bytes" where
  "set_sector e sec = put_bytes e 0 (le_bytes sec)"

record dir =
  d_inode :: block_sector_t
  d_pos :: off_t

definition DOT :: name where "DOT = [46]"

subsection \<open>Opening and closing\<close>

definition dir_create :: "bool \<Rightarrow> fsys \<Rightarrow> block_sector_t \<Rightarrow> size_t \<Rightarrow> (bool \<times> fsys) option" where
  "dir_create mem s sec entry_cnt = inode_create mem s sec (sint (entry_cnt * 20)) True"

definition dir_open :: "bool \<Rightarrow> fsys \<Rightarrow> block_sector_t option \<Rightarrow> (dir option \<times> fsys) option" where
  "dir_open mem s inode = (case inode of
     Some k \<Rightarrow>
       if mem then Some (Some \<lparr>d_inode = k, d_pos = 0\<rparr>, s)
       else do { s \<leftarrow> inode_close_ptr mem s inode; Some (None, s) }
   | None \<Rightarrow> do { s \<leftarrow> inode_close_ptr mem s inode; Some (None, s) })"

definition dir_open_root :: "bool \<Rightarrow> fsys \<Rightarrow> (dir option \<times> fsys) option" where
  "dir_open_root mem s = do {
     (inode, s) \<leftarrow> inode_open mem s ROOT_DIR_SECTOR;
     dir_open mem s inode }"

definition dir_reopen :: "bool \<Rightarrow> fsys \<Rightarrow> dir \<Rightarrow> (dir option \<times> fsys) option" where
  "dir_reopen mem s d = dir_open mem (inode_reopen s (d_inode d)) (Some (d_inode d))"

definition dir_close :: "bool \<Rightarrow> fsys \<Rightarrow> dir option \<Rightarrow> fsys option" where
  "dir_close mem s d = (case d of Some d \<Rightarrow> inode_close mem s (d_inode d) | None \<Rightarrow> Some s)"

definition dir_get_inode :: "dir \<Rightarrow> block_sector_t" where
  "dir_get_inode d = d_inode d"

definition dir_is_dir :: "fsys \<Rightarrow> dir \<Rightarrow> bool option" where
  "dir_is_dir s d = inode_is_dir s (dir_get_inode d)"

subsection \<open>Looking up, adding and removing entries\<close>

partial_function (option) lookup_loop ::
  "bool \<Rightarrow> fsys \<Rightarrow> block_sector_t \<Rightarrow> name \<Rightarrow> off_t \<Rightarrow> ((bytes \<times> off_t) option \<times> fsys) option" where
  "lookup_loop mem s k name ofs = do {
     (e, s) \<leftarrow> inode_read_at mem s k 20 ofs;
     if length e = DIR_ENTRY_SIZE then
       if entry_in_use e \<and> name = entry_name e then Some (Some (e, ofs), s)
       else lookup_loop mem s k name (ofs + 20)
     else Some (None, s) }"

definition lookup :: "bool \<Rightarrow> fsys \<Rightarrow> dir \<Rightarrow> name \<Rightarrow> ((bytes \<times> off_t) option \<times> fsys) option" where
  "lookup mem s d name = lookup_loop mem s (d_inode d) name 0"

definition dir_lookup :: "bool \<Rightarrow> fsys \<Rightarrow> dir \<Rightarrow> name \<Rightarrow> (block_sector_t option \<times> fsys) option" where
  "dir_lookup mem s d name =
     (if name = DOT then Some (Some (d_inode d), inode_reopen s (d_inode d))
      else do {
        (r, s) \<leftarrow> lookup mem s d name;
        case r of
          Some (e, ofs) \<Rightarrow> inode_open mem s (entry_sector e)
        | None \<Rightarrow> Some (None, s) })"

partial_function (option) free_slot_loop ::
  "bool \<Rightarrow> fsys \<Rightarrow> block_sector_t \<Rightarrow> bytes \<Rightarrow> off_t \<Rightarrow> (bytes \<times> off_t \<times> fsys) option" where
  "free_slot_loop mem s k e ofs = do {
     (buf, s) \<leftarrow> inode_read_at mem s k 20 ofs;
     let e = put_bytes e 0 buf;
     if length buf = DIR_ENTRY_SIZE then
       if \<not> entry_in_use e then Some (e, ofs, s)
       else free_slot_loop mem s k e (ofs + 20)
     else Some (e, ofs, s) }"

text \<open>\<open>junk\<close> is what the entry on the stack holds before the first read.\<close>

definition dir_add :: "bool \<Rightarrow> bytes \<Rightarrow> fsys \<Rightarrow> dir \<Rightarrow> name \<Rightarrow> block_sector_t \<Rightarrow> (bool \<times> fsys) option" where
  "dir_add mem junk s d name inode_sector =
     (if name = [] \<or> length name > NAME_MAX then Some (False, s)
      else do {
        (r, s) \<leftarrow> lookup mem s d name;
        if r \<noteq> None then Some (False, s)
        else do {
          (e, ofs, s) \<leftarrow> free_slot_loop mem s (d_inode d) junk 0;
          let e = set_sector (set_name (set_in_use e True) name) inode_sector;
          (n, s) \<leftarrow> inode_write_at mem s (d_inode d) e 20 ofs;
          if n = 20 then do {
            (new_inode, s) \<leftarrow> inode_open mem s inode_sector;
            new_inode \<leftarrow> new_inode;
            s \<leftarrow> inode_set_parent s new_inode (dir_get_inode d);
            Some (True, s) }
          else Some (False, s) } })"

definition dir_remove :: "bool \<Rightarrow> fsys \<Rightarrow> dir \<Rightarrow> name \<Rightarrow> (bool \<times> fsys) option" where
  "dir_remove mem s d name = do {
     (r, s) \<leftarrow> lookup mem s d name;
     case r of
       None \<Rightarrow> Some (False, s)
     | Some (e, ofs) \<Rightarrow> do {
         (inode, s) \<leftarrow> inode_open mem s (entry_sector e);
         case inode of
           None \<Rightarrow> Some (False, s)
         | Some k \<Rightarrow> do {
             (n, s) \<leftarrow> inode_write_at mem s (d_inode d) (set_in_use e False) 20 ofs;
             if n \<noteq> 20 then do { s \<leftarrow> inode_close mem s k; Some (False, s) }
             else do {
               s \<leftarrow> inode_remove s k;
               s \<leftarrow> inode_close mem s k;
               Some (True, s) } } } }"

partial_function (option) dir_readdir ::
  "bool \<Rightarrow> fsys \<Rightarrow> dir \<Rightarrow> (name option \<times> dir \<times> fsys) option" where
  "dir_readdir mem s d = do {
     (e, s) \<leftarrow> inode_read_at mem s (d_inode d) 20 (d_pos d);
     if length e = DIR_ENTRY_SIZE then do {
       let d = d\<lparr>d_pos := d_pos d + 20\<rparr>;
       if entry_in_use e then Some (Some (entry_name e), d, s)
       else dir_readdir mem s d }
     else Some (None, d, s) }"

subsection \<open>A directory as a map\<close>

definition entry :: "bytes \<Rightarrow> nat \<Rightarrow> bytes" where
  "entry c j = get_bytes c (20 * j) 20"

definition entries :: "bytes \<Rightarrow> nat" where
  "entries c = length c div 20"

definition holds :: "bytes \<Rightarrow> name \<Rightarrow> nat \<Rightarrow> bool" where
  "holds c name j \<longleftrightarrow> entry_in_use (entry c j) \<and> name = entry_name (entry c j)"

definition find_entry :: "bytes \<Rightarrow> name \<Rightarrow> nat \<Rightarrow> nat option" where
  "find_entry c name i = find (holds c name) [i..<entries c]"

definition dir_map :: "bytes \<Rightarrow> name \<Rightarrow> block_sector_t option" where
  "dir_map c name = map_option (\<lambda>j. entry_sector (entry c j)) (find_entry c name 0)"

text \<open>No two entries in use have the same name.\<close>

definition names_distinct :: "bytes \<Rightarrow> bool" where
  "names_distinct c \<longleftrightarrow> (\<forall>i < entries c. \<forall>j < entries c. entry_in_use (entry c i) \<longrightarrow> entry_in_use (entry c j) \<longrightarrow>
     entry_name (entry c i) = entry_name (entry c j) \<longrightarrow> i = j)"

lemma entry_length: "length (take 20 (drop (20 * j) c)) = 20 \<longleftrightarrow> j < entries c"
  unfolding entries_def by (simp add: min_def) linarith

lemma length_entry: "j < entries c \<Longrightarrow> length (entry c j) = 20"
  using entry_length [of j c] by (simp add: entry_def get_bytes_def)

lemma find_upt: "find P [i..<n] = (if i < n then if P i then Some i else find P [Suc i..<n] else None)"
  by (simp add: upt_conv_Cons)

lemma read_entry:
  assumes "open_file sz s k d"
  shows "\<exists>s'. inode_read_at True s k 20 (20 * int j) = Some (entry (content (sview s) d) j, s') \<and> moved sz s (sview s) s'"
  using inode_read_at_ok [OF assms, of "20 * int j" 20] by (simp add: entry_def get_bytes_def nat_mult_distrib)

lemma open_file_moved: "open_file sz s k d \<Longrightarrow> moved sz s (sview s) s' \<Longrightarrow> open_file sz s' k d"
  using moved_ok [of sz s "sview s" s'] moved_get_inode [of sz s "sview s" s' k] by (auto simp: open_file_def)

lemma lookup_loop_ok:
  assumes "open_file sz s k d"
  shows "\<exists>s'. lookup_loop True s k name (20 * int i) =
      Some (map_option (\<lambda>j. (entry (content (sview s) d) j, 20 * int j)) (find_entry (content (sview s) d) name i), s')
    \<and> moved sz s (sview s) s'"
  using assms
proof (induction "entries (content (sview s) d) - i" arbitrary: i s)
  case 0
  let ?c = "content (sview s) d"
  obtain s1 where s1: "inode_read_at True s k 20 (20 * int i) = Some (entry ?c i, s1)" "moved sz s (sview s) s1"
    using read_entry [OF 0(2)] by blast
  have "length (entry ?c i) \<noteq> 20" "find_entry ?c name i = None"
    using 0(1) entry_length [of i ?c] by (simp_all add: entry_def get_bytes_def find_entry_def)
  then show ?case
    using s1 by (subst lookup_loop.simps) (simp add: DIR_ENTRY_SIZE_def)
next
  case (Suc n)
  let ?c = "content (sview s) d"
  obtain s1 where s1: "inode_read_at True s k 20 (20 * int i) = Some (entry ?c i, s1)" "moved sz s (sview s) s1"
    using read_entry [OF Suc.prems] by blast
  have i: "i < entries ?c" "n = entries ?c - Suc i"
    using Suc.hyps(2) by simp_all
  have v: "sview s1 = sview s"
    using moved_ok [OF s1(2)] by simp
  obtain s2 where s2: "lookup_loop True s1 k name (20 * int (Suc i)) =
      Some (map_option (\<lambda>j. (entry ?c j, 20 * int j)) (find_entry ?c name (Suc i)), s2)" "moved sz s1 (sview s) s2"
    using Suc.hyps(1) [of s1 "Suc i"] i(2) open_file_moved [OF Suc.prems s1(2)] v by auto
  have "find_entry ?c name i = (if holds ?c name i then Some i else find_entry ?c name (Suc i))"
    using i by (simp add: find_entry_def find_upt [of _ i])
  then show ?case
    using s1 s2 moved_trans [OF s1(2) s2(2)] length_entry [OF i(1)]
    by (subst lookup_loop.simps) (auto simp: DIR_ENTRY_SIZE_def holds_def algebra_simps)
qed

definition free_slot :: "bytes \<Rightarrow> nat \<Rightarrow> nat" where
  "free_slot c i = (case find (\<lambda>j. \<not> entry_in_use (entry c j)) [i..<entries c] of
     Some j \<Rightarrow> j | None \<Rightarrow> max i (entries c))"

lemma free_slot_loop_ok:
  assumes "open_file sz s k d" "length e = 20"
  shows "\<exists>e' s'. length e' = 20 \<and> moved sz s (sview s) s' \<and> free_slot_loop True s k e (20 * int i) =
      Some (e', 20 * int (free_slot (content (sview s) d) i), s')"
  using assms
proof (induction "entries (content (sview s) d) - i" arbitrary: i s e)
  case 0
  let ?c = "content (sview s) d"
  obtain s1 where s1: "inode_read_at True s k 20 (20 * int i) = Some (entry ?c i, s1)" "moved sz s (sview s) s1"
    using read_entry [OF 0(2)] by blast
  have "length (entry ?c i) \<noteq> 20" "length (entry ?c i) \<le> 20" "max i (entries ?c) = i"
    using 0(1) entry_length [of i ?c] by (simp_all add: entry_def get_bytes_def)
  moreover from this have "length (put_bytes e 0 (entry ?c i)) = 20"
    using 0(3) by simp
  ultimately show ?case
    using s1 0(1) by (subst free_slot_loop.simps) (simp add: DIR_ENTRY_SIZE_def free_slot_def)
next
  case (Suc n)
  let ?c = "content (sview s) d"
  obtain s1 where s1: "inode_read_at True s k 20 (20 * int i) = Some (entry ?c i, s1)" "moved sz s (sview s) s1"
    using read_entry [OF Suc.prems(1)] by blast
  have i: "i < entries ?c" "n = entries ?c - Suc i"
    using Suc.hyps(2) by simp_all
  have v: "sview s1 = sview s"
    using moved_ok [OF s1(2)] by simp
  have e: "put_bytes e 0 (entry ?c i) = entry ?c i"
    using Suc.prems(2) length_entry [OF i(1)] by simp
  obtain e2 s2 where s2: "length e2 = 20" "moved sz s1 (sview s) s2"
      "free_slot_loop True s1 k (entry ?c i) (20 * int (Suc i)) = Some (e2, 20 * int (free_slot ?c (Suc i)), s2)"
    using Suc.hyps(1) [of s1 "Suc i" "entry ?c i"] i(2) open_file_moved [OF Suc.prems(1) s1(2)] v length_entry [OF i(1)]
    by auto
  have "free_slot ?c i = (if \<not> entry_in_use (entry ?c i) then i else free_slot ?c (Suc i))"
    using i by (simp add: free_slot_def find_upt [of _ i] max_def split: option.split)
  then show ?case
    using s1 s2 e moved_trans [OF s1(2) s2(2)] length_entry [OF i(1)]
    by (subst free_slot_loop.simps) (auto simp: DIR_ENTRY_SIZE_def algebra_simps)
qed

subsection \<open>Changing one entry\<close>

lemma get_put_other:
  assumes "off + length bs \<le> length m" "a + n \<le> length m" "a + n \<le> off \<or> off + length bs \<le> a"
  shows "get_bytes (put_bytes m off bs) a n = get_bytes m a n"
  using assms by (intro nth_equalityI) (auto simp: get_bytes_def nth_put_bytes)

lemma entry_put:
  assumes "length e = 20" "j < entries c"
  shows "i < entries c \<Longrightarrow> entry (put_bytes c (20 * j) e) i = (if i = j then e else entry c i)"
    and "entries (put_bytes c (20 * j) e) = entries c"
proof -
  have fits: "20 * j + 20 \<le> length c"
    using assms(2) by (simp add: entries_def)
  then show "entries (put_bytes c (20 * j) e) = entries c"
    using assms(1) by (simp add: entries_def)
  have "20 * i + 20 \<le> length c" if "i < entries c" for i
    using that by (simp add: entries_def)
  moreover have "20 * i + 20 \<le> 20 * j \<or> 20 * j + 20 \<le> 20 * i" if "i \<noteq> j"
    using that by arith
  ultimately show "entry (put_bytes c (20 * j) e) i = (if i = j then e else entry c i)" if "i < entries c"
    using that assms(1) fits get_put_bytes [of "20 * j" e c] get_put_other [of "20 * j" e c "20 * i" 20]
    by (auto simp: entry_def)
qed

text \<open>The entry that \<^verbatim>\<open>dir_add\<close> writes.\<close>

lemma new_entry:
  fixes sec :: block_sector_t
  assumes "length e = 20" "name \<noteq> []" "length name \<le> NAME_MAX" "0 \<notin> set name"
  defines "e' \<equiv> set_sector (set_name (set_in_use e True) name) sec"
  shows "length e' = 20" "entry_in_use e'" "entry_name e' = name" "entry_sector e' = sec"
proof -
  let ?n = "take NAME_MAX name @ [0]"
  let ?a = "put_bytes e 19 [1]"
  let ?b = "put_bytes ?a 4 ?n"
  have len: "length ?a = 20" "length ?b = 20" "length ?n \<le> 15" "length (le_bytes sec) = 4"
    using assms(1,3) by (simp_all add: NAME_MAX_def)
  have e': "e' = put_bytes ?b 0 (le_bytes sec)"
    by (simp add: e'_def set_sector_def set_name_def set_in_use_def)
  show "length e' = 20"
    using len by (simp add: e')
  show "entry_in_use e'"
    using len assms(1,3) by (simp add: entry_in_use_def e' nth_put_bytes NAME_MAX_def)
  show "entry_sector e' = sec"
    using get_put_bytes [of 0 "le_bytes sec" ?b] len by (simp add: entry_sector_def e' get_bytes_def)
  have "get_bytes e' 4 (length ?n) = ?n"
    unfolding e' using len get_put_bytes [of 4 ?n ?a] get_put_other [of 0 "le_bytes sec" ?b 4 "length ?n"] by simp
  then have "take (length ?n) (take 15 (drop 4 e')) = name @ [0]"
    using len(3) assms(3) by (simp add: get_bytes_def min_def)
  then have "take 15 (drop 4 e') = name @ 0 # drop (length ?n) (take 15 (drop 4 e'))"
    by (metis append_take_drop_id append.assoc append_Cons append_Nil)
  moreover have "takeWhile (\<lambda>b. b \<noteq> 0) (name @ 0 # r) = name" for r
    using assms(4) by (subst takeWhile_append2) auto
  ultimately have "takeWhile (\<lambda>b. b \<noteq> 0) (take 15 (drop 4 e')) = name"
    by metis
  then show "entry_name e' = name"
    by (simp add: entry_name_def NAME_MAX_def)
qed

lemma cleared_entry:
  assumes "length e = 20"
  shows "length (set_in_use e False) = 20" "\<not> entry_in_use (set_in_use e False)"
  using assms by (simp_all add: set_in_use_def entry_in_use_def nth_put_bytes)

lemma find_single: "j < n \<Longrightarrow> (\<And>i. i < n \<Longrightarrow> P i \<longleftrightarrow> i = j) \<Longrightarrow> find P [0..<n] = Some j"
  by (auto simp: find_Some_iff nth_equalityI intro!: exI [of _ j])

lemma dir_map_None: "dir_map c name = None \<longleftrightarrow> (\<forall>j < entries c. \<not> holds c name j)"
  by (auto simp: dir_map_def find_entry_def find_None_iff)

lemma dir_map_single:
  assumes "j < entries c" "\<And>i. i < entries c \<Longrightarrow> holds c name i \<longleftrightarrow> i = j"
  shows "dir_map c name = Some (entry_sector (entry c j))"
  using find_single [OF assms] by (simp add: dir_map_def find_entry_def)

lemma dir_map_cong:
  assumes "entries c' = entries c" "\<And>i. i < entries c \<Longrightarrow> holds c' name i \<longleftrightarrow> holds c name i"
    "\<And>i. i < entries c \<Longrightarrow> holds c name i \<Longrightarrow> entry c' i = entry c i"
  shows "dir_map c' name = dir_map c name"
proof -
  have "find (holds c' name) [0..<entries c] = find (holds c name) [0..<entries c]"
    using assms(2) by (intro find_cong) auto
  moreover have "holds c name j \<and> j < entries c" if "find (holds c name) [0..<entries c] = Some j" for j
    using that by (auto simp: find_Some_iff)
  ultimately show ?thesis
    using assms(3) by (auto simp: dir_map_def find_entry_def assms(1) intro!: option.map_cong0 split: option.splits)
qed

text \<open>Filling an entry that is not in use with a new name adds it to the map; clearing an
  entry takes its name out.\<close>

lemma dir_map_add:
  assumes "j < entries c" "\<not> entry_in_use (entry c j)" "dir_map c name = None"
    and e: "length e = 20" "entry_in_use e" "entry_name e = name"
  shows "dir_map (put_bytes c (20 * j) e) = (dir_map c)(name \<mapsto> entry_sector e)"
    "names_distinct c \<Longrightarrow> names_distinct (put_bytes c (20 * j) e)"
proof -
  let ?c = "put_bytes c (20 * j) e"
  note put = entry_put [OF e(1) assms(1)]
  have holds: "holds ?c n i \<longleftrightarrow> (if i = j then n = name else holds c n i)" if "i < entries c" for n i
    using that e put by (simp add: holds_def)
  have none: "\<not> holds c name i" if "i < entries c" for i
    using assms(3) that by (simp add: dir_map_None)
  show "dir_map ?c = (dir_map c)(name \<mapsto> entry_sector e)"
  proof
    fix n
    show "dir_map ?c n = ((dir_map c)(name \<mapsto> entry_sector e)) n"
    proof (cases "n = name")
      case True
      then show ?thesis
        using dir_map_single [of j ?c n] holds none put assms(1) by auto
    next
      case False
      have "dir_map ?c n = dir_map c n"
        using False holds put assms(2) by (intro dir_map_cong) (auto simp: holds_def)
      then show ?thesis
        using False by simp
    qed
  qed
  show "names_distinct ?c" if "names_distinct c"
    unfolding names_distinct_def put(2)
  proof (intro allI impI)
    fix i k
    assume ik: "i < entries c" "k < entries c" "entry_in_use (entry ?c i)" "entry_in_use (entry ?c k)"
      "entry_name (entry ?c i) = entry_name (entry ?c k)"
    then show "i = k"
      using that none [of i] none [of k] e put(1)
      by (cases "i = j"; cases "k = j") (auto simp: holds_def names_distinct_def)
  qed
qed

lemma dir_map_remove:
  assumes "j < entries c" "holds c name j" "names_distinct c" and e: "length e = 20" "\<not> entry_in_use e"
  shows "dir_map (put_bytes c (20 * j) e) = (dir_map c)(name := None)" "names_distinct (put_bytes c (20 * j) e)"
proof -
  let ?c = "put_bytes c (20 * j) e"
  note put = entry_put [OF e(1) assms(1)]
  have holds: "holds ?c n i \<longleftrightarrow> i \<noteq> j \<and> holds c n i" if "i < entries c" for n i
    using that e put by (simp add: holds_def)
  have only: "i = j" if "i < entries c" "holds c name i" for i
    using assms(1-3) that by (auto simp: holds_def names_distinct_def)
  show "dir_map ?c = (dir_map c)(name := None)"
  proof
    fix n
    show "dir_map ?c n = ((dir_map c)(name := None)) n"
    proof (cases "n = name")
      case True
      then show ?thesis
        using holds only put by (auto simp: dir_map_None)
    next
      case False
      then have "\<not> holds c n j"
        using assms(2) by (simp add: holds_def)
      then have "dir_map ?c n = dir_map c n"
        using holds put by (intro dir_map_cong) auto
      then show ?thesis
        using False by simp
    qed
  qed
  show "names_distinct ?c"
    using assms(1,3) e put unfolding names_distinct_def by auto
qed

subsection \<open>Adding and removing names\<close>

lemma free_slot_free:
  assumes "free_slot c 0 < entries c"
  shows "\<not> entry_in_use (entry c (free_slot c 0))"
proof (cases "find (\<lambda>j. \<not> entry_in_use (entry c j)) [0..<entries c]")
  case None
  then show ?thesis
    using assms by (simp add: free_slot_def)
next
  case (Some j)
  then have "\<not> entry_in_use (entry c j)"
    by (auto simp: find_Some_iff)
  then show ?thesis
    by (simp add: free_slot_def Some)
qed

lemma lookup_ok:
  assumes "open_file sz s (d_inode D) d"
  shows "\<exists>s'. lookup True s D name =
      Some (map_option (\<lambda>j. (entry (content (sview s) d) j, 20 * int j)) (find_entry (content (sview s) d) name 0), s')
    \<and> moved sz s (sview s) s' \<and> open_file sz s' (d_inode D) d"
  using lookup_loop_ok [OF assms, of name 0] open_file_moved [OF assms] by (auto simp: lookup_def)

lemma inode_open_ok:
  assumes "fs_ok sz s" "k < sz"
  shows "\<exists>s' i. inode_open True s k = Some (Some k, s') \<and> fs_ok sz s' \<and> sview s' = sview s \<and> get_inode s' k = Some i
    \<and> (get_inode s k = None \<longrightarrow> open_cnt i = 1) \<and> (\<forall>j. j \<noteq> k \<longrightarrow> get_inode s' j = get_inode s j)"
proof (cases "get_inode s k")
  case (Some i)
  then show ?thesis
    using assms get_upd_inode [of "\<lambda>i. i\<lparr>open_cnt := open_cnt i + 1\<rparr>" s k]
      get_upd_inode_other [of _ k "\<lambda>i. i\<lparr>open_cnt := open_cnt i + 1\<rparr>" s]
    by (auto simp: inode_open_def inode_reopen_def)
next
  case None
  obtain s1 where s1: "cread s k = Some (sview s k, s1)" "moved sz s (sview s) s1"
    using cread_ok [OF assms] by blast
  then show ?thesis
    using None moved_ok [OF s1(2)] moved_fields [OF s1(2)]
    by (auto simp: inode_open_def fs_ok_def sview_def get_inode_def)
qed

lemma open_file_other:
  assumes "open_file sz s k d" "fs_ok sz s'" "sview s' = sview s" "get_inode s' k = get_inode s k"
  shows "open_file sz s' k d"
  using assms by (auto simp: open_file_def)

lemma dir_add_slot:
  assumes f: "open_file sz s (d_inode D) d" and name: "name \<noteq> []" "length name \<le> NAME_MAX" "0 \<notin> set name"
    and junk: "length junk = 20" and sec: "sec < sz" "sec \<noteq> d_inode D"
    and c: "c = content (sview s) d" "dir_map c name = None" "free_slot c 0 < entries c"
  shows "\<exists>s'. dir_add True junk s D name sec = Some (True, s') \<and> open_file sz s' (d_inode D) d
    \<and> dir_map (content (sview s') d) = (dir_map c)(name \<mapsto> sec)
    \<and> (names_distinct c \<longrightarrow> names_distinct (content (sview s') d))
    \<and> (\<exists>i. get_inode s' sec = Some i \<and> parent_node (i_data i) = d_inode D \<and> (get_inode s sec = None \<longrightarrow> open_cnt i = 1))"
proof -
  let ?k = "d_inode D" and ?j = "free_slot c 0"
  have none: "find_entry c name 0 = None"
    using c(2) by (simp add: dir_map_def)
  obtain s1 where s1: "lookup True s D name = Some (None, s1)" "moved sz s (sview s) s1" "open_file sz s1 ?k d"
    using lookup_ok [OF f, of name] none by (auto simp: c(1) [symmetric])
  have v1: "sview s1 = sview s"
    using moved_ok [OF s1(2)] by simp
  obtain e0 s2 where s2: "free_slot_loop True s1 ?k junk 0 = Some (e0, 20 * int ?j, s2)" "length e0 = 20"
      "sview s2 = sview s" "open_file sz s2 ?k d" "moved sz s1 (sview s1) s2"
    using free_slot_loop_ok [OF s1(3) junk, of 0] v1 moved_ok open_file_moved [OF s1(3)] by (auto simp: c(1))
  define e where "e = set_sector (set_name (set_in_use e0 True) name) sec"
  note e = new_entry [OF s2(2) name, of sec, folded e_def]
  have "0 \<le> i_length d"
    using f by (simp add: open_file_def wf_inode_def)
  then have fits: "20 * int ?j + 20 \<le> i_length d"
    using c(3) by (simp add: c(1) entries_def)
  have "0 \<le> 20 * int ?j" "0 < (20 :: int)" "20 = int (length e)" and j: "nat (20 * int ?j) = 20 * ?j"
    using e(1) by simp_all
  from inode_write_at_within [OF s2(4) this(1-3) fits]
  obtain s3 v3 where s3: "inode_write_at True s2 ?k e 20 (20 * int ?j) = Some (20, s3)" "moved sz s2 v3 s3"
      "wrote sz d (20 * ?j) e (sview s) v3" "open_file sz s3 ?k d"
    unfolding s2(3) j by blast
  obtain s4 i where s4: "inode_open True s3 sec = Some (Some sec, s4)" "fs_ok sz s4" "sview s4 = sview s3"
      "get_inode s4 sec = Some i" "\<forall>j. j \<noteq> sec \<longrightarrow> get_inode s4 j = get_inode s3 j"
      "get_inode s3 sec = None \<longrightarrow> open_cnt i = 1"
    using inode_open_ok [OF _ sec(1), of s3] s3(4) by (auto simp: open_file_def)
  obtain p where p: "get_inode s3 ?k = Some p"
    using s3(4) by (auto simp: open_file_def)
  define s5 where "s5 = upd_inode s4 sec (\<lambda>i. i\<lparr>i_data := (i_data i)\<lparr>parent_node := i_sector p\<rparr>\<rparr>)"
  have "dir_add True junk s D name sec = Some (True, s5)"
    using name s1(1) s2(1) s3(1) s4(1,5) sec(2) p
    by (simp add: dir_add_def e_def [symmetric] inode_set_parent_def dir_get_inode_def s5_def)
  moreover have "get_inode s5 ?k = get_inode s3 ?k"
    using s4(5) sec(2) by (simp add: s5_def get_upd_inode_other)
  then have "open_file sz s5 ?k d"
    using s4(2,3) by (intro open_file_other [OF s3(4)]) (simp_all add: s5_def)
  moreover have "content (sview s5) d = put_bytes c (20 * ?j) e"
    using s3(3) s4(3) moved_ok [OF s3(2)] by (simp add: s5_def wrote_def c(1))
  moreover have "get_inode s3 sec = get_inode s sec"
    using moved_get_inode [OF s1(2)] moved_get_inode [OF s2(5)] moved_get_inode [OF s3(2)] by simp
  then have "\<exists>i. get_inode s5 sec = Some i \<and> parent_node (i_data i) = ?k \<and> (get_inode s sec = None \<longrightarrow> open_cnt i = 1)"
    using s4(4,6) i_sector_get [OF p] by (simp add: s5_def get_upd_inode)
  ultimately show ?thesis
    using dir_map_add [OF c(3) free_slot_free [OF c(3)] c(2) e(1-3)] e(4) by simp
qed

text \<open>Closing an inode that someone else still has open only drops the count.\<close>

lemma inode_close_shared:
  assumes "get_inode s k = Some i" "open_cnt i \<noteq> 1"
  shows "inode_close mem s k = Some (upd_inode s k (\<lambda>i. i\<lparr>open_cnt := open_cnt i - 1\<rparr>))"
  using assms get_upd_inode [of "\<lambda>i. i\<lparr>open_cnt := open_cnt i - 1\<rparr>" s k] by (simp add: inode_close_def)

lemma dir_remove_entry:
  assumes f: "open_file sz s (d_inode D) d" and c: "c = content (sview s) d" "dir_map c name = Some sec" "names_distinct c"
    and i: "get_inode s sec = Some i" "open_cnt i > 0" "sec \<noteq> d_inode D"
  shows "\<exists>s'. dir_remove True s D name = Some (True, s') \<and> open_file sz s' (d_inode D) d
    \<and> dir_map (content (sview s') d) = (dir_map c)(name := None) \<and> names_distinct (content (sview s') d)
    \<and> get_inode s' sec = Some (i\<lparr>removed := True\<rparr>)"
proof -
  let ?k = "d_inode D"
  obtain j where j: "find_entry c name 0 = Some j" "entry_sector (entry c j) = sec"
    using c(2) by (auto simp: dir_map_def)
  then have h: "j < entries c" "holds c name j"
    by (auto simp: find_entry_def find_Some_iff)
  obtain s1 where s1: "lookup True s D name = Some (Some (entry c j, 20 * int j), s1)" "moved sz s (sview s) s1"
      "open_file sz s1 ?k d"
    using lookup_ok [OF f, of name] j by (auto simp: c(1) [symmetric])
  have v1: "sview s1 = sview s" "get_inode s1 sec = Some i"
    using moved_ok [OF s1(2)] moved_get_inode [OF s1(2)] i by simp_all
  define up where "up = (\<lambda>i :: inode. i\<lparr>open_cnt := open_cnt i + 1\<rparr>)"
  define s2 where "s2 = upd_inode s1 sec up"
  have open2: "inode_open True s1 sec = Some (Some sec, s2)" "get_inode s2 sec = Some (up i)"
    using v1(2) by (simp_all add: inode_open_def inode_reopen_def s2_def up_def get_upd_inode)
  have f2: "open_file sz s2 ?k d"
    using s1(3) i(3) by (intro open_file_other [OF s1(3)])
      (simp_all add: s2_def up_def get_upd_inode_other open_file_def)
  define e where "e = set_in_use (entry c j) False"
  note e = cleared_entry [OF length_entry [OF h(1)], folded e_def]
  have "0 \<le> i_length d"
    using f by (simp add: open_file_def wf_inode_def)
  then have fits: "20 * int j + 20 \<le> i_length d"
    using h(1) by (simp add: c(1) entries_def)
  have "0 \<le> 20 * int j" "0 < (20 :: int)" "20 = int (length e)" and nj: "nat (20 * int j) = 20 * j" "sview s2 = sview s"
    using e(1) by (simp_all add: s2_def v1)
  from inode_write_at_within [OF f2 this(1-3) fits]
  obtain s3 v3 where s3: "inode_write_at True s2 ?k e 20 (20 * int j) = Some (20, s3)" "moved sz s2 v3 s3"
      "wrote sz d (20 * j) e (sview s) v3" "open_file sz s3 ?k d"
    unfolding nj by blast
  define s4 where "s4 = upd_inode s3 sec (\<lambda>i. i\<lparr>removed := True\<rparr>)"
  define s5 where "s5 = upd_inode s4 sec (\<lambda>i. i\<lparr>open_cnt := open_cnt i - 1\<rparr>)"
  have i3: "get_inode s3 sec = Some (up i)"
    using open2(2) moved_get_inode [OF s3(2)] by simp
  then have i4: "get_inode s4 sec = Some ((up i)\<lparr>removed := True\<rparr>)"
    by (simp add: s4_def get_upd_inode)
  have "inode_close True s4 sec = Some s5"
    using inode_close_shared [OF i4] i(2) by (simp add: s5_def up_def)
  then have "dir_remove True s D name = Some (True, s5)"
    using s1(1) open2(1) s3(1) i3 j(2) by (simp add: dir_remove_def e_def [symmetric] inode_remove_def s4_def [symmetric])
  moreover have "get_inode s5 sec = Some (i\<lparr>removed := True\<rparr>)"
    using i4 by (simp add: s5_def get_upd_inode up_def)
  moreover have "open_file sz s5 ?k d"
    using i(3) s3(4) by (intro open_file_other [OF s3(4)])
      (simp_all add: s5_def s4_def get_upd_inode_other open_file_def)
  moreover have "content (sview s5) d = put_bytes c (20 * j) e"
    using s3(3) moved_ok [OF s3(2)] by (simp add: s5_def s4_def wrote_def c(1))
  ultimately show ?thesis
    using dir_map_remove [OF h c(3) e] by simp
qed

subsection \<open>Properties\<close>

text \<open>C22: \<^verbatim>\<open>dir_lookup\<close> answers for every name (other than the current directory) what the map of
  the directory says: it opens the inode of the entry in use with that name, or returns
  false if there is none, and changes no sector. Its search always ends.\<close>

theorem dir_lookup_answers_map:
  assumes "open_file sz s (d_inode D) d" "name \<noteq> DOT" "\<forall>sec. dir_map (content (sview s) d) name = Some sec \<longrightarrow> sec < sz"
  shows "\<exists>s'. dir_lookup True s D name = Some (dir_map (content (sview s) d) name, s') \<and> sview s' = sview s
    \<and> (\<forall>sec. dir_map (content (sview s) d) name = Some sec \<longrightarrow> get_inode s' sec \<noteq> None)"
proof -
  let ?c = "content (sview s) d"
  obtain s1 where s1: "lookup True s D name = Some (map_option (\<lambda>j. (entry ?c j, 20 * int j)) (find_entry ?c name 0), s1)"
      "moved sz s (sview s) s1"
    using lookup_ok [OF assms(1), of name] by blast
  show ?thesis
  proof (cases "find_entry ?c name 0")
    case None
    then show ?thesis
      using s1 moved_ok [OF s1(2)] assms(2) by (simp add: dir_lookup_def dir_map_def)
  next
    case (Some j)
    then have "entry_sector (entry ?c j) < sz"
      using assms(3) by (simp add: dir_map_def)
    then show ?thesis
      using Some s1 moved_ok [OF s1(2)] assms(2) inode_open_ok [of sz s1 "entry_sector (entry ?c j)"]
      by (auto simp: dir_lookup_def dir_map_def)
  qed
qed

lemma sample_dir:
  "content (sview sample_fs) sample_inode = replicate 700 0" "dir_map (replicate 700 0) name = None"
  "names_distinct (replicate 700 0)" "free_slot (replicate 700 0) 0 = 0" "entries (replicate 700 (0 :: uint8_t)) = 35"
proof -
  have "byte_at (sview sample_fs) sample_inode i = 0" for i
    by (simp add: byte_at_def sview_sample_fs)
  then show "content (sview sample_fs) sample_inode = replicate 700 0"
    by (intro nth_equalityI) (simp_all add: content_def)
  have unused: "\<not> entry_in_use (entry (replicate 700 0) j)" if "j < 35" for j
    using that by (simp add: entry_in_use_def entry_def get_bytes_def)
  show n: "entries (replicate 700 (0 :: uint8_t)) = 35"
    by (simp add: entries_def)
  show "dir_map (replicate 700 0) name = None"
    using unused by (simp add: dir_map_None n holds_def)
  show "names_distinct (replicate 700 0)"
    using unused by (simp add: names_distinct_def n)
  show "free_slot (replicate 700 0) 0 = 0"
    using unused [of 0] by (simp add: free_slot_def n upt_conv_Cons)
qed

theorem dir_lookup_answers_map_witness:
  "\<exists>s'. dir_lookup True sample_fs \<lparr>d_inode = 5, d_pos = 0\<rparr> [97] = Some (None, s')"
  using dir_lookup_answers_map [of 20 sample_fs "\<lparr>d_inode = 5, d_pos = 0\<rparr>" sample_inode "[97]"] sample_open_file
  by (auto simp: sample_dir DOT_def)

text \<open>C21: adding a name that the directory does not hold, with an entry free, makes the directory
  the old map extended by that name, keeps the names distinct, and records the directory as
  the parent of the new file; the inode of the new file stays open.\<close>

theorem dir_add_extends_map:
  assumes "open_file sz s (d_inode D) d" "name \<noteq> []" "length name \<le> NAME_MAX" "0 \<notin> set name"
    and "length junk = 20" "sec < sz" "sec \<noteq> d_inode D"
    and "dir_map (content (sview s) d) name = None" "free_slot (content (sview s) d) 0 < entries (content (sview s) d)"
  shows "\<exists>s'. dir_add True junk s D name sec = Some (True, s') \<and> open_file sz s' (d_inode D) d
    \<and> dir_map (content (sview s') d) = (dir_map (content (sview s) d))(name \<mapsto> sec)
    \<and> (names_distinct (content (sview s) d) \<longrightarrow> names_distinct (content (sview s') d))
    \<and> (\<exists>i. get_inode s' sec = Some i \<and> parent_node (i_data i) = d_inode D \<and> (get_inode s sec = None \<longrightarrow> open_cnt i = 1))"
  using dir_add_slot [OF assms(1-7) refl assms(8,9)] .

theorem dir_add_extends_map_witness:
  "\<exists>s'. dir_add True (replicate 20 7) sample_fs \<lparr>d_inode = 5, d_pos = 0\<rparr> [97, 98] 12 = Some (True, s')
    \<and> dir_map (content (sview s') sample_inode) [97, 98] = Some 12"
proof -
  have "open_file 20 sample_fs (d_inode \<lparr>d_inode = 5, d_pos = 0\<rparr>) sample_inode"
    using sample_open_file by simp
  from dir_add_extends_map [OF this, of "[97, 98]" "replicate 20 7" 12] show ?thesis
    by (simp add: sample_dir NAME_MAX_def) fastforce
qed

text \<open>C23: removing a name of a directory with distinct names takes exactly that name out of the
  map and marks the file's inode as removed, as long as another opener keeps the inode.\<close>

theorem dir_remove_shrinks_map:
  assumes "open_file sz s (d_inode D) d" "dir_map (content (sview s) d) name = Some sec" "names_distinct (content (sview s) d)"
    and "get_inode s sec = Some i" "open_cnt i > 0" "sec \<noteq> d_inode D"
  shows "\<exists>s'. dir_remove True s D name = Some (True, s') \<and> open_file sz s' (d_inode D) d
    \<and> dir_map (content (sview s') d) = (dir_map (content (sview s) d))(name := None)
    \<and> names_distinct (content (sview s') d) \<and> get_inode s' sec = Some (i\<lparr>removed := True\<rparr>)"
  using dir_remove_entry [OF assms(1) refl assms(2-6)] .

theorem dir_remove_shrinks_map_witness:
  "\<exists>s s'. dir_add True (replicate 20 7) sample_fs \<lparr>d_inode = 5, d_pos = 0\<rparr> [97, 98] 12 = Some (True, s)
    \<and> dir_remove True s \<lparr>d_inode = 5, d_pos = 0\<rparr> [97, 98] = Some (True, s')
    \<and> dir_map (content (sview s') sample_inode) [97, 98] = None"
proof -
  let ?D = "\<lparr>d_inode = 5, d_pos = 0\<rparr> :: dir"
  have f: "open_file 20 sample_fs (d_inode ?D) sample_inode"
    using sample_open_file by simp
  have "get_inode sample_fs 12 = None"
    by (simp add: get_inode_def sample_fs_def)
  with dir_add_slot [OF f, of "[97, 98]" "replicate 20 7" 12, OF _ _ _ _ _ _ refl]
  obtain s i where s: "dir_add True (replicate 20 7) sample_fs ?D [97, 98] 12 = Some (True, s)" "open_file 20 s (d_inode ?D) sample_inode"
      "dir_map (content (sview s) sample_inode) = (dir_map (replicate 700 0))([97, 98] \<mapsto> 12)"
      "names_distinct (content (sview s) sample_inode)" "get_inode s 12 = Some i" "open_cnt i = 1"
    by (auto simp: sample_dir NAME_MAX_def)
  have "dir_map (content (sview s) sample_inode) [97, 98] = Some 12" "0 < open_cnt i" "(12 :: block_sector_t) \<noteq> d_inode ?D"
    using s(3,6) by simp_all
  from dir_remove_shrinks_map [OF s(2) this(1) s(4,5) this(2,3)] show ?thesis
    using s(1) by auto
qed

end
