(* ===== verification/Filesys.thy ===== *)
theory Filesys
  imports Directory
begin

text \<open>
  The file system as the system calls see it (\<^verbatim>\<open>filesys/filesys.c\<close>): path names and the
  operations on them. The working directory of the running thread is passed as an argument.
  A path is the list of its bytes before the terminating null byte. Reading through a null
  pointer, writing behind the end of a name buffer of \<^verbatim>\<open>NAME_MAX + 1\<close> bytes and freeing
  memory that \<^verbatim>\<open>malloc\<close> did not give stop the kernel and are \<open>None\<close>. So does the copy
  that \<^verbatim>\<open>dirname\<close> and \<^verbatim>\<open>basename\<close> make of the path when \<^verbatim>\<open>malloc\<close> fails, because
  \<^verbatim>\<open>strlcpy\<close> asserts that its destination is not null: their callers assert \<open>mem\<close>.
\<close>

subsection \<open>Path names\<close>

abbreviation slash :: uint8_t where "slash \<equiv> 47"

type_synonym pathname = bytes

text \<open>The backward loops \<^verbatim>\<open>for (...; i >= 0 && P (path[i]); i--)\<close>, on \<open>i + 1\<close>.\<close>

fun back_while :: "(uint8_t \<Rightarrow> bool) \<Rightarrow> pathname \<Rightarrow> nat \<Rightarrow> nat" where
  "back_while P p 0 = 0"
| "back_while P p (Suc i) = (if P (p ! i) then back_while P p i else Suc i)"

definition dirname :: "pathname \<Rightarrow> pathname" where
  "dirname path_name =
     (if path_name = [] then [slash]
      else
        let n = back_while (\<lambda>b. b = slash) path_name (length path_name) in
        if n = 0 then path_name
        else
          let n = back_while (\<lambda>b. b \<noteq> slash) path_name (n - 1) in
          if n = 0 then DOT
          else
            let n = back_while (\<lambda>b. b = slash) path_name (n - 1) in
            if n = 0 then [slash] else take n path_name)"

text \<open>The flag says whether the result is memory from \<^verbatim>\<open>malloc\<close>, as opposed to a string literal.\<close>

definition basename :: "pathname \<Rightarrow> bool \<times> pathname" where
  "basename path_name =
     (if path_name = [] then (False, [])
      else
        let n = back_while (\<lambda>b. b = slash) path_name (length path_name) in
        if n = 0 then (False, [slash])
        else (True, drop (back_while (\<lambda>b. b \<noteq> slash) path_name n) (take n path_name)))"

fun skip_slashes :: "pathname \<Rightarrow> pathname" where
  "skip_slashes [] = []"
| "skip_slashes (b # src) = (if b = slash then skip_slashes src else b # src)"

fun copy_part :: "nat \<Rightarrow> pathname \<Rightarrow> (name \<times> pathname) option" where
  "copy_part room [] = Some ([], [])"
| "copy_part room (b # src) =
     (if b = slash then Some ([], b # src)
      else case room of
        0 \<Rightarrow> None
      | Suc room \<Rightarrow> do { (part, rest) \<leftarrow> copy_part room src; Some (b # part, rest) })"

datatype part = End_Of_Path | Too_Long | Part name pathname

definition get_next_part :: "pathname \<Rightarrow> part" where
  "get_next_part srcp =
     (let src = skip_slashes srcp in
      if src = [] then End_Of_Path
      else case copy_part NAME_MAX src of None \<Rightarrow> Too_Long | Some (part, rest) \<Rightarrow> Part part rest)"

subsection \<open>Finding the directory of a path\<close>

definition rel_to_abs :: "bool \<Rightarrow> fsys \<Rightarrow> dir option \<Rightarrow> pathname \<Rightarrow> (bool \<times> block_sector_t option \<times> fsys) option" where
  "rel_to_abs mem s wd path_name =
     (if path_name \<noteq> [] \<and> hd path_name = slash then do {
        (d, s) \<leftarrow> dir_open_root mem s;
        d \<leftarrow> d;
        Some (False, Some (dir_get_inode d), s) }
      else case wd of
        Some w \<Rightarrow> do {
          (d, s) \<leftarrow> dir_reopen mem s w;
          d \<leftarrow> d;
          Some (True, Some (dir_get_inode d), s) }
      | None \<Rightarrow> Some (True, None, s))"

lemma get_next_part_shorter: "get_next_part p = Part c rest \<Longrightarrow> length rest < length p"
proof -
  have skip: "length (skip_slashes p) \<le> length p" for p
    by (induction p) auto
  have copy: "copy_part n q = Some (c, rest) \<Longrightarrow> q \<noteq> [] \<Longrightarrow> hd q \<noteq> slash \<Longrightarrow> length rest < length q" for n q c rest
  proof -
    have le: "copy_part n q = Some (c, rest) \<Longrightarrow> length rest \<le> length q" for n q c rest
      by (induction n q arbitrary: c rest rule: copy_part.induct) (fastforce split: if_splits nat.splits bind_splits)+
    show "copy_part n q = Some (c, rest) \<Longrightarrow> q \<noteq> [] \<Longrightarrow> hd q \<noteq> slash \<Longrightarrow> length rest < length q"
      by (cases q; cases n) (auto split: bind_splits dest!: le)
  qed
  have hd: "skip_slashes p \<noteq> [] \<Longrightarrow> hd (skip_slashes p) \<noteq> slash" for p
    by (induction p) auto
  show "get_next_part p = Part c rest \<Longrightarrow> length rest < length p"
    using skip [of p] copy [of NAME_MAX "skip_slashes p"] hd [of p]
    by (fastforce simp: get_next_part_def Let_def split: if_splits option.splits)
qed

text \<open>The loop of \<^verbatim>\<open>try_get_dir\<close>; the result \<open>None\<close> stands for the return of a null pointer.\<close>

function walk ::
  "bool \<Rightarrow> fsys \<Rightarrow> pathname \<Rightarrow> block_sector_t \<Rightarrow> (block_sector_t option \<times> fsys) option" where
  "walk mem s dir_name cur_inode = (case get_next_part dir_name of
     Part next_part dir_name \<Rightarrow> do {
       (cur_dir, s) \<leftarrow> dir_open mem s (Some cur_inode);
       d \<leftarrow> cur_dir;
       (next_inode, s) \<leftarrow> dir_lookup mem s d next_part;
       case next_inode of
         Some n \<Rightarrow> do {
           s \<leftarrow> dir_close mem s cur_dir;
           is_dir \<leftarrow> inode_is_dir s n;
           walk mem s dir_name (if is_dir then n else cur_inode) }
       | None \<Rightarrow>
           if get_next_part dir_name \<noteq> End_Of_Path then Some (None, s)
           else Some (Some cur_inode, s) }
   | _ \<Rightarrow> Some (Some cur_inode, s))"
  by pat_completeness auto
termination
  by (relation "measure (\<lambda>(mem, s, p, k). length p)") (auto dest: get_next_part_shorter)

definition try_get_dir :: "bool \<Rightarrow> fsys \<Rightarrow> dir option \<Rightarrow> pathname \<Rightarrow> (dir option \<times> name \<times> fsys) option" where
  "try_get_dir mem s wd file_path =
     (if file_path = [] then Some (None, [], s)
      else do {
        ASSERT mem;
        let dir_name = dirname file_path;
        (_, cur_inode, s) \<leftarrow> rel_to_abs mem s wd file_path;
        case cur_inode of
          None \<Rightarrow> Some (None, [], s)
        | Some cur \<Rightarrow> do {
            (r, s) \<leftarrow> (if dir_name = DOT then do {
                ASSERT (length file_path \<le> NAME_MAX);
                Some (Some cur, s) }
              else walk mem s dir_name cur);
            case r of
              None \<Rightarrow> Some (None, [], s)
            | Some cur \<Rightarrow> do {
                let (on_heap, base_name) = basename file_path;
                ASSERT (length base_name \<le> NAME_MAX);
                ASSERT on_heap;
                (d, s) \<leftarrow> dir_open mem s (Some cur);
                Some (d, base_name, s) } } })"

subsection \<open>Operations\<close>

definition do_format :: "bool \<Rightarrow> fsys \<Rightarrow> fsys option" where
  "do_format mem s = do {
     s \<leftarrow> free_map_create mem s;
     (ok, s) \<leftarrow> dir_create mem s ROOT_DIR_SECTOR 16;
     ASSERT ok;
     free_map_close mem s }"

definition filesys_init ::
  "bool \<Rightarrow> elem_type list option \<Rightarrow> bool \<Rightarrow> fsys \<Rightarrow> (dir option \<times> fsys) option" where
  "filesys_init mem got_bits format s = do {
     role \<leftarrow> block_get_role (devices (fs_cache s)) BLOCK_FILESYS;
     dev \<leftarrow> role;
     let s = s\<lparr>fs_cache := (fs_cache s)\<lparr>fs_device := dev\<rparr>\<rparr>;
     let s = inode_init s;
     s \<leftarrow> free_map_init mem got_bits s;
     let s = s\<lparr>fs_cache := filesys_cache_init (fs_cache s)\<rparr>;
     s \<leftarrow> (if format then do_format mem s else Some s);
     (root_node, s) \<leftarrow> inode_open mem s ROOT_DIR_SECTOR;
     (working_dir, s) \<leftarrow> dir_open mem s root_node;
     s \<leftarrow> free_map_open mem s;
     Some (working_dir, s) }"

definition filesys_done :: "bool \<Rightarrow> fsys \<Rightarrow> fsys option" where
  "filesys_done mem s = do {
     c \<leftarrow> cache_flush (fs_cache s);
     free_map_close mem (s\<lparr>fs_cache := c\<rparr>) }"

definition filesys_create ::
  "bool \<Rightarrow> bytes \<Rightarrow> fsys \<Rightarrow> dir option \<Rightarrow> pathname \<Rightarrow> off_t \<Rightarrow> bool \<Rightarrow> (bool \<times> fsys) option" where
  "filesys_create mem junk s wd name initial_size is_dir = do {
     (relative, _, s) \<leftarrow> rel_to_abs mem s wd name;
     gone \<leftarrow> (if relative then do { w \<leftarrow> wd; inode_removed s (dir_get_inode w) } else Some False);
     if gone then Some (False, s)
     else do {
       (d, base_name, s) \<leftarrow> try_get_dir mem s wd name;
       (success, inode_sector, s) \<leftarrow> (case d of
           None \<Rightarrow> Some (False, 0, s)
         | Some dd \<Rightarrow> do {
             (r, s) \<leftarrow> free_map_allocate mem 1 s;
             case r of
               None \<Rightarrow> Some (False, 0, s)
             | Some sec \<Rightarrow> do {
                 (ok, s) \<leftarrow> inode_create mem s sec initial_size is_dir;
                 if \<not> ok then Some (False, sec, s)
                 else do {
                   (ok, s) \<leftarrow> dir_add mem junk s dd base_name sec;
                   Some (ok, sec, s) } } });
       s \<leftarrow> (if \<not> success \<and> inode_sector \<noteq> 0 then free_map_release mem s inode_sector 1 else Some s);
       s \<leftarrow> dir_close mem s d;
       Some (success, s) } }"

definition filesys_open :: "bool \<Rightarrow> fsys \<Rightarrow> dir option \<Rightarrow> pathname \<Rightarrow> (file_t option \<times> fsys) option" where
  "filesys_open mem s wd name =
     (if name = [] then Some (None, s)
      else do {
        (root, s) \<leftarrow> dir_open_root mem s;
        if name = [slash] then do {
          d \<leftarrow> root;
          (root_file, s) \<leftarrow> file_open mem s (Some (dir_get_inode d));
          s \<leftarrow> dir_close mem s root;
          Some (root_file, s) }
        else if name = DOT then do {
          w \<leftarrow> wd;
          gone \<leftarrow> inode_removed s (dir_get_inode w);
          if gone then Some (None, s)
          else do {
            (again, s) \<leftarrow> dir_reopen mem s w;
            a \<leftarrow> again;
            (working_dir, s) \<leftarrow> file_open mem s (Some (dir_get_inode a));
            s \<leftarrow> dir_close mem s root;
            Some (working_dir, s) } }
        else do {
          ASSERT mem;
          let (on_heap, base_name) = basename name;
          (in_root, s) \<leftarrow> (case root of
              None \<Rightarrow> Some (None, s)
            | Some d \<Rightarrow> dir_lookup mem s d base_name);
          (stop, d, inode, s) \<leftarrow> (case in_root of
              Some k \<Rightarrow> Some (False, root, Some k, s)
            | None \<Rightarrow> do {
                (d, file_name, s) \<leftarrow> try_get_dir mem s wd name;
                case d of
                  None \<Rightarrow> Some (True, None, None, s)
                | Some dd \<Rightarrow> do {
                    (k, s) \<leftarrow> dir_lookup mem s dd file_name;
                    Some (False, d, k, s) } });
          if stop then Some (None, s)
          else do {
            s \<leftarrow> dir_close mem s d;
            ASSERT on_heap;
            file_open mem s inode } } })"

definition filesys_chdir :: "bool \<Rightarrow> fsys \<Rightarrow> dir option \<Rightarrow> pathname \<Rightarrow> (bool \<times> dir option \<times> fsys) option" where
  "filesys_chdir mem s wd arg =
     (if arg = [46, 46] then do {
        w \<leftarrow> wd;
        parent \<leftarrow> inode_get_parent s (dir_get_inode w);
        (inode, s) \<leftarrow> inode_open mem s parent;
        (working_dir, s) \<leftarrow> dir_open mem s inode;
        d \<leftarrow> working_dir;
        (again, s) \<leftarrow> dir_reopen mem s d;
        s \<leftarrow> dir_close mem s again;
        Some (True, working_dir, s) }
      else do {
        (d, base_name, s) \<leftarrow> try_get_dir mem s wd arg;
        dd \<leftarrow> d;
        (dir_inode, s) \<leftarrow> dir_lookup mem s dd base_name;
        case dir_inode of
          Some k \<Rightarrow> do {
            s \<leftarrow> dir_close mem s wd;
            (working_dir, s) \<leftarrow> dir_open mem s (Some k);
            Some (True, working_dir, s) }
        | None \<Rightarrow> Some (False, wd, s) })"

definition is_parent_dir :: "bool \<Rightarrow> fsys \<Rightarrow> block_sector_t \<Rightarrow> block_sector_t \<Rightarrow> (bool \<times> fsys) option" where
  "is_parent_dir mem s child parent = do {
     p \<leftarrow> inode_get_parent s child;
     (curr_inode, s) \<leftarrow> inode_open mem s p;
     c \<leftarrow> curr_inode;
     c \<leftarrow> inode_get_inumber s c;
     p \<leftarrow> inode_get_inumber s parent;
     Some (c = p, s) }"

definition filesys_remove :: "bool \<Rightarrow> fsys \<Rightarrow> dir option \<Rightarrow> pathname \<Rightarrow> (bool \<times> fsys) option" where
  "filesys_remove mem s wd name =
     (if name = [slash] then Some (False, s)
      else do {
        (d, base_name, s) \<leftarrow> try_get_dir mem s wd name;
        dd \<leftarrow> d;
        (dir_inode, s) \<leftarrow> dir_lookup mem s dd base_name;
        k \<leftarrow> dir_inode;
        is_dir \<leftarrow> inode_is_dir s k;
        (forbidden, s) \<leftarrow> (if is_dir then do {
            w \<leftarrow> wd;
            a \<leftarrow> inode_get_inumber s k;
            b \<leftarrow> inode_get_inumber s (dir_get_inode w);
            if a \<noteq> b then is_parent_dir mem s (dir_get_inode w) k else Some (False, s) }
          else Some (False, s));
        if forbidden then Some (False, s)
        else do {
          (success, s) \<leftarrow> dir_remove mem s dd base_name;
          s \<leftarrow> dir_close mem s d;
          Some (success, s) } })"

subsection \<open>Path names taken apart\<close>

lemma skip_slashes_eq: "skip_slashes p = dropWhile (\<lambda>b. b = slash) p"
  by (induction p) auto

lemma copy_part_eq:
  "copy_part room p = (if length (takeWhile (\<lambda>b. b \<noteq> slash) p) \<le> room
     then Some (takeWhile (\<lambda>b. b \<noteq> slash) p, dropWhile (\<lambda>b. b \<noteq> slash) p) else None)"
  by (induction room p rule: copy_part.induct) (auto split: nat.splits)

lemma back_while_append:
  assumes "\<forall>x \<in> set zs. P x" "xs = [] \<or> \<not> P (last xs)"
  shows "back_while P (xs @ zs @ ys) (length xs + length zs) = length xs"
  using assms
proof (induction zs arbitrary: ys rule: rev_induct)
  case Nil
  then show ?case
    by (cases xs rule: rev_cases) (simp_all add: nth_append)
next
  case (snoc z zs)
  have "(xs @ (zs @ [z]) @ ys) ! (length xs + length zs) = z"
    by (simp add: nth_append)
  then show ?case
    using snoc.IH [of "z # ys"] snoc.prems by simp
qed

lemma back_while_all: "\<forall>x \<in> set zs. P x \<Longrightarrow> back_while P (zs @ ys) (length zs) = 0"
  using back_while_append [of zs P "[]" ys] by simp

text \<open>A path: directory, slashes, last component, slashes.\<close>

lemma last_not_slash: "b \<noteq> [] \<Longrightarrow> slash \<notin> set b \<Longrightarrow> last b \<noteq> slash"
  using last_in_set [of b] by metis

lemma basename_eq:
  assumes "b \<noteq> []" "slash \<notin> set b" "d = [] \<or> last d = slash"
  shows "basename (d @ b @ replicate m slash) = (True, b)"
proof -
  let ?p = "d @ b @ replicate m slash"
  have "last (d @ b) \<noteq> slash"
    using assms(1,2) last_not_slash [of b] by simp
  then have "back_while (\<lambda>c. c = slash) ((d @ b) @ replicate m slash @ []) (length (d @ b) + length (replicate m slash)) = length (d @ b)"
    by (intro back_while_append) auto
  then have n: "back_while (\<lambda>c. c = slash) ?p (length ?p) = length (d @ b)"
    by (simp add: add.assoc)
  have "back_while (\<lambda>c. c \<noteq> slash) (d @ b @ replicate m slash) (length d + length b) = length d"
    using assms by (intro back_while_append) auto
  then show ?thesis
    using n assms(1) by (simp add: basename_def Let_def)
qed

lemma dirname_eq:
  assumes "b \<noteq> []" "slash \<notin> set b" "d = [] \<or> last d \<noteq> slash"
  shows "dirname (d @ replicate k slash @ b @ replicate m slash) =
    (if k = 0 then if d = [] then DOT else dirname (d @ b @ replicate m slash) else if d = [] then [slash] else d)"
proof (cases "k = 0")
  case True
  have "last b \<noteq> slash"
    using assms(1,2) last_not_slash [of b] by simp
  then have n: "back_while (\<lambda>c. c = slash) (b @ replicate m slash @ []) (length b + length (replicate m slash)) = length b"
    using assms(1) by (intro back_while_append) auto
  have "back_while (\<lambda>c. c \<noteq> slash) (butlast b @ last b # replicate m slash) (length (butlast b)) = 0"
    using assms(2) by (intro back_while_all) (auto dest: in_set_butlastD)
  moreover have "butlast b @ last b # replicate m slash = b @ replicate m slash"
    using assms(1) by (simp add: append_butlast_last_id flip: append.assoc)
  ultimately show ?thesis
    using True n assms(1) by (simp add: dirname_def Let_def)
next
  case False
  define e where "e = d @ replicate k slash"
  define p where "p = e @ b @ replicate m slash"
  have b: "last b \<noteq> slash" "butlast b @ [last b] = b"
    using assms(1,2) last_not_slash [of b] by simp_all
  have e: "e \<noteq> []" "last e = slash"
    using False by (simp_all add: e_def last_replicate)
  have "back_while (\<lambda>c. c = slash) ((e @ b) @ replicate m slash @ []) (length (e @ b) + length (replicate m slash)) = length (e @ b)"
    using b(1) assms(1) by (intro back_while_append) auto
  then have n1: "back_while (\<lambda>c. c = slash) p (length p) = length e + length b"
    by (simp add: p_def add.assoc)
  have "back_while (\<lambda>c. c \<noteq> slash) (e @ butlast b @ last b # replicate m slash) (length e + length (butlast b)) = length e"
    using assms(2) e by (intro back_while_append) (auto dest: in_set_butlastD)
  moreover have "e @ butlast b @ last b # replicate m slash = p"
    using b(2) by (metis append.assoc append_Cons append_Nil p_def)
  moreover have "length e + length (butlast b) = length e + length b - 1"
    using assms(1) by (cases b) simp_all
  ultimately have n2: "back_while (\<lambda>c. c \<noteq> slash) p (length e + length b - 1) = length e"
    by simp
  have "back_while (\<lambda>c. c = slash) (d @ replicate (k - 1) slash @ slash # b @ replicate m slash) (length d + length (replicate (k - 1) slash)) = length d"
    using assms(3) by (intro back_while_append) auto
  moreover have "d @ replicate (k - 1) slash @ slash # b @ replicate m slash = p"
    using False by (cases k) (simp_all add: p_def e_def replicate_append_same [symmetric])
  moreover have "length d + length (replicate (k - 1) slash) = length e - 1"
    using False by (simp add: e_def)
  ultimately have n3: "back_while (\<lambda>c. c = slash) p (length e - 1) = length d"
    by simp
  have "dirname p = (if d = [] then [slash] else d)"
    using n1 n2 n3 e(1) assms(1) by (simp add: dirname_def Let_def) (simp add: p_def e_def)
  then show ?thesis
    using False by (simp add: p_def e_def)
qed

lemma get_next_part_eq:
  assumes "c \<noteq> []" "slash \<notin> set c" "rest = [] \<or> hd rest = slash"
  shows "get_next_part (replicate k slash @ c @ rest) = (if length c \<le> NAME_MAX then Part c rest else Too_Long)"
proof -
  have "skip_slashes (replicate k slash @ c @ rest) = c @ rest"
    using assms(1,2) by (cases c) (auto simp: skip_slashes_eq dropWhile_append)
  moreover have "takeWhile (\<lambda>b. b \<noteq> slash) (c @ rest) = c" "dropWhile (\<lambda>b. b \<noteq> slash) (c @ rest) = rest"
    using assms(2,3) by (cases rest; auto simp: takeWhile_append dropWhile_append; fail)+
  ultimately show ?thesis
    using assms(1) by (simp add: get_next_part_def copy_part_eq)
qed

subsection \<open>Opening and removing by name\<close>

lemma reopen_then_close:
  assumes "get_inode s k = Some i" "open_cnt i > 0" "sview s2 = sview s" "get_inode s2 k = Some (i\<lparr>open_cnt := open_cnt i + 1\<rparr>)"
  shows "\<exists>s3. inode_close mem s2 k = Some s3 \<and> sview s3 = sview s2 \<and> get_inode s3 k = Some i"
  using inode_close_shared [OF assms(4)] assms(2,4) by (simp add: get_upd_inode)

lemma relative_single:
  assumes f: "open_file sz s (d_inode w) d" and name: "name \<noteq> []" "slash \<notin> set name" "length name \<le> NAME_MAX"
  shows "\<exists>s'. try_get_dir True s (Some w) name = Some (Some \<lparr>d_inode = d_inode w, d_pos = 0\<rparr>, name, s')
    \<and> sview s' = sview s \<and> open_file sz s' (d_inode w) d"
proof -
  let ?s = "inode_reopen s (d_inode w)"
  have "dirname name = DOT" "basename name = (True, name)"
    using dirname_eq [OF name(1,2), of "[]" 0 0] basename_eq [OF name(1,2), of "[]" 0] by simp_all
  moreover have "\<not> (name \<noteq> [] \<and> hd name = slash)"
    using name(1,2) by (cases name) auto
  ultimately have "try_get_dir True s (Some w) name = Some (Some \<lparr>d_inode = d_inode w, d_pos = 0\<rparr>, name, ?s)"
    using name by (simp add: try_get_dir_def rel_to_abs_def dir_reopen_def dir_open_def dir_get_inode_def)
  moreover obtain i where "get_inode s (d_inode w) = Some i"
    using f by (auto simp: open_file_def)
  ultimately show ?thesis
    using inode_open_again [of s "d_inode w" i] f by blast
qed

subsection \<open>Properties\<close>

text \<open>C29: paths are taken apart as intended: the last component and the directory in front of
  it, whatever the number of slashes between and behind them, and the components one by one
  from the front, where a component of more than \<^verbatim>\<open>NAME_MAX\<close> bytes is reported.\<close>

theorem path_components:
  assumes "b \<noteq> []" "slash \<notin> set b" "d = [] \<or> last d \<noteq> slash" "rest = [] \<or> hd rest = slash"
  shows "dirname (d @ replicate (Suc k) slash @ b @ replicate m slash) = (if d = [] then [slash] else d)
    \<and> basename (d @ replicate (Suc k) slash @ b @ replicate m slash) = (True, b)
    \<and> dirname (b @ replicate m slash) = DOT \<and> basename (b @ replicate m slash) = (True, b)
    \<and> get_next_part (replicate k slash @ b @ rest) = (if length b \<le> NAME_MAX then Part b rest else Too_Long)
    \<and> get_next_part (replicate k slash) = End_Of_Path"
proof -
  have "dirname (d @ replicate (Suc k) slash @ b @ replicate m slash) = (if d = [] then [slash] else d)"
    using dirname_eq [OF assms(1-3), of "Suc k" m] by simp
  moreover have "basename ((d @ replicate (Suc k) slash) @ b @ replicate m slash) = (True, b)"
    using assms(1,2) by (intro basename_eq) (simp_all add: last_append last_replicate del: replicate_Suc)
  moreover have "dirname (b @ replicate m slash) = DOT"
    using dirname_eq [OF assms(1,2), of "[]" 0 m] by simp
  moreover have "basename (b @ replicate m slash) = (True, b)"
    using basename_eq [OF assms(1,2), of "[]" m] by simp
  moreover have "get_next_part (replicate k slash) = End_Of_Path"
    by (simp add: get_next_part_def skip_slashes_eq dropWhile_replicate)
  ultimately show ?thesis
    using get_next_part_eq [OF assms(1,2,4), of k] by simp
qed

theorem path_components_witness:
  "dirname [97, 47, 47, 98, 99, 47] = [97] \<and> basename [97, 47, 47, 98, 99, 47] = (True, [98, 99])
    \<and> get_next_part [47, 98, 99, 47, 100] = Part [98, 99] [47, 100]"
  using path_components [of "[98, 99]" "[97]" "[47, 100]" 1 1] by (simp add: NAME_MAX_def)

text \<open>C36: \<^verbatim>\<open>filesys_remove\<close> of a name that the working directory does not hold stops the kernel:
  the null pointer that \<^verbatim>\<open>dir_lookup\<close> leaves is passed to \<^verbatim>\<open>inode_is_dir\<close>. (The comment says
  that it fails if no file of that name exists.)\<close>

theorem filesys_remove_missing_panics:
  assumes "open_file sz s (d_inode w) d" "name \<noteq> []" "slash \<notin> set name" "length name \<le> NAME_MAX" "name \<noteq> DOT"
    and "dir_map (content (sview s) d) name = None"
  shows "filesys_remove True s (Some w) name = None"
proof -
  obtain s1 where s1: "try_get_dir True s (Some w) name = Some (Some \<lparr>d_inode = d_inode w, d_pos = 0\<rparr>, name, s1)"
      "sview s1 = sview s" "open_file sz s1 (d_inode w) d"
    using relative_single [OF assms(1-4)] by blast
  have "find_entry (content (sview s1) d) name 0 = None"
    using assms(6) s1(2) by (simp add: dir_map_def)
  then obtain s2 where "dir_lookup True s1 \<lparr>d_inode = d_inode w, d_pos = 0\<rparr> name = Some (None, s2)"
    using lookup_ok [of sz s1 "\<lparr>d_inode = d_inode w, d_pos = 0\<rparr>" d name] s1(3) assms(5) by (auto simp: dir_lookup_def)
  then show ?thesis
    using s1(1) assms(3) by (auto simp: filesys_remove_def)
qed

theorem filesys_remove_missing_panics_witness:
  "filesys_remove True sample_fs (Some \<lparr>d_inode = 5, d_pos = 0\<rparr>) [97] = None"
  using filesys_remove_missing_panics [of 20 sample_fs "\<lparr>d_inode = 5, d_pos = 0\<rparr>" sample_inode "[97]"] sample_open_file
  by (simp add: sample_dir DOT_def NAME_MAX_def)

end
