(* ===== verification/Memory.thy ===== *)
theory Memory
  imports Bytes
begin

text \<open>
  Memory as the code sees it through pointers: 32-bit addresses, each mapped to a byte or not
  mapped. A read or write of an address that is not mapped is a fault, \<open>None\<close>. The string
  library, which copies within one memory, and the kernel's accesses to the memory of a user
  process work on it.
\<close>

type_synonym ptr = uint32_t
type_synonym memory = "ptr \<Rightarrow> uint8_t option"

abbreviation (input) NULL :: ptr where "NULL \<equiv> 0"

definition store :: "memory \<Rightarrow> ptr \<Rightarrow> uint8_t \<Rightarrow> memory option" where
  "store m p v = (if m p = None then None else Some (m(p \<mapsto> v)))"

text \<open>The bytes at an address, the string (without its null byte) at an address, and a block of
  mapped addresses.\<close>

primrec bytes_at :: "memory \<Rightarrow> ptr \<Rightarrow> bytes \<Rightarrow> bool" where
  "bytes_at m p [] = True"
| "bytes_at m p (b # bs) = (m p = Some b \<and> bytes_at m (p + 1) bs)"

definition str_at :: "memory \<Rightarrow> ptr \<Rightarrow> bytes \<Rightarrow> bool" where
  "str_at m p s \<longleftrightarrow> 0 \<notin> set s \<and> bytes_at m p (s @ [0])"

primrec mapped :: "memory \<Rightarrow> ptr \<Rightarrow> nat \<Rightarrow> bool" where
  "mapped m p 0 = True"
| "mapped m p (Suc n) = (m p \<noteq> None \<and> mapped m (p + 1) n)"

primrec write_bytes :: "memory \<Rightarrow> ptr \<Rightarrow> bytes \<Rightarrow> memory" where
  "write_bytes m p [] = m"
| "write_bytes m p (b # bs) = write_bytes (m(p \<mapsto> b)) (p + 1) bs"

text \<open>A block that does not reach the end of the address space, and an address in it.\<close>

definition in_space :: "ptr \<Rightarrow> nat \<Rightarrow> bool" where
  "in_space p n \<longleftrightarrow> unat p + n < 2 ^ 32"

definition within :: "ptr \<Rightarrow> nat \<Rightarrow> ptr \<Rightarrow> bool" where
  "within p n a \<longleftrightarrow> unat p \<le> unat a \<and> unat a < unat p + n"

subsection \<open>Addresses\<close>

lemma unat_offset: "in_space p n \<Longrightarrow> i \<le> n \<Longrightarrow> unat (p + of_nat i) = unat p + i"
  by (simp add: in_space_def unat_add_le)

lemma unat_succ: "in_space p (Suc n) \<Longrightarrow> unat (p + 1) = unat p + 1"
  using unat_offset [of p "Suc n" 1] by simp

lemma in_space_succ: "in_space p (Suc n) \<Longrightarrow> in_space (p + 1) n"
  using unat_succ [of p n] by (simp add: in_space_def)

lemma in_space_le: "in_space p n \<Longrightarrow> i \<le> n \<Longrightarrow> in_space p i"
  by (simp add: in_space_def)

lemma within_offset: "in_space p n \<Longrightarrow> i < n \<Longrightarrow> within p n (p + of_nat i)"
  using unat_offset [of p n i] by (simp add: within_def)

lemma within_0 [simp]: "\<not> within p 0 a"
  by (simp add: within_def)

lemma within_Suc: "in_space p (Suc n) \<Longrightarrow> within p (Suc n) a \<longleftrightarrow> a = p \<or> within (p + 1) n a"
  using unat_succ [of p n] by (auto simp: within_def word_unat_eq_iff)

lemma not_within_succ: "in_space p (Suc n) \<Longrightarrow> \<not> within (p + 1) n p"
  using unat_succ [of p n] by (simp add: within_def)

lemma succ_offset: "p + 1 + of_nat i = p + of_nat (Suc i)" for p :: ptr
  by simp

subsection \<open>Reading\<close>

lemma bytes_at_nth: "bytes_at m p bs \<longleftrightarrow> (\<forall>i < length bs. m (p + of_nat i) = Some (bs ! i))"
proof (induction bs arbitrary: p)
  case (Cons b bs)
  show ?case
    unfolding bytes_at.simps Cons by (auto simp: ac_simps less_Suc_eq_0_disj)
qed simp

lemma bytes_at_append: "bytes_at m p (xs @ ys) \<longleftrightarrow> bytes_at m p xs \<and> bytes_at m (p + of_nat (length xs)) ys"
  by (induction xs arbitrary: p) (auto simp: ac_simps)

lemma mapped_nth: "mapped m p n \<longleftrightarrow> (\<forall>i < n. m (p + of_nat i) \<noteq> None)"
proof (induction n arbitrary: p)
  case (Suc n)
  show ?case
    unfolding mapped.simps Suc by (auto simp: ac_simps less_Suc_eq_0_disj)
qed simp

lemma bytes_at_mapped: "bytes_at m p bs \<Longrightarrow> mapped m p (length bs)"
  by (simp add: bytes_at_nth mapped_nth)

lemma str_at_Nil [simp]: "str_at m p [] \<longleftrightarrow> m p = Some 0"
  by (simp add: str_at_def)

lemma str_at_Cons [simp]: "str_at m p (c # s) \<longleftrightarrow> c \<noteq> 0 \<and> m p = Some c \<and> str_at m (p + 1) s"
  by (auto simp: str_at_def)

lemma str_at_unique: "str_at m p s \<Longrightarrow> str_at m p t \<Longrightarrow> s = t"
proof (induction s arbitrary: p t)
  case (Cons c s)
  then show ?case
    by (cases t) auto
next
  case Nil
  then show ?case
    by (cases t) auto
qed

lemma str_at_append: "str_at m p (s @ t) \<Longrightarrow> str_at m (p + of_nat (length s)) t"
  by (auto simp: str_at_def bytes_at_append)

lemma bytes_at_cong: "(\<And>i. i < length bs \<Longrightarrow> m' (p + of_nat i) = m (p + of_nat i)) \<Longrightarrow> bytes_at m' p bs = bytes_at m p bs"
  by (simp add: bytes_at_nth)

text \<open>Reading is not affected by changes elsewhere.\<close>

lemma bytes_at_outside:
  "bytes_at m p bs \<Longrightarrow> in_space p (length bs) \<Longrightarrow> (\<And>a. within p (length bs) a \<Longrightarrow> m' a = m a) \<Longrightarrow> bytes_at m' p bs"
  using within_offset by (simp add: bytes_at_nth)

lemma str_at_outside:
  "str_at m p s \<Longrightarrow> in_space p (Suc (length s)) \<Longrightarrow> (\<And>a. within p (Suc (length s)) a \<Longrightarrow> m' a = m a) \<Longrightarrow> str_at m' p s"
  using bytes_at_outside [of m p "s @ [0]" m'] by (simp add: str_at_def)

subsection \<open>Writing\<close>

lemma mapped_store: "m p \<noteq> None \<Longrightarrow> mapped (m(p \<mapsto> v)) a n = mapped m a n"
  unfolding mapped_nth by (metis fun_upd_apply option.discI)

lemma write_apply:
  assumes "in_space p (length bs)"
  shows "write_bytes m p bs a = (if within p (length bs) a then Some (bs ! (unat a - unat p)) else m a)"
  using assms
proof (induction bs arbitrary: m p)
  case (Cons b bs)
  then have p: "in_space p (Suc (length bs))"
    by simp
  have "write_bytes m p (b # bs) a = (if within (p + 1) (length bs) a then Some (bs ! (unat a - unat (p + 1))) else (m(p \<mapsto> b)) a)"
    by (simp add: Cons.IH [OF in_space_succ [OF p]])
  then show ?case
    using within_Suc [OF p, of a] not_within_succ [OF p] unat_succ [OF p] by (auto simp: within_def nth_Cons')
qed simp

lemma bytes_at_write: "in_space p (length bs) \<Longrightarrow> bytes_at (write_bytes m p bs) p bs"
  unfolding bytes_at_nth
proof (intro allI impI)
  fix i
  assume i: "in_space p (length bs)" "i < length bs"
  then show "write_bytes m p bs (p + of_nat i) = Some (bs ! i)"
    using write_apply [OF i(1)] within_offset [OF i] unat_offset [of p "length bs" i] by simp
qed

lemma write_append: "write_bytes m p (xs @ ys) = write_bytes (write_bytes m p xs) (p + of_nat (length xs)) ys"
  by (induction xs arbitrary: m p) (simp_all add: ac_simps)

lemma write_outside: "in_space p (length bs) \<Longrightarrow> \<not> within p (length bs) a \<Longrightarrow> write_bytes m p bs a = m a"
  by (simp add: write_apply)

lemma within_mapped:
  assumes "mapped m p n" "within p n a"
  shows "m a \<noteq> None"
proof -
  have "a = p + of_nat (unat a - unat p)" "unat a - unat p < n"
    using assms(2) by (auto simp: within_def of_nat_diff)
  then show ?thesis
    using assms(1) unfolding mapped_nth by metis
qed

lemma mapped_write: "in_space p (length bs) \<Longrightarrow> mapped m p (length bs) \<Longrightarrow> mapped (write_bytes m p bs) a n = mapped m a n"
  unfolding mapped_nth [of _ a] using within_mapped [of m p "length bs"] by (auto simp: write_apply)

text \<open>Storing a block byte by byte, which traps at the first address that is not mapped.\<close>

primrec store_bytes :: "memory \<Rightarrow> ptr \<Rightarrow> bytes \<Rightarrow> memory option" where
  "store_bytes m p [] = Some m"
| "store_bytes m p (b # bs) = do { m \<leftarrow> store m p b; store_bytes m (p + 1) bs }"

lemma store_bytes_ok: "mapped m p (length bs) \<Longrightarrow> store_bytes m p bs = Some (write_bytes m p bs)"
proof (induction bs arbitrary: m p)
  case (Cons b bs)
  then show ?case
    using mapped_store [of m p b "p + 1" "length bs"] by (simp add: store_def)
qed simp

end
