(* ===== verification/Vaddr.thy ===== *)
theory Vaddr
  imports Memory
begin

text \<open>
  Virtual addresses (\<^verbatim>\<open>threads/vaddr.h\<close>) and the entries of page tables
  (\<^verbatim>\<open>threads/pte.h\<close>), with the bit-level facts about them that the page tables and the
  allocators use.
\<close>

subsection \<open>Operations\<close>

definition PGBITS :: nat where "PGBITS = 12"
definition PGSIZE :: uint32_t where "PGSIZE = 4096"
definition PGMASK :: uint32_t where "PGMASK = 0xfff"
definition PHYS_BASE :: ptr where "PHYS_BASE = 0xc0000000"

definition pg_ofs :: "ptr \<Rightarrow> uint32_t" where "pg_ofs va = va AND PGMASK"
definition pg_no :: "ptr \<Rightarrow> uint32_t" where "pg_no va = drop_bit PGBITS va"
definition pg_round_up :: "ptr \<Rightarrow> ptr" where "pg_round_up va = (va + PGSIZE - 1) AND NOT PGMASK"
definition pg_round_down :: "ptr \<Rightarrow> ptr" where "pg_round_down va = va AND NOT PGMASK"

definition is_user_vaddr :: "ptr \<Rightarrow> bool" where "is_user_vaddr vaddr \<longleftrightarrow> vaddr < PHYS_BASE"
definition is_kernel_vaddr :: "ptr \<Rightarrow> bool" where "is_kernel_vaddr vaddr \<longleftrightarrow> vaddr \<ge> PHYS_BASE"

definition ptov :: "uint32_t \<Rightarrow> ptr option" where
  "ptov paddr = do { ASSERT (paddr < PHYS_BASE); Some (paddr + PHYS_BASE) }"

definition vtop :: "ptr \<Rightarrow> uint32_t option" where
  "vtop vaddr = do { ASSERT (is_kernel_vaddr vaddr); Some (vaddr - PHYS_BASE) }"

definition PTSHIFT :: nat where "PTSHIFT = PGBITS"
definition PTMASK :: uint32_t where "PTMASK = 0x3ff000"
definition PDSHIFT :: nat where "PDSHIFT = 22"

definition pt_no :: "ptr \<Rightarrow> uint32_t" where "pt_no va = drop_bit PTSHIFT (va AND PTMASK)"
definition pd_no :: "ptr \<Rightarrow> uint32_t" where "pd_no va = drop_bit PDSHIFT va"

definition PTE_ADDR :: uint32_t where "PTE_ADDR = 0xfffff000"
definition PTE_P :: uint32_t where "PTE_P = 1"
definition PTE_W :: uint32_t where "PTE_W = 2"
definition PTE_U :: uint32_t where "PTE_U = 4"
definition PTE_A :: uint32_t where "PTE_A = 0x20"
definition PTE_D :: uint32_t where "PTE_D = 0x40"

definition pde_create :: "ptr \<Rightarrow> uint32_t option" where
  "pde_create pt = do {
     ASSERT (pg_ofs pt = 0);
     p \<leftarrow> vtop pt;
     Some (p OR PTE_U OR PTE_P OR PTE_W) }"

definition pde_get_pt :: "uint32_t \<Rightarrow> ptr option" where
  "pde_get_pt pde = do { ASSERT (pde AND PTE_P \<noteq> 0); ptov (pde AND PTE_ADDR) }"

definition pte_create_kernel :: "ptr \<Rightarrow> bool \<Rightarrow> uint32_t option" where
  "pte_create_kernel page writable = do {
     ASSERT (pg_ofs page = 0);
     p \<leftarrow> vtop page;
     Some (p OR PTE_P OR (if writable then PTE_W else 0)) }"

definition pte_create_user :: "ptr \<Rightarrow> bool \<Rightarrow> uint32_t option" where
  "pte_create_user page writable = do { e \<leftarrow> pte_create_kernel page writable; Some (e OR PTE_U) }"

definition pte_get_page :: "uint32_t \<Rightarrow> ptr option" where
  "pte_get_page pte = ptov (pte AND PTE_ADDR)"

subsection \<open>Bits\<close>

lemma masks: "PGMASK = mask 12" "PTE_ADDR = NOT (mask 12)" "PTMASK = mask 22 AND NOT (mask 12)"
  by (simp_all add: PGMASK_def PTE_ADDR_def PTMASK_def mask_numeral)

lemma flag_bits: "PTE_P = 2 ^ 0" "PTE_W = 2 ^ 1" "PTE_U = 2 ^ 2" "PTE_A = 2 ^ 5" "PTE_D = 2 ^ 6"
  by (simp_all add: PTE_P_def PTE_W_def PTE_U_def PTE_A_def PTE_D_def)

lemma flag_set: "x AND PTE_P = 0 \<longleftrightarrow> \<not> bit x 0" "x AND PTE_W = 0 \<longleftrightarrow> \<not> bit x 1" "x AND PTE_U = 0 \<longleftrightarrow> \<not> bit x 2"
  "x AND PTE_A = 0 \<longleftrightarrow> \<not> bit x 5" "x AND PTE_D = 0 \<longleftrightarrow> \<not> bit x 6"
  unfolding flag_bits by (rule and_exp_eq_0_iff_not_bit)+

lemma aligned_bits: "pg_ofs p = 0 \<longleftrightarrow> (\<forall>n < 12. \<not> bit p n)"
proof -
  have "bit (pg_ofs p) n \<longleftrightarrow> n < 12 \<and> bit p n" for n
    by (auto simp: pg_ofs_def masks bit_simps dest: bit_imp_le_length)
  then show ?thesis
    by (metis bit_0_eq bit_eq_iff bot_apply bot_bool_def)
qed

lemma unat_pg_ofs: "unat (pg_ofs p) = unat p mod 4096"
  by (simp add: pg_ofs_def masks unsigned_take_bit_eq flip: take_bit_eq_mask) (simp add: take_bit_eq_mod)

lemma aligned_iff: "pg_ofs p = 0 \<longleftrightarrow> 4096 dvd unat p"
  by (metis dvd_eq_mod_eq_0 unat_eq_zero unat_pg_ofs)

lemma unat_base: "unat PHYS_BASE = 3221225472"
  by (simp add: PHYS_BASE_def)

lemma vtop_Some: "vtop p = Some q \<longleftrightarrow> is_kernel_vaddr p \<and> q = p - PHYS_BASE"
  by (auto simp: vtop_def)

lemma ptov_Some: "ptov q = Some p \<longleftrightarrow> q < PHYS_BASE \<and> p = q + PHYS_BASE"
  by (auto simp: ptov_def)

lemma unat_vtop: "is_kernel_vaddr p \<Longrightarrow> unat (p - PHYS_BASE) = unat p - 3221225472"
  by (simp add: is_kernel_vaddr_def word_le_nat_alt unat_sub_if' unat_base)

lemma vtop_small: "is_kernel_vaddr p \<Longrightarrow> p - PHYS_BASE < PHYS_BASE"
  using unat_32_less [of p] by (simp add: word_less_nat_alt unat_vtop unat_base)

lemma aligned_vtop: "is_kernel_vaddr p \<Longrightarrow> pg_ofs p = 0 \<Longrightarrow> pg_ofs (p - PHYS_BASE) = 0"
  unfolding aligned_iff by (simp add: unat_vtop dvd_diff_nat)

text \<open>The address and the flags of an entry do not mix.\<close>

definition flag_word :: "uint32_t \<Rightarrow> bool" where
  "flag_word f \<longleftrightarrow> (\<forall>n \<ge> 12. \<not> bit f n)"

lemma flag_word_or: "flag_word a \<Longrightarrow> flag_word b \<Longrightarrow> flag_word (a OR b)"
  by (simp add: flag_word_def bit_simps)

lemma flag_word_const: "flag_word PTE_P" "flag_word PTE_W" "flag_word PTE_U" "flag_word 0"
  unfolding flag_word_def flag_bits bit_exp_iff by auto

lemma addr_or: "pg_ofs q = 0 \<Longrightarrow> flag_word f \<Longrightarrow> (q OR f) AND PTE_ADDR = q"
  by (rule bit_word_eqI) (auto simp: aligned_bits flag_word_def masks bit_simps not_less)

lemma pte_create_user_ok:
  assumes "pg_ofs page = 0" "is_kernel_vaddr page"
  obtains e where "pte_create_user page w = Some e" "pte_get_page e = Some page" "bit e 0" "bit e 1 = w" "e \<noteq> 0"
proof -
  let ?q = "page - PHYS_BASE" and ?f = "PTE_P OR (if w then PTE_W else 0) OR PTE_U"
  have q: "pg_ofs ?q = 0"
    using assms by (simp add: aligned_vtop)
  have "pte_create_user page w = Some (?q OR ?f)"
    using assms by (simp add: pte_create_user_def pte_create_kernel_def vtop_def or.assoc)
  moreover have "(?q OR ?f) AND PTE_ADDR = ?q"
    using q flag_word_const by (intro addr_or flag_word_or) auto
  then have "pte_get_page (?q OR ?f) = Some page"
    using vtop_small [OF assms(2)] by (simp add: pte_get_page_def ptov_def)
  moreover have "\<not> bit ?q 0" "\<not> bit ?q 1"
    using q by (simp_all add: aligned_bits)
  moreover have "bit (?q OR ?f) 0"
    unfolding flag_bits by (simp add: bit_simps)
  moreover have "bit (?q OR ?f) 1 = w"
    using \<open>\<not> bit ?q 1\<close> unfolding flag_bits by (auto simp: bit_simps)
  moreover have "?q OR ?f \<noteq> 0"
    using \<open>bit (?q OR ?f) 0\<close> by (metis bit_0_eq bot_apply bot_bool_def)
  ultimately show thesis
    using that by blast
qed

lemma pde_create_ok:
  assumes "pg_ofs pt = 0" "is_kernel_vaddr pt"
  obtains e where "pde_create pt = Some e" "pde_get_pt e = Some pt" "e \<noteq> 0"
proof -
  let ?q = "pt - PHYS_BASE" and ?f = "PTE_U OR PTE_P OR PTE_W"
  have "pde_create pt = Some (?q OR ?f)"
    using assms by (simp add: pde_create_def vtop_def or.assoc)
  moreover have "(?q OR ?f) AND PTE_ADDR = ?q"
    using assms flag_word_const by (intro addr_or flag_word_or) (auto simp: aligned_vtop)
  moreover have "bit (?q OR ?f) 0"
    unfolding flag_bits by (simp add: bit_simps)
  moreover have "?q OR ?f \<noteq> 0"
    using \<open>bit (?q OR ?f) 0\<close> by (metis bit_0_eq bot_apply bot_bool_def)
  ultimately show thesis
    using that vtop_small [OF assms(2)] by (auto simp: pde_get_pt_def ptov_def flag_set)
qed

subsection \<open>Parts of an address\<close>

lemma no_less: "unat (pt_no va) < 1024" "unat (pd_no va) < 1024"
proof -
  have "pt_no va = take_bit 10 (drop_bit 12 va)" "pd_no va = take_bit 10 (drop_bit 22 va)"
    by (rule bit_word_eqI; auto simp: pt_no_def pd_no_def PTSHIFT_def PGBITS_def PDSHIFT_def masks bit_simps dest: bit_imp_le_length)+
  then show "unat (pt_no va) < 1024" "unat (pd_no va) < 1024"
    using take_bit_nat_less_exp [of 10] by (simp_all add: unsigned_take_bit_eq)
qed

lemma pd_no_user: "is_user_vaddr va \<longleftrightarrow> unat (pd_no va) < 768"
proof -
  have "unat (pd_no va) = unat va div 4194304"
    by (simp add: pd_no_def PDSHIFT_def drop_bit_eq_div unat_div)
  then show ?thesis
    using unat_32_less [of va] by (auto simp: is_user_vaddr_def word_less_nat_alt unat_base)
qed

text \<open>A page is determined by its two indexes.\<close>

lemma page_eq:
  assumes "pg_ofs a = 0" "pg_ofs b = 0" "pd_no a = pd_no b" "pt_no a = pt_no b"
  shows "a = b"
proof (rule bit_word_eqI)
  fix n
  assume n: "n < LENGTH(32)"
  consider "n < 12" | "12 \<le> n" "n < 22" | "22 \<le> n"
    by linarith
  then show "bit a n = bit b n"
  proof cases
    case 1
    then show ?thesis
      using assms(1,2) by (simp add: aligned_bits)
  next
    case 2
    have "bit (pt_no a) (n - 12) = bit (pt_no b) (n - 12)"
      using assms(4) by simp
    then show ?thesis
      using 2 n by (simp add: pt_no_def PTSHIFT_def PGBITS_def masks bit_simps)
  next
    case 3
    have "bit (pd_no a) (n - 22) = bit (pd_no b) (n - 22)"
      using assms(3) by simp
    then show ?thesis
      using 3 n by (simp add: pd_no_def PDSHIFT_def bit_simps)
  qed
qed

lemma round_down: "pg_ofs (pg_round_down va) = 0" "pd_no (pg_round_down va) = pd_no va" "pt_no (pg_round_down va) = pt_no va"
  "pg_round_down va + pg_ofs va = va"
proof -
  show "pg_ofs (pg_round_down va) = 0"
    by (auto simp: aligned_bits pg_round_down_def masks bit_simps)
  show "pd_no (pg_round_down va) = pd_no va" "pt_no (pg_round_down va) = pt_no va"
    by (rule bit_word_eqI; auto simp: pd_no_def pt_no_def pg_round_down_def PTSHIFT_def PGBITS_def PDSHIFT_def masks bit_simps dest: bit_imp_le_length)+
  have "pg_round_down va + pg_ofs va = pg_round_down va OR pg_ofs va"
    by (rule disjunctive_add) (auto simp: pg_round_down_def pg_ofs_def bit_simps)
  also have "\<dots> = va"
    by (rule bit_word_eqI) (auto simp: pg_round_down_def pg_ofs_def bit_simps)
  finally show "pg_round_down va + pg_ofs va = va" .
qed

end
