(* ===== verification/Thread.thy ===== *)
theory Thread
  imports Bytes Vaddr
begin

text \<open>
  Threads (\<^verbatim>\<open>threads/thread.c\<close>) and synchronization (\<^verbatim>\<open>threads/synch.c\<close>). A
  \<^verbatim>\<open>struct thread *\<close> is the address of the page that holds the structure; a page whose
  \<^verbatim>\<open>magic\<close> member is right is one that \<open>threads\<close> maps. A \<^verbatim>\<open>struct list\<close> of threads is the
  sequence of its elements (theory \<open>DList\<close>).

  A call of \<^verbatim>\<open>schedule\<close> leaves the running thread in the middle of the functions that called
  it and goes on in the middle of another thread. What is left to do of the calls of a
  thread, its kernel stack, is a list of frames: a function that goes on after a call that
  may switch threads pushes the rest of its work as a frame, and \<open>resume\<close> runs the top frame
  of the running thread. Interrupts may come between two frames whenever they are enabled;
  the statements of one frame touch shared data once, so that a frame is a step. An external
  interrupt is handled in one step, so \<^verbatim>\<open>intr_context\<close> is false wherever a thread runs, and
  the assertions about it hold. The counters of ticks, 64 bits wide, are integers.

  The members of \<^verbatim>\<open>struct thread\<close> that belong to processes, and \<^verbatim>\<open>process_exit\<close>, which
  \<^verbatim>\<open>thread_exit\<close> calls first, are not part of this model.
\<close>

subsection \<open>State\<close>

datatype thread_status = THREAD_RUNNING | THREAD_READY | THREAD_BLOCKED | THREAD_DYING

type_synonym thread_ptr = uint32_t
type_synonym tid_t = int

definition PRI_MIN :: int where "PRI_MIN = 0"
definition PRI_DEFAULT :: int where "PRI_DEFAULT = 31"
definition PRI_MAX :: int where "PRI_MAX = 63"
definition TIME_SLICE :: uint32_t where "TIME_SLICE = 4"

record thread =
  tid :: tid_t
  status :: thread_status
  t_name :: bytes
  stack :: uint32_t
  priority :: int
  pagedir :: "uint32_t option"

text \<open>A semaphore stands alone, is the member of a lock, or is the one that \<^verbatim>\<open>cond_wait\<close> keeps
  on the stack of the waiting thread.\<close>

datatype sema_ref = Sema nat | Lock_Sema nat | Waiter thread_ptr

record semaphore =
  s_value :: uint32_t
  waiters :: "thread_ptr list"

datatype frame =
    Sema_Down_Loop sema_ref bool
  | Set_Holder nat
  | Call_Sema_Up sema_ref
  | Call_Sema_Down sema_ref
  | Call_Lock_Acquire nat
  | Call_Lock_Release nat
  | Call_Cond_Broadcast nat nat
  | Set_Level bool
  | Intr_Return
  | Kernel_Thread
  | Idle_Start sema_ref
  | Idle_Loop
  | Idle_Halt
  | Create_Tid thread_ptr
  | Create_Unblock thread_ptr

record kernel =
  threads :: "thread_ptr \<Rightarrow> thread option"
  frames :: "thread_ptr \<Rightarrow> frame list"
  ready_list :: "thread_ptr list"
  all_list :: "thread_ptr list"
  idle_thread :: "thread_ptr option"
  initial_thread :: thread_ptr
  running :: thread_ptr
  intr_on :: bool
  thread_ticks :: uint32_t
  ticks :: int
  idle_ticks :: int
  kernel_ticks :: int
  user_ticks :: int
  next_tid :: tid_t
  active_pagedir :: "uint32_t option"
  esp0 :: uint32_t
  semas :: "sema_ref \<Rightarrow> semaphore"
  holder :: "nat \<Rightarrow> thread_ptr option"
  cond_waiters :: "nat \<Rightarrow> thread_ptr list"

definition upd_thread :: "thread_ptr \<Rightarrow> (thread \<Rightarrow> thread) \<Rightarrow> kernel \<Rightarrow> kernel" where
  "upd_thread t f k = k\<lparr>threads := (threads k)(t := map_option f (threads k t))\<rparr>"

definition upd_sema :: "sema_ref \<Rightarrow> (semaphore \<Rightarrow> semaphore) \<Rightarrow> kernel \<Rightarrow> kernel" where
  "upd_sema s f k = k\<lparr>semas := (semas k)(s := f (semas k s))\<rparr>"

definition push_frames :: "frame list \<Rightarrow> kernel \<Rightarrow> kernel" where
  "push_frames fs k = k\<lparr>frames := (frames k)(running k := fs @ frames k (running k))\<rparr>"

definition set_status :: "thread_ptr \<Rightarrow> thread_status \<Rightarrow> kernel \<Rightarrow> kernel" where
  "set_status t st = upd_thread t (\<lambda>th. th\<lparr>status := st\<rparr>)"

subsection \<open>The scheduler\<close>

definition is_thread :: "kernel \<Rightarrow> thread_ptr \<Rightarrow> bool" where
  "is_thread k t \<longleftrightarrow> threads k t \<noteq> None"

definition thread_current :: "kernel \<Rightarrow> thread_ptr option" where
  "thread_current k = do {
     t \<leftarrow> threads k (running k);
     ASSERT (status t = THREAD_RUNNING);
     Some (running k) }"

definition thread_tid :: "kernel \<Rightarrow> tid_t option" where
  "thread_tid k = do { t \<leftarrow> thread_current k; map_option tid (threads k t) }"

definition thread_name :: "kernel \<Rightarrow> bytes option" where
  "thread_name k = do { t \<leftarrow> thread_current k; map_option t_name (threads k t) }"

definition process_activate :: "kernel \<Rightarrow> kernel option" where
  "process_activate k = do {
     t \<leftarrow> thread_current k;
     th \<leftarrow> threads k t;
     Some (k\<lparr>active_pagedir := pagedir th, esp0 := t + PGSIZE\<rparr>) }"

definition next_thread_to_run :: "kernel \<Rightarrow> thread_ptr option \<times> kernel" where
  "next_thread_to_run k = (case ready_list k of
     [] \<Rightarrow> (idle_thread k, k)
   | t # ts \<Rightarrow> (Some t, k\<lparr>ready_list := ts\<rparr>))"

definition thread_schedule_tail :: "thread_ptr option \<Rightarrow> kernel \<Rightarrow> kernel option" where
  "thread_schedule_tail prev k = do {
     let cur = running k;
     ASSERT (\<not> intr_on k);
     let k = (set_status cur THREAD_RUNNING k)\<lparr>thread_ticks := 0\<rparr>;
     k \<leftarrow> process_activate k;
     case prev of
       None \<Rightarrow> Some k
     | Some p \<Rightarrow> do {
         pt \<leftarrow> threads k p;
         if status pt = THREAD_DYING \<and> p \<noteq> initial_thread k then do {
           ASSERT (p \<noteq> cur);
           Some (k\<lparr>threads := (threads k)(p := None)\<rparr>) }
         else Some k } }"

definition schedule :: "kernel \<Rightarrow> kernel option" where
  "schedule k = do {
     let cur = running k;
     let (nxt, k) = next_thread_to_run k;
     ASSERT (\<not> intr_on k);
     c \<leftarrow> threads k cur;
     ASSERT (status c \<noteq> THREAD_RUNNING);
     n \<leftarrow> nxt;
     ASSERT (is_thread k n);
     thread_schedule_tail (if cur \<noteq> n then Some cur else None) (k\<lparr>running := n\<rparr>) }"

definition thread_block :: "kernel \<Rightarrow> kernel option" where
  "thread_block k = do {
     ASSERT (\<not> intr_on k);
     t \<leftarrow> thread_current k;
     schedule (set_status t THREAD_BLOCKED k) }"

definition thread_unblock :: "thread_ptr \<Rightarrow> kernel \<Rightarrow> kernel option" where
  "thread_unblock t k = do {
     th \<leftarrow> threads k t;
     ASSERT (status th = THREAD_BLOCKED);
     Some (set_status t THREAD_READY (k\<lparr>ready_list := ready_list k @ [t]\<rparr>)) }"

definition thread_yield :: "kernel \<Rightarrow> kernel option" where
  "thread_yield k = do {
     cur \<leftarrow> thread_current k;
     let old_level = intr_on k;
     let k = (push_frames [Set_Level old_level] k)\<lparr>intr_on := False\<rparr>;
     let k = (if idle_thread k \<noteq> Some cur then k\<lparr>ready_list := ready_list k @ [cur]\<rparr> else k);
     schedule (set_status cur THREAD_READY k) }"

text \<open>\<^verbatim>\<open>thread_exit\<close> behind the call of \<^verbatim>\<open>process_exit\<close>.\<close>

definition thread_exit_kernel :: "kernel \<Rightarrow> kernel option" where
  "thread_exit_kernel k = do {
     cur \<leftarrow> thread_current k;
     let k = k\<lparr>intr_on := False, all_list := remove1 cur (all_list k)\<rparr>;
     schedule (set_status cur THREAD_DYING k) }"

definition thread_foreach :: "(thread_ptr \<Rightarrow> 's \<Rightarrow> 's) \<Rightarrow> kernel \<Rightarrow> 's \<Rightarrow> 's option" where
  "thread_foreach func k aux = do { ASSERT (\<not> intr_on k); Some (fold func (all_list k) aux) }"

definition thread_set_priority :: "int \<Rightarrow> kernel \<Rightarrow> kernel option" where
  "thread_set_priority new_priority k = do {
     t \<leftarrow> thread_current k;
     Some (upd_thread t (\<lambda>th. th\<lparr>priority := new_priority\<rparr>) k) }"

definition thread_get_priority :: "kernel \<Rightarrow> int option" where
  "thread_get_priority k = do { t \<leftarrow> thread_current k; map_option priority (threads k t) }"

text \<open>The scheduler with feedback queues is not implemented.\<close>

definition thread_set_nice :: "int \<Rightarrow> kernel \<Rightarrow> kernel" where "thread_set_nice nice k = k"
definition thread_get_nice :: "kernel \<Rightarrow> int" where "thread_get_nice k = 0"
definition thread_get_load_avg :: "kernel \<Rightarrow> int" where "thread_get_load_avg k = 0"
definition thread_get_recent_cpu :: "kernel \<Rightarrow> int" where "thread_get_recent_cpu k = 0"

text \<open>The flag says whether the handler asked to yield on its return.\<close>

definition thread_tick :: "kernel \<Rightarrow> (bool \<times> kernel) option" where
  "thread_tick k = do {
     t \<leftarrow> thread_current k;
     th \<leftarrow> threads k t;
     let k = (if idle_thread k = Some t then k\<lparr>idle_ticks := idle_ticks k + 1\<rparr>
              else if pagedir th \<noteq> None then k\<lparr>user_ticks := user_ticks k + 1\<rparr>
              else k\<lparr>kernel_ticks := kernel_ticks k + 1\<rparr>);
     let k = k\<lparr>thread_ticks := thread_ticks k + 1\<rparr>;
     Some (thread_ticks k \<ge> TIME_SLICE, k) }"

definition timer_interrupt :: "kernel \<Rightarrow> (bool \<times> kernel) option" where
  "timer_interrupt k = thread_tick (k\<lparr>ticks := ticks k + 1\<rparr>)"

text \<open>The interrupt handler for a timer tick: the processor disables interrupts on entry and
  restores the flag on return.\<close>

definition intr_handler :: "kernel \<Rightarrow> kernel option" where
  "intr_handler k = do {
     let k = (push_frames [Intr_Return] k)\<lparr>intr_on := False\<rparr>;
     (yield_on_return, k) \<leftarrow> timer_interrupt k;
     if yield_on_return then thread_yield k else Some k }"

subsection \<open>Semaphores, locks and condition variables\<close>

definition sema_init :: "sema_ref \<Rightarrow> uint32_t \<Rightarrow> kernel \<Rightarrow> kernel" where
  "sema_init s v = upd_sema s (\<lambda>_. \<lparr>s_value = v, waiters = []\<rparr>)"

definition sema_down_loop :: "sema_ref \<Rightarrow> bool \<Rightarrow> kernel \<Rightarrow> kernel option" where
  "sema_down_loop s old_level k =
     (if s_value (semas k s) = 0 then do {
        t \<leftarrow> thread_current k;
        let k = upd_sema s (\<lambda>x. x\<lparr>waiters := waiters x @ [t]\<rparr>) k;
        thread_block (push_frames [Sema_Down_Loop s old_level] k) }
      else Some ((upd_sema s (\<lambda>x. x\<lparr>s_value := s_value x - 1\<rparr>) k)\<lparr>intr_on := old_level\<rparr>))"

definition sema_down :: "sema_ref \<Rightarrow> kernel \<Rightarrow> kernel option" where
  "sema_down s k = sema_down_loop s (intr_on k) (k\<lparr>intr_on := False\<rparr>)"

definition sema_try_down :: "sema_ref \<Rightarrow> kernel \<Rightarrow> bool \<times> kernel" where
  "sema_try_down s k =
     (if s_value (semas k s) > 0 then (True, upd_sema s (\<lambda>x. x\<lparr>s_value := s_value x - 1\<rparr>) k)
      else (False, k))"

definition sema_up :: "sema_ref \<Rightarrow> kernel \<Rightarrow> kernel option" where
  "sema_up s k = do {
     k \<leftarrow> (case waiters (semas k s) of
         [] \<Rightarrow> Some k
       | t # ts \<Rightarrow> thread_unblock t (upd_sema s (\<lambda>x. x\<lparr>waiters := ts\<rparr>) k));
     Some (upd_sema s (\<lambda>x. x\<lparr>s_value := s_value x + 1\<rparr>) k) }"

definition lock_init :: "nat \<Rightarrow> kernel \<Rightarrow> kernel" where
  "lock_init l k = sema_init (Lock_Sema l) 1 (k\<lparr>holder := (holder k)(l := None)\<rparr>)"

definition lock_held_by_current_thread :: "nat \<Rightarrow> kernel \<Rightarrow> bool option" where
  "lock_held_by_current_thread l k = do { t \<leftarrow> thread_current k; Some (holder k l = Some t) }"

definition lock_acquire :: "nat \<Rightarrow> kernel \<Rightarrow> kernel option" where
  "lock_acquire l k = do {
     held \<leftarrow> lock_held_by_current_thread l k;
     ASSERT (\<not> held);
     sema_down (Lock_Sema l) (push_frames [Set_Holder l] k) }"

definition lock_try_acquire :: "nat \<Rightarrow> kernel \<Rightarrow> (bool \<times> kernel) option" where
  "lock_try_acquire l k = do {
     held \<leftarrow> lock_held_by_current_thread l k;
     ASSERT (\<not> held);
     let (success, k) = sema_try_down (Lock_Sema l) k;
     Some (success, if success then push_frames [Set_Holder l] k else k) }"

definition lock_release :: "nat \<Rightarrow> kernel \<Rightarrow> kernel option" where
  "lock_release l k = do {
     held \<leftarrow> lock_held_by_current_thread l k;
     ASSERT held;
     Some (push_frames [Call_Sema_Up (Lock_Sema l)] (k\<lparr>holder := (holder k)(l := None)\<rparr>)) }"

definition cond_init :: "nat \<Rightarrow> kernel \<Rightarrow> kernel" where
  "cond_init c k = k\<lparr>cond_waiters := (cond_waiters k)(c := [])\<rparr>"

definition cond_wait :: "nat \<Rightarrow> nat \<Rightarrow> kernel \<Rightarrow> kernel option" where
  "cond_wait c l k = do {
     held \<leftarrow> lock_held_by_current_thread l k;
     ASSERT held;
     let w = running k;
     let k = sema_init (Waiter w) 0 k;
     let k = k\<lparr>cond_waiters := (cond_waiters k)(c := cond_waiters k c @ [w])\<rparr>;
     lock_release l (push_frames [Call_Sema_Down (Waiter w), Call_Lock_Acquire l] k) }"

definition cond_signal :: "nat \<Rightarrow> nat \<Rightarrow> kernel \<Rightarrow> kernel option" where
  "cond_signal c l k = do {
     held \<leftarrow> lock_held_by_current_thread l k;
     ASSERT held;
     case cond_waiters k c of
       [] \<Rightarrow> Some k
     | w # ws \<Rightarrow> sema_up (Waiter w) (k\<lparr>cond_waiters := (cond_waiters k)(c := ws)\<rparr>) }"

definition cond_broadcast :: "nat \<Rightarrow> nat \<Rightarrow> kernel \<Rightarrow> kernel option" where
  "cond_broadcast c l k =
     (if cond_waiters k c \<noteq> [] then cond_signal c l (push_frames [Call_Cond_Broadcast c l] k) else Some k)"

subsection \<open>Creating threads\<close>

abbreviation tid_lock :: nat where "tid_lock \<equiv> 0"
abbreviation file_sys_lock :: nat where "file_sys_lock \<equiv> 1"

definition init_thread :: "thread_ptr \<Rightarrow> bytes \<Rightarrow> int \<Rightarrow> kernel \<Rightarrow> kernel option" where
  "init_thread t name pri k = do {
     ASSERT (PRI_MIN \<le> pri \<and> pri \<le> PRI_MAX);
     let th = \<lparr>tid = 0, status = THREAD_BLOCKED, t_name = take 15 name, stack = t + PGSIZE,
       priority = pri, pagedir = None\<rparr>;
     Some (k\<lparr>threads := (threads k)(t \<mapsto> th), all_list := all_list k @ [t]\<rparr>) }"

definition alloc_frame :: "thread_ptr \<Rightarrow> uint32_t \<Rightarrow> kernel \<Rightarrow> kernel option" where
  "alloc_frame t sz k = do {
     ASSERT (is_thread k t);
     ASSERT (sz mod 4 = 0);
     Some (upd_thread t (\<lambda>th. th\<lparr>stack := stack th - sz\<rparr>) k) }"

text \<open>\<^verbatim>\<open>allocate_tid\<close> between its two lock operations, with the assignment to the thread.\<close>

definition allocate_tid :: "thread_ptr \<Rightarrow> kernel \<Rightarrow> kernel" where
  "allocate_tid t k = (upd_thread t (\<lambda>th. th\<lparr>tid := next_tid k\<rparr>) k)\<lparr>next_tid := next_tid k + 1\<rparr>"

text \<open>The end of \<^verbatim>\<open>thread_create\<close>: the stack frames of 12, 4 and 28 bytes, and the run queue.\<close>

definition create_unblock :: "thread_ptr \<Rightarrow> kernel \<Rightarrow> kernel option" where
  "create_unblock t k = do {
     k \<leftarrow> alloc_frame t 12 k;
     k \<leftarrow> alloc_frame t 4 k;
     k \<leftarrow> alloc_frame t 28 k;
     thread_unblock t k }"

text \<open>\<open>page\<close> is what \<^verbatim>\<open>palloc_get_page\<close> returns and \<open>body\<close> the frames of the function to run.
  The result \<open>False\<close> is \<^verbatim>\<open>TID_ERROR\<close>.\<close>

definition thread_create ::
  "thread_ptr option \<Rightarrow> bytes \<Rightarrow> int \<Rightarrow> frame list \<Rightarrow> kernel \<Rightarrow> (bool \<times> kernel) option" where
  "thread_create page name pri body k = (case page of
     None \<Rightarrow> Some (False, k)
   | Some t \<Rightarrow> do {
       k \<leftarrow> init_thread t name pri k;
       let k = k\<lparr>frames := (frames k)(t := Kernel_Thread # body)\<rparr>;
       k \<leftarrow> lock_acquire tid_lock (push_frames [Create_Tid t, Call_Lock_Release tid_lock, Create_Unblock t] k);
       Some (True, k) })"

definition resume_frame :: "frame \<Rightarrow> kernel \<Rightarrow> kernel option" where
  "resume_frame f k = (case f of
     Sema_Down_Loop s old_level \<Rightarrow> sema_down_loop s old_level k
   | Set_Holder l \<Rightarrow> do { t \<leftarrow> thread_current k; Some (k\<lparr>holder := (holder k)(l \<mapsto> t)\<rparr>) }
   | Call_Sema_Up s \<Rightarrow> sema_up s k
   | Call_Sema_Down s \<Rightarrow> sema_down s k
   | Call_Lock_Acquire l \<Rightarrow> lock_acquire l k
   | Call_Lock_Release l \<Rightarrow> lock_release l k
   | Call_Cond_Broadcast c l \<Rightarrow> cond_broadcast c l k
   | Set_Level level \<Rightarrow> Some (k\<lparr>intr_on := level\<rparr>)
   | Intr_Return \<Rightarrow> Some (k\<lparr>intr_on := True\<rparr>)
   | Kernel_Thread \<Rightarrow> Some (k\<lparr>intr_on := True\<rparr>)
   | Idle_Start s \<Rightarrow> do { t \<leftarrow> thread_current k; sema_up s (k\<lparr>idle_thread := Some t\<rparr>) }
   | Idle_Loop \<Rightarrow> thread_block (push_frames [Idle_Halt, Idle_Loop] (k\<lparr>intr_on := False\<rparr>))
   | Idle_Halt \<Rightarrow> Some (k\<lparr>intr_on := True\<rparr>)
   | Create_Tid t \<Rightarrow> Some (allocate_tid t k)
   | Create_Unblock t \<Rightarrow> create_unblock t k)"

definition resume :: "kernel \<Rightarrow> kernel option" where
  "resume k = (case frames k (running k) of
     [] \<Rightarrow> None
   | f # fs \<Rightarrow> resume_frame f (k\<lparr>frames := (frames k)(running k := fs)\<rparr>))"

text \<open>\<open>main_page\<close> is the page of the stack on which the kernel starts.\<close>

definition thread_init :: "thread_ptr \<Rightarrow> kernel option" where
  "thread_init main_page = do {
     let k = \<lparr>threads = \<lambda>_. None, frames = \<lambda>_. [], ready_list = [], all_list = [], idle_thread = None,
       initial_thread = main_page, running = main_page, intr_on = False, thread_ticks = 0, ticks = 0,
       idle_ticks = 0, kernel_ticks = 0, user_ticks = 0, next_tid = 1, active_pagedir = None, esp0 = 0,
       semas = \<lambda>s. \<lparr>s_value = (case s of Lock_Sema _ \<Rightarrow> 1 | _ \<Rightarrow> 0), waiters = []\<rparr>,
       holder = \<lambda>_. None, cond_waiters = \<lambda>_. []\<rparr>;
     let k = lock_init file_sys_lock (lock_init tid_lock k);
     k \<leftarrow> init_thread main_page [109, 97, 105, 110] PRI_DEFAULT k;
     let k = set_status main_page THREAD_RUNNING k;
     lock_acquire tid_lock (push_frames [Create_Tid main_page, Call_Lock_Release tid_lock] k) }"

abbreviation idle_started :: sema_ref where "idle_started \<equiv> Sema 0"

definition thread_start :: "thread_ptr \<Rightarrow> kernel \<Rightarrow> kernel option" where
  "thread_start idle_page k = do {
     let k = sema_init idle_started 0 k;
     let k = push_frames [Set_Level True, Call_Sema_Down idle_started] k;
     (_, k) \<leftarrow> thread_create (Some idle_page) [105, 100, 108, 101] PRI_MIN [Idle_Start idle_started, Idle_Loop] k;
     Some k }"

end
