(* ===== verification/Sched.thy ===== *)
theory Sched
  imports Thread
begin

text \<open>
  The kernel as a transition system: the running thread goes on with its top frame, calls one
  of the operations of \<^verbatim>\<open>threads/synch.c\<close> and \<^verbatim>\<open>threads/thread.c\<close> when it has none, or is
  interrupted by the timer. The lemmas give the invariants of all reachable states.
\<close>

subsection \<open>Transitions\<close>

datatype call =
    Init nat uint32_t
  | Down nat
  | Try_Down nat
  | Up nat
  | Acquire nat
  | Try_Acquire nat
  | Release nat
  | Wait nat nat
  | Signal nat nat
  | Broadcast nat nat
  | Yield
  | Exit
  | Create thread_ptr bytes int
  | Set_Priority int

text \<open>The two guards say what the callers see to: a semaphore is not initialized while threads
  wait for it, and the page for a new thread is free.\<close>

fun do_call :: "call \<Rightarrow> kernel \<Rightarrow> kernel option" where
  "do_call (Init n v) k = (if waiters (semas k (Sema n)) = [] then Some (sema_init (Sema n) v k) else None)"
| "do_call (Down n) k = sema_down (Sema n) k"
| "do_call (Try_Down n) k = Some (snd (sema_try_down (Sema n) k))"
| "do_call (Up n) k = sema_up (Sema n) k"
| "do_call (Acquire l) k = lock_acquire l k"
| "do_call (Try_Acquire l) k = map_option snd (lock_try_acquire l k)"
| "do_call (Release l) k = lock_release l k"
| "do_call (Wait c l) k = cond_wait c l k"
| "do_call (Signal c l) k = cond_signal c l k"
| "do_call (Broadcast c l) k = cond_broadcast c l k"
| "do_call Yield k = thread_yield k"
| "do_call Exit k = thread_exit_kernel k"
| "do_call (Create t name pri) k =
     (if threads k t = None then map_option snd (thread_create (Some t) name pri [] k) else None)"
| "do_call (Set_Priority p) k = thread_set_priority p k"

inductive step :: "kernel \<Rightarrow> kernel \<Rightarrow> bool" where
  resume: "resume k = Some k' \<Longrightarrow> step k k'"
| call: "frames k (running k) = [] \<Longrightarrow> do_call c k = Some k' \<Longrightarrow> step k k'"
| tick: "intr_on k \<Longrightarrow> intr_handler k = Some k' \<Longrightarrow> step k k'"

text \<open>The kernel starts in \<open>main\<close>, which becomes a thread and then creates the idle thread; the
  four and five frames are those of the calls inside.\<close>

definition boot :: "thread_ptr \<Rightarrow> thread_ptr \<Rightarrow> kernel option" where
  "boot main_page idle_page = do {
     k \<leftarrow> thread_init main_page;
     k \<leftarrow> resume k; k \<leftarrow> resume k; k \<leftarrow> resume k; k \<leftarrow> resume k;
     k \<leftarrow> thread_start idle_page k;
     k \<leftarrow> resume k; k \<leftarrow> resume k; k \<leftarrow> resume k; k \<leftarrow> resume k; resume k }"

inductive reachable :: "kernel \<Rightarrow> bool" where
  boot: "boot m i = Some k \<Longrightarrow> m \<noteq> i \<Longrightarrow> reachable k"
| step: "reachable k \<Longrightarrow> step k k' \<Longrightarrow> reachable k'"

subsection \<open>The invariant of the scheduler\<close>

definition st :: "kernel \<Rightarrow> thread_ptr \<Rightarrow> thread_status option" where
  "st k t = map_option status (threads k t)"

fun is_loop :: "frame \<Rightarrow> bool" where
  "is_loop (Sema_Down_Loop s b) = True"
| "is_loop f = False"

text \<open>The thread is in the loop of \<^verbatim>\<open>sema_down\<close> for the semaphore.\<close>

fun in_loop :: "sema_ref \<Rightarrow> frame list \<Rightarrow> bool" where
  "in_loop s (Sema_Down_Loop s' b # fs) = (s' = s)"
| "in_loop s fs = False"

fun creates :: "frame list \<Rightarrow> thread_ptr list" where
  "creates [] = []"
| "creates (Create_Unblock t # fs) = t # creates fs"
| "creates (f # fs) = creates fs"

text \<open>Only the thread itself waits for the semaphore on its stack.\<close>

fun own_frame :: "thread_ptr \<Rightarrow> frame \<Rightarrow> bool" where
  "own_frame t (Sema_Down_Loop (Waiter w) b) = (w = t)"
| "own_frame t (Call_Sema_Down (Waiter w)) = (w = t)"
| "own_frame t f = True"

fun idle_frame :: "frame \<Rightarrow> bool" where
  "idle_frame (Set_Level b) = True"
| "idle_frame Intr_Return = True"
| "idle_frame Kernel_Thread = True"
| "idle_frame (Idle_Start s) = True"
| "idle_frame Idle_Loop = True"
| "idle_frame Idle_Halt = True"
| "idle_frame f = False"

definition queues_ok :: "kernel \<Rightarrow> bool" where
  "queues_ok k \<longleftrightarrow> finite {t. st k t \<noteq> None}
    \<and> distinct (ready_list k)
    \<and> (\<forall>t. t \<in> set (ready_list k) \<longleftrightarrow> st k t = Some THREAD_READY \<and> idle_thread k \<noteq> Some t)
    \<and> (\<forall>s. distinct (waiters (semas k s)))
    \<and> (\<forall>s t. t \<in> set (waiters (semas k s)) \<longleftrightarrow> st k t = Some THREAD_BLOCKED \<and> in_loop s (frames k t))
    \<and> distinct (all_list k)
    \<and> (\<forall>t. t \<in> set (all_list k) \<longleftrightarrow> st k t \<noteq> None \<and> st k t \<noteq> Some THREAD_DYING)"

definition frames_ok :: "kernel \<Rightarrow> bool" where
  "frames_ok k \<longleftrightarrow> (\<forall>t. st k t = None \<or> st k t = Some THREAD_DYING \<longrightarrow> frames k t = [])
    \<and> (\<forall>t. \<forall>f \<in> set (tl (frames k t)). \<not> is_loop f)
    \<and> (\<forall>t. \<forall>f \<in> set (frames k t). own_frame t f)"

text \<open>A thread under creation is blocked and has not run; one thread creates it.\<close>

definition creates_ok :: "kernel \<Rightarrow> bool" where
  "creates_ok k \<longleftrightarrow> (\<forall>u t. t \<in> set (creates (frames k u)) \<longrightarrow> st k t = Some THREAD_BLOCKED \<and> idle_thread k \<noteq> Some t
        \<and> hd (frames k t) = Kernel_Thread)
    \<and> (\<forall>u. distinct (creates (frames k u)))
    \<and> (\<forall>u v t. t \<in> set (creates (frames k u)) \<longrightarrow> t \<in> set (creates (frames k v)) \<longrightarrow> u = v)"

definition blocked_ok :: "kernel \<Rightarrow> bool" where
  "blocked_ok k \<longleftrightarrow> (\<forall>t. st k t = Some THREAD_BLOCKED \<longrightarrow> idle_thread k = Some t
    \<or> (\<exists>s. in_loop s (frames k t)) \<or> (\<exists>u. t \<in> set (creates (frames k u))))"

text \<open>A frame that neither belongs to the life of the idle thread nor creates a thread.\<close>

fun plain :: "frame \<Rightarrow> bool" where
  "plain (Idle_Start s) = False"
| "plain Idle_Loop = False"
| "plain (Create_Unblock t) = False"
| "plain f = True"

text \<open>There is one idle thread; before it has started it is ready or running.\<close>

definition idle_ok :: "kernel \<Rightarrow> bool" where
  "idle_ok k \<longleftrightarrow> (\<exists>i. st k i \<noteq> None \<and> Idle_Loop \<in> set (frames k i) \<and> (\<forall>f \<in> set (frames k i). idle_frame f)
    \<and> (\<forall>t. t \<noteq> i \<longrightarrow> (\<forall>s. Idle_Start s \<notin> set (frames k t)) \<and> Idle_Loop \<notin> set (frames k t))
    \<and> (idle_thread k = Some i \<and> (\<forall>s. Idle_Start s \<notin> set (frames k i))
       \<or> idle_thread k = None \<and> (st k i = Some THREAD_READY \<or> st k i = Some THREAD_RUNNING)
         \<and> (\<exists>pre s. frames k i = pre @ [Idle_Start s, Idle_Loop] \<and> (\<forall>f \<in> set pre. plain f))))"

definition base_ok :: "kernel \<Rightarrow> bool" where
  "base_ok k \<longleftrightarrow> queues_ok k \<and> frames_ok k \<and> creates_ok k \<and> blocked_ok k \<and> idle_ok k"

definition sched_ok :: "kernel \<Rightarrow> bool" where
  "sched_ok k \<longleftrightarrow> base_ok k \<and> (\<forall>t. st k t = Some THREAD_RUNNING \<longleftrightarrow> t = running k)
    \<and> (intr_on k \<longrightarrow> (\<forall>s. \<not> in_loop s (frames k (running k))))"

text \<open>The state in which \<^verbatim>\<open>schedule\<close> is called: no thread runs.\<close>

definition off_ok :: "kernel \<Rightarrow> bool" where
  "off_ok k \<longleftrightarrow> base_ok k \<and> (\<forall>t. st k t \<noteq> Some THREAD_RUNNING) \<and> st k (running k) \<noteq> None \<and> \<not> intr_on k"

subsection \<open>Switching threads\<close>

lemma threads_st: "threads k t = None \<longleftrightarrow> st k t = None"
  by (simp add: st_def)

lemma st_Some: "st k t = Some x \<longleftrightarrow> (\<exists>th. threads k t = Some th \<and> status th = x)"
  by (auto simp: st_def)

text \<open>Everything that a switch of threads leaves alone.\<close>

definition same_sync :: "kernel \<Rightarrow> kernel \<Rightarrow> bool" where
  "same_sync k k' \<longleftrightarrow> frames k' = frames k \<and> semas k' = semas k \<and> holder k' = holder k
    \<and> idle_thread k' = idle_thread k \<and> all_list k' = all_list k \<and> cond_waiters k' = cond_waiters k"

definition next_runner :: "kernel \<Rightarrow> thread_ptr option" where
  "next_runner k = fst (next_thread_to_run k)"

lemma base_ready: "base_ok k \<Longrightarrow> t \<in> set (ready_list k) \<longleftrightarrow> st k t = Some THREAD_READY \<and> idle_thread k \<noteq> Some t"
  by (simp add: base_ok_def queues_ok_def)

lemma base_waiting: "base_ok k \<Longrightarrow> t \<in> set (waiters (semas k s)) \<longleftrightarrow> st k t = Some THREAD_BLOCKED \<and> in_loop s (frames k t)"
  by (simp add: base_ok_def queues_ok_def)

lemma base_no_frames: "base_ok k \<Longrightarrow> st k t = None \<or> st k t = Some THREAD_DYING \<Longrightarrow> frames k t = []"
  by (auto simp: base_ok_def frames_ok_def)

lemma base_idle:
  assumes "base_ok k"
  obtains i where "st k i \<noteq> None" "Idle_Loop \<in> set (frames k i)" "\<forall>f \<in> set (frames k i). idle_frame f"
    "idle_thread k = Some i \<or> idle_thread k = None \<and> (st k i = Some THREAD_READY \<or> st k i = Some THREAD_RUNNING)"
proof -
  obtain i where "st k i \<noteq> None \<and> Idle_Loop \<in> set (frames k i) \<and> (\<forall>f \<in> set (frames k i). idle_frame f)
    \<and> (\<forall>t. t \<noteq> i \<longrightarrow> (\<forall>s. Idle_Start s \<notin> set (frames k t)) \<and> Idle_Loop \<notin> set (frames k t))
    \<and> (idle_thread k = Some i \<and> (\<forall>s. Idle_Start s \<notin> set (frames k i))
       \<or> idle_thread k = None \<and> (st k i = Some THREAD_READY \<or> st k i = Some THREAD_RUNNING)
         \<and> (\<exists>pre s. frames k i = pre @ [Idle_Start s, Idle_Loop] \<and> (\<forall>f \<in> set pre. plain f)))"
    using assms unfolding base_ok_def idle_ok_def by (elim conjE exE) (rule that, intro conjI; assumption)
  then show ?thesis
    by (intro that [of i]) blast+
qed

lemma off_next:
  assumes "off_ok k"
  obtains n where "next_runner k = Some n" "st k n \<noteq> None" "st k n \<noteq> Some THREAD_DYING"
    "ready_list k = n # tl (ready_list k) \<or> ready_list k = [] \<and> idle_thread k = Some n"
proof (cases "ready_list k")
  case (Cons n ns)
  have "base_ok k"
    using assms by (simp add: off_ok_def)
  then have "st k n = Some THREAD_READY"
    using Cons base_ready [of k n] by simp
  then show ?thesis
    using Cons that [of n] by (simp add: next_runner_def next_thread_to_run_def)
next
  case Nil
  have base: "base_ok k" and off: "\<And>t. st k t \<noteq> Some THREAD_RUNNING"
    using assms by (simp_all add: off_ok_def)
  obtain i where i: "st k i \<noteq> None" "Idle_Loop \<in> set (frames k i)"
      "idle_thread k = Some i \<or> idle_thread k = None \<and> (st k i = Some THREAD_READY \<or> st k i = Some THREAD_RUNNING)"
    using base_idle [OF base] by blast
  have "idle_thread k = Some i"
    using i(3) Nil base_ready [OF base, of i] off [of i] by auto
  moreover have "st k i \<noteq> Some THREAD_DYING"
    using i(2) base_no_frames [OF base, of i] by force
  ultimately show ?thesis
    using i(1) Nil that [of i] by (simp add: next_runner_def next_thread_to_run_def)
qed

lemma schedule_step:
  assumes "next_runner k = Some n" "st k n \<noteq> None" "st k n \<noteq> Some THREAD_DYING"
    "st k (running k) \<noteq> None" "st k (running k) \<noteq> Some THREAD_RUNNING" "\<not> intr_on k"
  shows "\<exists>k'. schedule k = Some k' \<and> same_sync k k' \<and> running k' = n \<and> ready_list k' = tl (ready_list k)
    \<and> \<not> intr_on k' \<and> thread_ticks k' = 0 \<and> esp0 k' = n + PGSIZE
    \<and> active_pagedir k' = pagedir (the (threads k' n)) \<and> initial_thread k' = initial_thread k
    \<and> st k' = (st k)(n := Some THREAD_RUNNING,
        running k := (if st k (running k) = Some THREAD_DYING \<and> running k \<noteq> initial_thread k then None
          else if running k = n then Some THREAD_RUNNING else st k (running k)))"
proof -
  obtain c where c: "threads k (running k) = Some c" "status c \<noteq> THREAD_RUNNING"
    using assms(4,5) by (auto simp: st_def)
  obtain th where th: "threads k n = Some th" "status th \<noteq> THREAD_DYING"
    using assms(2,3) by (auto simp: st_def)
  have pick: "next_thread_to_run k = (Some n, k\<lparr>ready_list := tl (ready_list k)\<rparr>)"
    using assms(1) by (auto simp: next_runner_def next_thread_to_run_def split: list.splits)
  show ?thesis
    using assms(6) c th pick
    by (auto simp: schedule_def thread_schedule_tail_def process_activate_def thread_current_def is_thread_def
        set_status_def upd_thread_def same_sync_def ASSERT_def st_def fun_eq_iff Let_def)
qed

text \<open>The statuses after a switch from \<open>cur\<close> to \<open>n\<close>.\<close>

definition switched :: "thread_ptr \<Rightarrow> kernel \<Rightarrow> kernel \<Rightarrow> bool" where
  "switched n k k' \<longleftrightarrow> same_sync k k' \<and> running k' = n \<and> ready_list k' = tl (ready_list k)
    \<and> \<not> intr_on k' \<and> thread_ticks k' = 0
    \<and> (\<forall>t. st k' t = (if t = n then Some THREAD_RUNNING else st k t)
         \<or> t \<noteq> n \<and> st k t = Some THREAD_DYING \<and> st k' t = None)"

lemma switched_st:
  assumes "switched n k k'"
  shows "st k' n = Some THREAD_RUNNING" "t \<noteq> n \<Longrightarrow> x \<noteq> THREAD_DYING \<Longrightarrow> st k' t = Some x \<longleftrightarrow> st k t = Some x"
    "t \<noteq> n \<Longrightarrow> (st k' t = None \<or> st k' t = Some THREAD_DYING) \<longleftrightarrow> (st k t = None \<or> st k t = Some THREAD_DYING)"
    "st k' t \<noteq> None \<Longrightarrow> t = n \<or> st k t \<noteq> None"
proof -
  have st: "st k' t = (if t = n then Some THREAD_RUNNING else st k t)
         \<or> t \<noteq> n \<and> st k t = Some THREAD_DYING \<and> st k' t = None" for t
    using assms by (simp add: switched_def)
  show "st k' n = Some THREAD_RUNNING"
    using st [of n] by simp
  show "t \<noteq> n \<Longrightarrow> x \<noteq> THREAD_DYING \<Longrightarrow> st k' t = Some x \<longleftrightarrow> st k t = Some x"
    "t \<noteq> n \<Longrightarrow> (st k' t = None \<or> st k' t = Some THREAD_DYING) \<longleftrightarrow> (st k t = None \<or> st k t = Some THREAD_DYING)"
    "st k' t \<noteq> None \<Longrightarrow> t = n \<or> st k t \<noteq> None"
    using st [of t] by auto
qed

lemma switched_queues:
  assumes "switched n k k'" "queues_ok k" "st k n \<noteq> None" "st k n \<noteq> Some THREAD_DYING"
    and n: "ready_list k = n # tl (ready_list k) \<or> ready_list k = [] \<and> idle_thread k = Some n"
    and no_loop: "\<And>s. st k n = Some THREAD_BLOCKED \<Longrightarrow> \<not> in_loop s (frames k n)"
  shows "queues_ok k'"
proof -
  note st = switched_st [OF assms(1)]
  have same: "frames k' = frames k" "semas k' = semas k" "idle_thread k' = idle_thread k" "all_list k' = all_list k"
      "ready_list k' = tl (ready_list k)"
    using assms(1) by (simp_all add: switched_def same_sync_def)
  have q: "finite {t. st k t \<noteq> None}" "distinct (ready_list k)"
      "\<And>t. t \<in> set (ready_list k) \<longleftrightarrow> st k t = Some THREAD_READY \<and> idle_thread k \<noteq> Some t"
      "\<And>s. distinct (waiters (semas k s))"
      "\<And>s t. t \<in> set (waiters (semas k s)) \<longleftrightarrow> st k t = Some THREAD_BLOCKED \<and> in_loop s (frames k t)"
      "distinct (all_list k)" "\<And>t. t \<in> set (all_list k) \<longleftrightarrow> st k t \<noteq> None \<and> st k t \<noteq> Some THREAD_DYING"
    using assms(2) by (simp_all add: queues_ok_def)
  have "finite {t. st k' t \<noteq> None}"
    by (rule finite_subset [of _ "insert n {t. st k t \<noteq> None}"]) (use st(4) q(1) in auto)
  moreover have "t \<in> set (tl (ready_list k)) \<longleftrightarrow> st k' t = Some THREAD_READY \<and> idle_thread k \<noteq> Some t" for t
  proof (cases "t = n")
    case True
    then have "n \<notin> set (tl (ready_list k))"
      using n q(2) by (metis distinct.simps(2) list.sel(2) list.set_cases empty_iff empty_set)
    then show ?thesis
      using True st(1) by simp
  next
    case False
    then have "t \<in> set (tl (ready_list k)) \<longleftrightarrow> t \<in> set (ready_list k)"
      using n by (metis list.sel(2) set_ConsD list.set_intros(2))
    then show ?thesis
      using q(3) [of t] st(2) [OF False, of THREAD_READY] by simp
  qed
  moreover have "t \<in> set (waiters (semas k s)) \<longleftrightarrow> st k' t = Some THREAD_BLOCKED \<and> in_loop s (frames k t)" for s t
    using q(5) [of t s] st(1) st(2) [of t THREAD_BLOCKED] no_loop [of s] by (cases "t = n") auto
  moreover have "t \<in> set (all_list k) \<longleftrightarrow> st k' t \<noteq> None \<and> st k' t \<noteq> Some THREAD_DYING" for t
    using q(7) [of t] st(1) st(3) [of t] assms(3,4) by (cases "t = n") auto
  ultimately show ?thesis
    using q(2,4,6) by (simp add: queues_ok_def same distinct_tl)
qed

lemma switched_frames: "switched n k k' \<Longrightarrow> frames_ok k \<Longrightarrow> frames_ok k'"
proof -
  assume a: "switched n k k'" "frames_ok k"
  have "frames k' = frames k"
    using a(1) by (simp add: switched_def same_sync_def)
  moreover have "st k' t = None \<or> st k' t = Some THREAD_DYING \<Longrightarrow> frames k t = []" for t
    using switched_st(1) [OF a(1)] switched_st(3) [OF a(1), of t] a(2) by (cases "t = n") (auto simp: frames_ok_def)
  ultimately show "frames_ok k'"
    using a(2) by (simp add: frames_ok_def)
qed

lemma switched_creates:
  assumes "switched n k k'" "creates_ok k" "\<And>u. n \<notin> set (creates (frames k u))"
  shows "creates_ok k'"
proof -
  have "frames k' = frames k" "idle_thread k' = idle_thread k"
    using assms(1) by (simp_all add: switched_def same_sync_def)
  moreover have "t \<in> set (creates (frames k u)) \<Longrightarrow> st k' t = Some THREAD_BLOCKED" for u t
    using switched_st(2) [OF assms(1), of t THREAD_BLOCKED] assms(2,3) by (cases "t = n") (auto simp: creates_ok_def)
  ultimately show ?thesis
    using assms(2) unfolding creates_ok_def by metis
qed

lemma switched_blocked: "switched n k k' \<Longrightarrow> blocked_ok k \<Longrightarrow> blocked_ok k'"
proof -
  assume a: "switched n k k'" "blocked_ok k"
  have "frames k' = frames k" "idle_thread k' = idle_thread k"
    using a(1) by (simp_all add: switched_def same_sync_def)
  moreover have "st k' t = Some THREAD_BLOCKED \<Longrightarrow> st k t = Some THREAD_BLOCKED" for t
    using switched_st(1,2) [OF a(1)] by (cases "t = n") auto
  ultimately show "blocked_ok k'"
    using a(2) by (simp add: blocked_ok_def)
qed

lemma switched_idle:
  assumes "switched n k k'" "idle_ok k" "frames_ok k" "\<And>t. st k t \<noteq> Some THREAD_RUNNING"
  shows "idle_ok k'"
proof -
  have same: "frames k' = frames k" "idle_thread k' = idle_thread k"
    using assms(1) by (simp_all add: switched_def same_sync_def)
  obtain i where i: "st k i \<noteq> None" "Idle_Loop \<in> set (frames k i)" "\<forall>f \<in> set (frames k i). idle_frame f"
      "\<forall>t. t \<noteq> i \<longrightarrow> (\<forall>s. Idle_Start s \<notin> set (frames k t)) \<and> Idle_Loop \<notin> set (frames k t)"
      "idle_thread k = Some i \<and> (\<forall>s. Idle_Start s \<notin> set (frames k i))
       \<or> idle_thread k = None \<and> (st k i = Some THREAD_READY \<or> st k i = Some THREAD_RUNNING)
         \<and> (\<exists>pre s. frames k i = pre @ [Idle_Start s, Idle_Loop] \<and> (\<forall>f \<in> set pre. plain f))"
    using assms(2) unfolding idle_ok_def by (elim exE conjE) (rule that; assumption)
  have "frames k i \<noteq> []"
    using i(2) by auto
  then have alive: "st k' i \<noteq> None"
    using assms(3) i(1) switched_st(1) [OF assms(1)] switched_st(3) [OF assms(1), of i] by (cases "i = n") (auto simp: frames_ok_def)
  have "st k i = Some THREAD_READY \<Longrightarrow> st k' i = Some THREAD_READY \<or> st k' i = Some THREAD_RUNNING"
    using switched_st(1) [OF assms(1)] switched_st(2) [OF assms(1), of i THREAD_READY] by (cases "i = n") auto
  then have last: "idle_thread k = Some i \<and> (\<forall>s. Idle_Start s \<notin> set (frames k i))
       \<or> idle_thread k = None \<and> (st k' i = Some THREAD_READY \<or> st k' i = Some THREAD_RUNNING)
         \<and> (\<exists>pre s. frames k i = pre @ [Idle_Start s, Idle_Loop] \<and> (\<forall>f \<in> set pre. plain f))"
    using i(5) assms(4) [of i] by argo
  show ?thesis
    unfolding idle_ok_def same by (intro exI [of _ i] conjI alive i(2-4) last)
qed

lemma idle_not_in_loop: "\<forall>f \<in> set fs. idle_frame f \<Longrightarrow> \<not> in_loop s fs"
  by (cases "(s, fs)" rule: in_loop.cases) auto

lemma idle_creates_nothing: "\<forall>f \<in> set fs. idle_frame f \<Longrightarrow> creates fs = []"
  by (induction fs rule: creates.induct) auto

lemma idle_thread_frames:
  assumes "idle_ok k" "idle_thread k = Some n"
  shows "\<forall>f \<in> set (frames k n). idle_frame f" "st k n \<noteq> None" "Idle_Loop \<in> set (frames k n)"
  using assms unfolding idle_ok_def by auto

text \<open>\<^verbatim>\<open>schedule\<close> never stops the kernel, and restores the invariant.\<close>

lemma schedule_ok:
  assumes "off_ok k"
  obtains n k' where "schedule k = Some k'" "switched n k k'" "sched_ok k'" "next_runner k = Some n"
    "ready_list k = n # tl (ready_list k) \<or> ready_list k = [] \<and> idle_thread k = Some n"
proof -
  have base: "queues_ok k" "frames_ok k" "creates_ok k" "blocked_ok k" "idle_ok k"
      and off: "\<And>t. st k t \<noteq> Some THREAD_RUNNING" "st k (running k) \<noteq> None" "\<not> intr_on k"
    using assms by (simp_all add: off_ok_def base_ok_def)
  obtain n where n: "next_runner k = Some n" "st k n \<noteq> None" "st k n \<noteq> Some THREAD_DYING"
      "ready_list k = n # tl (ready_list k) \<or> ready_list k = [] \<and> idle_thread k = Some n"
    using off_next [OF assms] .
  obtain k' where k': "schedule k = Some k'" "switched n k k'"
    using schedule_step [OF n(1-3) off(2) off(1) off(3)] n(3) off(1) unfolding switched_def by auto
  have ready: "st k n = Some THREAD_READY \<or> idle_thread k = Some n"
    using n(4) base_ready [of k n] assms by (metis list.set_intros(1) off_ok_def)
  have no_loop: "st k n = Some THREAD_BLOCKED \<Longrightarrow> \<not> in_loop s (frames k n)" for s
    using ready idle_thread_frames(1) [OF base(5)] idle_not_in_loop by auto
  have no_create: "n \<notin> set (creates (frames k u))" for u
    using ready base(3) unfolding creates_ok_def by force
  have "base_ok k'"
    unfolding base_ok_def
    using switched_queues [OF k'(2) base(1) n(2-4) no_loop] switched_frames [OF k'(2) base(2)]
      switched_creates [OF k'(2) base(3) no_create] switched_blocked [OF k'(2) base(4)]
      switched_idle [OF k'(2) base(5,2) off(1)] by blast
  moreover have "st k' t = Some THREAD_RUNNING \<longleftrightarrow> t = running k'" for t
    using switched_st(1) [OF k'(2)] switched_st(2) [OF k'(2), of t THREAD_RUNNING] off(1) [of t] k'(2)
    by (cases "t = n") (auto simp: switched_def)
  ultimately have "sched_ok k'"
    using k'(2) by (simp add: sched_ok_def switched_def)
  then show ?thesis
    using that k' n(1,4) by blast
qed

subsection \<open>Changes that the running thread makes\<close>

lemma creates_append: "creates (fs @ gs) = creates fs @ creates gs"
  by (induction fs rule: creates.induct) auto

lemma creates_plain: "\<forall>f \<in> set fs. plain f \<Longrightarrow> creates fs = []"
  by (induction fs rule: creates.induct) auto

text \<open>From \<open>k\<close> to \<open>k1\<close> the running thread \<open>t\<close> replaces its top frames \<open>old\<close> by \<open>new\<close> and gets the
  status \<open>x\<close>.\<close>

definition retop :: "thread_ptr \<Rightarrow> frame list \<Rightarrow> frame list \<Rightarrow> frame list \<Rightarrow> thread_status \<Rightarrow> kernel \<Rightarrow> kernel \<Rightarrow> bool" where
  "retop t old new rest x k k1 \<longleftrightarrow> st k t = Some THREAD_RUNNING \<and> frames k t = old @ rest
    \<and> st k1 = (st k)(t := Some x) \<and> frames k1 = (frames k)(t := new @ rest) \<and> idle_thread k1 = idle_thread k
    \<and> (\<forall>f \<in> set old. plain f) \<and> (\<forall>f \<in> set new. plain f \<and> own_frame t f)
    \<and> (\<forall>f \<in> set (tl (new @ rest)). \<not> is_loop f)
    \<and> (Idle_Loop \<in> set rest \<longrightarrow> (\<forall>f \<in> set new. idle_frame f) \<and> (x = THREAD_READY \<or> x = THREAD_RUNNING))
    \<and> (x = THREAD_DYING \<longrightarrow> new @ rest = [])"

lemma retop_frames:
  assumes "retop t old new rest x k k1" "frames_ok k"
  shows "frames_ok k1"
proof -
  have "\<forall>f \<in> set rest. own_frame t f"
    using assms by (auto simp: retop_def frames_ok_def)
  then show ?thesis
    using assms by (auto simp: retop_def frames_ok_def)
qed

lemma retop_create_frames: "retop t old new rest x k k1 \<Longrightarrow> creates (frames k1 u) = creates (frames k u)"
  by (auto simp: retop_def creates_append creates_plain)

lemma retop_creates:
  assumes "retop t old new rest x k k1" "creates_ok k"
  shows "creates_ok k1"
proof -
  have "st k1 v = Some THREAD_BLOCKED \<and> idle_thread k1 \<noteq> Some v \<and> hd (frames k1 v) = Kernel_Thread"
    if "v \<in> set (creates (frames k u))" for u v
  proof -
    have "st k v = Some THREAD_BLOCKED" "idle_thread k \<noteq> Some v" "hd (frames k v) = Kernel_Thread"
      using assms(2) that unfolding creates_ok_def by blast+
    then show ?thesis
      using assms(1) by (auto simp: retop_def)
  qed
  then show ?thesis
    using assms(2) unfolding creates_ok_def retop_create_frames [OF assms(1)] by blast
qed

lemma retop_blocked:
  assumes "retop t old new rest x k k1" "blocked_ok k" "x = THREAD_BLOCKED \<Longrightarrow> \<exists>s. in_loop s (new @ rest)"
  shows "blocked_ok k1"
proof -
  have "idle_thread k1 = Some v \<or> (\<exists>s. in_loop s (frames k1 v)) \<or> (\<exists>u. v \<in> set (creates (frames k u)))"
    if "st k1 v = Some THREAD_BLOCKED" for v
    using that assms unfolding retop_def blocked_ok_def by (cases "v = t") auto
  then show ?thesis
    unfolding blocked_ok_def retop_create_frames [OF assms(1)] by blast
qed

lemma retop_idle:
  assumes "retop t old new rest x k k1" "idle_ok k"
  shows "idle_ok k1"
proof -
  have r: "frames k t = old @ rest" "frames k1 = (frames k)(t := new @ rest)" "idle_thread k1 = idle_thread k"
      "st k1 = (st k)(t := Some x)" "\<forall>f \<in> set old. plain f" "\<forall>f \<in> set new. plain f"
      "Idle_Loop \<in> set rest \<longrightarrow> (\<forall>f \<in> set new. idle_frame f) \<and> (x = THREAD_READY \<or> x = THREAD_RUNNING)"
    using assms(1) by (auto simp: retop_def)
  obtain i where i: "st k i \<noteq> None" "Idle_Loop \<in> set (frames k i)" "\<forall>f \<in> set (frames k i). idle_frame f"
      "\<forall>u. u \<noteq> i \<longrightarrow> (\<forall>s. Idle_Start s \<notin> set (frames k u)) \<and> Idle_Loop \<notin> set (frames k u)"
      "idle_thread k = Some i \<and> (\<forall>s. Idle_Start s \<notin> set (frames k i))
       \<or> idle_thread k = None \<and> (st k i = Some THREAD_READY \<or> st k i = Some THREAD_RUNNING)
         \<and> (\<exists>pre s. frames k i = pre @ [Idle_Start s, Idle_Loop] \<and> (\<forall>f \<in> set pre. plain f))"
    using assms(2) unfolding idle_ok_def by (elim exE conjE) (rule that; assumption)
  have no_idle: "Idle_Start s \<notin> set old \<union> set new" "Idle_Loop \<notin> set old \<union> set new" for s
    using r(5,6) by (metis UnE plain.simps(1), metis UnE plain.simps(2))
  show ?thesis
  proof (cases "i = t")
    case False
    have "Idle_Start s \<notin> set rest" "Idle_Loop \<notin> set rest" for s
      using i(4) [rule_format, of t] False r(1) by auto
    then have others: "\<forall>u. u \<noteq> i \<longrightarrow> (\<forall>s. Idle_Start s \<notin> set (frames k1 u)) \<and> Idle_Loop \<notin> set (frames k1 u)"
      using i(4) r(2) no_idle by auto
    show ?thesis
      unfolding idle_ok_def using False i r(2-4) others by (intro exI [of _ i]) auto
  next
    case True
    have rest: "Idle_Loop \<in> set rest"
      using i(2) r(1) no_idle(2) True by auto
    then have new: "\<forall>f \<in> set new. idle_frame f" "x = THREAD_READY \<or> x = THREAD_RUNNING"
      using r(7) by auto
    have tail: "\<exists>pre' s. new @ rest = pre' @ [Idle_Start s, Idle_Loop] \<and> (\<forall>f \<in> set pre'. plain f)"
      if shape: "\<exists>pre s. frames k i = pre @ [Idle_Start s, Idle_Loop] \<and> (\<forall>f \<in> set pre. plain f)"
    proof -
      obtain pre s where pre: "old @ rest = pre @ [Idle_Start s, Idle_Loop]" "\<forall>f \<in> set pre. plain f"
        using shape True r(1) by auto
      obtain us where us: "old = pre @ us \<and> us @ rest = [Idle_Start s, Idle_Loop] \<or> old @ us = pre \<and> rest = us @ [Idle_Start s, Idle_Loop]"
        using pre(1) by (auto simp: append_eq_append_conv2)
      then have "rest = us @ [Idle_Start s, Idle_Loop] \<and> set us \<subseteq> set pre"
        using no_idle(1) [of s] by (cases us) auto
      then show ?thesis
        using pre(2) r(6) by (intro exI [of _ "new @ us"] exI [of _ s]) auto
    qed
    show ?thesis
      unfolding idle_ok_def using True i r new rest no_idle tail by (intro exI [of _ i]) auto
  qed
qed

lemma retop_base:
  assumes "retop t old new rest x k k1" "base_ok k" "queues_ok k1" "x = THREAD_BLOCKED \<Longrightarrow> \<exists>s. in_loop s (new @ rest)"
  shows "base_ok k1"
proof -
  have "frames_ok k" "creates_ok k" "blocked_ok k" "idle_ok k"
    using assms(2) by (simp_all add: base_ok_def)
  then show ?thesis
    unfolding base_ok_def
    using assms(3) retop_frames [OF assms(1)] retop_creates [OF assms(1)] retop_blocked [OF assms(1) _ assms(4)] retop_idle [OF assms(1)]
    by blast
qed

lemma queuesI:
  assumes "finite {t. st k t \<noteq> None}" "distinct (ready_list k)" "\<And>s. distinct (waiters (semas k s))" "distinct (all_list k)"
    and "\<And>t. t \<in> set (ready_list k) \<longleftrightarrow> st k t = Some THREAD_READY \<and> idle_thread k \<noteq> Some t"
    and "\<And>s t. t \<in> set (waiters (semas k s)) \<longleftrightarrow> st k t = Some THREAD_BLOCKED \<and> in_loop s (frames k t)"
    and "\<And>t. t \<in> set (all_list k) \<longleftrightarrow> st k t \<noteq> None \<and> st k t \<noteq> Some THREAD_DYING"
  shows "queues_ok k"
  using assms by (simp add: queues_ok_def)

lemma queuesD:
  assumes "queues_ok k"
  shows "finite {t. st k t \<noteq> None}" "distinct (ready_list k)" "distinct (waiters (semas k s))" "distinct (all_list k)"
    "t \<in> set (ready_list k) \<longleftrightarrow> st k t = Some THREAD_READY \<and> idle_thread k \<noteq> Some t"
    "t \<in> set (waiters (semas k s)) \<longleftrightarrow> st k t = Some THREAD_BLOCKED \<and> in_loop s (frames k t)"
    "t \<in> set (all_list k) \<longleftrightarrow> st k t \<noteq> None \<and> st k t \<noteq> Some THREAD_DYING"
  using assms by (simp_all add: queues_ok_def)

lemma in_loop_unique: "in_loop s fs \<Longrightarrow> in_loop s' fs \<Longrightarrow> s = s'"
  by (cases "(s, fs)" rule: in_loop.cases) auto

text \<open>The queues after the running thread changed its frames and, as its new status asks, went
  to the end of the run queue or of the queue of a semaphore or left the list of all threads.\<close>

lemma restatus_queues:
  assumes st: "st k t = Some THREAD_RUNNING" "st k1 = (st k)(t := Some x)" "frames k1 = (frames k)(t := fs)"
      "idle_thread k1 = idle_thread k" and q: "queues_ok k"
    and ready: "ready_list k1 = ready_list k @ (if x = THREAD_READY \<and> idle_thread k \<noteq> Some t then [t] else [])"
    and wait: "\<And>s. waiters (semas k1 s) = waiters (semas k s) @ (if x = THREAD_BLOCKED \<and> in_loop s fs then [t] else [])"
    and all: "all_list k1 = (if x = THREAD_DYING then remove1 t (all_list k) else all_list k)"
  shows "queues_ok k1"
proof -
  note Q = queuesD [OF q]
  have out: "t \<notin> set (ready_list k)" "t \<notin> set (waiters (semas k s))" for s
    using Q(5) [of t] Q(6) [of t s] st(1) by simp_all
  show ?thesis
  proof (rule queuesI)
    show "finite {u. st k1 u \<noteq> None}"
      by (rule finite_subset [of _ "insert t {u. st k u \<noteq> None}"]) (use Q(1) st(2) in auto)
    show "distinct (ready_list k1)" "distinct (waiters (semas k1 s))" "distinct (all_list k1)" for s
      using Q(2) Q(3) [of s] Q(4) out(1) out(2) [of s] by (auto simp: ready wait all)
    show "u \<in> set (ready_list k1) \<longleftrightarrow> st k1 u = Some THREAD_READY \<and> idle_thread k1 \<noteq> Some u" for u
      using Q(5) [of u] out(1) st by (auto simp: ready)
    show "u \<in> set (waiters (semas k1 s)) \<longleftrightarrow> st k1 u = Some THREAD_BLOCKED \<and> in_loop s (frames k1 u)" for s u
      using Q(6) [of u s] out(2) [of s] st by (auto simp: wait)
    show "u \<in> set (all_list k1) \<longleftrightarrow> st k1 u \<noteq> None \<and> st k1 u \<noteq> Some THREAD_DYING" for u
      using Q(7) [of u] Q(4) st by (auto simp: all)
  qed
qed

lemma retop_restatus:
  assumes "retop t old new rest x k k1"
  shows "st k t = Some THREAD_RUNNING" "st k1 = (st k)(t := Some x)" "frames k1 = (frames k)(t := new @ rest)"
    "idle_thread k1 = idle_thread k"
  using assms by (simp_all add: retop_def)

lemma retop_queues:
  assumes "retop t old new rest x k k1" "queues_ok k"
    and "ready_list k1 = ready_list k @ (if x = THREAD_READY \<and> idle_thread k \<noteq> Some t then [t] else [])"
    and "\<And>s. waiters (semas k1 s) = waiters (semas k s) @ (if x = THREAD_BLOCKED \<and> in_loop s (new @ rest) then [t] else [])"
    and "all_list k1 = (if x = THREAD_DYING then remove1 t (all_list k) else all_list k)"
  shows "queues_ok k1"
  by (rule restatus_queues [OF retop_restatus [OF assms(1)] assms(2-5)])

lemma sched_okD:
  assumes "sched_ok k"
  shows "base_ok k" "queues_ok k" "st k (running k) = Some THREAD_RUNNING" "frames_ok k"
    "st k t = Some THREAD_RUNNING \<Longrightarrow> t = running k" "intr_on k \<Longrightarrow> \<not> in_loop s (frames k (running k))"
    "thread_current k = Some (running k)"
proof -
  show "base_ok k" "queues_ok k" "frames_ok k"
    "st k t = Some THREAD_RUNNING \<Longrightarrow> t = running k" "intr_on k \<Longrightarrow> \<not> in_loop s (frames k (running k))"
    using assms by (simp_all add: sched_ok_def base_ok_def)
  show run: "st k (running k) = Some THREAD_RUNNING"
    using assms by (simp add: sched_ok_def)
  show "thread_current k = Some (running k)"
    using run by (auto simp: st_def thread_current_def ASSERT_def)
qed

text \<open>A thread that goes on running.\<close>

lemma retop_sched:
  assumes "sched_ok k" "retop (running k) old new rest THREAD_RUNNING k k1" "running k1 = running k"
    and "ready_list k1 = ready_list k" "\<And>s. waiters (semas k1 s) = waiters (semas k s)" "all_list k1 = all_list k"
    and "intr_on k1 \<Longrightarrow> \<forall>s. \<not> in_loop s (new @ rest)"
  shows "sched_ok k1"
proof -
  have "base_ok k1"
    using retop_base [OF assms(2)] retop_queues [OF assms(2)] sched_okD(1,2) [OF assms(1)] assms(4-6) by simp
  moreover have k1: "st k1 = (st k)(running k := Some THREAD_RUNNING)" "frames k1 (running k) = new @ rest"
    using assms(2) by (simp_all add: retop_def)
  moreover have "st k1 t = Some THREAD_RUNNING \<longleftrightarrow> t = running k" for t
    using k1(1) sched_okD(5) [OF assms(1), of t] by auto
  ultimately show ?thesis
    using assms(3,7) by (simp add: sched_ok_def)
qed

text \<open>A thread that is about to leave the processor.\<close>

lemma retop_off:
  assumes "sched_ok k" "retop (running k) old new rest x k k1" "running k1 = running k" "\<not> intr_on k1" "x \<noteq> THREAD_RUNNING"
    and "ready_list k1 = ready_list k @ (if x = THREAD_READY \<and> idle_thread k \<noteq> Some (running k) then [running k] else [])"
    and "\<And>s. waiters (semas k1 s) = waiters (semas k s) @ (if x = THREAD_BLOCKED \<and> in_loop s (new @ rest) then [running k] else [])"
    and "all_list k1 = (if x = THREAD_DYING then remove1 (running k) (all_list k) else all_list k)"
    and "x = THREAD_BLOCKED \<Longrightarrow> \<exists>s. in_loop s (new @ rest)"
  shows "off_ok k1"
proof -
  have "base_ok k1"
    using retop_base [OF assms(2) sched_okD(1) [OF assms(1)] _ assms(9)]
      retop_queues [OF assms(2) sched_okD(2) [OF assms(1)] assms(6-8)] by blast
  moreover have k1: "st k1 = (st k)(running k := Some x)"
    using assms(2) by (simp add: retop_def)
  moreover have "st k1 t \<noteq> Some THREAD_RUNNING" for t
    using k1 assms(5) sched_okD(5) [OF assms(1), of t] by auto
  ultimately show ?thesis
    using assms(3,4) by (simp add: off_ok_def)
qed

subsection \<open>Operations\<close>

text \<open>The running thread is about to run code of its own, not the loop of \<^verbatim>\<open>sema_down\<close>.\<close>

definition act_ok :: "kernel \<Rightarrow> bool" where
  "act_ok k \<longleftrightarrow> sched_ok k \<and> (\<forall>f \<in> set (frames k (running k)). \<not> is_loop f)"

lemma not_in_loop: "\<forall>f \<in> set fs. \<not> is_loop f \<Longrightarrow> \<not> in_loop s fs"
  by (cases "(s, fs)" rule: in_loop.cases) auto

lemma tl_no_loop: "\<forall>f \<in> set fs. \<not> is_loop f \<Longrightarrow> \<forall>f \<in> set (tl fs). \<not> is_loop f"
  by (cases fs) auto

lemma retop_act:
  assumes "sched_ok k" "frames k (running k) = old @ rest" "\<forall>f \<in> set old. plain f"
    and "\<forall>f \<in> set new. plain f \<and> own_frame (running k) f \<and> \<not> is_loop f" "\<forall>f \<in> set rest. \<not> is_loop f"
    and "Idle_Loop \<in> set rest \<longrightarrow> (\<forall>f \<in> set new. idle_frame f)"
    and "st k1 = st k" "frames k1 = (frames k)(running k := new @ rest)" "running k1 = running k"
    and "idle_thread k1 = idle_thread k" "ready_list k1 = ready_list k" "all_list k1 = all_list k"
    and "\<And>s. waiters (semas k1 s) = waiters (semas k s)"
  shows "act_ok k1"
proof -
  have loops: "\<forall>f \<in> set (new @ rest). \<not> is_loop f"
    using assms(4,5) by auto
  have "retop (running k) old new rest THREAD_RUNNING k k1"
    using assms(2-8,10) sched_okD(3) [OF assms(1)] tl_no_loop [OF loops] by (simp add: retop_def fun_upd_idem)
  then have "sched_ok k1"
    using retop_sched [OF assms(1) _ assms(9,11,13,12)] not_in_loop [OF loops] by blast
  then show ?thesis
    using loops assms(8,9) by (simp add: act_ok_def)
qed

text \<open>Updates of what the scheduler does not look at.\<close>

lemma same_act:
  assumes "act_ok k" "st k1 = st k" "frames k1 = frames k" "running k1 = running k"
    and "idle_thread k1 = idle_thread k" "ready_list k1 = ready_list k" "all_list k1 = all_list k"
    and "\<And>s. waiters (semas k1 s) = waiters (semas k s)"
  shows "act_ok k1"
proof -
  have k: "sched_ok k" "\<forall>f \<in> set (frames k (running k)). \<not> is_loop f"
    using assms(1) by (simp_all add: act_ok_def)
  show ?thesis
    by (rule retop_act [OF k(1), of "[]" "frames k (running k)" "[]"])
      (use k assms(2-8) in \<open>simp_all add: fun_upd_idem\<close>)
qed

lemma frames_loop_top: "sched_ok k \<Longrightarrow> frames k (running k) = f # fs \<Longrightarrow> \<forall>g \<in> set fs. \<not> is_loop g"
  using sched_okD(1) [of k] unfolding base_ok_def frames_ok_def by (metis list.sel(3))

text \<open>Taking the top frame off and putting frames on top.\<close>

lemma pop_act:
  assumes "sched_ok k" "frames k (running k) = f # fs" "plain f"
  shows "act_ok (k\<lparr>frames := (frames k)(running k := fs)\<rparr>)"
  by (rule retop_act [OF assms(1), of "[f]" fs "[]"])
    (use assms frames_loop_top [OF assms(1,2)] in \<open>simp_all add: st_def fun_eq_iff\<close>)

lemma push_act:
  assumes "act_ok k" "\<forall>f \<in> set new. plain f \<and> own_frame (running k) f \<and> \<not> is_loop f"
    and "Idle_Loop \<notin> set (frames k (running k)) \<or> (\<forall>f \<in> set new. idle_frame f)"
  shows "act_ok (push_frames new k)"
proof -
  have k: "sched_ok k" "\<forall>f \<in> set (frames k (running k)). \<not> is_loop f"
    using assms(1) by (simp_all add: act_ok_def)
  show ?thesis
    by (rule retop_act [OF k(1), of "[]" "frames k (running k)" new])
      (use k assms(2,3) in \<open>auto simp: push_frames_def st_def fun_eq_iff\<close>)
qed

text \<open>The loop of \<^verbatim>\<open>sema_down\<close> takes the semaphore or leaves the thread waiting for it.\<close>

lemma sema_down_loop_off:
  assumes "act_ok k" "Idle_Loop \<notin> set (frames k (running k))" "\<And>w. s = Waiter w \<Longrightarrow> w = running k" "\<not> intr_on k"
  shows "off_ok (set_status (running k) THREAD_BLOCKED (push_frames [Sema_Down_Loop s b]
    (upd_sema s (\<lambda>x. x\<lparr>waiters := waiters x @ [running k]\<rparr>) k)))" (is "off_ok ?k1")
proof -
  have k: "sched_ok k" "\<forall>f \<in> set (frames k (running k)). \<not> is_loop f"
    using assms(1) by (simp_all add: act_ok_def)
  have own: "own_frame (running k) (Sema_Down_Loop s b)"
    using assms(3) by (cases s) auto
  have st1: "st ?k1 = (st k)(running k := Some THREAD_BLOCKED)"
    using sched_okD(3) [OF k(1)] by (auto simp: set_status_def upd_thread_def push_frames_def upd_sema_def st_def fun_eq_iff)
  have fields: "frames ?k1 = (frames k)(running k := [Sema_Down_Loop s b] @ frames k (running k))"
      "idle_thread ?k1 = idle_thread k" "running ?k1 = running k" "ready_list ?k1 = ready_list k" "all_list ?k1 = all_list k"
      "\<not> intr_on ?k1" "semas ?k1 = (semas k)(s := (semas k s)\<lparr>waiters := waiters (semas k s) @ [running k]\<rparr>)"
    using assms(4) by (simp_all add: set_status_def upd_thread_def push_frames_def upd_sema_def)
  have r: "retop (running k) [] [Sema_Down_Loop s b] (frames k (running k)) THREAD_BLOCKED k ?k1"
    using own k(2) assms(2) sched_okD(3) [OF k(1)] st1 fields(1,2) by (simp add: retop_def)
  show ?thesis
    by (rule retop_off [OF k(1) r fields(3,6)]) (simp_all add: fields(4,5,7))
qed

lemma thread_block_schedule:
  assumes "sched_ok k0" "st k = st k0" "running k = running k0" "\<not> intr_on k"
  shows "thread_block k = schedule (set_status (running k) THREAD_BLOCKED k)"
proof -
  have "st k (running k) = Some THREAD_RUNNING"
    using assms(1-3) sched_okD(3) [of k0] by simp
  then show ?thesis
    using assms(4) by (auto simp: thread_block_def thread_current_def ASSERT_def st_def)
qed

lemma sema_down_loop_ok:
  assumes "act_ok k" "Idle_Loop \<notin> set (frames k (running k))" "\<And>w. s = Waiter w \<Longrightarrow> w = running k" "\<not> intr_on k"
  shows "\<exists>k'. sema_down_loop s b k = Some k' \<and> sched_ok k'"
proof (cases "s_value (semas k s) = 0")
  case True
  let ?k = "push_frames [Sema_Down_Loop s b] (upd_sema s (\<lambda>x. x\<lparr>waiters := waiters x @ [running k]\<rparr>) k)"
  have k: "sched_ok k"
    using assms(1) by (simp add: act_ok_def)
  have fields: "st ?k = st k" "running ?k = running k" "\<not> intr_on ?k"
    using assms(4) by (simp_all add: push_frames_def upd_sema_def st_def fun_eq_iff)
  have "sema_down_loop s b k = schedule (set_status (running k) THREAD_BLOCKED ?k)"
    using True sched_okD(7) [OF k] thread_block_schedule [OF k fields] fields(2) by (simp add: sema_down_loop_def Let_def)
  moreover obtain n k' where "schedule (set_status (running k) THREAD_BLOCKED ?k) = Some k'" "sched_ok k'"
    using schedule_ok [OF sema_down_loop_off [where s = s and b = b, OF assms]] .
  ultimately show ?thesis
    by simp
next
  case False
  have "act_ok ((upd_sema s (\<lambda>x. x\<lparr>s_value := s_value x - 1\<rparr>) k)\<lparr>intr_on := b\<rparr>)"
    by (rule same_act [OF assms(1)]) (simp_all add: upd_sema_def st_def fun_eq_iff)
  then show ?thesis
    using False by (simp add: sema_down_loop_def act_ok_def)
qed

lemma sema_down_ok:
  assumes "act_ok k" "Idle_Loop \<notin> set (frames k (running k))" "\<And>w. s = Waiter w \<Longrightarrow> w = running k"
  shows "\<exists>k'. sema_down s k = Some k' \<and> sched_ok k'"
proof -
  have "act_ok (k\<lparr>intr_on := False\<rparr>)"
    by (rule same_act [OF assms(1)]) (simp_all add: st_def fun_eq_iff)
  then show ?thesis
    unfolding sema_down_def using assms(2,3) by (intro sema_down_loop_ok) simp_all
qed

text \<open>A blocked thread becomes ready.\<close>

lemma unblock_queues:
  assumes "queues_ok k" "st k u = Some THREAD_BLOCKED" "idle_thread k \<noteq> Some u" "st k r = Some THREAD_RUNNING"
    and "st k1 = (st k)(u := Some THREAD_READY)" "\<And>t. t \<noteq> r \<Longrightarrow> frames k1 t = frames k t" "idle_thread k1 = idle_thread k"
    and "ready_list k1 = ready_list k @ [u]" "all_list k1 = all_list k" "\<And>s. waiters (semas k1 s) = filter (\<lambda>t. t \<noteq> u) (waiters (semas k s))"
  shows "queues_ok k1"
proof -
  note Q = queuesD [OF assms(1)]
  show ?thesis
  proof (rule queuesI)
    show "finite {t. st k1 t \<noteq> None}"
      by (rule finite_subset [of _ "insert u {t. st k t \<noteq> None}"]) (use Q(1) assms(5) in auto)
    show "distinct (ready_list k1)" "distinct (waiters (semas k1 s))" "distinct (all_list k1)" for s
      using Q(2) Q(3) [of s] Q(4) Q(5) [of u] assms(2,8-10) by simp_all
    show "t \<in> set (ready_list k1) \<longleftrightarrow> st k1 t = Some THREAD_READY \<and> idle_thread k1 \<noteq> Some t" for t
      using Q(5) [of t] assms(3,5,7,8) by auto
    show "t \<in> set (waiters (semas k1 s)) \<longleftrightarrow> st k1 t = Some THREAD_BLOCKED \<and> in_loop s (frames k1 t)" for s t
      using Q(6) [of t s] assms(4,5,10) assms(6) [of t] by (cases "t = r") auto
    show "t \<in> set (all_list k1) \<longleftrightarrow> st k1 t \<noteq> None \<and> st k1 t \<noteq> Some THREAD_DYING" for t
      using Q(7) [of t] assms(2,5,9) by auto
  qed
qed

lemma unblock_idle:
  assumes "idle_ok k" "st k1 = (st k)(u := Some THREAD_READY)" "frames k1 = frames k" "idle_thread k1 = idle_thread k"
    "st k u \<noteq> None"
  shows "idle_ok k1"
proof -
  obtain i where i: "st k i \<noteq> None" "Idle_Loop \<in> set (frames k i)" "\<forall>f \<in> set (frames k i). idle_frame f"
      "\<forall>u. u \<noteq> i \<longrightarrow> (\<forall>s. Idle_Start s \<notin> set (frames k u)) \<and> Idle_Loop \<notin> set (frames k u)"
      "idle_thread k = Some i \<and> (\<forall>s. Idle_Start s \<notin> set (frames k i))
       \<or> idle_thread k = None \<and> (st k i = Some THREAD_READY \<or> st k i = Some THREAD_RUNNING)
         \<and> (\<exists>pre s. frames k i = pre @ [Idle_Start s, Idle_Loop] \<and> (\<forall>f \<in> set pre. plain f))"
    using assms(1) unfolding idle_ok_def by (elim exE conjE) (rule that; assumption)
  have a: "st k1 i \<noteq> None"
    using i(1) assms(2) by simp
  have b: "idle_thread k = Some i \<and> (\<forall>s. Idle_Start s \<notin> set (frames k i))
       \<or> idle_thread k = None \<and> (st k1 i = Some THREAD_READY \<or> st k1 i = Some THREAD_RUNNING)
         \<and> (\<exists>pre s. frames k i = pre @ [Idle_Start s, Idle_Loop] \<and> (\<forall>f \<in> set pre. plain f))"
    using i(5) assms(2) by (cases "i = u") auto
  show ?thesis
    unfolding idle_ok_def assms(3,4) by (intro exI [of _ i] conjI a i(2-4) b)
qed

lemma idle_other:
  assumes "idle_ok k" "Idle_Loop \<notin> set (frames k r)" "\<And>t. t \<noteq> r \<Longrightarrow> frames k1 t = frames k t"
    and "Idle_Loop \<notin> set (frames k1 r)" "\<And>s. Idle_Start s \<notin> set (frames k1 r)"
    and "\<And>t. t \<noteq> r \<Longrightarrow> st k1 t = st k t" "idle_thread k1 = idle_thread k"
  shows "idle_ok k1"
proof -
  obtain i where i: "st k i \<noteq> None" "Idle_Loop \<in> set (frames k i)" "\<forall>f \<in> set (frames k i). idle_frame f"
      "\<forall>u. u \<noteq> i \<longrightarrow> (\<forall>s. Idle_Start s \<notin> set (frames k u)) \<and> Idle_Loop \<notin> set (frames k u)"
      "idle_thread k = Some i \<and> (\<forall>s. Idle_Start s \<notin> set (frames k i))
       \<or> idle_thread k = None \<and> (st k i = Some THREAD_READY \<or> st k i = Some THREAD_RUNNING)
         \<and> (\<exists>pre s. frames k i = pre @ [Idle_Start s, Idle_Loop] \<and> (\<forall>f \<in> set pre. plain f))"
    using assms(1) unfolding idle_ok_def by (elim exE conjE) (rule that; assumption)
  have ne: "i \<noteq> r"
    using i(2) assms(2) by auto
  have others: "\<forall>u. u \<noteq> i \<longrightarrow> (\<forall>s. Idle_Start s \<notin> set (frames k1 u)) \<and> Idle_Loop \<notin> set (frames k1 u)"
    using i(4) assms(3-5) by metis
  show ?thesis
    unfolding idle_ok_def using i(1-3,5) others ne assms(3,6,7) by (intro exI [of _ i]) simp
qed

text \<open>\<^verbatim>\<open>sema_up\<close> finds a waiting thread blocked, so its assertion holds.\<close>

lemma sema_up_ok:
  assumes "act_ok k"
  shows "\<exists>k'. sema_up s k = Some k' \<and> act_ok k' \<and> running k' = running k \<and> frames k' = frames k"
proof (cases "waiters (semas k s)")
  case Nil
  have "act_ok (upd_sema s (\<lambda>x. x\<lparr>s_value := s_value x + 1\<rparr>) k)"
    by (rule same_act [OF assms]) (simp_all add: upd_sema_def st_def fun_eq_iff)
  then show ?thesis
    using Nil by (simp add: sema_up_def upd_sema_def)
next
  case (Cons u us)
  have k: "sched_ok k" "\<forall>f \<in> set (frames k (running k)). \<not> is_loop f"
    using assms by (simp_all add: act_ok_def)
  have base: "queues_ok k" "frames_ok k" "creates_ok k" "blocked_ok k" "idle_ok k"
    using sched_okD(1) [OF k(1)] by (simp_all add: base_ok_def)
  have u: "st k u = Some THREAD_BLOCKED" "in_loop s (frames k u)"
    using queuesD(6) [OF base(1), of u s] Cons by simp_all
  have not_idle: "idle_thread k \<noteq> Some u"
    using idle_thread_frames(1) [OF base(5)] idle_not_in_loop u(2) by metis
  have not_created: "u \<notin> set (creates (frames k v))" for v
    using base(3) u(2) unfolding creates_ok_def by (cases "frames k u") fastforce+
  obtain th where th: "threads k u = Some th" "status th = THREAD_BLOCKED"
    using u(1) by (auto simp: st_def)
  define k1 where "k1 = upd_sema s (\<lambda>x. x\<lparr>s_value := s_value x + 1\<rparr>) (set_status u THREAD_READY
    ((upd_sema s (\<lambda>x. x\<lparr>waiters := us\<rparr>) k)\<lparr>ready_list := ready_list k @ [u]\<rparr>))"
  have up: "sema_up s k = Some k1"
    using Cons th by (simp add: sema_up_def thread_unblock_def k1_def upd_sema_def ASSERT_def)
  have st1: "st k1 = (st k)(u := Some THREAD_READY)"
    using th by (auto simp: k1_def upd_sema_def set_status_def upd_thread_def st_def fun_eq_iff)
  have f1: "frames k1 = frames k" "idle_thread k1 = idle_thread k" "running k1 = running k" "ready_list k1 = ready_list k @ [u]"
      "all_list k1 = all_list k" "intr_on k1 = intr_on k" "thread_ticks k1 = thread_ticks k"
    by (simp_all add: k1_def upd_sema_def set_status_def upd_thread_def)
  have w1: "waiters (semas k1 s') = filter (\<lambda>t. t \<noteq> u) (waiters (semas k s'))" for s'
  proof (cases "s' = s")
    case True
    then show ?thesis
      using Cons queuesD(3) [OF base(1), of s] by (auto simp: k1_def upd_sema_def set_status_def upd_thread_def intro!: filter_True [symmetric])
  next
    case False
    then have "u \<notin> set (waiters (semas k s'))"
      using queuesD(6) [OF base(1), of u s'] in_loop_unique [OF u(2)] by auto
    then show ?thesis
      using False by (auto simp: k1_def upd_sema_def set_status_def upd_thread_def intro!: filter_True [symmetric])
  qed
  have "queues_ok k1"
    by (rule unblock_queues [OF base(1) u(1) not_idle sched_okD(3) [OF k(1)] st1]) (simp_all add: f1 w1)
  moreover have "frames_ok k1"
    using base(2) u(1) by (auto simp: frames_ok_def f1 st1)
  moreover have "creates_ok k1"
    using base(3) not_created unfolding creates_ok_def f1 st1 by (metis fun_upd_other)
  moreover have "blocked_ok k1"
    using base(4) unfolding blocked_ok_def f1 st1 by (metis fun_upd_apply option.inject thread_status.distinct(7))
  moreover have "idle_ok k1"
    using unblock_idle [OF base(5) st1 f1(1,2)] u(1) by simp
  ultimately have "base_ok k1"
    by (simp add: base_ok_def)
  moreover have "st k1 t = Some THREAD_RUNNING \<longleftrightarrow> t = running k" for t
    using st1 sched_okD(3) [OF k(1)] sched_okD(5) [OF k(1), of t] u(1) by (auto split: if_splits)
  ultimately have "sched_ok k1"
    using k(1) by (simp add: sched_ok_def f1)
  then show ?thesis
    using up f1 k(2) by (simp add: act_ok_def)
qed

lemma act_current: "act_ok k \<Longrightarrow> thread_current k = Some (running k)"
  using sched_okD(7) by (simp add: act_ok_def)

lemma lock_held: "act_ok k \<Longrightarrow> lock_held_by_current_thread l k = Some (holder k l = Some (running k))"
  by (simp add: lock_held_by_current_thread_def act_current)

lemma lock_acquire_ok:
  assumes "act_ok k" "Idle_Loop \<notin> set (frames k (running k))" "holder k l \<noteq> Some (running k)"
  shows "\<exists>k'. lock_acquire l k = Some k' \<and> sched_ok k'"
proof -
  have "act_ok (push_frames [Set_Holder l] k)"
    using push_act [OF assms(1), of "[Set_Holder l]"] assms(2) by simp
  moreover have "Idle_Loop \<notin> set (frames (push_frames [Set_Holder l] k) (running k))"
    using assms(2) by (simp add: push_frames_def)
  ultimately have "\<exists>k'. sema_down (Lock_Sema l) (push_frames [Set_Holder l] k) = Some k' \<and> sched_ok k'"
    by (intro sema_down_ok) (simp_all add: push_frames_def)
  then show ?thesis
    using assms(3) lock_held [OF assms(1), of l] by (simp add: lock_acquire_def ASSERT_def)
qed

lemma lock_try_acquire_ok:
  assumes "act_ok k" "Idle_Loop \<notin> set (frames k (running k))" "lock_try_acquire l k = Some (b, k')"
  shows "act_ok k'"
proof -
  let ?k = "upd_sema (Lock_Sema l) (\<lambda>x. x\<lparr>s_value := s_value x - 1\<rparr>) k"
  have "act_ok ?k"
    by (rule same_act [OF assms(1)]) (simp_all add: upd_sema_def st_def fun_eq_iff)
  then have "act_ok (push_frames [Set_Holder l] ?k)"
    using assms(2) by (intro push_act) (simp_all add: upd_sema_def)
  then show ?thesis
    using assms(1,3) lock_held [OF assms(1), of l]
    by (auto simp: lock_try_acquire_def sema_try_down_def ASSERT_def split: if_splits)
qed

lemma lock_release_ok:
  assumes "act_ok k" "Idle_Loop \<notin> set (frames k (running k))" "lock_release l k = Some k'"
  shows "act_ok k'"
proof -
  have "act_ok (k\<lparr>holder := (holder k)(l := None)\<rparr>)"
    by (rule same_act [OF assms(1)]) (simp_all add: st_def fun_eq_iff)
  then have "act_ok (push_frames [Call_Sema_Up (Lock_Sema l)] (k\<lparr>holder := (holder k)(l := None)\<rparr>))"
    using assms(2) by (intro push_act) simp_all
  then show ?thesis
    using assms(3) lock_held [OF assms(1), of l] by (auto simp: lock_release_def ASSERT_def split: if_splits)
qed

text \<open>No thread waits for the semaphore on the stack of the running thread.\<close>

lemma own_waiter_free:
  assumes "sched_ok k"
  shows "waiters (semas k (Waiter (running k))) = []"
proof (rule ccontr)
  let ?s = "Waiter (running k)"
  assume "waiters (semas k ?s) \<noteq> []"
  then obtain u where "u \<in> set (waiters (semas k ?s))"
    by (cases "waiters (semas k ?s)") auto
  then have u: "st k u = Some THREAD_BLOCKED" "in_loop ?s (frames k u)"
    using queuesD(6) [OF sched_okD(2) [OF assms], of u ?s] by simp_all
  then obtain b fs where f: "frames k u = Sema_Down_Loop ?s b # fs"
    by (cases "(?s, frames k u)" rule: in_loop.cases) auto
  have "\<forall>f \<in> set (frames k u). own_frame u f"
    using sched_okD(1) [OF assms] by (simp add: base_ok_def frames_ok_def)
  then have "running k = u"
    using f by simp
  then show False
    using u(1) sched_okD(3) [OF assms] by simp
qed

lemma cond_wait_ok:
  assumes "act_ok k" "Idle_Loop \<notin> set (frames k (running k))" "cond_wait c l k = Some k'"
  shows "act_ok k'"
proof -
  define k1 where "k1 = (sema_init (Waiter (running k)) 0 k)\<lparr>cond_waiters := (cond_waiters k)(c := cond_waiters k c @ [running k])\<rparr>"
  define k2 where "k2 = push_frames [Call_Sema_Down (Waiter (running k)), Call_Lock_Acquire l] k1"
  have free: "waiters (semas k (Waiter (running k))) = []"
    using own_waiter_free assms(1) by (simp add: act_ok_def)
  have k1: "act_ok k1"
    by (rule same_act [OF assms(1)]) (simp_all add: k1_def sema_init_def upd_sema_def st_def fun_eq_iff free)
  have run: "running k1 = running k" "frames k1 = frames k" "running k2 = running k"
    by (simp_all add: k1_def k2_def sema_init_def upd_sema_def push_frames_def)
  have "act_ok k2"
    unfolding k2_def using assms(2) run by (intro push_act [OF k1]) simp_all
  moreover have "Idle_Loop \<notin> set (frames k2 (running k2))"
    using assms(2) run by (simp add: k2_def push_frames_def)
  moreover have "lock_release l k2 = Some k'"
    using assms(3) lock_held [OF assms(1), of l]
    by (auto simp: cond_wait_def Let_def ASSERT_def k2_def k1_def sema_init_def upd_sema_def split: if_splits)
  ultimately show ?thesis
    using lock_release_ok by blast
qed

lemma cond_signal_ok:
  assumes "act_ok k" "cond_signal c l k = Some k'"
  shows "act_ok k'"
proof (cases "cond_waiters k c")
  case Nil
  then show ?thesis
    using assms lock_held [OF assms(1), of l] by (auto simp: cond_signal_def ASSERT_def split: if_splits)
next
  case (Cons w ws)
  have "act_ok (k\<lparr>cond_waiters := (cond_waiters k)(c := ws)\<rparr>)"
    by (rule same_act [OF assms(1)]) (simp_all add: st_def fun_eq_iff)
  then show ?thesis
    using sema_up_ok [of "k\<lparr>cond_waiters := (cond_waiters k)(c := ws)\<rparr>" "Waiter w"] assms(2) Cons lock_held [OF assms(1), of l]
    by (auto simp: cond_signal_def ASSERT_def split: if_splits)
qed

lemma cond_broadcast_ok:
  assumes "act_ok k" "Idle_Loop \<notin> set (frames k (running k))" "cond_broadcast c l k = Some k'"
  shows "act_ok k'"
proof -
  have "act_ok (push_frames [Call_Cond_Broadcast c l] k)"
    using assms(2) by (intro push_act [OF assms(1)]) simp_all
  then show ?thesis
    using assms(1,3) cond_signal_ok by (auto simp: cond_broadcast_def split: if_splits)
qed

text \<open>Leaving the processor by yielding or exiting.\<close>

lemma thread_yield_ok:
  assumes "act_ok k"
  shows "\<exists>n k1 k'. thread_yield k = Some k' \<and> off_ok k1 \<and> switched n k1 k' \<and> sched_ok k' \<and> next_runner k1 = Some n
    \<and> frames k1 = frames (push_frames [Set_Level (intr_on k)] k) \<and> semas k1 = semas k \<and> holder k1 = holder k
    \<and> st k1 = (st k)(running k := Some THREAD_READY)
    \<and> ready_list k1 = ready_list k @ (if idle_thread k \<noteq> Some (running k) then [running k] else [])"
proof -
  have k: "sched_ok k" "\<forall>f \<in> set (frames k (running k)). \<not> is_loop f"
    using assms by (simp_all add: act_ok_def)
  define k1 where "k1 = set_status (running k) THREAD_READY ((push_frames [Set_Level (intr_on k)] k)\<lparr>intr_on := False,
    ready_list := ready_list k @ (if idle_thread k \<noteq> Some (running k) then [running k] else [])\<rparr>)"
  have st1: "st k1 = (st k)(running k := Some THREAD_READY)"
    using sched_okD(3) [OF k(1)] by (auto simp: k1_def set_status_def upd_thread_def push_frames_def st_def fun_eq_iff)
  have f1: "frames k1 = (frames k)(running k := [Set_Level (intr_on k)] @ frames k (running k))" "idle_thread k1 = idle_thread k"
      "running k1 = running k" "all_list k1 = all_list k" "\<not> intr_on k1" "semas k1 = semas k" "holder k1 = holder k"
      "ready_list k1 = ready_list k @ (if idle_thread k \<noteq> Some (running k) then [running k] else [])"
    by (simp_all add: k1_def set_status_def upd_thread_def push_frames_def)
  have r: "retop (running k) [] [Set_Level (intr_on k)] (frames k (running k)) THREAD_READY k k1"
    using k(2) sched_okD(3) [OF k(1)] st1 f1(1,2) by (simp add: retop_def)
  have off: "off_ok k1"
    by (rule retop_off [OF k(1) r f1(3,5)]) (simp_all add: f1)
  have "thread_yield k = schedule k1"
    using act_current [OF assms] by (simp add: thread_yield_def k1_def Let_def push_frames_def)
  moreover obtain n k' where "schedule k1 = Some k'" "switched n k1 k'" "sched_ok k'" "next_runner k1 = Some n"
    using schedule_ok [OF off] .
  moreover have "frames k1 = frames (push_frames [Set_Level (intr_on k)] k)"
    by (simp add: f1 push_frames_def)
  ultimately show ?thesis
    using off st1 f1(6-8) by (intro exI [of _ n] exI [of _ k1] exI [of _ k']) simp
qed

lemma thread_exit_ok:
  assumes "sched_ok k" "frames k (running k) = []"
  shows "\<exists>k'. thread_exit_kernel k = Some k' \<and> sched_ok k'"
proof -
  define k1 where "k1 = set_status (running k) THREAD_DYING (k\<lparr>intr_on := False, all_list := remove1 (running k) (all_list k)\<rparr>)"
  have st1: "st k1 = (st k)(running k := Some THREAD_DYING)"
    using sched_okD(3) [OF assms(1)] by (auto simp: k1_def set_status_def upd_thread_def st_def fun_eq_iff)
  have f1: "frames k1 = frames k" "idle_thread k1 = idle_thread k" "running k1 = running k" "\<not> intr_on k1" "semas k1 = semas k"
      "ready_list k1 = ready_list k" "all_list k1 = remove1 (running k) (all_list k)"
    by (simp_all add: k1_def set_status_def upd_thread_def)
  have r: "retop (running k) [] [] [] THREAD_DYING k k1"
    using assms(2) sched_okD(3) [OF assms(1)] st1 f1(1,2) by (simp add: retop_def fun_upd_idem)
  have "off_ok k1"
    by (rule retop_off [OF assms(1) r f1(3,4)]) (simp_all add: f1)
  then obtain n k' where "schedule k1 = Some k'" "sched_ok k'"
    using schedule_ok by metis
  moreover have "thread_exit_kernel k = schedule k1"
    using sched_okD(7) [OF assms(1)] by (simp add: thread_exit_kernel_def k1_def)
  ultimately show ?thesis
    by simp
qed

subsection \<open>The idle thread\<close>

lemma creates_transfer:
  assumes "creates_ok k" "\<And>u. creates (frames k1 u) = creates (frames k u)"
    and "\<And>t. st k t = Some THREAD_BLOCKED \<Longrightarrow> idle_thread k \<noteq> Some t \<Longrightarrow>
      st k1 t = Some THREAD_BLOCKED \<and> frames k1 t = frames k t \<and> idle_thread k1 \<noteq> Some t"
  shows "creates_ok k1"
proof -
  have "st k1 t = Some THREAD_BLOCKED \<and> idle_thread k1 \<noteq> Some t \<and> hd (frames k1 t) = Kernel_Thread"
    if "t \<in> set (creates (frames k u))" for t u
  proof -
    have "st k t = Some THREAD_BLOCKED" "idle_thread k \<noteq> Some t" "hd (frames k t) = Kernel_Thread"
      using assms(1) that unfolding creates_ok_def by blast+
    then show ?thesis
      using assms(3) [of t] by simp
  qed
  then show ?thesis
    using assms(1) unfolding creates_ok_def assms(2) by blast
qed

lemma blocked_transfer:
  assumes "blocked_ok k" "\<And>u. creates (frames k1 u) = creates (frames k u)"
    and "\<And>t. st k1 t = Some THREAD_BLOCKED \<Longrightarrow> idle_thread k1 \<noteq> Some t \<Longrightarrow>
      st k t = Some THREAD_BLOCKED \<and> frames k1 t = frames k t \<and> idle_thread k \<noteq> Some t"
  shows "blocked_ok k1"
proof -
  have "idle_thread k1 = Some t \<or> (\<exists>s. in_loop s (frames k1 t)) \<or> (\<exists>u. t \<in> set (creates (frames k u)))"
    if "st k1 t = Some THREAD_BLOCKED" for t
    using assms(1) assms(3) [OF that] unfolding blocked_ok_def by (cases "idle_thread k1 = Some t") auto
  then show ?thesis
    unfolding blocked_ok_def assms(2) by blast
qed

lemma running_idle:
  assumes "sched_ok k" "Idle_Loop \<in> set (frames k (running k))"
  shows "\<forall>f \<in> set (frames k (running k)). idle_frame f"
    "\<forall>t. t \<noteq> running k \<longrightarrow> (\<forall>s. Idle_Start s \<notin> set (frames k t)) \<and> Idle_Loop \<notin> set (frames k t)"
    "idle_thread k = Some (running k) \<and> (\<forall>s. Idle_Start s \<notin> set (frames k (running k)))
     \<or> idle_thread k = None \<and> (\<exists>pre s. frames k (running k) = pre @ [Idle_Start s, Idle_Loop] \<and> (\<forall>f \<in> set pre. plain f))"
proof -
  obtain i where i: "\<forall>f \<in> set (frames k i). idle_frame f"
      "\<forall>t. t \<noteq> i \<longrightarrow> (\<forall>s. Idle_Start s \<notin> set (frames k t)) \<and> Idle_Loop \<notin> set (frames k t)"
      "idle_thread k = Some i \<and> (\<forall>s. Idle_Start s \<notin> set (frames k i))
       \<or> idle_thread k = None \<and> (st k i = Some THREAD_READY \<or> st k i = Some THREAD_RUNNING)
         \<and> (\<exists>pre s. frames k i = pre @ [Idle_Start s, Idle_Loop] \<and> (\<forall>f \<in> set pre. plain f))"
    using sched_okD(1) [OF assms(1)] unfolding base_ok_def idle_ok_def by (elim exE conjE) (rule that; assumption)
  have "i = running k"
    using i(2) assms(2) by auto
  then show "\<forall>f \<in> set (frames k (running k)). idle_frame f"
    "\<forall>t. t \<noteq> running k \<longrightarrow> (\<forall>s. Idle_Start s \<notin> set (frames k t)) \<and> Idle_Loop \<notin> set (frames k t)"
    "idle_thread k = Some (running k) \<and> (\<forall>s. Idle_Start s \<notin> set (frames k (running k)))
     \<or> idle_thread k = None \<and> (\<exists>pre s. frames k (running k) = pre @ [Idle_Start s, Idle_Loop] \<and> (\<forall>f \<in> set pre. plain f))"
    using i by auto
qed

lemma idle_start_running:
  assumes "sched_ok k" "Idle_Start s \<in> set (frames k t)"
  shows "Idle_Loop \<in> set (frames k t)"
proof -
  have "idle_ok k"
    using sched_okD(1) [OF assms(1)] by (simp add: base_ok_def)
  then obtain i where "Idle_Loop \<in> set (frames k i)" "\<forall>t. t \<noteq> i \<longrightarrow> (\<forall>s. Idle_Start s \<notin> set (frames k t)) \<and> Idle_Loop \<notin> set (frames k t)"
    unfolding idle_ok_def by (elim exE conjE) (rule that; assumption)
  then show ?thesis
    using assms(2) by (cases "t = i") auto
qed

lemma idle_block_off:
  assumes "sched_ok k" "frames k (running k) = Idle_Loop # fs"
  shows "off_ok (set_status (running k) THREAD_BLOCKED
    (k\<lparr>intr_on := False, frames := (frames k)(running k := Idle_Halt # Idle_Loop # fs)\<rparr>))" (is "off_ok ?k1")
proof -
  note I = running_idle [OF assms(1)]
  have base: "queues_ok k" "frames_ok k" "creates_ok k" "blocked_ok k" "idle_ok k"
    using sched_okD(1) [OF assms(1)] by (simp_all add: base_ok_def)
  have idle: "idle_thread k = Some (running k)" "\<forall>s. Idle_Start s \<notin> set (frames k (running k))"
    using I(3) assms(2) by (auto simp: Cons_eq_append_conv)
  have st1: "st ?k1 = (st k)(running k := Some THREAD_BLOCKED)"
    using sched_okD(3) [OF assms(1)] by (auto simp: set_status_def upd_thread_def st_def fun_eq_iff)
  have f1: "frames ?k1 = (frames k)(running k := Idle_Halt # Idle_Loop # fs)" "idle_thread ?k1 = idle_thread k"
      "running ?k1 = running k" "ready_list ?k1 = ready_list k" "all_list ?k1 = all_list k" "semas ?k1 = semas k" "\<not> intr_on ?k1"
    by (simp_all add: set_status_def upd_thread_def)
  have cr: "creates (frames ?k1 u) = creates (frames k u)" for u
    using assms(2) f1(1) by simp
  have "queues_ok ?k1"
    by (rule restatus_queues [OF sched_okD(3) [OF assms(1)] st1 f1(1,2) base(1)]) (simp_all add: f1)
  moreover have "frames_ok ?k1"
    using base(2) frames_loop_top [OF assms] I(1) assms(2) unfolding frames_ok_def f1(1) st1 by auto
  moreover have "creates_ok ?k1"
    by (rule creates_transfer [OF base(3) cr]) (use st1 f1(1,2) sched_okD(3) [OF assms(1)] in auto)
  moreover have "blocked_ok ?k1"
    by (rule blocked_transfer [OF base(4) cr]) (use st1 f1(1,2) idle(1) in \<open>auto split: if_splits\<close>)
  moreover have "idle_ok ?k1"
    unfolding idle_ok_def using I(1,2) idle assms(2) st1 f1(1,2) by (intro exI [of _ "running k"]) auto
  moreover have "st ?k1 t \<noteq> Some THREAD_RUNNING" for t
    using st1 sched_okD(5) [OF assms(1), of t] by auto
  ultimately show ?thesis
    using st1 f1(3,7) by (simp add: off_ok_def base_ok_def)
qed

lemma idle_start_act:
  assumes "sched_ok k" "frames k (running k) = Idle_Start s # fs"
  shows "act_ok (k\<lparr>frames := (frames k)(running k := fs), idle_thread := Some (running k)\<rparr>)" (is "act_ok ?k1")
proof -
  have loop: "Idle_Loop \<in> set (frames k (running k))"
    using idle_start_running [OF assms(1), of s "running k"] assms(2) by simp
  note I = running_idle [OF assms(1) loop]
  have fs: "fs = [Idle_Loop]" and none: "idle_thread k = None"
    using I(3) assms(2) by (auto simp: Cons_eq_append_conv)
  have base: "queues_ok k" "frames_ok k" "creates_ok k" "blocked_ok k" "idle_ok k"
    using sched_okD(1) [OF assms(1)] by (simp_all add: base_ok_def)
  have run: "st k (running k) = Some THREAD_RUNNING"
    by (rule sched_okD(3) [OF assms(1)])
  have st1: "st ?k1 = st k"
    by (simp add: st_def fun_eq_iff)
  have cr: "creates (frames ?k1 u) = creates (frames k u)" for u
    using assms(2) fs by simp
  have "queues_ok ?k1"
  proof (rule queuesI)
    show "t \<in> set (ready_list ?k1) \<longleftrightarrow> st ?k1 t = Some THREAD_READY \<and> idle_thread ?k1 \<noteq> Some t" for t
      using queuesD(5) [OF base(1), of t] none run st1 by auto
    show "t \<in> set (waiters (semas ?k1 s)) \<longleftrightarrow> st ?k1 t = Some THREAD_BLOCKED \<and> in_loop s (frames ?k1 t)" for s t
      using queuesD(6) [OF base(1), of t s] run st1 by (cases "t = running k") auto
  qed (use base(1) st1 in \<open>simp_all add: queues_ok_def\<close>)
  moreover have "frames_ok ?k1"
    using base(2) fs run unfolding frames_ok_def st1 by auto
  moreover have "creates_ok ?k1"
    by (rule creates_transfer [OF base(3) cr]) (use st1 run in auto)
  moreover have "blocked_ok ?k1"
    by (rule blocked_transfer [OF base(4) cr]) (use st1 run none in auto)
  moreover have "idle_ok ?k1"
    unfolding idle_ok_def using I(2) run fs st1 by (intro exI [of _ "running k"]) auto
  ultimately have "base_ok ?k1"
    by (simp add: base_ok_def)
  then have "sched_ok ?k1"
    using assms(1) fs st1 by (simp add: sched_ok_def)
  then show ?thesis
    using fs by (simp add: act_ok_def)
qed

subsection \<open>Creating threads\<close>

lemma create_unblock_act:
  assumes "sched_ok k" "frames k (running k) = Create_Unblock u # fs"
  shows "\<exists>k'. create_unblock u (k\<lparr>frames := (frames k)(running k := fs)\<rparr>) = Some k' \<and> act_ok k'"
proof -
  have base: "queues_ok k" "frames_ok k" "creates_ok k" "blocked_ok k" "idle_ok k"
    using sched_okD(1) [OF assms(1)] by (simp_all add: base_ok_def)
  have run: "st k (running k) = Some THREAD_RUNNING"
    by (rule sched_okD(3) [OF assms(1)])
  have "u \<in> set (creates (frames k (running k)))"
    using assms(2) by simp
  then have u: "st k u = Some THREAD_BLOCKED" "idle_thread k \<noteq> Some u" "hd (frames k u) = Kernel_Thread"
    using base(3) unfolding creates_ok_def by blast+
  then obtain th where th: "threads k u = Some th" "status th = THREAD_BLOCKED"
    by (auto simp: st_def)
  define k1 where "k1 = k\<lparr>frames := (frames k)(running k := fs),
    threads := (threads k)(u \<mapsto> th\<lparr>stack := stack th - 12 - 4 - 28, status := THREAD_READY\<rparr>), ready_list := ready_list k @ [u]\<rparr>"
  have eq: "create_unblock u (k\<lparr>frames := (frames k)(running k := fs)\<rparr>) = Some k1"
    using th by (simp add: create_unblock_def alloc_frame_def is_thread_def ASSERT_def upd_thread_def thread_unblock_def
        set_status_def k1_def)
  have st1: "st k1 = (st k)(u := Some THREAD_READY)"
    by (simp add: k1_def st_def fun_eq_iff)
  have f1: "frames k1 = (frames k)(running k := fs)" "idle_thread k1 = idle_thread k" "running k1 = running k"
      "ready_list k1 = ready_list k @ [u]" "all_list k1 = all_list k" "semas k1 = semas k" "thread_ticks k1 = thread_ticks k"
    by (simp_all add: k1_def)
  have ne: "u \<noteq> running k"
    using u(1) run by auto
  have not_waiting: "u \<notin> set (waiters (semas k s))" for s
    using queuesD(6) [OF base(1), of u s] u(3) by (cases "frames k u") auto
  have loops: "\<forall>f \<in> set fs. \<not> is_loop f"
    by (rule frames_loop_top [OF assms])
  have gone: "set (creates fs) = set (creates (frames k (running k))) - {u}" "distinct (creates fs)" "u \<notin> set (creates fs)"
    using base(3) assms(2) unfolding creates_ok_def by (metis Diff_insert_absorb creates.simps(2) distinct.simps(2) list.simps(15))+
  have other: "u \<notin> set (creates (frames k v))" if "v \<noteq> running k" for v
    using base(3) assms(2) that unfolding creates_ok_def by (metis creates.simps(2) list.set_intros(1))
  have "queues_ok k1"
    by (rule unblock_queues [OF base(1) u(1,2) run st1])
      (use not_waiting in \<open>auto simp: f1 intro!: filter_True [symmetric]\<close>)
  moreover have "frames_ok k1"
  proof -
    have "\<forall>f \<in> set fs. own_frame (running k) f"
      using base(2) assms(2) unfolding frames_ok_def by (metis list.set_intros(2))
    then show ?thesis
      using base(2) run u(1) tl_no_loop [OF loops] unfolding frames_ok_def f1 st1 by auto
  qed
  moreover have "creates_ok k1"
  proof -
    have sub: "t \<in> set (creates (frames k1 v)) \<longleftrightarrow> t \<in> set (creates (frames k v)) \<and> t \<noteq> u" for t v
      using gone other [of v] by (auto simp: f1)
    have "st k1 t = Some THREAD_BLOCKED \<and> idle_thread k1 \<noteq> Some t \<and> hd (frames k1 t) = Kernel_Thread"
      if "t \<in> set (creates (frames k v))" "t \<noteq> u" for t v
    proof -
      have "st k t = Some THREAD_BLOCKED" "idle_thread k \<noteq> Some t" "hd (frames k t) = Kernel_Thread"
        using base(3) that(1) unfolding creates_ok_def by blast+
      then show ?thesis
        using that(2) run by (auto simp: st1 f1)
    qed
    moreover have "distinct (creates (frames k1 v))" for v
      using base(3) gone(2) unfolding creates_ok_def by (simp add: f1)
    ultimately show ?thesis
      using base(3) unfolding creates_ok_def sub by blast
  qed
  moreover have "blocked_ok k1"
  proof -
    have "idle_thread k = Some t \<or> (\<exists>s. in_loop s (frames k1 t)) \<or> (\<exists>v. t \<in> set (creates (frames k1 v)))"
      if "st k1 t = Some THREAD_BLOCKED" for t
    proof -
      have t: "st k t = Some THREAD_BLOCKED" "t \<noteq> u" "t \<noteq> running k"
        using that run st1 u(1) ne by (auto split: if_splits)
      have "t \<in> set (creates (frames k v)) \<Longrightarrow> t \<in> set (creates (frames k1 v))" for v
        using gone(1) t(2) by (auto simp: f1)
      then show ?thesis
        using base(4) t unfolding blocked_ok_def by (metis f1(1) fun_upd_other)
    qed
    then show ?thesis
      by (simp add: blocked_ok_def f1(2))
  qed
  moreover have "idle_ok k1"
  proof (rule unblock_idle [where u = u])
    have "Idle_Loop \<notin> set (frames k (running k))"
      using running_idle(1) [OF assms(1)] assms(2) by auto
    then show "idle_ok (k\<lparr>frames := (frames k)(running k := fs)\<rparr>)"
      using idle_start_running [OF assms(1), of _ "running k"] assms(2)
      by (intro idle_other [OF base(5), of "running k"]) (auto simp: st_def)
  qed (use st1 f1 th(1) in \<open>simp_all add: st_def fun_eq_iff\<close>)
  ultimately have "base_ok k1"
    by (simp add: base_ok_def)
  moreover have "st k1 t = Some THREAD_RUNNING \<longleftrightarrow> t = running k" for t
    using st1 run sched_okD(5) [OF assms(1), of t] ne by (auto split: if_splits)
  ultimately have "sched_ok k1"
    using assms(1) not_in_loop [OF loops] by (simp add: sched_ok_def f1)
  then show ?thesis
    using eq loops by (simp add: act_ok_def f1)
qed

text \<open>The state in which \<^verbatim>\<open>thread_create\<close> calls \<^verbatim>\<open>allocate_tid\<close>.\<close>

lemma create_act:
  assumes "sched_ok k" "frames k (running k) = []" "threads k t = None" "init_thread t name pri k = Some k0"
  shows "act_ok (push_frames [Create_Tid t, Call_Lock_Release tid_lock, Create_Unblock t]
    (k0\<lparr>frames := (frames k0)(t := [Kernel_Thread])\<rparr>))" (is "act_ok ?k1")
proof -
  let ?new = "[Create_Tid t, Call_Lock_Release tid_lock, Create_Unblock t]"
  have base: "queues_ok k" "frames_ok k" "creates_ok k" "blocked_ok k" "idle_ok k"
    using sched_okD(1) [OF assms(1)] by (simp_all add: base_ok_def)
  have run: "st k (running k) = Some THREAD_RUNNING" and none: "st k t = None" and ne: "t \<noteq> running k"
    using sched_okD(3) [OF assms(1)] assms(3) by (auto simp: st_def)
  have st1: "st ?k1 = (st k)(t := Some THREAD_BLOCKED)"
    using assms(4) by (auto simp: init_thread_def ASSERT_def push_frames_def st_def fun_eq_iff split: if_splits)
  have f1: "frames ?k1 = (frames k)(t := [Kernel_Thread], running k := ?new)" "idle_thread ?k1 = idle_thread k"
      "running ?k1 = running k" "ready_list ?k1 = ready_list k" "all_list ?k1 = all_list k @ [t]" "semas ?k1 = semas k"
      "thread_ticks ?k1 = thread_ticks k" "intr_on ?k1 = intr_on k"
    using assms(2,4) ne by (auto simp: init_thread_def ASSERT_def push_frames_def split: if_splits)
  have no_frames: "frames k t = []"
    using base(2) none by (simp add: frames_ok_def)
  have cr: "creates (frames ?k1 u) = (if u = running k then [t] else creates (frames k u))" for u
    using f1(1) no_frames ne by auto
  have uncreated: "t \<notin> set (creates (frames k u))" "creates (frames k (running k)) = []" for u
    using base(3) none assms(2) unfolding creates_ok_def by fastforce+
  have idle: "idle_thread k \<noteq> Some t"
    using idle_thread_frames(2) [OF base(5)] none by auto
  have "queues_ok ?k1"
  proof (rule queuesI)
    show "finite {u. st ?k1 u \<noteq> None}"
      by (rule finite_subset [of _ "insert t {u. st k u \<noteq> None}"]) (use queuesD(1) [OF base(1)] st1 in auto)
    show "u \<in> set (ready_list ?k1) \<longleftrightarrow> st ?k1 u = Some THREAD_READY \<and> idle_thread ?k1 \<noteq> Some u" for u
      using queuesD(5) [OF base(1), of u] none st1 f1 by auto
    show "u \<in> set (waiters (semas ?k1 s)) \<longleftrightarrow> st ?k1 u = Some THREAD_BLOCKED \<and> in_loop s (frames ?k1 u)" for s u
      using queuesD(6) [OF base(1), of u s] none run st1 f1 by auto
    show "u \<in> set (all_list ?k1) \<longleftrightarrow> st ?k1 u \<noteq> None \<and> st ?k1 u \<noteq> Some THREAD_DYING" for u
      using queuesD(7) [OF base(1), of u] st1 f1 by auto
    show "distinct (all_list ?k1)" "distinct (ready_list ?k1)" "distinct (waiters (semas ?k1 s))" for s
      using queuesD(2-4) [OF base(1)] queuesD(7) [OF base(1), of t] none f1 by simp_all
  qed
  moreover have "frames_ok ?k1"
    using base(2) run unfolding frames_ok_def f1(1) st1 by auto
  moreover have "creates_ok ?k1"
  proof -
    have "st ?k1 u = Some THREAD_BLOCKED \<and> idle_thread ?k1 \<noteq> Some u \<and> hd (frames ?k1 u) = Kernel_Thread"
      if "u \<in> set (creates (frames k v))" for u v
    proof -
      have "st k u = Some THREAD_BLOCKED" "idle_thread k \<noteq> Some u" "hd (frames k u) = Kernel_Thread"
        using base(3) that unfolding creates_ok_def by blast+
      then show ?thesis
        using run none by (auto simp: st1 f1(1,2))
    qed
    moreover have "st ?k1 t = Some THREAD_BLOCKED \<and> idle_thread ?k1 \<noteq> Some t \<and> hd (frames ?k1 t) = Kernel_Thread"
      using st1 f1(1,2) idle ne by simp
    ultimately have "st ?k1 u = Some THREAD_BLOCKED \<and> idle_thread ?k1 \<noteq> Some u \<and> hd (frames ?k1 u) = Kernel_Thread"
      if "u \<in> set (creates (frames ?k1 v))" for u v
      using that unfolding cr by (cases "v = running k") auto
    moreover have "distinct (creates (frames ?k1 u))" for u
      using base(3) unfolding creates_ok_def cr by simp
    moreover have "u = v" if "x \<in> set (creates (frames ?k1 u))" "x \<in> set (creates (frames ?k1 v))" for u v x
      using base(3) that uncreated(1) [of u] uncreated(1) [of v] unfolding creates_ok_def cr
      by (cases "u = running k"; cases "v = running k") auto
    ultimately show ?thesis
      unfolding creates_ok_def by blast
  qed
  moreover have "blocked_ok ?k1"
  proof -
    have "idle_thread k = Some u \<or> (\<exists>s. in_loop s (frames ?k1 u)) \<or> (\<exists>v. u \<in> set (creates (frames ?k1 v)))"
      if "st ?k1 u = Some THREAD_BLOCKED" for u
    proof (cases "u = t")
      case True
      then show ?thesis
        using cr [of "running k"] by (metis list.set_intros(1))
    next
      case False
      then have "st k u = Some THREAD_BLOCKED" "u \<noteq> running k"
        using that run st1 by auto
      moreover have "v \<noteq> running k" if "u \<in> set (creates (frames k v))" for v
        using that uncreated(2) by auto
      ultimately show ?thesis
        using base(4) False cr f1(1) unfolding blocked_ok_def by (metis fun_upd_other)
    qed
    then show ?thesis
      by (simp add: blocked_ok_def f1(2))
  qed
  moreover have "idle_ok ?k1"
  proof -
    let ?k0 = "?k1\<lparr>frames := (frames k)(t := [Kernel_Thread])\<rparr>"
    have "idle_ok ?k0"
      by (rule idle_other [OF base(5), of t]) (use no_frames st1 f1(2) in \<open>simp_all add: st_def fun_eq_iff\<close>)
    then show ?thesis
      by (rule idle_other [of _ "running k"]) (use assms(2) ne f1(1,2) in \<open>simp_all add: st_def\<close>)
  qed
  ultimately have "base_ok ?k1"
    by (simp add: base_ok_def)
  moreover have "st ?k1 u = Some THREAD_RUNNING \<longleftrightarrow> u = running k" for u
    using st1 run sched_okD(5) [OF assms(1), of u] ne by auto
  ultimately have "sched_ok ?k1"
    using assms(1) ne by (simp add: sched_ok_def f1)
  then show ?thesis
    using ne by (simp add: act_ok_def f1)
qed

subsection \<open>Every transition keeps the invariant\<close>

lemma idle_no_frame: "sched_ok k \<Longrightarrow> f \<in> set (frames k (running k)) \<Longrightarrow> \<not> idle_frame f \<Longrightarrow> Idle_Loop \<notin> set (frames k (running k))"
  using running_idle(1) by blast

lemma resume_plain_ok:
  assumes "act_ok k" "\<not> idle_frame f \<Longrightarrow> Idle_Loop \<notin> set (frames k (running k))" "own_frame (running k) f"
    and "plain f" "\<not> is_loop f" "resume_frame f k = Some k'"
  shows "sched_ok k'"
proof -
  have same: "act_ok (k\<lparr>intr_on := b\<rparr>)" "act_ok (k\<lparr>holder := h\<rparr>)" "act_ok (allocate_tid t k)" for b h t
    by (rule same_act [OF assms(1)]; auto simp: allocate_tid_def upd_thread_def st_def fun_eq_iff option.map_comp comp_def; fail)+
  show ?thesis
  proof (cases f)
    case (Call_Sema_Down s)
    then have "\<And>w. s = Waiter w \<Longrightarrow> w = running k"
      using assms(3) by auto
    then show ?thesis
      using Call_Sema_Down assms(1,2,6) sema_down_ok [of k s] by (auto simp: resume_frame_def)
  next
    case (Call_Sema_Up s)
    then show ?thesis
      using assms(1,6) sema_up_ok [of k s] by (auto simp: resume_frame_def act_ok_def)
  next
    case (Call_Lock_Acquire l)
    then have "holder k l \<noteq> Some (running k)"
      using assms(6) lock_held [OF assms(1), of l] by (auto simp: resume_frame_def lock_acquire_def ASSERT_def split: if_splits)
    then show ?thesis
      using Call_Lock_Acquire assms(1,2,6) lock_acquire_ok [of k l] by (auto simp: resume_frame_def)
  next
    case (Call_Lock_Release l)
    then show ?thesis
      using assms(1,2,6) lock_release_ok [of k l k'] by (simp add: resume_frame_def act_ok_def)
  next
    case (Call_Cond_Broadcast c l)
    then show ?thesis
      using assms(1,2,6) cond_broadcast_ok [of k c l k'] by (simp add: resume_frame_def act_ok_def)
  next
    case (Set_Holder l)
    then show ?thesis
      using assms(6) same(2) act_current [OF assms(1)] by (auto simp: resume_frame_def act_ok_def)
  qed (use assms(4-6) same in \<open>auto simp: resume_frame_def act_ok_def\<close>)
qed

lemma resume_ok:
  assumes "sched_ok k" "resume k = Some k'"
  shows "sched_ok k'"
proof -
  obtain f fs where f: "frames k (running k) = f # fs"
      "resume_frame f (k\<lparr>frames := (frames k)(running k := fs)\<rparr>) = Some k'" (is "resume_frame f ?k = _")
    using assms(2) by (auto simp: resume_def split: list.splits)
  have own: "own_frame (running k) f"
    using sched_okD(1) [OF assms(1)] f(1) unfolding base_ok_def frames_ok_def by (metis list.set_intros(1))
  have not_idle: "Idle_Loop \<notin> set fs" if "\<not> idle_frame f"
    using idle_no_frame [OF assms(1), of f] that f(1) by simp
  consider (loop) s b where "f = Sema_Down_Loop s b" | (create) t where "f = Create_Unblock t" | (start) s where "f = Idle_Start s"
    | (idle) "f = Idle_Loop" | (plain) "plain f" "\<not> is_loop f"
    by (cases f) auto
  then show ?thesis
  proof cases
    case loop
    then have in_l: "in_loop s (frames k (running k))"
      using f(1) by simp
    have "act_ok ?k"
      using pop_act [OF assms(1) f(1)] loop by simp
    moreover have "\<And>w. s = Waiter w \<Longrightarrow> w = running k" "\<not> intr_on k"
      using own loop sched_okD(6) [OF assms(1)] in_l by auto
    ultimately show ?thesis
      using sema_down_loop_ok [of ?k s b] f(2) loop not_idle by (auto simp: resume_frame_def)
  next
    case create
    then show ?thesis
      using create_unblock_act [OF assms(1), of t fs] f by (auto simp: resume_frame_def act_ok_def)
  next
    case start
    have "act_ok (?k\<lparr>idle_thread := Some (running k)\<rparr>)"
      using idle_start_act [OF assms(1)] f(1) start by simp
    moreover have "thread_current ?k = Some (running k)"
      using sched_okD(7) [OF assms(1)] by (simp add: thread_current_def)
    ultimately show ?thesis
      using sema_up_ok [of "?k\<lparr>idle_thread := Some (running k)\<rparr>" s] f(2) start by (auto simp: resume_frame_def act_ok_def)
  next
    case idle
    let ?b = "k\<lparr>intr_on := False, frames := (frames k)(running k := Idle_Halt # Idle_Loop # fs)\<rparr>"
    have "thread_block ?b = schedule (set_status (running k) THREAD_BLOCKED ?b)"
      using thread_block_schedule [OF assms(1), of ?b] by (simp add: st_def fun_eq_iff)
    then have "schedule (set_status (running k) THREAD_BLOCKED ?b) = Some k'"
      using f(2) idle by (simp add: resume_frame_def push_frames_def)
    moreover obtain n k2 where "schedule (set_status (running k) THREAD_BLOCKED ?b) = Some k2" "sched_ok k2"
      using schedule_ok [OF idle_block_off [OF assms(1)]] f(1) idle by metis
    ultimately show ?thesis
      by simp
  next
    case plain
    show ?thesis
      using resume_plain_ok [OF pop_act [OF assms(1) f(1) plain(1)] _ _ plain f(2)] own not_idle by simp
  qed
qed

lemma intr_handler_ok:
  assumes "sched_ok k" "intr_on k"
  shows "\<exists>k'. intr_handler k = Some k' \<and> sched_ok k'"
proof -
  have "\<forall>f \<in> set (frames k (running k)). \<not> is_loop f"
  proof (cases "frames k (running k)")
    case (Cons f fs)
    then show ?thesis
      using frames_loop_top [OF assms(1) Cons] sched_okD(6) [OF assms] by (cases f) auto
  qed simp
  then have k: "act_ok k"
    using assms(1) by (simp add: act_ok_def)
  define k0 where "k0 = (push_frames [Intr_Return] k)\<lparr>intr_on := False\<rparr>"
  have "act_ok (push_frames [Intr_Return] k)"
    by (rule push_act [OF k]) simp_all
  then have k0: "act_ok k0"
    unfolding k0_def by (rule same_act) (simp_all add: st_def fun_eq_iff)
  obtain b k1 where k1: "timer_interrupt k0 = Some (b, k1)" "b \<longleftrightarrow> thread_ticks k0 + 1 \<ge> TIME_SLICE" "thread_ticks k1 = thread_ticks k0 + 1"
      "st k1 = st k0" "frames k1 = frames k0" "running k1 = running k0" "idle_thread k1 = idle_thread k0"
      "ready_list k1 = ready_list k0" "all_list k1 = all_list k0" "semas k1 = semas k0" "intr_on k1 = intr_on k0"
    using act_current [OF k0] sched_okD(3) [of k0] k0
    by (auto simp: timer_interrupt_def thread_tick_def thread_current_def act_ok_def st_def fun_eq_iff Let_def)
  have eq: "intr_handler k = (if b then thread_yield k1 else Some k1)"
    using k1(1) by (simp add: intr_handler_def k0_def)
  have "act_ok k1"
    by (rule same_act [OF k0]) (use k1 in \<open>simp_all add: st_def fun_eq_iff\<close>)
  then show ?thesis
    using eq thread_yield_ok [of k1] by (cases b) (auto simp: act_ok_def)
qed

lemma call_act: "sched_ok k \<Longrightarrow> frames k (running k) = [] \<Longrightarrow> act_ok k"
  by (simp add: act_ok_def)

lemma create_ok:
  assumes "sched_ok k" "frames k (running k) = []" "threads k t = None" "thread_create (Some t) name pri [] k = Some (b, k')"
  shows "sched_ok k'"
proof -
  let ?push = "\<lambda>k0. push_frames [Create_Tid t, Call_Lock_Release tid_lock, Create_Unblock t] (k0\<lparr>frames := (frames k0)(t := [Kernel_Thread])\<rparr>)"
  obtain k0 where k0: "init_thread t name pri k = Some k0" "lock_acquire tid_lock (?push k0) = Some k'"
    using assms(4) by (auto simp: thread_create_def bind_eq_Some_conv)
  have a: "act_ok (?push k0)"
    by (rule create_act [OF assms(1-3) k0(1)])
  have "running (?push k0) = running k" "frames k0 = frames k" "t \<noteq> running k"
    using k0(1) assms(3) sched_okD(3) [OF assms(1)] by (auto simp: init_thread_def push_frames_def ASSERT_def st_def split: if_splits)
  then have "Idle_Loop \<notin> set (frames (?push k0) (running (?push k0)))"
    using assms(2) k0(1) by (auto simp: push_frames_def init_thread_def ASSERT_def split: if_splits)
  moreover have "holder (?push k0) tid_lock \<noteq> Some (running (?push k0))"
    using k0(2) lock_held [OF a, of tid_lock] by (auto simp: lock_acquire_def ASSERT_def split: if_splits)
  ultimately show ?thesis
    using lock_acquire_ok [OF a, of tid_lock] k0(2) by auto
qed

lemma do_call_ok:
  assumes "sched_ok k" "frames k (running k) = []" "do_call c k = Some k'"
  shows "sched_ok k'"
proof -
  have a: "act_ok k" and n: "Idle_Loop \<notin> set (frames k (running k))"
    using call_act assms by simp_all
  show ?thesis
  proof (cases c)
    case (Init m v)
    then have "act_ok k'"
      using assms(3) by (intro same_act [OF a]) (auto simp: sema_init_def upd_sema_def st_def fun_eq_iff split: if_splits)
    then show ?thesis
      by (simp add: act_ok_def)
  next
    case (Try_Down m)
    then have "act_ok k'"
      using assms(3) by (intro same_act [OF a]) (auto simp: sema_try_down_def upd_sema_def st_def fun_eq_iff)
    then show ?thesis
      by (simp add: act_ok_def)
  next
    case (Acquire l)
    then have "holder k l \<noteq> Some (running k)"
      using assms(3) lock_held [OF a, of l] by (auto simp: lock_acquire_def ASSERT_def split: if_splits)
    then show ?thesis
      using Acquire assms(3) lock_acquire_ok [OF a n, of l] by auto
  next
    case (Set_Priority p)
    then have "act_ok k'"
      using assms(3) act_current [OF a]
      by (intro same_act [OF a]) (auto simp: thread_set_priority_def upd_thread_def st_def fun_eq_iff option.map_comp comp_def)
    then show ?thesis
      by (simp add: act_ok_def)
  next
    case (Create t name pri)
    then show ?thesis
      using assms create_ok [of k t name pri] by (auto split: if_splits)
  next
    case Yield
    then show ?thesis
      using assms(3) thread_yield_ok [OF a] by auto
  next
    case (Down m)
    then show ?thesis
      using assms(3) sema_down_ok [OF a n, of "Sema m"] by auto
  next
    case (Up m)
    then show ?thesis
      using assms(3) sema_up_ok [OF a, of "Sema m"] by (auto simp: act_ok_def)
  next
    case (Try_Acquire l)
    then show ?thesis
      using assms(3) lock_try_acquire_ok [OF a n, of l] by (auto simp: act_ok_def)
  next
    case (Release l)
    then show ?thesis
      using assms(3) lock_release_ok [OF a n, of l k'] by (simp add: act_ok_def)
  next
    case (Wait d l)
    then show ?thesis
      using assms(3) cond_wait_ok [OF a n, of d l k'] by (simp add: act_ok_def)
  next
    case (Signal d l)
    then show ?thesis
      using assms(3) cond_signal_ok [OF a, of d l k'] by (simp add: act_ok_def)
  next
    case (Broadcast d l)
    then show ?thesis
      using assms(3) cond_broadcast_ok [OF a n, of d l k'] by (simp add: act_ok_def)
  next
    case Exit
    then show ?thesis
      using assms(3) thread_exit_ok [OF assms(1,2)] by auto
  qed
qed

lemma step_ok: "step k k' \<Longrightarrow> sched_ok k \<Longrightarrow> sched_ok k'"
proof (induction rule: step.induct)
  case (tick k k')
  then show ?case
    using intr_handler_ok [of k] by auto
qed (use resume_ok do_call_ok in blast)+

lemmas boot_simps = boot_def thread_init_def thread_start_def thread_create_def init_thread_def lock_init_def sema_init_def
  upd_sema_def upd_thread_def set_status_def push_frames_def lock_acquire_def lock_release_def lock_held_by_current_thread_def
  thread_current_def sema_down_def sema_down_loop_def sema_up_def resume_def resume_frame_def allocate_tid_def create_unblock_def
  alloc_frame_def is_thread_def thread_unblock_def ASSERT_def Let_def PRI_MIN_def PRI_MAX_def PRI_DEFAULT_def PGSIZE_def

lemma boot_state:
  assumes "m \<noteq> i"
  shows "\<exists>k. boot m i = Some k \<and> running k = m \<and> idle_thread k = None \<and> ready_list k = [i] \<and> all_list k = [m, i] \<and> \<not> intr_on k
    \<and> thread_ticks k = 0 \<and> st k = (\<lambda>_. None)(m \<mapsto> THREAD_RUNNING, i \<mapsto> THREAD_READY)
    \<and> frames k = (\<lambda>_. [])(m := [Set_Level True, Call_Sema_Down idle_started], i := [Kernel_Thread, Idle_Start idle_started, Idle_Loop])
    \<and> (\<forall>s. waiters (semas k s) = [] \<and> s_value (semas k s) = (case s of Lock_Sema _ \<Rightarrow> 1 | _ \<Rightarrow> 0)) \<and> holder k = (\<lambda>_. None)"
  using assms assms [symmetric] by (simp add: boot_simps st_def fun_eq_iff split: sema_ref.split)

lemma boot_ok:
  assumes "boot m i = Some k" "m \<noteq> i"
  shows "sched_ok k"
proof -
  have b: "running k = m" "idle_thread k = None" "ready_list k = [i]" "all_list k = [m, i]" "\<not> intr_on k"
      "st k = (\<lambda>_. None)(m \<mapsto> THREAD_RUNNING, i \<mapsto> THREAD_READY)"
      "frames k = (\<lambda>_. [])(m := [Set_Level True, Call_Sema_Down idle_started], i := [Kernel_Thread, Idle_Start idle_started, Idle_Loop])"
      "\<And>s. waiters (semas k s) = []"
    using boot_state [OF assms(2)] assms(1) by auto
  have "{t. st k t \<noteq> None} = {m, i}"
    by (auto simp: b(6))
  then have "queues_ok k"
    using assms(2) by (auto simp: queues_ok_def b)
  moreover have "frames_ok k" "creates_ok k" "blocked_ok k"
    using assms(2) by (auto simp: frames_ok_def creates_ok_def blocked_ok_def b)
  moreover have "idle_ok k"
    unfolding idle_ok_def using assms(2) by (intro exI [of _ i]) (auto simp: b intro!: exI [of _ "[Kernel_Thread]"])
  ultimately show ?thesis
    using assms(2) by (auto simp: sched_ok_def base_ok_def b)
qed

lemma reachable_ok: "reachable k \<Longrightarrow> sched_ok k"
  by (induction rule: reachable.induct) (use boot_ok step_ok in blast)+

end
