(* ===== verification/Sched_Props.thy ===== *)
theory Sched_Props
  imports Sched
begin

text \<open>
  What the threads of the kernel may rely on: a lock has at most one owner, a semaphore does
  not forget to wake a thread, and a thread that is ready gets the processor in turn. The
  first two depend only on the frames of the threads and on the semaphores, which a switch
  of threads leaves alone.
\<close>

subsection \<open>What a switch leaves alone\<close>

text \<open>\<open>same_sync\<close> with the fields that the tail of a switch leaves alone too.\<close>

definition same_run :: "kernel \<Rightarrow> kernel \<Rightarrow> bool" where
  "same_run k k' \<longleftrightarrow> same_sync k k' \<and> running k' = running k \<and> ready_list k' = ready_list k \<and> thread_ticks k' = thread_ticks k"

lemma process_activate_same:
  assumes "process_activate k = Some k'"
  shows "same_run k k'"
proof -
  obtain p e where "k' = k\<lparr>active_pagedir := p, esp0 := e\<rparr>"
    using assms unfolding process_activate_def bind_eq_Some_conv by blast
  then show ?thesis
    by (simp add: same_run_def same_sync_def)
qed

lemma schedule_tail_same:
  assumes "thread_schedule_tail prev k = Some k'"
  shows "same_sync k k' \<and> running k' = running k \<and> ready_list k' = ready_list k \<and> thread_ticks k' = 0"
proof -
  let ?k = "(set_status (running k) THREAD_RUNNING k)\<lparr>thread_ticks := 0\<rparr>"
  obtain k1 where k1: "process_activate ?k = Some k1"
      "(case prev of None \<Rightarrow> Some k1 | Some p \<Rightarrow> do {
         pt \<leftarrow> threads k1 p;
         if status pt = THREAD_DYING \<and> p \<noteq> initial_thread k1 then do {
           ASSERT (p \<noteq> running k);
           Some (k1\<lparr>threads := (threads k1)(p := None)\<rparr>) }
         else Some k1 }) = Some k'"
    using assms unfolding thread_schedule_tail_def Let_def bind_eq_Some_conv by blast
  have "k' = k1 \<or> (\<exists>p. k' = k1\<lparr>threads := (threads k1)(p := None)\<rparr>)"
    using k1(2) by (cases prev) (auto simp: bind_eq_Some_conv split: if_splits)
  then have "same_run k1 k'"
    by (auto simp: same_run_def same_sync_def)
  then show ?thesis
    using process_activate_same [OF k1(1)] by (simp add: same_run_def same_sync_def set_status_def upd_thread_def)
qed

lemma schedule_same:
  assumes "schedule k = Some k'"
  shows "same_sync k k' \<and> thread_ticks k' = 0 \<and> (ready_list k \<noteq> [] \<longrightarrow> ready_list k = running k' # ready_list k')"
proof -
  obtain nxt k0 where k0: "next_thread_to_run k = (nxt, k0)"
    by (cases "next_thread_to_run k")
  then obtain n where n: "nxt = Some n" "thread_schedule_tail (if running k \<noteq> n then Some (running k) else None) (k0\<lparr>running := n\<rparr>) = Some k'"
    using assms unfolding schedule_def Let_def k0 prod.case bind_eq_Some_conv by blast
  have "same_sync k k0" "ready_list k \<noteq> [] \<longrightarrow> ready_list k = n # ready_list k0"
    using k0 n(1) by (auto simp: next_thread_to_run_def same_sync_def split: list.splits)
  then show ?thesis
    using schedule_tail_same [OF n(2)] by (simp add: same_sync_def)
qed

lemma thread_block_same: "thread_block k = Some k' \<Longrightarrow>
    same_sync k k' \<and> thread_ticks k' = 0 \<and> (ready_list k \<noteq> [] \<longrightarrow> ready_list k = running k' # ready_list k')"
  using schedule_same [of "set_status (running k) THREAD_BLOCKED k" k']
  by (auto simp: thread_block_def thread_current_def bind_eq_Some_conv same_sync_def set_status_def upd_thread_def)

subsection \<open>Locks\<close>

text \<open>A thread that has taken the semaphore of a lock and has still to note itself as the
  holder, or that has given up the lock and has still to raise the semaphore, counts as one.
  A thread that waits for the semaphore has the note among its frames but does not count.\<close>

fun token :: "nat \<Rightarrow> frame \<Rightarrow> int" where
  "token l (Set_Holder l') = (if l' = l then 1 else 0)"
| "token l (Call_Sema_Up s) = (if s = Lock_Sema l then 1 else 0)"
| "token l (Sema_Down_Loop s b) = (if s = Lock_Sema l then -1 else 0)"
| "token l f = 0"

definition tokens :: "nat \<Rightarrow> frame list \<Rightarrow> int" where
  "tokens l fs = sum_list (map (token l) fs)"

definition total :: "nat \<Rightarrow> (thread_ptr \<Rightarrow> frame list) \<Rightarrow> int" where
  "total l fr = (\<Sum>t \<in> UNIV. tokens l (fr t))"

definition balance :: "nat \<Rightarrow> kernel \<Rightarrow> int" where
  "balance l k = total l (frames k) + (if holder k l = None then 0 else 1)
    + int (unat (s_value (semas k (Lock_Sema l))))"

text \<open>The semaphore of a lock is used by the lock operations only.\<close>

fun lock_frames :: "frame list \<Rightarrow> bool" where
  "lock_frames [] = True"
| "lock_frames (Sema_Down_Loop (Lock_Sema l) b # fs) = (lock_frames fs \<and> fs \<noteq> [] \<and> hd fs = Set_Holder l)"
| "lock_frames (Call_Sema_Down (Lock_Sema l) # fs) = False"
| "lock_frames (Idle_Start (Lock_Sema l) # fs) = False"
| "lock_frames (f # fs) = lock_frames fs"

definition lock_ok :: "kernel \<Rightarrow> bool" where
  "lock_ok k \<longleftrightarrow> (\<forall>t. lock_frames (frames k t)) \<and> (\<forall>l. balance l k = 1)"

lemma tokens_simps [simp]: "tokens l [] = 0" "tokens l (f # fs) = token l f + tokens l fs" "tokens l (fs @ gs) = tokens l fs + tokens l gs"
  by (simp_all add: tokens_def)

lemma lock_frames_tl: "lock_frames (f # fs) \<Longrightarrow> lock_frames fs"
  by (cases "f # fs" rule: lock_frames.cases) auto

lemma tokens_nonneg: "lock_frames fs \<Longrightarrow> 0 \<le> tokens l fs"
proof (induction fs rule: length_induct)
  case (1 fs)
  show ?case
  proof (cases fs)
    case (Cons f gs)
    have gs: "0 \<le> tokens l gs"
      using 1 Cons lock_frames_tl [of f gs] by simp
    show ?thesis
    proof (cases "token l f < 0")
      case True
      then obtain b where f: "f = Sema_Down_Loop (Lock_Sema l) b"
        by (cases f) (auto split: if_splits)
      then obtain hs where hs: "gs = Set_Holder l # hs" "lock_frames hs"
        using 1(2) Cons by (cases gs) auto
      then show ?thesis
        using 1 Cons f by simp
    qed (use gs Cons in simp)
  qed simp
qed

lemma total_upd: "total l (fr(r := fs)) = total l fr - tokens l (fr r) + tokens l fs"
proof -
  have "total l (fr(r := fs)) = tokens l fs + (\<Sum>t \<in> UNIV - {r}. tokens l (fr t))"
    unfolding total_def by (subst sum.remove [of UNIV r]) (auto intro!: sum.cong)
  moreover have "total l fr = tokens l (fr r) + (\<Sum>t \<in> UNIV - {r}. tokens l (fr t))"
    unfolding total_def by (subst sum.remove [of UNIV r]) auto
  ultimately show ?thesis
    by simp
qed

lemma total_ge: "(\<And>t. lock_frames (fr t)) \<Longrightarrow> tokens l (fr r) \<le> total l fr"
  unfolding total_def by (rule member_le_sum) (auto simp: tokens_nonneg)

lemma balance_same: "same_sync k k' \<Longrightarrow> balance l k' = balance l k"
  by (simp add: balance_def same_sync_def)

lemma balance_push: "balance l (push_frames fs k) = balance l k + tokens l fs"
  by (simp add: balance_def push_frames_def total_upd)

lemma balance_pop: "frames k (running k) = f # fs \<Longrightarrow> balance l (k\<lparr>frames := (frames k)(running k := fs)\<rparr>) = balance l k - token l f"
  by (simp add: balance_def total_upd)

text \<open>The operations and the balance.\<close>

lemma sema_down_loop_cases:
  assumes "sema_down_loop s b k = Some k'"
  shows "s_value (semas k s) = 0 \<and> thread_block (push_frames [Sema_Down_Loop s b]
      (upd_sema s (\<lambda>x. x\<lparr>waiters := waiters x @ [running k]\<rparr>) k)) = Some k'
    \<or> s_value (semas k s) \<noteq> 0 \<and> k' = (upd_sema s (\<lambda>x. x\<lparr>s_value := s_value x - 1\<rparr>) k)\<lparr>intr_on := b\<rparr>"
proof (cases "s_value (semas k s) = 0")
  case True
  then obtain t where "thread_current k = Some t" "thread_block (push_frames [Sema_Down_Loop s b]
      (upd_sema s (\<lambda>x. x\<lparr>waiters := waiters x @ [t]\<rparr>) k)) = Some k'"
    using assms by (auto simp: sema_down_loop_def bind_eq_Some_conv)
  moreover have "t = running k"
    using calculation(1) by (auto simp: thread_current_def bind_eq_Some_conv)
  ultimately show ?thesis
    using True by simp
qed (use assms in \<open>simp add: sema_down_loop_def\<close>)

lemma uint_minus_one: "(x :: uint32_t) \<noteq> 0 \<Longrightarrow> uint (x - 1) = uint x - 1"
proof -
  assume "x \<noteq> 0"
  then have "unat (x - 1) = unat x - 1" "unat x > 0"
    by (simp_all add: unat_minus_one unat_gt_0)
  then have "int (unat (x - 1)) = int (unat x) - 1"
    by linarith
  then show ?thesis
    by simp
qed

lemma sema_down_loop_balance:
  assumes "sema_down_loop s b k = Some k'"
  shows "balance l k' = balance l k - (if s = Lock_Sema l then 1 else 0)"
  using sema_down_loop_cases [OF assms]
proof
  assume v: "s_value (semas k s) = 0 \<and> thread_block (push_frames [Sema_Down_Loop s b]
      (upd_sema s (\<lambda>x. x\<lparr>waiters := waiters x @ [running k]\<rparr>) k)) = Some k'"
  have "balance l (upd_sema s (\<lambda>x. x\<lparr>waiters := waiters x @ [running k]\<rparr>) k) = balance l k"
    by (simp add: balance_def upd_sema_def)
  moreover have "balance l k' = balance l (push_frames [Sema_Down_Loop s b] (upd_sema s (\<lambda>x. x\<lparr>waiters := waiters x @ [running k]\<rparr>) k))"
    using balance_same thread_block_same v by blast
  ultimately show ?thesis
    by (simp add: balance_push)
next
  assume "s_value (semas k s) \<noteq> 0 \<and> k' = (upd_sema s (\<lambda>x. x\<lparr>s_value := s_value x - 1\<rparr>) k)\<lparr>intr_on := b\<rparr>"
  then show ?thesis
    by (auto simp: balance_def upd_sema_def uint_minus_one)
qed

lemma sema_down_loop_frames:
  assumes "sema_down_loop s b k = Some k'"
  shows "frames k' = frames k \<or> frames k' = (frames k)(running k := Sema_Down_Loop s b # frames k (running k))"
    "holder k' = holder k"
proof -
  have "same_sync (push_frames [Sema_Down_Loop s b] (upd_sema s (\<lambda>x. x\<lparr>waiters := waiters x @ [running k]\<rparr>) k)) k'
    \<or> k' = (upd_sema s (\<lambda>x. x\<lparr>s_value := s_value x - 1\<rparr>) k)\<lparr>intr_on := b\<rparr>"
    using sema_down_loop_cases [OF assms] thread_block_same by blast
  then show "frames k' = frames k \<or> frames k' = (frames k)(running k := Sema_Down_Loop s b # frames k (running k))" "holder k' = holder k"
    by (auto simp: same_sync_def push_frames_def upd_sema_def)
qed

lemma sema_up_cases:
  assumes "sema_up s k = Some k'"
  shows "frames k' = frames k \<and> holder k' = holder k \<and> running k' = running k \<and> thread_ticks k' = thread_ticks k
    \<and> ready_list k' = ready_list k @ take 1 (waiters (semas k s))
    \<and> semas k' = (semas k)(s := \<lparr>s_value = s_value (semas k s) + 1, waiters = tl (waiters (semas k s))\<rparr>)"
  using assms by (cases "waiters (semas k s)")
    (auto simp: sema_up_def thread_unblock_def upd_sema_def set_status_def upd_thread_def bind_eq_Some_conv fun_eq_iff)

lemma unat_plus_one: "unat (x :: uint32_t) = 0 \<Longrightarrow> unat (x + 1) = 1"
  by (simp add: unat_eq_zero)

lemma sema_up_balance:
  assumes "sema_up s k = Some k'" "s = Lock_Sema l \<Longrightarrow> s_value (semas k s) = 0"
  shows "balance l k' = balance l k + (if s = Lock_Sema l then 1 else 0)"
  using sema_up_cases [OF assms(1)] assms(2) by (auto simp: balance_def)

lemma lock_acquire_cases:
  assumes "lock_acquire l k = Some k'"
  shows "sema_down (Lock_Sema l) (push_frames [Set_Holder l] k) = Some k'" "holder k l \<noteq> Some (running k)"
  using assms by (auto simp: lock_acquire_def lock_held_by_current_thread_def thread_current_def bind_eq_Some_conv ASSERT_def split: if_splits)

lemma lock_release_cases:
  assumes "lock_release l k = Some k'"
  shows "k' = push_frames [Call_Sema_Up (Lock_Sema l)] (k\<lparr>holder := (holder k)(l := None)\<rparr>)" "holder k l = Some (running k)"
  using assms by (auto simp: lock_release_def lock_held_by_current_thread_def thread_current_def bind_eq_Some_conv ASSERT_def split: if_splits)

lemma sema_down_intr: "balance l (k\<lparr>intr_on := b\<rparr>) = balance l k"
  by (simp add: balance_def)

lemma sema_down_balance: "sema_down s k = Some k' \<Longrightarrow> balance l k' = balance l k - (if s = Lock_Sema l then 1 else 0)"
  unfolding sema_down_def using sema_down_loop_balance sema_down_intr by metis

lemma lock_acquire_balance: "lock_acquire l k = Some k' \<Longrightarrow> balance l' k' = balance l' k"
  using sema_down_balance [OF lock_acquire_cases(1), of l k k' l'] by (simp add: balance_push)

lemma lock_release_balance: "lock_release l k = Some k' \<Longrightarrow> balance l' k' = balance l' k"
  using lock_release_cases [of l k k'] by (auto simp: balance_push balance_def total_upd push_frames_def)

lemma lock_okI: "(\<And>t. lock_frames (frames k t)) \<Longrightarrow> (\<And>l. balance l k = 1) \<Longrightarrow> lock_ok k"
  by (simp add: lock_ok_def)

lemma lock_okD: "lock_ok k \<Longrightarrow> lock_frames (frames k t)" "lock_ok k \<Longrightarrow> balance l k = 1"
  by (simp_all add: lock_ok_def)

lemma lock_ok_same: "same_sync k k' \<Longrightarrow> lock_ok k' = lock_ok k"
  using balance_same [of k k'] by (simp add: lock_ok_def same_sync_def)

text \<open>While a thread counts as an owner, the lock has no holder and its semaphore is zero.\<close>

lemma top_token:
  assumes "lock_ok k" "tokens l (frames k t) \<ge> 1"
  shows "holder k l = None" "s_value (semas k (Lock_Sema l)) = 0"
proof -
  have "1 \<le> total l (frames k)"
    using total_ge [of "frames k" l t] lock_okD(1) [OF assms(1)] assms(2) by simp
  define v where "v = uint (s_value (semas k (Lock_Sema l)))"
  have "0 \<le> v" "total l (frames k) + (if holder k l = None then 0 else 1) + v = 1"
    using lock_okD(2) [OF assms(1), of l] by (simp_all add: balance_def v_def)
  then have "holder k l = None \<and> v = 0"
    using \<open>1 \<le> total l (frames k)\<close> by (cases "holder k l = None") simp_all
  then show "holder k l = None" "s_value (semas k (Lock_Sema l)) = 0"
    by (simp_all add: v_def uint_0_iff)
qed

lemma lock_frames_upd: "(\<And>t. lock_frames (fr t)) \<Longrightarrow> lock_frames fs \<Longrightarrow> lock_frames ((fr(r := fs)) t)"
  by simp

lemma sema_down_lock_frames:
  assumes "sema_down s k = Some k'" "\<And>t. lock_frames (frames k t)"
    and "\<And>l. s = Lock_Sema l \<Longrightarrow> \<exists>gs. frames k (running k) = Set_Holder l # gs"
  shows "lock_frames (frames k' t)"
proof -
  have "lock_frames (Sema_Down_Loop s (intr_on k) # frames k (running k))"
    using assms(2) [of "running k"] assms(3) by (cases s) auto
  then show ?thesis
    using sema_down_loop_frames(1) [of s "intr_on k" "k\<lparr>intr_on := False\<rparr>" k'] assms(1,2) by (auto simp: sema_down_def)
qed

lemma lock_acquire_lock_frames:
  assumes "lock_acquire l k = Some k'" "\<And>t. lock_frames (frames k t)"
  shows "lock_frames (frames k' t)"
  by (rule sema_down_lock_frames [OF lock_acquire_cases(1) [OF assms(1)]])
    (use assms(2) in \<open>auto simp: push_frames_def\<close>)

definition same_locks :: "kernel \<Rightarrow> kernel \<Rightarrow> bool" where
  "same_locks k k' \<longleftrightarrow> frames k' = frames k \<and> holder k' = holder k \<and> (\<forall>l. semas k' (Lock_Sema l) = semas k (Lock_Sema l))"

lemma same_locks_ok: "same_locks k k' \<Longrightarrow> lock_ok k' = lock_ok k"
  by (simp add: same_locks_def lock_ok_def balance_def)

lemma sema_up_lock:
  assumes "sema_up s k = Some k'" "\<And>l. s \<noteq> Lock_Sema l"
  shows "lock_ok k' = lock_ok k"
  using sema_up_cases [OF assms(1)] sema_up_balance [OF assms(1)] assms(2) by (simp add: lock_ok_def)

lemma push_lock:
  assumes "lock_ok k" "\<And>l. tokens l fs = 0" "lock_frames (fs @ frames k (running k))"
  shows "lock_ok (push_frames fs k)"
  using assms balance_push [of _ fs k] by (simp add: lock_ok_def) (simp add: push_frames_def)

lemma cond_signal_lock:
  assumes "cond_signal c l k = Some k'"
  shows "lock_ok k' = lock_ok k"
proof (cases "cond_waiters k c")
  case Nil
  then show ?thesis
    using assms by (auto simp: cond_signal_def bind_eq_Some_conv)
next
  case (Cons w ws)
  then have "sema_up (Waiter w) (k\<lparr>cond_waiters := (cond_waiters k)(c := ws)\<rparr>) = Some k'"
    using assms by (auto simp: cond_signal_def bind_eq_Some_conv)
  then show ?thesis
    using sema_up_lock [of "Waiter w" _ k'] same_locks_ok [of k "k\<lparr>cond_waiters := (cond_waiters k)(c := ws)\<rparr>"]
    by (simp add: same_locks_def)
qed

lemma cond_broadcast_lock: "cond_broadcast c l k = Some k' \<Longrightarrow> lock_ok k \<Longrightarrow> lock_ok k'"
  using cond_signal_lock [of c l "push_frames [Call_Cond_Broadcast c l] k" k'] push_lock [of k "[Call_Cond_Broadcast c l]"]
    lock_okD(1) [of k "running k"] by (simp add: cond_broadcast_def split: if_splits)

text \<open>A frame taken off the stack and run.\<close>

lemma resume_lock:
  assumes "lock_ok k" "resume k = Some k'"
  shows "lock_ok k'"
proof -
  obtain f fs where f: "frames k (running k) = f # fs"
      "resume_frame f (k\<lparr>frames := (frames k)(running k := fs)\<rparr>) = Some k'" (is "resume_frame f ?k = _")
    using assms(2) by (auto simp: resume_def split: list.splits)
  have top: "lock_frames (f # fs)" and fs: "lock_frames fs"
    using lock_okD(1) [OF assms(1), of "running k"] f(1) lock_frames_tl by auto
  have fr: "lock_frames (frames ?k t)" for t
    using lock_okD(1) [OF assms(1)] fs by simp
  have bal: "balance l ?k = 1 - token l f" for l
    using balance_pop [OF f(1)] lock_okD(2) [OF assms(1)] by simp
  have one: "token l f = 1 \<Longrightarrow> holder k l = None \<and> s_value (semas k (Lock_Sema l)) = 0" for l
    using top_token [OF assms(1), of l "running k"] f(1) tokens_nonneg [OF fs, of l] by simp
  have run: "running ?k = running k" "frames ?k (running k) = fs" "semas ?k = semas k" "holder ?k = holder k"
    by simp_all
  show ?thesis
  proof (cases f)
    case (Sema_Down_Loop s b)
    then have r: "sema_down_loop s b ?k = Some k'"
      using f(2) by (simp add: resume_frame_def)
    have "lock_frames (frames k' t)" for t
      using sema_down_loop_frames(1) [OF r] fs top Sema_Down_Loop lock_okD(1) [OF assms(1)] by auto
    then show ?thesis
      using sema_down_loop_balance [OF r] bal Sema_Down_Loop by (intro lock_okI) auto
  next
    case (Set_Holder l)
    then have k': "k' = ?k\<lparr>holder := (holder k)(l \<mapsto> running k)\<rparr>"
      using f(2) by (auto simp: resume_frame_def thread_current_def bind_eq_Some_conv)
    have "balance l' k' = balance l' ?k + (if l' = l then 1 else 0)" for l'
      using one [of l] Set_Holder by (simp add: k' balance_def)
    then show ?thesis
      using fr bal Set_Holder by (intro lock_okI) (auto simp: k')
  next
    case (Call_Sema_Up s)
    then have r: "sema_up s ?k = Some k'"
      using f(2) by (simp add: resume_frame_def)
    have "balance l k' = balance l ?k + (if s = Lock_Sema l then 1 else 0)" for l
      by (rule sema_up_balance [OF r]) (use one [of l] Call_Sema_Up in simp)
    then show ?thesis
      using fr bal Call_Sema_Up sema_up_cases [OF r] by (intro lock_okI) auto
  next
    case (Call_Sema_Down s)
    then have r: "sema_down s ?k = Some k'" and s: "\<And>l. s \<noteq> Lock_Sema l"
      using f(2) top by (auto simp: resume_frame_def)
    show ?thesis
      using sema_down_lock_frames [OF r fr] s sema_down_balance [OF r] bal Call_Sema_Down by (intro lock_okI) auto
  next
    case (Call_Lock_Acquire l)
    then have r: "lock_acquire l ?k = Some k'"
      using f(2) by (simp add: resume_frame_def)
    show ?thesis
      using lock_acquire_lock_frames [OF r fr] lock_acquire_balance [OF r] bal Call_Lock_Acquire by (intro lock_okI) simp_all
  next
    case (Call_Lock_Release l)
    then have r: "lock_release l ?k = Some k'"
      using f(2) by (simp add: resume_frame_def)
    have "lock_frames (frames k' t)" for t
      using lock_release_cases(1) [OF r] lock_okD(1) [OF assms(1)] by (simp add: push_frames_def fs)
    then show ?thesis
      using lock_release_balance [OF r] bal Call_Lock_Release by (intro lock_okI) simp_all
  next
    case (Call_Cond_Broadcast c l)
    then show ?thesis
      using cond_broadcast_lock [of c l ?k k'] fr bal f(2) by (simp add: resume_frame_def lock_ok_def)
  next
    case (Idle_Start s)
    then obtain k0 where k0: "sema_up s k0 = Some k'" "same_locks ?k k0"
      using f(2) by (auto simp: resume_frame_def bind_eq_Some_conv same_locks_def)
    have s: "s \<noteq> Lock_Sema l" for l
      using top Idle_Start by (cases s) auto
    show ?thesis
      using sema_up_lock [OF k0(1) s] same_locks_ok [OF k0(2)] fr bal Idle_Start by (simp add: lock_ok_def)
  next
    case Idle_Loop
    then have "thread_block (push_frames [Idle_Halt, Idle_Loop] (?k\<lparr>intr_on := False\<rparr>)) = Some k'"
      using f(2) by (simp add: resume_frame_def)
    then have "same_sync (push_frames [Idle_Halt, Idle_Loop] (?k\<lparr>intr_on := False\<rparr>)) k'"
      using thread_block_same by blast
    moreover have "lock_ok (?k\<lparr>intr_on := False\<rparr>)"
      using fr bal Idle_Loop same_locks_ok [of ?k "?k\<lparr>intr_on := False\<rparr>"] by (simp add: lock_ok_def same_locks_def)
    then have "lock_ok (push_frames [Idle_Halt, Idle_Loop] (?k\<lparr>intr_on := False\<rparr>))"
      by (rule push_lock) (simp_all add: fs)
    ultimately show ?thesis
      using lock_ok_same by blast
  next
    case (Create_Unblock t)
    then have "same_locks ?k k'"
      using f(2) by (auto simp: resume_frame_def create_unblock_def alloc_frame_def thread_unblock_def set_status_def
          upd_thread_def bind_eq_Some_conv same_locks_def)
    then show ?thesis
      using same_locks_ok fr bal Create_Unblock by (simp add: lock_ok_def)
  qed (use f(2) fr bal same_locks_ok [of ?k k'] in
      \<open>auto simp: resume_frame_def same_locks_def allocate_tid_def upd_thread_def lock_ok_def\<close>)
qed

lemma thread_yield_same:
  assumes "thread_yield k = Some k'"
  shows "\<exists>k1. same_sync k1 k' \<and> thread_ticks k' = 0 \<and> (ready_list k1 \<noteq> [] \<longrightarrow> ready_list k1 = running k' # ready_list k')
    \<and> frames k1 = frames (push_frames [Set_Level (intr_on k)] k) \<and> holder k1 = holder k \<and> semas k1 = semas k
    \<and> ready_list k1 = ready_list k @ (if idle_thread k \<noteq> Some (running k) then [running k] else [])"
proof -
  define k1 where "k1 = set_status (running k) THREAD_READY ((push_frames [Set_Level (intr_on k)] k)\<lparr>intr_on := False,
    ready_list := ready_list k @ (if idle_thread k \<noteq> Some (running k) then [running k] else [])\<rparr>)"
  have "schedule k1 = Some k'"
    using assms by (auto simp: thread_yield_def thread_current_def bind_eq_Some_conv Let_def k1_def push_frames_def split: if_splits)
  then show ?thesis
    using schedule_same by (intro exI [of _ k1]) (auto simp: k1_def set_status_def upd_thread_def push_frames_def)
qed

lemma yield_lock: "thread_yield k = Some k' \<Longrightarrow> lock_ok k \<Longrightarrow> lock_ok k'"
proof -
  assume a: "thread_yield k = Some k'" "lock_ok k"
  obtain k1 where k1: "same_sync k1 k'" and f: "frames k1 = frames (push_frames [Set_Level (intr_on k)] k)" "holder k1 = holder k" "semas k1 = semas k"
    using thread_yield_same [OF a(1)] by blast
  have k2: "same_locks (push_frames [Set_Level (intr_on k)] k) k1"
    by (simp add: same_locks_def f) (simp add: push_frames_def)
  have "lock_ok (push_frames [Set_Level (intr_on k)] k)"
    by (rule push_lock [OF a(2)]) (simp_all add: lock_okD(1) [OF a(2)])
  then show "lock_ok k'"
    using lock_ok_same [OF k1] same_locks_ok [OF k2] by simp
qed

lemma timer_interrupt_fields:
  assumes "timer_interrupt k = Some (b, k1)"
  shows "b \<longleftrightarrow> thread_ticks k1 \<ge> TIME_SLICE" "frames k1 = frames k" "holder k1 = holder k" "semas k1 = semas k" "running k1 = running k"
    "ready_list k1 = ready_list k" "idle_thread k1 = idle_thread k" "thread_ticks k1 = thread_ticks k + 1"
proof -
  define up where "up = (\<lambda>c d k. if c then k\<lparr>idle_ticks := idle_ticks k + 1\<rparr>
    else if d then k\<lparr>user_ticks := user_ticks k + 1\<rparr> else (k :: kernel)\<lparr>kernel_ticks := kernel_ticks k + 1\<rparr>)"
  have up: "frames (up c d k) = frames k" "holder (up c d k) = holder k" "semas (up c d k) = semas k" "running (up c d k) = running k"
    "ready_list (up c d k) = ready_list k" "idle_thread (up c d k) = idle_thread k" "thread_ticks (up c d k) = thread_ticks k" for c d k
    by (simp_all add: up_def)
  obtain t th where "thread_current (k\<lparr>ticks := ticks k + 1\<rparr>) = Some t" "threads k t = Some th"
    using assms by (auto simp: timer_interrupt_def thread_tick_def bind_eq_Some_conv)
  then have "(let k2 = up (idle_thread k = Some t) (pagedir th \<noteq> None) (k\<lparr>ticks := ticks k + 1\<rparr>);
      k3 = k2\<lparr>thread_ticks := thread_ticks k2 + 1\<rparr> in (thread_ticks k3 \<ge> TIME_SLICE, k3)) = (b, k1)"
    using assms by (simp add: timer_interrupt_def thread_tick_def up_def Let_def cong: if_cong)
  then have "b \<longleftrightarrow> thread_ticks k + 1 \<ge> TIME_SLICE"
      "k1 = (up (idle_thread k = Some t) (pagedir th \<noteq> None) (k\<lparr>ticks := ticks k + 1\<rparr>))\<lparr>thread_ticks := thread_ticks k + 1\<rparr>"
    by (auto simp: Let_def up)
  then show "b \<longleftrightarrow> thread_ticks k1 \<ge> TIME_SLICE" "frames k1 = frames k" "holder k1 = holder k" "semas k1 = semas k" "running k1 = running k"
    "ready_list k1 = ready_list k" "idle_thread k1 = idle_thread k" "thread_ticks k1 = thread_ticks k + 1"
    by (simp_all add: up)
qed

lemma intr_handler_cases:
  assumes "intr_handler k = Some k'"
  shows "\<exists>k1. frames k1 = frames (push_frames [Intr_Return] k) \<and> holder k1 = holder k \<and> semas k1 = semas k
    \<and> running k1 = running k \<and> ready_list k1 = ready_list k \<and> idle_thread k1 = idle_thread k \<and> thread_ticks k1 = thread_ticks k + 1
    \<and> (if thread_ticks k1 \<ge> TIME_SLICE then thread_yield k1 = Some k' else k' = k1)"
proof -
  obtain b k1 where k1: "timer_interrupt ((push_frames [Intr_Return] k)\<lparr>intr_on := False\<rparr>) = Some (b, k1)"
      "(if b then thread_yield k1 else Some k1) = Some k'"
    using assms by (auto simp: intr_handler_def bind_eq_Some_conv)
  note t = timer_interrupt_fields [OF k1(1)]
  have "if thread_ticks k1 \<ge> TIME_SLICE then thread_yield k1 = Some k' else k' = k1"
    using k1(2) t(1) by (simp split: if_splits)
  then show ?thesis
    using t by (intro exI [of _ k1]) (simp add: push_frames_def)
qed

lemma intr_handler_lock:
  assumes "intr_handler k = Some k'" "lock_ok k"
  shows "lock_ok k'"
proof -
  obtain k1 where k1: "frames k1 = frames (push_frames [Intr_Return] k)" "holder k1 = holder k" "semas k1 = semas k"
      "if thread_ticks k1 \<ge> TIME_SLICE then thread_yield k1 = Some k' else k' = k1"
    using intr_handler_cases [OF assms(1)] by blast
  have "lock_ok (push_frames [Intr_Return] k)"
    by (rule push_lock [OF assms(2)]) (simp_all add: lock_okD(1) [OF assms(2)])
  then have "lock_ok k1"
    using same_locks_ok [of "push_frames [Intr_Return] k" k1] k1(1-3) by (simp add: same_locks_def push_frames_def)
  then show ?thesis
    using k1(4) yield_lock by (auto split: if_splits)
qed

lemma try_acquire_lock:
  assumes "lock_try_acquire l k = Some (b, k')" "lock_ok k"
  shows "lock_ok k'"
proof -
  let ?k = "upd_sema (Lock_Sema l) (\<lambda>x. x\<lparr>s_value := s_value x - 1\<rparr>) k"
  have "balance l' (push_frames [Set_Holder l] ?k) = balance l' k" if "s_value (semas k (Lock_Sema l)) > 0" for l'
    using that by (auto simp: balance_push) (auto simp: balance_def upd_sema_def uint_minus_one word_gt_0)
  then have "lock_ok (push_frames [Set_Holder l] ?k)" if "s_value (semas k (Lock_Sema l)) > 0"
    using that assms(2) by (simp add: lock_ok_def) (simp add: push_frames_def upd_sema_def)
  then show ?thesis
    using assms by (auto simp: lock_try_acquire_def sema_try_down_def bind_eq_Some_conv split: if_splits)
qed

lemma release_lock: "lock_release l k = Some k' \<Longrightarrow> lock_ok k \<Longrightarrow> lock_ok k'"
  using lock_release_balance [of l k k'] lock_release_cases(1) [of l k k'] by (simp add: lock_ok_def) (simp add: push_frames_def)

lemma wait_lock:
  assumes "cond_wait c l k = Some k'" "lock_ok k"
  shows "lock_ok k'"
proof -
  let ?k = "(sema_init (Waiter (running k)) 0 k)\<lparr>cond_waiters := (cond_waiters k)(c := cond_waiters k c @ [running k])\<rparr>"
  have "lock_release l (push_frames [Call_Sema_Down (Waiter (running k)), Call_Lock_Acquire l] ?k) = Some k'"
    using assms(1) by (auto simp: cond_wait_def bind_eq_Some_conv Let_def sema_init_def upd_sema_def)
  moreover have "lock_ok ?k"
    using assms(2) by (simp add: lock_ok_def balance_def sema_init_def upd_sema_def)
  then have "lock_ok (push_frames [Call_Sema_Down (Waiter (running k)), Call_Lock_Acquire l] ?k)"
    by (rule push_lock) (use lock_okD(1) [OF assms(2)] in \<open>simp_all add: sema_init_def upd_sema_def\<close>)
  ultimately show ?thesis
    using release_lock by blast
qed

lemma exit_lock:
  assumes "thread_exit_kernel k = Some k'" "lock_ok k"
  shows "lock_ok k'"
proof -
  obtain k1 where "schedule k1 = Some k'" "same_locks k k1"
    using assms(1) by (auto simp: thread_exit_kernel_def bind_eq_Some_conv set_status_def upd_thread_def same_locks_def Let_def)
  then show ?thesis
    using schedule_same lock_ok_same same_locks_ok assms(2) by blast
qed

lemma create_lock:
  assumes "thread_create (Some t) name pri [] k = Some (b, k')" "lock_ok k" "frames k t = []" "t \<noteq> running k"
  shows "lock_ok k'"
proof -
  let ?push = "\<lambda>k0. push_frames [Create_Tid t, Call_Lock_Release tid_lock, Create_Unblock t] (k0\<lparr>frames := (frames k0)(t := [Kernel_Thread])\<rparr>)"
  obtain k0 where k0: "init_thread t name pri k = Some k0" "lock_acquire tid_lock (?push k0) = Some k'"
    using assms(1) by (auto simp: thread_create_def bind_eq_Some_conv)
  have same: "frames k0 = frames k" "holder k0 = holder k" "semas k0 = semas k" "running k0 = running k"
    using k0(1) by (auto simp: init_thread_def ASSERT_def split: if_splits)
  let ?k = "k0\<lparr>frames := (frames k0)(t := [Kernel_Thread])\<rparr>"
  have "balance l ?k = balance l k" for l
    using assms(3) same by (simp add: balance_def total_upd)
  then have "lock_ok ?k"
    using assms(2) same by (simp add: lock_ok_def)
  then have p: "lock_ok (?push k0)"
    by (rule push_lock) (use lock_okD(1) [OF assms(2)] same assms(4) in simp_all)
  show ?thesis
    using lock_acquire_lock_frames [OF k0(2)] lock_acquire_balance [OF k0(2)] p by (simp add: lock_ok_def)
qed

lemma call_lock:
  assumes "do_call c k = Some k'" "lock_ok k" "sched_ok k"
  shows "lock_ok k'"
proof -
  note fr = lock_okD(1) [OF assms(2)] and bal = lock_okD(2) [OF assms(2)]
  show ?thesis
  proof (cases c)
    case (Init n v)
    then have "same_locks k k'"
      using assms(1) by (auto simp: same_locks_def sema_init_def upd_sema_def split: if_splits)
    then show ?thesis
      using same_locks_ok assms(2) by blast
  next
    case (Down n)
    then show ?thesis
      using assms(1) sema_down_lock_frames [of "Sema n" k k'] sema_down_balance [of "Sema n" k k'] fr bal by (simp add: lock_ok_def)
  next
    case (Try_Down n)
    then have "same_locks k k'"
      using assms(1) by (auto simp: same_locks_def sema_try_down_def upd_sema_def)
    then show ?thesis
      using same_locks_ok assms(2) by blast
  next
    case (Up n)
    then show ?thesis
      using assms sema_up_lock [of "Sema n" k k'] by simp
  next
    case (Acquire l)
    then show ?thesis
      using assms(1) lock_acquire_lock_frames [of l k k'] lock_acquire_balance [of l k k'] fr bal by (simp add: lock_ok_def)
  next
    case (Try_Acquire l)
    then show ?thesis
      using try_acquire_lock [of l k] assms by auto
  next
    case (Release l)
    then show ?thesis
      using release_lock [of l k k'] assms by simp
  next
    case (Wait d l)
    then show ?thesis
      using wait_lock [of d l k k'] assms by simp
  next
    case Exit
    then show ?thesis
      using exit_lock assms by simp
  next
    case (Create t name pri)
    then have t: "threads k t = None" and "\<exists>b. thread_create (Some t) name pri [] k = Some (b, k')"
      using assms(1) by (auto split: if_splits)
    moreover have "frames k t = []" "t \<noteq> running k"
      using t base_no_frames [OF sched_okD(1) [OF assms(3)], of t] sched_okD(3) [OF assms(3)] by (auto simp: st_def)
    ultimately show ?thesis
      using create_lock assms(2) by blast
  next
    case (Set_Priority p)
    then have "same_locks k k'"
      using assms(1) by (auto simp: thread_set_priority_def bind_eq_Some_conv upd_thread_def same_locks_def)
    then show ?thesis
      using same_locks_ok assms(2) by blast
  qed (use assms cond_signal_lock cond_broadcast_lock yield_lock in auto)
qed

lemma step_lock: "step k k' \<Longrightarrow> sched_ok k \<Longrightarrow> lock_ok k \<Longrightarrow> lock_ok k'"
  by (induction rule: step.induct) (use resume_lock call_lock intr_handler_lock in blast)+

subsection \<open>Wake-ups\<close>

text \<open>The threads that are in the loop of \<^verbatim>\<open>sema_down\<close> but no longer in the queue: each has been
  woken and will look at the value again.\<close>

definition woken :: "kernel \<Rightarrow> sema_ref \<Rightarrow> thread_ptr set" where
  "woken k s = {t. in_loop s (frames k t)} - set (waiters (semas k s))"

definition wake_ok :: "kernel \<Rightarrow> bool" where
  "wake_ok k \<longleftrightarrow> (\<forall>s. waiters (semas k s) \<noteq> [] \<longrightarrow> unat (s_value (semas k s)) \<le> card (woken k s))"

lemma wakeD: "wake_ok k \<Longrightarrow> waiters (semas k s) \<noteq> [] \<Longrightarrow> unat (s_value (semas k s)) \<le> card (woken k s)"
  by (simp add: wake_ok_def)

text \<open>Nobody starts or stops waiting and no value grows.\<close>

lemma wake_transfer:
  assumes "wake_ok k" "\<And>s t. in_loop s (frames k' t) = in_loop s (frames k t)"
    and "\<And>s. waiters (semas k' s) = waiters (semas k s)"
    and "\<And>s. waiters (semas k s) \<noteq> [] \<Longrightarrow> unat (s_value (semas k' s)) \<le> unat (s_value (semas k s))"
  shows "wake_ok k'"
proof -
  have "woken k' s = woken k s" for s
    using assms(2,3) by (simp add: woken_def)
  then show ?thesis
    using assms(1,3,4) unfolding wake_ok_def by (metis le_trans)
qed

lemma wake_same: "same_sync k k' \<Longrightarrow> wake_ok k' = wake_ok k"
  by (simp add: wake_ok_def woken_def same_sync_def)

lemma unat_dec: "(x :: uint32_t) \<noteq> 0 \<Longrightarrow> unat (x - 1) = unat x - 1"
  by (simp add: unat_minus_one)

lemma unat_inc: "unat ((x :: uint32_t) + 1) \<le> unat x + 1"
proof -
  have "unat (x + 1) = (unat x + 1) mod 2 ^ 32"
    by (simp add: unat_word_ariths)
  then show ?thesis
    by (metis mod_less_eq_dividend)
qed

lemma act_not_in_loop: "act_ok k \<Longrightarrow> \<not> in_loop s (frames k (running k))"
  using not_in_loop by (auto simp: act_ok_def)

lemma push_wake:
  assumes "act_ok k" "wake_ok k" "\<forall>f \<in> set fs. \<not> is_loop f"
  shows "wake_ok (push_frames fs k)"
proof (rule wake_transfer [OF assms(2)])
  have "\<not> in_loop s (fs @ frames k (running k))" for s
    using assms(1,3) by (intro not_in_loop) (auto simp: act_ok_def)
  then show "in_loop s (frames (push_frames fs k) t) = in_loop s (frames k t)" for s t
    using act_not_in_loop [OF assms(1)] by (simp add: push_frames_def)
qed (simp_all add: push_frames_def)

text \<open>Going through the loop: \<open>k0\<close> is the state before the frame of the loop, if any, was taken off.\<close>

lemma sema_down_loop_wake:
  assumes "sema_down_loop s b k = Some k'" "\<And>s. \<not> in_loop s (frames k (running k))"
    and other: "\<And>s'. s' \<noteq> s \<Longrightarrow> waiters (semas k s') \<noteq> [] \<Longrightarrow> unat (s_value (semas k s')) \<le> card (woken k s')"
    and self: "waiters (semas k s) \<noteq> [] \<Longrightarrow> unat (s_value (semas k s)) \<le> Suc (card (woken k s))"
  shows "wake_ok k'"
  using sema_down_loop_cases [OF assms(1)]
proof
  let ?k = "push_frames [Sema_Down_Loop s b] (upd_sema s (\<lambda>x. x\<lparr>waiters := waiters x @ [running k]\<rparr>) k)"
  assume v: "s_value (semas k s) = 0 \<and> thread_block ?k = Some k'"
  have "woken ?k s' = woken k s'" if "s' \<noteq> s" for s'
    using that assms(2) [of s'] by (auto simp: woken_def push_frames_def upd_sema_def)
  then have "wake_ok ?k"
    using v other by (auto simp: wake_ok_def push_frames_def upd_sema_def)
  then show ?thesis
    using wake_same thread_block_same v by blast
next
  assume k': "s_value (semas k s) \<noteq> 0 \<and> k' = (upd_sema s (\<lambda>x. x\<lparr>s_value := s_value x - 1\<rparr>) k)\<lparr>intr_on := b\<rparr>"
  have "woken k' s' = woken k s'" for s'
    using k' by (simp add: woken_def upd_sema_def)
  then show ?thesis
    using k' other self by (auto simp: wake_ok_def upd_sema_def unat_dec)
qed

lemma sema_down_wake:
  assumes "sema_down s k = Some k'" "act_ok k" "wake_ok k"
  shows "wake_ok k'"
proof -
  have "woken (k\<lparr>intr_on := False\<rparr>) s = woken k s" for s
    by (simp add: woken_def)
  then show ?thesis
    using assms(1) act_not_in_loop [OF assms(2)] wakeD [OF assms(3)] unfolding sema_down_def
    by (intro sema_down_loop_wake) (auto intro: le_SucI)
qed

lemma sema_up_wake:
  assumes "sema_up s k = Some k'" "sched_ok k" "wake_ok k"
  shows "wake_ok k'"
proof -
  have k': "frames k' = frames k" "semas k' = (semas k)(s := \<lparr>s_value = s_value (semas k s) + 1, waiters = tl (waiters (semas k s))\<rparr>)"
    using sema_up_cases [OF assms(1)] by simp_all
  have "unat (s_value (semas k s) + 1) \<le> card (woken k' s)" if ne: "tl (waiters (semas k s)) \<noteq> []"
  proof -
    obtain u us where w: "waiters (semas k s) = u # us"
      using ne by (cases "waiters (semas k s)") auto
    have u: "in_loop s (frames k u)" "u \<notin> set us"
      using queuesD(6) [OF sched_okD(2) [OF assms(2)], of u s] queuesD(3) [OF sched_okD(2) [OF assms(2)], of s] w by simp_all
    have "woken k' s = insert u (woken k s)" "u \<notin> woken k s"
      using u by (auto simp: woken_def k' w)
    then have "card (woken k' s) = Suc (card (woken k s))"
      by simp
    then show ?thesis
      using wakeD [OF assms(3), of s] w unat_inc [of "s_value (semas k s)"] by simp
  qed
  moreover have "woken k' s' = woken k s'" if "s' \<noteq> s" for s'
    using that by (simp add: woken_def k')
  ultimately show ?thesis
    using assms(3) by (auto simp: wake_ok_def k')
qed

lemma cond_signal_wake:
  assumes "cond_signal c l k = Some k'" "act_ok k" "wake_ok k"
  shows "wake_ok k'"
proof (cases "cond_waiters k c")
  case Nil
  then show ?thesis
    using assms by (auto simp: cond_signal_def bind_eq_Some_conv)
next
  case (Cons w ws)
  let ?k = "k\<lparr>cond_waiters := (cond_waiters k)(c := ws)\<rparr>"
  have "sema_up (Waiter w) ?k = Some k'"
    using assms(1) Cons by (auto simp: cond_signal_def bind_eq_Some_conv)
  moreover have "act_ok ?k"
    by (rule same_act [OF assms(2)]) (simp_all add: st_def fun_eq_iff)
  moreover have "wake_ok ?k"
    by (rule wake_transfer [OF assms(3)]) simp_all
  ultimately show ?thesis
    using sema_up_wake by (auto simp: act_ok_def)
qed

lemma cond_broadcast_wake:
  assumes "cond_broadcast c l k = Some k'" "act_ok k" "Idle_Loop \<notin> set (frames k (running k))" "wake_ok k"
  shows "wake_ok k'"
proof -
  have "act_ok (push_frames [Call_Cond_Broadcast c l] k)" "wake_ok (push_frames [Call_Cond_Broadcast c l] k)"
    using push_act [OF assms(2)] push_wake [OF assms(2,4)] assms(3) by simp_all
  then show ?thesis
    using assms(1,4) cond_signal_wake by (auto simp: cond_broadcast_def split: if_splits)
qed

lemma lock_acquire_wake:
  assumes "lock_acquire l k = Some k'" "act_ok k" "Idle_Loop \<notin> set (frames k (running k))" "wake_ok k"
  shows "wake_ok k'"
proof (rule sema_down_wake [OF lock_acquire_cases(1) [OF assms(1)]])
  show "act_ok (push_frames [Set_Holder l] k)"
    using push_act [OF assms(2)] assms(3) by simp
  show "wake_ok (push_frames [Set_Holder l] k)"
    using push_wake [OF assms(2,4)] by simp
qed

lemma lock_release_wake:
  assumes "lock_release l k = Some k'" "act_ok k" "wake_ok k"
  shows "wake_ok k'"
proof -
  let ?k = "k\<lparr>holder := (holder k)(l := None)\<rparr>"
  have "act_ok ?k"
    by (rule same_act [OF assms(2)]) (simp_all add: st_def fun_eq_iff)
  moreover have "wake_ok ?k"
    by (rule wake_transfer [OF assms(3)]) simp_all
  ultimately show ?thesis
    using lock_release_cases(1) [OF assms(1)] push_wake [of ?k "[Call_Sema_Up (Lock_Sema l)]"] by simp
qed

lemma yield_wake:
  assumes "thread_yield k = Some k'" "act_ok k" "wake_ok k"
  shows "wake_ok k'"
proof -
  obtain k1 where k1: "same_sync k1 k'" "frames k1 = frames (push_frames [Set_Level (intr_on k)] k)" "semas k1 = semas k"
    using thread_yield_same [OF assms(1)] by blast
  have p: "wake_ok (push_frames [Set_Level (intr_on k)] k)"
    using push_wake [OF assms(2,3)] by simp
  have "wake_ok k1"
    by (rule wake_transfer [OF p]) (simp_all add: k1(2,3), simp_all add: push_frames_def)
  then show ?thesis
    using wake_same [OF k1(1)] by simp
qed

text \<open>The frames that do not touch semaphores.\<close>

lemma resume_simple:
  assumes "resume_frame f k = Some k'" "plain f" "\<not> is_loop f"
    "case f of Call_Sema_Up _ \<Rightarrow> False | Call_Sema_Down _ \<Rightarrow> False | Call_Lock_Acquire _ \<Rightarrow> False | Call_Lock_Release _ \<Rightarrow> False
      | Call_Cond_Broadcast _ _ \<Rightarrow> False | _ \<Rightarrow> True"
  shows "frames k' = frames k \<and> semas k' = semas k \<and> running k' = running k \<and> ready_list k' = ready_list k
    \<and> thread_ticks k' = thread_ticks k"
  using assms by (cases f) (auto simp: resume_frame_def allocate_tid_def upd_thread_def bind_eq_Some_conv)

lemma create_unblock_fields:
  assumes "create_unblock t k = Some k'"
  shows "frames k' = frames k \<and> semas k' = semas k \<and> running k' = running k \<and> thread_ticks k' = thread_ticks k
    \<and> ready_list k' = ready_list k @ [t]"
  using assms by (auto simp: create_unblock_def alloc_frame_def thread_unblock_def set_status_def upd_thread_def bind_eq_Some_conv)

lemma pop_in_loop:
  assumes "sched_ok k" "frames k (running k) = f # fs"
  shows "\<not> in_loop s fs"
  using not_in_loop [OF frames_loop_top [OF assms]] .

lemma pop_wake:
  assumes "wake_ok k" "sched_ok k" "frames k (running k) = f # fs" "\<not> is_loop f"
  shows "wake_ok (k\<lparr>frames := (frames k)(running k := fs)\<rparr>)"
proof (rule wake_transfer [OF assms(1)])
  have "\<not> in_loop s (f # fs)" for s
    using assms(4) by (cases f) auto
  then show "in_loop s (frames (k\<lparr>frames := (frames k)(running k := fs)\<rparr>) t) = in_loop s (frames k t)" for s t
    using pop_in_loop [OF assms(2,3)] assms(3) by simp
qed simp_all

text \<open>A woken thread looks at the value again.\<close>

lemma loop_wake:
  assumes "sched_ok k" "wake_ok k" "frames k (running k) = Sema_Down_Loop s b # fs"
    and "sema_down_loop s b (k\<lparr>frames := (frames k)(running k := fs)\<rparr>) = Some k'" (is "sema_down_loop s b ?k = _")
  shows "wake_ok k'"
proof (rule sema_down_loop_wake [OF assms(4)])
  have not_waiting: "running k \<notin> set (waiters (semas k s))"
    using queuesD(6) [OF sched_okD(2) [OF assms(1)], of "running k" s] sched_okD(3) [OF assms(1)] by simp
  show "\<not> in_loop s' (frames ?k (running ?k))" for s'
    using pop_in_loop [OF assms(1,3)] by simp
  show "unat (s_value (semas ?k s')) \<le> card (woken ?k s')" if "s' \<noteq> s" "waiters (semas ?k s') \<noteq> []" for s'
  proof -
    have "woken ?k s' = woken k s'"
      using that(1) pop_in_loop [OF assms(1,3)] assms(3) by (auto simp: woken_def)
    then show ?thesis
      using wakeD [OF assms(2), of s'] that(2) by simp
  qed
  show "unat (s_value (semas ?k s)) \<le> Suc (card (woken ?k s))" if "waiters (semas ?k s) \<noteq> []"
  proof -
    have "woken k s = insert (running k) (woken ?k s)"
      using pop_in_loop [OF assms(1,3)] assms(3) not_waiting by (auto simp: woken_def)
    then have "card (woken k s) \<le> Suc (card (woken ?k s))"
      by (simp add: card_insert_if)
    then show ?thesis
      using wakeD [OF assms(2), of s] that by simp
  qed
qed

lemma resume_wake:
  assumes "sched_ok k" "wake_ok k" "resume k = Some k'"
  shows "wake_ok k'"
proof -
  obtain f fs where f: "frames k (running k) = f # fs"
      "resume_frame f (k\<lparr>frames := (frames k)(running k := fs)\<rparr>) = Some k'" (is "resume_frame f ?k = _")
    using assms(3) by (auto simp: resume_def split: list.splits)
  have not_idle: "\<not> idle_frame f \<Longrightarrow> Idle_Loop \<notin> set (frames ?k (running ?k))"
    using idle_no_frame [OF assms(1), of f] f(1) by simp
  have act: "plain f \<Longrightarrow> act_ok ?k"
    by (rule pop_act [OF assms(1) f(1)])
  have wake: "\<not> is_loop f \<Longrightarrow> wake_ok ?k"
    by (rule pop_wake [OF assms(2,1) f(1)])
  show ?thesis
  proof (cases f)
    case (Sema_Down_Loop s b)
    then show ?thesis
      using loop_wake [OF assms(1,2)] f by (simp add: resume_frame_def)
  next
    case (Call_Sema_Up s)
    then show ?thesis
      using sema_up_wake [of s ?k k'] act wake f(2) by (simp add: resume_frame_def act_ok_def)
  next
    case (Call_Sema_Down s)
    then show ?thesis
      using sema_down_wake [of s ?k k'] act wake f(2) by (simp add: resume_frame_def)
  next
    case (Call_Lock_Acquire l)
    then show ?thesis
      using lock_acquire_wake [of l ?k k'] act wake not_idle f(2) by (simp add: resume_frame_def)
  next
    case (Call_Lock_Release l)
    then show ?thesis
      using lock_release_wake [of l ?k k'] act wake f(2) by (simp add: resume_frame_def)
  next
    case (Call_Cond_Broadcast c l)
    then show ?thesis
      using cond_broadcast_wake [of c l ?k k'] act wake not_idle f(2) by (simp add: resume_frame_def)
  next
    case (Idle_Start s)
    then have up: "sema_up s (?k\<lparr>idle_thread := Some (running k)\<rparr>) = Some k'"
      using f(2) by (auto simp: resume_frame_def thread_current_def bind_eq_Some_conv)
    have "act_ok (?k\<lparr>idle_thread := Some (running k)\<rparr>)"
      using idle_start_act [OF assms(1)] f(1) Idle_Start by simp
    moreover have "wake_ok ?k"
      using wake Idle_Start by simp
    then have "wake_ok (?k\<lparr>idle_thread := Some (running k)\<rparr>)"
      by (rule wake_transfer) simp_all
    ultimately show ?thesis
      using sema_up_wake [OF up] by (simp add: act_ok_def)
  next
    case Idle_Loop
    then have b: "thread_block (push_frames [Idle_Halt, Idle_Loop] (?k\<lparr>intr_on := False\<rparr>)) = Some k'"
      using f(2) by (simp add: resume_frame_def)
    have "wake_ok (push_frames [Idle_Halt, Idle_Loop] (?k\<lparr>intr_on := False\<rparr>))"
      by (rule wake_transfer [OF assms(2)]) (use f(1) Idle_Loop in \<open>auto simp: push_frames_def\<close>)
    then show ?thesis
      using wake_same thread_block_same [OF b] by blast
  next
    case (Create_Unblock t)
    then have "frames k' = frames ?k" "semas k' = semas ?k"
      using create_unblock_fields [of t ?k k'] f(2) by (simp_all add: resume_frame_def)
    then show ?thesis
      using wake Create_Unblock by (simp add: wake_ok_def woken_def)
  qed (use resume_simple [OF f(2)] wake in \<open>auto simp: wake_ok_def woken_def\<close>)
qed

lemma intr_handler_wake:
  assumes "intr_handler k = Some k'" "sched_ok k" "intr_on k" "wake_ok k"
  shows "wake_ok k'"
proof -
  obtain k1 where k1: "frames k1 = frames (push_frames [Intr_Return] k)" "semas k1 = semas k"
      "if thread_ticks k1 \<ge> TIME_SLICE then thread_yield k1 = Some k' else k' = k1" and run: "running k1 = running k"
    using intr_handler_cases [OF assms(1)] by blast
  have w: "wake_ok k1"
    by (rule wake_transfer [OF assms(4)])
      (use sched_okD(6) [OF assms(2,3)] k1(1,2) in \<open>auto simp: push_frames_def\<close>)
  show ?thesis
  proof (cases "thread_ticks k1 \<ge> TIME_SLICE")
    case True
    then have "thread_yield k1 = Some k'"
      using k1(3) by simp
    then obtain k2 where k2: "same_sync k2 k'" "frames k2 = frames (push_frames [Set_Level (intr_on k1)] k1)" "semas k2 = semas k1"
      using thread_yield_same by blast
    have "wake_ok k2"
      by (rule wake_transfer [OF w]) (use k2(2,3) k1(1) run in \<open>auto simp: push_frames_def\<close>)
    then show ?thesis
      using wake_same [OF k2(1)] by simp
  qed (use w k1(3) in simp)
qed

lemma try_acquire_wake:
  assumes "lock_try_acquire l k = Some (b, k')" "act_ok k" "wake_ok k"
  shows "wake_ok k'"
proof -
  let ?k = "upd_sema (Lock_Sema l) (\<lambda>x. x\<lparr>s_value := s_value x - 1\<rparr>) k"
  have "act_ok ?k"
    by (rule same_act [OF assms(2)]) (simp_all add: upd_sema_def st_def fun_eq_iff)
  moreover have "wake_ok ?k" if "s_value (semas k (Lock_Sema l)) > 0"
    by (rule wake_transfer [OF assms(3)]) (use that in \<open>simp_all add: upd_sema_def unat_dec word_gt_0\<close>)
  ultimately have "wake_ok (push_frames [Set_Holder l] ?k)" if "s_value (semas k (Lock_Sema l)) > 0"
    using that push_wake by simp
  then show ?thesis
    using assms(1,3) by (auto simp: lock_try_acquire_def sema_try_down_def bind_eq_Some_conv split: if_splits)
qed

lemma wait_wake:
  assumes "cond_wait c l k = Some k'" "act_ok k" "Idle_Loop \<notin> set (frames k (running k))" "wake_ok k"
  shows "wake_ok k'"
proof -
  let ?k = "(sema_init (Waiter (running k)) 0 k)\<lparr>cond_waiters := (cond_waiters k)(c := cond_waiters k c @ [running k])\<rparr>"
  let ?p = "push_frames [Call_Sema_Down (Waiter (running k)), Call_Lock_Acquire l] ?k"
  have free: "waiters (semas k (Waiter (running k))) = []"
    using own_waiter_free assms(2) by (simp add: act_ok_def)
  have "lock_release l ?p = Some k'"
    using assms(1) by (auto simp: cond_wait_def bind_eq_Some_conv Let_def sema_init_def upd_sema_def)
  moreover have k: "act_ok ?k"
    by (rule same_act [OF assms(2)]) (simp_all add: sema_init_def upd_sema_def st_def fun_eq_iff free)
  moreover have "wake_ok ?k"
    by (rule wake_transfer [OF assms(4)]) (simp_all add: sema_init_def upd_sema_def free)
  then have "wake_ok ?p"
    by (rule push_wake [OF k]) simp
  moreover have "act_ok ?p"
    using assms(3) by (intro push_act [OF k]) (simp_all add: sema_init_def upd_sema_def)
  ultimately show ?thesis
    using lock_release_wake by blast
qed

lemma exit_wake:
  assumes "thread_exit_kernel k = Some k'" "wake_ok k"
  shows "wake_ok k'"
proof -
  obtain k1 where "schedule k1 = Some k'" "frames k1 = frames k" "semas k1 = semas k"
    using assms(1) by (auto simp: thread_exit_kernel_def bind_eq_Some_conv set_status_def upd_thread_def Let_def)
  then show ?thesis
    using schedule_same wake_same assms(2) by (metis wake_ok_def woken_def)
qed

lemma create_wake:
  assumes "thread_create (Some t) name pri [] k = Some (b, k')" "sched_ok k" "frames k (running k) = []" "threads k t = None" "wake_ok k"
  shows "wake_ok k'"
proof -
  let ?push = "\<lambda>k0. push_frames [Create_Tid t, Call_Lock_Release tid_lock, Create_Unblock t] (k0\<lparr>frames := (frames k0)(t := [Kernel_Thread])\<rparr>)"
  obtain k0 where k0: "init_thread t name pri k = Some k0" "lock_acquire tid_lock (?push k0) = Some k'"
    using assms(1) by (auto simp: thread_create_def bind_eq_Some_conv)
  have same: "frames k0 = frames k" "semas k0 = semas k" "running k0 = running k" and ne: "t \<noteq> running k"
    using k0(1) assms(4) sched_okD(3) [OF assms(2)] by (auto simp: init_thread_def ASSERT_def st_def split: if_splits)
  have none: "frames k t = []"
    using base_no_frames [OF sched_okD(1) [OF assms(2)], of t] assms(4) by (simp add: st_def)
  have "wake_ok (?push k0)"
    by (rule wake_transfer [OF assms(5)]) (use none same ne assms(3) in \<open>simp_all add: push_frames_def\<close>)
  then show ?thesis
    using lock_acquire_wake [OF k0(2) create_act [OF assms(2-4) k0(1)]] same ne assms(3) by (simp add: push_frames_def)
qed

lemma call_wake:
  assumes "do_call c k = Some k'" "sched_ok k" "frames k (running k) = []" "wake_ok k"
  shows "wake_ok k'"
proof -
  have a: "act_ok k" and n: "Idle_Loop \<notin> set (frames k (running k))"
    using call_act assms(2,3) by simp_all
  show ?thesis
  proof (cases c)
    case (Init m v)
    show ?thesis
      by (rule wake_transfer [OF assms(4)]) (use assms(1) Init in \<open>auto simp: sema_init_def upd_sema_def split: if_splits\<close>)
  next
    case (Down m)
    then show ?thesis
      using sema_down_wake [of "Sema m" k k'] assms(1,4) a by simp
  next
    case (Try_Down m)
    have "wake_ok (upd_sema (Sema m) (\<lambda>x. x\<lparr>s_value := s_value x - 1\<rparr>) k)" if "s_value (semas k (Sema m)) > 0"
      by (rule wake_transfer [OF assms(4)]) (use that in \<open>simp_all add: upd_sema_def unat_dec word_gt_0\<close>)
    then show ?thesis
      using assms(1,4) Try_Down by (auto simp: sema_try_down_def split: if_splits)
  next
    case (Up m)
    then show ?thesis
      using sema_up_wake [of "Sema m" k k'] assms(1,2,4) by simp
  next
    case (Acquire l)
    then show ?thesis
      using lock_acquire_wake [OF _ a n assms(4)] assms(1) by simp
  next
    case (Try_Acquire l)
    then show ?thesis
      using try_acquire_wake [OF _ a assms(4)] assms(1) by auto
  next
    case (Release l)
    then show ?thesis
      using lock_release_wake [OF _ a assms(4)] assms(1) by simp
  next
    case (Wait d l)
    then show ?thesis
      using wait_wake [OF _ a n assms(4)] assms(1) by simp
  next
    case (Signal d l)
    then show ?thesis
      using cond_signal_wake [OF _ a assms(4)] assms(1) by simp
  next
    case (Broadcast d l)
    then show ?thesis
      using cond_broadcast_wake [OF _ a n assms(4)] assms(1) by simp
  next
    case Yield
    then show ?thesis
      using yield_wake [OF _ a assms(4)] assms(1) by simp
  next
    case Exit
    then show ?thesis
      using exit_wake assms(1,4) by simp
  next
    case (Create t name pri)
    then show ?thesis
      using create_wake [OF _ assms(2,3) _ assms(4), of t name pri] assms(1) by (auto split: if_splits)
  next
    case (Set_Priority p)
    then have "frames k' = frames k" "semas k' = semas k"
      using assms(1) by (auto simp: thread_set_priority_def bind_eq_Some_conv upd_thread_def)
    then show ?thesis
      using assms(4) by (simp add: wake_ok_def woken_def)
  qed
qed

lemma step_wake: "step k k' \<Longrightarrow> sched_ok k \<Longrightarrow> wake_ok k \<Longrightarrow> wake_ok k'"
  by (induction rule: step.induct) (use resume_wake call_wake intr_handler_wake in blast)+

lemma boot_lock_wake:
  assumes "boot m i = Some k" "m \<noteq> i"
  shows "lock_ok k" "wake_ok k"
proof -
  have b: "frames k = (\<lambda>_. [])(m := [Set_Level True, Call_Sema_Down idle_started], i := [Kernel_Thread, Idle_Start idle_started, Idle_Loop])"
      "\<And>s. waiters (semas k s) = []" "\<And>s. s_value (semas k s) = (case s of Lock_Sema _ \<Rightarrow> 1 | _ \<Rightarrow> 0)" "holder k = (\<lambda>_. None)"
    using boot_state [OF assms(2)] assms(1) by auto
  have "tokens l (frames k t) = 0" for l t
    by (simp add: b(1))
  then have "balance l k = 1" for l
    by (simp add: balance_def total_def b(3,4))
  then show "lock_ok k"
    by (simp add: lock_ok_def b(1))
  show "wake_ok k"
    by (simp add: wake_ok_def b(2))
qed

lemma reachable_lock: "reachable k \<Longrightarrow> lock_ok k"
  by (induction rule: reachable.induct) (use boot_lock_wake(1) step_lock reachable_ok in blast)+

lemma reachable_wake: "reachable k \<Longrightarrow> wake_ok k"
  by (induction rule: reachable.induct) (use boot_lock_wake(2) step_wake reachable_ok in blast)+

text \<open>A thread owns a lock as its holder or by a token in its frames; since the balance is one,
  no two threads do.\<close>

definition lock_owner :: "kernel \<Rightarrow> nat \<Rightarrow> thread_ptr \<Rightarrow> bool" where
  "lock_owner k l t \<longleftrightarrow> holder k l = Some t \<or> tokens l (frames k t) > 0"

lemma total_pair:
  assumes "\<And>t. lock_frames (fr t)" "t \<noteq> u"
  shows "tokens l (fr t) + tokens l (fr u) \<le> total l fr"
proof -
  have "(\<Sum>x \<in> {t, u}. tokens l (fr x)) \<le> total l fr"
    unfolding total_def by (rule sum_mono2) (auto simp: tokens_nonneg assms(1))
  then show ?thesis
    using assms(2) by simp
qed

lemma lock_owner_cases:
  assumes "lock_ok k"
  shows "if s_value (semas k (Lock_Sema l)) = 0 then \<exists>!t. lock_owner k l t
    else s_value (semas k (Lock_Sema l)) = 1 \<and> (\<forall>t. \<not> lock_owner k l t)"
proof -
  note fr = lock_okD(1) [OF assms]
  define v where "v = uint (s_value (semas k (Lock_Sema l)))"
  have v: "0 \<le> v" "total l (frames k) + (if holder k l = None then 0 else 1) + v = 1"
    using lock_okD(2) [OF assms, of l] by (simp_all add: balance_def v_def)
  have tok: "0 \<le> tokens l (frames k t)" "tokens l (frames k t) \<le> total l (frames k)" for t
    using tokens_nonneg [OF fr] total_ge [of "frames k" l t] fr by simp_all
  have v0: "s_value (semas k (Lock_Sema l)) = 0 \<longleftrightarrow> v = 0" "s_value (semas k (Lock_Sema l)) = 1 \<longleftrightarrow> v = 1"
    unfolding v_def by (simp add: uint_0_iff, metis unsigned_1 word_uint_eqI)
  show ?thesis
  proof (cases "v = 0")
    case True
    have "\<exists>t. lock_owner k l t"
    proof (cases "holder k l")
      case None
      then have "total l (frames k) \<noteq> 0"
        using v True by simp
      then obtain t where "tokens l (frames k t) \<noteq> 0"
        unfolding total_def by (meson sum.neutral)
      then show ?thesis
        using tok(1) [of t] by (intro exI [of _ t]) (simp add: lock_owner_def)
    qed (auto simp: lock_owner_def)
    moreover have "t = u" if "lock_owner k l t" "lock_owner k l u" for t u
    proof (rule ccontr)
      assume "t \<noteq> u"
      then have "tokens l (frames k t) + tokens l (frames k u) \<le> total l (frames k)"
        by (rule total_pair [OF fr])
      then show False
        using that v True tok(1) [of t] tok(1) [of u] \<open>t \<noteq> u\<close> by (auto simp: lock_owner_def split: if_splits)
    qed
    ultimately show ?thesis
      using True v0 by auto
  next
    case False
    have "0 \<le> total l (frames k)"
      using tok [of 0] by simp
    then have "v = 1" "holder k l = None" "total l (frames k) = 0"
      using v False by (auto split: if_splits)
    then show ?thesis
      using v0 tok(2) by (auto simp: lock_owner_def not_less)
  qed
qed

subsection \<open>The flow of the run queue\<close>

text \<open>A transition lets the thread run on, possibly with more threads at the end of the run queue,
  or takes the next thread from its front and starts a new time slice.\<close>

definition keeps :: "kernel \<Rightarrow> kernel \<Rightarrow> bool" where
  "keeps k k' \<longleftrightarrow> running k' = running k \<and> thread_ticks k' = thread_ticks k \<and> (\<exists>ts. ready_list k' = ready_list k @ ts)"

definition turns :: "kernel \<Rightarrow> kernel \<Rightarrow> bool" where
  "turns k k' \<longleftrightarrow> thread_ticks k' = 0 \<and> (\<exists>ts. ready_list k @ ts \<noteq> [] \<longrightarrow> ready_list k @ ts = running k' # ready_list k')"

definition flows :: "kernel \<Rightarrow> kernel \<Rightarrow> bool" where
  "flows k k' \<longleftrightarrow> keeps k k' \<or> turns k k'"

lemma keepsI: "running k' = running k \<Longrightarrow> thread_ticks k' = thread_ticks k \<Longrightarrow> ready_list k' = ready_list k @ ts \<Longrightarrow> keeps k k'"
  by (auto simp: keeps_def)

lemma same_flows:
  "running k' = running k \<Longrightarrow> thread_ticks k' = thread_ticks k \<Longrightarrow> ready_list k' = ready_list k \<Longrightarrow> flows k k'"
  by (simp add: flows_def keeps_def)

lemma turnsI: "thread_ticks k' = 0 \<Longrightarrow> (ready_list k @ ts \<noteq> [] \<Longrightarrow> ready_list k @ ts = running k' # ready_list k') \<Longrightarrow> flows k k'"
  by (auto simp: flows_def turns_def)

text \<open>An operation after updates of fields that have no part in the flow.\<close>

lemma flows_from:
  assumes "flows k1 k'" "running k1 = running k" "thread_ticks k1 = thread_ticks k" "ready_list k1 = ready_list k"
  shows "flows k k'"
  using assms by (simp add: flows_def keeps_def turns_def)

lemma schedule_flows: "schedule k1 = Some k' \<Longrightarrow> ready_list k1 = ready_list k @ ts \<Longrightarrow> flows k k'"
  using schedule_same [of k1 k'] by (intro turnsI [of k' k ts]) auto

lemma thread_block_flows: "thread_block k1 = Some k' \<Longrightarrow> ready_list k1 = ready_list k \<Longrightarrow> flows k k'"
  using thread_block_same [of k1 k'] by (intro turnsI [of k' k "[]"]) auto

lemma sema_down_loop_flows: "sema_down_loop s b k = Some k' \<Longrightarrow> flows k k'"
  using sema_down_loop_cases [of s b k k'] thread_block_flows [of _ k' k]
  by (auto simp: push_frames_def upd_sema_def intro: same_flows)

lemma sema_down_flows: "sema_down s k = Some k' \<Longrightarrow> flows k k'"
  unfolding sema_down_def by (drule sema_down_loop_flows, erule flows_from) simp_all

lemma sema_up_flows: "sema_up s k = Some k' \<Longrightarrow> flows k k'"
  using sema_up_cases [of s k k'] by (auto simp: flows_def intro: keepsI)

lemma lock_acquire_flows: "lock_acquire l k = Some k' \<Longrightarrow> flows k k'"
  using sema_down_flows [OF lock_acquire_cases(1), of l k k'] flows_from [of "push_frames [Set_Holder l] k" k' k]
  by (simp add: push_frames_def)

lemma lock_release_flows: "lock_release l k = Some k' \<Longrightarrow> flows k k'"
  using lock_release_cases(1) [of l k k'] by (intro same_flows) (simp_all add: push_frames_def)

lemma cond_signal_flows:
  assumes "cond_signal c l k = Some k'"
  shows "flows k k'"
proof (cases "cond_waiters k c")
  case Nil
  then show ?thesis
    using assms by (auto simp: cond_signal_def bind_eq_Some_conv intro: same_flows)
next
  case (Cons w ws)
  then have "sema_up (Waiter w) (k\<lparr>cond_waiters := (cond_waiters k)(c := ws)\<rparr>) = Some k'"
    using assms by (auto simp: cond_signal_def bind_eq_Some_conv)
  then show ?thesis
    by (rule flows_from [OF sema_up_flows]) simp_all
qed

lemma cond_broadcast_flows: "cond_broadcast c l k = Some k' \<Longrightarrow> flows k k'"
  using cond_signal_flows [of c l "push_frames [Call_Cond_Broadcast c l] k" k'] flows_from [of "push_frames [Call_Cond_Broadcast c l] k" k' k]
  by (auto simp: cond_broadcast_def push_frames_def intro: same_flows split: if_splits)

lemma thread_yield_flows: "thread_yield k = Some k' \<Longrightarrow> flows k k'"
  using thread_yield_same [of k k'] by (auto intro: turnsI)

lemma resume_frame_flows:
  assumes "resume_frame f k = Some k'"
  shows "flows k k'"
proof (cases f)
  case (Idle_Start s)
  then obtain t where "sema_up s (k\<lparr>idle_thread := Some t\<rparr>) = Some k'"
    using assms by (auto simp: resume_frame_def bind_eq_Some_conv)
  then show ?thesis
    by (rule flows_from [OF sema_up_flows]) simp_all
next
  case Idle_Loop
  then show ?thesis
    using assms by (intro thread_block_flows [of "push_frames [Idle_Halt, Idle_Loop] (k\<lparr>intr_on := False\<rparr>)"])
      (simp_all add: resume_frame_def push_frames_def)
next
  case (Create_Unblock t)
  then show ?thesis
    using assms create_unblock_fields [of t k k'] by (auto simp: resume_frame_def flows_def intro: keepsI)
qed (use assms sema_down_loop_flows sema_up_flows sema_down_flows lock_acquire_flows lock_release_flows cond_broadcast_flows in
    \<open>auto simp: resume_frame_def bind_eq_Some_conv allocate_tid_def upd_thread_def intro: same_flows\<close>)

lemma resume_flows:
  assumes "resume k = Some k'"
  shows "flows k k'"
proof -
  obtain f fs where "resume_frame f (k\<lparr>frames := (frames k)(running k := fs)\<rparr>) = Some k'"
    using assms by (auto simp: resume_def split: list.splits)
  then show ?thesis
    by (rule flows_from [OF resume_frame_flows]) simp_all
qed

lemma create_flows:
  assumes "thread_create (Some t) name pri body k = Some (b, k')"
  shows "flows k k'"
proof -
  let ?push = "\<lambda>k0. push_frames [Create_Tid t, Call_Lock_Release tid_lock, Create_Unblock t] (k0\<lparr>frames := (frames k0)(t := Kernel_Thread # body)\<rparr>)"
  obtain k0 where k0: "init_thread t name pri k = Some k0" "lock_acquire tid_lock (?push k0) = Some k'"
    using assms by (auto simp: thread_create_def bind_eq_Some_conv)
  then show ?thesis
    by (intro flows_from [OF lock_acquire_flows [OF k0(2)]])
      (auto simp: init_thread_def ASSERT_def push_frames_def split: if_splits)
qed

lemma call_flows:
  assumes "do_call c k = Some k'"
  shows "flows k k'"
proof (cases c)
  case (Try_Acquire l)
  then show ?thesis
    using assms by (intro same_flows)
      (auto simp: lock_try_acquire_def sema_try_down_def bind_eq_Some_conv upd_sema_def push_frames_def split: if_splits)
next
  case (Wait d l)
  let ?k = "push_frames [Call_Sema_Down (Waiter (running k)), Call_Lock_Acquire l]
    ((sema_init (Waiter (running k)) 0 k)\<lparr>cond_waiters := (cond_waiters k)(d := cond_waiters k d @ [running k])\<rparr>)"
  have "lock_release l ?k = Some k'"
    using assms Wait by (auto simp: cond_wait_def bind_eq_Some_conv Let_def sema_init_def upd_sema_def)
  then show ?thesis
    by (rule flows_from [OF lock_release_flows]) (simp_all add: push_frames_def sema_init_def upd_sema_def)
next
  case Exit
  then obtain k1 where "schedule k1 = Some k'" "ready_list k1 = ready_list k @ []"
    using assms by (auto simp: thread_exit_kernel_def bind_eq_Some_conv set_status_def upd_thread_def Let_def)
  then show ?thesis
    by (rule schedule_flows)
next
  case (Create t name pri)
  then show ?thesis
    using assms create_flows [of t name pri "[]" k] by (auto split: if_splits)
qed (use assms sema_down_flows sema_up_flows lock_acquire_flows lock_release_flows cond_signal_flows cond_broadcast_flows thread_yield_flows in
    \<open>auto simp: sema_init_def sema_try_down_def upd_sema_def thread_set_priority_def upd_thread_def bind_eq_Some_conv
       intro: same_flows split: if_splits\<close>)

lemma slice: "(x :: uint32_t) < TIME_SLICE \<longleftrightarrow> unat x < 4" "(x :: uint32_t) < TIME_SLICE \<Longrightarrow> unat (x + 1) = unat x + 1"
proof -
  show lt: "x < TIME_SLICE \<longleftrightarrow> unat x < 4"
    by (simp add: TIME_SLICE_def word_less_nat_alt)
  show "x < TIME_SLICE \<Longrightarrow> unat (x + 1) = unat x + 1"
    using lt unat_add_small [of x 1] by simp
qed

lemma intr_handler_flows:
  assumes "intr_handler k = Some k'"
  shows "if thread_ticks k + 1 \<ge> TIME_SLICE then turns k k'
    else running k' = running k \<and> ready_list k' = ready_list k \<and> thread_ticks k' = thread_ticks k + 1"
proof -
  obtain k1 where k1: "running k1 = running k" "ready_list k1 = ready_list k" "thread_ticks k1 = thread_ticks k + 1"
      "if thread_ticks k1 \<ge> TIME_SLICE then thread_yield k1 = Some k' else k' = k1"
    using intr_handler_cases [OF assms] by blast
  show ?thesis
  proof (cases "thread_ticks k + 1 \<ge> TIME_SLICE")
    case True
    then have "thread_yield k1 = Some k'"
      using k1(3,4) by simp
    then obtain k2 :: kernel where "thread_ticks k' = 0" "ready_list k2 \<noteq> [] \<longrightarrow> ready_list k2 = running k' # ready_list k'"
        "ready_list k2 = ready_list k @ (if idle_thread k1 \<noteq> Some (running k1) then [running k1] else [])"
      using thread_yield_same [of k1 k'] unfolding k1(2) by blast
    then have "turns k k'"
      unfolding turns_def by metis
    then show ?thesis
      using True by simp
  qed (use k1 in simp)
qed

lemma flows_ticks: "flows k k' \<Longrightarrow> thread_ticks k < TIME_SLICE \<Longrightarrow> thread_ticks k' < TIME_SLICE"
  by (auto simp: flows_def keeps_def turns_def TIME_SLICE_def)

lemma step_ticks: "step k k' \<Longrightarrow> thread_ticks k < TIME_SLICE \<Longrightarrow> thread_ticks k' < TIME_SLICE"
proof (induction rule: step.induct)
  case (tick k k')
  then show ?case
    using intr_handler_flows [OF tick(2)] by (auto simp: turns_def TIME_SLICE_def not_le split: if_splits)
qed (use resume_flows call_flows flows_ticks in blast)+

lemma reachable_ticks: "reachable k \<Longrightarrow> thread_ticks k < TIME_SLICE"
proof (induction rule: reachable.induct)
  case (boot m i k)
  then show ?case
    using boot_state [of m i] by (auto simp: TIME_SLICE_def)
qed (use step_ticks in blast)

lemma slice_one: "\<not> TIME_SLICE \<le> 0 + 1" "\<not> TIME_SLICE \<le> 1"
  by (simp_all add: TIME_SLICE_def word_le_nat_alt)

text \<open>A run of the kernel in which the thread \<open>t\<close> never gets the processor, with the number of
  timer ticks in it.\<close>

inductive waits :: "thread_ptr \<Rightarrow> nat \<Rightarrow> kernel \<Rightarrow> kernel \<Rightarrow> bool" for t where
  start: "running k \<noteq> t \<Longrightarrow> waits t 0 k k"
| resumed: "waits t n k k' \<Longrightarrow> resume k' = Some k'' \<Longrightarrow> running k'' \<noteq> t \<Longrightarrow> waits t n k k''"
| called: "waits t n k k' \<Longrightarrow> frames k' (running k') = [] \<Longrightarrow> do_call c k' = Some k'' \<Longrightarrow> running k'' \<noteq> t \<Longrightarrow> waits t n k k''"
| ticked: "waits t n k k' \<Longrightarrow> intr_on k' \<Longrightarrow> intr_handler k' = Some k'' \<Longrightarrow> running k'' \<noteq> t \<Longrightarrow> waits t (Suc n) k k''"

text \<open>The ticks left until the thread at position \<open>i\<close> runs.\<close>

definition left :: "nat \<Rightarrow> kernel \<Rightarrow> nat" where
  "left i k = 4 * i + (4 - unat (thread_ticks k))"

lemma turns_left:
  assumes "turns k k'" "ready_list k = xs @ t # ys" "running k' \<noteq> t" "thread_ticks k < TIME_SLICE"
  shows "\<exists>xs' ys'. ready_list k' = xs' @ t # ys' \<and> left (length xs') k' < left (length xs) k"
proof -
  obtain ts where ts: "thread_ticks k' = 0" "xs @ t # ys @ ts = running k' # ready_list k'"
    using assms(1,2) by (auto simp: turns_def)
  then obtain x xs' where "xs = x # xs'"
    using assms(3) by (cases xs) auto
  then show ?thesis
    using ts assms(4) slice(1) [of "thread_ticks k"] by (intro exI [of _ xs'] exI [of _ "ys @ ts"]) (simp add: left_def)
qed

lemma flows_left:
  assumes "flows k k'" "ready_list k = xs @ t # ys" "running k' \<noteq> t" "thread_ticks k < TIME_SLICE"
  shows "\<exists>xs' ys'. ready_list k' = xs' @ t # ys' \<and> left (length xs') k' \<le> left (length xs) k"
  using assms(1)
proof (unfold flows_def, elim disjE)
  assume "keeps k k'"
  then obtain ts where "ready_list k' = xs @ t # (ys @ ts)" "thread_ticks k' = thread_ticks k"
    using assms(2) by (auto simp: keeps_def)
  then show ?thesis
    by (intro exI [of _ xs] exI [of _ "ys @ ts"]) (simp add: left_def)
next
  assume "turns k k'"
  then show ?thesis
    using turns_left [OF _ assms(2-4)] by (meson less_imp_le)
qed

lemma tick_left:
  assumes "intr_handler k = Some k'" "ready_list k = xs @ t # ys" "running k' \<noteq> t" "thread_ticks k < TIME_SLICE"
  shows "\<exists>xs' ys'. ready_list k' = xs' @ t # ys' \<and> left (length xs') k' < left (length xs) k"
proof (cases "thread_ticks k + 1 \<ge> TIME_SLICE")
  case True
  then show ?thesis
    using intr_handler_flows [OF assms(1)] turns_left [OF _ assms(2-4)] by simp
next
  case False
  then have "ready_list k' = ready_list k" "unat (thread_ticks k') = unat (thread_ticks k) + 1" "unat (thread_ticks k) < 4"
    using intr_handler_flows [OF assms(1)] slice [of "thread_ticks k"] assms(4) by simp_all
  then show ?thesis
    using assms(2) by (intro exI [of _ xs] exI [of _ ys]) (simp add: left_def)
qed

lemma waits_left:
  assumes "waits t n k k'" "ready_list k = xs @ t # ys" "thread_ticks k < TIME_SLICE"
  shows "thread_ticks k' < TIME_SLICE \<and> (\<exists>xs' ys'. ready_list k' = xs' @ t # ys' \<and> n + left (length xs') k' \<le> left (length xs) k)"
  using assms
proof (induction rule: waits.induct)
  case (resumed n k k' k'')
  then show ?case
    using flows_left [OF resume_flows [OF resumed(2)]] flows_ticks [OF resume_flows [OF resumed(2)]]
    by (meson add_le_cancel_left le_trans)
next
  case (called n k k' c k'')
  then show ?case
    using flows_left [OF call_flows [OF called(3)]] flows_ticks [OF call_flows [OF called(3)]]
    by (meson add_le_cancel_left le_trans)
next
  case (ticked n k k' k'')
  then obtain xs' ys' where k': "ready_list k' = xs' @ t # ys'" "n + left (length xs') k' \<le> left (length xs) k" "thread_ticks k' < TIME_SLICE"
    by blast
  obtain zs zs' where "ready_list k'' = zs @ t # zs'" "left (length zs) k'' < left (length xs') k'"
    using tick_left [OF ticked(3) k'(1) ticked(4) k'(3)] by blast
  moreover have "thread_ticks k'' < TIME_SLICE"
    using step_ticks [OF step.tick [OF ticked(2,3)] k'(3)] .
  ultimately show ?case
    using k'(2) by (intro conjI exI [of _ zs] exI [of _ zs']) simp_all
qed auto

subsection \<open>Properties\<close>

text \<open>The state behind \<^verbatim>\<open>thread_start\<close> for two pages, which the witnesses start from.\<close>

lemma booted:
  obtains k where "boot 4096 8192 = Some k" "reachable k" "running k = 4096" "ready_list k = [8192]" "\<not> intr_on k"
    "thread_ticks k = 0" "frames k 4096 = [Set_Level True, Call_Sema_Down idle_started]" "st k 4096 = Some THREAD_RUNNING"
    "holder k = (\<lambda>_. None)" "s_value (semas k (Lock_Sema 0)) = 1" "s_value (semas k idle_started) = 0"
proof -
  have "(4096 :: thread_ptr) \<noteq> 8192"
    by simp
  from boot_state [OF this] show thesis
    using reachable.boot [OF _ \<open>4096 \<noteq> 8192\<close>] by (elim exE conjE, intro that) auto
qed

lemma booted_next:
  obtains k k' where "reachable k" "resume k = Some k'" "reachable k'" "ready_list k = [8192]" "running k = 4096" "running k' = 4096"
    "intr_on k'" "frames k' 4096 = [Call_Sema_Down idle_started]" "thread_ticks k' = 0" "s_value (semas k' idle_started) = 0"
proof -
  obtain k where k: "reachable k" "running k = 4096" "ready_list k = [8192]" "thread_ticks k = 0" "s_value (semas k idle_started) = 0"
      "frames k 4096 = [Set_Level True, Call_Sema_Down idle_started]"
    by (rule booted)
  define k' where "k' = k\<lparr>frames := (frames k)(4096 := [Call_Sema_Down idle_started]), intr_on := True\<rparr>"
  have r: "resume k = Some k'"
    using k by (simp add: resume_def resume_frame_def k'_def)
  show thesis
    by (rule that [OF k(1) r reachable.step [OF k(1) step.resume [OF r]]]) (simp_all add: k k'_def)
qed

text \<open>The main thread waits for the idle thread to start.\<close>

lemma booted_waiting:
  obtains k where "reachable k" "waiters (semas k idle_started) \<noteq> []"
proof -
  obtain k where k: "reachable k" "running k = 4096" "frames k 4096 = [Call_Sema_Down idle_started]" "s_value (semas k idle_started) = 0"
    by (rule booted_next)
  define k1 where "k1 = k\<lparr>frames := (frames k)(4096 := [])\<rparr>"
  have "act_ok k1"
    using pop_act [OF reachable_ok [OF k(1)], of "Call_Sema_Down idle_started" "[]"] k(2,3) by (simp add: k1_def)
  then obtain k2 where k2: "sema_down idle_started k1 = Some k2"
    using sema_down_ok [of k1 idle_started] k(2) by (auto simp: k1_def)
  then have "waiters (semas k2 idle_started) \<noteq> []"
    using sema_down_loop_cases [of idle_started "intr_on k1" "k1\<lparr>intr_on := False\<rparr>" k2] k(4) thread_block_same
    by (fastforce simp: sema_down_def k1_def same_sync_def push_frames_def upd_sema_def)
  moreover have "resume k = Some k2"
    using k(2,3) k2 by (simp add: resume_def resume_frame_def k1_def)
  ultimately show thesis
    using that reachable.step [OF k(1) step.resume] by blast
qed

text \<open>C2: In every state that the kernel reaches exactly one thread is in the state
  \<^verbatim>\<open>THREAD_RUNNING\<close>, the current one. The run queue holds the ready threads, without the idle
  thread, each once; a queue of a semaphore holds blocked threads, each once; and since the run
  queue and all semaphores link threads through the same member \<^verbatim>\<open>elem\<close>, no thread is in two
  queues at a time.\<close>

theorem scheduler_queues:
  assumes "reachable k"
  shows "(\<forall>t. st k t = Some THREAD_RUNNING \<longleftrightarrow> t = running k)
    \<and> distinct (ready_list k)
    \<and> (\<forall>t. t \<in> set (ready_list k) \<longleftrightarrow> st k t = Some THREAD_READY \<and> idle_thread k \<noteq> Some t)
    \<and> (\<forall>s. distinct (waiters (semas k s)) \<and> set (waiters (semas k s)) \<inter> set (ready_list k) = {}
        \<and> (\<forall>t \<in> set (waiters (semas k s)). st k t = Some THREAD_BLOCKED))
    \<and> (\<forall>s s'. s \<noteq> s' \<longrightarrow> set (waiters (semas k s)) \<inter> set (waiters (semas k s')) = {})"
proof -
  note ok = reachable_ok [OF assms]
  note q = queuesD [OF sched_okD(2) [OF ok]]
  have "set (waiters (semas k s)) \<inter> set (ready_list k) = {}" "\<forall>t \<in> set (waiters (semas k s)). st k t = Some THREAD_BLOCKED" for s
    using q(5,6) by auto
  moreover have "set (waiters (semas k s)) \<inter> set (waiters (semas k s')) = {}" if "s \<noteq> s'" for s s'
    using q(6) in_loop_unique that by blast
  moreover have "\<forall>t. st k t = Some THREAD_RUNNING \<longleftrightarrow> t = running k"
    using ok by (simp add: sched_ok_def)
  ultimately show ?thesis
    using q(2,3,5) by blast
qed

theorem scheduler_queues_witness:
  "\<exists>k. boot 4096 8192 = Some k \<and> reachable k \<and> (\<forall>t. st k t = Some THREAD_RUNNING \<longleftrightarrow> t = running k)"
proof -
  obtain k where k: "boot 4096 8192 = Some k" "reachable k"
    by (rule booted)
  show ?thesis
    using k scheduler_queues [OF k(2)] by blast
qed

text \<open>C3: Mutual exclusion. A thread owns a lock from the moment its \<^verbatim>\<open>sema_down\<close> takes the value of
  the semaphore of the lock until its \<^verbatim>\<open>sema_up\<close> gives it back; it owes the rest of
  \<^verbatim>\<open>lock_acquire\<close> before \<^verbatim>\<open>holder\<close> is set and the rest of \<^verbatim>\<open>lock_release\<close> after it is
  cleared. In every state that the kernel reaches the semaphore of a lock is 1 and no
  thread owns it, or the semaphore is 0 and exactly one thread does.\<close>

theorem lock_mutual_exclusion:
  assumes "reachable k"
  shows "if s_value (semas k (Lock_Sema l)) = 0 then \<exists>!t. lock_owner k l t
    else s_value (semas k (Lock_Sema l)) = 1 \<and> (\<forall>t. \<not> lock_owner k l t)"
  using lock_owner_cases [OF reachable_lock [OF assms]] .

theorem lock_mutual_exclusion_witness:
  "\<exists>k. boot 4096 8192 = Some k \<and> reachable k \<and> s_value (semas k (Lock_Sema 0)) = 1 \<and> (\<forall>t. \<not> lock_owner k 0 t)"
proof -
  obtain k where k: "boot 4096 8192 = Some k" "reachable k" "s_value (semas k (Lock_Sema 0)) = 1"
    by (rule booted)
  show ?thesis
    using k lock_mutual_exclusion [OF k(2), of 0] by auto
qed

text \<open>C5: No wake-up is lost. While threads are queued at a semaphore, its value is at most the
  number of threads that were taken from the queue and have not looked at the value again; so
  when the value is positive, one of those is ready or running, since a blocked thread in the loop
  of \<^verbatim>\<open>sema_down\<close> is queued.\<close>

theorem sema_no_lost_wakeup:
  assumes "reachable k" "waiters (semas k s) \<noteq> []"
  shows "unat (s_value (semas k s)) \<le> card {t. in_loop s (frames k t) \<and> (st k t = Some THREAD_READY \<or> t = running k)}"
proof -
  note ok = reachable_ok [OF assms(1)]
  have "in_loop s (frames k t) \<Longrightarrow> st k t \<noteq> None \<and> st k t \<noteq> Some THREAD_DYING" for t
    using sched_okD(4) [OF ok] unfolding frames_ok_def by force
  then have sub: "woken k s \<subseteq> {t. in_loop s (frames k t) \<and> (st k t = Some THREAD_READY \<or> t = running k)}"
    using queuesD(6) [OF sched_okD(2) [OF ok]] sched_okD(5) [OF ok]
    by (auto simp: woken_def) (metis option.exhaust thread_status.exhaust)
  show ?thesis
    using le_trans [OF wakeD [OF reachable_wake [OF assms(1)] assms(2)] card_mono [OF finite sub]] .
qed

theorem sema_no_lost_wakeup_witness:
  "\<exists>k. reachable k \<and> waiters (semas k idle_started) \<noteq> []
    \<and> unat (s_value (semas k idle_started)) \<le> card {t. in_loop idle_started (frames k t) \<and> (st k t = Some THREAD_READY \<or> t = running k)}"
proof -
  obtain k where k: "reachable k" "waiters (semas k idle_started) \<noteq> []"
    by (rule booted_waiting)
  show ?thesis
    using k sema_no_lost_wakeup [OF k] by blast
qed

text \<open>C4: Round-robin scheduling is fair: a run in which the thread at position \<open>length xs\<close> of the run
  queue never gets the processor has fewer than \<^verbatim>\<open>TIME_SLICE\<close> timer ticks for each thread up to
  and including it, whatever the running threads do in between.\<close>

theorem round_robin_bounded_waiting:
  assumes "reachable k" "ready_list k = xs @ t # ys" "waits t n k k'"
  shows "n < unat TIME_SLICE * (length xs + 1)"
proof -
  have ticks: "thread_ticks k < TIME_SLICE"
    using reachable_ticks [OF assms(1)] .
  then obtain xs' ys' where "ready_list k' = xs' @ t # ys'" "n + left (length xs') k' \<le> left (length xs) k" "thread_ticks k' < TIME_SLICE"
    using waits_left [OF assms(3,2)] by blast
  then show ?thesis
    using slice(1) [of "thread_ticks k'"] by (simp add: left_def TIME_SLICE_def)
qed

theorem round_robin_bounded_waiting_witness:
  "\<exists>k k'. reachable k \<and> ready_list k = [] @ 8192 # [] \<and> waits 8192 1 k k' \<and> 1 < unat TIME_SLICE * (length [] + 1)"
proof -
  obtain k k1 where k: "reachable k" "resume k = Some k1" "reachable k1" "ready_list k = [8192]" "running k = 4096" "running k1 = 4096"
      "intr_on k1" "thread_ticks k1 = 0"
    by (rule booted_next)
  obtain k2 where k2: "intr_handler k1 = Some k2"
    using intr_handler_ok [OF reachable_ok [OF k(3)] k(7)] by blast
  then have "running k2 = 4096"
    using intr_handler_flows [OF k2] unfolding k(8) by (simp add: slice_one k(6))
  then have w: "waits 8192 (Suc 0) k k2"
    using waits.ticked [OF waits.resumed [OF waits.start k(2)] k(7) k2] k(5,6) by simp
  show ?thesis
    using round_robin_bounded_waiting [OF k(1) _ w, of "[]" "[]"] k(1,4) w by (intro exI [of _ k] exI [of _ k2]) simp
qed



end
