(* ===== verification/Pagedir.thy ===== *)
theory Pagedir
  imports Vaddr
begin

text \<open>
  Page directories and page tables (\<^verbatim>\<open>userprog/pagedir.c\<close>). A page that holds a directory or a
  table is the list of its 1024 entries; \<open>tables\<close> maps the kernel virtual address of each such
  page to them, and a pointer to an entry is a page with an index. \<open>cr3\<close> is the register with the
  physical address of the active directory. The processor may keep entries of it in its
  translation lookaside buffer (\<open>tlb\<close>) until the register is written. The page that
  \<^verbatim>\<open>palloc_get_page\<close> returns is an argument of the operations that allocate.
\<close>

subsection \<open>Operations\<close>

record mmu =
  tables :: "ptr \<Rightarrow> uint32_t list option"
  init_page_dir :: ptr
  init_ram_pages :: uint32_t
  cr3 :: uint32_t
  tlb :: "ptr \<Rightarrow> uint32_t option"

type_synonym entry_ptr = "ptr \<times> uint32_t"

definition load_entry :: "mmu \<Rightarrow> entry_ptr \<Rightarrow> uint32_t option" where
  "load_entry s = (\<lambda>(t, i). do { es \<leftarrow> tables s t; if unat i < length es then Some (es ! unat i) else None })"

definition store_entry :: "entry_ptr \<Rightarrow> uint32_t \<Rightarrow> mmu \<Rightarrow> mmu option" where
  "store_entry = (\<lambda>(t, i) v s. do {
     es \<leftarrow> tables s t;
     if unat i < length es then Some (s\<lparr>tables := (tables s)(t \<mapsto> es[unat i := v])\<rparr>) else None })"

definition pagedir_create :: "ptr option \<Rightarrow> mmu \<Rightarrow> (ptr \<times> mmu) option" where
  "pagedir_create page s = (case page of
     None \<Rightarrow> Some (NULL, s)
   | Some pd \<Rightarrow> do {
       es \<leftarrow> tables s (init_page_dir s);
       Some (pd, s\<lparr>tables := (tables s)(pd \<mapsto> es)\<rparr>) })"

text \<open>The pages that are freed for one entry of the directory, and for the whole directory.\<close>

definition destroy_table :: "mmu \<Rightarrow> uint32_t \<Rightarrow> ptr list option" where
  "destroy_table s pde = do {
     pt \<leftarrow> pde_get_pt pde;
     es \<leftarrow> tables s pt;
     pages \<leftarrow> those (map pte_get_page (filter (\<lambda>pte. pte AND PTE_P \<noteq> 0) es));
     Some (pages @ [pt]) }"

definition pagedir_destroy :: "ptr \<Rightarrow> mmu \<Rightarrow> (ptr list \<times> mmu) option" where
  "pagedir_destroy pd s =
     (if pd = NULL then Some ([], s)
      else do {
        ASSERT (pd \<noteq> init_page_dir s);
        es \<leftarrow> tables s pd;
        freed \<leftarrow> those (map (destroy_table s) (filter (\<lambda>pde. pde AND PTE_P \<noteq> 0) (take (unat (pd_no PHYS_BASE)) es)));
        let freed = concat freed @ [pd];
        Some (freed, s\<lparr>tables := (tables s) |` (- set freed)\<rparr>) })"

definition lookup_page :: "ptr \<Rightarrow> ptr \<Rightarrow> bool \<Rightarrow> ptr option \<Rightarrow> mmu \<Rightarrow> (entry_ptr option \<times> mmu) option" where
  "lookup_page pd vaddr create page s = do {
     ASSERT (pd \<noteq> NULL);
     ASSERT (\<not> create \<or> is_user_vaddr vaddr);
     pde \<leftarrow> load_entry s (pd, pd_no vaddr);
     if pde = 0 then
       (if create then (case page of
          None \<Rightarrow> Some (None, s)
        | Some pt \<Rightarrow> do {
            let s = s\<lparr>tables := (tables s)(pt \<mapsto> replicate 1024 0)\<rparr>;
            pde \<leftarrow> pde_create pt;
            s \<leftarrow> store_entry (pd, pd_no vaddr) pde s;
            pt \<leftarrow> pde_get_pt pde;
            Some (Some (pt, pt_no vaddr), s) })
        else Some (None, s))
     else do {
       pt \<leftarrow> pde_get_pt pde;
       Some (Some (pt, pt_no vaddr), s) } }"

definition pagedir_activate :: "ptr \<Rightarrow> mmu \<Rightarrow> mmu option" where
  "pagedir_activate pd s = do {
     p \<leftarrow> vtop (if pd = NULL then init_page_dir s else pd);
     Some (s\<lparr>cr3 := p, tlb := \<lambda>_. None\<rparr>) }"

definition active_pd :: "mmu \<Rightarrow> ptr option" where
  "active_pd s = ptov (cr3 s)"

definition invalidate_pagedir :: "ptr \<Rightarrow> mmu \<Rightarrow> mmu option" where
  "invalidate_pagedir pd s = do {
     a \<leftarrow> active_pd s;
     if a = pd then pagedir_activate pd s else Some s }"

definition pagedir_set_page :: "ptr \<Rightarrow> ptr \<Rightarrow> ptr \<Rightarrow> bool \<Rightarrow> ptr option \<Rightarrow> mmu \<Rightarrow> (bool \<times> mmu) option" where
  "pagedir_set_page pd upage kpage writable page s = do {
     ASSERT (pg_ofs upage = 0);
     ASSERT (pg_ofs kpage = 0);
     ASSERT (is_user_vaddr upage);
     p \<leftarrow> vtop kpage;
     ASSERT (drop_bit PTSHIFT p < init_ram_pages s);
     ASSERT (pd \<noteq> init_page_dir s);
     (pte, s) \<leftarrow> lookup_page pd upage True page s;
     case pte of
       Some pte \<Rightarrow> do {
         e \<leftarrow> load_entry s pte;
         ASSERT (e AND PTE_P = 0);
         e \<leftarrow> pte_create_user kpage writable;
         s \<leftarrow> store_entry pte e s;
         Some (True, s) }
     | None \<Rightarrow> Some (False, s) }"

definition pagedir_get_page :: "ptr \<Rightarrow> ptr \<Rightarrow> mmu \<Rightarrow> ptr option" where
  "pagedir_get_page pd uaddr s = do {
     ASSERT (is_user_vaddr uaddr);
     (pte, _) \<leftarrow> lookup_page pd uaddr False None s;
     case pte of
       None \<Rightarrow> Some NULL
     | Some pte \<Rightarrow> do {
         e \<leftarrow> load_entry s pte;
         if e AND PTE_P \<noteq> 0 then do { page \<leftarrow> pte_get_page e; Some (page + pg_ofs uaddr) } else Some NULL } }"

definition pagedir_clear_page :: "ptr \<Rightarrow> ptr \<Rightarrow> mmu \<Rightarrow> mmu option" where
  "pagedir_clear_page pd upage s = do {
     ASSERT (pg_ofs upage = 0);
     ASSERT (is_user_vaddr upage);
     (pte, _) \<leftarrow> lookup_page pd upage False None s;
     case pte of
       None \<Rightarrow> Some s
     | Some pte \<Rightarrow> do {
         e \<leftarrow> load_entry s pte;
         if e AND PTE_P \<noteq> 0 then do {
           s \<leftarrow> store_entry pte (e AND NOT PTE_P) s;
           invalidate_pagedir pd s }
         else Some s } }"

text \<open>Reading and writing the dirty and the accessed bit differ only in the flag.\<close>

definition pagedir_is_flag :: "uint32_t \<Rightarrow> ptr \<Rightarrow> ptr \<Rightarrow> mmu \<Rightarrow> bool option" where
  "pagedir_is_flag flag pd vpage s = do {
     (pte, _) \<leftarrow> lookup_page pd vpage False None s;
     case pte of
       None \<Rightarrow> Some False
     | Some pte \<Rightarrow> do { e \<leftarrow> load_entry s pte; Some (e AND flag \<noteq> 0) } }"

definition pagedir_set_flag :: "uint32_t \<Rightarrow> ptr \<Rightarrow> ptr \<Rightarrow> bool \<Rightarrow> mmu \<Rightarrow> mmu option" where
  "pagedir_set_flag flag pd vpage b s = do {
     (pte, _) \<leftarrow> lookup_page pd vpage False None s;
     case pte of
       None \<Rightarrow> Some s
     | Some pte \<Rightarrow> do {
         e \<leftarrow> load_entry s pte;
         if b then store_entry pte (e OR flag) s
         else do { s \<leftarrow> store_entry pte (e AND NOT flag) s; invalidate_pagedir pd s } } }"

definition pagedir_is_dirty :: "ptr \<Rightarrow> ptr \<Rightarrow> mmu \<Rightarrow> bool option" where
  "pagedir_is_dirty = pagedir_is_flag PTE_D"

definition pagedir_set_dirty :: "ptr \<Rightarrow> ptr \<Rightarrow> bool \<Rightarrow> mmu \<Rightarrow> mmu option" where
  "pagedir_set_dirty = pagedir_set_flag PTE_D"

definition pagedir_is_accessed :: "ptr \<Rightarrow> ptr \<Rightarrow> mmu \<Rightarrow> bool option" where
  "pagedir_is_accessed = pagedir_is_flag PTE_A"

definition pagedir_set_accessed :: "ptr \<Rightarrow> ptr \<Rightarrow> bool \<Rightarrow> mmu \<Rightarrow> mmu option" where
  "pagedir_set_accessed = pagedir_set_flag PTE_A"

subsection \<open>Translation\<close>

text \<open>The entry that the processor finds for an address, if both entries on the way are present, and
  its step of keeping it.\<close>

definition table_for :: "mmu \<Rightarrow> ptr \<Rightarrow> ptr \<Rightarrow> ptr option" where
  "table_for s pd va = do { pde \<leftarrow> load_entry s (pd, pd_no va); pde_get_pt pde }"

definition walk :: "mmu \<Rightarrow> ptr \<Rightarrow> ptr \<Rightarrow> uint32_t option" where
  "walk s pd va = do {
     pt \<leftarrow> table_for s pd va;
     e \<leftarrow> load_entry s (pt, pt_no va);
     if bit e 0 then Some e else None }"

definition tlb_fill :: "ptr \<Rightarrow> mmu \<Rightarrow> mmu option" where
  "tlb_fill va s = do {
     pd \<leftarrow> active_pd s;
     e \<leftarrow> walk s pd va;
     Some (s\<lparr>tlb := (tlb s)(pg_round_down va \<mapsto> e)\<rparr>) }"

text \<open>A directory is well formed when its user entries are zero or lead to page tables of their own.
  Page directories share only the tables of the kernel.\<close>

definition table_ok :: "mmu \<Rightarrow> ptr \<Rightarrow> bool" where
  "table_ok s t \<longleftrightarrow> (\<exists>es. tables s t = Some es \<and> length es = 1024)"

definition pd_ok :: "mmu \<Rightarrow> ptr \<Rightarrow> bool" where
  "pd_ok s pd \<longleftrightarrow> pd \<noteq> NULL \<and> table_ok s pd
    \<and> (\<forall>va. is_user_vaddr va \<longrightarrow> load_entry s (pd, pd_no va) = Some 0
        \<or> (\<exists>pt. table_for s pd va = Some pt \<and> pt \<noteq> pd \<and> table_ok s pt))
    \<and> (\<forall>va vb pt. is_user_vaddr va \<longrightarrow> is_user_vaddr vb \<longrightarrow> table_for s pd va = Some pt \<longrightarrow> table_for s pd vb = Some pt
        \<longrightarrow> pd_no va = pd_no vb)"

definition owns :: "mmu \<Rightarrow> ptr \<Rightarrow> ptr set" where
  "owns s pd = insert pd {pt. \<exists>va. is_user_vaddr va \<and> table_for s pd va = Some pt}"

definition vm_ok :: "mmu \<Rightarrow> ptr set \<Rightarrow> bool" where
  "vm_ok s pds \<longleftrightarrow> (\<forall>pd \<in> pds. pd_ok s pd) \<and> (\<forall>pd \<in> pds. \<forall>pd' \<in> pds. pd \<noteq> pd' \<longrightarrow> owns s pd \<inter> owns s pd' = {})"

lemma no_pde_0: "pde_get_pt 0 = None"
  by (simp add: pde_get_pt_def)

lemma table_ok_load: "table_ok s t \<Longrightarrow> \<exists>e. load_entry s (t, pd_no va) = Some e" "table_ok s t \<Longrightarrow> \<exists>e. load_entry s (t, pt_no va) = Some e"
  using no_less by (auto simp: table_ok_def load_entry_def)

lemma table_ok_store:
  assumes "table_ok s t" "unat i < 1024"
  shows "\<exists>s'. store_entry (t, i) v s = Some s' \<and> (\<forall>x. table_ok s' x = table_ok s x)
    \<and> (\<forall>x j. load_entry s' (x, j) = (if x = t \<and> j = i then Some v else load_entry s (x, j)))
    \<and> cr3 s' = cr3 s \<and> tlb s' = tlb s \<and> init_page_dir s' = init_page_dir s \<and> init_ram_pages s' = init_ram_pages s"
  using assms by (auto simp: table_ok_def store_entry_def load_entry_def nth_list_update simp flip: word_unat_eq_iff)

lemma owns_table: "is_user_vaddr va \<Longrightarrow> table_for s pd va = Some pt \<Longrightarrow> pt \<in> owns s pd"
  by (auto simp: owns_def)

lemma pd_okD:
  assumes "pd_ok s pd"
  shows "pd \<noteq> NULL" "table_ok s pd"
    "is_user_vaddr va \<Longrightarrow> load_entry s (pd, pd_no va) = Some 0 \<or> (\<exists>pt. table_for s pd va = Some pt \<and> pt \<noteq> pd \<and> table_ok s pt)"
    "is_user_vaddr va \<Longrightarrow> is_user_vaddr vb \<Longrightarrow> table_for s pd va = Some pt \<Longrightarrow> table_for s pd vb = Some pt \<Longrightarrow> pd_no va = pd_no vb"
  using assms unfolding pd_ok_def by blast+

lemma owns_tables: "pd_ok s pd \<Longrightarrow> t \<in> owns s pd \<Longrightarrow> table_ok s t"
  using pd_okD(2,3) no_pde_0 by (fastforce simp: owns_def table_for_def)

text \<open>What a directory means depends only on the pages it owns.\<close>

definition same_at :: "ptr set \<Rightarrow> mmu \<Rightarrow> mmu \<Rightarrow> bool" where
  "same_at A s s' \<longleftrightarrow> (\<forall>t \<in> A. table_ok s' t = table_ok s t \<and> (\<forall>i. load_entry s' (t, i) = load_entry s (t, i)))"

lemma same_at_owned:
  assumes "same_at (owns s pd) s s'"
  shows "table_for s' pd va = table_for s pd va" "owns s' pd = owns s pd" "pd_ok s' pd = pd_ok s pd"
    "is_user_vaddr va \<Longrightarrow> walk s' pd va = walk s pd va"
proof -
  have t: "table_for s' pd va = table_for s pd va" for va
    using assms by (auto simp: same_at_def owns_def table_for_def)
  then show "table_for s' pd va = table_for s pd va" "owns s' pd = owns s pd"
    by (simp_all add: owns_def)
  have pd: "table_ok s' pd = table_ok s pd" "load_entry s' (pd, i) = load_entry s (pd, i)" for i
    using assms by (simp_all add: same_at_def owns_def)
  have pt: "table_ok s' pt = table_ok s pt" "load_entry s' (pt, i) = load_entry s (pt, i)"
    if "is_user_vaddr va" "table_for s pd va = Some pt" for va pt i
    using assms owns_table [OF that] by (simp_all add: same_at_def)
  have "(\<exists>pt. table_for s pd va = Some pt \<and> pt \<noteq> pd \<and> table_ok s' pt) = (\<exists>pt. table_for s pd va = Some pt \<and> pt \<noteq> pd \<and> table_ok s pt)"
    if "is_user_vaddr va" for va
    using pt(1) [OF that] by blast
  then show "pd_ok s' pd = pd_ok s pd"
    unfolding pd_ok_def t pd by (simp cong: imp_cong)
  show "is_user_vaddr va \<Longrightarrow> walk s' pd va = walk s pd va"
    unfolding walk_def t using pt(2) by (cases "table_for s pd va") auto
qed

text \<open>Directories other than the one that is changed keep their meaning.\<close>

lemma vm_ok_change:
  assumes "vm_ok s pds" "pd \<in> pds" "pd_ok s' pd" "same_at (- (owns s pd \<union> N)) s s'" "owns s' pd \<subseteq> owns s pd \<union> N"
    and N: "\<And>t. t \<in> N \<Longrightarrow> \<not> table_ok s t"
  shows "vm_ok s' pds" "\<And>pd' va. pd' \<in> pds \<Longrightarrow> pd' \<noteq> pd \<Longrightarrow> is_user_vaddr va \<Longrightarrow> walk s' pd' va = walk s pd' va"
    "\<And>pd' i. pd' \<in> pds \<Longrightarrow> pd' \<noteq> pd \<Longrightarrow> load_entry s' (pd', i) = load_entry s (pd', i)"
proof -
  have ok: "pd_ok s pd'" if "pd' \<in> pds" for pd'
    using assms(1) that by (simp add: vm_ok_def)
  have disj: "owns s pd' \<inter> (owns s pd \<union> N) = {}" if "pd' \<in> pds" "pd' \<noteq> pd" for pd'
    using assms(1,2) that owns_tables [OF ok [OF that(1)]] N unfolding vm_ok_def by blast
  have at: "same_at (owns s pd') s s'" if "pd' \<in> pds" "pd' \<noteq> pd" for pd'
    using assms(4) disj [OF that] unfolding same_at_def by blast
  note same = same_at_owned [OF at]
  show "\<And>pd' i. pd' \<in> pds \<Longrightarrow> pd' \<noteq> pd \<Longrightarrow> load_entry s' (pd', i) = load_entry s (pd', i)"
    using at by (simp add: same_at_def owns_def)
  show "\<And>pd' va. pd' \<in> pds \<Longrightarrow> pd' \<noteq> pd \<Longrightarrow> is_user_vaddr va \<Longrightarrow> walk s' pd' va = walk s pd' va"
    using same(4) .
  have "pd_ok s' pd'" if "pd' \<in> pds" for pd'
    using same(3) [of pd'] ok [OF that] that assms(3) by (cases "pd' = pd") auto
  moreover have "owns s' pd1 \<inter> owns s' pd2 = {}" if "pd1 \<in> pds" "pd2 \<in> pds" "pd1 \<noteq> pd2" for pd1 pd2
  proof -
    consider "pd1 \<noteq> pd" "pd2 \<noteq> pd" | "pd1 = pd" | "pd2 = pd"
      by blast
    then show ?thesis
    proof cases
      case 1
      then show ?thesis
        using same(2) that assms(1) by (simp add: vm_ok_def)
    next
      case 2
      then show ?thesis
        using same(2) [of pd2] disj [of pd2] that assms(5) by blast
    next
      case 3
      then show ?thesis
        using same(2) [of pd1] disj [of pd1] that assms(5) by blast
    qed
  qed
  ultimately show "vm_ok s' pds"
    by (simp add: vm_ok_def)
qed

subsection \<open>Looking up an entry\<close>

lemma lookup_found:
  assumes "pd_ok s pd" "table_for s pd va = Some pt" "create \<longrightarrow> is_user_vaddr va"
  shows "lookup_page pd va create page s = Some (Some (pt, pt_no va), s)"
proof -
  obtain e where "load_entry s (pd, pd_no va) = Some e" "pde_get_pt e = Some pt"
    using assms(2) by (auto simp: table_for_def bind_eq_Some_conv)
  moreover from this have "e \<noteq> 0"
    using no_pde_0 by auto
  ultimately show ?thesis
    using assms(3) pd_okD(1) [OF assms(1)] by (simp add: lookup_page_def)
qed

lemma lookup_missing:
  assumes "pd_ok s pd" "load_entry s (pd, pd_no va) = Some 0"
  shows "lookup_page pd va False page s = Some (None, s)" "is_user_vaddr va \<Longrightarrow> lookup_page pd va True None s = Some (None, s)"
  using assms pd_okD(1) [OF assms(1)] by (auto simp: lookup_page_def)

text \<open>A new page table is empty, so no translation changes.\<close>

lemma load_new_table: "load_entry (s\<lparr>tables := (tables s)(t \<mapsto> replicate 1024 0)\<rparr>) (x, i) =
    (if x = t then (if unat i < 1024 then Some 0 else None) else load_entry s (x, i))"
  by (simp add: load_entry_def)

lemma lookup_create:
  assumes ok: "pd_ok s pd" and va: "is_user_vaddr va" "load_entry s (pd, pd_no va) = Some 0"
    and pt: "pg_ofs pt = 0" "is_kernel_vaddr pt" "tables s pt = None"
  obtains s' where "lookup_page pd va True (Some pt) s = Some (Some (pt, pt_no va), s')"
    "\<And>vb. table_for s' pd vb = (if pd_no vb = pd_no va then Some pt else table_for s pd vb)"
    "\<And>x i. x \<noteq> pd \<Longrightarrow> load_entry s' (x, i) = (if x = pt then (if unat i < 1024 then Some 0 else None) else load_entry s (x, i))"
    "\<And>x. table_ok s' x \<longleftrightarrow> x = pt \<or> table_ok s x" "pd_ok s' pd"
    "cr3 s' = cr3 s" "tlb s' = tlb s" "init_page_dir s' = init_page_dir s" "init_ram_pages s' = init_ram_pages s"
proof -
  define s1 where "s1 = s\<lparr>tables := (tables s)(pt \<mapsto> replicate 1024 0)\<rparr>"
  have neq: "pd \<noteq> pt" "\<not> table_ok s pt"
    using pd_okD(2) [OF ok] pt(3) by (auto simp: table_ok_def)
  have s1: "table_ok s1 x \<longleftrightarrow> x = pt \<or> table_ok s x" for x
    by (auto simp: s1_def table_ok_def)
  obtain e where e: "pde_create pt = Some e" "pde_get_pt e = Some pt" "e \<noteq> 0"
    using pde_create_ok pt(1,2) by blast
  obtain s' where s': "store_entry (pd, pd_no va) e s1 = Some s'" "\<And>x. table_ok s' x = table_ok s1 x"
      "\<And>x j. load_entry s' (x, j) = (if x = pd \<and> j = pd_no va then Some e else load_entry s1 (x, j))"
      "cr3 s' = cr3 s1" "tlb s' = tlb s1" "init_page_dir s' = init_page_dir s1" "init_ram_pages s' = init_ram_pages s1"
    using table_ok_store [of s1 pd "pd_no va" e] s1 pd_okD(2) [OF ok] no_less(2) by blast
  have load: "load_entry s' (x, i) = (if x = pd \<and> i = pd_no va then Some e
      else if x = pt then (if unat i < 1024 then Some 0 else None) else load_entry s (x, i))" for x i
    using s'(3) by (simp add: s1_def load_new_table)
  have tf: "table_for s' pd vb = (if pd_no vb = pd_no va then Some pt else table_for s pd vb)" for vb
    using e(2) neq by (simp add: table_for_def load)
  have fresh: "table_for s pd vb \<noteq> Some pt" if "is_user_vaddr vb" for vb
    using pd_okD(3) [OF ok that] neq(2) no_pde_0 by (auto simp: table_for_def)
  have "pd_ok s' pd"
    unfolding pd_ok_def
  proof (intro conjI allI impI)
    show "pd \<noteq> NULL" "table_ok s' pd"
      using pd_okD(1,2) [OF ok] s'(2) s1 by simp_all
    fix vb
    assume vb: "is_user_vaddr vb"
    show "load_entry s' (pd, pd_no vb) = Some 0 \<or> (\<exists>pt. table_for s' pd vb = Some pt \<and> pt \<noteq> pd \<and> table_ok s' pt)"
      using pd_okD(3) [OF ok vb] neq s'(2) s1 by (auto simp: tf load)
    fix vc pt'
    assume "is_user_vaddr vc" "table_for s' pd vb = Some pt'" "table_for s' pd vc = Some pt'"
    then show "pd_no vb = pd_no vc"
      unfolding tf using pd_okD(4) [OF ok vb] fresh vb by metis
  qed
  moreover have "lookup_page pd va True (Some pt) s = Some (Some (pt, pt_no va), s')"
    using va pd_okD(1) [OF ok] e s'(1) by (simp add: lookup_page_def s1_def Let_def)
  ultimately show thesis
    using that tf load s' s1 by (simp add: s1_def)
qed

lemma same_page: "pg_ofs upage = 0 \<Longrightarrow> pg_round_down va = upage \<longleftrightarrow> pd_no va = pd_no upage \<and> pt_no va = pt_no upage"
  using round_down [of va] page_eq [of "pg_round_down va" upage] by auto

text \<open>Changing one entry of a page table changes the translation of one page.\<close>

lemma store_leaf:
  assumes ok: "pd_ok s pd" and va: "is_user_vaddr va" "table_for s pd va = Some pt"
  obtains s' where "store_entry (pt, pt_no va) e s = Some s'" "pd_ok s' pd" "owns s' pd = owns s pd" "same_at (- owns s pd) s s'"
    "\<And>vb. is_user_vaddr vb \<Longrightarrow> walk s' pd vb =
      (if pd_no vb = pd_no va \<and> pt_no vb = pt_no va then (if bit e 0 then Some e else None) else walk s pd vb)"
    "cr3 s' = cr3 s" "tlb s' = tlb s" "init_page_dir s' = init_page_dir s" "init_ram_pages s' = init_ram_pages s"
proof -
  have pt: "table_ok s pt" "pt \<noteq> pd"
    using pd_okD(3) [OF ok va(1)] va(2) no_pde_0 by (auto simp: table_for_def)
  obtain s' where s': "store_entry (pt, pt_no va) e s = Some s'" "\<And>x. table_ok s' x = table_ok s x"
      "\<And>x j. load_entry s' (x, j) = (if x = pt \<and> j = pt_no va then Some e else load_entry s (x, j))"
      "cr3 s' = cr3 s" "tlb s' = tlb s" "init_page_dir s' = init_page_dir s" "init_ram_pages s' = init_ram_pages s"
    using table_ok_store [OF pt(1) no_less(1), of va e] by blast
  have tf: "table_for s' pd vb = table_for s pd vb" for vb
    using pt(2) by (simp add: table_for_def s'(3))
  have pd: "load_entry s' (pd, i) = load_entry s (pd, i)" for i
    using pt(2) by (simp add: s'(3))
  have "owns s' pd = owns s pd"
    by (simp add: owns_def tf)
  moreover have "pd_ok s' pd"
    using ok unfolding pd_ok_def tf s'(2) pd .
  moreover have "same_at (- owns s pd) s s'"
    using s'(2,3) owns_table [OF va] by (auto simp: same_at_def)
  moreover have "walk s' pd vb = (if pd_no vb = pd_no va \<and> pt_no vb = pt_no va then (if bit e 0 then Some e else None) else walk s pd vb)"
    if vb: "is_user_vaddr vb" for vb
  proof (cases "table_for s pd vb = Some pt")
    case True
    then show ?thesis
      using pd_okD(4) [OF ok vb va(1) True va(2)] by (simp add: walk_def tf s'(3))
  next
    case False
    moreover have "pd_no vb \<noteq> pd_no va"
      using False va(2) by (auto simp: table_for_def)
    ultimately show ?thesis
      by (cases "table_for s pd vb") (simp_all add: walk_def tf s'(3))
  qed
  ultimately show thesis
    using that s' by blast
qed

definition fresh_page :: "mmu \<Rightarrow> ptr \<Rightarrow> bool" where
  "fresh_page s pt \<longleftrightarrow> pg_ofs pt = 0 \<and> is_kernel_vaddr pt \<and> tables s pt = None"

lemma walk_entry: "walk s pd va = None \<Longrightarrow> table_for s pd va = Some pt \<Longrightarrow> table_ok s pt \<Longrightarrow>
    \<exists>e. load_entry s (pt, pt_no va) = Some e \<and> \<not> bit e 0"
  using table_ok_load(2) [of s pt va] by (auto simp: walk_def split: if_splits)

text \<open>The state behind the creation of a page table, and the table that it leads to.\<close>

lemma lookup_user:
  assumes vm: "vm_ok s pds" "pd \<in> pds" and va: "is_user_vaddr va" and page: "\<And>pt. page = Some pt \<Longrightarrow> fresh_page s pt"
    and room: "page \<noteq> None \<or> load_entry s (pd, pd_no va) \<noteq> Some 0"
  obtains pt s' where "lookup_page pd va True page s = Some (Some (pt, pt_no va), s')" "table_for s' pd va = Some pt"
    "table_ok s' pt" "vm_ok s' pds" "\<And>pd' vb. pd' \<in> pds \<Longrightarrow> is_user_vaddr vb \<Longrightarrow> walk s' pd' vb = walk s pd' vb"
    "\<And>pd' i. pd' \<in> pds \<Longrightarrow> pd' \<noteq> pd \<Longrightarrow> load_entry s' (pd', i) = load_entry s (pd', i)"
    "cr3 s' = cr3 s" "tlb s' = tlb s" "init_page_dir s' = init_page_dir s" "init_ram_pages s' = init_ram_pages s"
proof -
  have ok: "pd_ok s pd"
    using vm by (simp add: vm_ok_def)
  show thesis
  proof (cases "load_entry s (pd, pd_no va) = Some 0")
    case False
    then obtain pt where "table_for s pd va = Some pt" "table_ok s pt"
      using pd_okD(3) [OF ok va] by blast
    then show thesis
      using that [of pt s] lookup_found [OF ok, of va pt True page] va vm(1) by simp
  next
    case True
    then obtain pt where pt: "page = Some pt" "pg_ofs pt = 0" "is_kernel_vaddr pt" "tables s pt = None"
      using room page by (auto simp: fresh_page_def)
    obtain s' where s': "lookup_page pd va True (Some pt) s = Some (Some (pt, pt_no va), s')"
        "\<And>vb. table_for s' pd vb = (if pd_no vb = pd_no va then Some pt else table_for s pd vb)"
        "\<And>x i. x \<noteq> pd \<Longrightarrow> load_entry s' (x, i) = (if x = pt then (if unat i < 1024 then Some 0 else None) else load_entry s (x, i))"
        "\<And>x. table_ok s' x \<longleftrightarrow> x = pt \<or> table_ok s x" "pd_ok s' pd"
        "cr3 s' = cr3 s" "tlb s' = tlb s" "init_page_dir s' = init_page_dir s" "init_ram_pages s' = init_ram_pages s"
      by (rule lookup_create [OF ok va True pt(2-4)]) blast
    have new: "\<not> table_ok s pt"
      using pt(4) by (simp add: table_ok_def)
    have own: "owns s' pd \<subseteq> owns s pd \<union> {pt}" "same_at (- (owns s pd \<union> {pt})) s s'"
      using s'(2-4) by (auto simp: owns_def same_at_def split: if_splits)
    have vm': "vm_ok s' pds" "\<And>pd' vb. pd' \<in> pds \<Longrightarrow> pd' \<noteq> pd \<Longrightarrow> is_user_vaddr vb \<Longrightarrow> walk s' pd' vb = walk s pd' vb"
        "\<And>pd' i. pd' \<in> pds \<Longrightarrow> pd' \<noteq> pd \<Longrightarrow> load_entry s' (pd', i) = load_entry s (pd', i)"
      using vm_ok_change [OF vm s'(5) own(2,1)] new by auto
    have "walk s' pd vb = walk s pd vb" if vb: "is_user_vaddr vb" for vb
    proof (cases "pd_no vb = pd_no va")
      case same: True
      then have "walk s pd vb = None"
        using True no_pde_0 by (simp add: walk_def table_for_def)
      moreover have "pt \<noteq> pd"
        using new pd_okD(2) [OF ok] by auto
      ultimately show ?thesis
        using s'(2,3) same no_less(1) [of vb] by (simp add: walk_def)
    next
      case False
      have "table_for s pd vb \<noteq> Some pt" "table_for s pd vb \<noteq> Some pd"
        using pd_okD(3) [OF ok vb] new no_pde_0 by (auto simp: table_for_def)
      then show ?thesis
        using False by (cases "table_for s pd vb") (auto simp: walk_def s'(2,3))
    qed
    then show thesis
      using that [of pt s'] s' vm' pt(1) by metis
  qed
qed

lemma change_entry:
  assumes vm: "vm_ok s pds" "pd \<in> pds" and va: "is_user_vaddr va" "table_for s pd va = Some pt"
    and st: "store_entry (pt, pt_no va) e s = Some s'"
  shows "vm_ok s' pds" "\<And>pd' vb. pd' \<in> pds \<Longrightarrow> is_user_vaddr vb \<Longrightarrow> walk s' pd' vb =
      (if pd' = pd \<and> pd_no vb = pd_no va \<and> pt_no vb = pt_no va then (if bit e 0 then Some e else None) else walk s pd' vb)"
    "\<And>pd' i. pd' \<in> pds \<Longrightarrow> pd' \<noteq> pd \<Longrightarrow> load_entry s' (pd', i) = load_entry s (pd', i)"
    "cr3 s' = cr3 s" "tlb s' = tlb s" "init_page_dir s' = init_page_dir s" "init_ram_pages s' = init_ram_pages s"
proof -
  have ok: "pd_ok s pd"
    using vm by (simp add: vm_ok_def)
  obtain s2 where s2: "store_entry (pt, pt_no va) e s = Some s2" "pd_ok s2 pd" "owns s2 pd = owns s pd" "same_at (- owns s pd) s s2"
      "\<And>vb. is_user_vaddr vb \<Longrightarrow> walk s2 pd vb =
        (if pd_no vb = pd_no va \<and> pt_no vb = pt_no va then (if bit e 0 then Some e else None) else walk s pd vb)"
      "cr3 s2 = cr3 s" "tlb s2 = tlb s" "init_page_dir s2 = init_page_dir s" "init_ram_pages s2 = init_ram_pages s"
    using store_leaf [OF ok va] by blast
  then have eq: "s2 = s'"
    using st by simp
  note s' = s2 [unfolded eq]
  show vm': "vm_ok s' pds" "\<And>pd' i. pd' \<in> pds \<Longrightarrow> pd' \<noteq> pd \<Longrightarrow> load_entry s' (pd', i) = load_entry s (pd', i)"
      "cr3 s' = cr3 s" "tlb s' = tlb s" "init_page_dir s' = init_page_dir s" "init_ram_pages s' = init_ram_pages s"
    using vm_ok_change [OF vm s'(2), of "{}"] s'(3,4,6-9) by auto
  show "walk s' pd' vb = (if pd' = pd \<and> pd_no vb = pd_no va \<and> pt_no vb = pt_no va then (if bit e 0 then Some e else None) else walk s pd' vb)"
    if "pd' \<in> pds" "is_user_vaddr vb" for pd' vb
    using s'(5) [OF that(2)] vm_ok_change(2) [OF vm s'(2), of "{}"] s'(3,4) that by (cases "pd' = pd") auto
qed

lemma set_page_ok:
  assumes vm: "vm_ok s pds" "pd \<in> pds" "pd \<noteq> init_page_dir s" and up: "pg_ofs upage = 0" "is_user_vaddr upage"
    and kp: "pg_ofs kpage = 0" "is_kernel_vaddr kpage" "drop_bit PTSHIFT (kpage - PHYS_BASE) < init_ram_pages s"
    and free: "walk s pd upage = None" and page: "\<And>pt. page = Some pt \<Longrightarrow> fresh_page s pt"
    and e: "pte_create_user kpage writable = Some e" "bit e 0"
  shows "\<exists>b s'. pagedir_set_page pd upage kpage writable page s = Some (b, s') \<and> vm_ok s' pds
    \<and> (b \<longleftrightarrow> page \<noteq> None \<or> load_entry s (pd, pd_no upage) \<noteq> Some 0)
    \<and> (\<forall>pd' \<in> pds. \<forall>va. is_user_vaddr va \<longrightarrow> walk s' pd' va = (if b \<and> pd' = pd \<and> pg_round_down va = upage then Some e else walk s pd' va))
    \<and> (\<forall>pd' \<in> pds - {pd}. \<forall>i. load_entry s' (pd', i) = load_entry s (pd', i))
    \<and> cr3 s' = cr3 s \<and> tlb s' = tlb s \<and> init_page_dir s' = init_page_dir s \<and> init_ram_pages s' = init_ram_pages s"
proof (cases "page \<noteq> None \<or> load_entry s (pd, pd_no upage) \<noteq> Some 0")
  case False
  then have "lookup_page pd upage True page s = Some (None, s)"
    using lookup_missing(2) [of s pd upage] vm up by (simp add: vm_ok_def)
  then have "pagedir_set_page pd upage kpage writable page s = Some (False, s)"
    using up kp vm(3) by (simp add: pagedir_set_page_def vtop_def)
  then show ?thesis
    using False vm(1) by (intro exI [of _ False] exI [of _ s]) simp
next
  case True
  obtain pt s1 where s1: "lookup_page pd upage True page s = Some (Some (pt, pt_no upage), s1)" "table_for s1 pd upage = Some pt"
      "table_ok s1 pt" "vm_ok s1 pds" "\<And>pd' vb. pd' \<in> pds \<Longrightarrow> is_user_vaddr vb \<Longrightarrow> walk s1 pd' vb = walk s pd' vb"
      "\<And>pd' i. pd' \<in> pds \<Longrightarrow> pd' \<noteq> pd \<Longrightarrow> load_entry s1 (pd', i) = load_entry s (pd', i)"
      "cr3 s1 = cr3 s" "tlb s1 = tlb s" "init_page_dir s1 = init_page_dir s" "init_ram_pages s1 = init_ram_pages s"
    using lookup_user [OF vm(1,2) up(2) page True] by blast
  obtain old where old: "load_entry s1 (pt, pt_no upage) = Some old" "\<not> bit old 0"
    using walk_entry [OF _ s1(2,3)] s1(5) [OF vm(2) up(2)] free by auto
  obtain s' where st: "store_entry (pt, pt_no upage) e s1 = Some s'"
    using table_ok_store [OF s1(3) no_less(1)] by blast
  note s' = st change_entry [OF s1(4) vm(2) up(2) s1(2) st]
  have "pagedir_set_page pd upage kpage writable page s = Some (True, s')"
    using up kp vm(3) s1(1) old e(1) s'(1) by (simp add: pagedir_set_page_def vtop_def flag_set)
  moreover have "\<forall>pd' \<in> pds. \<forall>va. is_user_vaddr va \<longrightarrow> walk s' pd' va = (if True \<and> pd' = pd \<and> pg_round_down va = upage then Some e else walk s pd' va)"
    using s'(3) s1(5) e(2) by (simp add: same_page [OF up(1)])
  ultimately show ?thesis
    using True s'(2) s1(6-10) s'(4-8) by (intro exI [of _ True] exI [of _ s'] conjI) simp_all
qed

lemma get_page_ok:
  assumes "pd_ok s pd" "is_user_vaddr va"
  shows "pagedir_get_page pd va s = (case walk s pd va of
      None \<Rightarrow> Some NULL | Some e \<Rightarrow> do { page \<leftarrow> pte_get_page e; Some (page + pg_ofs va) })"
proof (cases "load_entry s (pd, pd_no va) = Some 0")
  case True
  then show ?thesis
    using lookup_missing(1) [OF assms(1) True] assms(2) no_pde_0 by (simp add: pagedir_get_page_def walk_def table_for_def)
next
  case False
  then obtain pt where pt: "table_for s pd va = Some pt" "table_ok s pt"
    using pd_okD(3) [OF assms] by blast
  then obtain e where "load_entry s (pt, pt_no va) = Some e"
    using table_ok_load(2) by blast
  then show ?thesis
    using lookup_found [OF assms(1) pt(1), of False None] pt(1) assms(2) by (simp add: pagedir_get_page_def walk_def flag_set)
qed

lemma invalidate_pagedir_ok:
  assumes "active_pd s = Some a" "is_kernel_vaddr a" "pd \<noteq> NULL"
  shows "\<exists>s'. invalidate_pagedir pd s = Some s' \<and> tables s' = tables s \<and> init_page_dir s' = init_page_dir s
    \<and> init_ram_pages s' = init_ram_pages s \<and> cr3 s' = cr3 s \<and> tlb s' = (if a = pd then (\<lambda>_. None) else tlb s)"
  using assms by (auto simp: invalidate_pagedir_def pagedir_activate_def active_pd_def vtop_def ptov_def bind_eq_Some_conv)

text \<open>Changing the entry of a mapped page: the lemma covers clearing the page and both flags.\<close>

lemma load_walk:
  assumes "tables s' = tables s"
  shows "load_entry s' = load_entry s" "walk s' = walk s" "vm_ok s' = vm_ok s" "owns s' = owns s"
proof -
  show l: "load_entry s' = load_entry s"
    using assms by (simp add: load_entry_def fun_eq_iff)
  then have t: "table_for s' = table_for s"
    by (simp add: table_for_def fun_eq_iff)
  then show "walk s' = walk s" "owns s' = owns s"
    using l by (simp_all add: walk_def owns_def fun_eq_iff)
  then show "vm_ok s' = vm_ok s"
    using l t assms by (simp add: vm_ok_def pd_ok_def table_ok_def fun_eq_iff)
qed

subsection \<open>The translation lookaside buffer\<close>

text \<open>Two entries translate alike when they agree on the page and the access rights.\<close>

definition agree :: "uint32_t \<Rightarrow> uint32_t \<Rightarrow> bool" where
  "agree e e' \<longleftrightarrow> e AND PTE_ADDR = e' AND PTE_ADDR \<and> bit e 1 = bit e' 1 \<and> bit e 2 = bit e' 2"

definition tlb_ok :: "mmu \<Rightarrow> ptr \<Rightarrow> bool" where
  "tlb_ok s a \<longleftrightarrow> (\<forall>va e. is_user_vaddr va \<longrightarrow> tlb s (pg_round_down va) = Some e \<longrightarrow> (\<exists>e'. walk s a va = Some e' \<and> agree e e'))"

definition mm_ok :: "mmu \<Rightarrow> ptr set \<Rightarrow> bool" where
  "mm_ok s pds \<longleftrightarrow> vm_ok s pds \<and> init_page_dir s \<in> pds \<and> (\<forall>pd \<in> pds. is_kernel_vaddr pd)
    \<and> (\<forall>va. is_user_vaddr va \<longrightarrow> load_entry s (init_page_dir s, pd_no va) = Some 0)
    \<and> (\<exists>a \<in> pds. active_pd s = Some a \<and> tlb_ok s a)"

text \<open>The guards of the steps are what the callers see to: the directories exist, pages from
  \<^verbatim>\<open>palloc_get_page\<close> are not in use, the directory that is destroyed is not active and the
  pages of the process are not page tables of another one.\<close>

inductive mm_step :: "mmu \<times> ptr set \<Rightarrow> mmu \<times> ptr set \<Rightarrow> bool" where
  create: "fresh_page s pd \<Longrightarrow> pagedir_create (Some pd) s = Some (r, s') \<Longrightarrow> mm_step (s, pds) (s', insert pd pds)"
| destroy: "pd \<in> pds \<Longrightarrow> active_pd s \<noteq> Some pd \<Longrightarrow> pagedir_destroy pd s = Some (freed, s') \<Longrightarrow>
    (\<forall>pd' \<in> pds - {pd}. owns s pd' \<inter> set freed = {}) \<Longrightarrow> mm_step (s, pds) (s', pds - {pd})"
| set: "pd \<in> pds \<Longrightarrow> (\<forall>pt. page = Some pt \<longrightarrow> fresh_page s pt) \<Longrightarrow>
    pagedir_set_page pd upage kpage w page s = Some (b, s') \<Longrightarrow> mm_step (s, pds) (s', pds)"
| clear: "pd \<in> pds \<Longrightarrow> pagedir_clear_page pd upage s = Some s' \<Longrightarrow> mm_step (s, pds) (s', pds)"
| dirty: "pd \<in> pds \<Longrightarrow> is_user_vaddr vpage \<Longrightarrow> pagedir_set_dirty pd vpage b s = Some s' \<Longrightarrow> mm_step (s, pds) (s', pds)"
| accessed: "pd \<in> pds \<Longrightarrow> is_user_vaddr vpage \<Longrightarrow> pagedir_set_accessed pd vpage b s = Some s' \<Longrightarrow> mm_step (s, pds) (s', pds)"
| activate: "pd \<in> pds \<or> pd = NULL \<Longrightarrow> pagedir_activate pd s = Some s' \<Longrightarrow> mm_step (s, pds) (s', pds)"
| fill: "tlb_fill va s = Some s' \<Longrightarrow> mm_step (s, pds) (s', pds)"

lemma mm_okD:
  assumes "mm_ok s pds"
  obtains a where "vm_ok s pds" "init_page_dir s \<in> pds" "a \<in> pds" "active_pd s = Some a" "is_kernel_vaddr a" "tlb_ok s a"
  using assms by (auto simp: mm_ok_def)

text \<open>A step that leaves all translations of the active directory alike keeps the invariant.\<close>

lemma tlb_ok_agree:
  assumes "tlb_ok s a" "\<And>va e. is_user_vaddr va \<Longrightarrow> tlb s' (pg_round_down va) = Some e \<Longrightarrow> tlb s (pg_round_down va) = Some e"
    and "\<And>va e. is_user_vaddr va \<Longrightarrow> tlb s' (pg_round_down va) = Some e \<Longrightarrow> walk s a va \<noteq> None \<Longrightarrow>
      \<exists>e1 e2. walk s a va = Some e1 \<and> walk s' a va = Some e2 \<and> agree e1 e2"
  shows "tlb_ok s' a"
  unfolding tlb_ok_def
proof (intro allI impI)
  fix va e
  assume va: "is_user_vaddr va" "tlb s' (pg_round_down va) = Some e"
  then obtain e' where e': "walk s a va = Some e'" "agree e e'"
    using assms(1,2) unfolding tlb_ok_def by blast
  then obtain e2 where "walk s' a va = Some e2" "agree e' e2"
    using assms(3) [OF va] by auto
  then show "\<exists>e'. walk s' a va = Some e' \<and> agree e e'"
    using e'(2) by (auto simp: agree_def)
qed

lemma agree_refl: "agree e e"
  by (simp add: agree_def)

lemma agree_flag: "agree e (e OR PTE_D)" "agree e (e OR PTE_A)"
proof -
  have "flag_word PTE_D" "flag_word PTE_A"
    unfolding flag_word_def flag_bits bit_exp_iff by auto
  moreover have "(e OR f) AND PTE_ADDR = e AND PTE_ADDR" if "flag_word f" for f
    using that by (intro bit_word_eqI) (auto simp: masks bit_simps flag_word_def not_less)
  ultimately show "agree e (e OR PTE_D)" "agree e (e OR PTE_A)"
    unfolding agree_def flag_bits by (auto simp: bit_simps)
qed

lemma mm_ok_same:
  assumes "mm_ok s pds" "vm_ok s' pds" "init_page_dir s' = init_page_dir s" "cr3 s' = cr3 s"
    and "\<And>va. is_user_vaddr va \<Longrightarrow> load_entry s' (init_page_dir s, pd_no va) = load_entry s (init_page_dir s, pd_no va)"
    and "\<And>a. active_pd s = Some a \<Longrightarrow> tlb_ok s a \<Longrightarrow> a \<in> pds \<Longrightarrow> tlb_ok s' a"
  shows "mm_ok s' pds"
  using assms unfolding mm_ok_def active_pd_def by auto

lemma mm_ok_table:
  assumes "mm_ok s pds" "is_user_vaddr va" "table_for s pd va = Some pt"
  shows "pd \<noteq> init_page_dir s"
  using assms no_pde_0 by (auto simp: mm_ok_def table_for_def)

lemma store_invalidate_ok:
  assumes "mm_ok s pds" "pd \<in> pds" "is_user_vaddr va" "table_for s pd va = Some pt"
    and "store_entry (pt, pt_no va) e s = Some s1" "invalidate_pagedir pd s1 = Some s'"
  shows "mm_ok s' pds"
proof -
  obtain a where a: "vm_ok s pds" "init_page_dir s \<in> pds" "a \<in> pds" "active_pd s = Some a" "is_kernel_vaddr a" "tlb_ok s a"
    using mm_okD [OF assms(1)] .
  have s1: "vm_ok s1 pds" "\<And>pd' vb. pd' \<in> pds \<Longrightarrow> is_user_vaddr vb \<Longrightarrow> walk s1 pd' vb =
        (if pd' = pd \<and> pd_no vb = pd_no va \<and> pt_no vb = pt_no va then (if bit e 0 then Some e else None) else walk s pd' vb)"
      "\<And>pd' i. pd' \<in> pds \<Longrightarrow> pd' \<noteq> pd \<Longrightarrow> load_entry s1 (pd', i) = load_entry s (pd', i)"
      "cr3 s1 = cr3 s" "tlb s1 = tlb s" "init_page_dir s1 = init_page_dir s"
    using change_entry [OF a(1) assms(2-5)] by blast+
  have "active_pd s1 = Some a" "pd \<noteq> NULL"
    using a(1,4) s1(4) assms(2) pd_okD(1) by (auto simp: active_pd_def vm_ok_def)
  then have s': "tables s' = tables s1" "init_page_dir s' = init_page_dir s1" "cr3 s' = cr3 s1"
      "tlb s' = (if a = pd then (\<lambda>_. None) else tlb s1)"
    using invalidate_pagedir_ok [of s1 a pd] a(5) assms(6) by auto
  show ?thesis
  proof (rule mm_ok_same [OF assms(1)])
    show "vm_ok s' pds" "init_page_dir s' = init_page_dir s" "cr3 s' = cr3 s"
      using load_walk(3) [OF s'(1)] s1 s' by simp_all
    show "load_entry s' (init_page_dir s, pd_no vb) = load_entry s (init_page_dir s, pd_no vb)" for vb
      using load_walk(1) [OF s'(1)] s1(3) [OF a(2)] mm_ok_table [OF assms(1,3,4)] by simp
    fix a'
    assume "active_pd s = Some a'"
    then have "a' = a"
      using a(4) by simp
    then show "tlb_ok s' a'"
      using s'(4) s1(2,5) a(3,6) load_walk(2) [OF s'(1)] by (cases "a = pd") (auto simp: tlb_ok_def)
  qed
qed

lemma set_flag_true_ok:
  assumes "mm_ok s pds" "pd \<in> pds" "is_user_vaddr va" "table_for s pd va = Some pt" "load_entry s (pt, pt_no va) = Some e"
    and "store_entry (pt, pt_no va) e' s = Some s'" "agree e e'" "bit e' 0 = bit e 0"
  shows "mm_ok s' pds"
proof -
  obtain a where a: "vm_ok s pds" "init_page_dir s \<in> pds" "a \<in> pds" "active_pd s = Some a" "tlb_ok s a"
    using mm_okD [OF assms(1)] .
  have s': "vm_ok s' pds" "\<And>pd' vb. pd' \<in> pds \<Longrightarrow> is_user_vaddr vb \<Longrightarrow> walk s' pd' vb =
        (if pd' = pd \<and> pd_no vb = pd_no va \<and> pt_no vb = pt_no va then (if bit e' 0 then Some e' else None) else walk s pd' vb)"
      "\<And>pd' i. pd' \<in> pds \<Longrightarrow> pd' \<noteq> pd \<Longrightarrow> load_entry s' (pd', i) = load_entry s (pd', i)"
      "cr3 s' = cr3 s" "tlb s' = tlb s" "init_page_dir s' = init_page_dir s"
    using change_entry [OF a(1) assms(2-4,6)] by blast+
  have w: "walk s pd vb = (if bit e 0 then Some e else None)" if "pd_no vb = pd_no va" "pt_no vb = pt_no va" for vb
    using assms(4,5) that by (simp add: walk_def table_for_def)
  show ?thesis
  proof (rule mm_ok_same [OF assms(1) s'(1,6,4)])
    show "load_entry s' (init_page_dir s, pd_no vb) = load_entry s (init_page_dir s, pd_no vb)" for vb
      using s'(3) [OF a(2)] mm_ok_table [OF assms(1,3,4)] by simp
    fix a'
    assume a': "active_pd s = Some a'" "tlb_ok s a'" "a' \<in> pds"
    show "tlb_ok s' a'"
    proof (rule tlb_ok_agree [OF a'(2)])
      fix vb x
      assume vb: "is_user_vaddr vb" "walk s a' vb \<noteq> None"
      show "\<exists>e1 e2. walk s a' vb = Some e1 \<and> walk s' a' vb = Some e2 \<and> agree e1 e2"
        using s'(2) [OF a'(3) vb(1)] w [of vb] vb(2) assms(7,8) agree_refl by (auto split: if_splits)
    qed (simp add: s'(5))
  qed
qed

lemma set_flag_ok:
  assumes "mm_ok s pds" "pd \<in> pds" "is_user_vaddr va" "pagedir_set_flag f pd va b s = Some s'" "f = PTE_D \<or> f = PTE_A"
  shows "mm_ok s' pds"
proof -
  have ok: "pd_ok s pd"
    using assms(1,2) by (auto simp: mm_ok_def vm_ok_def)
  show ?thesis
  proof (cases "load_entry s (pd, pd_no va) = Some 0")
    case True
    then show ?thesis
      using lookup_missing(1) [OF ok True] assms(1,4) by (simp add: pagedir_set_flag_def)
  next
    case False
    then obtain pt where pt: "table_for s pd va = Some pt" "table_ok s pt"
      using pd_okD(3) [OF ok assms(3)] by blast
    then obtain e where e: "load_entry s (pt, pt_no va) = Some e"
      using table_ok_load(2) by blast
    have look: "lookup_page pd va False None s = Some (Some (pt, pt_no va), s)"
      using lookup_found [OF ok pt(1)] by simp
    have f0: "bit (e OR f) 0 = bit e 0"
      using assms(5) unfolding flag_bits by (auto simp: bit_simps)
    show ?thesis
    proof (cases b)
      case True
      then have "store_entry (pt, pt_no va) (e OR f) s = Some s'"
        using assms(4) look e by (simp add: pagedir_set_flag_def)
      then show ?thesis
        using set_flag_true_ok [OF assms(1-3) pt(1) e] agree_flag f0 assms(5) by blast
    next
      case False
      then obtain s1 where "store_entry (pt, pt_no va) (e AND NOT f) s = Some s1" "invalidate_pagedir pd s1 = Some s'"
        using assms(4) look e by (auto simp: pagedir_set_flag_def bind_eq_Some_conv)
      then show ?thesis
        using store_invalidate_ok [OF assms(1-3) pt(1)] by blast
    qed
  qed
qed

lemma clear_page_ok:
  assumes "mm_ok s pds" "pd \<in> pds" "pagedir_clear_page pd upage s = Some s'"
  shows "mm_ok s' pds"
proof -
  have ok: "pd_ok s pd" and up: "is_user_vaddr upage"
    using assms by (auto simp: mm_ok_def vm_ok_def pagedir_clear_page_def)
  show ?thesis
  proof (cases "load_entry s (pd, pd_no upage) = Some 0")
    case True
    then show ?thesis
      using lookup_missing(1) [OF ok True] assms(1,3) by (simp add: pagedir_clear_page_def)
  next
    case False
    then obtain pt where pt: "table_for s pd upage = Some pt" "table_ok s pt"
      using pd_okD(3) [OF ok up] by blast
    then obtain e where e: "load_entry s (pt, pt_no upage) = Some e"
      using table_ok_load(2) by blast
    have "lookup_page pd upage False None s = Some (Some (pt, pt_no upage), s)"
      using lookup_found [OF ok pt(1)] by simp
    then have "s' = s \<or> (\<exists>s1. store_entry (pt, pt_no upage) (e AND NOT PTE_P) s = Some s1 \<and> invalidate_pagedir pd s1 = Some s')"
      using assms(3) e by (auto simp: pagedir_clear_page_def bind_eq_Some_conv split: if_splits)
    then show ?thesis
      using store_invalidate_ok [OF assms(1,2) up pt(1)] assms(1) by blast
  qed
qed

text \<open>A page that is mapped already fails the assertion.\<close>

lemma set_page_free:
  assumes "pd_ok s pd" "pagedir_set_page pd upage kpage w page s = Some (b, s')"
  shows "pg_ofs upage = 0" "is_user_vaddr upage" "pg_ofs kpage = 0" "is_kernel_vaddr kpage"
    "drop_bit PTSHIFT (kpage - PHYS_BASE) < init_ram_pages s" "pd \<noteq> init_page_dir s" "walk s pd upage = None"
proof -
  show up: "is_user_vaddr upage" and "pg_ofs upage = 0" "pg_ofs kpage = 0" "is_kernel_vaddr kpage"
    "drop_bit PTSHIFT (kpage - PHYS_BASE) < init_ram_pages s" "pd \<noteq> init_page_dir s"
    using assms(2) by (auto simp: pagedir_set_page_def vtop_Some bind_eq_Some_conv)
  show "walk s pd upage = None"
  proof (rule ccontr)
    assume "walk s pd upage \<noteq> None"
    then obtain pt e where pt: "table_for s pd upage = Some pt" "load_entry s (pt, pt_no upage) = Some e" "bit e 0"
      by (auto simp: walk_def bind_eq_Some_conv split: if_splits)
    then show False
      using assms(2) lookup_found [OF assms(1) pt(1), of True page] up by (auto simp: pagedir_set_page_def bind_eq_Some_conv flag_set)
  qed
qed

lemma set_page_step:
  assumes "mm_ok s pds" "pd \<in> pds" "\<And>pt. page = Some pt \<Longrightarrow> fresh_page s pt"
    and "pagedir_set_page pd upage kpage w page s = Some (b, s')"
  shows "mm_ok s' pds"
proof -
  obtain a where a: "vm_ok s pds" "init_page_dir s \<in> pds" "a \<in> pds" "active_pd s = Some a" "tlb_ok s a"
    using mm_okD [OF assms(1)] .
  have ok: "pd_ok s pd"
    using a(1) assms(2) by (simp add: vm_ok_def)
  note f = set_page_free [OF ok assms(4)]
  obtain e where e: "pte_create_user kpage w = Some e" "bit e 0"
    using pte_create_user_ok [OF f(3,4)] by blast
  have s': "vm_ok s' pds" "\<And>pd' va. pd' \<in> pds \<Longrightarrow> is_user_vaddr va \<Longrightarrow> walk s' pd' va =
        (if b \<and> pd' = pd \<and> pg_round_down va = upage then Some e else walk s pd' va)"
      "\<And>i. load_entry s' (init_page_dir s, i) = load_entry s (init_page_dir s, i)"
      "cr3 s' = cr3 s" "tlb s' = tlb s" "init_page_dir s' = init_page_dir s"
    using set_page_ok [OF a(1) assms(2) f(6,1-5,7), of page w e] assms(3,4) e a(2) f(6) by auto
  show ?thesis
  proof (rule mm_ok_same [OF assms(1) s'(1,6,4) s'(3)])
    fix a'
    assume a': "tlb_ok s a'" "a' \<in> pds"
    show "tlb_ok s' a'"
    proof (rule tlb_ok_agree [OF a'(1)])
      fix vb x
      assume vb: "is_user_vaddr vb" "walk s a' vb \<noteq> None"
      have "walk s pd vb = None" if "pg_round_down vb = upage"
        using f(7) same_page [OF f(1), of vb] that by (simp add: walk_def table_for_def)
      then show "\<exists>e1 e2. walk s a' vb = Some e1 \<and> walk s' a' vb = Some e2 \<and> agree e1 e2"
        using s'(2) [OF a'(2) vb(1)] vb(2) agree_refl by auto
    qed (simp add: s'(5))
  qed
qed

lemma create_step:
  assumes "mm_ok s pds" "fresh_page s pd" "pagedir_create (Some pd) s = Some (r, s')"
  shows "mm_ok s' (insert pd pds)"
proof -
  obtain a where a: "vm_ok s pds" "init_page_dir s \<in> pds" "a \<in> pds" "active_pd s = Some a" "tlb_ok s a"
    using mm_okD [OF assms(1)] .
  obtain es where es: "tables s (init_page_dir s) = Some es" "s' = s\<lparr>tables := (tables s)(pd \<mapsto> es)\<rparr>"
    using assms(3) by (auto simp: pagedir_create_def bind_eq_Some_conv)
  have new: "\<not> table_ok s pd" "is_kernel_vaddr pd" "pd \<noteq> NULL"
    using assms(2) by (auto simp: fresh_page_def table_ok_def is_kernel_vaddr_def PHYS_BASE_def)
  have ok: "pd_ok s pd'" if "pd' \<in> pds" for pd'
    using a(1) that by (simp add: vm_ok_def)
  have len: "length es = 1024"
    using pd_okD(2) [OF ok [OF a(2)]] es(1) by (simp add: table_ok_def)
  have load: "load_entry s' (x, i) = (if x = pd then load_entry s (init_page_dir s, i) else load_entry s (x, i))" for x i
    using es by (simp add: load_entry_def)
  have tok: "table_ok s' x \<longleftrightarrow> x = pd \<or> table_ok s x" for x
    using es(2) len by (simp add: table_ok_def)
  have user: "load_entry s' (pd, pd_no va) = Some 0" "table_for s' pd va = None" if "is_user_vaddr va" for va
    using assms(1) that no_pde_0 by (auto simp: mm_ok_def load table_for_def)
  have own: "owns s' pd = {pd}"
    using user(2) by (auto simp: owns_def)
  have "pd \<notin> owns s pd'" if "pd' \<in> pds" for pd'
    using owns_tables [OF ok [OF that]] new(1) by blast
  then have "same_at (owns s pd') s s'" if "pd' \<in> pds" for pd'
    using that unfolding same_at_def load tok by metis
  note same = same_at_owned [OF this]
  have "pd_ok s' pd"
    using new(3) tok user unfolding pd_ok_def by simp
  then have "vm_ok s' (insert pd pds)"
    using same(2,3) own a(1) \<open>\<And>pd'. pd' \<in> pds \<Longrightarrow> pd \<notin> owns s pd'\<close> unfolding vm_ok_def by auto
  moreover have "tlb_ok s' a"
    using a(3,5) same(4) es(2) by (simp add: tlb_ok_def)
  moreover have "load_entry s' (init_page_dir s, pd_no va) = Some 0" if "is_user_vaddr va" for va
    using assms(1) that by (auto simp: mm_ok_def load)
  ultimately show ?thesis
    using assms(1) a(2-4) new(2) es(2) by (auto simp: mm_ok_def active_pd_def)
qed

lemma destroy_step:
  assumes "mm_ok s pds" "pd \<in> pds" "active_pd s \<noteq> Some pd" "pagedir_destroy pd s = Some (freed, s')"
    and "\<forall>pd' \<in> pds - {pd}. owns s pd' \<inter> set freed = {}"
  shows "mm_ok s' (pds - {pd})"
proof -
  obtain a where a: "vm_ok s pds" "init_page_dir s \<in> pds" "a \<in> pds" "active_pd s = Some a" "tlb_ok s a"
    using mm_okD [OF assms(1)] .
  have "pd \<noteq> NULL"
    using a(1) assms(2) pd_okD(1) by (auto simp: vm_ok_def)
  then have s': "s' = s\<lparr>tables := (tables s) |` (- set freed)\<rparr>" "pd \<noteq> init_page_dir s"
    using assms(4) by (auto simp: pagedir_destroy_def bind_eq_Some_conv Let_def)
  have "tables s' t = tables s t" if "t \<in> owns s pd'" "pd' \<in> pds - {pd}" for t pd'
    using assms(5) that s'(1) by (auto simp: restrict_map_def)
  then have at: "same_at (owns s pd') s s'" if "pd' \<in> pds - {pd}" for pd'
    using that by (simp add: same_at_def table_ok_def load_entry_def)
  note same = same_at_owned [OF at]
  have "vm_ok s' (pds - {pd})"
    using a(1) same(2,3) unfolding vm_ok_def by auto
  moreover have "tlb_ok s' a"
    using a(3-5) assms(3) same(4) s'(1) by (simp add: tlb_ok_def)
  moreover have "load_entry s' (init_page_dir s, i) = load_entry s (init_page_dir s, i)" for i
    using at [of "init_page_dir s"] a(2) s'(2) by (simp add: same_at_def owns_def)
  ultimately show ?thesis
    using assms(1,3) a(2-4) s' by (auto simp: mm_ok_def active_pd_def)
qed

lemma activate_step:
  assumes "mm_ok s pds" "pd \<in> pds \<or> pd = NULL" "pagedir_activate pd s = Some s'"
  shows "mm_ok s' pds"
proof -
  define pd' where "pd' = (if pd = NULL then init_page_dir s else pd)"
  have pd': "pd' \<in> pds" "is_kernel_vaddr pd'"
    using assms(1,2) by (auto simp: mm_ok_def pd'_def)
  have s': "s' = s\<lparr>cr3 := pd' - PHYS_BASE, tlb := \<lambda>_. None\<rparr>"
    using assms(3) pd'(2) by (simp add: pagedir_activate_def pd'_def vtop_def)
  have "active_pd s' = Some pd'"
    using vtop_small [OF pd'(2)] s' by (simp add: active_pd_def ptov_def)
  moreover have "tlb_ok s' pd'"
    using s' by (simp add: tlb_ok_def)
  ultimately show ?thesis
    using assms(1) pd'(1) load_walk [of s' s] s' by (auto simp: mm_ok_def)
qed

lemma fill_step:
  assumes "mm_ok s pds" "tlb_fill va s = Some s'"
  shows "mm_ok s' pds"
proof -
  obtain a where a: "vm_ok s pds" "init_page_dir s \<in> pds" "a \<in> pds" "active_pd s = Some a" "tlb_ok s a"
    using mm_okD [OF assms(1)] .
  then obtain e where e: "walk s a va = Some e" "s' = s\<lparr>tlb := (tlb s)(pg_round_down va \<mapsto> e)\<rparr>"
    using assms(2) by (auto simp: tlb_fill_def bind_eq_Some_conv)
  have "walk s a vb = Some e" if "pg_round_down vb = pg_round_down va" for vb
    using e(1) that round_down(2,3) [of va] round_down(2,3) [of vb] by (simp add: walk_def table_for_def)
  then have "tlb_ok s' a"
    using a(5) e(2) load_walk(2) [of s' s] agree_refl by (auto simp: tlb_ok_def)
  then show ?thesis
    using assms(1) a e(2) load_walk [of s' s] by (auto simp: mm_ok_def active_pd_def)
qed

lemma mm_step_ok:
  assumes "mm_step (s, pds) (s', pds')" "mm_ok s pds"
  shows "mm_ok s' pds'"
  using assms(1)
proof (cases rule: mm_step.cases)
  case (dirty pd vpage b)
  then show ?thesis
    using set_flag_ok [OF assms(2), of pd vpage PTE_D b s'] by (simp add: pagedir_set_dirty_def)
next
  case (accessed pd vpage b)
  then show ?thesis
    using set_flag_ok [OF assms(2), of pd vpage PTE_A b s'] by (simp add: pagedir_set_accessed_def)
next
  case (create pd r)
  then show ?thesis
    using create_step [OF assms(2)] by simp
next
  case (destroy pd freed)
  then show ?thesis
    using destroy_step [OF assms(2)] by simp
next
  case (set pd page upage kpage w b)
  then show ?thesis
    using set_page_step [OF assms(2), of pd page upage kpage w b s'] by simp
next
  case (clear pd upage)
  then show ?thesis
    using clear_page_ok [OF assms(2)] by simp
next
  case (activate pd)
  then show ?thesis
    using activate_step [OF assms(2)] by simp
next
  case (fill va)
  then show ?thesis
    using fill_step [OF assms(2)] by simp
qed

subsection \<open>Properties\<close>

text \<open>A machine with the page directory of the kernel and one page directory of a process, for the
  witnesses.\<close>

definition two_dirs :: mmu where
  "two_dirs = \<lparr>tables = (\<lambda>_. None)(0xc0100000 \<mapsto> replicate 1024 0, 0xc0101000 \<mapsto> replicate 1024 0),
     init_page_dir = 0xc0100000, init_ram_pages = 1024, cr3 = 0x100000, tlb = \<lambda>_. None\<rparr>"

lemma two_dirs_load: "load_entry two_dirs (t, pd_no va) = (if t = 0xc0100000 \<or> t = 0xc0101000 then Some 0 else None)"
  using no_less(2) [of va] by (simp add: load_entry_def two_dirs_def)

lemma two_dirs_ok: "mm_ok two_dirs {0xc0100000, 0xc0101000}"
proof -
  have tf: "table_for two_dirs pd va = None" for pd va
    by (simp add: table_for_def two_dirs_load no_pde_0)
  have "table_ok two_dirs 0xc0100000" "table_ok two_dirs 0xc0101000"
    by (simp_all add: table_ok_def two_dirs_def)
  then have "pd_ok two_dirs 0xc0100000" "pd_ok two_dirs 0xc0101000"
    by (simp_all add: pd_ok_def tf two_dirs_load)
  moreover have "owns two_dirs pd = {pd}" for pd
    by (simp add: owns_def tf)
  ultimately have "vm_ok two_dirs {0xc0100000, 0xc0101000}"
    by (auto simp: vm_ok_def)
  moreover have "active_pd two_dirs = Some 0xc0100000" "tlb_ok two_dirs 0xc0100000"
    by (simp_all add: active_pd_def ptov_def two_dirs_def PHYS_BASE_def tlb_ok_def)
  moreover have "init_page_dir two_dirs = 0xc0100000"
    by (simp add: two_dirs_def)
  ultimately show ?thesis
    by (simp add: mm_ok_def two_dirs_load is_kernel_vaddr_def PHYS_BASE_def)
qed

lemma two_dirs_set:
  "walk two_dirs 0xc0101000 0x8048000 = None" "0xc0101000 \<noteq> init_page_dir two_dirs"
  "\<forall>pt. Some 0xc0102000 = Some pt \<longrightarrow> fresh_page two_dirs pt" "pg_ofs 0x8048000 = 0" "is_user_vaddr 0x8048000"
  "pg_ofs 0xc0200000 = 0" "is_kernel_vaddr 0xc0200000" "drop_bit PTSHIFT (0xc0200000 - PHYS_BASE) < init_ram_pages two_dirs"
  by (simp_all add: walk_def table_for_def two_dirs_load no_pde_0)
    (simp_all add: two_dirs_def fresh_page_def pg_ofs_def PGMASK_def is_kernel_vaddr_def is_user_vaddr_def PHYS_BASE_def
      PTSHIFT_def PGBITS_def drop_bit_eq_div)

lemma two_dirs_va: "pg_round_down 0x8048123 = 0x8048000" "is_user_vaddr 0x8048123" "pg_ofs 0x8048123 = 0x123"
  by (simp_all add: pg_ofs_def PGMASK_def is_user_vaddr_def PHYS_BASE_def pg_round_down_def)

text \<open>C13: A page directory is a map from user pages to frames. \<^verbatim>\<open>pagedir_set_page\<close> for a page that is not
  mapped adds exactly that page, and fails exactly when the directory has no page table for it
  and there is no memory for one; \<^verbatim>\<open>pagedir_get_page\<close> then finds the frame. No other page of the directory and no
  page of another directory changes.\<close>

theorem pagedir_set_then_get:
  assumes "vm_ok s pds" "pd \<in> pds" "pd \<noteq> init_page_dir s" "pg_ofs upage = 0" "is_user_vaddr upage"
    and "pg_ofs kpage = 0" "is_kernel_vaddr kpage" "drop_bit PTSHIFT (kpage - PHYS_BASE) < init_ram_pages s"
    and "walk s pd upage = None" "\<forall>pt. page = Some pt \<longrightarrow> fresh_page s pt"
  shows "\<exists>b s'. pagedir_set_page pd upage kpage w page s = Some (b, s') \<and> vm_ok s' pds
    \<and> (b \<longleftrightarrow> \<not> (load_entry s (pd, pd_no upage) = Some 0 \<and> page = None))
    \<and> (\<forall>pd' \<in> pds. \<forall>va. is_user_vaddr va \<longrightarrow> pagedir_get_page pd' va s' =
        (if b \<and> pd' = pd \<and> pg_round_down va = upage then Some (kpage + pg_ofs va) else pagedir_get_page pd' va s))"
proof -
  obtain e where e: "pte_create_user kpage w = Some e" "bit e 0" "pte_get_page e = Some kpage"
    using pte_create_user_ok [OF assms(6,7)] by blast
  have ok: "pd_ok s pd'" if "pd' \<in> pds" for pd'
    using assms(1) that by (simp add: vm_ok_def)
  obtain b s' where s': "pagedir_set_page pd upage kpage w page s = Some (b, s')" "vm_ok s' pds"
      "b \<longleftrightarrow> page \<noteq> None \<or> load_entry s (pd, pd_no upage) \<noteq> Some 0"
      "\<forall>pd' \<in> pds. \<forall>va. is_user_vaddr va \<longrightarrow> walk s' pd' va = (if b \<and> pd' = pd \<and> pg_round_down va = upage then Some e else walk s pd' va)"
    using set_page_ok [OF assms(1-9), of page w e] assms(10) e by auto
  have "pagedir_get_page pd' va s' =
      (if b \<and> pd' = pd \<and> pg_round_down va = upage then Some (kpage + pg_ofs va) else pagedir_get_page pd' va s)"
    if p: "pd' \<in> pds" and u: "is_user_vaddr va" for pd' va
  proof -
    have "pd_ok s' pd'"
      using s'(2) p by (simp add: vm_ok_def)
    then show ?thesis
      using get_page_ok [OF _ u] ok [OF p] s'(4) p u e(3) by simp
  qed
  then show ?thesis
    using s'(1-3) by blast
qed

theorem pagedir_set_then_get_witness:
  "\<exists>s'. pagedir_set_page 0xc0101000 0x8048000 0xc0200000 True (Some 0xc0102000) two_dirs = Some (True, s')
     \<and> pagedir_get_page 0xc0101000 0x8048123 s' = Some 0xc0200123"
proof -
  have ok: "vm_ok two_dirs {0xc0100000, 0xc0101000}"
    using two_dirs_ok by (simp add: mm_ok_def)
  show ?thesis
    using pagedir_set_then_get [OF ok _ two_dirs_set(2,4-8,1), of "Some 0xc0102000" True] two_dirs_set(3) two_dirs_va by fastforce
qed

text \<open>C12: The translation lookaside buffer is never stale. Whatever directories are created, activated and
  destroyed (but the active one), whatever pages are mapped and cleared and whatever flags are set, an entry that the
  processor has kept for a user page leads to the page, with the access rights, that the tables of the active
  directory give now; and the directories stay well formed and share no page tables of user memory.\<close>

theorem tlb_never_stale:
  assumes "mm_ok s pds" "mm_step\<^sup>*\<^sup>* (s, pds) (s', pds')" "active_pd s' = Some a" "is_user_vaddr va" "tlb s' (pg_round_down va) = Some e"
  shows "\<exists>e'. walk s' a va = Some e' \<and> e AND PTE_ADDR = e' AND PTE_ADDR \<and> bit e 1 = bit e' 1 \<and> bit e 2 = bit e' 2"
proof -
  have "mm_ok s' pds'"
    using assms(2,1) by (induction rule: rtranclp_induct2) (use mm_step_ok in blast)+
  then show ?thesis
    using assms(3-5) unfolding mm_ok_def tlb_ok_def agree_def by auto
qed

theorem tlb_never_stale_witness:
  "\<exists>s' e. mm_step\<^sup>*\<^sup>* (two_dirs, {0xc0100000, 0xc0101000}) (s', {0xc0100000, 0xc0101000}) \<and> active_pd s' = Some 0xc0101000
     \<and> tlb s' (pg_round_down 0x8048123) = Some e \<and> (\<exists>e'. walk s' 0xc0101000 0x8048123 = Some e' \<and> e AND PTE_ADDR = e' AND PTE_ADDR)"
proof -
  let ?pds = "{0xc0100000, 0xc0101000} :: ptr set"
  define s1 where "s1 = two_dirs\<lparr>cr3 := 0x101000, tlb := \<lambda>_. None\<rparr>"
  have act: "pagedir_activate 0xc0101000 two_dirs = Some s1"
    by (simp add: pagedir_activate_def vtop_def is_kernel_vaddr_def PHYS_BASE_def s1_def)
  have ok: "vm_ok s1 ?pds" and w: "walk s1 0xc0101000 0x8048000 = None" and init: "0xc0101000 \<noteq> init_page_dir s1"
    and ram: "drop_bit PTSHIFT (0xc0200000 - PHYS_BASE) < init_ram_pages s1" and fresh: "fresh_page s1 0xc0102000"
    using two_dirs_ok two_dirs_set load_walk [of s1 two_dirs] by (auto simp: mm_ok_def s1_def fresh_page_def)
  obtain e where e: "pte_create_user 0xc0200000 True = Some e" "bit e 0"
    using pte_create_user_ok two_dirs_set(6,7) by blast
  obtain b s2 where s2: "pagedir_set_page 0xc0101000 0x8048000 0xc0200000 True (Some 0xc0102000) s1 = Some (b, s2)" "b" "cr3 s2 = cr3 s1"
      "walk s2 0xc0101000 0x8048123 = Some e"
    using set_page_ok [OF ok _ init two_dirs_set(4-7) ram w, of "Some 0xc0102000" True e] fresh e two_dirs_va by auto
  define s3 where "s3 = s2\<lparr>tlb := (tlb s2)(pg_round_down 0x8048123 \<mapsto> e)\<rparr>"
  have a: "active_pd s2 = Some 0xc0101000" "active_pd s3 = Some 0xc0101000"
    using s2(3) by (simp_all add: s1_def s3_def active_pd_def ptov_def PHYS_BASE_def)
  have "tlb_fill 0x8048123 s2 = Some s3"
    using a(1) s2(4) by (simp add: tlb_fill_def s3_def)
  then have "mm_step (s2, ?pds) (s3, ?pds)"
    by (rule mm_step.fill)
  moreover have "mm_step (two_dirs, ?pds) (s1, ?pds)"
    by (rule mm_step.activate [OF _ act]) simp
  moreover have "mm_step (s1, ?pds) (s2, ?pds)"
    by (rule mm_step.set [OF _ _ s2(1)]) (simp_all add: fresh)
  ultimately have run: "mm_step\<^sup>*\<^sup>* (two_dirs, ?pds) (s3, ?pds)"
    by (meson converse_rtranclp_into_rtranclp rtranclp.rtrancl_refl)
  have t: "tlb s3 (pg_round_down 0x8048123) = Some e"
    by (simp add: s3_def)
  show ?thesis
    using tlb_never_stale [OF two_dirs_ok run a(2) two_dirs_va(2) t] run a(2) t by blast
qed

end
