(* ===== verification/CString.thy ===== *)
theory CString
  imports Memory "HOL-Library.List_Lexorder" "HOL-Library.Sublist"
begin

text \<open>
  The string library \<^verbatim>\<open>lib/string.c\<close>, on the memory of theory \<open>Memory\<close>. A pointer that a
  function returns is its result, with \<^verbatim>\<open>NULL\<close> as 0; a function that writes returns the
  memory as well. A loop that runs until it meets a null byte may leave the mapped memory,
  which is a fault, or wrap around for ever.
\<close>

subsection \<open>Operations\<close>

primrec memcpy_loop :: "nat \<Rightarrow> memory \<Rightarrow> ptr \<Rightarrow> ptr \<Rightarrow> (ptr \<times> memory) option" where
  "memcpy_loop 0 m dst src = Some (dst, m)"
| "memcpy_loop (Suc n) m dst src = do {
     c \<leftarrow> m src;
     m \<leftarrow> store m dst c;
     memcpy_loop n m (dst + 1) (src + 1) }"

definition memcpy :: "memory \<Rightarrow> ptr \<Rightarrow> ptr \<Rightarrow> size_t \<Rightarrow> (ptr \<times> memory) option" where
  "memcpy m dst0 src0 sz = do {
     ASSERT (dst0 \<noteq> NULL \<or> sz = 0);
     ASSERT (src0 \<noteq> NULL \<or> sz = 0);
     (_, m) \<leftarrow> memcpy_loop (unat sz) m dst0 src0;
     Some (dst0, m) }"

primrec memmove_back :: "nat \<Rightarrow> memory \<Rightarrow> ptr \<Rightarrow> ptr \<Rightarrow> (ptr \<times> memory) option" where
  "memmove_back 0 m dst src = Some (dst, m)"
| "memmove_back (Suc n) m dst src = do {
     c \<leftarrow> m (src - 1);
     m \<leftarrow> store m (dst - 1) c;
     memmove_back n m (dst - 1) (src - 1) }"

definition memmove :: "memory \<Rightarrow> ptr \<Rightarrow> ptr \<Rightarrow> size_t \<Rightarrow> (ptr \<times> memory) option" where
  "memmove m dst0 src0 sz = do {
     ASSERT (dst0 \<noteq> NULL \<or> sz = 0);
     ASSERT (src0 \<noteq> NULL \<or> sz = 0);
     if dst0 < src0 then memcpy_loop (unat sz) m dst0 src0
     else memmove_back (unat sz) m (dst0 + sz) (src0 + sz) }"

primrec memcmp_loop :: "nat \<Rightarrow> memory \<Rightarrow> ptr \<Rightarrow> ptr \<Rightarrow> int option" where
  "memcmp_loop 0 m a b = Some 0"
| "memcmp_loop (Suc n) m a b = do {
     x \<leftarrow> m a;
     y \<leftarrow> m b;
     if x \<noteq> y then Some (if x > y then 1 else - 1) else memcmp_loop n m (a + 1) (b + 1) }"

definition memcmp :: "memory \<Rightarrow> ptr \<Rightarrow> ptr \<Rightarrow> size_t \<Rightarrow> int option" where
  "memcmp m a b sz = do {
     ASSERT (a \<noteq> NULL \<or> sz = 0);
     ASSERT (b \<noteq> NULL \<or> sz = 0);
     memcmp_loop (unat sz) m a b }"

partial_function (option) strcmp_loop :: "memory \<Rightarrow> ptr \<Rightarrow> ptr \<Rightarrow> int option" where
  "strcmp_loop m a b = do {
     x \<leftarrow> m a;
     y \<leftarrow> m b;
     if x \<noteq> 0 \<and> x = y then strcmp_loop m (a + 1) (b + 1)
     else Some (if x < y then - 1 else if x > y then 1 else 0) }"

definition strcmp :: "memory \<Rightarrow> ptr \<Rightarrow> ptr \<Rightarrow> int option" where
  "strcmp m a b = do { ASSERT (a \<noteq> NULL); ASSERT (b \<noteq> NULL); strcmp_loop m a b }"

primrec memchr_loop :: "nat \<Rightarrow> memory \<Rightarrow> ptr \<Rightarrow> uint8_t \<Rightarrow> ptr option" where
  "memchr_loop 0 m block ch = Some NULL"
| "memchr_loop (Suc n) m block ch = do {
     c \<leftarrow> m block;
     if c = ch then Some block else memchr_loop n m (block + 1) ch }"

definition memchr :: "memory \<Rightarrow> ptr \<Rightarrow> int \<Rightarrow> size_t \<Rightarrow> ptr option" where
  "memchr m block0 ch0 sz = do {
     ASSERT (block0 \<noteq> NULL \<or> sz = 0);
     memchr_loop (unat sz) m block0 (word_of_int ch0) }"

partial_function (option) strchr_loop :: "memory \<Rightarrow> ptr \<Rightarrow> uint8_t \<Rightarrow> ptr option" where
  "strchr_loop m string c = do {
     x \<leftarrow> m string;
     if x = c then Some string else if x = 0 then Some NULL else strchr_loop m (string + 1) c }"

definition strchr :: "memory \<Rightarrow> ptr \<Rightarrow> uint8_t \<Rightarrow> ptr option" where
  "strchr m string c = do { ASSERT (string \<noteq> NULL); strchr_loop m string c }"

text \<open>\<^verbatim>\<open>strcspn\<close> stops at a character of the set (\<open>stop\<close>), \<^verbatim>\<open>strspn\<close> at one that is
  not in it.\<close>

partial_function (option) span_loop :: "bool \<Rightarrow> memory \<Rightarrow> ptr \<Rightarrow> ptr \<Rightarrow> size_t \<Rightarrow> size_t option" where
  "span_loop stop m string chars len = do {
     c \<leftarrow> m (string + len);
     if c = 0 then Some len
     else do {
       p \<leftarrow> strchr m chars c;
       if (p \<noteq> NULL) = stop then Some len else span_loop stop m string chars (len + 1) } }"

definition strcspn :: "memory \<Rightarrow> ptr \<Rightarrow> ptr \<Rightarrow> size_t option" where
  "strcspn m string stop = span_loop True m string stop 0"

definition strspn :: "memory \<Rightarrow> ptr \<Rightarrow> ptr \<Rightarrow> size_t option" where
  "strspn m string skip = span_loop False m string skip 0"

partial_function (option) strpbrk :: "memory \<Rightarrow> ptr \<Rightarrow> ptr \<Rightarrow> ptr option" where
  "strpbrk m string stop = do {
     c \<leftarrow> m string;
     if c = 0 then Some NULL
     else do {
       p \<leftarrow> strchr m stop c;
       if p \<noteq> NULL then Some string else strpbrk m (string + 1) stop } }"

partial_function (option) strrchr_loop :: "memory \<Rightarrow> ptr \<Rightarrow> uint8_t \<Rightarrow> ptr \<Rightarrow> ptr option" where
  "strrchr_loop m string c p = do {
     x \<leftarrow> m string;
     if x = 0 then Some p else strrchr_loop m (string + 1) c (if x = c then string else p) }"

definition strrchr :: "memory \<Rightarrow> ptr \<Rightarrow> uint8_t \<Rightarrow> ptr option" where
  "strrchr m string c = strrchr_loop m string c NULL"

partial_function (option) strlen_loop :: "memory \<Rightarrow> ptr \<Rightarrow> ptr option" where
  "strlen_loop m p = do { c \<leftarrow> m p; if c \<noteq> 0 then strlen_loop m (p + 1) else Some p }"

definition strlen :: "memory \<Rightarrow> ptr \<Rightarrow> size_t option" where
  "strlen m string = do { ASSERT (string \<noteq> NULL); p \<leftarrow> strlen_loop m string; Some (p - string) }"

primrec strstr_loop :: "nat \<Rightarrow> memory \<Rightarrow> ptr \<Rightarrow> ptr \<Rightarrow> size_t \<Rightarrow> ptr option" where
  "strstr_loop 0 m h needle needle_len = Some NULL"
| "strstr_loop (Suc n) m h needle needle_len = do {
     r \<leftarrow> memcmp m h needle needle_len;
     if r = 0 then Some h else strstr_loop n m (h + 1) needle needle_len }"

definition strstr :: "memory \<Rightarrow> ptr \<Rightarrow> ptr \<Rightarrow> ptr option" where
  "strstr m haystack needle = do {
     haystack_len \<leftarrow> strlen m haystack;
     needle_len \<leftarrow> strlen m needle;
     if haystack_len \<ge> needle_len
     then strstr_loop (Suc (unat (haystack_len - needle_len))) m haystack needle needle_len
     else Some NULL }"

text \<open>Skips delimiters: \<open>Inl\<close> the end of the string, or \<open>Inr\<close> the start of a token.\<close>

partial_function (option) strtok_skip :: "memory \<Rightarrow> ptr \<Rightarrow> ptr \<Rightarrow> (ptr + ptr) option" where
  "strtok_skip m s delimiters = do {
     c \<leftarrow> m s;
     p \<leftarrow> strchr m delimiters c;
     if p \<noteq> NULL then (if c = 0 then Some (Inl s) else strtok_skip m (s + 1) delimiters)
     else Some (Inr s) }"

partial_function (option) strtok_token :: "memory \<Rightarrow> ptr \<Rightarrow> ptr \<Rightarrow> ptr option" where
  "strtok_token m s delimiters = do {
     c \<leftarrow> m s;
     p \<leftarrow> strchr m delimiters c;
     if p = NULL then strtok_token m (s + 1) delimiters else Some s }"

text \<open>The result is the token, the new value of \<^verbatim>\<open>*save_ptr\<close> and the memory.\<close>

definition strtok_r :: "memory \<Rightarrow> ptr \<Rightarrow> ptr \<Rightarrow> ptr \<Rightarrow> (ptr \<times> ptr \<times> memory) option" where
  "strtok_r m s delimiters save_ptr = do {
     ASSERT (delimiters \<noteq> NULL);
     let s = (if s = NULL then save_ptr else s);
     ASSERT (s \<noteq> NULL);
     r \<leftarrow> strtok_skip m s delimiters;
     case r of
       Inl s \<Rightarrow> Some (NULL, s, m)
     | Inr token \<Rightarrow> do {
         s \<leftarrow> strtok_token m token delimiters;
         c \<leftarrow> m s;
         if c \<noteq> 0 then do { m \<leftarrow> store m s 0; Some (token, s + 1, m) }
         else Some (token, s, m) } }"

primrec memset_loop :: "nat \<Rightarrow> memory \<Rightarrow> ptr \<Rightarrow> uint8_t \<Rightarrow> memory option" where
  "memset_loop 0 m dst v = Some m"
| "memset_loop (Suc n) m dst v = do { m \<leftarrow> store m dst v; memset_loop n m (dst + 1) v }"

definition memset :: "memory \<Rightarrow> ptr \<Rightarrow> int \<Rightarrow> size_t \<Rightarrow> (ptr \<times> memory) option" where
  "memset m dst0 v sz = do {
     ASSERT (dst0 \<noteq> NULL \<or> sz = 0);
     m \<leftarrow> memset_loop (unat sz) m dst0 (word_of_int v);
     Some (dst0, m) }"

partial_function (option) strnlen_loop :: "memory \<Rightarrow> ptr \<Rightarrow> size_t \<Rightarrow> size_t \<Rightarrow> size_t option" where
  "strnlen_loop m string maxlen len = do {
     c \<leftarrow> m (string + len);
     if c \<noteq> 0 \<and> len < maxlen then strnlen_loop m string maxlen (len + 1) else Some len }"

definition strnlen :: "memory \<Rightarrow> ptr \<Rightarrow> size_t \<Rightarrow> size_t option" where
  "strnlen m string maxlen = strnlen_loop m string maxlen 0"

definition strlcpy :: "memory \<Rightarrow> ptr \<Rightarrow> ptr \<Rightarrow> size_t \<Rightarrow> (size_t \<times> memory) option" where
  "strlcpy m dst src sz = do {
     ASSERT (dst \<noteq> NULL);
     ASSERT (src \<noteq> NULL);
     src_len \<leftarrow> strlen m src;
     if sz > 0 then do {
       let dst_len = (if src_len < sz - 1 then src_len else sz - 1);
       (_, m) \<leftarrow> memcpy m dst src dst_len;
       m \<leftarrow> store m (dst + dst_len) 0;
       Some (src_len, m) }
     else Some (src_len, m) }"

definition strlcat :: "memory \<Rightarrow> ptr \<Rightarrow> ptr \<Rightarrow> size_t \<Rightarrow> (size_t \<times> memory) option" where
  "strlcat m dst src sz = do {
     ASSERT (dst \<noteq> NULL);
     ASSERT (src \<noteq> NULL);
     src_len \<leftarrow> strlen m src;
     dst_len \<leftarrow> strlen m dst;
     if sz > 0 \<and> dst_len < sz then do {
       let copy_cnt = (if src_len < sz - dst_len - 1 then src_len else sz - dst_len - 1);
       (_, m) \<leftarrow> memcpy m (dst + dst_len) src copy_cnt;
       m \<leftarrow> store m (dst + dst_len + copy_cnt) 0;
       Some (src_len + dst_len, m) }
     else Some (src_len + dst_len, m) }"

subsection \<open>Copying\<close>

lemma store_mapped: "m p \<noteq> None \<Longrightarrow> store m p v = Some (m(p \<mapsto> v))"
  by (simp add: store_def)

lemma bytes_at_store:
  "bytes_at m p bs \<Longrightarrow> (\<And>i. i < length bs \<Longrightarrow> p + of_nat i \<noteq> a) \<Longrightarrow> bytes_at (m(a \<mapsto> v)) p bs"
  by (simp add: bytes_at_nth)

lemma offset_neq: "in_space p n \<Longrightarrow> i < n \<Longrightarrow> \<not> within p n a \<Longrightarrow> p + of_nat i \<noteq> a"
  using within_offset by blast

text \<open>Copying upwards works when the target is not inside the source behind its start.\<close>

lemma memcpy_loop_ok:
  assumes "bytes_at m src bs" "mapped m dst (length bs)" "in_space src (length bs)" "in_space dst (length bs)"
    and "unat dst \<le> unat src \<or> unat src + length bs \<le> unat dst"
  shows "memcpy_loop (length bs) m dst src = Some (dst + of_nat (length bs), write_bytes m dst bs)"
  using assms
proof (induction bs arbitrary: m dst src)
  case (Cons b bs)
  have sp: "in_space src (Suc (length bs))" "in_space dst (Suc (length bs))"
    using Cons.prems(3,4) by simp_all
  have m: "m src = Some b" "m dst \<noteq> None" "mapped m (dst + 1) (length bs)" "bytes_at m (src + 1) bs"
    using Cons.prems(1,2) by simp_all
  have "src + 1 + of_nat i \<noteq> dst" if "i < length bs" for i
  proof
    assume "src + 1 + of_nat i = dst"
    then have "unat dst = unat src + 1 + i"
      using unat_offset [OF in_space_succ [OF sp(1)], of i] unat_succ [OF sp(1)] that by simp
    then show False
      using Cons.prems(5) that by simp
  qed
  then have "bytes_at (m(dst \<mapsto> b)) (src + 1) bs"
    using m(4) by (intro bytes_at_store) auto
  moreover have "mapped (m(dst \<mapsto> b)) (dst + 1) (length bs)"
    using mapped_store [of m dst b] m(2,3) by metis
  moreover have "unat (dst + 1) \<le> unat (src + 1) \<or> unat (src + 1) + length bs \<le> unat (dst + 1)"
    using Cons.prems(5) unat_succ [OF sp(1)] unat_succ [OF sp(2)] by auto
  ultimately have "memcpy_loop (length bs) (m(dst \<mapsto> b)) (dst + 1) (src + 1) =
      Some (dst + 1 + of_nat (length bs), write_bytes (m(dst \<mapsto> b)) (dst + 1) bs)"
    using Cons.IH in_space_succ [OF sp(1)] in_space_succ [OF sp(2)] by blast
  then show ?case
    using m(1,2) by (simp add: store_mapped ac_simps)
qed simp

text \<open>Copying downwards works when the target is not below the source and overlapping it.\<close>

lemma memmove_back_ok:
  assumes "bytes_at m src bs" "mapped m dst (length bs)" "in_space src (length bs)" "in_space dst (length bs)"
    and "unat src \<le> unat dst"
  shows "memmove_back (length bs) m (dst + of_nat (length bs)) (src + of_nat (length bs)) = Some (dst, write_bytes m dst bs)"
  using assms
proof (induction bs arbitrary: m rule: rev_induct)
  case (snoc b bs)
  let ?d = "dst + of_nat (length bs)" and ?s = "src + of_nat (length bs)"
  have m: "m ?s = Some b" "bytes_at m src bs" "mapped m dst (length bs)" "m ?d \<noteq> None"
    using snoc.prems(1,2) by (auto simp: bytes_at_append mapped_nth)
  have u: "unat ?d = unat dst + length bs" "in_space src (length bs)" "in_space dst (length bs)"
    using unat_offset [of dst "Suc (length bs)" "length bs"] snoc.prems(3,4) by (simp_all add: in_space_def)
  have "src + of_nat i \<noteq> ?d" if "i < length bs" for i
  proof
    assume "src + of_nat i = ?d"
    then show False
      using unat_offset [OF u(2), of i] u(1) snoc.prems(5) that by simp
  qed
  then have "bytes_at (m(?d \<mapsto> b)) src bs"
    using m(2) by (intro bytes_at_store) auto
  moreover have "mapped (m(?d \<mapsto> b)) dst (length bs)"
    using mapped_store [of m ?d b] m(3,4) by metis
  ultimately have low: "memmove_back (length bs) (m(?d \<mapsto> b)) ?d ?s = Some (dst, write_bytes (m(?d \<mapsto> b)) dst bs)"
    using snoc.IH u(2,3) snoc.prems(5) by blast
  have "write_bytes (m(?d \<mapsto> b)) dst bs = (write_bytes m dst bs)(?d \<mapsto> b)"
    using u by (auto simp: fun_eq_iff write_apply within_def)
  then have "write_bytes (m(?d \<mapsto> b)) dst bs = write_bytes m dst (bs @ [b])"
    by (simp add: write_append)
  moreover have "dst + of_nat (length (bs @ [b])) - 1 = ?d" "src + of_nat (length (bs @ [b])) - 1 = ?s"
    by simp_all
  ultimately show ?case
    using low m(1,4) by (simp add: store_mapped)
qed simp

lemma of_nat_size: "in_space p n \<Longrightarrow> unat (of_nat n :: size_t) = n"
  by (simp add: in_space_def unat_of_nat)

lemma memcpy_ok:
  assumes "bytes_at m src bs" "mapped m dst (length bs)" "in_space src (length bs)" "in_space dst (length bs)"
    and "unat dst \<le> unat src \<or> unat src + length bs \<le> unat dst" "dst \<noteq> NULL" "src \<noteq> NULL"
  shows "memcpy m dst src (of_nat (length bs)) = Some (dst, write_bytes m dst bs)"
  using memcpy_loop_ok [OF assms(1-5)] assms(6,7) of_nat_size [OF assms(3)] by (simp add: memcpy_def)

lemma memmove_ok:
  assumes "bytes_at m src bs" "mapped m dst (length bs)" "in_space src (length bs)" "in_space dst (length bs)"
    and "dst \<noteq> NULL" "src \<noteq> NULL"
  shows "memmove m dst src (of_nat (length bs)) =
    Some (if dst < src then dst + of_nat (length bs) else dst, write_bytes m dst bs)"
  using memcpy_loop_ok [OF assms(1-4)] memmove_back_ok [OF assms(1-4)] assms(5,6) of_nat_size [OF assms(3)]
  by (auto simp: memmove_def word_less_nat_alt)

subsection \<open>Comparing\<close>

lemma memcmp_loop_ok:
  assumes "bytes_at m a xs" "bytes_at m b ys" "length xs = n" "length ys = n"
  shows "memcmp_loop n m a b = Some (if xs < ys then - 1 else if xs > ys then 1 else 0)"
  using assms
proof (induction n arbitrary: a b xs ys)
  case (Suc n)
  then obtain x xs' y ys' where "xs = x # xs'" "ys = y # ys'"
    by (metis length_Suc_conv)
  then show ?case
    using Suc.IH [of "a + 1" xs' "b + 1" ys'] Suc.prems by auto
qed simp

lemma memcmp_ok:
  assumes "bytes_at m a xs" "bytes_at m b ys" "length xs = unat sz" "length ys = unat sz" "a \<noteq> NULL" "b \<noteq> NULL"
  shows "memcmp m a b sz = Some (if xs < ys then - 1 else if xs > ys then 1 else 0)"
  using memcmp_loop_ok [OF assms(1-4)] assms(5,6) by (simp add: memcmp_def)

lemma strcmp_loop_ok:
  assumes "str_at m a s" "str_at m b t"
  shows "strcmp_loop m a b = Some (if s < t then - 1 else if s > t then 1 else 0)"
  using assms
proof (induction s arbitrary: a b t)
  case Nil
  then show ?case
    by (cases t; subst strcmp_loop.simps) (auto simp: word_gt_0)
next
  case (Cons x s)
  then show ?case
    using Cons.IH [of "a + 1" "b + 1"] by (cases t; subst strcmp_loop.simps) (auto simp: word_gt_0)
qed

lemma strcmp_ok: "str_at m a s \<Longrightarrow> str_at m b t \<Longrightarrow> a \<noteq> NULL \<Longrightarrow> b \<noteq> NULL \<Longrightarrow>
    strcmp m a b = Some (if s < t then - 1 else if s > t then 1 else 0)"
  by (simp add: strcmp_def strcmp_loop_ok)

subsection \<open>Searching\<close>

lemma strlen_loop_ok: "str_at m p s \<Longrightarrow> strlen_loop m p = Some (p + of_nat (length s))"
proof (induction s arbitrary: p)
  case Nil
  then show ?case
    by (subst strlen_loop.simps) simp
next
  case (Cons c s)
  then show ?case
    using Cons.IH [of "p + 1"] by (subst strlen_loop.simps) (simp add: ac_simps)
qed

lemma strlen_ok: "str_at m p s \<Longrightarrow> p \<noteq> NULL \<Longrightarrow> strlen m p = Some (of_nat (length s))"
  by (simp add: strlen_def strlen_loop_ok)

lemma strchr_loop_ok:
  "str_at m p s \<Longrightarrow> strchr_loop m p c =
    Some (if c \<in> set (s @ [0]) then p + of_nat (length (takeWhile (\<lambda>x. x \<noteq> c) s)) else NULL)"
proof (induction s arbitrary: p)
  case Nil
  then show ?case
    by (subst strchr_loop.simps) auto
next
  case (Cons x s)
  then show ?case
    using Cons.IH [of "p + 1"] by (subst strchr_loop.simps) (auto simp: ac_simps)
qed

text \<open>A string whose address is not null and that fits in the address space.\<close>

definition str_ok :: "memory \<Rightarrow> ptr \<Rightarrow> bytes \<Rightarrow> bool" where
  "str_ok m p s \<longleftrightarrow> str_at m p s \<and> p \<noteq> NULL \<and> in_space p (Suc (length s))"

lemma offset_not_null: "p \<noteq> NULL \<Longrightarrow> in_space p n \<Longrightarrow> i \<le> n \<Longrightarrow> p + of_nat i \<noteq> NULL"
  using unat_offset [of p n i] by (metis add_is_0 unat_eq_zero)

lemma strchr_ok:
  assumes "str_ok m p s"
  shows "\<exists>q. strchr m p c = Some q \<and> (q \<noteq> NULL \<longleftrightarrow> c \<in> set s \<or> c = 0)
    \<and> (q \<noteq> NULL \<longrightarrow> q = p + of_nat (length (takeWhile (\<lambda>x. x \<noteq> c) s)))"
proof -
  have "length (takeWhile (\<lambda>x. x \<noteq> c) s) \<le> Suc (length s)"
    using length_takeWhile_le le_SucI by blast
  then have "p + of_nat (length (takeWhile (\<lambda>x. x \<noteq> c) s)) \<noteq> NULL"
    using offset_not_null assms unfolding str_ok_def by blast
  then show ?thesis
    using assms strchr_loop_ok [of m p s c] by (auto simp: strchr_def str_ok_def)
qed

lemma strrchr_loop_none: "str_at m p s \<Longrightarrow> c \<notin> set s \<Longrightarrow> strrchr_loop m p c q = Some q"
proof (induction s arbitrary: p)
  case Nil
  then show ?case
    by (subst strrchr_loop.simps) simp
next
  case (Cons x s)
  then show ?case
    using Cons.IH [of "p + 1"] by (subst strrchr_loop.simps) auto
qed

lemma strrchr_loop_last:
  "str_at m p (xs @ c # ys) \<Longrightarrow> c \<notin> set ys \<Longrightarrow> strrchr_loop m p c q = Some (p + of_nat (length xs))"
proof (induction xs arbitrary: p q)
  case Nil
  then show ?case
    using strrchr_loop_none [of m "p + 1" ys] by (subst strrchr_loop.simps) simp
next
  case (Cons x xs)
  then show ?case
    using Cons.IH [of "p + 1"] by (subst strrchr_loop.simps) (simp add: ac_simps)
qed

lemma strrchr_ok:
  "str_at m p s \<Longrightarrow> c \<notin> set s \<Longrightarrow> strrchr m p c = Some NULL"
  "str_at m p (xs @ c # ys) \<Longrightarrow> c \<notin> set ys \<Longrightarrow> strrchr m p c = Some (p + of_nat (length xs))"
  by (simp_all add: strrchr_def strrchr_loop_none strrchr_loop_last)

lemma span_loop_ok:
  assumes "str_at m (p + n) s" "str_ok m q chars"
  shows "span_loop stop m p q n = Some (n + of_nat (length (takeWhile (\<lambda>c. (c \<in> set chars) \<noteq> stop) s)))"
  using assms(1)
proof (induction s arbitrary: n)
  case Nil
  then show ?case
    by (subst span_loop.simps) simp
next
  case (Cons x s)
  obtain r where "strchr m q x = Some r" "r \<noteq> NULL \<longleftrightarrow> x \<in> set chars \<or> x = 0"
    using strchr_ok [OF assms(2)] by blast
  then show ?case
    using Cons.IH [of "n + 1"] Cons.prems by (subst span_loop.simps) (auto simp: ac_simps)
qed

lemma strspn_ok: "str_at m p s \<Longrightarrow> str_ok m q chars \<Longrightarrow> strspn m p q = Some (of_nat (length (takeWhile (\<lambda>c. c \<in> set chars) s)))"
  using span_loop_ok [of m p 0 s q chars False] by (simp add: strspn_def)

lemma strcspn_ok: "str_at m p s \<Longrightarrow> str_ok m q chars \<Longrightarrow> strcspn m p q = Some (of_nat (length (takeWhile (\<lambda>c. c \<notin> set chars) s)))"
  using span_loop_ok [of m p 0 s q chars True] by (simp add: strcspn_def)

lemma strpbrk_ok:
  assumes "str_at m p s" "str_ok m q chars"
  shows "strpbrk m p q = Some (if set s \<inter> set chars = {} then NULL else p + of_nat (length (takeWhile (\<lambda>c. c \<notin> set chars) s)))"
  using assms(1)
proof (induction s arbitrary: p)
  case Nil
  then show ?case
    by (subst strpbrk.simps) simp
next
  case (Cons x s)
  obtain r where "strchr m q x = Some r" "r \<noteq> NULL \<longleftrightarrow> x \<in> set chars \<or> x = 0"
    using strchr_ok [OF assms(2)] by blast
  then show ?case
    using Cons.IH [of "p + 1"] Cons.prems by (subst strpbrk.simps) (auto simp: ac_simps)
qed

subsection \<open>Tokens\<close>

lemma strtok_skip_ok:
  assumes "str_at m p s" "str_ok m q ds"
  shows "strtok_skip m p q = Some (let n = length (takeWhile (\<lambda>c. c \<in> set ds) s) in
    if n = length s then Inl (p + of_nat n) else Inr (p + of_nat n))"
  using assms(1)
proof (induction s arbitrary: p)
  case Nil
  obtain r where "strchr m q 0 = Some r" "r \<noteq> NULL"
    using strchr_ok [OF assms(2)] by blast
  then show ?case
    using Nil by (subst strtok_skip.simps) simp
next
  case (Cons x s)
  obtain r where "strchr m q x = Some r" "r \<noteq> NULL \<longleftrightarrow> x \<in> set ds \<or> x = 0"
    using strchr_ok [OF assms(2)] by blast
  then show ?case
    using Cons.IH [of "p + 1"] Cons.prems by (subst strtok_skip.simps) (auto simp: ac_simps Let_def)
qed

lemma strtok_token_ok:
  assumes "str_at m p s" "str_ok m q ds"
  shows "strtok_token m p q = Some (p + of_nat (length (takeWhile (\<lambda>c. c \<notin> set ds) s)))"
  using assms(1)
proof (induction s arbitrary: p)
  case Nil
  obtain r where "strchr m q 0 = Some r" "r \<noteq> NULL"
    using strchr_ok [OF assms(2)] by blast
  then show ?case
    using Nil by (subst strtok_token.simps) simp
next
  case (Cons x s)
  obtain r where "strchr m q x = Some r" "r \<noteq> NULL \<longleftrightarrow> x \<in> set ds \<or> x = 0"
    using strchr_ok [OF assms(2)] by blast
  then show ?case
    using Cons.IH [of "p + 1"] Cons.prems by (subst strtok_token.simps) (auto simp: ac_simps)
qed

text \<open>The token that \<^verbatim>\<open>strtok_r\<close> cuts off and the string that is left for the next call.\<close>

definition next_token :: "bytes \<Rightarrow> bytes \<Rightarrow> (bytes \<times> bytes) option" where
  "next_token ds s = (let r = dropWhile (\<lambda>c. c \<in> set ds) s in
     if r = [] then None
     else Some (takeWhile (\<lambda>c. c \<notin> set ds) r, drop 1 (dropWhile (\<lambda>c. c \<notin> set ds) r)))"

lemma str_ok_drop:
  assumes "str_ok m p (xs @ ys)"
  shows "str_ok m (p + of_nat (length xs)) ys" "unat (p + of_nat (length xs)) = unat p + length xs"
proof -
  have sp: "in_space p (Suc (length xs + length ys))" and p: "p \<noteq> NULL"
    using assms by (simp_all add: str_ok_def)
  then show u: "unat (p + of_nat (length xs)) = unat p + length xs"
    by (simp add: unat_offset)
  have "in_space (p + of_nat (length xs)) (Suc (length ys))"
    using sp u by (simp add: in_space_def)
  then show "str_ok m (p + of_nat (length xs)) ys"
    using assms str_at_append offset_not_null [OF p sp, of "length xs"] by (simp add: str_ok_def)
qed

lemma str_ok_outside:
  "str_ok m p s \<Longrightarrow> (\<And>a. within p (Suc (length s)) a \<Longrightarrow> m' a = m a) \<Longrightarrow> str_ok m' p s"
  unfolding str_ok_def using str_at_outside by blast

lemma str_ok_cut:
  assumes "str_ok m p (xs @ c # ys)"
  shows "str_ok (m(p + of_nat (length xs) \<mapsto> 0)) p xs" "m (p + of_nat (length xs)) = Some c"
proof -
  have at: "bytes_at m p (xs @ c # ys @ [0])" "0 \<notin> set xs" and sp: "in_space p (Suc (Suc (length xs + length ys)))" "p \<noteq> NULL"
    using assms by (simp_all add: str_ok_def str_at_def)
  show "m (p + of_nat (length xs)) = Some c"
    using at(1) by (simp add: bytes_at_append)
  have "p + of_nat i \<noteq> p + of_nat (length xs)" if "i < length xs" for i
    using unat_offset [OF sp(1), of i] unat_offset [OF sp(1), of "length xs"] that by fastforce
  then have "bytes_at (m(p + of_nat (length xs) \<mapsto> 0)) p xs"
    using at(1) bytes_at_append [of m p xs] by (intro bytes_at_store) auto
  then show "str_ok (m(p + of_nat (length xs) \<mapsto> 0)) p xs"
    using at(2) sp by (simp add: str_ok_def str_at_def bytes_at_append in_space_def)
qed

text \<open>The token is cut off in place: it ends in front of the rest of the string, or at the end.\<close>

definition cut :: "memory \<Rightarrow> ptr \<Rightarrow> bytes \<Rightarrow> ptr \<Rightarrow> bytes \<Rightarrow> ptr \<Rightarrow> bytes \<Rightarrow> memory \<Rightarrow> bool" where
  "cut m p s t tok sv rest m' \<longleftrightarrow> str_ok m' t tok \<and> str_ok m' sv rest \<and> unat p \<le> unat t \<and> unat sv + length rest = unat p + length s
     \<and> (rest = [] \<or> unat t + length tok < unat sv) \<and> unat t + length tok \<le> unat sv
     \<and> (\<forall>a. \<not> within p (length s) a \<longrightarrow> m' a = m a) \<and> (\<forall>a. m' a = None \<longleftrightarrow> m a = None)"

lemma strtok_r_start:
  assumes "str_ok m p s" "str_ok m q ds"
  shows "strtok_r m p q sv = (let n = length (takeWhile (\<lambda>c. c \<in> set ds) s) in
    if n = length s then Some (NULL, p + of_nat n, m)
    else do {
      e \<leftarrow> strtok_token m (p + of_nat n) q;
      c \<leftarrow> m e;
      if c \<noteq> 0 then do { m \<leftarrow> store m e 0; Some (p + of_nat n, e + 1, m) } else Some (p + of_nat n, e, m) })"
  using assms strtok_skip_ok [of m p s q ds] by (auto simp: strtok_r_def str_ok_def Let_def)

lemma strtok_r_ok:
  assumes "str_ok m p s" "str_ok m q ds"
  shows "case next_token ds s of
      None \<Rightarrow> strtok_r m p q sv = Some (NULL, p + of_nat (length s), m)
    | Some (tok, rest) \<Rightarrow> \<exists>t sv' m'. strtok_r m p q sv = Some (t, sv', m') \<and> t \<noteq> NULL \<and> cut m p s t tok sv' rest m'"
proof -
  define pre where "pre = takeWhile (\<lambda>c. c \<in> set ds) s"
  define r where "r = dropWhile (\<lambda>c. c \<in> set ds) s"
  define tok where "tok = takeWhile (\<lambda>c. c \<notin> set ds) r"
  define post where "post = dropWhile (\<lambda>c. c \<notin> set ds) r"
  define t where "t = p + of_nat (length pre)"
  have s: "s = pre @ r" and r: "r = tok @ post"
    by (simp_all add: pre_def r_def tok_def post_def)
  show ?thesis
  proof (cases "r = []")
    case True
    then have "length pre = length s"
      using s by simp
    then show ?thesis
      using True strtok_r_start [OF assms, of sv] by (simp add: next_token_def r_def [symmetric] pre_def [symmetric])
  next
    case False
    have len: "length pre < length s"
      using False s by simp
    have t: "str_ok m t r" "unat t = unat p + length pre"
      using str_ok_drop [of m p pre r] assms(1) s by (simp_all add: t_def)
    have start: "strtok_r m p q sv = do { c \<leftarrow> m (t + of_nat (length tok));
        if c \<noteq> 0 then do { m \<leftarrow> store m (t + of_nat (length tok)) 0; Some (t, t + of_nat (length tok) + 1, m) }
        else Some (t, t + of_nat (length tok), m) }"
      using strtok_r_start [OF assms, of sv] False len strtok_token_ok [OF _ assms(2), of t r] t(1)
      by (simp add: pre_def [symmetric] t_def [symmetric] tok_def [symmetric] str_ok_def Let_def cong: if_cong)
    have u: "unat (t + of_nat (length tok)) = unat t + length tok"
      using str_ok_drop(2) [of m t tok post] t(1) r by simp
    have goal: ?thesis if "strtok_r m p q sv = Some (t, sv', m')" "cut m p s t tok sv' (drop 1 post) m'" for sv' m'
      using that False t(1) by (simp add: next_token_def r_def [symmetric] tok_def [symmetric] post_def [symmetric] str_ok_def)
    show ?thesis
    proof (cases post)
      case Nil
      then have "tok = r"
        using r by simp
      then have "m (t + of_nat (length tok)) = Some 0" "str_ok m (t + of_nat (length tok)) []"
        using str_ok_drop(1) [of m t tok "[]"] t(1) by (simp_all add: str_ok_def)
      then show ?thesis
        using start t u s \<open>tok = r\<close> Nil by (intro goal [of "t + of_nat (length tok)" m]) (simp_all add: cut_def)
    next
      case (Cons c ys)
      let ?e = "t + of_nat (length tok)"
      have c: "m ?e = Some c" "str_ok (m(?e \<mapsto> 0)) t tok" "c \<noteq> 0"
        using str_ok_cut [of m t tok c ys] t(1) r Cons by (auto simp: str_ok_def str_at_def)
      have y: "str_ok m (?e + 1) ys" "unat (?e + 1) = unat t + length tok + 1"
        using str_ok_drop [of m t "tok @ [c]" ys] t(1) r Cons by (simp_all add: ac_simps)
      have "str_ok (m(?e \<mapsto> 0)) (?e + 1) ys"
        using y u by (intro str_ok_outside [OF y(1)]) (auto simp: within_def)
      moreover have "within p (length s) ?e"
        using u t(2) s r Cons by (simp add: within_def)
      ultimately have "cut m p s t tok (?e + 1) ys (m(?e \<mapsto> 0))"
        using c y t s r Cons by (auto simp: cut_def)
      then show ?thesis
        using start c Cons by (intro goal [of "?e + 1" "m(?e \<mapsto> 0)"]) (simp_all add: store_mapped)
    qed
  qed
qed

subsection \<open>Bounded copies\<close>

lemma bytes_at_take: "bytes_at m p bs \<Longrightarrow> bytes_at m p (take n bs)"
  by (simp add: bytes_at_nth)

lemma mapped_le: "mapped m p n \<Longrightarrow> i \<le> n \<Longrightarrow> mapped m p i"
  by (simp add: mapped_nth)

lemma store_write:
  assumes "in_space p (Suc (length bs))" "mapped m p (Suc (length bs))"
  shows "store (write_bytes m p bs) (p + of_nat (length bs)) v = Some (write_bytes m p (bs @ [v]))"
proof -
  have "mapped (write_bytes m p bs) p (Suc (length bs))"
    using assms mapped_write [of p bs m p "Suc (length bs)"] mapped_le [OF assms(2), of "length bs"] in_space_le [OF assms(1), of "length bs"]
    by simp
  then have "write_bytes m p bs (p + of_nat (length bs)) \<noteq> None"
    by (simp only: mapped_nth) (metis lessI)
  then show ?thesis
    by (simp add: store_mapped write_append)
qed

lemma str_at_write: "0 \<notin> set s \<Longrightarrow> in_space p (Suc (length s)) \<Longrightarrow> str_at (write_bytes m p (s @ [0])) p s"
  using bytes_at_write [of p "s @ [0]" m] by (simp add: str_at_def)

text \<open>Copying the first bytes of a string and ending them with a null byte.\<close>

lemma copy_terminate:
  assumes "str_ok m src s" "n \<le> length s" "mapped m dst (Suc n)" "in_space dst (Suc n)" "dst \<noteq> NULL"
    and "unat dst + Suc n \<le> unat src \<or> unat src + Suc (length s) \<le> unat dst"
  shows "do { (_, m) \<leftarrow> memcpy m dst src (of_nat n); store m (dst + of_nat n) 0 } = Some (write_bytes m dst (take n s @ [0]))"
proof -
  have len: "length (take n s) = n"
    using assms(2) by simp
  have "bytes_at m src (take n s)" "in_space src n" "src \<noteq> NULL"
    using assms(1,2) bytes_at_take [of m src s n] by (auto simp: str_ok_def str_at_def bytes_at_append in_space_def)
  then have "memcpy m dst src (of_nat n) = Some (dst, write_bytes m dst (take n s))"
    using memcpy_ok [of m src "take n s" dst, unfolded len] assms(5,6) mapped_le [OF assms(3), of n] in_space_le [OF assms(4), of n]
      assms(2) by auto
  then show ?thesis
    using store_write [of dst "take n s" m 0, unfolded len] assms(3,4) by simp
qed

lemma strlcpy_ok:
  assumes "str_ok m src s" "0 < sz" "mapped m dst (unat sz)" "in_space dst (unat sz)" "dst \<noteq> NULL"
    and "unat dst + unat sz \<le> unat src \<or> unat src + Suc (length s) \<le> unat dst"
  shows "strlcpy m dst src sz = Some (of_nat (length s), write_bytes m dst (take (unat sz - 1) s @ [0]))"
proof -
  define n where "n = min (length s) (unat sz - 1)"
  have sz: "unat (sz - 1) = unat sz - 1" "0 < unat sz"
    using assms(2) by (simp_all add: unat_minus_one word_gt_0 unat_gt_0)
  have len: "unat (of_nat (length s) :: size_t) = length s" "src \<noteq> NULL" "str_at m src s"
    using assms(1) of_nat_size [of src "length s"] by (auto simp: str_ok_def in_space_def)
  have n: "(if of_nat (length s) < sz - 1 then of_nat (length s) else sz - 1) = (of_nat n :: size_t)"
    using sz len by (auto simp: n_def word_less_nat_alt min_def)
  have "do { (_, m) \<leftarrow> memcpy m dst src (of_nat n); store m (dst + of_nat n) 0 } = Some (write_bytes m dst (take n s @ [0]))"
    using assms sz mapped_le [OF assms(3), of "Suc n"] by (intro copy_terminate) (auto simp: n_def in_space_def)
  moreover have "take n s = take (unat sz - 1) s"
    by (simp add: n_def min_def)
  ultimately show ?thesis
    using assms(2,5) len strlen_ok [of m src s] n by (auto simp: strlcpy_def Let_def bind_eq_Some_conv)
qed

lemma size_len: "str_ok m p s \<Longrightarrow> unat (of_nat (length s) :: size_t) = length s"
  using of_nat_size [of p "length s"] by (auto simp: str_ok_def in_space_def)

lemma mapped_drop: "mapped m p (i + n) \<Longrightarrow> mapped m (p + of_nat i) n"
  unfolding mapped_nth by (metis add_less_cancel_left add.assoc of_nat_add)

lemma strlcat_ok:
  assumes "str_ok m src s" "str_ok m dst d" "length d < unat sz" "mapped m dst (unat sz)" "in_space dst (unat sz)"
    and "unat dst + unat sz \<le> unat src \<or> unat src + Suc (length s) \<le> unat dst"
  shows "strlcat m dst src sz = Some (of_nat (length s) + of_nat (length d),
    write_bytes m (dst + of_nat (length d)) (take (unat sz - length d - 1) s @ [0]))"
proof -
  define n where "n = min (length s) (unat sz - length d - 1)"
  let ?e = "dst + of_nat (length d)"
  have e: "unat ?e = unat dst + length d" "?e \<noteq> NULL"
    using unat_offset [OF assms(5), of "length d"] offset_not_null [of dst _ "length d"] assms(2,3,5) by (auto simp: str_ok_def)
  note len = size_len [OF assms(1)] size_len [OF assms(2)]
  have sz: "unat (sz - of_nat (length d) - 1) = unat sz - length d - 1" "of_nat (length d) < sz" "0 < sz"
    using assms(3) len(2) by (auto simp: word_less_nat_alt unat_sub_if' unat_gt_0)
  have unat_n: "unat (of_nat n :: size_t) = n"
    using len(1) unat_32_less [of sz] by (auto simp: n_def unat_of_nat min_def)
  have n: "(if of_nat (length s) < sz - of_nat (length d) - 1 then of_nat (length s) else sz - of_nat (length d) - 1) = (of_nat n :: size_t)"
    by (rule word_unat_eq_iff [THEN iffD2]) (use sz(1) len(1) n_def unat_n in \<open>auto simp: word_less_nat_alt min_def\<close>)
  have "mapped m ?e (Suc n)"
    using mapped_drop [of m dst "length d" "Suc n"] mapped_le [OF assms(4), of "length d + Suc n"] assms(3) by (simp add: n_def)
  then have "do { (_, m) \<leftarrow> memcpy m ?e src (of_nat n); store m (?e + of_nat n) 0 } = Some (write_bytes m ?e (take n s @ [0]))"
    using assms(1,3,5,6) e by (intro copy_terminate) (auto simp: n_def in_space_def)
  moreover have "take n s = take (unat sz - length d - 1) s"
    by (simp add: n_def min_def)
  ultimately show ?thesis
    using assms(1,2) sz strlen_ok [of m src s] strlen_ok [of m dst d] n by (auto simp: strlcat_def Let_def bind_eq_Some_conv str_ok_def)
qed

lemma memset_loop_ok: "mapped m p n \<Longrightarrow> memset_loop n m p v = Some (write_bytes m p (replicate n v))"
proof (induction n arbitrary: m p)
  case (Suc n)
  then have "m p \<noteq> None" "mapped m (p + 1) n"
    by simp_all
  then have "store m p v = Some (m(p \<mapsto> v))" "mapped (m(p \<mapsto> v)) (p + 1) n"
    using store_mapped mapped_store [of m p v] by metis+
  then show ?case
    using Suc.IH by simp
qed simp

lemma memset_ok: "mapped m p (unat sz) \<Longrightarrow> p \<noteq> NULL \<Longrightarrow>
    memset m p v sz = Some (p, write_bytes m p (replicate (unat sz) (word_of_int v)))"
  by (simp add: memset_def memset_loop_ok)

lemma memchr_loop_ok: "bytes_at m p bs \<Longrightarrow>
    memchr_loop (length bs) m p c = Some (if c \<in> set bs then p + of_nat (length (takeWhile (\<lambda>x. x \<noteq> c) bs)) else NULL)"
  by (induction bs arbitrary: p) (auto simp: ac_simps)

lemma strnlen_loop_ok:
  assumes "str_at m (p + n) s" "unat n + length s < 2 ^ 32" "n \<le> maxlen"
  shows "strnlen_loop m p maxlen n = Some (n + of_nat (min (length s) (unat maxlen - unat n)))"
  using assms
proof (induction s arbitrary: n)
  case Nil
  then show ?case
    by (subst strnlen_loop.simps) simp
next
  case (Cons x s)
  show ?case
  proof (cases "n < maxlen")
    case True
    have n: "unat (n + 1) = unat n + 1"
      using Cons.prems(2) unat_add_small [of n 1] by simp
    then have "strnlen_loop m p maxlen (n + 1) = Some (n + 1 + of_nat (min (length s) (unat maxlen - unat (n + 1))))"
      using Cons.prems True by (intro Cons.IH) (simp_all add: ac_simps word_less_nat_alt word_le_nat_alt)
    moreover have "min (length (x # s)) (unat maxlen - unat n) = Suc (min (length s) (unat maxlen - unat (n + 1)))"
      using True n by (auto simp: word_less_nat_alt min_def)
    ultimately show ?thesis
      using Cons.prems(1) True by (subst strnlen_loop.simps) (simp add: ac_simps)
  next
    case False
    then show ?thesis
      using Cons.prems by (subst strnlen_loop.simps) simp
  qed
qed

text \<open>The first occurrence of one string in another.\<close>

fun occurs :: "bytes \<Rightarrow> bytes \<Rightarrow> nat option" where
  "occurs needle [] = (if needle = [] then Some 0 else None)"
| "occurs needle (x # xs) = (if prefix needle (x # xs) then Some 0 else map_option Suc (occurs needle xs))"

lemma occurs_Some: "occurs needle hs = Some i \<longleftrightarrow>
    i \<le> length hs \<and> prefix needle (drop i hs) \<and> (\<forall>j < i. \<not> prefix needle (drop j hs))"
proof (induction hs arbitrary: i)
  case (Cons x xs)
  show ?case
  proof (cases i)
    case (Suc j)
    then show ?thesis
      using Cons [of j] by (auto simp: less_Suc_eq_0_disj)
  qed (auto simp del: prefix_Cons)
qed auto

lemma occurs_short: "length hs < length needle \<Longrightarrow> occurs needle hs = None"
  by (induction hs) (auto dest: prefix_length_le)

lemma prefix_length_eq: "length xs = length ys \<Longrightarrow> prefix xs ys \<longleftrightarrow> xs = ys"
  by (auto simp: prefix_def)

lemma strstr_loop_ok:
  assumes "bytes_at m h hs" "str_ok m q needle" "length hs = n + length needle" "h \<noteq> NULL" "in_space h (length hs)"
  shows "strstr_loop (Suc n) m h q (of_nat (length needle)) =
    Some (case occurs needle hs of None \<Rightarrow> NULL | Some i \<Rightarrow> h + of_nat i)"
  using assms(1,3-5)
proof (induction n arbitrary: h hs)
  case 0
  have "memcmp m h q (of_nat (length needle)) = Some (if hs < needle then - 1 else if hs > needle then 1 else 0)"
    using 0 assms(2) size_len [OF assms(2)] by (intro memcmp_ok) (auto simp: str_ok_def str_at_def bytes_at_append)
  moreover have "occurs needle hs = (if hs = needle then Some 0 else None)"
    using 0(2) prefix_length_eq [of needle hs] by (cases hs) (auto simp: occurs_short simp del: prefix_Cons)
  ultimately show ?case
    by auto
next
  case (Suc n)
  let ?k = "length needle"
  obtain x ys where hs: "hs = x # ys"
    using Suc.prems(2) by (cases hs) auto
  have "memcmp m h q (of_nat ?k) = Some (if take ?k hs < needle then - 1 else if take ?k hs > needle then 1 else 0)"
    using Suc.prems assms(2) size_len [OF assms(2)] bytes_at_take
    by (intro memcmp_ok) (auto simp: str_ok_def str_at_def bytes_at_append)
  moreover have "take ?k hs = needle \<longleftrightarrow> prefix needle hs"
    using Suc.prems(2) by (metis append_eq_conv_conj prefix_def)
  moreover have "strstr_loop (Suc n) m (h + 1) q (of_nat ?k) = Some (case occurs needle ys of None \<Rightarrow> NULL | Some i \<Rightarrow> h + 1 + of_nat i)"
    using Suc.prems hs offset_not_null [of h "length hs" 1] in_space_succ by (intro Suc.IH) auto
  ultimately show ?case
    by (auto simp: hs ac_simps split: option.splits simp del: prefix_Cons)
qed

lemma strstr_ok:
  assumes "str_ok m p hs" "str_ok m q needle"
  shows "strstr m p q = Some (case occurs needle hs of None \<Rightarrow> NULL | Some i \<Rightarrow> p + of_nat i)"
proof (cases "length needle \<le> length hs")
  case True
  have "bytes_at m p hs" "in_space p (length hs)" "p \<noteq> NULL" "q \<noteq> NULL" "str_at m p hs" "str_at m q needle"
    using assms by (auto simp: str_ok_def str_at_def bytes_at_append in_space_def)
  moreover have "unat (of_nat (length hs) - of_nat (length needle) :: size_t) = length hs - length needle"
    using True size_len [OF assms(1)] size_len [OF assms(2)] by (simp add: unat_sub_if')
  ultimately show ?thesis
    using True strstr_loop_ok [of m p hs q needle "length hs - length needle"] assms(2) strlen_ok
      size_len [OF assms(1)] size_len [OF assms(2)] by (simp add: strstr_def word_le_nat_alt)
next
  case False
  then show ?thesis
    using assms size_len [OF assms(1)] size_len [OF assms(2)] strlen_ok [of m p hs] strlen_ok [of m q needle]
    by (simp add: strstr_def word_le_nat_alt occurs_short str_ok_def)
qed

subsection \<open>Properties\<close>

text \<open>The memory of the witnesses: every address is mapped and holds a null byte.\<close>

definition zeros :: memory where
  "zeros = (\<lambda>_. Some 0)"

text \<open>\<^verbatim>\<open>memmove\<close> copies the bytes of the source as they were before the call, also when the blocks
  overlap, and changes nothing else. It returns the target only when it copies downwards; when it
  copies upwards the result is the end of the target.\<close>

theorem memmove_overlapping:
  assumes "bytes_at m src bs" "mapped m dst (length bs)" "in_space src (length bs)" "in_space dst (length bs)"
    and "dst \<noteq> NULL" "src \<noteq> NULL"
  shows "\<exists>m'. memmove m dst src (of_nat (length bs)) = Some (if dst < src then dst + of_nat (length bs) else dst, m')
    \<and> bytes_at m' dst bs \<and> (\<forall>a. \<not> within dst (length bs) a \<longrightarrow> m' a = m a)"
  using memmove_ok [OF assms] bytes_at_write [OF assms(4)] write_outside [OF assms(4)] by simp

theorem memmove_overlapping_witness:
  "bytes_at (write_bytes zeros 100 [1, 2, 3]) 100 [1, 2, 3]
   \<and> (\<exists>m'. memmove (write_bytes zeros 100 [1, 2, 3]) 101 100 3 = Some (101, m') \<and> bytes_at m' 101 [1, 2, 3])"
proof -
  have "bytes_at (write_bytes zeros 100 [1, 2, 3]) 100 [1, 2, 3]"
    by simp
  moreover have "mapped (write_bytes zeros 100 [1, 2, 3]) 101 (length [1 :: uint8_t, 2, 3])"
    by (simp add: zeros_def)
  ultimately show ?thesis
    using memmove_overlapping [of "write_bytes zeros 100 [1, 2, 3]" 100 "[1, 2, 3]" 101] by (auto simp: in_space_def)
qed

text \<open>C37: \<^verbatim>\<open>strtok_r\<close> returns the next token, the longest part of the string without delimiters behind
  the leading delimiters, as a string of its own; it leaves the rest of the string for the next
  call and writes only inside the string. It returns a null pointer, and writes nothing, when
  only delimiters are left.\<close>

theorem strtok_r_cuts_next_token:
  assumes "str_ok m p s" "str_ok m q ds"
  shows "case next_token ds s of
      None \<Rightarrow> \<exists>sv'. strtok_r m p q sv = Some (NULL, sv', m)
    | Some (tok, rest) \<Rightarrow> \<exists>t sv' m'. strtok_r m p q sv = Some (t, sv', m') \<and> t \<noteq> NULL
        \<and> str_at m' t tok \<and> str_at m' sv' rest \<and> (\<forall>a. \<not> within p (length s) a \<longrightarrow> m' a = m a)"
  using strtok_r_ok [OF assms, of sv] by (fastforce simp: cut_def str_ok_def split: option.splits)

theorem strtok_r_cuts_next_token_witness:
  "\<exists>m. str_ok m 100 [32, 97, 98, 32, 99] \<and> str_ok m 200 [32]
     \<and> (\<exists>t sv m'. strtok_r m 100 200 0 = Some (t, sv, m') \<and> str_at m' t [97, 98] \<and> str_at m' sv [99])"
proof -
  define m where "m = write_bytes (write_bytes zeros 200 [32]) 100 [32, 97, 98, 32, 99]"
  have ok: "str_ok m 100 [32, 97, 98, 32, 99]" "str_ok m 200 [32]"
    by (simp_all add: m_def str_ok_def in_space_def zeros_def)
  have "next_token [32] [32, 97, 98, 32, 99] = Some ([97, 98], [99])"
    by (simp add: next_token_def)
  then show ?thesis
    using strtok_r_cuts_next_token [OF ok, of 0] ok by auto
qed

text \<open>\<^verbatim>\<open>strlcpy\<close> puts at most \<^verbatim>\<open>size - 1\<close> bytes of the string and a null byte into the target,
  touches nothing outside the \<^verbatim>\<open>size\<close> bytes of the target and returns the length of the whole
  string.\<close>

theorem strlcpy_bounded:
  assumes "str_ok m src s" "0 < sz" "mapped m dst (unat sz)" "in_space dst (unat sz)" "dst \<noteq> NULL"
    and "unat dst + unat sz \<le> unat src \<or> unat src + Suc (length s) \<le> unat dst"
  shows "\<exists>m'. strlcpy m dst src sz = Some (of_nat (length s), m') \<and> str_at m' dst (take (unat sz - 1) s)
    \<and> (\<forall>a. \<not> within dst (unat sz) a \<longrightarrow> m' a = m a)"
proof -
  let ?t = "take (unat sz - 1) s"
  have "0 < unat sz"
    using assms(2) by (simp add: unat_gt_0 word_gt_0)
  then have len: "Suc (length ?t) \<le> unat sz"
    by simp
  have "0 \<notin> set ?t"
    using assms(1) set_take_subset [of "unat sz - 1" s] by (auto simp: str_ok_def str_at_def)
  then have "str_at (write_bytes m dst (?t @ [0])) dst ?t"
    using in_space_le [OF assms(4) len] by (intro str_at_write)
  moreover have "write_bytes m dst (?t @ [0]) a = m a" if "\<not> within dst (unat sz) a" for a
    using in_space_le [OF assms(4) len] that len by (intro write_outside) (auto simp: within_def)
  ultimately show ?thesis
    using strlcpy_ok [OF assms] by blast
qed

theorem strlcpy_bounded_witness:
  "str_ok (write_bytes zeros 100 [97, 98, 99]) 100 [97, 98, 99]
   \<and> (\<exists>m'. strlcpy (write_bytes zeros 100 [97, 98, 99]) 200 100 3 = Some (3, m') \<and> str_at m' 200 [97, 98])"
proof -
  have "str_ok (write_bytes zeros 100 [97, 98, 99]) 100 [97, 98, 99]"
    by (simp add: str_ok_def in_space_def zeros_def)
  moreover have "mapped (write_bytes zeros 100 [97, 98, 99]) 200 (unat (3 :: size_t))"
    by (simp add: zeros_def mapped_nth)
  ultimately show ?thesis
    using strlcpy_bounded [of "write_bytes zeros 100 [97, 98, 99]" 100 "[97, 98, 99]" 3 200] by (auto simp: in_space_def)
qed

end
