(* ===== verification/Palloc.thy ===== *)
theory Palloc
  imports Bitmap CString Vaddr
begin

text \<open>
  The page allocator (\<^verbatim>\<open>threads/palloc.c\<close>): two pools of pages, each with a bitmap of the pages
  in use. The memory that the pages are made of is part of the state, since \<^verbatim>\<open>PAL_ZERO\<close> clears
  pages and freed pages are overwritten; the bitmaps, which the code puts in front of the
  pools, are kept apart. Each operation is one step: the code takes the lock of the pool
  around the search and the marking of the pages, and frees pages without it.
\<close>

subsection \<open>Operations\<close>

definition PAL_ASSERT :: uint32_t where "PAL_ASSERT = 1"
definition PAL_ZERO :: uint32_t where "PAL_ZERO = 2"
definition PAL_USER :: uint32_t where "PAL_USER = 4"

record pool =
  used_map :: bitmap
  base :: ptr

record palloc =
  kernel_pool :: pool
  user_pool :: pool
  kmem :: memory

definition words_at :: "memory \<Rightarrow> ptr \<Rightarrow> size_t \<Rightarrow> elem_type list option" where
  "words_at m p n = map_option bytes_words (those (map (\<lambda>i. m (p + of_nat i)) [0..<unat n]))"

definition init_pool :: "memory \<Rightarrow> ptr \<Rightarrow> size_t \<Rightarrow> pool option" where
  "init_pool m base0 page_cnt = do {
     let bm_pages = DIV_ROUND_UP (bitmap_buf_size page_cnt) PGSIZE;
     ASSERT (\<not> bm_pages > page_cnt);
     let page_cnt = page_cnt - bm_pages;
     buf \<leftarrow> words_at m base0 (bm_pages * PGSIZE);
     b \<leftarrow> bitmap_create_in_buf page_cnt buf (bm_pages * PGSIZE);
     Some \<lparr>used_map = b, base = base0 + bm_pages * PGSIZE\<rparr> }"

definition palloc_init :: "uint32_t \<Rightarrow> memory \<Rightarrow> size_t \<Rightarrow> palloc option" where
  "palloc_init init_ram_pages m user_page_limit = do {
     free_start \<leftarrow> ptov (1024 * 1024);
     free_end \<leftarrow> ptov (init_ram_pages * PGSIZE);
     let free_pages = word_of_int (sint (free_end - free_start) sdiv uint PGSIZE);
     let user_pages = free_pages div 2;
     let user_pages = (if user_pages > user_page_limit then user_page_limit else user_pages);
     let kernel_pages = free_pages - user_pages;
     k \<leftarrow> init_pool m free_start kernel_pages;
     u \<leftarrow> init_pool m (free_start + kernel_pages * PGSIZE) user_pages;
     Some \<lparr>kernel_pool = k, user_pool = u, kmem = m\<rparr> }"

definition get_pool :: "bool \<Rightarrow> palloc \<Rightarrow> pool" where
  "get_pool user s = (if user then user_pool s else kernel_pool s)"

definition set_used :: "bool \<Rightarrow> bitmap \<Rightarrow> palloc \<Rightarrow> palloc" where
  "set_used user b s = (if user then s\<lparr>user_pool := (user_pool s)\<lparr>used_map := b\<rparr>\<rparr>
     else s\<lparr>kernel_pool := (kernel_pool s)\<lparr>used_map := b\<rparr>\<rparr>)"

definition palloc_get_multiple :: "uint32_t \<Rightarrow> size_t \<Rightarrow> palloc \<Rightarrow> (ptr \<times> palloc) option" where
  "palloc_get_multiple flags page_cnt s =
     (if page_cnt = 0 then Some (NULL, s)
      else do {
        let user = (flags AND PAL_USER \<noteq> 0);
        let pool = get_pool user s;
        (page_idx, b) \<leftarrow> bitmap_scan_and_flip (used_map pool) 0 page_cnt False;
        let s = set_used user b s;
        let pages = (if page_idx \<noteq> BITMAP_ERROR then base pool + PGSIZE * page_idx else NULL);
        if pages \<noteq> NULL then
          (if flags AND PAL_ZERO \<noteq> 0 then do {
             (_, m) \<leftarrow> memset (kmem s) pages 0 (PGSIZE * page_cnt);
             Some (pages, s\<lparr>kmem := m\<rparr>) }
           else Some (pages, s))
        else if flags AND PAL_ASSERT \<noteq> 0 then None
        else Some (pages, s) })"

definition palloc_get_page :: "uint32_t \<Rightarrow> palloc \<Rightarrow> (ptr \<times> palloc) option" where
  "palloc_get_page flags s = palloc_get_multiple flags 1 s"

definition page_from_pool :: "pool \<Rightarrow> ptr \<Rightarrow> bool" where
  "page_from_pool pool page = (let
     page_no = pg_no page;
     start_page = pg_no (base pool);
     end_page = start_page + bitmap_size (used_map pool)
   in page_no \<ge> start_page \<and> page_no < end_page)"

definition palloc_free_multiple :: "ptr \<Rightarrow> size_t \<Rightarrow> palloc \<Rightarrow> palloc option" where
  "palloc_free_multiple pages page_cnt s = do {
     ASSERT (pg_ofs pages = 0);
     if pages = NULL \<or> page_cnt = 0 then Some s
     else do {
       user \<leftarrow> (if page_from_pool (kernel_pool s) pages then Some False
         else if page_from_pool (user_pool s) pages then Some True
         else None);
       let pool = get_pool user s;
       let page_idx = pg_no pages - pg_no (base pool);
       (_, m) \<leftarrow> memset (kmem s) pages 0xcc (PGSIZE * page_cnt);
       all_used \<leftarrow> bitmap_all (used_map pool) page_idx page_cnt;
       ASSERT all_used;
       b \<leftarrow> bitmap_set_multiple (used_map pool) page_idx page_cnt False;
       Some ((set_used user b s)\<lparr>kmem := m\<rparr>) } }"

definition palloc_free_page :: "ptr \<Rightarrow> palloc \<Rightarrow> palloc option" where
  "palloc_free_page page s = palloc_free_multiple page 1 s"

subsection \<open>Pools\<close>

text \<open>The page with an index, all pages and the pages in use of a pool; a group of contiguous pages.\<close>

definition page_at :: "ptr \<Rightarrow> nat \<Rightarrow> ptr" where
  "page_at p i = p + PGSIZE * of_nat i"

definition pages_from :: "ptr \<Rightarrow> nat \<Rightarrow> ptr set" where
  "pages_from p n = page_at p ` {..<n}"

definition size_of :: "pool \<Rightarrow> nat" where
  "size_of pool = unat (bit_cnt (used_map pool))"

definition taken :: "pool \<Rightarrow> ptr set" where
  "taken pool = page_at (base pool) ` {i. i < size_of pool \<and> bit_list (used_map pool) ! i}"

definition pool_ok :: "memory \<Rightarrow> pool \<Rightarrow> bool" where
  "pool_ok m pool \<longleftrightarrow> wf_bitmap (used_map pool) \<and> pg_ofs (base pool) = 0 \<and> base pool \<noteq> NULL
    \<and> unat (base pool) + 4096 * size_of pool < 2 ^ 32 \<and> mapped m (base pool) (4096 * size_of pool)"

definition palloc_ok :: "palloc \<Rightarrow> bool" where
  "palloc_ok s \<longleftrightarrow> pool_ok (kmem s) (kernel_pool s) \<and> pool_ok (kmem s) (user_pool s)
    \<and> pages_from (base (kernel_pool s)) (size_of (kernel_pool s)) \<inter> pages_from (base (user_pool s)) (size_of (user_pool s)) = {}"

definition allocated :: "palloc \<Rightarrow> ptr set" where
  "allocated s = taken (kernel_pool s) \<union> taken (user_pool s)"

lemma unat_page_at:
  assumes "unat p + 4096 * n < 2 ^ 32" "i \<le> n"
  shows "unat (page_at p i) = unat p + 4096 * i"
proof -
  have "page_at p i = p + of_nat (4096 * i)"
    by (simp add: page_at_def PGSIZE_def)
  then show ?thesis
    using unat_add_le [of p "4096 * i"] assms by simp
qed

lemma page_at_inj: "unat p + 4096 * n < 2 ^ 32 \<Longrightarrow> i \<le> n \<Longrightarrow> j \<le> n \<Longrightarrow> page_at p i = page_at p j \<longleftrightarrow> i = j"
  using unat_page_at [of p n i] unat_page_at [of p n j]
  by (metis add_left_cancel mult_cancel1 zero_neq_numeral)

lemma page_at_add: "page_at (page_at p i) j = page_at p (i + j)"
  by (simp add: page_at_def algebra_simps)

lemma group_nonempty: "0 < n \<Longrightarrow> p \<in> pages_from p n"
  by (auto simp: pages_from_def page_at_def intro: image_eqI [of _ _ 0])

lemma group_self: "c \<noteq> 0 \<Longrightarrow> p \<in> pages_from p (unat c)"
  by (intro group_nonempty) (simp add: unat_gt_0)

lemma taken_group: "taken pool \<subseteq> pages_from (base pool) (size_of pool)"
  by (auto simp: taken_def pages_from_def)

lemma group_offset: "pages_from (page_at p k) n = page_at p ` {k..<k + n}"
proof -
  have "page_at p i \<in> pages_from (page_at p k) n" if "k \<le> i" "i < k + n" for i
    using that page_at_add [of p k "i - k"] by (auto simp: pages_from_def intro!: image_eqI [of _ _ "i - k"])
  then show ?thesis
    by (auto simp: pages_from_def page_at_add)
qed

lemma subgroup: "k + n \<le> c \<Longrightarrow> pages_from (page_at p k) n \<subseteq> pages_from p c"
  unfolding group_offset unfolding pages_from_def by auto

lemma unat_round_down: "unat (pg_round_down a) = 4096 * (unat a div 4096)"
proof -
  have "pg_round_down a = a - pg_ofs a"
    using round_down(4) [of a] by (simp add: eq_diff_eq)
  moreover have "unat (pg_ofs a) \<le> unat a"
    by (simp add: unat_pg_ofs)
  ultimately show ?thesis
    by (simp add: unat_sub_if' unat_pg_ofs minus_mod_eq_mult_div)
qed

lemma within_pages:
  assumes "pg_ofs p = 0" "in_space p (4096 * n)" "within p (4096 * n) a"
  shows "pg_round_down a \<in> pages_from p n"
proof -
  define j where "j = unat a div 4096 - unat p div 4096"
  obtain c where c: "unat p = 4096 * c"
    using assms(1) by (auto simp: aligned_iff)
  have "unat a < 4096 * (c + n)" "4096 * c \<le> unat a"
    using assms(3) c by (simp_all add: within_def)
  then have "c \<le> unat a div 4096" "unat a div 4096 < c + n"
    by (simp_all add: less_mult_imp_div_less mult.commute)
  then have "j < n" "unat p + 4096 * j = 4096 * (unat a div 4096)"
    by (auto simp: j_def c)
  moreover have "unat (page_at p j) = unat p + 4096 * j"
    using assms(2) \<open>j < n\<close> by (intro unat_page_at [of _ n]) (auto simp: in_space_def)
  ultimately have "pg_round_down a = page_at p j"
    by (simp add: word_unat_eq_iff unat_round_down)
  then show ?thesis
    using \<open>j < n\<close> by (simp add: pages_from_def)
qed

text \<open>Setting a range of bits of the map changes the pages in use by a group.\<close>

lemma taken_set_range:
  assumes "pool_ok m pool" "k + n \<le> size_of pool" "wf_bitmap b" "bit_cnt b = bit_cnt (used_map pool)"
    and "bit_list b = set_range (bit_list (used_map pool)) k n v"
  shows "taken (pool\<lparr>used_map := b\<rparr>) = (if v then taken pool \<union> pages_from (page_at (base pool) k) n
      else taken pool - pages_from (page_at (base pool) k) n)" "pool_ok m (pool\<lparr>used_map := b\<rparr>)"
    "size_of (pool\<lparr>used_map := b\<rparr>) = size_of pool"
proof -
  show sz: "size_of (pool\<lparr>used_map := b\<rparr>) = size_of pool"
    using assms(4) by (simp add: size_of_def)
  then show "pool_ok m (pool\<lparr>used_map := b\<rparr>)"
    using assms(1,3) by (simp add: pool_ok_def)
  have bits: "bit_list b ! i = (if k \<le> i \<and> i < k + n then v else bit_list (used_map pool) ! i)" if "i < size_of pool" for i
    using assms(2,5) that by (simp add: nth_set_range size_of_def)
  have inj: "page_at (base pool) i = page_at (base pool) j \<longleftrightarrow> i = j" if "i < size_of pool" "j < size_of pool" for i j
    using assms(1) that page_at_inj [of "base pool" "size_of pool" i j] by (simp add: pool_ok_def)
  show "taken (pool\<lparr>used_map := b\<rparr>) = (if v then taken pool \<union> pages_from (page_at (base pool) k) n
      else taken pool - pages_from (page_at (base pool) k) n)"
    unfolding taken_def group_offset sz using bits inj assms(2) by (auto simp: image_iff split: if_splits)
qed

subsection \<open>The allocator\<close>

lemma set_used_ok:
  assumes ok: "palloc_ok s" and k: "k + n \<le> size_of (get_pool u s)"
    and b: "wf_bitmap b" "bit_cnt b = bit_cnt (used_map (get_pool u s))" "bit_list b = set_range (bit_list (used_map (get_pool u s))) k n v"
  shows "palloc_ok (set_used u b s)"
    "allocated (set_used u b s) = (if v then allocated s \<union> pages_from (page_at (base (get_pool u s)) k) n
      else allocated s - pages_from (page_at (base (get_pool u s)) k) n)"
proof -
  have pool: "pool_ok (kmem s) (get_pool u s)"
    using ok by (simp add: get_pool_def palloc_ok_def)
  note t = taken_set_range [OF pool k b]
  have "pages_from (page_at (base (get_pool u s)) k) n \<subseteq> pages_from (base (get_pool u s)) (size_of (get_pool u s))"
    using k by (rule subgroup)
  then show "allocated (set_used u b s) = (if v then allocated s \<union> pages_from (page_at (base (get_pool u s)) k) n
      else allocated s - pages_from (page_at (base (get_pool u s)) k) n)"
    using t ok taken_group [of "kernel_pool s"] taken_group [of "user_pool s"]
    unfolding palloc_ok_def allocated_def set_used_def get_pool_def by (cases u; cases v) auto
  show "palloc_ok (set_used u b s)"
    using t ok unfolding palloc_ok_def set_used_def get_pool_def by (cases u) auto
qed

lemma pool_kmem: "palloc_ok s \<Longrightarrow> pool_ok (kmem s) (get_pool u s)"
  by (simp add: get_pool_def palloc_ok_def)

lemma kmem_set_used: "kmem (set_used u b s) = kmem s"
  by (simp add: set_used_def)

lemma palloc_ok_write:
  assumes "palloc_ok s" "in_space p (length bs)" "mapped (kmem s) p (length bs)"
  shows "palloc_ok (s\<lparr>kmem := write_bytes (kmem s) p bs\<rparr>)" "allocated (s\<lparr>kmem := m\<rparr>) = allocated s"
  using assms by (simp_all add: palloc_ok_def pool_ok_def mapped_write allocated_def)

text \<open>A run of pages of a pool as memory.\<close>

lemma pool_run:
  assumes "pool_ok m pool" "k + unat n \<le> size_of pool" "0 < n"
  shows "mapped m (page_at (base pool) k) (unat (PGSIZE * n))" "in_space (page_at (base pool) k) (unat (PGSIZE * n))"
    "unat (PGSIZE * n) = 4096 * unat n" "page_at (base pool) k \<noteq> NULL" "pg_ofs (page_at (base pool) k) = 0"
proof -
  have fits: "unat (base pool) + 4096 * size_of pool < 2 ^ 32"
    using assms(1) by (simp add: pool_ok_def)
  then have at: "unat (page_at (base pool) k) = unat (base pool) + 4096 * k"
    using assms(2) by (intro unat_page_at) auto
  show sz: "unat (PGSIZE * n) = 4096 * unat n"
    using fits assms(2) by (simp add: PGSIZE_def unat_word_ariths)
  show "in_space (page_at (base pool) k) (unat (PGSIZE * n))"
    using fits assms(2) by (simp add: in_space_def at sz)
  have "0 < unat (base pool)"
    using assms(1) by (simp add: pool_ok_def unat_gt_0)
  then show "page_at (base pool) k \<noteq> NULL"
    using at by auto
  show "pg_ofs (page_at (base pool) k) = 0"
    using assms(1) at by (simp add: pool_ok_def aligned_iff)
  have "mapped m (base pool + of_nat (4096 * k)) (4096 * unat n)"
    using assms(1,2) mapped_le [of m "base pool" "4096 * size_of pool" "4096 * k + 4096 * unat n"]
    by (intro mapped_drop) (simp add: pool_ok_def)
  then show "mapped m (page_at (base pool) k) (unat (PGSIZE * n))"
    unfolding sz by (simp add: page_at_def PGSIZE_def)
qed

lemma group_free:
  assumes "palloc_ok s" "k + n \<le> size_of (get_pool u s)" "\<forall>j < n. \<not> bit_list (used_map (get_pool u s)) ! (k + j)"
  shows "pages_from (page_at (base (get_pool u s)) k) n \<inter> allocated s = {}"
proof -
  let ?p = "get_pool u s"
  have inj: "page_at (base ?p) i = page_at (base ?p) j \<longleftrightarrow> i = j" if "i < size_of ?p" "j < size_of ?p" for i j
    using pool_kmem [OF assms(1), of u] that page_at_inj [of "base ?p" "size_of ?p" i j] by (simp add: pool_ok_def)
  have "\<not> bit_list (used_map ?p) ! i" if "k \<le> i" "i < k + n" for i
    using assms(3) that le_Suc_ex [OF that(1)] by auto
  then have "pages_from (page_at (base ?p) k) n \<inter> taken ?p = {}"
    unfolding group_offset taken_def using inj assms(2) by (auto simp: dest!: inj [THEN iffD1, rotated 2])
  moreover have "pages_from (page_at (base ?p) k) n \<subseteq> pages_from (base ?p) (size_of ?p)"
    using assms(2) by (rule subgroup)
  ultimately show ?thesis
    using assms(1) taken_group [of "kernel_pool s"] taken_group [of "user_pool s"]
    unfolding palloc_ok_def allocated_def get_pool_def by (cases u) auto
qed

lemma set_used_same: "set_used u (used_map (get_pool u s)) s = s"
  by (simp add: set_used_def get_pool_def)

lemma palloc_get_None:
  assumes ok: "palloc_ok s" and cnt: "page_cnt \<noteq> 0"
    and fit: "first_fit (bit_list (used_map (get_pool (fl AND PAL_USER \<noteq> 0) s))) 0 (unat page_cnt) False = None"
  shows "palloc_get_multiple fl page_cnt s = (if fl AND PAL_ASSERT \<noteq> 0 then None else Some (NULL, s))"
  using cnt bitmap_scan_and_flip_None [of "used_map (get_pool (fl AND PAL_USER \<noteq> 0) s)" 0 page_cnt False] fit pool_kmem [OF ok]
  by (simp add: palloc_get_multiple_def pool_ok_def set_used_same)

lemma palloc_get_Some:
  assumes ok: "palloc_ok s" and cnt: "page_cnt \<noteq> 0"
    and fit: "first_fit (bit_list (used_map (get_pool (fl AND PAL_USER \<noteq> 0) s))) 0 (unat page_cnt) False = Some k"
  obtains p s' where "palloc_get_multiple fl page_cnt s = Some (p, s')"
    "p = page_at (base (get_pool (fl AND PAL_USER \<noteq> 0) s)) k" "k + unat page_cnt \<le> size_of (get_pool (fl AND PAL_USER \<noteq> 0) s)"
    "palloc_ok s'" "allocated s' = allocated s \<union> pages_from p (unat page_cnt)" "pages_from p (unat page_cnt) \<inter> allocated s = {}"
    "kmem s' = (if fl AND PAL_ZERO \<noteq> 0 then write_bytes (kmem s) p (replicate (4096 * unat page_cnt) 0) else kmem s)"
    "taken (get_pool (fl AND PAL_USER \<noteq> 0) s') = taken (get_pool (fl AND PAL_USER \<noteq> 0) s) \<union> pages_from p (unat page_cnt)"
proof -
  define u where "u \<longleftrightarrow> fl AND PAL_USER \<noteq> 0"
  let ?pool = "get_pool u s"
  define p where "p = page_at (base ?pool) k"
  have pool: "pool_ok (kmem s) ?pool"
    using ok by (rule pool_kmem)
  have k: "k + unat page_cnt \<le> size_of ?pool" and unused: "\<forall>j < unat page_cnt. \<not> bit_list (used_map ?pool) ! (k + j)"
    using fit by (auto simp: first_fit_Some size_of_def u_def)
  obtain b where b: "bitmap_scan_and_flip (used_map ?pool) 0 page_cnt False = Some (of_nat k, b)" "wf_bitmap b"
      "bit_cnt b = bit_cnt (used_map ?pool)" "bit_list b = set_range (bit_list (used_map ?pool)) k (unat page_cnt) True"
    using bitmap_scan_and_flip_Some [of "used_map ?pool" 0 page_cnt False k] pool fit by (auto simp: pool_ok_def u_def)
  have pos: "0 < page_cnt"
    using cnt by (simp add: word_neq_0_conv)
  have "k < size_of ?pool"
    using k pos by (auto simp: word_less_nat_alt)
  then have "unat (of_nat k :: size_t) < 2 ^ 32 - 1"
    using pool by (simp add: pool_ok_def unat_of_nat)
  then have idx: "of_nat k \<noteq> BITMAP_ERROR"
    by (auto simp: BITMAP_ERROR_def unsigned_minus_1_eq_mask mask_eq_exp_minus_1)
  note run = pool_run [OF pool k pos, folded p_def]
  note used = set_used_ok [OF ok k b(2-4), folded p_def]
  have ms: "memset (kmem (set_used u b s)) p 0 (PGSIZE * page_cnt)
      = Some (p, write_bytes (kmem s) p (replicate (4096 * unat page_cnt) 0))"
    using memset_ok [OF run(1,4), of 0] by (simp add: kmem_set_used run(3))
  have p: "base ?pool + PGSIZE * of_nat k = p"
    by (simp add: p_def page_at_def)
  define s' where "s' = (if fl AND PAL_ZERO \<noteq> 0 then (set_used u b s)\<lparr>kmem := write_bytes (kmem s) p (replicate (4096 * unat page_cnt) 0)\<rparr>
      else set_used u b s)"
  have "palloc_get_multiple fl page_cnt s = Some (p, s')"
    using cnt b(1) idx run(4) by (simp add: palloc_get_multiple_def s'_def ms p flip: u_def)
  moreover have "palloc_ok s'" "allocated s' = allocated s \<union> pages_from p (unat page_cnt)"
    using palloc_ok_write [OF used(1), of p "replicate (4096 * unat page_cnt) 0"] run used
    by (simp_all add: s'_def kmem_set_used)
  moreover have "get_pool u s' = ?pool\<lparr>used_map := b\<rparr>"
    by (simp add: s'_def get_pool_def set_used_def)
  then have "taken (get_pool u s') = taken ?pool \<union> pages_from p (unat page_cnt)"
    using taken_set_range(1) [OF pool k b(2-4), folded p_def] by simp
  ultimately show thesis
    using that [of p s'] k group_free [OF ok k unused] by (simp add: p_def s'_def kmem_set_used u_def)
qed

text \<open>Freeing a group of pages in use.\<close>

lemma unat_pg_no: "unat (pg_no p) = unat p div 4096"
  using unat_32_less [of p] by (simp add: pg_no_def PGBITS_def unsigned_drop_bit_eq) (simp add: drop_bit_eq_div take_bit_nat_eq_self)

lemma pg_no_page_at:
  assumes "pool_ok m pool" "i \<le> size_of pool"
  shows "unat (pg_no (page_at (base pool) i)) = unat (pg_no (base pool)) + i"
proof -
  have "unat (page_at (base pool) i) = unat (base pool) + 4096 * i"
    using assms by (intro unat_page_at) (simp_all add: pool_ok_def)
  then show ?thesis
    by (simp add: unat_pg_no)
qed

lemma pool_end_page:
  assumes "pool_ok m pool"
  shows "unat (pg_no (base pool) + bitmap_size (used_map pool)) = unat (pg_no (base pool)) + size_of pool"
proof -
  have "unat (base pool) div 4096 + size_of pool < 2 ^ 32"
    using assms div_le_dividend [of "unat (base pool)" 4096] unfolding pool_ok_def by linarith
  then show ?thesis
    using unat_add_small [of "pg_no (base pool)" "bitmap_size (used_map pool)"]
    by (simp add: bitmap_size_def size_of_def unat_pg_no)
qed

lemma page_index:
  assumes "pool_ok m pool" "i < size_of pool"
  shows "page_from_pool pool (page_at (base pool) i)" "unat (pg_no (page_at (base pool) i) - pg_no (base pool)) = i"
proof -
  note end_page = pool_end_page [OF assms(1)]
  then show "page_from_pool pool (page_at (base pool) i)"
    using assms(2) pg_no_page_at [OF assms(1), of i]
    by (simp add: page_from_pool_def Let_def word_le_nat_alt word_less_nat_alt)
  show "unat (pg_no (page_at (base pool) i) - pg_no (base pool)) = i"
    using assms(2) pg_no_page_at [OF assms(1), of i] by (simp add: unat_sub_if')
qed

lemma page_from_pool_in:
  assumes "pool_ok m pool" "pg_ofs p = 0" "page_from_pool pool p"
  obtains i where "i < size_of pool" "p = page_at (base pool) i"
proof -
  define i where "i = unat (pg_no p) - unat (pg_no (base pool))"
  note end_page = pool_end_page [OF assms(1)]
  then have i: "i < size_of pool" "unat (pg_no p) = unat (pg_no (base pool)) + i"
    using assms(3) by (auto simp: page_from_pool_def Let_def word_le_nat_alt word_less_nat_alt i_def)
  have "unat p = 4096 * unat (pg_no p)" "unat (base pool) = 4096 * unat (pg_no (base pool))"
    using assms(1,2) by (auto simp: unat_pg_no aligned_iff pool_ok_def)
  then have "unat p = unat (page_at (base pool) i)"
    using i assms(1) unat_page_at [of "base pool" "size_of pool" i] by (simp add: pool_ok_def)
  then show thesis
    using that [OF i(1)] by (simp add: word_unat_eq_iff)
qed

lemma taken_run:
  assumes "pool_ok m pool" "pages_from p n \<subseteq> taken pool" "0 < n"
  obtains k where "p = page_at (base pool) k" "k + n \<le> size_of pool" "\<forall>j < n. bit_list (used_map pool) ! (k + j)"
proof -
  obtain k where k: "p = page_at (base pool) k" "k < size_of pool"
    using group_nonempty [OF assms(3)] assms(2) by (fastforce simp: taken_def)
  have idx: "k + j < size_of pool \<and> bit_list (used_map pool) ! (k + j)" if "j < n" "k + j \<le> size_of pool" for j
  proof -
    have "page_at (base pool) (k + j) \<in> taken pool"
      using assms(2) that(1) by (auto simp: pages_from_def k(1) page_at_add)
    then show ?thesis
      using assms(1) that(2) by (auto simp: taken_def pool_ok_def page_at_inj [of "base pool" "size_of pool" "k + j"])
  qed
  have "k + n \<le> size_of pool"
    using idx [of "size_of pool - k"] k(2) by (cases "k + n \<le> size_of pool") auto
  then show thesis
    using that [OF k(1)] idx by simp
qed

lemma palloc_free_taken:
  assumes ok: "palloc_ok s" and cnt: "page_cnt \<noteq> 0" and run: "pages_from p (unat page_cnt) \<subseteq> taken (get_pool u s)"
  obtains s' where "palloc_free_multiple p page_cnt s = Some s'" "palloc_ok s'"
    "allocated s' = allocated s - pages_from p (unat page_cnt)"
    "kmem s' = write_bytes (kmem s) p (replicate (4096 * unat page_cnt) 0xcc)"
    "taken (get_pool u s') = taken (get_pool u s) - pages_from p (unat page_cnt)"
proof -
  let ?pool = "get_pool u s" and ?n = "unat page_cnt"
  have pool: "pool_ok (kmem s) ?pool" and pos: "0 < page_cnt" and pos': "0 < ?n"
    using pool_kmem [OF ok] cnt by (auto simp: word_neq_0_conv unat_gt_0)
  obtain k where k: "p = page_at (base ?pool) k" "k + ?n \<le> size_of ?pool" "\<forall>j < ?n. bit_list (used_map ?pool) ! (k + j)"
    using taken_run [OF pool run pos'] by blast
  have size: "k < size_of ?pool"
    using k(2) pos' by simp
  note run = pool_run [OF pool k(2) pos, folded k(1)]
  note idx = page_index [OF pool size, folded k(1)]
  have "\<not> page_from_pool (kernel_pool s) p" if u
  proof
    assume "page_from_pool (kernel_pool s) p"
    then have "p \<in> pages_from (base (kernel_pool s)) (size_of (kernel_pool s))"
      using ok run(5) page_from_pool_in [of "kmem s" "kernel_pool s" p] by (auto simp: palloc_ok_def pages_from_def)
    moreover have "p \<in> pages_from (base (user_pool s)) (size_of (user_pool s))"
      using that k(1) size by (auto simp: pages_from_def get_pool_def)
    ultimately show False
      using ok by (auto simp: palloc_ok_def)
  qed
  then have user: "(if page_from_pool (kernel_pool s) p then Some False else if page_from_pool (user_pool s) p then Some True else None) = Some u"
    using idx(1) by (cases u) (auto simp: get_pool_def)
  have all: "bitmap_all (used_map ?pool) (pg_no p - pg_no (base ?pool)) page_cnt = Some True"
    using pool k idx(2) by (simp add: bitmap_all_def bitmap_contains_eq pool_ok_def size_of_def)
  obtain b where b: "bitmap_set_multiple (used_map ?pool) (pg_no p - pg_no (base ?pool)) page_cnt False = Some b" "wf_bitmap b"
      "bit_cnt b = bit_cnt (used_map ?pool)" "bit_list b = set_range (bit_list (used_map ?pool)) k ?n False"
    using bitmap_set_multiple_eq [of "used_map ?pool" "pg_no p - pg_no (base ?pool)" page_cnt False] pool k idx(2)
    by (auto simp: pool_ok_def size_of_def)
  have ms: "memset (kmem s) p 0xcc (PGSIZE * page_cnt) = Some (p, write_bytes (kmem s) p (replicate (4096 * ?n) 0xcc))"
    using memset_ok [OF run(1,4), of "0xcc"] by (simp add: run(3))
  have "palloc_free_multiple p page_cnt s = Some ((set_used u b s)\<lparr>kmem := write_bytes (kmem s) p (replicate (4096 * ?n) 0xcc)\<rparr>)"
    using run(4,5) cnt all b(1) by (simp add: palloc_free_multiple_def user ms)
  moreover have "taken (get_pool u ((set_used u b s)\<lparr>kmem := m\<rparr>)) = taken ?pool - pages_from p ?n" for m
    using taken_set_range(1) [OF pool k(2) b(2-4), folded k(1)] by (cases u) (simp_all add: get_pool_def set_used_def)
  ultimately show thesis
    using that palloc_ok_write [OF set_used_ok(1) [OF ok k(2) b(2-4)], of p "replicate (4096 * ?n) 0xcc"] run
      set_used_ok(2) [OF ok k(2) b(2-4), folded k(1)] by (simp add: kmem_set_used)
qed

lemma palloc_free_unused:
  assumes ok: "palloc_ok s" and "page_cnt \<noteq> 0" "p \<noteq> NULL" "p \<notin> allocated s"
  shows "palloc_free_multiple p page_cnt s = None"
proof (rule ccontr)
  assume "palloc_free_multiple p page_cnt s \<noteq> None"
  then obtain u where u: "pg_ofs p = 0" "page_from_pool (get_pool u s) p"
      "bitmap_all (used_map (get_pool u s)) (pg_no p - pg_no (base (get_pool u s))) page_cnt = Some True"
    using assms(2,3) that [of False] that [of True]
    by (auto simp: palloc_free_multiple_def get_pool_def ASSERT_def bind_eq_Some_conv Let_def split: if_splits)
  let ?pool = "get_pool u s"
  have pool: "pool_ok (kmem s) ?pool"
    using ok by (rule pool_kmem)
  obtain k where k: "k < size_of ?pool" "p = page_at (base ?pool) k"
    using page_from_pool_in [OF pool u(1,2)] by blast
  then have "\<not> bit_list (used_map ?pool) ! k"
    using assms(4) by (cases u) (auto simp: allocated_def taken_def get_pool_def)
  moreover obtain n where "unat page_cnt = Suc n"
    using assms(2) by (metis not0_implies_Suc unat_eq_zero)
  ultimately show False
    using u(3) page_index(2) [OF pool k(1), folded k(2)] k(1) pool
      bitmap_test_in_range [of "used_map ?pool" "pg_no p - pg_no (base ?pool)" 0]
    by (auto simp: bitmap_all_def bitmap_contains_def ASSERT_def pool_ok_def size_of_def split: if_splits)
qed

subsection \<open>Initialisation\<close>

lemma those_Some: "\<forall>x \<in> set xs. x \<noteq> None \<Longrightarrow> those xs = Some (map the xs)"
  by (induction xs) auto

lemma words_at_mapped: "mapped m p (unat n) \<Longrightarrow> \<exists>ws. words_at m p n = Some ws \<and> length ws = unat n div 4"
  by (simp add: words_at_def mapped_nth those_Some length_bytes_words)

lemma init_pool_ok:
  assumes cnt: "0 < page_cnt" "unat page_cnt \<le> 262144"
    and mem: "pg_ofs base0 = 0" "base0 \<noteq> NULL" "in_space base0 (4096 * unat page_cnt)" "mapped m base0 (4096 * unat page_cnt)"
  obtains pool bm where "init_pool m base0 page_cnt = Some pool" "pool_ok m pool" "taken pool = {}"
    "base pool = page_at base0 bm" "bm + size_of pool = unat page_cnt"
proof -
  define bm where "bm = (8 + 4 * ((unat page_cnt + 31) div 32) + 4095) div 4096"
  let ?bm = "DIV_ROUND_UP (bitmap_buf_size page_cnt) PGSIZE"
  have "0 < unat page_cnt"
    using cnt(1) by (simp add: unat_gt_0)
  then have le: "bm \<le> unat page_cnt" and buf: "8 + 4 * ((unat page_cnt + 31) div 32) \<le> 4096 * bm"
    by (auto simp: bm_def)
  have size: "unat (bitmap_buf_size c) = 8 + 4 * ((unat c + 31) div 32)" if "unat c \<le> unat page_cnt" for c
    using unat_byte_cnt [of c] cnt(2) that unat_add_small [of 8 "byte_cnt c"] by (simp add: bitmap_buf_size_def)
  have bm: "unat ?bm = bm"
    using size [of page_cnt] cnt(2) unat_add_small [of "bitmap_buf_size page_cnt" 4095]
    by (simp add: DIV_ROUND_UP_def PGSIZE_def unat_div bm_def add.assoc flip: add_diff_eq)
  have bytes: "unat (?bm * PGSIZE) = 4096 * bm"
    using bm le cnt(2) by (simp add: unat_word_ariths PGSIZE_def)
  have left: "unat (page_cnt - ?bm) = unat page_cnt - bm"
    using bm le by (simp add: unat_sub_if')
  obtain ws where ws: "words_at m base0 (?bm * PGSIZE) = Some ws" "length ws = 1024 * bm"
    using words_at_mapped [of m base0 "?bm * PGSIZE"] mapped_le [OF mem(4), of "4096 * bm"] le bytes by auto
  have "wf_bitmap \<lparr>bit_cnt = page_cnt - ?bm, bits = drop 2 ws\<rparr>"
    using buf ws(2) left by (simp add: wf_bitmap_def)
  moreover have "8 + 4 * ((unat page_cnt - bm + 31) div 32) \<le> 4096 * bm"
    using buf div_le_mono [of "unat page_cnt - bm + 31" "unat page_cnt + 31" 32] by linarith
  ultimately obtain b where b: "bitmap_create_in_buf (page_cnt - ?bm) ws (?bm * PGSIZE) = Some b" "wf_bitmap b"
      "bit_cnt b = page_cnt - ?bm" "bit_list b = replicate (unat page_cnt - bm) False"
    using bitmap_set_all_eq [of "\<lparr>bit_cnt = page_cnt - ?bm, bits = drop 2 ws\<rparr>" False] size [of "page_cnt - ?bm"] bytes left
    by (auto simp: bitmap_create_in_buf_def word_le_nat_alt)
  let ?pool = "\<lparr>used_map = b, base = page_at base0 bm\<rparr>"
  have p: "base0 + ?bm * PGSIZE = page_at base0 bm"
    unfolding page_at_def bm [symmetric] by (simp add: mult.commute)
  have sz: "size_of ?pool = unat page_cnt - bm"
    by (simp add: size_of_def b(3) left)
  have init: "init_pool m base0 page_cnt = Some ?pool"
    using le bm ws b(1) by (simp add: init_pool_def word_less_nat_alt p)
  have "unat (page_at base0 bm) = unat base0 + 4096 * bm"
    using mem(3) le by (intro unat_page_at) (auto simp: in_space_def)
  moreover have "mapped m (base0 + of_nat (4096 * bm)) (4096 * (unat page_cnt - bm))"
    using mem(4) le by (intro mapped_drop) (simp add: right_diff_distrib')
  ultimately have "pool_ok m ?pool"
    using mem le b(2) sz by (simp add: pool_ok_def aligned_iff in_space_def page_at_def PGSIZE_def) (auto simp: algebra_simps)
  moreover have "taken ?pool = {}"
    using sz by (auto simp: taken_def b(4))
  ultimately show thesis
    using that [of ?pool bm] init sz le by simp
qed

lemma sint_small: "n < 2 ^ 31 \<Longrightarrow> sint (of_nat n :: uint32_t) = int n"
  by (simp add: signed_of_nat signed_take_bit_int_eq_self)

lemma free_pages:
  assumes "n < 261888"
  shows "ptov (of_nat (n + 256) * PGSIZE) = Some (0xc0100000 + of_nat (4096 * n))"
    "word_of_int (sint (of_nat (4096 * n) :: ptr) sdiv uint PGSIZE) = (of_nat n :: size_t)"
proof -
  have "of_nat (n + 256) * PGSIZE = (of_nat (4096 * n + 1048576) :: uint32_t)"
    by (simp add: PGSIZE_def)
  moreover have "(of_nat (4096 * n + 1048576) :: uint32_t) < PHYS_BASE"
    using assms by (simp add: word_less_nat_alt PHYS_BASE_def unat_of_nat del: of_nat_add)
  ultimately show "ptov (of_nat (n + 256) * PGSIZE) = Some (0xc0100000 + of_nat (4096 * n))"
    by (simp add: ptov_def PHYS_BASE_def del: of_nat_mult)
  have "sint (of_nat (4096 * n) :: ptr) = int n * 4096"
    using assms by (subst sint_small) auto
  then show "word_of_int (sint (of_nat (4096 * n) :: ptr) sdiv uint PGSIZE) = (of_nat n :: size_t)"
    by (simp add: PGSIZE_def signed_divide_int_def sgn_if)
qed

lemma palloc_init_ok:
  assumes n: "unat init_ram_pages = n + 256" "2 \<le> n" "n < 261888" and lim: "user_page_limit \<noteq> 0"
    and mem: "mapped m 0xc0100000 (4096 * n)"
  obtains s where "palloc_init init_ram_pages m user_page_limit = Some s" "palloc_ok s" "allocated s = {}" "kmem s = m"
proof -
  define us :: size_t where "us = (if of_nat n div 2 > user_page_limit then user_page_limit else of_nat n div 2)"
  define ks where "ks = of_nat n - us"
  let ?k = "0xc0100000 :: ptr"
  have half: "unat (of_nat n div 2 :: size_t) = n div 2"
    using n(3) by (simp add: unat_div unat_of_nat)
  then have u: "0 < us" "unat us \<le> n div 2"
  proof -
    have "0 < unat user_page_limit"
      using lim by (simp add: unat_gt_0)
    then have "0 < unat us"
      using half n(2) by (simp add: us_def)
    then show "0 < us" by (simp add: word_less_nat_alt)
    show "unat us \<le> n div 2"
      using half by (simp add: us_def word_less_nat_alt)
  qed
  then have "us \<le> of_nat n"
    using n(3) by (simp add: word_le_nat_alt unat_of_nat)
  then have k: "unat ks = n - unat us"
    using n(3) by (simp add: ks_def unat_sub unat_of_nat)
  have ram: "init_ram_pages = of_nat (n + 256)"
    unfolding n(1) [symmetric] by simp
  have space: "in_space ?k (4096 * n)"
    using n(3) by (simp add: in_space_def)
  obtain kp kb where kp: "init_pool m ?k ks = Some kp" "pool_ok m kp" "taken kp = {}" "base kp = page_at ?k kb" "kb + size_of kp = unat ks"
  proof (rule init_pool_ok [of ks ?k m])
    show "0 < ks" "unat ks \<le> 262144"
      using k u n by (simp_all add: word_less_nat_alt)
    show "in_space ?k (4096 * unat ks)" "mapped m ?k (4096 * unat ks)"
      using k mapped_le [OF mem] in_space_le [OF space] by simp_all
  qed (simp_all add: pg_ofs_def PGMASK_def)
  let ?u = "page_at ?k (unat ks)"
  have at: "unat ?u = unat ?k + 4096 * unat ks"
    using n(3) k by (intro unat_page_at [of _ n]) auto
  obtain up ub where up: "init_pool m ?u us = Some up" "pool_ok m up" "taken up = {}" "base up = page_at ?u ub" "ub + size_of up = unat us"
  proof (rule init_pool_ok [of us ?u m])
    show "0 < us" "unat us \<le> 262144"
      using u n by simp_all
    show "pg_ofs ?u = 0" "?u \<noteq> NULL" "in_space ?u (4096 * unat us)"
      using at n(3) k u(2) by (auto simp: aligned_iff in_space_def)
    have "mapped m (?k + of_nat (4096 * unat ks)) (4096 * unat us)"
      using mem k u(2) by (intro mapped_drop) (simp add: right_diff_distrib')
    then show "mapped m ?u (4096 * unat us)"
      by (simp add: page_at_def PGSIZE_def)
  qed
  have "pages_from (base kp) (size_of kp) \<inter> pages_from (base up) (size_of up) = {}"
  proof -
    have "i = j" if "page_at ?k i = page_at ?k j" "i < n" "j < n" for i j
      using that n(3) page_at_inj [of ?k n i j] by simp
    then show ?thesis
      using kp(5) up(5) k u(2) by (fastforce simp: pages_from_def kp(4) up(4) page_at_add)
  qed
  moreover have "palloc_init init_ram_pages m user_page_limit = Some \<lparr>kernel_pool = kp, user_pool = up, kmem = m\<rparr>"
  proof -
    have "ptov 1048576 = Some ?k" "?k + ks * PGSIZE = ?u"
      by (simp_all add: ptov_def PHYS_BASE_def page_at_def mult.commute)
    then show ?thesis
      using kp(1) up(1) unfolding palloc_init_def ram
      by (simp add: free_pages [OF n(3)] Let_def del: of_nat_mult of_nat_add flip: us_def ks_def split del: if_split cong: if_cong)
  qed
  ultimately show thesis
    using that kp up by (simp add: palloc_ok_def allocated_def)
qed

subsection \<open>What clients rely on\<close>

text \<open>
  A client of the page allocator keeps a number of groups of pages. The locale states what the
  allocator promises it; the lemmas show how the client's groups stay disjoint and in use.
\<close>

locale page_allocator =
  fixes get :: "size_t \<Rightarrow> 's \<Rightarrow> (ptr \<times> 's) option" and release :: "ptr \<Rightarrow> size_t \<Rightarrow> 's \<Rightarrow> 's option"
    and ok :: "'s \<Rightarrow> bool" and used :: "'s \<Rightarrow> ptr set" and mem :: "'s \<Rightarrow> memory"
  assumes get_total: "ok s \<Longrightarrow> \<exists>p s'. get n s = Some (p, s') \<and> ok s' \<and> mem s' = mem s"
    and get_null: "ok s \<Longrightarrow> get n s = Some (NULL, s') \<Longrightarrow> s' = s"
    and get_fresh: "ok s \<Longrightarrow> get n s = Some (p, s') \<Longrightarrow> p \<noteq> NULL \<Longrightarrow>
      n \<noteq> 0 \<and> pages_from p (unat n) \<inter> used s = {} \<and> used s' = used s \<union> pages_from p (unat n)"
    and release_used: "ok s \<Longrightarrow> n \<noteq> 0 \<Longrightarrow> pages_from p (unat n) \<subseteq> used s \<Longrightarrow>
      \<exists>s'. release p n s = Some s' \<and> ok s' \<and> used s' = used s - pages_from p (unat n)
        \<and> (\<forall>a. within p (4096 * unat n) a \<or> mem s' a = mem s a)"
    and used_pages: "ok s \<Longrightarrow> n \<noteq> 0 \<Longrightarrow> pages_from p (unat n) \<subseteq> used s \<Longrightarrow>
      p \<noteq> NULL \<and> pg_ofs p = 0 \<and> in_space p (4096 * unat n) \<and> mapped (mem s) p (4096 * unat n)"
begin

definition owns :: "'s \<Rightarrow> (ptr \<Rightarrow> size_t option) \<Rightarrow> bool" where
  "owns s g \<longleftrightarrow> ok s \<and> (\<forall>p n. g p = Some n \<longrightarrow> n \<noteq> 0 \<and> pages_from p (unat n) \<subseteq> used s)
    \<and> (\<forall>p n q k. g p = Some n \<longrightarrow> g q = Some k \<longrightarrow> p \<noteq> q \<longrightarrow> pages_from p (unat n) \<inter> pages_from q (unat k) = {})"

lemma owns_get:
  assumes "owns s g" "get n s = Some (p, s')" "p \<noteq> NULL"
  shows "owns s' (g(p \<mapsto> n))" "g p = None"
proof -
  have fresh: "n \<noteq> 0" "pages_from p (unat n) \<inter> used s = {}" "used s' = used s \<union> pages_from p (unat n)"
    using assms get_fresh by (auto simp: owns_def)
  have self: "p \<in> pages_from p (unat n)"
    using fresh(1) by (rule group_self)
  show "g p = None"
  proof (rule ccontr)
    assume "g p \<noteq> None"
    then obtain k where k: "g p = Some k"
      by blast
    then have "k \<noteq> 0" "pages_from p (unat k) \<subseteq> used s"
      using assms(1) by (simp_all add: owns_def)
    moreover have "p \<in> pages_from p (unat k)"
      using \<open>k \<noteq> 0\<close> by (rule group_self)
    ultimately show False
      using fresh(2) self by blast
  qed
  have "ok s'"
    using assms get_total [of s n] by (auto simp: owns_def)
  moreover have "pages_from q (unat k) \<inter> pages_from p (unat n) = {}" if "g q = Some k" for q k
    using that assms(1) fresh(2) by (auto simp: owns_def)
  ultimately show "owns s' (g(p \<mapsto> n))"
    using assms(1) fresh(1,3) unfolding owns_def fun_upd_apply by (simp add: Int_commute le_supI1)
qed

lemma owns_release:
  assumes "owns s g" "g p = Some n"
  shows "\<exists>s'. release p n s = Some s' \<and> owns s' (g(p := None)) \<and> (\<forall>a. within p (4096 * unat n) a \<or> mem s' a = mem s a)"
proof -
  obtain s' where s': "release p n s = Some s'" "ok s'" "used s' = used s - pages_from p (unat n)"
      "\<forall>a. within p (4096 * unat n) a \<or> mem s' a = mem s a"
    using assms release_used [of s n p] by (auto simp: owns_def)
  moreover have "pages_from q (unat k) \<inter> pages_from p (unat n) = {}" if "g q = Some k" "q \<noteq> p" for q k
    using that assms unfolding owns_def by blast
  moreover have "pages_from q (unat k) \<subseteq> used s" if "g q = Some k" for q k
    using that assms(1) unfolding owns_def by blast
  ultimately have "pages_from q (unat k) \<subseteq> used s'" if "g q = Some k" "q \<noteq> p" for q k
    using that by blast
  then have "owns s' (g(p := None))"
    using assms(1) s'(2) unfolding owns_def fun_upd_apply by (simp split: if_splits)
  then show ?thesis
    using s' by blast
qed

lemma owns_page:
  assumes "owns s g" "g p = Some n"
  shows "n \<noteq> 0" "p \<noteq> NULL" "pg_ofs p = 0" "in_space p (4096 * unat n)" "mapped (mem s) p (4096 * unat n)"
  using assms used_pages [of s n p] by (auto simp: owns_def)

text \<open>Two groups do not share a byte.\<close>

lemma owns_apart:
  assumes "owns s g" "g p = Some n" "g q = Some k" "p \<noteq> q" "within p (4096 * unat n) a"
  shows "\<not> within q (4096 * unat k) a"
proof
  assume "within q (4096 * unat k) a"
  then have "pg_round_down a \<in> pages_from p (unat n) \<inter> pages_from q (unat k)"
    using assms owns_page [of s g] by (auto intro: within_pages)
  then show False
    using assms(1-4) unfolding owns_def by blast
qed

end

lemma kernel_run:
  assumes "palloc_ok s" "(n :: size_t) \<noteq> 0" "pages_from p (unat n) \<subseteq> taken (kernel_pool s)"
  shows "p \<noteq> NULL" "pg_ofs p = 0" "in_space p (4096 * unat n)" "mapped (kmem s) p (4096 * unat n)"
proof -
  have pool: "pool_ok (kmem s) (kernel_pool s)" and n: "0 < n"
    using assms(1,2) by (simp_all add: palloc_ok_def word_neq_0_conv)
  obtain k where "p = page_at (base (kernel_pool s)) k" "k + unat n \<le> size_of (kernel_pool s)"
    using taken_run [OF pool assms(3)] assms(2) by (auto simp: unat_gt_0)
  then show "p \<noteq> NULL" "pg_ofs p = 0" "in_space p (4096 * unat n)" "mapped (kmem s) p (4096 * unat n)"
    using pool_run [OF pool, of k n] n by simp_all
qed

lemma kernel_get:
  assumes "palloc_ok s"
  obtains p s' where "palloc_get_multiple 0 n s = Some (p, s')" "palloc_ok s'" "kmem s' = kmem s" "p = NULL \<Longrightarrow> s' = s"
    "p \<noteq> NULL \<Longrightarrow> n \<noteq> 0 \<and> pages_from p (unat n) \<inter> taken (kernel_pool s) = {}
      \<and> taken (kernel_pool s') = taken (kernel_pool s) \<union> pages_from p (unat n)"
proof (cases "n = 0")
  case True
  then show thesis
    using that [of NULL s] assms by (simp add: palloc_get_multiple_def)
next
  case False
  have pool: "get_pool (0 AND PAL_USER \<noteq> 0) t = kernel_pool t" for t
    by (simp add: get_pool_def)
  show thesis
  proof (cases "first_fit (bit_list (used_map (kernel_pool s))) 0 (unat n) False")
    case None
    then show thesis
      using that [of NULL s] assms palloc_get_None [OF assms False, of 0, unfolded pool] by simp
  next
    case (Some k)
    then obtain p s' where r: "palloc_get_multiple 0 n s = Some (p, s')" "p = page_at (base (kernel_pool s)) k" "k + unat n \<le> size_of (kernel_pool s)"
      "palloc_ok s'" "pages_from p (unat n) \<inter> allocated s = {}" "kmem s' = kmem s"
      "taken (kernel_pool s') = taken (kernel_pool s) \<union> pages_from p (unat n)"
      by (rule palloc_get_Some [OF assms False, of 0 k, unfolded pool]) simp
    moreover have "p \<noteq> NULL"
      using pool_run(4) [of "kmem s" "kernel_pool s" k n] assms r(2,3) False by (simp add: palloc_ok_def word_neq_0_conv)
    ultimately show thesis
      using that [of p s'] False by (auto simp: allocated_def)
  qed
qed

interpretation kernel_pages: page_allocator "palloc_get_multiple 0" palloc_free_multiple palloc_ok "\<lambda>s. taken (kernel_pool s)" kmem
proof (unfold_locales, goal_cases)
  case (1 s n)
  then show ?case
    using kernel_get [OF 1, of n] by metis
next
  case (2 s n s')
  then show ?case
    using kernel_get [OF 2(1), of n] by (metis option.inject prod.inject)
next
  case (3 s n p s')
  then show ?case
    using kernel_get [OF 3(1), of n] by (metis option.inject prod.inject)
next
  case (4 s n p)
  have "pages_from p (unat n) \<subseteq> taken (get_pool False s)"
    using 4(3) by (simp add: get_pool_def)
  from palloc_free_taken [OF 4(1,2) this] obtain s' where s': "palloc_free_multiple p n s = Some s'" "palloc_ok s'"
    "kmem s' = write_bytes (kmem s) p (replicate (4096 * unat n) 0xcc)" "taken (kernel_pool s') = taken (kernel_pool s) - pages_from p (unat n)"
    unfolding get_pool_def by (metis (full_types))
  moreover have "in_space p (4096 * unat n)"
    using 4 by (rule kernel_run)
  ultimately show ?case
    using write_outside [of p "replicate (4096 * unat n) 0xcc"] by auto
next
  case (5 s n p)
  then show ?case
    using kernel_run [OF 5] by simp
qed

subsection \<open>Properties\<close>

definition has_run :: "pool \<Rightarrow> nat \<Rightarrow> bool" where
  "has_run pool n \<longleftrightarrow> (\<exists>k. k + n \<le> size_of pool \<and> pages_from (page_at (base pool) k) n \<inter> taken pool = {})"

lemma has_run_fit:
  assumes "first_fit (bit_list (used_map pool)) 0 n False = None"
  shows "\<not> has_run pool n"
proof
  assume "has_run pool n"
  then obtain k where k: "k + n \<le> size_of pool" "pages_from (page_at (base pool) k) n \<inter> taken pool = {}"
    by (auto simp: has_run_def)
  then obtain j where "j < n" "bit_list (used_map pool) ! (k + j)"
    using assms by (auto simp: first_fit_None size_of_def)
  then have "page_at (base pool) (k + j) \<in> pages_from (page_at (base pool) k) n \<inter> taken pool"
    using k(1) unfolding group_offset taken_def by auto
  then show False
    using k(2) by simp
qed

definition sample_pools :: palloc where
  "sample_pools = \<lparr>kernel_pool = \<lparr>used_map = \<lparr>bit_cnt = 4, bits = [1]\<rparr>, base = 0xc0101000\<rparr>,
     user_pool = \<lparr>used_map = \<lparr>bit_cnt = 3, bits = [2]\<rparr>, base = 0xc0200000\<rparr>, kmem = (\<lambda>_. Some 7)\<rparr>"

lemma sample_pools_ok: "palloc_ok sample_pools"
  by (auto simp: palloc_ok_def pool_ok_def sample_pools_def wf_bitmap_def size_of_def pages_from_def page_at_def mapped_nth
      pg_ofs_def PGMASK_def PGSIZE_def lessThan_nat_numeral)

lemma palloc_get_cases:
  assumes "palloc_ok s" "page_cnt \<noteq> 0" "pool = get_pool (fl AND PAL_USER \<noteq> 0) s" "n = unat page_cnt"
  shows "case palloc_get_multiple fl page_cnt s of
      None \<Rightarrow> fl AND PAL_ASSERT \<noteq> 0 \<and> \<not> has_run pool n
    | Some (p, s') \<Rightarrow> palloc_ok s' \<and>
        (if p = NULL then s' = s \<and> \<not> has_run pool n
         else pg_ofs p = 0 \<and> pages_from p n \<subseteq> pages_from (base pool) (size_of pool) \<and> pages_from p n \<inter> allocated s = {}
           \<and> allocated s' = allocated s \<union> pages_from p n
           \<and> (fl AND PAL_ZERO \<noteq> 0 \<longrightarrow> bytes_at (kmem s') p (replicate (4096 * n) 0))
           \<and> (\<forall>a. fl AND PAL_ZERO \<noteq> 0 \<and> within p (4096 * n) a \<or> kmem s' a = kmem s a))"
proof (cases "first_fit (bit_list (used_map pool)) 0 n False")
  case None
  then show ?thesis
    using palloc_get_None [OF assms(1,2)] has_run_fit [OF None] assms(1) by (simp add: assms(3,4))
next
  case (Some k)
  then obtain p s' where r: "palloc_get_multiple fl page_cnt s = Some (p, s')" "p = page_at (base pool) k" "k + n \<le> size_of pool"
    "palloc_ok s'" "allocated s' = allocated s \<union> pages_from p n" "pages_from p n \<inter> allocated s = {}"
    "kmem s' = (if fl AND PAL_ZERO \<noteq> 0 then write_bytes (kmem s) p (replicate (4096 * n) 0) else kmem s)"
    unfolding assms(3,4) by (rule palloc_get_Some [OF assms(1,2)])
  have "0 < page_cnt"
    using assms(2) by (simp add: word_neq_0_conv)
  note run = pool_run [OF pool_kmem [OF assms(1)] r(3) [unfolded assms(3,4)] this, folded assms(3,4), folded r(2)]
  then show ?thesis
    using r bytes_at_write [of p "replicate (4096 * n) 0"] write_outside [of p "replicate (4096 * n) 0"] subgroup [OF r(3), of "base pool"]
    by auto
qed

lemma sample_get: "fl AND PAL_USER = 0 \<Longrightarrow> \<exists>s'. palloc_get_multiple fl 2 sample_pools = Some (0xc0102000, s')"
proof -
  assume fl: "fl AND PAL_USER = 0"
  have "first_fit (bit_list (used_map (get_pool (fl AND PAL_USER \<noteq> 0) sample_pools))) 0 (unat (2 :: size_t)) False = Some 1"
    unfolding fl by code_simp
  then obtain p s' where "palloc_get_multiple fl 2 sample_pools = Some (p, s')" "p = page_at (base (get_pool (fl AND PAL_USER \<noteq> 0) sample_pools)) 1"
    by (rule palloc_get_Some [OF sample_pools_ok, rotated]) simp_all
  then show ?thesis
    using fl by (simp add: get_pool_def sample_pools_def page_at_def PGSIZE_def)
qed

text \<open>
  C7: the page allocator hands out fresh pages. Asked for one page or more, it returns a null
  pointer (or panics, with \<^verbatim>\<open>PAL_ASSERT\<close>) only when the pool has no run of that many
  free pages; otherwise the pages it returns are aligned, lie in the pool the flags name, were
  not allocated in either pool, are exactly what becomes allocated, are zero if that was asked
  for, and no other memory changes.
\<close>

theorem palloc_get_fresh:
  assumes "palloc_ok s" "page_cnt \<noteq> 0"
  shows "let pool = get_pool (fl AND PAL_USER \<noteq> 0) s; n = unat page_cnt in
    case palloc_get_multiple fl page_cnt s of
      None \<Rightarrow> fl AND PAL_ASSERT \<noteq> 0 \<and> \<not> has_run pool n
    | Some (p, s') \<Rightarrow> palloc_ok s' \<and>
        (if p = NULL then s' = s \<and> \<not> has_run pool n
         else pg_ofs p = 0 \<and> pages_from p n \<subseteq> pages_from (base pool) (size_of pool) \<and> pages_from p n \<inter> allocated s = {}
           \<and> allocated s' = allocated s \<union> pages_from p n
           \<and> (fl AND PAL_ZERO \<noteq> 0 \<longrightarrow> bytes_at (kmem s') p (replicate (4096 * n) 0))
           \<and> (\<forall>a. fl AND PAL_ZERO \<noteq> 0 \<and> within p (4096 * n) a \<or> kmem s' a = kmem s a))"
  unfolding Let_def by (rule palloc_get_cases [OF assms refl refl])

theorem palloc_get_fresh_witness:
  "palloc_ok sample_pools \<and> (\<exists>s'. palloc_get_multiple PAL_ZERO 2 sample_pools = Some (0xc0102000, s')
     \<and> allocated s' = allocated sample_pools \<union> pages_from 0xc0102000 2 \<and> bytes_at (kmem s') 0xc0102000 (replicate 8192 0))"
proof -
  obtain s' where s': "palloc_get_multiple PAL_ZERO 2 sample_pools = Some (0xc0102000, s')"
    using sample_get [of PAL_ZERO] by (auto simp: PAL_ZERO_def PAL_USER_def)
  then show ?thesis
    using palloc_get_fresh [OF sample_pools_ok, of 2 PAL_ZERO] sample_pools_ok by (simp add: PAL_ZERO_def Let_def)
qed

text \<open>
  C8: freeing what was allocated restores the set of allocated pages, and freeing it a second
  time, like freeing any page that is not allocated, panics.
\<close>

theorem palloc_free_restores:
  assumes "palloc_ok s" "palloc_get_multiple fl page_cnt s = Some (p, s')" "p \<noteq> NULL"
  shows "\<exists>s''. palloc_free_multiple p page_cnt s' = Some s'' \<and> palloc_ok s'' \<and> allocated s'' = allocated s
    \<and> palloc_free_multiple p page_cnt s'' = None"
proof -
  define u where "u \<longleftrightarrow> fl AND PAL_USER \<noteq> 0"
  have cnt: "page_cnt \<noteq> 0"
    using assms(2,3) by (auto simp: palloc_get_multiple_def)
  obtain k where fit: "first_fit (bit_list (used_map (get_pool u s))) 0 (unat page_cnt) False = Some k"
    using palloc_get_None [OF assms(1) cnt, of fl] assms(2,3) by (force simp: u_def split: if_splits)
  obtain q t where "palloc_get_multiple fl page_cnt s = Some (q, t)" "palloc_ok t" "allocated t = allocated s \<union> pages_from q (unat page_cnt)"
    "pages_from q (unat page_cnt) \<inter> allocated s = {}" "taken (get_pool u t) = taken (get_pool u s) \<union> pages_from q (unat page_cnt)"
    unfolding u_def by (rule palloc_get_Some [OF assms(1) cnt fit [unfolded u_def]]) blast
  then have got: "palloc_ok s'" "allocated s' = allocated s \<union> pages_from p (unat page_cnt)" "pages_from p (unat page_cnt) \<inter> allocated s = {}"
    "pages_from p (unat page_cnt) \<subseteq> taken (get_pool u s')"
    using assms(2) by auto
  obtain s'' where free: "palloc_free_multiple p page_cnt s' = Some s''" "palloc_ok s''"
      "allocated s'' = allocated s' - pages_from p (unat page_cnt)"
    by (rule palloc_free_taken [OF got(1) cnt got(4)])
  moreover have "p \<in> pages_from p (unat page_cnt)"
    using cnt by (rule group_self)
  ultimately show ?thesis
    using got palloc_free_unused [OF free(2) cnt assms(3)] by auto
qed

theorem palloc_free_restores_witness:
  "\<exists>s' s''. palloc_get_multiple 0 2 sample_pools = Some (0xc0102000, s') \<and> palloc_free_multiple 0xc0102000 2 s' = Some s''
     \<and> allocated s'' = allocated sample_pools \<and> palloc_free_multiple 0xc0102000 2 s'' = None"
proof -
  obtain s' where s': "palloc_get_multiple 0 2 sample_pools = Some (0xc0102000, s')"
    using sample_get [of 0] by auto
  then show ?thesis
    using palloc_free_restores [OF sample_pools_ok s'] by auto
qed

end
