(* ===== verification/Malloc.thy ===== *)
theory Malloc
  imports Palloc
begin

text \<open>
  The block allocator (\<^verbatim>\<open>threads/malloc.c\<close>). Pages from the kernel pool become arenas: an arena of
  a descriptor is one page divided into blocks of the descriptor's size, an arena without one is
  a big block of its own. The allocator keeps its books inside the memory that it hands out: an
  arena starts with a header, and a free block with its two links. \<open>arenas\<close> and \<open>free_list\<close> are
  what the code reads there: \<open>set_header\<close> and \<open>set_free_list\<close> write every change to the memory as
  well, and the invariant says that the memory holds what they say. An address without an entry
  in \<open>arenas\<close> is one where the magic number is not found. A free list is the sequence of the
  blocks linked on it, which the operations of \<^verbatim>\<open>lib/kernel/list.c\<close> keep (theory \<open>DList\<close>); adding a
  block that is on the list already or removing one that is not would corrupt it and is \<open>None\<close>.
  The lock of the descriptor makes each operation one step.
\<close>

subsection \<open>Operations\<close>

record desc =
  block_size :: size_t
  blocks_per_arena :: size_t
  free_list :: "ptr list"

record arena =
  desc_of :: "nat option"
  free_cnt :: size_t

record heap =
  pal :: palloc
  descs :: "desc list"
  arenas :: "ptr \<Rightarrow> arena option"
  descs_addr :: ptr

definition ARENA_MAGIC :: uint32_t where "ARENA_MAGIC = 0x9a548eed"

definition sizeof_arena :: size_t where "sizeof_arena = 12"

partial_function (option) malloc_init_loop :: "size_t \<Rightarrow> desc list \<Rightarrow> desc list option" where
  "malloc_init_loop bs ds =
     (if bs < PGSIZE div 2 then do {
        ASSERT (length ds + 1 \<le> 10);
        malloc_init_loop (bs * 2)
          (ds @ [\<lparr>block_size = bs, blocks_per_arena = (PGSIZE - sizeof_arena) div bs, free_list = []\<rparr>]) }
      else Some ds)"

text \<open>\<open>addr\<close> is where the array \<^verbatim>\<open>descs\<close> stands; a descriptor has 48 bytes, and the two ends of its
  list are the elements at 8 and at 16.\<close>

definition malloc_init :: "ptr \<Rightarrow> palloc \<Rightarrow> heap option" where
  "malloc_init addr pl = do {
     ds \<leftarrow> malloc_init_loop 16 [];
     Some \<lparr>pal = pl, descs = ds, arenas = \<lambda>_. None, descs_addr = addr\<rparr> }"

definition desc_ptr :: "heap \<Rightarrow> nat \<Rightarrow> ptr" where
  "desc_ptr h d = descs_addr h + of_nat d * 48"

definition with_mem :: "memory \<Rightarrow> heap \<Rightarrow> heap" where
  "with_mem m h = h\<lparr>pal := (pal h)\<lparr>kmem := m\<rparr>\<rparr>"

definition header :: "heap \<Rightarrow> arena \<Rightarrow> bytes" where
  "header h ar = words_bytes [ARENA_MAGIC, case desc_of ar of None \<Rightarrow> NULL | Some d \<Rightarrow> desc_ptr h d, free_cnt ar]"

definition set_header :: "ptr \<Rightarrow> arena \<Rightarrow> heap \<Rightarrow> heap option" where
  "set_header a ar h = do {
     m \<leftarrow> store_bytes (kmem (pal h)) a (header h ar);
     Some (with_mem m h\<lparr>arenas := (arenas h)(a \<mapsto> ar)\<rparr>) }"

primrec put_links :: "ptr \<Rightarrow> ptr list \<Rightarrow> ptr \<Rightarrow> memory \<Rightarrow> memory option" where
  "put_links before [] after m = Some m"
| "put_links before (b # bs) after m = do {
     m \<leftarrow> store_bytes m b (words_bytes [before, hd (bs @ [after])]);
     put_links b bs after m }"

definition free_push_front :: "ptr \<Rightarrow> ptr list \<Rightarrow> ptr list option" where
  "free_push_front b bs = (if b \<in> set bs then None else Some (b # bs))"

definition free_push_back :: "ptr \<Rightarrow> ptr list \<Rightarrow> ptr list option" where
  "free_push_back b bs = (if b \<in> set bs then None else Some (bs @ [b]))"

definition free_remove :: "ptr \<Rightarrow> ptr list \<Rightarrow> ptr list option" where
  "free_remove b bs = (if b \<in> set bs then Some (remove1 b bs) else None)"

definition get_desc :: "heap \<Rightarrow> nat \<Rightarrow> desc option" where
  "get_desc h d = (if d < length (descs h) then Some (descs h ! d) else None)"

definition set_free_list :: "nat \<Rightarrow> ptr list \<Rightarrow> heap \<Rightarrow> heap option" where
  "set_free_list d bs h = do {
     m \<leftarrow> put_links (desc_ptr h d + 8) bs (desc_ptr h d + 16) (kmem (pal h));
     Some (with_mem m h\<lparr>descs := (descs h)[d := (descs h ! d)\<lparr>free_list := bs\<rparr>]\<rparr>) }"

definition block_to_arena :: "heap \<Rightarrow> ptr \<Rightarrow> (ptr \<times> arena) option" where
  "block_to_arena h b = do {
     let a = pg_round_down b;
     ASSERT (a \<noteq> NULL);
     ar \<leftarrow> arenas h a;
     case desc_of ar of
       Some d \<Rightarrow> do {
         ds \<leftarrow> get_desc h d;
         ASSERT ((pg_ofs b - sizeof_arena) mod block_size ds = 0);
         Some (a, ar) }
     | None \<Rightarrow> do {
         ASSERT (pg_ofs b = sizeof_arena);
         Some (a, ar) } }"

definition arena_to_block :: "heap \<Rightarrow> ptr \<Rightarrow> size_t \<Rightarrow> ptr option" where
  "arena_to_block h a idx = do {
     ASSERT (a \<noteq> NULL);
     ar \<leftarrow> arenas h a;
     d \<leftarrow> desc_of ar;
     ds \<leftarrow> get_desc h d;
     ASSERT (idx < blocks_per_arena ds);
     Some (a + sizeof_arena + idx * block_size ds) }"

fun find_desc :: "desc list \<Rightarrow> size_t \<Rightarrow> nat option" where
  "find_desc [] sz = None"
| "find_desc (d # ds) sz = (if block_size d \<ge> sz then Some 0 else map_option Suc (find_desc ds sz))"

definition malloc_big :: "size_t \<Rightarrow> heap \<Rightarrow> (ptr \<times> heap) option" where
  "malloc_big sz h = do {
     let page_cnt = DIV_ROUND_UP (sz + sizeof_arena) PGSIZE;
     (a, pl) \<leftarrow> palloc_get_multiple 0 page_cnt (pal h);
     let h = h\<lparr>pal := pl\<rparr>;
     if a = NULL then Some (NULL, h)
     else do {
       h \<leftarrow> set_header a \<lparr>desc_of = None, free_cnt = page_cnt\<rparr> h;
       Some (a + sizeof_arena, h) } }"

definition new_arena :: "nat \<Rightarrow> heap \<Rightarrow> (bool \<times> heap) option" where
  "new_arena d h = do {
     (a, pl) \<leftarrow> palloc_get_page 0 (pal h);
     let h = h\<lparr>pal := pl\<rparr>;
     if a = NULL then Some (False, h)
     else do {
       ds \<leftarrow> get_desc h d;
       h \<leftarrow> set_header a \<lparr>desc_of = Some d, free_cnt = blocks_per_arena ds\<rparr> h;
       bs \<leftarrow> for_loop (unat (blocks_per_arena ds)) (\<lambda>i bs. do {
         b \<leftarrow> arena_to_block h a (of_nat i);
         free_push_back b bs }) (free_list ds);
       h \<leftarrow> set_free_list d bs h;
       Some (True, h) } }"

definition pop_block :: "nat \<Rightarrow> heap \<Rightarrow> (ptr \<times> heap) option" where
  "pop_block d h = do {
     ds \<leftarrow> get_desc h d;
     (b, bs) \<leftarrow> (case free_list ds of [] \<Rightarrow> None | b # bs \<Rightarrow> Some (b, bs));
     h \<leftarrow> set_free_list d bs h;
     (a, ar) \<leftarrow> block_to_arena h b;
     h \<leftarrow> set_header a (ar\<lparr>free_cnt := free_cnt ar - 1\<rparr>) h;
     Some (b, h) }"

definition malloc :: "size_t \<Rightarrow> heap \<Rightarrow> (ptr \<times> heap) option" where
  "malloc sz h =
     (if sz = 0 then Some (NULL, h)
      else case find_desc (descs h) sz of
        None \<Rightarrow> malloc_big sz h
      | Some d \<Rightarrow> do {
          ds \<leftarrow> get_desc h d;
          (ok, h) \<leftarrow> (if free_list ds = [] then new_arena d h else Some (True, h));
          if ok then pop_block d h else Some (NULL, h) })"

definition calloc :: "size_t \<Rightarrow> size_t \<Rightarrow> heap \<Rightarrow> (ptr \<times> heap) option" where
  "calloc a b h = do {
     let sz = a * b;
     if sz < a \<or> sz < b then Some (NULL, h)
     else do {
       (p, h) \<leftarrow> malloc sz h;
       if p \<noteq> NULL then do {
         (_, m) \<leftarrow> memset (kmem (pal h)) p 0 sz;
         Some (p, with_mem m h) }
       else Some (p, h) } }"

definition block_size_of :: "heap \<Rightarrow> ptr \<Rightarrow> size_t option" where
  "block_size_of h b = do {
     (a, ar) \<leftarrow> block_to_arena h b;
     case desc_of ar of
       Some d \<Rightarrow> do { ds \<leftarrow> get_desc h d; Some (block_size ds) }
     | None \<Rightarrow> Some (PGSIZE * free_cnt ar - pg_ofs b) }"

definition release_arena :: "nat \<Rightarrow> ptr \<Rightarrow> heap \<Rightarrow> heap option" where
  "release_arena d a h = do {
     ds \<leftarrow> get_desc h d;
     bs \<leftarrow> for_loop (unat (blocks_per_arena ds)) (\<lambda>i bs. do {
       b \<leftarrow> arena_to_block h a (of_nat i);
       free_remove b bs }) (free_list ds);
     h \<leftarrow> set_free_list d bs h;
     pl \<leftarrow> palloc_free_page a (pal h);
     Some (h\<lparr>pal := pl, arenas := (arenas h)(a := None)\<rparr>) }"

definition free :: "ptr \<Rightarrow> heap \<Rightarrow> heap option" where
  "free p h =
     (if p \<noteq> NULL then do {
        (a, ar) \<leftarrow> block_to_arena h p;
        case desc_of ar of
          Some d \<Rightarrow> do {
            ds \<leftarrow> get_desc h d;
            (_, m) \<leftarrow> memset (kmem (pal h)) p 0xcc (block_size ds);
            bs \<leftarrow> free_push_front p (free_list ds);
            h \<leftarrow> set_free_list d bs (with_mem m h);
            let cnt = free_cnt ar + 1;
            h \<leftarrow> set_header a (ar\<lparr>free_cnt := cnt\<rparr>) h;
            if cnt \<ge> blocks_per_arena ds then do {
              ASSERT (cnt = blocks_per_arena ds);
              release_arena d a h }
            else Some h }
        | None \<Rightarrow> do {
            pl \<leftarrow> palloc_free_multiple a (free_cnt ar) (pal h);
            Some (h\<lparr>pal := pl, arenas := (arenas h)(a := None)\<rparr>) } }
      else Some h)"

definition realloc :: "ptr \<Rightarrow> size_t \<Rightarrow> heap \<Rightarrow> (ptr \<times> heap) option" where
  "realloc old_block new_size h =
     (if new_size = 0 then do { h \<leftarrow> free old_block h; Some (NULL, h) }
      else do {
        (new_block, h) \<leftarrow> malloc new_size h;
        if old_block \<noteq> NULL \<and> new_block \<noteq> NULL then do {
          old_size \<leftarrow> block_size_of h old_block;
          let min_size = (if new_size < old_size then new_size else old_size);
          (_, m) \<leftarrow> memcpy (kmem (pal h)) new_block old_block min_size;
          h \<leftarrow> free old_block (with_mem m h);
          Some (new_block, h) }
        else Some (new_block, h) })"

subsection \<open>Descriptors\<close>

text \<open>What \<^verbatim>\<open>malloc_init\<close> sets up: seven sizes of blocks, from 16 to 1024 bytes.\<close>

definition desc_table :: "(size_t \<times> size_t) list" where
  "desc_table = [(16, 255), (32, 127), (64, 63), (128, 31), (256, 15), (512, 7), (1024, 3)]"

abbreviation shape :: "desc list \<Rightarrow> (size_t \<times> size_t) list" where
  "shape \<equiv> map (\<lambda>d. (block_size d, blocks_per_arena d))"

lemma malloc_init_loop_ok:
  "malloc_init_loop 16 [] = Some (map (\<lambda>(bs, n). \<lparr>block_size = bs, blocks_per_arena = n, free_list = []\<rparr>) desc_table)"
  by (simp add: malloc_init_loop.simps PGSIZE_def sizeof_arena_def desc_table_def)

lemma desc_shape:
  assumes "shape ds = desc_table" "d < length ds"
  shows "12 + unat (block_size (ds ! d)) * unat (blocks_per_arena (ds ! d)) \<le> 4096" "16 \<le> unat (block_size (ds ! d))"
    "2 \<le> unat (blocks_per_arena (ds ! d))" "unat (block_size (ds ! d)) \<le> 1024"
proof -
  have "(block_size (ds ! d), blocks_per_arena (ds ! d)) \<in> set desc_table"
    unfolding assms(1) [symmetric] using assms(2) by simp
  then show "12 + unat (block_size (ds ! d)) * unat (blocks_per_arena (ds ! d)) \<le> 4096" "16 \<le> unat (block_size (ds ! d))"
    "2 \<le> unat (blocks_per_arena (ds ! d))" "unat (block_size (ds ! d)) \<le> 1024"
    by (auto simp: desc_table_def)
qed

lemma find_desc_Some: "find_desc ds sz = Some d \<Longrightarrow> d < length ds \<and> sz \<le> block_size (ds ! d)"
  by (induction ds arbitrary: d) (auto split: if_splits)

lemma find_desc_None: "find_desc ds sz = None \<longleftrightarrow> (\<forall>d \<in> set ds. block_size d < sz)"
  by (induction ds) (auto simp: not_le)

subsection \<open>Blocks\<close>

definition blk :: "ptr \<Rightarrow> size_t \<Rightarrow> nat \<Rightarrow> ptr" where
  "blk a bs i = a + sizeof_arena + of_nat i * bs"

definition blocks :: "ptr \<Rightarrow> desc \<Rightarrow> ptr set" where
  "blocks a ds = blk a (block_size ds) ` {..<unat (blocks_per_arena ds)}"

definition free_in :: "ptr \<Rightarrow> desc \<Rightarrow> nat set" where
  "free_in a ds = {i. i < unat (blocks_per_arena ds) \<and> blk a (block_size ds) i \<in> set (free_list ds)}"

definition good_desc :: "desc \<Rightarrow> bool" where
  "good_desc ds \<longleftrightarrow> 12 + unat (block_size ds) * unat (blocks_per_arena ds) \<le> 4096 \<and> 16 \<le> unat (block_size ds)
    \<and> 2 \<le> unat (blocks_per_arena ds)"

definition page_ok :: "ptr \<Rightarrow> bool" where
  "page_ok a \<longleftrightarrow> a \<noteq> NULL \<and> pg_ofs a = 0 \<and> in_space a 4096"

lemma block_fits: "good_desc ds \<Longrightarrow> i < unat (blocks_per_arena ds) \<Longrightarrow> 12 + i * unat (block_size ds) + unat (block_size ds) \<le> 4096"
  using mult_le_mono1 [of "Suc i" "unat (blocks_per_arena ds)" "unat (block_size ds)"] by (simp add: good_desc_def mult.commute)

lemma unat_offset_page: "page_ok a \<Longrightarrow> n < 4096 \<Longrightarrow> unat (a + of_nat n) = unat a + n"
  using unat_add_le [of a n] by (simp add: page_ok_def in_space_def)

lemma offset_page:
  assumes "page_ok a" "n < 4096"
  shows "pg_round_down (a + of_nat n) = a" "pg_ofs (a + of_nat n) = of_nat n"
proof -
  obtain c where c: "unat a = 4096 * c"
    using assms(1) by (auto simp: page_ok_def aligned_iff)
  have "unat (pg_round_down (a + of_nat n)) = unat a" "unat (pg_ofs (a + of_nat n)) = n"
    using assms(2) by (simp_all add: unat_round_down unat_pg_ofs unat_offset_page [OF assms] c)
  then show "pg_round_down (a + of_nat n) = a" "pg_ofs (a + of_nat n) = of_nat n"
    using assms(2) by (simp_all add: word_unat_eq_iff unat_of_nat)
qed

lemma few_blocks: "good_desc ds \<Longrightarrow> unat (blocks_per_arena ds) \<le> 4096"
  by (cases "unat (block_size ds)") (auto simp: good_desc_def)

lemma blk_offset: "blk a bs i = a + of_nat (12 + i * unat bs)"
  by (simp add: blk_def sizeof_arena_def)

lemma blk_ok:
  assumes "page_ok a" "good_desc ds" "i < unat (blocks_per_arena ds)"
  shows "unat (blk a (block_size ds) i) = unat a + 12 + i * unat (block_size ds)" "pg_round_down (blk a (block_size ds) i) = a"
    "(pg_ofs (blk a (block_size ds) i) - sizeof_arena) mod block_size ds = 0" "blk a (block_size ds) i \<noteq> NULL"
proof -
  have n: "12 + i * unat (block_size ds) < 4096"
    using block_fits [OF assms(2,3)] assms(2) by (simp add: good_desc_def)
  then show "unat (blk a (block_size ds) i) = unat a + 12 + i * unat (block_size ds)"
    using unat_offset_page [OF assms(1) n] by (simp add: blk_offset del: of_nat_add of_nat_mult)
  then show "blk a (block_size ds) i \<noteq> NULL"
    by auto
  show "pg_round_down (blk a (block_size ds) i) = a"
    unfolding blk_offset by (rule offset_page(1) [OF assms(1) n])
  have "pg_ofs (blk a (block_size ds) i) - sizeof_arena = of_nat (i * unat (block_size ds))"
    unfolding blk_offset offset_page(2) [OF assms(1) n] by (simp add: sizeof_arena_def)
  moreover have "unat (of_nat (i * unat (block_size ds)) :: size_t) = i * unat (block_size ds)"
    using n by (simp add: unat_of_nat del: of_nat_mult)
  ultimately show "(pg_ofs (blk a (block_size ds) i) - sizeof_arena) mod block_size ds = 0"
    by (metis mod_mult_self2_is_0 unat_eq_zero unat_mod)
qed

lemma blk_inj:
  assumes "page_ok a" "good_desc ds" "i < unat (blocks_per_arena ds)" "j < unat (blocks_per_arena ds)"
  shows "blk a (block_size ds) i = blk a (block_size ds) j \<longleftrightarrow> i = j"
proof
  assume "blk a (block_size ds) i = blk a (block_size ds) j"
  then have "i * unat (block_size ds) = j * unat (block_size ds)"
    using blk_ok(1) [OF assms(1-3)] blk_ok(1) [OF assms(1,2,4)] by (metis add_left_cancel)
  moreover have "unat (block_size ds) \<noteq> 0"
    using assms(2) by (simp add: good_desc_def)
  ultimately show "i = j"
    by simp
qed simp

lemma blk_apart:
  assumes "page_ok a" "good_desc ds" "b \<in> blocks a ds" "b' \<in> blocks a ds"
    and "within b (unat (block_size ds)) x" "within b' (unat (block_size ds)) x"
  shows "b = b'"
proof -
  let ?s = "unat (block_size ds)"
  obtain i j where ij: "b = blk a (block_size ds) i" "i < unat (blocks_per_arena ds)" "b' = blk a (block_size ds) j" "j < unat (blocks_per_arena ds)"
    using assms(3,4) by (auto simp: blocks_def)
  have "unat a + 12 + i * ?s \<le> unat x" "unat x < unat a + 12 + i * ?s + ?s" "unat a + 12 + j * ?s \<le> unat x" "unat x < unat a + 12 + j * ?s + ?s"
    using assms(5,6) blk_ok(1) [OF assms(1,2) ij(2)] blk_ok(1) [OF assms(1,2) ij(4)] unfolding within_def ij(1,3) by simp_all
  then have "i * ?s < Suc j * ?s" "j * ?s < Suc i * ?s"
    by simp_all
  then have "i = j"
    unfolding mult_less_cancel2 by simp
  then show ?thesis
    using ij by simp
qed

lemma blocks_page: "page_ok a \<Longrightarrow> good_desc ds \<Longrightarrow> b \<in> blocks a ds \<Longrightarrow> pg_round_down b = a"
  by (auto simp: blocks_def blk_ok)

lemma card_free_in_le: "card (free_in a ds) \<le> unat (blocks_per_arena ds)"
  using card_mono [of "{..<unat (blocks_per_arena ds)}" "free_in a ds"] by (auto simp: free_in_def)

lemma free_in_all:
  assumes "unat (blocks_per_arena ds) \<le> card (free_in a ds)"
  shows "blocks a ds \<subseteq> set (free_list ds)"
proof -
  have "free_in a ds = {..<unat (blocks_per_arena ds)}"
    using assms by (intro card_seteq) (auto simp: free_in_def)
  then show ?thesis
    by (auto simp: free_in_def blocks_def)
qed

subsection \<open>The invariant\<close>

definition group_size :: "arena \<Rightarrow> size_t" where
  "group_size ar = (case desc_of ar of None \<Rightarrow> free_cnt ar | Some d \<Rightarrow> 1)"

definition groups :: "heap \<Rightarrow> ptr \<Rightarrow> size_t option" where
  "groups h a = map_option group_size (arenas h a)"

text \<open>
  Every arena is a group of pages of its own; every free block is a block of an arena of its
  descriptor, is listed once, and is counted. Between operations no arena is entirely free.
\<close>

definition heap_inv :: "heap \<Rightarrow> bool" where
  "heap_inv h \<longleftrightarrow> kernel_pages.owns (pal h) (groups h) \<and> shape (descs h) = desc_table
    \<and> (\<forall>a ar d. arenas h a = Some ar \<longrightarrow> desc_of ar = Some d \<longrightarrow>
        d < length (descs h) \<and> unat (free_cnt ar) = card (free_in a (descs h ! d)))
    \<and> (\<forall>d < length (descs h). distinct (free_list (descs h ! d)) \<and> (\<forall>b \<in> set (free_list (descs h ! d)).
        \<exists>a ar. arenas h a = Some ar \<and> desc_of ar = Some d \<and> b \<in> blocks a (descs h ! d)))"

definition in_use :: "heap \<Rightarrow> bool" where
  "in_use h \<longleftrightarrow> (\<forall>a ar d. arenas h a = Some ar \<longrightarrow> desc_of ar = Some d \<longrightarrow> free_cnt ar < blocks_per_arena (descs h ! d))"

text \<open>The links of a list, read from memory; the memory holds the headers and the links.\<close>

primrec linked :: "memory \<Rightarrow> ptr \<Rightarrow> ptr list \<Rightarrow> ptr \<Rightarrow> bool" where
  "linked m before [] after = True"
| "linked m before (b # bs) after = (bytes_at m b (words_bytes [before, hd (bs @ [after])]) \<and> linked m b bs after)"

definition kept_in :: "memory \<Rightarrow> heap \<Rightarrow> bool" where
  "kept_in m h \<longleftrightarrow> (\<forall>a ar. arenas h a = Some ar \<longrightarrow> bytes_at m a (header h ar))
    \<and> (\<forall>d < length (descs h). linked m (desc_ptr h d + 8) (free_list (descs h ! d)) (desc_ptr h d + 16))"

definition heap_ok :: "heap \<Rightarrow> bool" where
  "heap_ok h \<longleftrightarrow> heap_inv h \<and> in_use h \<and> kept_in (kmem (pal h)) h"

text \<open>The blocks that are allocated, with the number of bytes that each provides.\<close>

definition live_at :: "heap \<Rightarrow> ptr \<Rightarrow> ptr \<Rightarrow> nat \<Rightarrow> bool" where
  "live_at h a b n \<longleftrightarrow> (\<exists>ar. arenas h a = Some ar \<and> (case desc_of ar of
       None \<Rightarrow> b = a + sizeof_arena \<and> n = 4096 * unat (free_cnt ar) - 12
     | Some d \<Rightarrow> b \<in> blocks a (descs h ! d) \<and> b \<notin> set (free_list (descs h ! d)) \<and> n = unat (block_size (descs h ! d))))"

definition live :: "heap \<Rightarrow> (ptr \<times> nat) set" where
  "live h = {(b, n). \<exists>a. live_at h a b n}"

lemma good_desc: "heap_inv h \<Longrightarrow> d < length (descs h) \<Longrightarrow> good_desc (descs h ! d)"
  using desc_shape [of "descs h" d] by (simp add: heap_inv_def good_desc_def)

lemma arena_page:
  assumes "heap_inv h" "arenas h a = Some ar"
  shows "page_ok a" "group_size ar \<noteq> 0" "in_space a (4096 * unat (group_size ar))" "mapped (kmem (pal h)) a (4096 * unat (group_size ar))"
proof -
  have own: "kernel_pages.owns (pal h) (groups h)" "groups h a = Some (group_size ar)"
    using assms by (simp_all add: heap_inv_def groups_def)
  show n: "group_size ar \<noteq> 0" and "in_space a (4096 * unat (group_size ar))" "mapped (kmem (pal h)) a (4096 * unat (group_size ar))"
    using kernel_pages.owns_page [OF own] by simp_all
  then have "in_space a 4096"
    by (intro in_space_le [of a "4096 * unat (group_size ar)" 4096]) (auto simp: Suc_le_eq unat_gt_0)
  then show "page_ok a"
    using kernel_pages.owns_page [OF own] by (simp add: page_ok_def)
qed

lemma arena_desc: "heap_inv h \<Longrightarrow> arenas h a = Some ar \<Longrightarrow> desc_of ar = Some d \<Longrightarrow> d < length (descs h)"
  by (simp add: heap_inv_def)

lemma same_arena:
  assumes "heap_inv h" "arenas h a = Some ar" "d < length (descs h)" "b \<in> blocks a (descs h ! d)"
    and "page_ok a'" "good_desc ds" "b \<in> blocks a' ds"
  shows "a = a'"
  using assms(4-7) blocks_page [of a "descs h ! d" b] blocks_page [of a' ds b] arena_page(1) [OF assms(1,2)] good_desc [OF assms(1,3)] by simp

text \<open>A block lies inside the pages of its arena, behind the header.\<close>

lemma live_inside:
  assumes "heap_inv h" "(b, n) \<in> live h"
  obtains a ar where "arenas h a = Some ar" "unat a + 12 \<le> unat b" "unat b + n \<le> unat a + 4096 * unat (group_size ar)"
    "pg_round_down b = a" "0 < n" "case desc_of ar of None \<Rightarrow> b = a + sizeof_arena \<and> n = 4096 * unat (free_cnt ar) - 12
     | Some d \<Rightarrow> b \<in> blocks a (descs h ! d) \<and> n = unat (block_size (descs h ! d))"
proof -
  obtain a ar where a: "arenas h a = Some ar" and c: "case desc_of ar of
       None \<Rightarrow> b = a + sizeof_arena \<and> n = 4096 * unat (free_cnt ar) - 12
     | Some d \<Rightarrow> b \<in> blocks a (descs h ! d) \<and> b \<notin> set (free_list (descs h ! d)) \<and> n = unat (block_size (descs h ! d))"
    using assms(2) by (auto simp: live_def live_at_def)
  note page = arena_page [OF assms(1) a]
  show thesis
  proof (cases "desc_of ar")
    case None
    have "b = a + of_nat 12"
      using c None by (simp add: sizeof_arena_def)
    moreover have "0 < unat (free_cnt ar)"
      using page(2) None by (simp add: group_size_def unat_gt_0)
    ultimately show thesis
      using that [OF a] c None offset_page(1) [OF page(1), of 12] unat_offset_page [OF page(1), of 12] by (simp add: group_size_def)
  next
    case (Some d)
    have good: "good_desc (descs h ! d)"
      using good_desc [OF assms(1)] arena_desc [OF assms(1) a Some] by simp
    obtain i where i: "i < unat (blocks_per_arena (descs h ! d))" "b = blk a (block_size (descs h ! d)) i"
      using c Some by (auto simp: blocks_def)
    have "16 \<le> unat (block_size (descs h ! d))"
      using good by (simp add: good_desc_def)
    then show thesis
      using that [OF a] c Some blk_ok [OF page(1) good i(1)] block_fits [OF good i(1)] i(2) by (simp add: group_size_def)
  qed
qed

lemma live_at_page:
  assumes "heap_inv h" "live_at h a b n"
  shows "pg_round_down b = a"
proof -
  obtain ar where ar: "arenas h a = Some ar" "case desc_of ar of None \<Rightarrow> b = a + sizeof_arena | Some d \<Rightarrow> b \<in> blocks a (descs h ! d)"
    using assms(2) by (auto simp: live_at_def split: option.splits)
  note page = arena_page(1) [OF assms(1) ar(1)]
  show ?thesis
    using ar(2) offset_page(1) [OF page, of 12] blocks_page [OF page good_desc [OF assms(1) arena_desc [OF assms(1) ar(1)]]]
    by (cases "desc_of ar") (auto simp: sizeof_arena_def)
qed

lemma live_iff: "heap_inv h \<Longrightarrow> (b, n) \<in> live h \<longleftrightarrow> live_at h (pg_round_down b) b n"
  using live_at_page [of h _ b n] by (auto simp: live_def)

lemma no_live_page: "heap_inv h \<Longrightarrow> arenas h a = None \<Longrightarrow> x \<in> live h \<Longrightarrow> pg_round_down (fst x) \<noteq> a"
  using live_at_page [of h] by (fastforce simp: live_def live_at_def)

lemma live_apart:
  assumes "heap_inv h" "(b, n) \<in> live h" "(b', n') \<in> live h" "within b n x" "within b' n' x"
  shows "b = b' \<and> n = n'"
proof -
  obtain a ar where a: "arenas h a = Some ar" "unat a + 12 \<le> unat b" "unat b + n \<le> unat a + 4096 * unat (group_size ar)"
    "case desc_of ar of None \<Rightarrow> b = a + sizeof_arena \<and> n = 4096 * unat (free_cnt ar) - 12
     | Some d \<Rightarrow> b \<in> blocks a (descs h ! d) \<and> n = unat (block_size (descs h ! d))"
    by (rule live_inside [OF assms(1,2)]) blast
  obtain a' ar' where a': "arenas h a' = Some ar'" "unat a' + 12 \<le> unat b'" "unat b' + n' \<le> unat a' + 4096 * unat (group_size ar')"
    "case desc_of ar' of None \<Rightarrow> b' = a' + sizeof_arena \<and> n' = 4096 * unat (free_cnt ar') - 12
     | Some d \<Rightarrow> b' \<in> blocks a' (descs h ! d) \<and> n' = unat (block_size (descs h ! d))"
    by (rule live_inside [OF assms(1,3)]) blast
  have "within a (4096 * unat (group_size ar)) x" "within a' (4096 * unat (group_size ar')) x"
    using a(2,3) a'(2,3) assms(4,5) by (auto simp: within_def)
  then have "a = a'"
    using kernel_pages.owns_apart [of "pal h" "groups h" a _ a'] a(1) a'(1) assms(1) by (fastforce simp: groups_def heap_inv_def)
  then have ar: "ar' = ar"
    using a(1) a'(1) by simp
  show ?thesis
  proof (cases "desc_of ar")
    case None
    then show ?thesis
      using a(4) a'(4) \<open>a = a'\<close> ar by simp
  next
    case (Some d)
    have good: "good_desc (descs h ! d)"
      using good_desc [OF assms(1)] arena_desc [OF assms(1) a(1) Some] by simp
    then show ?thesis
      using blk_apart [OF arena_page(1) [OF assms(1) a(1)] good, of b b' x] a(4) a'(4) Some \<open>a = a'\<close> ar assms(4,5) by auto
  qed
qed

subsection \<open>Headers and links in memory\<close>

lemma with_mem_simps [simp]:
  "descs (with_mem m h) = descs h" "arenas (with_mem m h) = arenas h" "descs_addr (with_mem m h) = descs_addr h"
  "pal (with_mem m h) = (pal h)\<lparr>kmem := m\<rparr>" "groups (with_mem m h) = groups h" "desc_ptr (with_mem m h) = desc_ptr h"
  "header (with_mem m h) = header h" "live (with_mem m h) = live h" "in_use (with_mem m h) = in_use h" "kept_in m' (with_mem m h) = kept_in m' h"
  by (auto simp: with_mem_def groups_def desc_ptr_def header_def live_def live_at_def in_use_def kept_in_def fun_eq_iff cong: option.case_cong)

lemma with_mem_inv:
  assumes "heap_inv h" "\<forall>a n. mapped m a n = mapped (kmem (pal h)) a n"
  shows "heap_inv (with_mem m h)"
proof -
  have "kernel_pages.owns ((pal h)\<lparr>kmem := m\<rparr>) (groups h)"
    using assms by (simp add: heap_inv_def kernel_pages.owns_def palloc_ok_def pool_ok_def)
  then show ?thesis
    using assms(1) by (simp add: heap_inv_def)
qed

lemma length_header [simp]: "length (header h ar) = 12"
  by (simp add: header_def)

text \<open>A free block lies inside the page of its arena, behind the header, and is in no live block.\<close>

lemma free_block:
  assumes "heap_inv h" "d < length (descs h)" "b \<in> set (free_list (descs h ! d))"
  obtains a ar where "arenas h a = Some ar" "desc_of ar = Some d" "group_size ar = 1" "b \<in> blocks a (descs h ! d)" "unat a + 12 \<le> unat b"
    "unat b + unat (block_size (descs h ! d)) \<le> unat a + 4096" "16 \<le> unat (block_size (descs h ! d))" "in_space b 8" "mapped (kmem (pal h)) b 8"
proof -
  obtain a ar where a: "arenas h a = Some ar" "desc_of ar = Some d" "b \<in> blocks a (descs h ! d)"
    using assms unfolding heap_inv_def by blast
  note page = arena_page [OF assms(1) a(1)] and good = good_desc [OF assms(1,2)]
  obtain i where i: "i < unat (blocks_per_arena (descs h ! d))" "b = blk a (block_size (descs h ! d)) i"
    using a(3) by (auto simp: blocks_def)
  have one: "group_size ar = 1" and sz: "16 \<le> unat (block_size (descs h ! d))"
    using a(2) good by (simp_all add: group_size_def good_desc_def)
  have at: "unat a + 12 \<le> unat b" "unat b + unat (block_size (descs h ! d)) \<le> unat a + 4096"
    using blk_ok(1) [OF page(1) good i(1)] block_fits [OF good i(1)] i(2) by simp_all
  have "b = a + of_nat (unat b - unat a)"
    using at(1) by (simp add: of_nat_diff)
  then have "mapped (kmem (pal h)) b 8"
    using mapped_drop [of "kmem (pal h)" a "unat b - unat a" 8] mapped_le [OF page(4), of "unat b - unat a + 8"] at sz one by simp
  moreover have "in_space b 8"
    using page(3) at sz one by (simp add: in_space_def)
  ultimately show thesis
    using that a one at sz by blast
qed

lemma arenas_apart:
  assumes "heap_inv h" "arenas h a = Some ar" "arenas h c = Some ar'" "within a (4096 * unat (group_size ar)) x" "within c (4096 * unat (group_size ar')) x"
  shows "a = c"
  using kernel_pages.owns_apart [of "pal h" "groups h" a _ c] assms by (fastforce simp: groups_def heap_inv_def)

lemma header_in_arena:
  assumes "heap_inv h" "arenas h a = Some ar" "within a 12 x"
  shows "within a (4096 * unat (group_size ar)) x"
proof -
  have "0 < unat (group_size ar)"
    using arena_page(2) [OF assms(1,2)] by (simp add: unat_gt_0)
  then show ?thesis
    using assms(3) by (simp add: within_def)
qed

lemma free_in_arena:
  assumes "heap_inv h" "d < length (descs h)" "b \<in> set (free_list (descs h ! d))" "within b 8 x"
  shows "\<exists>a ar. arenas h a = Some ar \<and> desc_of ar = Some d \<and> within a (4096 * unat (group_size ar)) x \<and> \<not> within a 12 x
    \<and> b \<in> blocks a (descs h ! d) \<and> within b (unat (block_size (descs h ! d))) x"
  by (rule free_block [OF assms(1-3)]) (use assms(4) in \<open>fastforce simp: within_def\<close>)

lemma header_free_apart:
  assumes "heap_inv h" "arenas h a = Some ar" "d < length (descs h)" "b \<in> set (free_list (descs h ! d))" "within b 8 x"
  shows "\<not> within a 12 x"
  using free_in_arena [OF assms(1,3-5)] arenas_apart [OF assms(1,2)] header_in_arena [OF assms(1,2)] by blast

lemma free_apart:
  assumes "heap_inv h" "d < length (descs h)" "b \<in> set (free_list (descs h ! d))" "within b 8 x"
    and "e < length (descs h)" "b' \<in> set (free_list (descs h ! e))" "within b' 8 x"
  shows "d = e \<and> b = b'"
proof -
  obtain a ar where a: "arenas h a = Some ar" "desc_of ar = Some d" "within a (4096 * unat (group_size ar)) x" "b \<in> blocks a (descs h ! d)"
      "within b (unat (block_size (descs h ! d))) x"
    using free_in_arena [OF assms(1-4)] by blast
  obtain c ar' where c: "arenas h c = Some ar'" "desc_of ar' = Some e" "within c (4096 * unat (group_size ar')) x" "b' \<in> blocks c (descs h ! e)"
      "within b' (unat (block_size (descs h ! e))) x"
    using free_in_arena [OF assms(1,5-7)] by blast
  have "a = c"
    using arenas_apart [OF assms(1) a(1) c(1) a(3) c(3)] .
  then have "d = e"
    using a(1,2) c(1,2) by simp
  then show ?thesis
    using blk_apart [OF arena_page(1) [OF assms(1) a(1)] good_desc [OF assms(1,2)] a(4) _ a(5)] c(4,5) \<open>a = c\<close> by simp
qed

text \<open>The bytes that hold headers and links.\<close>

definition book :: "heap \<Rightarrow> ptr \<Rightarrow> bool" where
  "book h x \<longleftrightarrow> (\<exists>a ar. arenas h a = Some ar \<and> within a 12 x) \<or> (\<exists>d < length (descs h). \<exists>b \<in> set (free_list (descs h ! d)). within b 8 x)"

lemma book_with_mem [simp]: "book (with_mem m h) = book h"
  by (simp add: book_def fun_eq_iff)

lemma live_book:
  assumes "heap_inv h" "(q, k) \<in> live h" "within q k x"
  shows "\<not> book h x"
proof
  assume "book h x"
  obtain a ar where a: "arenas h a = Some ar" "unat a + 12 \<le> unat q" "unat q + k \<le> unat a + 4096 * unat (group_size ar)" "pg_round_down q = a"
    by (rule live_inside [OF assms(1,2)]) blast
  have x: "within a (4096 * unat (group_size ar)) x" "\<not> within a 12 x"
    using a(2,3) assms(3) by (auto simp: within_def)
  have "\<not> within c 12 x" if "arenas h c = Some ar'" for c ar'
    using arenas_apart [OF assms(1) a(1) that x(1)] header_in_arena [OF assms(1) that] x(2) by blast
  then obtain d b where b: "d < length (descs h)" "b \<in> set (free_list (descs h ! d))" "within b 8 x"
    using \<open>book h x\<close> by (auto simp: book_def)
  obtain c ar' where c: "arenas h c = Some ar'" "desc_of ar' = Some d" "within c (4096 * unat (group_size ar')) x" "b \<in> blocks c (descs h ! d)"
      "within b (unat (block_size (descs h ! d))) x"
    using free_in_arena [OF assms(1) b] by blast
  have "pg_round_down q = c"
    using arenas_apart [OF assms(1) a(1) c(1) x(1) c(3)] a(4) by simp
  then have "q \<in> blocks c (descs h ! d)" "q \<notin> set (free_list (descs h ! d))" "k = unat (block_size (descs h ! d))"
    using assms(2) c(1,2) by (auto simp: live_iff [OF assms(1)] live_at_def)
  then show False
    using blk_apart [OF arena_page(1) [OF assms(1) c(1)] good_desc [OF assms(1) b(1)] _ c(4) _ c(5)] assms(3) b(2) by blast
qed

text \<open>Writing links and headers.\<close>

lemma put_links_ok:
  assumes "\<forall>b \<in> set bs. in_space b 8 \<and> mapped m b 8" "\<forall>b \<in> set bs. \<forall>b' \<in> set bs. \<forall>x. within b 8 x \<longrightarrow> within b' 8 x \<longrightarrow> b = b'" "distinct bs"
  shows "\<exists>m'. put_links p bs t m = Some m' \<and> (\<forall>a n. mapped m' a n = mapped m a n) \<and> linked m' p bs t
    \<and> (\<forall>x. (\<exists>b \<in> set bs. within b 8 x) \<or> m' x = m x)"
  using assms
proof (induction bs arbitrary: p m)
  case (Cons b bs)
  let ?l = "words_bytes [p, hd (bs @ [t])]"
  let ?m = "write_bytes m b ?l"
  have len: "length ?l = 8" and b: "in_space b (length ?l)" "mapped m b (length ?l)"
    using Cons.prems(1) by simp_all
  have map: "mapped ?m a n = mapped m a n" for a n
    using mapped_write [OF b] .
  obtain m' where m': "put_links b bs t ?m = Some m'" "\<forall>a n. mapped m' a n = mapped ?m a n" "linked m' b bs t"
      "\<forall>x. (\<exists>b \<in> set bs. within b 8 x) \<or> m' x = ?m x"
    using Cons.IH [of ?m b] Cons.prems map by auto
  have "m' x = ?m x" if "within b 8 x" for x
    using m'(4) that Cons.prems(2,3) by (metis distinct.simps(2) list.set_intros)
  then have "bytes_at m' b ?l"
    by (intro bytes_at_outside [OF bytes_at_write [OF b(1), of m] b(1)]) simp
  moreover have "(\<exists>b' \<in> set (b # bs). within b' 8 x) \<or> m' x = m x" for x
    using m'(4) write_outside [OF b(1), of x m] by auto
  ultimately show ?case
    using m' map store_bytes_ok [OF b(2)] by (intro exI [of _ m']) simp
qed simp

lemma set_header_ok:
  assumes "in_space a 12" "mapped (kmem (pal h)) a 12"
  shows "\<exists>m. set_header a ar h = Some (with_mem m h\<lparr>arenas := (arenas h)(a \<mapsto> ar)\<rparr>) \<and> (\<forall>a n. mapped m a n = mapped (kmem (pal h)) a n)
    \<and> bytes_at m a (header h ar) \<and> (\<forall>x. within a 12 x \<or> m x = kmem (pal h) x)"
  using store_bytes_ok [of "kmem (pal h)" a "header h ar"] assms mapped_write [of a "header h ar" "kmem (pal h)"]
    bytes_at_write [of a "header h ar" "kmem (pal h)"] write_outside [of a "header h ar" _ "kmem (pal h)"]
  by (intro exI [of _ "write_bytes (kmem (pal h)) a (header h ar)"]) (auto simp: set_header_def)

lemma set_free_list_ok:
  assumes inv: "heap_inv h'" and d: "d < length (descs h')" "set bs \<subseteq> set (free_list (descs h' ! d))" "distinct bs"
    and map: "\<And>a n. mapped (kmem (pal h)) a n = mapped (kmem (pal h')) a n"
  shows "\<exists>m. set_free_list d bs h = Some (with_mem m h\<lparr>descs := (descs h)[d := (descs h ! d)\<lparr>free_list := bs\<rparr>]\<rparr>)
    \<and> (\<forall>a n. mapped m a n = mapped (kmem (pal h)) a n) \<and> linked m (desc_ptr h d + 8) bs (desc_ptr h d + 16)
    \<and> (\<forall>x. (\<exists>b \<in> set bs. within b 8 x) \<or> m x = kmem (pal h) x)"
proof -
  have "in_space b 8 \<and> mapped (kmem (pal h)) b 8" if "b \<in> set bs" for b
    by (rule free_block [OF inv d(1), of b]) (use that d(2) map in auto)
  moreover have "b = b'" if "b \<in> set bs" "b' \<in> set bs" "within b 8 x" "within b' 8 x" for b b' x
    using free_apart [OF inv d(1) _ that(3) d(1) _ that(4)] that(1,2) d(2) by blast
  ultimately show ?thesis
    using d(3) put_links_ok [of bs "kmem (pal h)" "desc_ptr h d + 8" "desc_ptr h d + 16"] by (auto simp: set_free_list_def)
qed

lemma linked_frame:
  assumes "linked m p bs t" "\<forall>b \<in> set bs. in_space b 8" "\<forall>b \<in> set bs. \<forall>x. within b 8 x \<longrightarrow> m' x = m x"
  shows "linked m' p bs t"
  using assms
proof (induction bs arbitrary: p)
  case (Cons b bs)
  then have "bytes_at m' b (words_bytes [p, hd (bs @ [t])])"
    by (intro bytes_at_outside [of m b _ m']) auto
  then show ?case
    using Cons by simp
qed simp

text \<open>The memory still holds the books of a heap of which one arena and some lists have changed, if
  the arena and the lists are written and nothing is written where the other entries are.\<close>

lemma kept_in_step:
  assumes old: "kept_in m h" and inv: "heap_inv h'" and addr: "descs_addr h' = descs_addr h" "length (descs h') = length (descs h)"
    and arenas: "\<And>c ar. c \<noteq> a \<Longrightarrow> arenas h' c = Some ar \<Longrightarrow> arenas h c = Some ar"
    and lists: "\<And>e. e < length (descs h) \<Longrightarrow> e \<notin> D \<Longrightarrow> free_list (descs h' ! e) = free_list (descs h ! e)"
    and frame: "\<And>x. P x \<or> m' x = m x"
    and headers_apart: "\<And>c ar x. c \<noteq> a \<Longrightarrow> arenas h' c = Some ar \<Longrightarrow> within c 12 x \<Longrightarrow> \<not> P x"
    and links_apart: "\<And>e b x. e < length (descs h') \<Longrightarrow> e \<notin> D \<Longrightarrow> b \<in> set (free_list (descs h' ! e)) \<Longrightarrow> within b 8 x \<Longrightarrow> \<not> P x"
    and header: "\<And>ar. arenas h' a = Some ar \<Longrightarrow> bytes_at m' a (header h ar)"
    and links: "\<And>e. e \<in> D \<Longrightarrow> e < length (descs h) \<Longrightarrow> linked m' (desc_ptr h e + 8) (free_list (descs h' ! e)) (desc_ptr h e + 16)"
  shows "kept_in m' h'"
proof -
  have ptr: "desc_ptr h' = desc_ptr h" "header h' = header h"
    using addr(1) by (auto simp: desc_ptr_def header_def fun_eq_iff cong: option.case_cong)
  have "bytes_at m' c (header h ar)" if c: "arenas h' c = Some ar" for c ar
  proof (cases "c = a")
    case False
    have "in_space c 12"
      using arena_page(1) [OF inv c] in_space_le [of c 4096 12] by (simp add: page_ok_def)
    moreover have "bytes_at m c (header h ar)"
      using old arenas [OF False c] by (simp add: kept_in_def)
    ultimately show ?thesis
      using frame headers_apart [OF False c] by (intro bytes_at_outside [of m c "header h ar" m']) auto
  qed (use header c in simp)
  moreover have "linked m' (desc_ptr h e + 8) (free_list (descs h' ! e)) (desc_ptr h e + 16)" if e: "e < length (descs h)" for e
  proof (cases "e \<in> D")
    case False
    have "in_space b 8" if "b \<in> set (free_list (descs h' ! e))" for b
      using free_block [OF inv _ that] e addr(2) by metis
    moreover have "linked m (desc_ptr h e + 8) (free_list (descs h' ! e)) (desc_ptr h e + 16)"
      using old e lists [OF e False] by (simp add: kept_in_def)
    ultimately show ?thesis
      using frame links_apart [OF _ False] e addr(2) by (intro linked_frame [of m _ _ _ m']) auto
  qed (use links e in simp)
  ultimately show ?thesis
    using addr(2) unfolding kept_in_def ptr by simp
qed

lemma kept_in_frame:
  assumes "kept_in m h" "heap_inv h" "\<And>x. book h x \<Longrightarrow> m' x = m x"
  shows "kept_in m' h"
proof (rule kept_in_step [OF assms(1,2), where a = NULL and D = "{}" and P = "\<lambda>x. \<not> book h x"])
  show "\<not> book h x \<or> m' x = m x" for x
    using assms(3) by blast
  show "bytes_at m' NULL (header h ar)" if "arenas h NULL = Some ar" for ar
    using arena_page(1) [OF assms(2) that] by (simp add: page_ok_def)
qed (auto simp: book_def)

text \<open>
  The operations on blocks of a descriptor change the entry of one arena and the free list, and
  on the list only blocks of that arena.
\<close>

definition put_arena :: "nat \<Rightarrow> ptr list \<Rightarrow> ptr \<Rightarrow> arena option \<Rightarrow> palloc \<Rightarrow> heap \<Rightarrow> heap" where
  "put_arena d bs a new pl h = h\<lparr>descs := (descs h)[d := (descs h ! d)\<lparr>free_list := bs\<rparr>], pal := pl, arenas := (arenas h)(a := new)\<rparr>"

lemma put_arena_simps:
  "pal (put_arena d bs a new pl h) = pl" "arenas (put_arena d bs a new pl h) = (arenas h)(a := new)"
  "length (descs (put_arena d bs a new pl h)) = length (descs h)"
  "d < length (descs h) \<Longrightarrow> descs (put_arena d bs a new pl h) ! e = (if e = d then (descs h ! d)\<lparr>free_list := bs\<rparr> else descs h ! e)"
  "d < length (descs h) \<Longrightarrow> shape (descs (put_arena d bs a new pl h)) = shape (descs h)"
  by (auto simp: put_arena_def map_update list_update_same_conv nth_list_update intro!: nth_equalityI)

lemma blocks_cong: "block_size ds' = block_size ds \<Longrightarrow> blocks_per_arena ds' = blocks_per_arena ds \<Longrightarrow> blocks a ds' = blocks a ds"
  by (simp add: blocks_def)

definition arena_change :: "heap \<Rightarrow> nat \<Rightarrow> ptr \<Rightarrow> ptr list \<Rightarrow> arena option \<Rightarrow> palloc \<Rightarrow> bool" where
  "arena_change h d a bs new pl \<longleftrightarrow> heap_inv h \<and> d < length (descs h) \<and> page_ok a
    \<and> (\<forall>ar. arenas h a = Some ar \<longrightarrow> desc_of ar = Some d) \<and> distinct bs
    \<and> (\<forall>b. b \<notin> blocks a (descs h ! d) \<longrightarrow> b \<in> set bs \<longleftrightarrow> b \<in> set (free_list (descs h ! d)))
    \<and> (new = None \<longrightarrow> blocks a (descs h ! d) \<inter> set bs = {})
    \<and> (\<forall>ar. new = Some ar \<longrightarrow> desc_of ar = Some d \<and> unat (free_cnt ar) = card (free_in a ((descs h ! d)\<lparr>free_list := bs\<rparr>)))
    \<and> kernel_pages.owns pl (groups (put_arena d bs a new pl h))"

lemma arena_change_other:
  assumes "arena_change h d a bs new pl" "arenas h c = Some ar" "c \<noteq> a"
  shows "e < length (descs h) \<Longrightarrow> b \<in> blocks c (descs h ! e) \<Longrightarrow> b \<notin> blocks a (descs h ! d)"
    and "free_in c ((descs h ! d)\<lparr>free_list := bs\<rparr>) = free_in c (descs h ! d)"
    and "c + sizeof_arena \<notin> blocks a (descs h ! d)"
proof -
  have inv: "heap_inv h" and d: "d < length (descs h)" and page: "page_ok a"
    and other: "\<forall>b. b \<notin> blocks a (descs h ! d) \<longrightarrow> b \<in> set bs \<longleftrightarrow> b \<in> set (free_list (descs h ! d))"
    using assms(1) by (auto simp: arena_change_def)
  note good = good_desc [OF inv d]
  show apart: "b \<notin> blocks a (descs h ! d)" if "e < length (descs h)" "b \<in> blocks c (descs h ! e)" for b e
    using same_arena [OF inv assms(2) that page good] assms(3) by blast
  have "blk c (block_size (descs h ! d)) i \<notin> blocks a (descs h ! d)" if "i < unat (blocks_per_arena (descs h ! d))" for i
    using apart [OF d] that by (auto simp: blocks_def)
  then show "free_in c ((descs h ! d)\<lparr>free_list := bs\<rparr>) = free_in c (descs h ! d)"
    using other by (auto simp: free_in_def)
  have "pg_round_down (c + sizeof_arena) = c"
    using offset_page(1) [OF arena_page(1) [OF inv assms(2)], of 12] by (simp add: sizeof_arena_def)
  then show "c + sizeof_arena \<notin> blocks a (descs h ! d)"
    using blocks_page [OF page good] assms(3) by auto
qed

lemma arena_change_inv:
  assumes "arena_change h d a bs new pl"
  shows "heap_inv (put_arena d bs a new pl h)"
proof -
  have inv: "heap_inv h" and d: "d < length (descs h)" and old: "\<forall>ar. arenas h a = Some ar \<longrightarrow> desc_of ar = Some d"
    and bs: "distinct bs" "\<forall>b. b \<notin> blocks a (descs h ! d) \<longrightarrow> b \<in> set bs \<longleftrightarrow> b \<in> set (free_list (descs h ! d))"
    and new: "new = None \<longrightarrow> blocks a (descs h ! d) \<inter> set bs = {}"
      "\<forall>ar. new = Some ar \<longrightarrow> desc_of ar = Some d \<and> unat (free_cnt ar) = card (free_in a ((descs h ! d)\<lparr>free_list := bs\<rparr>))"
    using assms by (auto simp: arena_change_def)
  note simps = put_arena_simps(1-3) put_arena_simps(4,5) [OF d]
  have blocks_eq: "blocks c ((descs h ! d)\<lparr>free_list := bs\<rparr>) = blocks c (descs h ! d)" for c
    by (rule blocks_cong) simp_all
  have free: "\<exists>c ar. arenas h c = Some ar \<and> desc_of ar = Some e \<and> b \<in> blocks c (descs h ! e)"
    if "e < length (descs h)" "b \<in> set (free_list (descs h ! e))" for e b
    using inv that by (auto simp: heap_inv_def)
  have "e < length (descs h) \<and> unat (free_cnt ar) = card (free_in c (descs (put_arena d bs a new pl h) ! e))"
    if "((arenas h)(a := new)) c = Some ar" "desc_of ar = Some e" for c ar e
  proof (cases "c = a")
    case True
    then show ?thesis
      using that new(2) d by (auto simp: put_arena_simps)
  next
    case False
    then show ?thesis
      using that inv arena_change_other(2) [OF assms, of c ar] by (simp add: simps heap_inv_def)
  qed
  moreover have "\<exists>c ar. ((arenas h)(a := new)) c = Some ar \<and> desc_of ar = Some e \<and> b \<in> blocks c (descs (put_arena d bs a new pl h) ! e)"
    if e: "e < length (descs h)" and b: "b \<in> set (free_list (descs (put_arena d bs a new pl h) ! e))" for e b
  proof (cases "e = d \<and> b \<in> blocks a (descs h ! d)")
    case True
    then obtain ar where "new = Some ar"
      using new(1) b by (auto simp: simps)
    then show ?thesis
      using True new(2) by (intro exI [of _ a] exI [of _ ar]) (simp add: simps blocks_eq)
  next
    case False
    then have "b \<in> set (free_list (descs h ! e))"
      using b bs(2) by (auto simp: simps split: if_splits)
    then obtain c ar where c: "arenas h c = Some ar" "desc_of ar = Some e" "b \<in> blocks c (descs h ! e)"
      using free [OF e] by blast
    then have "c \<noteq> a"
      using False old by auto
    then show ?thesis
      using c by (intro exI [of _ c] exI [of _ ar]) (auto simp: simps blocks_eq)
  qed
  moreover have "distinct (free_list (descs (put_arena d bs a new pl h) ! e))" if "e < length (descs h)" for e
    using that bs(1) inv by (simp add: simps heap_inv_def)
  ultimately show ?thesis
    using assms inv unfolding heap_inv_def [of "put_arena d bs a new pl h"] by (simp add: simps arena_change_def heap_inv_def)
qed

lemma arena_change_live:
  assumes "arena_change h d a bs new pl"
  shows "live (put_arena d bs a new pl h) = {x \<in> live h. fst x \<notin> blocks a (descs h ! d)}
      \<union> (if new = None then {} else (blocks a (descs h ! d) - set bs) \<times> {unat (block_size (descs h ! d))})"
    (is "?l = ?r")
proof -
  have d: "d < length (descs h)" and old: "\<forall>ar. arenas h a = Some ar \<longrightarrow> desc_of ar = Some d"
    and bs: "\<forall>b. b \<notin> blocks a (descs h ! d) \<longrightarrow> b \<in> set bs \<longleftrightarrow> b \<in> set (free_list (descs h ! d))"
    and new: "\<forall>ar. new = Some ar \<longrightarrow> desc_of ar = Some d" and inv: "heap_inv h" and page: "page_ok a"
    using assms by (auto simp: arena_change_def)
  note simps = put_arena_simps(1-3) put_arena_simps(4,5) [OF d]
  have blocks_eq: "blocks c ((descs h ! d)\<lparr>free_list := bs\<rparr>) = blocks c (descs h ! d)" for c
    by (rule blocks_cong) simp_all
  have at: "live_at (put_arena d bs a new pl h) a b n \<longleftrightarrow> new \<noteq> None \<and> b \<in> blocks a (descs h ! d) - set bs \<and> n = unat (block_size (descs h ! d))" for b n
    using new by (cases new) (auto simp: live_at_def simps blocks_eq)
  have at': "b \<in> blocks a (descs h ! d)" if "live_at h a b n" for b n
    using that old by (auto simp: live_at_def)
  have off': "b \<notin> blocks a (descs h ! d)" if "c \<noteq> a" "live_at h c b n" for c b n
    using live_at_page [OF inv that(2)] that(1) blocks_page [OF page good_desc [OF inv d]] by blast
  have off: "live_at (put_arena d bs a new pl h) c b n \<longleftrightarrow> live_at h c b n" if "c \<noteq> a" for c b n
  proof (cases "arenas h c")
    case (Some ar)
    have "b \<in> set bs \<longleftrightarrow> b \<in> set (free_list (descs h ! d))" if "b \<in> blocks c (descs h ! d)"
      using bs arena_change_other(1) [OF assms Some \<open>c \<noteq> a\<close> d that] by simp
    then show ?thesis
      using Some that by (cases "desc_of ar") (auto simp: live_at_def simps blocks_eq)
  qed (use that in \<open>simp add: live_at_def simps\<close>)
  have "(b, n) \<in> ?l \<longleftrightarrow> (b, n) \<in> ?r" for b n
  proof -
    have "(b, n) \<in> ?l \<longleftrightarrow> live_at (put_arena d bs a new pl h) a b n \<or> (\<exists>c. c \<noteq> a \<and> live_at h c b n)"
      unfolding live_def mem_Collect_eq prod.case using off by metis
    moreover have "(b, n) \<in> live h \<and> b \<notin> blocks a (descs h ! d) \<longleftrightarrow> (\<exists>c. c \<noteq> a \<and> live_at h c b n)"
      unfolding live_def mem_Collect_eq prod.case using at' off' by metis
    ultimately show ?thesis
      unfolding at by auto
  qed
  then show ?thesis
    by (auto simp: set_eq_iff)
qed

lemma live_arena:
  assumes inv: "heap_inv h" and a: "arenas h a = Some ar" "desc_of ar = Some d"
  shows "live h = {x \<in> live h. fst x \<notin> blocks a (descs h ! d)}
    \<union> (blocks a (descs h ! d) - set (free_list (descs h ! d))) \<times> {unat (block_size (descs h ! d))}"
proof -
  have d: "d < length (descs h)"
    using arena_desc [OF inv a] .
  have same: "put_arena d (free_list (descs h ! d)) a (Some ar) (pal h) h = h"
    using a(1) by (simp add: put_arena_def fun_upd_idem)
  have "arena_change h d a (free_list (descs h ! d)) (Some ar) (pal h)"
    using inv a d arena_page(1) [OF inv a(1)] unfolding arena_change_def same by (auto simp: heap_inv_def)
  from arena_change_live [OF this] show ?thesis
    unfolding same by simp
qed

text \<open>The books in memory after an arena and the list of its descriptor have been written.\<close>

lemma put_arena_kept:
  assumes inv: "heap_inv h" and inv': "heap_inv (put_arena d bs a new pl h)" and d: "d < length (descs h)" and kept: "kept_in m h"
    and old: "\<forall>ar. arenas h a = Some ar \<longrightarrow> desc_of ar = Some d" and new: "\<forall>ar. new = Some ar \<longrightarrow> desc_of ar = Some d \<and> bytes_at m' a (header h ar)"
    and some: "arenas h a \<noteq> None \<or> new \<noteq> None"
    and links: "linked m' (desc_ptr h d + 8) bs (desc_ptr h d + 16)"
    and frame: "\<forall>x. within a 4096 x \<or> (\<exists>b \<in> set bs. within b 8 x) \<or> m' x = m x"
  shows "kept_in m' (put_arena d bs a new pl h)"
proof (rule kept_in_step [OF kept inv', where a = a and D = "{d}" and P = "\<lambda>x. within a 4096 x \<or> (\<exists>b \<in> set bs. within b 8 x)"])
  let ?h = "put_arena d bs a new pl h"
  note simps = put_arena_simps(1-3) put_arena_simps(4) [OF d]
  have bs: "free_list (descs ?h ! d) = bs" and d': "d < length (descs ?h)"
    using d by (simp_all add: simps)
  have apart: "\<not> within a 4096 x" if "arenas ?h c = Some ar" "c \<noteq> a" "within c (4096 * unat (group_size ar)) x" for c ar x
  proof (cases new)
    case (Some ar')
    then show ?thesis
      using arenas_apart [OF inv' that(1) _ that(3), of a ar'] that(2) new by (auto simp: simps group_size_def)
  next
    case None
    then obtain ar' where "arenas h a = Some ar'"
      using some by blast
    then show ?thesis
      using arenas_apart [OF inv _ _ that(3), of a ar'] that(1,2) old by (auto simp: simps group_size_def)
  qed
  show "\<not> (within a 4096 x \<or> (\<exists>b \<in> set bs. within b 8 x))" if c: "c \<noteq> a" "arenas ?h c = Some ar" "within c 12 x" for c ar x
    using apart [OF c(2,1) header_in_arena [OF inv' c(2,3)]] header_free_apart [OF inv' c(2) d', of _ x] c(3) unfolding bs by blast
  show "\<not> (within a 4096 x \<or> (\<exists>b \<in> set bs. within b 8 x))"
    if e: "e < length (descs ?h)" "e \<notin> {d}" "b \<in> set (free_list (descs ?h ! e))" "within b 8 x" for e b x
  proof -
    obtain c ar where c: "arenas ?h c = Some ar" "desc_of ar = Some e" "within c (4096 * unat (group_size ar)) x"
      using free_in_arena [OF inv' e(1,3,4)] by blast
    have "c \<noteq> a"
      using c(1,2) new e(2) by (auto simp: simps)
    then show ?thesis
      using apart [OF c(1) _ c(3)] free_apart [OF inv' e(1,3,4) d', of _] e(2) unfolding bs by blast
  qed
qed (use new links frame in \<open>auto simp: put_arena_simps(1-3) put_arena_simps(4) [OF d]\<close>, simp_all add: put_arena_def)

lemma put_arena_with_mem: "with_mem m (put_arena d bs a new pl h) = put_arena d bs a new (pl\<lparr>kmem := m\<rparr>) h"
  by (simp add: put_arena_def with_mem_def)

lemma put_arena_memory:
  assumes inv': "heap_inv (put_arena d bs a (Some ar) pl h)" and d: "d < length (descs h)"
  shows "in_space a 12" "mapped (kmem pl) a 12" "b \<in> set bs \<Longrightarrow> in_space b 8" "b \<in> set bs \<Longrightarrow> within b 8 x \<Longrightarrow> \<not> within a 12 x"
    "within a 12 x \<or> (\<exists>b \<in> set bs. within b 8 x) \<Longrightarrow> book (put_arena d bs a (Some ar) pl h) x" "distinct bs"
proof -
  let ?h = "put_arena d bs a (Some ar) pl h"
  have at: "arenas ?h a = Some ar" "free_list (descs ?h ! d) = bs" "d < length (descs ?h)"
    using d by (simp_all add: put_arena_simps)
  have "0 < unat (group_size ar)"
    using arena_page(2) [OF inv' at(1)] by (simp add: unat_gt_0)
  then have "12 \<le> 4096 * unat (group_size ar)"
    by simp
  then show "in_space a 12" "mapped (kmem pl) a 12"
    using arena_page(3,4) [OF inv' at(1)] in_space_le mapped_le by (auto simp: put_arena_simps)
  show "in_space b 8" if "b \<in> set bs"
    by (rule free_block [OF inv' at(3), of b]) (use that at(2) in auto)
  show "\<not> within a 12 x" if "b \<in> set bs" "within b 8 x"
    using header_free_apart [OF inv' at(1,3) _ that(2)] that(1) at(2) by simp
  show "book ?h x" if "within a 12 x \<or> (\<exists>b \<in> set bs. within b 8 x)"
    unfolding book_def using that at by metis
  show "distinct bs"
    using inv' at by (auto simp: heap_inv_def)
qed

lemma written_arena:
  assumes inv: "heap_inv h" and inv': "heap_inv (put_arena d bs a (Some ar) pl h)" and d: "d < length (descs h)" "desc_of ar = Some d"
    and old: "\<forall>ar. arenas h a = Some ar \<longrightarrow> desc_of ar = Some d" and kept: "kept_in (kmem pl) h"
    and m: "\<forall>a n. mapped m a n = mapped m1 a n" "\<forall>a n. mapped m1 a n = mapped (kmem pl) a n" "bytes_at m a (header h ar)"
      "linked m (desc_ptr h d + 8) bs (desc_ptr h d + 16)" "\<forall>x. within a 12 x \<or> (\<exists>b \<in> set bs. within b 8 x) \<or> m x = kmem pl x"
  shows "heap_inv (with_mem m (put_arena d bs a (Some ar) pl h))" "kept_in m (put_arena d bs a (Some ar) pl h)"
    "\<forall>x. book (put_arena d bs a (Some ar) pl h) x \<or> m x = kmem pl x"
proof -
  let ?h = "put_arena d bs a (Some ar) pl h"
  show "heap_inv (with_mem m ?h)"
    using m(1,2) by (intro with_mem_inv [OF inv']) (simp add: put_arena_simps)
  have "within a 4096 x" if "within a 12 x" for x
    using that by (auto simp: within_def)
  then show "kept_in m ?h"
    using m(5) by (intro put_arena_kept [OF inv inv' d(1) kept old]) (use m d(2) in blast)+
  show "\<forall>x. book ?h x \<or> m x = kmem pl x"
    using m(5) put_arena_memory(5) [OF inv' d(1)] by blast
qed

lemma same_addr:
  "descs_addr h' = descs_addr h \<Longrightarrow> desc_ptr h' = desc_ptr h" "descs_addr h' = descs_addr h \<Longrightarrow> header h' = header h"
  by (auto simp: desc_ptr_def header_def fun_eq_iff cong: option.case_cong)

lemma write_links_header:
  assumes inv: "heap_inv h" and inv': "heap_inv (put_arena d bs a (Some ar) pl h)" and d: "d < length (descs h)" "desc_of ar = Some d"
    and old: "\<forall>ar. arenas h a = Some ar \<longrightarrow> desc_of ar = Some d" and kept: "kept_in (kmem pl) h"
  obtains m h1 where "set_free_list d bs (h\<lparr>pal := pl\<rparr>) = Some h1" "arenas h1 = arenas h" "descs h1 = descs (put_arena d bs a (Some ar) pl h)"
    "set_header a ar h1 = Some (with_mem m (put_arena d bs a (Some ar) pl h))" "heap_inv (with_mem m (put_arena d bs a (Some ar) pl h))"
    "kept_in m (put_arena d bs a (Some ar) pl h)" "\<forall>x. book (put_arena d bs a (Some ar) pl h) x \<or> m x = kmem pl x"
proof -
  note mem = put_arena_memory [OF inv' d(1)]
  obtain m1 where m1: "set_free_list d bs (h\<lparr>pal := pl\<rparr>) = Some (with_mem m1 (h\<lparr>pal := pl\<rparr>)\<lparr>descs := (descs h)[d := (descs h ! d)\<lparr>free_list := bs\<rparr>]\<rparr>)"
      "\<forall>a n. mapped m1 a n = mapped (kmem pl) a n" "linked m1 (desc_ptr h d + 8) bs (desc_ptr h d + 16)"
      "\<forall>x. (\<exists>b \<in> set bs. within b 8 x) \<or> m1 x = kmem pl x"
    using set_free_list_ok [OF inv', of d bs "h\<lparr>pal := pl\<rparr>"] mem(6) same_addr(1) [of "h\<lparr>pal := pl\<rparr>" h] d(1) by (auto simp: put_arena_simps)
  let ?h1 = "with_mem m1 (h\<lparr>pal := pl\<rparr>)\<lparr>descs := (descs h)[d := (descs h ! d)\<lparr>free_list := bs\<rparr>]\<rparr>"
  have same: "header ?h1 = header h" "kmem (pal ?h1) = m1"
    by (rule same_addr(2) [of _ h]) simp_all
  obtain m where m: "set_header a ar ?h1 = Some (with_mem m ?h1\<lparr>arenas := (arenas ?h1)(a \<mapsto> ar)\<rparr>)" "\<forall>a n. mapped m a n = mapped m1 a n"
      "bytes_at m a (header h ar)" "\<forall>x. within a 12 x \<or> m x = m1 x"
    using set_header_ok [of a ?h1 ar] mem(1,2) m1(2) unfolding same by auto
  have l: "linked m (desc_ptr h d + 8) bs (desc_ptr h d + 16)"
    using m(4) mem(3,4) by (intro linked_frame [OF m1(3)]) blast+
  have "\<forall>x. within a 12 x \<or> (\<exists>b \<in> set bs. within b 8 x) \<or> m x = kmem pl x"
    using m1(4) m(4) by metis
  note w = written_arena [OF inv inv' d old kept m(2) m1(2) m(3) l this]
  have "set_header a ar ?h1 = Some (with_mem m (put_arena d bs a (Some ar) pl h))"
    unfolding m(1) by (simp add: put_arena_def with_mem_def)
  then show thesis
    using that [OF m1(1) _ _ _ w] by (simp add: put_arena_def)
qed

lemma write_header_links:
  assumes inv: "heap_inv h" and inv': "heap_inv (put_arena d bs a (Some ar) pl h)" and d: "d < length (descs h)" "desc_of ar = Some d"
    and old: "\<forall>ar. arenas h a = Some ar \<longrightarrow> desc_of ar = Some d" and kept: "kept_in (kmem pl) h"
  obtains m h1 where "set_header a ar (h\<lparr>pal := pl\<rparr>) = Some h1" "arenas h1 = (arenas h)(a \<mapsto> ar)" "descs h1 = descs h"
    "set_free_list d bs h1 = Some (with_mem m (put_arena d bs a (Some ar) pl h))" "heap_inv (with_mem m (put_arena d bs a (Some ar) pl h))"
    "kept_in m (put_arena d bs a (Some ar) pl h)" "\<forall>x. book (put_arena d bs a (Some ar) pl h) x \<or> m x = kmem pl x"
proof -
  note mem = put_arena_memory [OF inv' d(1)]
  obtain m1 where m1: "set_header a ar (h\<lparr>pal := pl\<rparr>) = Some (with_mem m1 (h\<lparr>pal := pl\<rparr>)\<lparr>arenas := (arenas h)(a \<mapsto> ar)\<rparr>)"
      "\<forall>a n. mapped m1 a n = mapped (kmem pl) a n" "bytes_at m1 a (header h ar)" "\<forall>x. within a 12 x \<or> m1 x = kmem pl x"
    using set_header_ok [of a "h\<lparr>pal := pl\<rparr>" ar] mem(1,2) same_addr(2) [of "h\<lparr>pal := pl\<rparr>" h] by auto
  let ?h1 = "with_mem m1 (h\<lparr>pal := pl\<rparr>)\<lparr>arenas := (arenas h)(a \<mapsto> ar)\<rparr>"
  have same: "desc_ptr ?h1 = desc_ptr h" "kmem (pal ?h1) = m1"
    by (rule same_addr(1) [of _ h]) simp_all
  obtain m where m: "set_free_list d bs ?h1 = Some (with_mem m ?h1\<lparr>descs := (descs ?h1)[d := (descs ?h1 ! d)\<lparr>free_list := bs\<rparr>]\<rparr>)"
      "\<forall>a n. mapped m a n = mapped m1 a n" "linked m (desc_ptr h d + 8) bs (desc_ptr h d + 16)" "\<forall>x. (\<exists>b \<in> set bs. within b 8 x) \<or> m x = m1 x"
    using set_free_list_ok [OF inv', of d bs ?h1] mem(6) m1(2) d(1) unfolding same by (auto simp: put_arena_simps)
  have b: "bytes_at m a (header h ar)"
    using m(4) mem(1,4) by (intro bytes_at_outside [OF m1(3)]) auto
  have "\<forall>x. within a 12 x \<or> (\<exists>b \<in> set bs. within b 8 x) \<or> m x = kmem pl x"
    using m1(4) m(4) by metis
  note w = written_arena [OF inv inv' d old kept m(2) m1(2) b m(3) this]
  have "set_free_list d bs ?h1 = Some (with_mem m (put_arena d bs a (Some ar) pl h))"
    unfolding m(1) by (simp add: put_arena_def with_mem_def)
  then show thesis
    using that [OF m1(1) _ _ _ w] by simp
qed

lemma block_to_arena_at:
  assumes "page_ok a" "arenas h a = Some ar" "desc_of ar = Some d" "d < length (descs h)" "good_desc (descs h ! d)" "b \<in> blocks a (descs h ! d)"
  shows "block_to_arena h b = Some (a, ar)" "b \<noteq> NULL"
proof -
  obtain i where i: "i < unat (blocks_per_arena (descs h ! d))" "b = blk a (block_size (descs h ! d)) i"
    using assms(6) by (auto simp: blocks_def)
  note ok = blk_ok [OF assms(1,5) i(1), folded i(2)]
  show "block_to_arena h b = Some (a, ar)" "b \<noteq> NULL"
    using assms(1-4) ok by (simp_all add: block_to_arena_def get_desc_def page_ok_def)
qed

lemma block_to_arena_ok:
  assumes "heap_inv h" "arenas h a = Some ar" "desc_of ar = Some d" "b \<in> blocks a (descs h ! d)"
  shows "block_to_arena h b = Some (a, ar)" "b \<noteq> NULL"
  using block_to_arena_at [OF arena_page(1) [OF assms(1,2)] assms(2,3) arena_desc [OF assms(1-3)] good_desc [OF assms(1) arena_desc [OF assms(1-3)]] assms(4)]
  by auto

lemma card_free_in:
  assumes "page_ok a" "good_desc ds" "b \<in> blocks a ds" "b \<notin> set bs"
  shows "card (free_in a (ds\<lparr>free_list := b # bs\<rparr>)) = Suc (card (free_in a (ds\<lparr>free_list := bs\<rparr>)))"
proof -
  obtain i where i: "i < unat (blocks_per_arena ds)" "b = blk a (block_size ds) i"
    using assms(3) by (auto simp: blocks_def)
  have "free_in a (ds\<lparr>free_list := b # bs\<rparr>) = insert i (free_in a (ds\<lparr>free_list := bs\<rparr>))"
    using i blk_inj [OF assms(1,2) _ i(1)] by (auto simp: free_in_def)
  moreover have "i \<notin> free_in a (ds\<lparr>free_list := bs\<rparr>)"
    using i assms(4) by (simp add: free_in_def)
  ultimately show ?thesis
    by (simp add: free_in_def)
qed

lemma pop_block_ok:
  assumes inv: "heap_inv h" and d: "d < length (descs h)" and list: "free_list (descs h ! d) = b # bs" and kept: "kept_in (kmem (pal h)) h"
  obtains a ar m where "arenas h a = Some ar" "desc_of ar = Some d" "b \<in> blocks a (descs h ! d)"
    "pop_block d h = Some (b, with_mem m (put_arena d bs a (Some (ar\<lparr>free_cnt := free_cnt ar - 1\<rparr>)) (pal h) h))"
    "heap_inv (with_mem m (put_arena d bs a (Some (ar\<lparr>free_cnt := free_cnt ar - 1\<rparr>)) (pal h) h))"
    "kept_in m (put_arena d bs a (Some (ar\<lparr>free_cnt := free_cnt ar - 1\<rparr>)) (pal h) h)"
    "\<forall>x. book (put_arena d bs a (Some (ar\<lparr>free_cnt := free_cnt ar - 1\<rparr>)) (pal h) h) x \<or> m x = kmem (pal h) x"
    "live (put_arena d bs a (Some (ar\<lparr>free_cnt := free_cnt ar - 1\<rparr>)) (pal h) h) = insert (b, unat (block_size (descs h ! d))) (live h)"
    "\<forall>n. (b, n) \<notin> live h" "free_cnt ar - 1 < blocks_per_arena (descs h ! d)"
proof -
  let ?ds = "descs h ! d"
  have dist: "distinct (b # bs)"
    using inv d list by (auto simp: heap_inv_def)
  obtain a ar where a: "arenas h a = Some ar" "desc_of ar = Some d" "b \<in> blocks a ?ds" "unat (free_cnt ar) = card (free_in a ?ds)"
    using inv d list unfolding heap_inv_def by (metis list.set_intros(1))
  let ?ar = "ar\<lparr>free_cnt := free_cnt ar - 1\<rparr>"
  note page = arena_page(1) [OF inv a(1)] and good = good_desc [OF inv d]
  have ds: "?ds\<lparr>free_list := b # bs\<rparr> = ?ds"
    using list by simp
  have card: "card (free_in a ?ds) = Suc (card (free_in a (?ds\<lparr>free_list := bs\<rparr>)))"
    using card_free_in [OF page good a(3), of bs] dist unfolding ds by simp
  then have cnt: "unat (free_cnt ar - 1) = card (free_in a (?ds\<lparr>free_list := bs\<rparr>))"
    using a(4) by (simp add: unat_sub_if')
  have "groups (put_arena d bs a (Some ?ar) (pal h) h) = groups h"
    using a(1,2) by (auto simp: groups_def put_arena_def group_size_def)
  then have change: "arena_change h d a bs (Some ?ar) (pal h)"
    using inv d page a dist cnt list unfolding arena_change_def by (auto simp: heap_inv_def)
  have desc: "\<forall>ar. arenas h a = Some ar \<longrightarrow> desc_of ar = Some d" "desc_of ?ar = Some d" "h\<lparr>pal := pal h\<rparr> = h"
    using a(1,2) by simp_all
  obtain m h1 where w: "set_free_list d bs h = Some h1" "arenas h1 = arenas h" "descs h1 = descs (put_arena d bs a (Some ?ar) (pal h) h)"
      "set_header a ?ar h1 = Some (with_mem m (put_arena d bs a (Some ?ar) (pal h) h))"
      "heap_inv (with_mem m (put_arena d bs a (Some ?ar) (pal h) h))" "kept_in m (put_arena d bs a (Some ?ar) (pal h) h)"
      "\<forall>x. book (put_arena d bs a (Some ?ar) (pal h) h) x \<or> m x = kmem (pal h) x"
    using write_links_header [OF inv arena_change_inv [OF change] d desc(2,1) kept] unfolding desc(3) by metis
  have "block_to_arena h1 b = Some (a, ar)"
    using a d good page w(2,3) by (intro block_to_arena_at) (auto simp: put_arena_simps good_desc_def blocks_def)
  then have "pop_block d h = Some (b, with_mem m (put_arena d bs a (Some ?ar) (pal h) h))"
    using d list w(1,4) by (simp add: pop_block_def get_desc_def)
  moreover have live: "live h = {x \<in> live h. fst x \<notin> blocks a ?ds} \<union> (blocks a ?ds - set (b # bs)) \<times> {unat (block_size ?ds)}"
    using live_arena [OF inv a(1,2)] list by simp
  then have "live (put_arena d bs a (Some ?ar) (pal h) h) = insert (b, unat (block_size ?ds)) (live h)"
    using arena_change_live [OF change] a(3) dist by (simp, blast)
  moreover have "\<forall>n. (b, n) \<notin> live h"
    using equalityD1 [OF live, THEN subsetD] a(3) by fastforce
  moreover have "unat (free_cnt ar - 1) < unat (blocks_per_arena ?ds)"
    using cnt card card_free_in_le [of a ?ds] by simp
  ultimately show thesis
    using that [OF a(1-3)] w(5-7) by (simp add: word_less_nat_alt)
qed

lemma arena_to_block_ok:
  assumes "arenas h a = Some ar" "desc_of ar = Some d" "d < length (descs h)" "a \<noteq> NULL" "i < unat (blocks_per_arena (descs h ! d))"
  shows "arena_to_block h a (of_nat i) = Some (blk a (block_size (descs h ! d)) i)"
proof -
  have "unat (of_nat i :: size_t) = i"
    using assms(5) unat_32_less [of "blocks_per_arena (descs h ! d)"] by (simp add: unat_of_nat)
  then show ?thesis
    using assms by (simp add: arena_to_block_def get_desc_def blk_def word_less_nat_alt)
qed

lemma push_blocks:
  assumes "arenas h a = Some ar" "desc_of ar = Some d" "d < length (descs h)" "page_ok a" "good_desc (descs h ! d)"
  shows "for_loop (unat (blocks_per_arena (descs h ! d))) (\<lambda>i bs. do { b \<leftarrow> arena_to_block h a (of_nat i); free_push_back b bs }) []
    = Some (map (blk a (block_size (descs h ! d))) [0..<unat (blocks_per_arena (descs h ! d))])"
proof -
  let ?ds = "descs h ! d" and ?b = "blk a (block_size (descs h ! d))"
  have "\<exists>s'. for_loop (unat (blocks_per_arena ?ds)) (\<lambda>i bs. do { b \<leftarrow> arena_to_block h a (of_nat i); free_push_back b bs }) [] = Some s'
      \<and> s' = map ?b [0..<unat (blocks_per_arena ?ds)]"
  proof (rule for_loop_invariant)
    show "\<exists>s'. (do { b \<leftarrow> arena_to_block h a (of_nat i); free_push_back b s }) = Some s' \<and> s' = map ?b [0..<Suc i]"
      if "i < unat (blocks_per_arena ?ds)" "s = map ?b [0..<i]" for i s
      using that arena_to_block_ok [OF assms(1-3)] assms(4) blk_inj [OF assms(4,5)] by (auto simp: free_push_back_def page_ok_def)
  qed simp
  then show ?thesis
    by simp
qed

lemma new_arena_ok:
  assumes inv: "heap_inv h" and d: "d < length (descs h)" and list: "free_list (descs h ! d) = []" and kept: "kept_in (kmem (pal h)) h"
  obtains (full) "new_arena d h = Some (False, h)" "palloc_get_multiple 0 1 (pal h) = Some (NULL, pal h)"
  | (arena) a bs ar pl m where "new_arena d h = Some (True, with_mem m (put_arena d bs a (Some ar) pl h))"
      "arenas h a = None" "heap_inv (with_mem m (put_arena d bs a (Some ar) pl h))" "live (put_arena d bs a (Some ar) pl h) = live h"
      "bs \<noteq> []" "set bs = blocks a (descs h ! d)" "kept_in m (put_arena d bs a (Some ar) pl h)" "desc_of ar = Some d"
      "\<forall>x. book (put_arena d bs a (Some ar) pl h) x \<or> m x = kmem (pal h) x"
proof -
  let ?ds = "descs h ! d"
  have own: "kernel_pages.owns (pal h) (groups h)" and ok: "palloc_ok (pal h)"
    using inv by (simp_all add: heap_inv_def kernel_pages.owns_def)
  obtain a pl where get: "palloc_get_multiple 0 1 (pal h) = Some (a, pl)" "kmem pl = kmem (pal h)"
    using kernel_pages.get_total [OF ok] by blast
  show thesis
  proof (cases "a = NULL")
    case True
    then have "pl = pal h"
      using kernel_pages.get_null [OF ok] get(1) by simp
    then show thesis
      using full get(1) True by (simp add: new_arena_def palloc_get_page_def)
  next
    case False
    define ar where "ar = \<lparr>desc_of = Some d, free_cnt = blocks_per_arena ?ds\<rparr>"
    define bs where "bs = map (blk a (block_size ?ds)) [0..<unat (blocks_per_arena ?ds)]"
    have own': "kernel_pages.owns pl ((groups h)(a \<mapsto> 1))" and none: "arenas h a = None"
      using kernel_pages.owns_get [OF own get(1) False] by (simp_all add: groups_def)
    have page: "page_ok a"
      using kernel_pages.owns_page [OF own', of a 1] by (simp add: page_ok_def)
    note good = good_desc [OF inv d]
    have set: "set bs = blocks a ?ds"
      by (auto simp: bs_def blocks_def)
    have dist: "distinct bs"
      using blk_inj [OF page good] by (auto simp: bs_def distinct_map inj_on_def)
    have "groups (put_arena d bs a (Some ar) pl h) = (groups h)(a \<mapsto> 1)"
      by (auto simp: groups_def put_arena_def group_size_def ar_def)
    moreover have "free_in a (?ds\<lparr>free_list := bs\<rparr>) = {..<unat (blocks_per_arena ?ds)}"
      by (auto simp: free_in_def bs_def)
    ultimately have change: "arena_change h d a bs (Some ar) pl"
      using inv d page none dist own' list set by (auto simp: arena_change_def ar_def)
    have desc: "\<forall>ar. arenas h a = Some ar \<longrightarrow> desc_of ar = Some d" "desc_of ar = Some d" "kept_in (kmem pl) h"
      using none kept get(2) by (simp_all add: ar_def)
    obtain m h1 where w: "set_header a ar (h\<lparr>pal := pl\<rparr>) = Some h1" "arenas h1 = (arenas h)(a \<mapsto> ar)" "descs h1 = descs h"
        "set_free_list d bs h1 = Some (with_mem m (put_arena d bs a (Some ar) pl h))" "heap_inv (with_mem m (put_arena d bs a (Some ar) pl h))"
        "kept_in m (put_arena d bs a (Some ar) pl h)" "\<forall>x. book (put_arena d bs a (Some ar) pl h) x \<or> m x = kmem (pal h) x"
      using write_header_links [OF inv arena_change_inv [OF change] d desc(2,1,3)] get(2) by metis
    have "for_loop (unat (blocks_per_arena ?ds)) (\<lambda>i bs. do { b \<leftarrow> arena_to_block h1 a (of_nat i); free_push_back b bs }) [] = Some bs"
      using push_blocks [of h1 a ar d] w(2,3) d desc(2) page good by (simp add: bs_def)
    then have "new_arena d h = Some (True, with_mem m (put_arena d bs a (Some ar) pl h))"
      using get(1) False d list w(1,4) by (simp add: new_arena_def palloc_get_page_def get_desc_def ar_def)
    moreover have "bs \<noteq> []"
      using good by (auto simp: bs_def good_desc_def)
    moreover have "fst x \<notin> blocks a ?ds" if "x \<in> live h" for x
      using no_live_page [OF inv none that] blocks_page [OF page good] by blast
    then have "live (put_arena d bs a (Some ar) pl h) = live h"
      using arena_change_live [OF change] set by auto
    ultimately show thesis
      using arena [of m bs a ar pl] none set desc(2) w(5-7) by simp
  qed
qed

text \<open>Big blocks.\<close>

definition put_big :: "ptr \<Rightarrow> arena option \<Rightarrow> palloc \<Rightarrow> heap \<Rightarrow> heap" where
  "put_big a new pl h = h\<lparr>pal := pl, arenas := (arenas h)(a := new)\<rparr>"

lemma put_big_inv:
  assumes "heap_inv h" "\<forall>ar. arenas h a = Some ar \<longrightarrow> desc_of ar = None" "\<forall>ar. new = Some ar \<longrightarrow> desc_of ar = None"
    and "kernel_pages.owns pl (groups (put_big a new pl h))"
  shows "heap_inv (put_big a new pl h)"
proof -
  have "((arenas h)(a := new)) c = Some ar \<and> desc_of ar = Some d \<longleftrightarrow> arenas h c = Some ar \<and> desc_of ar = Some d" for c ar d
    using assms(2,3) by auto
  then show ?thesis
    using assms(1,4) by (simp add: heap_inv_def put_big_def) (metis (no_types, lifting))
qed

lemma put_big_live:
  assumes "heap_inv h"
  shows "live (put_big a new pl h) = {x \<in> live h. pg_round_down (fst x) \<noteq> a}
    \<union> (case new of None \<Rightarrow> {} | Some ar \<Rightarrow> {(b, n). live_at (put_big a new pl h) a b n})"
proof -
  have "live_at (put_big a new pl h) c b n \<longleftrightarrow> live_at h c b n" if "c \<noteq> a" for c b n
    using that by (simp add: live_at_def put_big_def cong: option.case_cong)
  moreover have "\<not> live_at (put_big a None pl h) a b n" for b n
    by (simp add: live_at_def put_big_def)
  moreover have "(b, n) \<in> live h \<and> pg_round_down b \<noteq> a \<longleftrightarrow> (\<exists>c. c \<noteq> a \<and> live_at h c b n)" for b n
    using live_at_page [OF assms] unfolding live_def by blast
  ultimately show ?thesis
    unfolding live_def [of "put_big a new pl h"] by (cases new) (auto simp: set_eq_iff, metis+)
qed

lemma put_big_kept:
  assumes inv: "heap_inv h" and inv': "heap_inv (put_big a new pl h)" and kept: "kept_in m h"
    and old: "\<forall>ar. arenas h a = Some ar \<longrightarrow> desc_of ar = None" and new: "\<forall>ar. new = Some ar \<longrightarrow> desc_of ar = None \<and> bytes_at m' a (header h ar)"
    and big: "new = Some ar \<or> new = None \<and> arenas h a = Some ar"
    and frame: "\<forall>x. within a (4096 * unat (group_size ar)) x \<or> m' x = m x"
  shows "kept_in m' (put_big a new pl h)"
proof (rule kept_in_step [OF kept inv', where a = a and D = "{}" and P = "within a (4096 * unat (group_size ar))"])
  let ?h = "put_big a new pl h"
  have apart: "\<not> within a (4096 * unat (group_size ar)) x" if "arenas ?h c = Some ar'" "c \<noteq> a" "within c (4096 * unat (group_size ar')) x" for c ar' x
  proof (cases "new = None")
    case True
    then show ?thesis
      using arenas_apart [OF inv _ _ that(3), of a ar] that(1,2) big by (auto simp: put_big_def)
  next
    case False
    then show ?thesis
      using arenas_apart [OF inv' that(1) _ that(3), of a ar] that(2) big by (auto simp: put_big_def)
  qed
  show "\<not> within a (4096 * unat (group_size ar)) x" if "c \<noteq> a" "arenas ?h c = Some ar'" "within c 12 x" for c ar' x
    using apart [OF that(2,1) header_in_arena [OF inv' that(2,3)]] .
  show "\<not> within a (4096 * unat (group_size ar)) x"
    if e: "e < length (descs ?h)" "b \<in> set (free_list (descs ?h ! e))" "within b 8 x" for e b x
  proof -
    obtain c ar' where c: "arenas ?h c = Some ar'" "desc_of ar' = Some e" "within c (4096 * unat (group_size ar')) x"
      using free_in_arena [OF inv' e] by blast
    have "c \<noteq> a"
      using c(1,2) new by (auto simp: put_big_def)
    then show ?thesis
      using apart [OF c(1) _ c(3)] by blast
  qed
qed (use new frame in \<open>auto simp: put_big_def\<close>)

lemma malloc_big_pages:
  assumes "unat sz + 4107 < 2 ^ 32"
  shows "unat (DIV_ROUND_UP (sz + sizeof_arena) PGSIZE) = (unat sz + 4107) div 4096"
    "unat sz \<le> 4096 * unat (DIV_ROUND_UP (sz + sizeof_arena) PGSIZE) - 12"
proof -
  have eq: "sz + sizeof_arena + PGSIZE - 1 = sz + of_nat 4107"
    by (simp add: sizeof_arena_def PGSIZE_def)
  show *: "unat (DIV_ROUND_UP (sz + sizeof_arena) PGSIZE) = (unat sz + 4107) div 4096"
    using unat_add_le [of sz 4107] assms unfolding DIV_ROUND_UP_def eq by (simp add: unat_div PGSIZE_def)
  have "unat sz + 12 \<le> 4096 * ((unat sz + 4107) div 4096)"
    by linarith
  then show "unat sz \<le> 4096 * unat (DIV_ROUND_UP (sz + sizeof_arena) PGSIZE) - 12"
    unfolding * by simp
qed

lemma write_big:
  assumes inv: "heap_inv h" and none: "arenas h a = None" and inv': "heap_inv (put_big a (Some ar) pl h)" and big: "desc_of ar = None"
    and kept: "kept_in (kmem pl) h"
  obtains m where "set_header a ar (h\<lparr>pal := pl\<rparr>) = Some (with_mem m (put_big a (Some ar) pl h))" "heap_inv (with_mem m (put_big a (Some ar) pl h))"
    "kept_in m (put_big a (Some ar) pl h)" "\<forall>x. book (put_big a (Some ar) pl h) x \<or> m x = kmem pl x"
proof -
  let ?h = "put_big a (Some ar) pl h"
  have at: "arenas ?h a = Some ar" "pal ?h = pl"
    by (simp_all add: put_big_def)
  have "0 < unat (group_size ar)"
    using arena_page(2) [OF inv' at(1)] by (simp add: unat_gt_0)
  then have "12 \<le> 4096 * unat (group_size ar)"
    by simp
  then have mem: "in_space a 12" "mapped (kmem pl) a 12"
    using arena_page(3,4) [OF inv' at(1)] in_space_le mapped_le at(2) by auto
  obtain m where m: "set_header a ar (h\<lparr>pal := pl\<rparr>) = Some (with_mem m (h\<lparr>pal := pl\<rparr>)\<lparr>arenas := (arenas h)(a \<mapsto> ar)\<rparr>)"
      "\<forall>a n. mapped m a n = mapped (kmem pl) a n" "bytes_at m a (header h ar)" "\<forall>x. within a 12 x \<or> m x = kmem pl x"
    using set_header_ok [of a "h\<lparr>pal := pl\<rparr>" ar] mem same_addr(2) [of "h\<lparr>pal := pl\<rparr>" h] by auto
  have "kept_in m ?h"
    using m(3,4) none big header_in_arena [OF inv' at(1)] by (intro put_big_kept [OF inv inv' kept, of m ar]) auto
  moreover have "heap_inv (with_mem m ?h)"
    using m(2) at(2) by (intro with_mem_inv [OF inv']) simp
  moreover have "book ?h x" if "within a 12 x" for x
    using that at(1) by (auto simp: book_def)
  ultimately show thesis
    using that [of m] m(1,4) by (auto simp: put_big_def with_mem_def)
qed

lemma malloc_big_ok:
  assumes inv: "heap_inv h" and kept: "kept_in (kmem (pal h)) h"
  obtains (full) "malloc_big sz h = Some (NULL, h)" "palloc_get_multiple 0 (DIV_ROUND_UP (sz + sizeof_arena) PGSIZE) (pal h) = Some (NULL, pal h)"
  | (block) a ar pl m where "malloc_big sz h = Some (a + sizeof_arena, with_mem m (put_big a (Some ar) pl h))" "a + sizeof_arena \<noteq> NULL"
      "desc_of ar = None" "free_cnt ar = DIV_ROUND_UP (sz + sizeof_arena) PGSIZE" "heap_inv (with_mem m (put_big a (Some ar) pl h))"
      "live (put_big a (Some ar) pl h) = insert (a + sizeof_arena, 4096 * unat (free_cnt ar) - 12) (live h)"
      "\<forall>n. (a + sizeof_arena, n) \<notin> live h" "kept_in m (put_big a (Some ar) pl h)" "\<forall>x. book (put_big a (Some ar) pl h) x \<or> m x = kmem (pal h) x"
proof -
  let ?n = "DIV_ROUND_UP (sz + sizeof_arena) PGSIZE"
  have own: "kernel_pages.owns (pal h) (groups h)" and ok: "palloc_ok (pal h)"
    using inv by (simp_all add: heap_inv_def kernel_pages.owns_def)
  obtain a pl where get: "palloc_get_multiple 0 ?n (pal h) = Some (a, pl)" "kmem pl = kmem (pal h)"
    using kernel_pages.get_total [OF ok] by blast
  show thesis
  proof (cases "a = NULL")
    case True
    then have "pl = pal h"
      using kernel_pages.get_null [OF ok] get(1) by simp
    then show thesis
      using full get(1) True by (simp add: malloc_big_def)
  next
    case False
    define ar where "ar = \<lparr>desc_of = None, free_cnt = ?n\<rparr>"
    have own': "kernel_pages.owns pl ((groups h)(a \<mapsto> ?n))" and none: "arenas h a = None"
      using kernel_pages.owns_get [OF own get(1) False] by (simp_all add: groups_def)
    have "groups (put_big a (Some ar) pl h) = (groups h)(a \<mapsto> ?n)"
      by (auto simp: groups_def put_big_def group_size_def ar_def)
    then have inv': "heap_inv (put_big a (Some ar) pl h)"
      using put_big_inv [OF inv, of a "Some ar" pl] none own' by (simp add: ar_def)
    have at: "pg_round_down (fst x) \<noteq> a" if "x \<in> live h" for x
      using no_live_page [OF inv none that] .
    have "live (put_big a (Some ar) pl h) = insert (a + sizeof_arena, 4096 * unat (free_cnt ar) - 12) (live h)"
      unfolding put_big_live [OF inv] using at by (auto simp: live_at_def put_big_def ar_def)
    moreover have page: "page_ok a"
      using arena_page(1) [OF inv', of a ar] by (simp add: put_big_def)
    then have "pg_round_down (a + sizeof_arena) = a" "a + sizeof_arena \<noteq> NULL"
      using offset_page(1) [OF page, of 12] unat_offset_page [OF page, of 12] by (auto simp: sizeof_arena_def)
    moreover from this(1) have "\<forall>n. (a + sizeof_arena, n) \<notin> live h"
      using at by fastforce
    moreover obtain m where m: "set_header a ar (h\<lparr>pal := pl\<rparr>) = Some (with_mem m (put_big a (Some ar) pl h))"
        "heap_inv (with_mem m (put_big a (Some ar) pl h))" "kept_in m (put_big a (Some ar) pl h)" "\<forall>x. book (put_big a (Some ar) pl h) x \<or> m x = kmem (pal h) x"
      using write_big [OF inv none inv'] kept get(2) by (auto simp: ar_def)
    then have "malloc_big sz h = Some (a + sizeof_arena, with_mem m (put_big a (Some ar) pl h))"
      using get(1) False by (simp add: malloc_big_def ar_def)
    ultimately show thesis
      using block [of a m ar pl] m(2-4) by (simp add: ar_def)
  qed
qed

lemma in_use_put:
  assumes "d < length (descs h)" "\<forall>c ar e. c \<noteq> a \<longrightarrow> arenas h c = Some ar \<longrightarrow> desc_of ar = Some e \<longrightarrow> free_cnt ar < blocks_per_arena (descs h ! e)"
    and "\<forall>ar. new = Some ar \<longrightarrow> desc_of ar = Some d \<and> free_cnt ar < blocks_per_arena (descs h ! d)"
  shows "in_use (put_arena d bs a new pl h)"
  using assms by (auto simp: in_use_def put_arena_simps)

text \<open>Memory that is written only where headers and links are keeps the live blocks.\<close>

lemma live_kept:
  assumes "heap_inv h'" "\<forall>x. book h' x \<or> m x = m0 x" "(q, k) \<in> live h'" "within q k x"
  shows "m x = m0 x"
  using assms live_book by blast

lemma pop_ok:
  assumes inv: "heap_inv h" and d: "d < length (descs h)" and list: "free_list (descs h ! d) = b # bs" and kept: "kept_in (kmem (pal h)) h"
    and used: "\<forall>c ar e. b \<notin> blocks c (descs h ! d) \<longrightarrow> arenas h c = Some ar \<longrightarrow> desc_of ar = Some e \<longrightarrow> free_cnt ar < blocks_per_arena (descs h ! e)"
  obtains h' where "pop_block d h = Some (b, h')" "heap_ok h'" "live h' = insert (b, unat (block_size (descs h ! d))) (live h)"
    "\<forall>n. (b, n) \<notin> live h" "\<forall>(q, k) \<in> live h. \<forall>x. within q k x \<longrightarrow> kmem (pal h') x = kmem (pal h) x" "b \<noteq> NULL"
proof (rule pop_block_ok [OF inv d list kept])
  fix a ar m
  let ?h = "put_arena d bs a (Some (ar\<lparr>free_cnt := free_cnt ar - 1\<rparr>)) (pal h) h"
  assume p: "arenas h a = Some ar" "desc_of ar = Some d" "b \<in> blocks a (descs h ! d)" "pop_block d h = Some (b, with_mem m ?h)"
    "heap_inv (with_mem m ?h)" "kept_in m ?h" "\<forall>x. book ?h x \<or> m x = kmem (pal h) x" "live ?h = insert (b, unat (block_size (descs h ! d))) (live h)"
    "\<forall>n. (b, n) \<notin> live h" "free_cnt ar - 1 < blocks_per_arena (descs h ! d)"
  have "b \<notin> blocks c (descs h ! d)" if "arenas h c = Some ar'" "c \<noteq> a" for c ar'
    using same_arena [OF inv that(1) d _ arena_page(1) [OF inv p(1)] good_desc [OF inv d] p(3)] that(2) by blast
  then have "\<forall>c ar e. c \<noteq> a \<longrightarrow> arenas h c = Some ar \<longrightarrow> desc_of ar = Some e \<longrightarrow> free_cnt ar < blocks_per_arena (descs h ! e)"
    using used by metis
  then have "in_use ?h"
    using in_use_put [OF d] p(2,10) by simp
  moreover have "m x = kmem (pal h) x" if "(q, k) \<in> live h" "within q k x" for q k x
    using live_kept [OF p(5), of m "kmem (pal h)" q k x] p(7,8) that by simp
  ultimately show thesis
    using that [of "with_mem m ?h"] p block_to_arena_ok(2) [OF inv p(1-3)] d by (auto simp: heap_ok_def)
qed

text \<open>Not enough pages for a request: the page allocator has no group of pages of the size needed,
  or of a smaller one.\<close>

definition no_pages :: "heap \<Rightarrow> size_t \<Rightarrow> bool" where
  "no_pages h sz \<longleftrightarrow> (\<exists>n. 0 < n \<and> unat n \<le> (unat sz + 4107) div 4096 \<and> palloc_get_multiple 0 n (pal h) = Some (NULL, pal h))"

lemma malloc_ok:
  assumes ok: "heap_ok h" and sz: "unat sz + 4107 < 2 ^ 32"
  obtains (full) "malloc sz h = Some (NULL, h)" "sz = 0 \<or> no_pages h sz"
  | (block) p n h' where "malloc sz h = Some (p, h')" "p \<noteq> NULL" "heap_ok h'" "unat sz \<le> n" "live h' = insert (p, n) (live h)"
      "\<forall>n. (p, n) \<notin> live h" "\<forall>(q, k) \<in> live h. \<forall>x. within q k x \<longrightarrow> kmem (pal h') x = kmem (pal h) x"
proof -
  have inv: "heap_inv h" and used: "in_use h" and kept: "kept_in (kmem (pal h)) h"
    using ok by (simp_all add: heap_ok_def)
  consider "sz = 0" | "sz \<noteq> 0" "find_desc (descs h) sz = None" | d where "sz \<noteq> 0" "find_desc (descs h) sz = Some d"
    by (cases "find_desc (descs h) sz") blast+
  then show thesis
  proof cases
    case 1
    then show thesis
      using full by (simp add: malloc_def)
  next
    case 2
    then have m: "malloc sz h = malloc_big sz h"
      by (simp add: malloc_def)
    show thesis
    proof (cases rule: malloc_big_ok [OF inv kept, of sz])
      case 1
      have "0 < unat (DIV_ROUND_UP (sz + sizeof_arena) PGSIZE)"
        unfolding malloc_big_pages(1) [OF sz] by simp
      then have "0 < DIV_ROUND_UP (sz + sizeof_arena) PGSIZE"
        by (simp add: word_less_nat_alt)
      then have "no_pages h sz"
        unfolding no_pages_def using 1(2) malloc_big_pages(1) [OF sz] by (intro exI [of _ "DIV_ROUND_UP (sz + sizeof_arena) PGSIZE"]) simp
      then show thesis
        using full m 1 by simp
    next
      case (2 a ar pl mem)
      have "in_use (put_big a (Some ar) pl h)"
        using used 2(3) by (auto simp: in_use_def put_big_def)
      moreover have "mem x = kmem (pal h) x" if "(q, k) \<in> live h" "within q k x" for q k x
        using live_kept [OF 2(5), of mem "kmem (pal h)" q k x] 2(6,9) that by simp
      ultimately show thesis
        using block [of "a + sizeof_arena" "with_mem mem (put_big a (Some ar) pl h)" "4096 * unat (free_cnt ar) - 12"] m 2 malloc_big_pages(2) [OF sz]
        by (auto simp: heap_ok_def)
    qed
  next
    case (3 d)
    have d: "d < length (descs h)" "unat sz \<le> unat (block_size (descs h ! d))"
      using find_desc_Some [OF 3(2)] by (simp_all add: word_le_nat_alt)
    have m: "malloc sz h = do { (ok, h) \<leftarrow> (if free_list (descs h ! d) = [] then new_arena d h else Some (True, h));
          if ok then pop_block d h else Some (NULL, h) }"
      using 3 d by (simp add: malloc_def get_desc_def)
    show thesis
    proof (cases "free_list (descs h ! d)")
      case Nil
      show thesis
      proof (cases rule: new_arena_ok [OF inv d(1) Nil kept])
        case 1
        then have "no_pages h sz"
          unfolding no_pages_def by (intro exI [of _ 1]) simp
        then show thesis
          using full m Nil 1 by simp
      next
        case (2 a bs ar pl mem)
        let ?h = "with_mem mem (put_arena d bs a (Some ar) pl h)"
        have ds: "descs ?h ! d = (descs h ! d)\<lparr>free_list := bs\<rparr>" "blocks c (descs ?h ! d) = blocks c (descs h ! d)" for c
          using d(1) by (auto simp: put_arena_simps blocks_def)
        obtain b bs' where b: "bs = b # bs'"
          using 2(5) by (cases bs) auto
        then have "\<forall>c ar e. b \<notin> blocks c (descs ?h ! d) \<longrightarrow> arenas ?h c = Some ar \<longrightarrow> desc_of ar = Some e
            \<longrightarrow> free_cnt ar < blocks_per_arena (descs ?h ! e)"
          unfolding ds(2) using used 2(6) d(1) by (auto simp: in_use_def put_arena_simps)
        moreover have "d < length (descs ?h)" "free_list (descs ?h ! d) = b # bs'" "kept_in (kmem (pal ?h)) ?h"
          using d(1) b 2(7) by (simp_all add: put_arena_simps)
        ultimately obtain h' where h': "pop_block d ?h = Some (b, h')" "heap_ok h'" "live h' = insert (b, unat (block_size (descs ?h ! d))) (live ?h)"
            "\<forall>n. (b, n) \<notin> live ?h" "\<forall>(q, k) \<in> live ?h. \<forall>x. within q k x \<longrightarrow> kmem (pal h') x = kmem (pal ?h) x" "b \<noteq> NULL"
          using pop_ok [OF 2(3)] by blast
        moreover have "mem x = kmem (pal h) x" if "(q, k) \<in> live h" "within q k x" for q k x
          using live_kept [OF 2(3), of mem "kmem (pal h)" q k x] 2(4,9) that by simp
        ultimately have "\<forall>(q, k) \<in> live h. \<forall>x. within q k x \<longrightarrow> kmem (pal h') x = kmem (pal h) x"
          using 2(4) by fastforce
        then show thesis
          using block [of b h' "unat (block_size (descs h ! d))"] m Nil 2 d h' by (simp add: put_arena_simps)
      qed
    next
      case (Cons b bs)
      have "\<forall>c ar e. b \<notin> blocks c (descs h ! d) \<longrightarrow> arenas h c = Some ar \<longrightarrow> desc_of ar = Some e \<longrightarrow> free_cnt ar < blocks_per_arena (descs h ! e)"
        using used by (simp add: in_use_def)
      then obtain h' where "pop_block d h = Some (b, h')" "heap_ok h'" "live h' = insert (b, unat (block_size (descs h ! d))) (live h)"
          "\<forall>n. (b, n) \<notin> live h" "\<forall>(q, k) \<in> live h. \<forall>x. within q k x \<longrightarrow> kmem (pal h') x = kmem (pal h) x" "b \<noteq> NULL"
        using pop_ok [OF inv d(1) Cons kept] by blast
      then show thesis
        using block [of b h'] m Cons d(2) by simp
    qed
  qed
qed

subsection \<open>Freeing\<close>

lemma remove_blocks:
  assumes "arenas h a = Some ar" "desc_of ar = Some d" "d < length (descs h)" "page_ok a" "good_desc (descs h ! d)"
    and "distinct bs" "blocks a (descs h ! d) \<subseteq> set bs"
  shows "for_loop (unat (blocks_per_arena (descs h ! d))) (\<lambda>i bs. do { b \<leftarrow> arena_to_block h a (of_nat i); free_remove b bs }) bs
    = Some (filter (\<lambda>b. b \<notin> blocks a (descs h ! d)) bs)"
proof -
  let ?ds = "descs h ! d" and ?b = "blk a (block_size (descs h ! d))"
  have "\<exists>s'. for_loop (unat (blocks_per_arena ?ds)) (\<lambda>i bs. do { b \<leftarrow> arena_to_block h a (of_nat i); free_remove b bs }) bs = Some s'
      \<and> s' = filter (\<lambda>b. b \<notin> ?b ` {..<unat (blocks_per_arena ?ds)}) bs"
  proof (rule for_loop_invariant)
    fix i s
    assume i: "i < unat (blocks_per_arena ?ds)" "s = filter (\<lambda>b. b \<notin> ?b ` {..<i}) bs"
    have "?b i \<in> set s"
      using i assms(7) blk_inj [OF assms(4,5)] by (auto simp: blocks_def)
    moreover have "remove1 (?b i) s = filter (\<lambda>b. b \<notin> ?b ` {..<Suc i}) bs"
      using assms(6) i(2) by (auto simp: distinct_remove1_removeAll removeAll_filter_not_eq lessThan_Suc intro!: filter_cong)
    ultimately show "\<exists>s'. (do { b \<leftarrow> arena_to_block h a (of_nat i); free_remove b s }) = Some s' \<and> s' = filter (\<lambda>b. b \<notin> ?b ` {..<Suc i}) bs"
      using arena_to_block_ok [OF assms(1-3) _ i(1)] assms(4) by (simp add: free_remove_def page_ok_def)
  qed simp
  then show ?thesis
    by (simp add: blocks_def)
qed

lemma release_arena_ok:
  assumes inv: "heap_inv h" and a: "arenas h a = Some ar" "desc_of ar = Some d" and all: "blocks a (descs h ! d) \<subseteq> set (free_list (descs h ! d))"
    and kept: "kept_in (kmem (pal h)) h"
  obtains bs pl where "release_arena d a h = Some (put_arena d bs a None pl h)" "heap_inv (put_arena d bs a None pl h)"
    "live (put_arena d bs a None pl h) = live h" "kept_in (kmem pl) (put_arena d bs a None pl h)"
    "\<forall>x. within a 4096 x \<or> book h x \<or> kmem pl x = kmem (pal h) x"
proof -
  let ?ds = "descs h ! d"
  have d: "d < length (descs h)"
    using arena_desc [OF inv a] .
  note page = arena_page(1) [OF inv a(1)] and good = good_desc [OF inv d]
  define bs where "bs = filter (\<lambda>b. b \<notin> blocks a ?ds) (free_list ?ds)"
  have dist: "distinct (free_list ?ds)"
    using inv d by (simp add: heap_inv_def)
  have in_space: "in_space b 8 \<and> mapped (kmem (pal h)) b 8" "within b 8 x \<Longrightarrow> \<not> within a 4096 x" if "b \<in> set bs" for b x
    by (rule free_block [OF inv d, of b]; use that a arenas_apart [OF inv a(1)] in \<open>force simp: bs_def within_def group_size_def\<close>)+
  obtain m where m: "set_free_list d bs h = Some (with_mem m h\<lparr>descs := (descs h)[d := ?ds\<lparr>free_list := bs\<rparr>]\<rparr>)"
      "\<forall>a n. mapped m a n = mapped (kmem (pal h)) a n" "linked m (desc_ptr h d + 8) bs (desc_ptr h d + 16)"
      "\<forall>x. (\<exists>b \<in> set bs. within b 8 x) \<or> m x = kmem (pal h) x"
    using set_free_list_ok [OF inv d, of bs h] dist by (auto simp: bs_def)
  have own: "kernel_pages.owns ((pal h)\<lparr>kmem := m\<rparr>) (groups h)"
    using with_mem_inv [OF inv m(2)] by (simp add: heap_inv_def)
  obtain pl where pl: "palloc_free_multiple a 1 ((pal h)\<lparr>kmem := m\<rparr>) = Some pl" "kernel_pages.owns pl ((groups h)(a := None))"
      "\<forall>x. within a 4096 x \<or> kmem pl x = m x"
    using kernel_pages.owns_release [OF own, of a 1] a by (auto simp: groups_def group_size_def)
  have "groups (put_arena d bs a None pl h) = (groups h)(a := None)"
    by (auto simp: groups_def put_arena_simps)
  then have change: "arena_change h d a bs None pl"
    using inv d page a dist pl(2) by (auto simp: arena_change_def bs_def)
  have "release_arena d a h = Some (put_arena d bs a None pl h)"
    using remove_blocks [OF a d page good dist all] m(1) pl(1) d
    by (simp add: release_arena_def get_desc_def palloc_free_page_def put_arena_def bs_def with_mem_def)
  moreover have "live (put_arena d bs a None pl h) = live h"
    using arena_change_live [OF change] live_arena [OF inv a] all by auto
  moreover have "kept_in (kmem pl) (put_arena d bs a None pl h)"
  proof (rule put_arena_kept [OF inv arena_change_inv [OF change] d kept])
    show "linked (kmem pl) (desc_ptr h d + 8) bs (desc_ptr h d + 16)"
      using pl(3) in_space by (intro linked_frame [OF m(3)]) blast+
    show "\<forall>x. within a 4096 x \<or> (\<exists>b \<in> set bs. within b 8 x) \<or> kmem pl x = kmem (pal h) x"
      using pl(3) m(4) by metis
  qed (use a in auto)
  moreover have "book h x" if "b \<in> set bs" "within b 8 x" for b x
    using that d by (auto simp: book_def bs_def)
  then have "\<forall>x. within a 4096 x \<or> book h x \<or> kmem pl x = kmem (pal h) x"
    using pl(3) m(4) by metis
  ultimately show thesis
    using that arena_change_inv [OF change] by blast
qed

lemma owns_kmem:
  assumes "kernel_pages.owns pl g" "in_space p (length bs)" "mapped (kmem pl) p (length bs)"
  shows "kernel_pages.owns (pl\<lparr>kmem := write_bytes (kmem pl) p bs\<rparr>) g"
  using assms palloc_ok_write(1) [of pl p bs] by (simp add: kernel_pages.owns_def)

text \<open>Marking a block as free.\<close>

lemma push_free_ok:
  assumes inv: "heap_inv h" and a: "arenas h a = Some ar" "desc_of ar = Some d" and b: "b \<in> blocks a (descs h ! d)" "b \<notin> set (free_list (descs h ! d))"
    and own: "kernel_pages.owns pl (groups h)"
  defines "h1 \<equiv> put_arena d (b # free_list (descs h ! d)) a (Some (ar\<lparr>free_cnt := free_cnt ar + 1\<rparr>)) pl h"
  shows "heap_inv h1" "live h1 = live h - {(b, unat (block_size (descs h ! d)))}"
    "unat (free_cnt ar + 1) = card (free_in a (descs h1 ! d))"
proof -
  let ?ds = "descs h ! d" and ?bs = "b # free_list (descs h ! d)"
  have d: "d < length (descs h)"
    using arena_desc [OF inv a] .
  note page = arena_page(1) [OF inv a(1)] and good = good_desc [OF inv d]
  have dist: "distinct ?bs"
    using inv d b(2) by (simp add: heap_inv_def)
  have card: "card (free_in a (?ds\<lparr>free_list := ?bs\<rparr>)) = Suc (unat (free_cnt ar))"
    using card_free_in [OF page good b] inv a by (simp add: heap_inv_def)
  moreover have "card (free_in a (?ds\<lparr>free_list := ?bs\<rparr>)) \<le> 4096"
    using card_free_in_le [of a "?ds\<lparr>free_list := ?bs\<rparr>"] few_blocks [OF good] by simp
  ultimately have cnt: "unat (free_cnt ar + 1) = card (free_in a (?ds\<lparr>free_list := ?bs\<rparr>))"
    using unat_add_small [of "free_cnt ar" 1] by simp
  have "groups h1 = groups h"
    using a by (auto simp: h1_def groups_def put_arena_simps group_size_def)
  then have change: "arena_change h d a ?bs (Some (ar\<lparr>free_cnt := free_cnt ar + 1\<rparr>)) pl"
    using inv d page a dist cnt own b(1) unfolding h1_def by (auto simp: arena_change_def)
  show "heap_inv h1"
    unfolding h1_def by (rule arena_change_inv [OF change])
  show "live h1 = live h - {(b, unat (block_size ?ds))}"
    unfolding h1_def arena_change_live [OF change] by (subst (2) live_arena [OF inv a]) (use b in auto)
  show "unat (free_cnt ar + 1) = card (free_in a (descs h1 ! d))"
    using cnt d by (simp add: h1_def put_arena_simps)
qed

lemma live_memory:
  assumes "heap_inv h" "(b, n) \<in> live h"
  shows "b \<noteq> NULL" "in_space b n" "mapped (kmem (pal h)) b n"
proof -
  obtain a ar where a: "arenas h a = Some ar" "unat a + 12 \<le> unat b" "unat b + n \<le> unat a + 4096 * unat (group_size ar)"
    by (rule live_inside [OF assms]) blast
  note page = arena_page(3,4) [OF assms(1) a(1)]
  show "b \<noteq> NULL"
    using a(2) by auto
  show "in_space b n"
    using a(3) page(1) by (simp add: in_space_def)
  have "b = a + of_nat (unat b - unat a)"
    using a(2) by (simp add: of_nat_diff)
  then show "mapped (kmem (pal h)) b n"
    using mapped_drop [of "kmem (pal h)" a "unat b - unat a" n] mapped_le [OF page(2), of "unat b - unat a + n"] a(2,3) by simp
qed

text \<open>Memory outside one arena is not part of another arena's blocks.\<close>

lemma live_other_page:
  assumes "heap_inv h" "arenas h a = Some ar" "(b, n) \<in> live h" "pg_round_down b \<noteq> a" "within b n x"
  shows "\<not> within a (4096 * unat (group_size ar)) x"
proof -
  obtain c ar' where c: "arenas h c = Some ar'" "unat c + 12 \<le> unat b" "unat b + n \<le> unat c + 4096 * unat (group_size ar')" "pg_round_down b = c"
    by (rule live_inside [OF assms(1,3)]) blast
  have "within c (4096 * unat (group_size ar')) x"
    using assms(5) c(2,3) by (auto simp: within_def)
  then show ?thesis
    using kernel_pages.owns_apart [of "pal h" "groups h" c _ a] c assms(1,2,4) by (auto simp: heap_inv_def groups_def)
qed

lemma free_big_ok:
  assumes ok: "heap_ok h" and a: "arenas h a = Some ar" "desc_of ar = None"
  obtains h' where "free (a + sizeof_arena) h = Some h'" "heap_ok h'" "live h' = live h - {(a + sizeof_arena, 4096 * unat (free_cnt ar) - 12)}"
    "\<forall>(q, k) \<in> live h'. \<forall>x. within q k x \<longrightarrow> kmem (pal h') x = kmem (pal h) x"
proof -
  have inv: "heap_inv h" and kept: "kept_in (kmem (pal h)) h"
    using ok by (simp_all add: heap_ok_def)
  note page = arena_page(1) [OF inv a(1)]
  have off: "pg_round_down (a + sizeof_arena) = a" "pg_ofs (a + sizeof_arena) = sizeof_arena" "a + sizeof_arena \<noteq> NULL" "a \<noteq> NULL"
    using offset_page [OF page, of 12] unat_offset_page [OF page, of 12] page by (auto simp: sizeof_arena_def page_ok_def)
  obtain pl where pl: "palloc_free_multiple a (free_cnt ar) (pal h) = Some pl" "kernel_pages.owns pl ((groups h)(a := None))"
      "\<forall>x. within a (4096 * unat (free_cnt ar)) x \<or> kmem pl x = kmem (pal h) x"
    using kernel_pages.owns_release [of "pal h" "groups h" a "free_cnt ar"] inv a by (auto simp: heap_inv_def groups_def group_size_def)
  let ?h = "put_big a None pl h"
  have "groups ?h = (groups h)(a := None)"
    by (auto simp: groups_def put_big_def)
  then have inv': "heap_inv ?h"
    using put_big_inv [OF inv] a pl(2) by simp
  have at: "x = (a + sizeof_arena, 4096 * unat (free_cnt ar) - 12)" if "x \<in> live h" "pg_round_down (fst x) = a" for x
    using that a live_iff [OF inv, of "fst x" "snd x"] by (cases x) (simp add: live_at_def)
  have live: "live ?h = live h - {(a + sizeof_arena, 4096 * unat (free_cnt ar) - 12)}"
  proof -
    have "x \<in> live h \<and> pg_round_down (fst x) \<noteq> a \<longleftrightarrow> x \<in> live h \<and> x \<noteq> (a + sizeof_arena, 4096 * unat (free_cnt ar) - 12)" for x
      using at [of x] off(1) by (metis fst_conv)
    then show ?thesis
      unfolding put_big_live [OF inv] by auto
  qed
  have "kmem pl x = kmem (pal h) x" if "(q, k) \<in> live ?h" "within q k x" for q k x
  proof -
    have "(q, k) \<in> live h" "pg_round_down q \<noteq> a"
      using that(1) at [of "(q, k)"] unfolding live by auto
    then show ?thesis
      using live_other_page [OF inv a(1) _ _ that(2)] pl(3) a(2) by (auto simp: group_size_def)
  qed
  moreover have "free (a + sizeof_arena) h = Some ?h"
    using off a pl(1) by (simp add: free_def block_to_arena_def put_big_def)
  moreover have "in_use ?h"
    using ok by (auto simp: heap_ok_def in_use_def put_big_def)
  moreover have "kept_in (kmem pl) ?h"
    using a pl(3) by (intro put_big_kept [OF inv inv' kept, of _ ar]) (auto simp: group_size_def)
  ultimately show thesis
    using that [of ?h] inv' live by (auto simp: heap_ok_def put_big_def)
qed

lemma free_mark_ok:
  assumes ok: "heap_ok h" and a: "arenas h a = Some ar" "desc_of ar = Some d" and b: "b \<in> blocks a (descs h ! d)" "b \<notin> set (free_list (descs h ! d))"
  obtains m pl h1 where "h1 = with_mem m (put_arena d (b # free_list (descs h ! d)) a (Some (ar\<lparr>free_cnt := free_cnt ar + 1\<rparr>)) pl h)"
    "free b h = (if free_cnt ar + 1 \<ge> blocks_per_arena (descs h ! d) then do { ASSERT (free_cnt ar + 1 = blocks_per_arena (descs h ! d)); release_arena d a h1 }
      else Some h1)"
    "heap_inv h1" "kept_in m h1" "live h1 = live h - {(b, unat (block_size (descs h ! d)))}" "unat (free_cnt ar + 1) = card (free_in a (descs h1 ! d))"
    "\<forall>(q, k) \<in> live h1. \<forall>x. within q k x \<longrightarrow> m x = kmem (pal h) x"
proof -
  let ?ds = "descs h ! d" and ?ar = "ar\<lparr>free_cnt := free_cnt ar + 1\<rparr>"
  have inv: "heap_inv h" and kept: "kept_in (kmem (pal h)) h"
    using ok by (simp_all add: heap_ok_def)
  have d: "d < length (descs h)"
    using arena_desc [OF inv a] .
  have in_live: "(b, unat (block_size ?ds)) \<in> live h"
    unfolding live_def live_at_def using a b by force
  note mem = live_memory [OF inv in_live]
  define m0 where "m0 = write_bytes (kmem (pal h)) b (replicate (unat (block_size ?ds)) 0xcc)"
  have same0: "m0 x = kmem (pal h) x" if "\<not> within b (unat (block_size ?ds)) x" for x
    using that mem(2) write_outside [of b "replicate (unat (block_size ?ds)) 0xcc" x] by (simp add: m0_def)
  define pl where "pl = (pal h)\<lparr>kmem := m0\<rparr>"
  define h1 where "h1 = put_arena d (b # free_list ?ds) a (Some ?ar) pl h"
  have own: "kernel_pages.owns pl (groups h)"
    using inv mem owns_kmem [of "pal h" "groups h" b "replicate (unat (block_size ?ds)) 0xcc"] by (simp add: heap_inv_def pl_def m0_def)
  note push = push_free_ok [OF inv a b own, folded h1_def]
  have "kept_in m0 h"
    using same0 live_book [OF inv in_live] by (intro kept_in_frame [OF kept inv]) blast
  then have pre: "kept_in (kmem pl) h" "\<forall>ar. arenas h a = Some ar \<longrightarrow> desc_of ar = Some d" "desc_of ?ar = Some d" "h\<lparr>pal := pl\<rparr> = with_mem m0 h" "kmem pl = m0"
    using a by (simp_all add: pl_def with_mem_def)
  obtain m h2 where w: "set_free_list d (b # free_list ?ds) (with_mem m0 h) = Some h2" "set_header a ?ar h2 = Some (with_mem m h1)"
      "heap_inv (with_mem m h1)" "kept_in m h1" "\<forall>x. book h1 x \<or> m x = m0 x"
    using write_links_header [OF inv push(1) [unfolded h1_def] d pre(3,2,1), folded h1_def, unfolded pre(4,5)] by blast
  have "memset (kmem (pal h)) b 0xcc (block_size ?ds) = Some (b, m0)"
    using memset_ok [OF mem(3,1), of "0xcc"] by (simp add: m0_def)
  then have "free b h = (if free_cnt ar + 1 \<ge> blocks_per_arena ?ds then do { ASSERT (free_cnt ar + 1 = blocks_per_arena ?ds); release_arena d a (with_mem m h1) }
      else Some (with_mem m h1))"
    using block_to_arena_ok [OF inv a b(1)] a(2) d b(2) w(1,2) by (simp add: free_def get_desc_def free_push_front_def Let_def)
  moreover have "m x = kmem (pal h) x" if q: "(q, k) \<in> live h1" "within q k x" for q k x
  proof -
    have "m x = m0 x"
      using live_kept [OF w(3), of m m0 q k x] w(5) q by simp
    moreover have "\<not> within b (unat (block_size ?ds)) x"
      using q live_apart [OF inv _ in_live, of q k x] unfolding push(2) by auto
    ultimately show ?thesis
      using same0 by simp
  qed
  ultimately show thesis
    using that [of "with_mem m h1" m pl] w(3,4) push(2,3) unfolding h1_def by auto
qed

lemma free_small_ok:
  assumes ok: "heap_ok h" and a: "arenas h a = Some ar" "desc_of ar = Some d" and b: "b \<in> blocks a (descs h ! d)" "b \<notin> set (free_list (descs h ! d))"
  obtains h' where "free b h = Some h'" "heap_ok h'" "live h' = live h - {(b, unat (block_size (descs h ! d)))}"
    "\<forall>(q, k) \<in> live h'. \<forall>x. within q k x \<longrightarrow> kmem (pal h') x = kmem (pal h) x"
proof -
  let ?ds = "descs h ! d" and ?ar = "ar\<lparr>free_cnt := free_cnt ar + 1\<rparr>"
  have d: "d < length (descs h)"
    using arena_desc [OF _ a] ok by (simp add: heap_ok_def)
  obtain m pl h1 where h1: "h1 = with_mem m (put_arena d (b # free_list ?ds) a (Some ?ar) pl h)"
      "free b h = (if free_cnt ar + 1 \<ge> blocks_per_arena ?ds then do { ASSERT (free_cnt ar + 1 = blocks_per_arena ?ds); release_arena d a h1 } else Some h1)"
      "heap_inv h1" "kept_in m h1" "live h1 = live h - {(b, unat (block_size ?ds))}" "unat (free_cnt ar + 1) = card (free_in a (descs h1 ! d))"
      "\<forall>(q, k) \<in> live h1. \<forall>x. within q k x \<longrightarrow> m x = kmem (pal h) x"
    by (rule free_mark_ok [OF ok a b]) blast
  have at: "arenas h1 a = Some ?ar" "desc_of ?ar = Some d" "blocks_per_arena (descs h1 ! d) = blocks_per_arena ?ds" "kmem (pal h1) = m" "group_size ?ar = 1"
    using d a(2) by (simp_all add: h1(1) put_arena_simps group_size_def)
  have others: "\<forall>c ar e. c \<noteq> a \<longrightarrow> arenas h c = Some ar \<longrightarrow> desc_of ar = Some e \<longrightarrow> free_cnt ar < blocks_per_arena (descs h ! e)"
    using ok by (simp add: heap_ok_def in_use_def)
  show thesis
  proof (cases "free_cnt ar + 1 \<ge> blocks_per_arena ?ds")
    case False
    then have "in_use h1"
      unfolding h1(1) using in_use_put [OF d others] a(2) by simp
    then show thesis
      using that [of h1] False h1(2-7) at(4) by (auto simp: heap_ok_def)
  next
    case True
    then have le: "unat (blocks_per_arena (descs h1 ! d)) \<le> card (free_in a (descs h1 ! d))"
      using h1(6) at(3) by (simp add: word_le_nat_alt)
    then have "free_cnt ar + 1 = blocks_per_arena ?ds"
      using card_free_in_le [of a "descs h1 ! d"] h1(6) at(3) by (simp add: word_unat_eq_iff)
    moreover obtain bs pl' where r: "release_arena d a h1 = Some (put_arena d bs a None pl' h1)" "heap_inv (put_arena d bs a None pl' h1)"
        "live (put_arena d bs a None pl' h1) = live h1" "kept_in (kmem pl') (put_arena d bs a None pl' h1)"
        "\<forall>x. within a 4096 x \<or> book h1 x \<or> kmem pl' x = m x"
      using release_arena_ok [OF h1(3) at(1,2) free_in_all [OF le]] h1(4) at(4) by auto
    let ?h = "put_arena d bs a None pl' h1"
    have "in_use ?h"
      using d others by (intro in_use_put) (auto simp: h1(1) put_arena_simps)
    moreover have "kmem pl' x = kmem (pal h) x" if "(q, k) \<in> live ?h" "within q k x" for q k x
    proof -
      have "pg_round_down q \<noteq> a"
        using that(1) live_iff [OF r(2), of q k] by (auto simp: live_at_def put_arena_simps)
      then show ?thesis
        using live_other_page [OF h1(3) at(1) _ _ that(2)] live_book [OF h1(3) _ that(2)] that r(3,5) h1(7) at(5) by fastforce
    qed
    ultimately show thesis
      using that [of ?h] h1(2,5) True r by (auto simp: heap_ok_def put_arena_simps)
  qed
qed

lemma free_ok:
  assumes ok: "heap_ok h" and p: "(p, n) \<in> live h"
  obtains h' where "free p h = Some h'" "heap_ok h'" "live h' = live h - {(p, n)}"
    "\<forall>(q, k) \<in> live h'. \<forall>x. within q k x \<longrightarrow> kmem (pal h') x = kmem (pal h) x"
proof -
  obtain a ar where a: "arenas h a = Some ar" and c: "case desc_of ar of
       None \<Rightarrow> p = a + sizeof_arena \<and> n = 4096 * unat (free_cnt ar) - 12
     | Some d \<Rightarrow> p \<in> blocks a (descs h ! d) \<and> p \<notin> set (free_list (descs h ! d)) \<and> n = unat (block_size (descs h ! d))"
    using p by (auto simp: live_def live_at_def)
  show thesis
  proof (cases "desc_of ar")
    case None
    then show thesis
      using that c free_big_ok [OF ok a None] by auto
  next
    case (Some d)
    then show thesis
      using that c free_small_ok [OF ok a Some, of p] by auto
  qed
qed

subsection \<open>Contents of blocks\<close>

definition put_mem :: "ptr \<Rightarrow> bytes \<Rightarrow> heap \<Rightarrow> heap" where
  "put_mem p bs h = with_mem (write_bytes (kmem (pal h)) p bs) h"

lemma put_mem_ok:
  assumes ok: "heap_ok h" and p: "(p, n) \<in> live h" and len: "length bs \<le> n"
  shows "heap_ok (put_mem p bs h)" "live (put_mem p bs h) = live h" "bytes_at (kmem (pal (put_mem p bs h))) p bs"
    "(q, k) \<in> live h \<Longrightarrow> q \<noteq> p \<Longrightarrow> within q k x \<Longrightarrow> kmem (pal (put_mem p bs h)) x = kmem (pal h) x"
proof -
  have inv: "heap_inv h"
    using ok by (simp add: heap_ok_def)
  have mem: "in_space p (length bs)" "mapped (kmem (pal h)) p (length bs)"
    using live_memory [OF inv p] in_space_le [OF _ len] mapped_le [OF _ len] by auto
  have outside: "write_bytes (kmem (pal h)) p bs x = kmem (pal h) x" if "\<not> within p n x" for x
    using that len write_outside [OF mem(1), of x] by (auto simp: within_def)
  have kept: "kept_in (kmem (pal h)) h"
    using ok by (simp add: heap_ok_def)
  have "kept_in (write_bytes (kmem (pal h)) p bs) h"
    using outside live_book [OF inv p] by (intro kept_in_frame [OF kept inv]) blast
  then show "heap_ok (put_mem p bs h)"
    using ok with_mem_inv [OF inv] mapped_write [OF mem] by (simp add: heap_ok_def put_mem_def)
  show "live (put_mem p bs h) = live h"
    by (simp add: put_mem_def)
  show "bytes_at (kmem (pal (put_mem p bs h))) p bs"
    using bytes_at_write [OF mem(1)] by (simp add: put_mem_def)
  show "kmem (pal (put_mem p bs h)) x = kmem (pal h) x" if "(q, k) \<in> live h" "q \<noteq> p" "within q k x"
    using outside [of x] live_apart [OF inv that(1) p that(3)] that(2) by (auto simp: put_mem_def)
qed

lemma block_size_of_ok:
  assumes inv: "heap_inv h" and p: "(p, n) \<in> live h"
  shows "\<exists>w. block_size_of h p = Some w \<and> unat w = n"
proof -
  obtain a ar where a: "arenas h a = Some ar" and c: "case desc_of ar of
       None \<Rightarrow> p = a + sizeof_arena \<and> n = 4096 * unat (free_cnt ar) - 12
     | Some d \<Rightarrow> p \<in> blocks a (descs h ! d) \<and> p \<notin> set (free_list (descs h ! d)) \<and> n = unat (block_size (descs h ! d))"
    using p by (auto simp: live_def live_at_def)
  show ?thesis
  proof (cases "desc_of ar")
    case None
    note page = arena_page [OF inv a]
    have off: "pg_round_down p = a" "pg_ofs p = 12" "a \<noteq> NULL"
      using c None offset_page [OF page(1), of 12] page(1) by (auto simp: sizeof_arena_def page_ok_def)
    have cnt: "4096 * unat (free_cnt ar) < 2 ^ 32" "0 < unat (free_cnt ar)"
      using page(2,3) None by (auto simp: group_size_def in_space_def unat_gt_0)
    then have "unat (PGSIZE * free_cnt ar) = 4096 * unat (free_cnt ar)"
      by (simp add: PGSIZE_def unat_word_ariths)
    then have "unat (PGSIZE * free_cnt ar - 12) = n"
      using c None cnt by (simp add: unat_sub_if')
    then show ?thesis
      using a None off by (simp add: block_size_of_def block_to_arena_def sizeof_arena_def)
  next
    case (Some d)
    then show ?thesis
      using c block_to_arena_ok(1) [OF inv a Some] arena_desc [OF inv a Some] by (simp add: block_size_of_def get_desc_def)
  qed
qed

lemma apart_order:
  assumes "\<forall>x. \<not> (within p n x \<and> within q k x)" "0 < n" "0 < k"
  shows "unat p + n \<le> unat q \<or> unat q + k \<le> unat p"
  using assms(1) [rule_format, of p] assms(1) [rule_format, of q] assms(2,3) by (auto simp: within_def)

subsection \<open>Properties\<close>

lemma malloc_init_ok:
  assumes "palloc_ok pl"
  obtains h where "malloc_init addr pl = Some h" "heap_ok h" "live h = {}"
proof -
  let ?ds = "map (\<lambda>(bs, n). \<lparr>block_size = bs, blocks_per_arena = n, free_list = []\<rparr>) desc_table"
  let ?h = "\<lparr>pal = pl, descs = ?ds, arenas = \<lambda>_. None, descs_addr = addr\<rparr>"
  have "shape ?ds = desc_table"
    by (simp add: desc_table_def)
  moreover have "free_list (?ds ! d) = []" if "d < length desc_table" for d
    using that by (simp add: case_prod_beta)
  ultimately have "heap_ok ?h"
    using assms by (simp add: heap_ok_def heap_inv_def in_use_def kept_in_def kernel_pages.owns_def groups_def)
  then show thesis
    using that by (simp add: malloc_init_def malloc_init_loop_ok live_def live_at_def)
qed

definition sample_heap :: heap where
  "sample_heap = the (malloc_init 0xc0008000 sample_pools)"

lemma sample_heap_ok: "heap_ok sample_heap" "live sample_heap = {}" "pal sample_heap = sample_pools" "shape (descs sample_heap) = desc_table"
proof -
  obtain h where h: "malloc_init 0xc0008000 sample_pools = Some h" "heap_ok h" "live h = {}"
    by (rule malloc_init_ok [OF sample_pools_ok])
  then show "heap_ok sample_heap" "live sample_heap = {}" "pal sample_heap = sample_pools" "shape (descs sample_heap) = desc_table"
    by (auto simp: sample_heap_def malloc_init_def malloc_init_loop_ok desc_table_def)
qed

lemma sample_malloc:
  obtains h' where "malloc 5000 sample_heap = Some (0xc010200c, h')" "heap_ok h'" "live h' = {(0xc010200c, 8180)}"
proof -
  have "find_desc (descs sample_heap) 5000 = None"
    unfolding find_desc_None using sample_heap_ok(4) by (auto simp: desc_table_def)
  then have m: "malloc 5000 sample_heap = malloc_big 5000 sample_heap"
    by (simp add: malloc_def)
  obtain s' where get: "palloc_get_multiple 0 2 sample_pools = Some (0xc0102000, s')"
    using sample_get [of 0] by auto
  have n: "DIV_ROUND_UP (5000 + sizeof_arena) PGSIZE = 2"
    by (simp add: DIV_ROUND_UP_def PGSIZE_def sizeof_arena_def)
  have inv: "heap_inv sample_heap"
    using sample_heap_ok(1) by (simp add: heap_ok_def)
  have bound: "unat (5000 :: size_t) + 4107 < 2 ^ 32"
    by simp
  show thesis
  proof (cases rule: malloc_ok [OF sample_heap_ok(1) bound])
    case 1
    then show thesis
      using get unfolding m malloc_big_def Let_def n sample_heap_ok(3) by (auto simp: bind_eq_Some_conv sizeof_arena_def)
  next
    case (2 p k h')
    have "p = 0xc010200c" "arenas h' 0xc0102000 = Some \<lparr>desc_of = None, free_cnt = 2\<rparr>"
      using 2(1) get n sample_heap_ok(3) unfolding m malloc_big_def Let_def n sample_heap_ok(3)
      by (auto simp: set_header_def bind_eq_Some_conv sizeof_arena_def)
    moreover from this have "live_at h' 0xc0102000 0xc010200c 8180"
      by (simp add: live_at_def sizeof_arena_def)
    then have "(0xc010200c, 8180) \<in> live h'"
      by (auto simp: live_def)
    ultimately show thesis
      using that 2 sample_heap_ok(2,3) by (simp add: sample_pools_def)
  qed
qed

text \<open>
  C9: the block allocator gives out blocks that do not overlap. For a request that does not wrap around
  the address space, \<^verbatim>\<open>malloc\<close> returns a null pointer and changes nothing, which it does only for a
  request of 0 bytes and when the page allocator has no group of pages left, or it returns a new block of
  at least that size, which becomes the only new allocated block. The memory of the block is there, no byte of
  it belongs to another allocated block, and the bytes of all other allocated blocks stay as they are, although the
  allocator writes its headers and the links of its free blocks into the same pages.
\<close>

theorem malloc_fresh_block:
  assumes "heap_ok h" "unat sz + 4107 < 2 ^ 32"
  shows "\<exists>p h'. malloc sz h = Some (p, h') \<and> heap_ok h' \<and>
    (if p = NULL then h' = h \<and> (sz = 0 \<or> no_pages h sz)
     else \<exists>n \<ge> unat sz. live h' = insert (p, n) (live h) \<and> (p, n) \<notin> live h \<and> mapped (kmem (pal h')) p n
       \<and> (\<forall>(q, k) \<in> live h. \<forall>x. within q k x \<longrightarrow> \<not> within p n x \<and> kmem (pal h') x = kmem (pal h) x))"
proof (cases rule: malloc_ok [OF assms])
  case 1
  then show ?thesis
    using assms(1) by simp
next
  case (2 p n h')
  have inv: "heap_inv h'"
    using 2(3) by (simp add: heap_ok_def)
  have "\<not> within p n x \<and> kmem (pal h') x = kmem (pal h) x" if "(q, k) \<in> live h" "within q k x" for q k x
    using live_apart [OF inv, of p n q k x] 2(5-7) that by auto
  then show ?thesis
    using 2 live_memory(3) [OF inv, of p n] by (intro exI [of _ p] exI [of _ h']) auto
qed

theorem malloc_fresh_block_witness:
  "\<exists>h'. malloc 5000 sample_heap = Some (0xc010200c, h') \<and> heap_ok h' \<and> (\<exists>n \<ge> 5000. live h' = {(0xc010200c, n)} \<and> mapped (kmem (pal h')) 0xc010200c n)"
proof (rule sample_malloc)
  fix h'
  assume "malloc 5000 sample_heap = Some (0xc010200c, h')"
  then show ?thesis
    using malloc_fresh_block [OF sample_heap_ok(1), of 5000] sample_heap_ok(2) by auto
qed

text \<open>
  C10: \<^verbatim>\<open>free\<close> of an allocated block succeeds and makes exactly that block unallocated, and the contents of
  all other allocated blocks stay as they are, also when the last block of an arena is freed and its page
  goes back to the page allocator.
\<close>

theorem free_releases_block:
  assumes "heap_ok h" "(p, n) \<in> live h"
  shows "\<exists>h'. free p h = Some h' \<and> heap_ok h' \<and> live h' = live h - {(p, n)}
    \<and> (\<forall>(q, k) \<in> live h'. \<forall>x. within q k x \<longrightarrow> kmem (pal h') x = kmem (pal h) x)"
  by (rule free_ok [OF assms]) blast

theorem free_releases_block_witness:
  "\<exists>h h'. malloc 5000 sample_heap = Some (0xc010200c, h) \<and> (0xc010200c, 8180) \<in> live h \<and> free 0xc010200c h = Some h' \<and> live h' = {}"
proof (rule sample_malloc)
  fix h
  assume h: "malloc 5000 sample_heap = Some (0xc010200c, h)" "heap_ok h" "live h = {(0xc010200c, 8180)}"
  then show ?thesis
    using free_releases_block [of h "0xc010200c" 8180] by auto
qed

text \<open>
  \<^verbatim>\<open>calloc\<close> of two factors whose product does not wrap around returns a new block of zeros of that
  size, or a null pointer, and changes no other allocated block.
\<close>

theorem calloc_zeroes:
  assumes "heap_ok h" "unat a * unat b + 4107 < 2 ^ 32"
  shows "\<exists>p h'. calloc a b h = Some (p, h') \<and> heap_ok h' \<and>
    (if p = NULL then h' = h
     else \<exists>n \<ge> unat a * unat b. live h' = insert (p, n) (live h) \<and> bytes_at (kmem (pal h')) p (replicate (unat a * unat b) 0)
       \<and> (\<forall>(q, k) \<in> live h. \<forall>x. within q k x \<longrightarrow> kmem (pal h') x = kmem (pal h) x))"
proof (cases "a * b < a \<or> a * b < b")
  case True
  then show ?thesis
    using assms(1) by (auto simp: calloc_def)
next
  case False
  have sz: "unat (a * b) = unat a * unat b"
    using assms(2) by (simp add: unat_word_ariths)
  then have bound: "unat (a * b) + 4107 < 2 ^ 32"
    using assms(2) by simp
  show ?thesis
  proof (cases rule: malloc_ok [OF assms(1) bound])
    case 1
    then show ?thesis
      using False assms(1) by (simp add: calloc_def)
  next
    case (2 p n h')
    have p: "(p, n) \<in> live h'" and inv: "heap_inv h'" and len: "length (replicate (unat a * unat b) (0 :: uint8_t)) \<le> n"
      using 2 sz by (simp_all add: heap_ok_def)
    have "memset (kmem (pal h')) p 0 (a * b) = Some (p, write_bytes (kmem (pal h')) p (replicate (unat a * unat b) 0))"
      using memset_ok [of "kmem (pal h')" p "a * b" 0] live_memory(1,3) [OF inv p] mapped_le [of _ p n] len sz by simp
    then have "calloc a b h = Some (p, put_mem p (replicate (unat a * unat b) 0) h')"
      using False 2(1,2) by (simp add: calloc_def put_mem_def Let_def)
    moreover have "kmem (pal (put_mem p (replicate (unat a * unat b) 0) h')) x = kmem (pal h) x" if "(q, k) \<in> live h" "within q k x" for q k x
      using put_mem_ok(4) [OF 2(3) p len, of q k x] that 2(5,6) bspec [OF 2(7) that(1)] by auto
    ultimately show ?thesis
      using put_mem_ok(1-3) [OF 2(3) p len] 2 sz by (intro exI [of _ p] exI [of _ "put_mem p (replicate (unat a * unat b) 0) h'"]) auto
  qed
qed

theorem calloc_zeroes_witness:
  "\<exists>p h'. calloc 1000 8 sample_heap = Some (p, h') \<and> heap_ok h' \<and> (p = NULL \<or> bytes_at (kmem (pal h')) p (replicate 8000 0))"
  using calloc_zeroes [OF sample_heap_ok(1), of 1000 8] by (auto split: if_splits)

lemma realloc_zero:
  assumes "heap_ok h" "(p, n) \<in> live h"
  obtains h' where "realloc p 0 h = Some (NULL, h')" "heap_ok h'" "live h' = live h - {(p, n)}"
    "\<forall>(r, j) \<in> live h'. \<forall>x. within r j x \<longrightarrow> kmem (pal h') x = kmem (pal h) x"
  by (rule free_ok [OF assms]) (use that in \<open>simp add: realloc_def\<close>)

lemma realloc_moves:
  assumes "heap_ok h" "(p, n) \<in> live h" "bytes_at (kmem (pal h)) p bs" "length bs = n" "sz \<noteq> 0"
    and 2: "malloc sz h = Some (q, h1)" "q \<noteq> NULL" "heap_ok h1" "unat sz \<le> k" "live h1 = insert (q, k) (live h)" "\<forall>n. (q, n) \<notin> live h"
      "\<forall>(r, j) \<in> live h. \<forall>x. within r j x \<longrightarrow> kmem (pal h1) x = kmem (pal h) x"
  obtains h' where "realloc p sz h = Some (q, h')" "heap_ok h'" "live h' = insert (q, k) (live h - {(p, n)})"
    "bytes_at (kmem (pal h')) q (take (unat sz) bs)" "\<forall>(r, j) \<in> live h - {(p, n)}. \<forall>x. within r j x \<longrightarrow> kmem (pal h') x = kmem (pal h) x"
proof -
  have inv: "heap_inv h1" and q: "(q, k) \<in> live h1" and p: "(p, n) \<in> live h1" and pq: "p \<noteq> q"
    using 2 assms(2) by (auto simp: heap_ok_def)
  obtain w where w: "block_size_of h1 p = Some w" "unat w = n"
    using block_size_of_ok [OF inv p] by blast
  let ?ms = "if sz < w then sz else w"
  have ms: "unat ?ms = length (take (unat sz) bs)" "length (take (unat sz) bs) \<le> n" "length (take (unat sz) bs) \<le> k"
    using assms(4) w(2) 2(4) by (auto simp: word_less_nat_alt min_def)
  have pos: "0 < n" "0 < k"
    using live_inside [OF inv p] live_inside [OF inv q] by metis+
  have "\<forall>x. \<not> (within q k x \<and> within p n x)"
    using live_apart [OF inv q p] pq by blast
  then have order: "unat q \<le> unat p \<or> unat p + length (take (unat sz) bs) \<le> unat q"
    using apart_order [of q k p n] pos ms(2) by auto
  note memp = live_memory [OF inv p] and memq = live_memory [OF inv q]
  have "bytes_at (kmem (pal h1)) p bs"
    using bytes_at_outside [OF assms(3)] memp(2) assms(2,4) 2(7) by auto
  then have "memcpy (kmem (pal h1)) q p (of_nat (length (take (unat sz) bs))) = Some (q, write_bytes (kmem (pal h1)) q (take (unat sz) bs))"
    using bytes_at_take [of "kmem (pal h1)" p bs "unat sz"] order memp memq
      in_space_le [OF memp(2) ms(2)] in_space_le [OF memq(2) ms(3)] mapped_le [OF memq(3) ms(3)] by (intro memcpy_ok) auto
  then have cpy: "memcpy (kmem (pal h1)) q p ?ms = Some (q, write_bytes (kmem (pal h1)) q (take (unat sz) bs))"
    unfolding ms(1) [symmetric] by simp
  let ?h2 = "put_mem q (take (unat sz) bs) h1"
  note put = put_mem_ok [OF 2(3) q ms(3)]
  obtain h3 where h3: "free p ?h2 = Some h3" "heap_ok h3" "live h3 = live h1 - {(p, n)}"
      "\<forall>(r, j) \<in> live h3. \<forall>x. within r j x \<longrightarrow> kmem (pal h3) x = kmem (pal ?h2) x"
    using free_ok [OF put(1), of p n] p put(2) by auto
  have "realloc p sz h = Some (q, h3)"
    using assms(5) 2(1,2) memp(1) w(1) cpy h3(1) by (simp add: realloc_def put_mem_def)
  moreover have live: "live h3 = insert (q, k) (live h - {(p, n)})"
    using h3(3) 2(5) pq by auto
  moreover have "within q k x" if "within q (length (take (unat sz) bs)) x" for x
    using that ms(3) by (auto simp: within_def)
  then have "bytes_at (kmem (pal h3)) q (take (unat sz) bs)"
    using h3(4) live by (intro bytes_at_outside [OF put(3) in_space_le [OF memq(2) ms(3)]]) auto
  moreover have "kmem (pal h3) x = kmem (pal h) x" if "(r, j) \<in> live h - {(p, n)}" "within r j x" for r j x
  proof -
    have "r \<noteq> q"
      using that(1) 2(6) by auto
    then show ?thesis
      using that bspec [OF h3(4), of "(r, j)"] live put(4) [of r j x] 2(5) bspec [OF 2(7), of "(r, j)"] by auto
  qed
  ultimately show thesis
    using that [of h3] h3(2) by blast
qed

text \<open>
  C11: \<^verbatim>\<open>realloc\<close> of an allocated block, for a size that does not wrap around the address space. For
  size zero it frees the block and returns a null pointer. For any other size it returns a null pointer
  and changes nothing, which it does only when the page allocator has no group of pages left, or it
  returns a block of at least the new size that holds the bytes of the old one as far as both reach,
  and the old block is free then. In every case no other allocated block changes.
\<close>

theorem realloc_keeps_contents:
  assumes "heap_ok h" "(p, n) \<in> live h" "bytes_at (kmem (pal h)) p bs" "length bs = n" "unat sz + 4107 < 2 ^ 32"
  shows "\<exists>q h'. realloc p sz h = Some (q, h') \<and> heap_ok h' \<and>
    (if sz = 0 then q = NULL \<and> live h' = live h - {(p, n)}
     else if q = NULL then h' = h \<and> no_pages h sz
     else \<exists>k \<ge> unat sz. live h' = insert (q, k) (live h - {(p, n)}) \<and> bytes_at (kmem (pal h')) q (take (unat sz) bs))
    \<and> (\<forall>(r, j) \<in> live h - {(p, n)}. \<forall>x. within r j x \<longrightarrow> kmem (pal h') x = kmem (pal h) x)"
proof (cases "sz = 0")
  case True
  obtain h' where "realloc p 0 h = Some (NULL, h')" "heap_ok h'" "live h' = live h - {(p, n)}"
      "\<forall>(r, j) \<in> live h'. \<forall>x. within r j x \<longrightarrow> kmem (pal h') x = kmem (pal h) x"
    by (rule realloc_zero [OF assms(1,2)])
  then show ?thesis
    using True by simp
next
  case False
  show ?thesis
  proof (cases rule: malloc_ok [OF assms(1,5)])
    case 1
    then show ?thesis
      using assms(1) False by (simp add: realloc_def)
  next
    case (2 q k h1)
    obtain h' where "realloc p sz h = Some (q, h')" "heap_ok h'" "live h' = insert (q, k) (live h - {(p, n)})"
        "bytes_at (kmem (pal h')) q (take (unat sz) bs)" "\<forall>(r, j) \<in> live h - {(p, n)}. \<forall>x. within r j x \<longrightarrow> kmem (pal h') x = kmem (pal h) x"
      by (rule realloc_moves [OF assms(1-4) False 2])
    then show ?thesis
      using False 2(2,4) by (intro exI [of _ q] exI [of _ h']) auto
  qed
qed

lemma mapped_bytes: "mapped m p n \<Longrightarrow> \<exists>bs. length bs = n \<and> bytes_at m p bs"
  by (intro exI [of _ "map (\<lambda>i. the (m (p + of_nat i))) [0..<n]"]) (simp add: mapped_nth bytes_at_nth)

theorem realloc_keeps_contents_witness:
  "\<exists>h bs q h'. malloc 5000 sample_heap = Some (0xc010200c, h) \<and> length bs = 8180 \<and> bytes_at (kmem (pal h)) 0xc010200c bs
     \<and> realloc 0xc010200c 100 h = Some (q, h') \<and> heap_ok h' \<and> (q = NULL \<or> bytes_at (kmem (pal h')) q (take 100 bs))"
proof (rule sample_malloc)
  fix h
  assume h: "malloc 5000 sample_heap = Some (0xc010200c, h)" "heap_ok h" "live h = {(0xc010200c, 8180)}"
  then have live: "(0xc010200c, 8180) \<in> live h" and inv: "heap_inv h"
    by (simp_all add: heap_ok_def)
  obtain bs where bs: "length bs = 8180" "bytes_at (kmem (pal h)) 0xc010200c bs"
    using mapped_bytes [OF live_memory(3) [OF inv live]] by blast
  from realloc_keeps_contents [OF h(2) live bs(2,1), of 100] show ?thesis
    using h(1) bs by (auto split: if_splits)
qed

text \<open>The overflow check of \<^verbatim>\<open>calloc\<close> does not see every product that wraps around.\<close>

lemma calloc_check_incomplete: "calloc 0x10001 0x10001 h = calloc 1 0x20001 h"
proof -
  have "(0x10001 * 0x10001 :: size_t) = 1 * 0x20001"
    by simp
  then show ?thesis
    unfolding calloc_def by (simp only:) simp
qed

text \<open>
  the size computation of \<^verbatim>\<open>malloc\<close> wraps around. For the eleven largest sizes, from
  \<^verbatim>\<open>0xfffffff5\<close> on, it allocates one page and returns a block of 4084 bytes as if that were enough.
\<close>

theorem malloc_size_wraps:
  assumes "heap_ok h" "0xfffffff5 \<le> sz" "malloc sz h = Some (p, h')" "p \<noteq> NULL"
  shows "(p, 4084) \<in> live h' \<and> 4084 < unat sz"
proof -
  have inv: "heap_inv h" and kept: "kept_in (kmem (pal h)) h"
    using assms(1) by (simp_all add: heap_ok_def)
  have big: "4294967285 \<le> unat sz"
    using assms(2) by (simp add: word_le_nat_alt)
  have "\<not> sz \<le> block_size (descs h ! d)" if "d < length (descs h)" for d
    using desc_shape(4) [of "descs h" d] that inv big by (auto simp: heap_inv_def word_le_nat_alt)
  then have "find_desc (descs h) sz = None"
    using find_desc_Some [of "descs h" sz] by (cases "find_desc (descs h) sz") auto
  then have m: "malloc_big sz h = Some (p, h')"
    using assms(3) big by (auto simp: malloc_def split: if_splits)
  have eq: "sz + sizeof_arena + PGSIZE - 1 = sz + 4107"
    by (simp add: sizeof_arena_def PGSIZE_def)
  have "unat (sz + 4107) = unat sz + 4107 - 2 ^ 32"
    using big unat_32_less [of sz] by (simp add: unat_word_ariths le_mod_geq)
  then have "unat (DIV_ROUND_UP (sz + sizeof_arena) PGSIZE) = (unat sz + 4107 - 2 ^ 32) div 4096"
    unfolding DIV_ROUND_UP_def eq by (simp add: unat_div PGSIZE_def)
  moreover have "(unat sz + 4107 - 2 ^ 32) div 4096 = 1"
    using big unat_32_less [of sz] by (intro div_nat_eqI) auto
  ultimately have "unat (DIV_ROUND_UP (sz + sizeof_arena) PGSIZE) = 1"
    by simp
  then show ?thesis
    using m assms(4) big by (cases rule: malloc_big_ok [OF inv kept, of sz]) auto
qed

theorem malloc_size_wraps_witness:
  "\<exists>p h'. malloc 0xffffffff sample_heap = Some (p, h') \<and> p \<noteq> NULL \<and> (p, 4084) \<in> live h'"
proof -
  have inv: "heap_inv sample_heap" "kept_in (kmem (pal sample_heap)) sample_heap" and none: "find_desc (descs sample_heap) 0xffffffff = None"
    using sample_heap_ok(1,4) unfolding find_desc_None by (auto simp: heap_ok_def desc_table_def)
  have m: "malloc 0xffffffff sample_heap = malloc_big 0xffffffff sample_heap"
    using none by (simp add: malloc_def)
  have "first_fit (bit_list (used_map (get_pool (0 AND PAL_USER \<noteq> 0) sample_pools))) 0 (unat (1 :: size_t)) False = Some 1"
    by code_simp
  then obtain p s' where "palloc_get_multiple 0 1 sample_pools = Some (p, s')" "p = page_at (base (get_pool (0 AND PAL_USER \<noteq> 0) sample_pools)) 1"
    by (rule palloc_get_Some [OF sample_pools_ok, rotated]) simp_all
  moreover have "DIV_ROUND_UP (0xffffffff + sizeof_arena) PGSIZE = 1"
    by (simp add: DIV_ROUND_UP_def PGSIZE_def sizeof_arena_def)
  ultimately have get: "palloc_get_multiple 0 (DIV_ROUND_UP (0xffffffff + sizeof_arena) PGSIZE) (pal sample_heap) = Some (0xc0102000, s')"
    by (simp add: get_pool_def sample_pools_def page_at_def PGSIZE_def sample_heap_ok(3))
  show ?thesis
  proof (cases rule: malloc_big_ok [OF inv, of "0xffffffff"])
    case 1
    then show ?thesis
      using get by simp
  next
    case (2 a ar pl mem)
    then show ?thesis
      using malloc_size_wraps [OF sample_heap_ok(1) _ trans [OF m 2(1)]] m by auto
  qed
qed

end
