(* ===== verification/FixedPoint.thy ===== *)
theory FixedPoint
  imports Prelude
begin

text \<open>
  Fixed-point numbers (\<^verbatim>\<open>threads/fixed-point.h\<close>): 32 bits, 16 of them behind the point.
  \<^verbatim>\<open>int\<close> arithmetic keeps the low 32 bits of its result (\<open>to_int32\<close>); division truncates
  towards zero, and traps when the divisor is zero or the quotient does not fit.
\<close>

subsection \<open>Operations\<close>

record fixed_point_t =
  fix_f :: int

definition FIX_F :: int where "FIX_F = 2 ^ 16"
definition FIX_MAX_INT :: int where "FIX_MAX_INT = 2 ^ 16 - 1"
definition FIX_MIN_INT :: int where "FIX_MIN_INT = - FIX_MAX_INT"

definition div_int32 :: "int \<Rightarrow> int \<Rightarrow> int option" where
  "div_int32 n d = (if d = 0 \<or> n = - (2 ^ 31) \<and> d = - 1 then None else Some (n sdiv d))"

definition mk_fix :: "int \<Rightarrow> fixed_point_t" where
  "mk_fix f = \<lparr>fix_f = to_int32 f\<rparr>"

definition fix_int :: "int \<Rightarrow> fixed_point_t option" where
  "fix_int n = do {
     ASSERT (n \<ge> FIX_MIN_INT \<and> n \<le> FIX_MAX_INT);
     Some (mk_fix (n * FIX_F)) }"

definition fix_frac :: "int \<Rightarrow> int \<Rightarrow> fixed_point_t option" where
  "fix_frac n d = do {
     ASSERT (d \<noteq> 0);
     q \<leftarrow> div_int32 n d;
     ASSERT (q \<ge> FIX_MIN_INT \<and> q \<le> FIX_MAX_INT);
     Some (mk_fix ((n * FIX_F) sdiv d)) }"

definition fix_round :: "fixed_point_t \<Rightarrow> int" where
  "fix_round x = to_int32 (fix_f x + FIX_F div 2) sdiv FIX_F"

definition fix_trunc :: "fixed_point_t \<Rightarrow> int" where
  "fix_trunc x = fix_f x sdiv FIX_F"

definition fix_add :: "fixed_point_t \<Rightarrow> fixed_point_t \<Rightarrow> fixed_point_t" where
  "fix_add x y = mk_fix (fix_f x + fix_f y)"

definition fix_sub :: "fixed_point_t \<Rightarrow> fixed_point_t \<Rightarrow> fixed_point_t" where
  "fix_sub x y = mk_fix (fix_f x - fix_f y)"

definition fix_mul :: "fixed_point_t \<Rightarrow> fixed_point_t \<Rightarrow> fixed_point_t" where
  "fix_mul x y = mk_fix ((fix_f x * fix_f y) sdiv FIX_F)"

definition fix_scale :: "fixed_point_t \<Rightarrow> int \<Rightarrow> fixed_point_t option" where
  "fix_scale x n = do { ASSERT (n \<ge> 0); Some (mk_fix (fix_f x * n)) }"

definition fix_div :: "fixed_point_t \<Rightarrow> fixed_point_t \<Rightarrow> fixed_point_t option" where
  "fix_div x y = (if fix_f y = 0 then None else Some (mk_fix ((fix_f x * FIX_F) sdiv fix_f y)))"

definition fix_unscale :: "fixed_point_t \<Rightarrow> int \<Rightarrow> fixed_point_t option" where
  "fix_unscale x n = do { ASSERT (n > 0); Some (mk_fix (fix_f x sdiv n)) }"

definition fix_inv :: "fixed_point_t \<Rightarrow> fixed_point_t option" where
  "fix_inv x = do { one \<leftarrow> fix_int 1; fix_div one x }"

definition fix_compare :: "fixed_point_t \<Rightarrow> fixed_point_t \<Rightarrow> int" where
  "fix_compare x y = (if fix_f x < fix_f y then - 1 else if fix_f x > fix_f y then 1 else 0)"

lemmas fix_defs = fix_int_def fix_frac_def fix_round_def fix_trunc_def fix_add_def fix_sub_def fix_mul_def fix_scale_def
  fix_div_def fix_unscale_def fix_inv_def mk_fix_def FIX_F_def FIX_MAX_INT_def FIX_MIN_INT_def

subsection \<open>Accuracy\<close>

definition fits :: "int \<Rightarrow> bool" where
  "fits v \<longleftrightarrow> - (2 ^ 31) \<le> v \<and> v < 2 ^ 31"

lemma fits_mk_fix: "fix_f (mk_fix v) = v \<longleftrightarrow> fits v"
  using to_int32_id [of v] to_int32_range [of v] by (auto simp: mk_fix_def fits_def)

text \<open>A truncated quotient is less than one off, towards zero.\<close>

lemma sdiv_error: "d \<noteq> 0 \<Longrightarrow> \<bar>n - (n sdiv d) * d\<bar> < \<bar>d\<bar>" for n d :: int
  using smod_int_range [of d n] minus_sdiv_mult_eq_smod [of n d] by auto

lemma sdiv_exact: "d \<noteq> 0 \<Longrightarrow> (n * d) sdiv d = n" for n d :: int
proof -
  assume d: "d \<noteq> 0"
  have "d * (n - (n * d) sdiv d) = n * d - ((n * d) sdiv d) * d"
    by (simp add: algebra_simps)
  then have "\<bar>d\<bar> * \<bar>n - (n * d) sdiv d\<bar> < \<bar>d\<bar> * 1"
    using sdiv_error [OF d, of "n * d"] by (metis abs_mult mult.right_neutral)
  then show ?thesis
    using d by (simp only: mult_less_cancel_left) auto
qed

lemma fix_frac_error:
  assumes "fix_frac n d = Some x" "fits ((n * FIX_F) sdiv d)"
  shows "\<bar>n * FIX_F - fix_f x * d\<bar> < \<bar>d\<bar>"
  using assms sdiv_error [of d "n * FIX_F"] fits_mk_fix [of "(n * FIX_F) sdiv d"]
  by (auto simp: fix_frac_def div_int32_def bind_eq_Some_conv split: if_splits)

lemma fix_int_trunc:
  assumes "fix_int n = Some x" "fits (n * FIX_F)"
  shows "fix_trunc x = n"
  using assms fits_mk_fix [of "n * FIX_F"] sdiv_exact [of FIX_F n] by (auto simp: fix_int_def fix_trunc_def FIX_F_def)

lemma fits_int: "fits (n * FIX_F) \<longleftrightarrow> - (2 ^ 15) \<le> n \<and> n < 2 ^ 15"
  by (auto simp: fits_def FIX_F_def)

subsection \<open>Properties\<close>

text \<open>The product and the quotient of two fixed-point numbers differ from the exact results by less
  than one unit in the last place, whenever those fit in 32 bits; sums and differences that fit
  are exact.\<close>

theorem fix_arithmetic_accuracy:
  "(fits (fix_f x + fix_f y) \<longrightarrow> fix_f (fix_add x y) = fix_f x + fix_f y)
   \<and> (fits (fix_f x - fix_f y) \<longrightarrow> fix_f (fix_sub x y) = fix_f x - fix_f y)
   \<and> (fits ((fix_f x * fix_f y) sdiv FIX_F) \<longrightarrow> \<bar>fix_f x * fix_f y - fix_f (fix_mul x y) * FIX_F\<bar> < FIX_F)
   \<and> (fits ((fix_f x * FIX_F) sdiv fix_f y) \<and> fix_f y \<noteq> 0 \<longrightarrow>
       (\<exists>z. fix_div x y = Some z \<and> \<bar>fix_f x * FIX_F - fix_f z * fix_f y\<bar> < \<bar>fix_f y\<bar>))"
  using fits_mk_fix [of "fix_f x + fix_f y"] fits_mk_fix [of "fix_f x - fix_f y"] fits_mk_fix [of "(fix_f x * fix_f y) sdiv FIX_F"]
    fits_mk_fix [of "(fix_f x * FIX_F) sdiv fix_f y"] sdiv_error [of FIX_F "fix_f x * fix_f y"] sdiv_error [of "fix_f y" "fix_f x * FIX_F"]
  by (auto simp: fix_add_def fix_sub_def fix_mul_def fix_div_def FIX_F_def)

theorem fix_arithmetic_accuracy_witness:
  "\<bar>3 * 100000 - fix_f (fix_mul \<lparr>fix_f = 3\<rparr> \<lparr>fix_f = 100000\<rparr>) * FIX_F\<bar> < FIX_F"
  using fix_arithmetic_accuracy [of "\<lparr>fix_f = 3\<rparr>" "\<lparr>fix_f = 100000\<rparr>"] by (simp add: fits_def FIX_F_def)

text \<open>\<^verbatim>\<open>fix_int\<close> accepts the integers up to 65535 in magnitude, but only those of 16 bits with their
  sign can be represented: exactly the integers from -32768 to 32767 keep their value.\<close>

theorem fix_int_representable:
  assumes "FIX_MIN_INT \<le> n" "n \<le> FIX_MAX_INT"
  shows "\<exists>x. fix_int n = Some x \<and> (fix_f x = n * FIX_F \<longleftrightarrow> - 32768 \<le> n \<and> n \<le> 32767)"
  using assms fits_mk_fix [of "n * FIX_F"] fits_int [of n] by (auto simp: fix_int_def)

theorem fix_int_representable_witness:
  "\<exists>x. fix_int 40000 = Some x \<and> fix_f x \<noteq> 40000 * FIX_F"
  using fix_int_representable [of 40000] by (auto simp: FIX_MIN_INT_def FIX_MAX_INT_def)

text \<open>\<^verbatim>\<open>fix_round\<close> returns an integer nearest to the number exactly when the number is at least -1/2 or
  half of an odd integer: since division truncates towards zero, adding one half first rounds
  every other negative number up.\<close>

theorem fix_round_nearest_iff:
  assumes "fits (fix_f x + FIX_F div 2)"
  shows "\<bar>fix_f x - fix_round x * FIX_F\<bar> \<le> FIX_F div 2 \<longleftrightarrow> fix_f x \<ge> - (FIX_F div 2) \<or> (fix_f x + FIX_F div 2) mod FIX_F = 0"
proof -
  have r: "fix_round x = (fix_f x + 32768) sdiv 65536"
    using assms by (simp add: fix_round_def FIX_F_def fits_def to_int32_id)
  show ?thesis
  proof (cases "fix_f x \<ge> - 32768")
    case True
    then have "fix_round x = (fix_f x + 32768) div 65536"
      using r by (simp add: signed_divide_int_def sgn_if)
    then show ?thesis
      using True by (auto simp: FIX_F_def)
  next
    case False
    then have "fix_round x = - ((- (fix_f x + 32768)) div 65536)"
      using r by (simp add: signed_divide_int_def sgn_if abs_if)
    then have "fix_f x - fix_round x * 65536 = - 32768 - (- (fix_f x + 32768)) mod 65536"
      using mult_div_mod_eq [of 65536 "- (fix_f x + 32768)"] by linarith
    moreover have "(fix_f x + 32768) mod 65536 = 0 \<longleftrightarrow> (- (fix_f x + 32768)) mod 65536 = 0"
      by (metis dvd_eq_mod_eq_0 dvd_minus_iff)
    moreover have "0 \<le> (- (fix_f x + 32768)) mod 65536"
      by (rule pos_mod_sign) simp
    ultimately show ?thesis
      using False unfolding FIX_F_def by (auto simp del: minus_add_distrib add_uminus_conv_diff)
  qed
qed

theorem fix_round_nearest_iff_witness:
  "fix_round \<lparr>fix_f = - FIX_F\<rparr> = 0 \<and> \<not> \<bar>- FIX_F - fix_round \<lparr>fix_f = - FIX_F\<rparr> * FIX_F\<bar> \<le> FIX_F div 2"
  using fix_round_nearest_iff [of "\<lparr>fix_f = - FIX_F\<rparr>"]
  by (simp add: fix_round_def FIX_F_def fits_def to_int32_def)

end
