(* ===== verification/Stdlib.thy ===== *)
theory Stdlib
  imports CString FixedPoint "HOL-Library.Multiset"
begin

text \<open>
  \<^verbatim>\<open>lib/stdlib.c\<close> and the character classes of \<^verbatim>\<open>lib/ctype.h\<close>: conversion of decimal
  strings, heap sort and binary search. An array is the list of its elements, each a block of
  \<^verbatim>\<open>size\<close> bytes, so that \<open>do_swap\<close> exchanges two elements; the indexes of the heap count from
  one, as in the code. A comparison function follows the convention of \<^verbatim>\<open>strcmp\<close>.
\<close>

subsection \<open>Operations\<close>

definition islower :: "int \<Rightarrow> bool" where "islower c \<longleftrightarrow> c \<ge> 97 \<and> c \<le> 122"
definition isupper :: "int \<Rightarrow> bool" where "isupper c \<longleftrightarrow> c \<ge> 65 \<and> c \<le> 90"
definition isalpha :: "int \<Rightarrow> bool" where "isalpha c \<longleftrightarrow> islower c \<or> isupper c"
definition isdigit :: "int \<Rightarrow> bool" where "isdigit c \<longleftrightarrow> c \<ge> 48 \<and> c \<le> 57"
definition isalnum :: "int \<Rightarrow> bool" where "isalnum c \<longleftrightarrow> isalpha c \<or> isdigit c"
definition isxdigit :: "int \<Rightarrow> bool" where "isxdigit c \<longleftrightarrow> isdigit c \<or> (c \<ge> 97 \<and> c \<le> 102) \<or> (c \<ge> 65 \<and> c \<le> 70)"
definition isspace :: "int \<Rightarrow> bool" where "isspace c \<longleftrightarrow> c = 32 \<or> c = 12 \<or> c = 10 \<or> c = 13 \<or> c = 9 \<or> c = 11"
definition isblank :: "int \<Rightarrow> bool" where "isblank c \<longleftrightarrow> c = 32 \<or> c = 9"
definition isgraph :: "int \<Rightarrow> bool" where "isgraph c \<longleftrightarrow> c > 32 \<and> c < 127"
definition isprint :: "int \<Rightarrow> bool" where "isprint c \<longleftrightarrow> c \<ge> 32 \<and> c < 127"
definition iscntrl :: "int \<Rightarrow> bool" where "iscntrl c \<longleftrightarrow> (c \<ge> 0 \<and> c < 32) \<or> c = 127"
definition isascii :: "int \<Rightarrow> bool" where "isascii c \<longleftrightarrow> c \<ge> 0 \<and> c < 128"
definition ispunct :: "int \<Rightarrow> bool" where "ispunct c \<longleftrightarrow> isprint c \<and> \<not> isalnum c \<and> \<not> isspace c"
definition tolower :: "int \<Rightarrow> int" where "tolower c = (if isupper c then c - 65 + 97 else c)"
definition toupper :: "int \<Rightarrow> int" where "toupper c = (if islower c then c - 97 + 65 else c)"

partial_function (option) skip_space :: "memory \<Rightarrow> ptr \<Rightarrow> ptr option" where
  "skip_space m s = do { c \<leftarrow> m s; if isspace (uint c) then skip_space m (s + 1) else Some s }"

partial_function (option) atoi_digits :: "memory \<Rightarrow> ptr \<Rightarrow> int \<Rightarrow> int option" where
  "atoi_digits m s val = do {
     c \<leftarrow> m s;
     if isdigit (sint c) then atoi_digits m (s + 1) (to_int32 (val * 10 - (sint c - 48)))
     else Some val }"

definition atoi :: "memory \<Rightarrow> ptr \<Rightarrow> int option" where
  "atoi m s = do {
     ASSERT (s \<noteq> NULL);
     s \<leftarrow> skip_space m s;
     c \<leftarrow> m s;
     let negative = (c = 45);
     let s = (if c = 43 \<or> c = 45 then s + 1 else s);
     val \<leftarrow> atoi_digits m s 0;
     Some (if negative then val else to_int32 (- val)) }"

definition elem_at :: "'a list \<Rightarrow> size_t \<Rightarrow> 'a option" where
  "elem_at array idx = (if unat (idx - 1) < length array then Some (array ! unat (idx - 1)) else None)"

definition do_swap :: "'a list \<Rightarrow> size_t \<Rightarrow> size_t \<Rightarrow> 'a list option" where
  "do_swap array a_idx b_idx = do {
     a \<leftarrow> elem_at array a_idx;
     b \<leftarrow> elem_at array b_idx;
     Some (array[unat (a_idx - 1) := b, unat (b_idx - 1) := a]) }"

definition do_compare :: "('a \<Rightarrow> 'a \<Rightarrow> int) \<Rightarrow> 'a list \<Rightarrow> size_t \<Rightarrow> size_t \<Rightarrow> int option" where
  "do_compare compare array a_idx b_idx = do {
     a \<leftarrow> elem_at array a_idx;
     b \<leftarrow> elem_at array b_idx;
     Some (compare a b) }"

partial_function (option) heapify :: "('a \<Rightarrow> 'a \<Rightarrow> int) \<Rightarrow> 'a list \<Rightarrow> size_t \<Rightarrow> size_t \<Rightarrow> 'a list option" where
  "heapify compare array i cnt = do {
     let left = 2 * i;
     let right = 2 * i + 1;
     mx \<leftarrow> (if left \<le> cnt then do { c \<leftarrow> do_compare compare array left i; Some (if c > 0 then left else i) } else Some i);
     mx \<leftarrow> (if right \<le> cnt then do { c \<leftarrow> do_compare compare array right mx; Some (if c > 0 then right else mx) } else Some mx);
     if mx = i then Some array
     else do { array \<leftarrow> do_swap array i mx; heapify compare array mx cnt } }"

text \<open>The two loops of \<^verbatim>\<open>sort\<close>: \<open>i\<close> runs down to 1 and down to 2.\<close>

primrec build_heap :: "nat \<Rightarrow> ('a \<Rightarrow> 'a \<Rightarrow> int) \<Rightarrow> 'a list \<Rightarrow> size_t \<Rightarrow> 'a list option" where
  "build_heap 0 compare array cnt = Some array"
| "build_heap (Suc n) compare array cnt = do {
     array \<leftarrow> heapify compare array (of_nat (Suc n)) cnt;
     build_heap n compare array cnt }"

primrec sort_heap :: "nat \<Rightarrow> ('a \<Rightarrow> 'a \<Rightarrow> int) \<Rightarrow> 'a list \<Rightarrow> 'a list option" where
  "sort_heap 0 compare array = Some array"
| "sort_heap (Suc n) compare array =
     (if Suc n > 1 then do {
        array \<leftarrow> do_swap array 1 (of_nat (Suc n));
        array \<leftarrow> heapify compare array 1 (of_nat (Suc n) - 1);
        sort_heap n compare array }
      else Some array)"

definition sort_array :: "('a \<Rightarrow> 'a \<Rightarrow> int) \<Rightarrow> 'a list \<Rightarrow> size_t \<Rightarrow> 'a list option" where
  "sort_array compare array cnt = do {
     array \<leftarrow> build_heap (unat (cnt div 2)) compare array cnt;
     sort_heap (unat cnt) compare array }"

definition qsort :: "('a \<Rightarrow> 'a \<Rightarrow> int) \<Rightarrow> 'a list \<Rightarrow> size_t \<Rightarrow> 'a list option" where
  "qsort compare array cnt = sort_array compare array cnt"

text \<open>The search keeps two positions in the array; the result is the position of a match.\<close>

function binary_search_loop :: "('k \<Rightarrow> 'a \<Rightarrow> int) \<Rightarrow> 'k \<Rightarrow> 'a list \<Rightarrow> nat \<Rightarrow> nat \<Rightarrow> nat option option" where
  "binary_search_loop compare key array fst0 lst =
     (if fst0 < lst then
        (let middle = fst0 + (lst - fst0) div 2 in
         if middle < length array then
           (let cmp = compare key (array ! middle) in
            if cmp < 0 then binary_search_loop compare key array fst0 middle
            else if cmp > 0 then binary_search_loop compare key array (middle + 1) lst
            else Some (Some middle))
         else None)
      else Some None)"
  by pat_completeness auto
termination
  by (relation "measure (\<lambda>(_, _, _, a, b). b - a)") auto

declare binary_search_loop.simps [simp del]

definition binary_search :: "('k \<Rightarrow> 'a \<Rightarrow> int) \<Rightarrow> 'k \<Rightarrow> 'a list \<Rightarrow> size_t \<Rightarrow> nat option option" where
  "binary_search compare key array cnt = binary_search_loop compare key array 0 (unat cnt)"

definition bsearch :: "('k \<Rightarrow> 'a \<Rightarrow> int) \<Rightarrow> 'k \<Rightarrow> 'a list \<Rightarrow> size_t \<Rightarrow> nat option option" where
  "bsearch compare key array cnt = binary_search compare key array cnt"

subsection \<open>Heaps\<close>

text \<open>The contract of a comparison function.\<close>

locale comparison =
  fixes compare :: "'a \<Rightarrow> 'a \<Rightarrow> int"
  assumes compare_sym: "compare x y > 0 \<longleftrightarrow> compare y x < 0"
    and compare_trans: "compare x y \<le> 0 \<Longrightarrow> compare y z \<le> 0 \<Longrightarrow> compare x z \<le> 0"
begin

lemma compare_refl: "compare x x \<le> 0"
  using compare_sym [of x x] by linarith

lemma compare_total: "compare x y > 0 \<Longrightarrow> compare y x \<le> 0"
  using compare_sym [of x y] by linarith

end

text \<open>The larger of a node and its child, the largest of a node and both children, and floating
  down, on natural numbers.\<close>

definition bigger :: "('a \<Rightarrow> 'a \<Rightarrow> int) \<Rightarrow> 'a list \<Rightarrow> nat \<Rightarrow> nat \<Rightarrow> nat \<Rightarrow> nat" where
  "bigger compare a cnt c i = (if c \<le> cnt \<and> compare (a ! (c - 1)) (a ! (i - 1)) > 0 then c else i)"

definition max_child :: "('a \<Rightarrow> 'a \<Rightarrow> int) \<Rightarrow> 'a list \<Rightarrow> nat \<Rightarrow> nat \<Rightarrow> nat" where
  "max_child compare a cnt i = bigger compare a cnt (2 * i + 1) (bigger compare a cnt (2 * i) i)"

definition swap :: "'a list \<Rightarrow> nat \<Rightarrow> nat \<Rightarrow> 'a list" where
  "swap a i j = a[i - 1 := a ! (j - 1), j - 1 := a ! (i - 1)]"

lemma max_child_range:
  "max_child compare a cnt i = i \<or> (max_child compare a cnt i = 2 * i \<or> max_child compare a cnt i = 2 * i + 1)
    \<and> max_child compare a cnt i \<le> cnt"
  by (auto simp: max_child_def bigger_def)

function float_down :: "('a \<Rightarrow> 'a \<Rightarrow> int) \<Rightarrow> 'a list \<Rightarrow> nat \<Rightarrow> nat \<Rightarrow> 'a list" where
  "float_down compare a i cnt = (let m = max_child compare a cnt i in
     if m = i \<or> i = 0 then a else float_down compare (swap a i m) m cnt)"
  by pat_completeness auto
termination
proof (relation "measure (\<lambda>(_, _, i, cnt). cnt - i)")
  fix compare :: "'a \<Rightarrow> 'a \<Rightarrow> int" and a i cnt m
  assume "m = max_child compare a cnt i" "\<not> (m = i \<or> i = 0)"
  then show "((compare, swap a i m, m, cnt), compare, a, i, cnt) \<in> measure (\<lambda>(_, _, i, cnt). cnt - i)"
    using max_child_range [of compare a cnt i] by auto
qed simp

declare float_down.simps [simp del]

lemma length_swap [simp]: "length (swap a i j) = length a"
  by (simp add: swap_def)

lemma nth_swap:
  assumes "0 < i" "i \<le> length a" "0 < j" "j \<le> length a" "0 < k" "k \<le> length a"
  shows "swap a i j ! (k - 1) = a ! ((if k = i then j else if k = j then i else k) - 1)"
  using assms by (auto simp: swap_def nth_list_update)

lemma mset_swap: "0 < i \<Longrightarrow> i \<le> length a \<Longrightarrow> 0 < j \<Longrightarrow> j \<le> length a \<Longrightarrow> mset (swap a i j) = mset a"
  unfolding swap_def by (rule mset_swap) auto

text \<open>The code's \<^verbatim>\<open>heapify\<close> is \<open>float_down\<close> as long as twice an index does not wrap.\<close>

lemma word_index:
  assumes "0 < i" "i < 2 ^ 32"
  shows "unat (of_nat i - 1 :: size_t) = i - 1" "unat (of_nat i :: size_t) = i"
proof -
  show u: "unat (of_nat i :: size_t) = i"
    using assms(2) by (simp add: unat_of_nat)
  then have "of_nat i \<noteq> (0 :: size_t)"
    using assms(1) by (metis neq0_conv unat_0)
  then show "unat (of_nat i - 1 :: size_t) = i - 1"
    using u by (simp add: unat_minus_one)
qed

lemma do_compare_ok:
  "0 < i \<Longrightarrow> i \<le> length a \<Longrightarrow> 0 < j \<Longrightarrow> j \<le> length a \<Longrightarrow> length a < 2 ^ 31 \<Longrightarrow>
    do_compare compare a (of_nat i) (of_nat j) = Some (compare (a ! (i - 1)) (a ! (j - 1)))"
  by (auto simp: do_compare_def elem_at_def word_index)

lemma do_swap_ok:
  "0 < i \<Longrightarrow> i \<le> length a \<Longrightarrow> 0 < j \<Longrightarrow> j \<le> length a \<Longrightarrow> length a < 2 ^ 31 \<Longrightarrow>
    do_swap a (of_nat i) (of_nat j) = Some (swap a i j)"
  by (auto simp: do_swap_def elem_at_def word_index swap_def)

lemma bigger_ok:
  assumes "0 < i" "i \<le> cnt" "cnt \<le> length a" "length a < 2 ^ 31" "0 < c" "c < 2 ^ 32"
  shows "(if of_nat c \<le> (of_nat cnt :: size_t) then do {
      x \<leftarrow> do_compare compare a (of_nat c) (of_nat i); Some (if x > 0 then of_nat c else of_nat i) }
    else Some (of_nat i :: size_t)) = Some (of_nat (bigger compare a cnt c i))"
  using assms do_compare_ok [of c a i compare] word_index(2) [of c] word_index(2) [of cnt]
  by (auto simp: bigger_def word_le_nat_alt)

lemma of_nat_eq_index: "i < 2 ^ 32 \<Longrightarrow> j < 2 ^ 32 \<Longrightarrow> (of_nat i :: size_t) = of_nat j \<longleftrightarrow> i = j"
  by (auto simp: word_unat_eq_iff unat_of_nat)

lemma heapify_ok:
  assumes "0 < i" "i \<le> cnt" "cnt \<le> length a" "length a < 2 ^ 31"
  shows "heapify compare a (of_nat i) (of_nat cnt) = Some (float_down compare a i cnt)"
  using assms
proof (induction compare a i cnt rule: float_down.induct)
  case (1 compare a i cnt)
  let ?l = "bigger compare a cnt (2 * i) i" and ?m = "max_child compare a cnt i"
  have l: "0 < ?l" "?l \<le> cnt"
    using 1(2,3) by (auto simp: bigger_def)
  have m: "0 < ?m" "?m \<le> cnt"
    using 1(2,3) max_child_range [of compare a cnt i] by auto
  have two: "2 * of_nat i = (of_nat (2 * i) :: size_t)" "of_nat (2 * i) + 1 = (of_nat (2 * i + 1) :: size_t)"
    by simp_all
  have b: "(if of_nat (2 * i) \<le> (of_nat cnt :: size_t) then do {
        x \<leftarrow> do_compare compare a (of_nat (2 * i)) (of_nat i); Some (if x > 0 then of_nat (2 * i) else of_nat i) }
      else Some (of_nat i :: size_t)) = Some (of_nat ?l)"
    "(if of_nat (2 * i + 1) \<le> (of_nat cnt :: size_t) then do {
        x \<leftarrow> do_compare compare a (of_nat (2 * i + 1)) (of_nat ?l); Some (if x > 0 then of_nat (2 * i + 1) else of_nat ?l) }
      else Some (of_nat ?l :: size_t)) = Some (of_nat (bigger compare a cnt (2 * i + 1) ?l))"
    using 1(2-5) l by (intro bigger_ok; simp)+
  have "heapify compare a (of_nat i) (of_nat cnt) =
      (if of_nat ?m = (of_nat i :: size_t) then Some a
       else do { a \<leftarrow> do_swap a (of_nat i) (of_nat ?m); heapify compare a (of_nat ?m) (of_nat cnt) })"
    unfolding max_child_def by (subst heapify.simps) (simp only: two Let_def b bind.bind_lunit)
  then show ?case
    using 1 m do_swap_ok [of i a ?m] of_nat_eq_index [of ?m i] by (subst float_down.simps) (auto simp: Let_def)
qed

text \<open>A node is in order when no child is larger.\<close>

definition node_ok :: "('a \<Rightarrow> 'a \<Rightarrow> int) \<Rightarrow> 'a list \<Rightarrow> nat \<Rightarrow> nat \<Rightarrow> bool" where
  "node_ok compare a cnt j \<longleftrightarrow> (\<forall>c \<in> {2 * j, 2 * j + 1}. c \<le> cnt \<longrightarrow> compare (a ! (c - 1)) (a ! (j - 1)) \<le> 0)"

lemma float_down_length: "length (float_down compare a i cnt) = length a"
  by (induction compare a i cnt rule: float_down.induct) (subst float_down.simps, simp add: Let_def)

lemma float_down_mset:
  "i \<le> cnt \<Longrightarrow> cnt \<le> length a \<Longrightarrow> mset (float_down compare a i cnt) = mset a"
proof (induction compare a i cnt rule: float_down.induct)
  case (1 compare a i cnt)
  then show ?case
    using max_child_range [of compare a cnt i] mset_swap [of i a "max_child compare a cnt i"]
    by (subst float_down.simps) (auto simp: Let_def)
qed

text \<open>Floating down touches only the heap.\<close>

lemma float_down_above:
  "i \<le> cnt \<Longrightarrow> cnt \<le> length a \<Longrightarrow> cnt \<le> k \<Longrightarrow> k < length a \<Longrightarrow> float_down compare a i cnt ! k = a ! k"
proof (induction compare a i cnt rule: float_down.induct)
  case (1 compare a i cnt)
  have "swap a i (max_child compare a cnt i) ! k = a ! k" if "i \<noteq> 0" "max_child compare a cnt i \<noteq> i"
    using 1(2-5) that max_child_range [of compare a cnt i] by (auto simp: swap_def nth_list_update)
  then show ?case
    using 1 max_child_range [of compare a cnt i] by (subst float_down.simps) (auto simp: Let_def)
qed

context comparison
begin

lemma bigger_le:
  assumes "m = bigger compare a cnt c i"
  shows "compare (a ! (i - 1)) (a ! (m - 1)) \<le> 0" "c \<le> cnt \<Longrightarrow> compare (a ! (c - 1)) (a ! (m - 1)) \<le> 0"
  using assms compare_total [of "a ! (c - 1)" "a ! (i - 1)"] compare_refl by (auto simp: bigger_def)

lemma max_child_le:
  assumes "m = max_child compare a cnt i"
  shows "compare (a ! (i - 1)) (a ! (m - 1)) \<le> 0" "2 * i \<le> cnt \<Longrightarrow> compare (a ! (2 * i - 1)) (a ! (m - 1)) \<le> 0"
    "2 * i + 1 \<le> cnt \<Longrightarrow> compare (a ! (2 * i)) (a ! (m - 1)) \<le> 0"
proof -
  define l where "l = bigger compare a cnt (2 * i) i"
  have m: "m = bigger compare a cnt (2 * i + 1) l"
    using assms by (simp add: max_child_def l_def)
  note b = bigger_le(1) [OF m]
  show "compare (a ! (i - 1)) (a ! (m - 1)) \<le> 0" "2 * i \<le> cnt \<Longrightarrow> compare (a ! (2 * i - 1)) (a ! (m - 1)) \<le> 0"
    using bigger_le [OF l_def] b compare_trans by blast+
  show "2 * i + 1 \<le> cnt \<Longrightarrow> compare (a ! (2 * i)) (a ! (m - 1)) \<le> 0"
    using bigger_le(2) [OF m] by simp
qed

text \<open>Swapping a node with its largest child puts the node in order, keeps its parent in order, and
  leaves the child as the only one in doubt.\<close>

definition all_but :: "'a list \<Rightarrow> nat \<Rightarrow> nat \<Rightarrow> nat \<Rightarrow> bool" where
  "all_but a cnt lo i \<longleftrightarrow> (\<forall>j \<ge> lo. j \<noteq> i \<longrightarrow> node_ok compare a cnt j)
    \<and> (lo \<le> i div 2 \<longrightarrow> (\<forall>c \<in> {2 * i, 2 * i + 1}. c \<le> cnt \<longrightarrow> compare (a ! (c - 1)) (a ! (i div 2 - 1)) \<le> 0))"

lemma all_but_swap:
  assumes "0 < lo" "lo \<le> i" "i \<le> cnt" "cnt \<le> length a" "all_but a cnt lo i"
    and m: "m = max_child compare a cnt i" "m \<noteq> i"
  shows "all_but (swap a i m) cnt lo m"
proof -
  have m': "m \<in> {2 * i, 2 * i + 1}" "m \<le> cnt" "m div 2 = i" "i < m"
    using max_child_range [of compare a cnt i] m assms(1,2) by auto
  have at: "swap a i m ! (k - 1) = a ! ((if k = i then m else if k = m then i else k) - 1)" if "0 < k" "k \<le> cnt" for k
    using that assms(1-4) m' by (intro nth_swap) auto
  note le = max_child_le [OF m(1)]
  have child: "compare (a ! (c - 1)) (a ! (m - 1)) \<le> 0" if "c \<in> {2 * i, 2 * i + 1}" "c \<le> cnt" for c
    using le(2,3) that by auto
  have "node_ok compare (swap a i m) cnt j" if j: "lo \<le> j" "j \<noteq> m" for j
    unfolding node_ok_def
  proof (intro ballI impI)
    fix c
    assume c: "c \<in> {2 * j, 2 * j + 1}" "c \<le> cnt"
    then have jc: "0 < j" "j \<le> cnt" "0 < c" "c \<noteq> j" "j = c div 2"
      using assms(1) j(1) by auto
    have ok: "compare (a ! (c - 1)) (a ! (j - 1)) \<le> 0" if "j \<noteq> i"
      using assms(5) j(1) that c by (auto simp: all_but_def node_ok_def)
    have up: "compare (a ! (m - 1)) (a ! (j - 1)) \<le> 0" if "c = i"
      using assms(5) j(1) jc(5) that m'(1,2) unfolding all_but_def by blast
    show "compare (swap a i m ! (c - 1)) (swap a i m ! (j - 1)) \<le> 0"
    proof (cases "j = i")
      case True
      then show ?thesis
        using at [OF jc(3) c(2)] at [OF jc(1,2)] jc(4) c child [of c] le(1) by simp
    next
      case False
      then have "c \<noteq> m"
        using jc(5) m'(3) by blast
      then show ?thesis
        using at [OF jc(3) c(2)] at [OF jc(1,2)] False j(2) ok up by simp
    qed
  qed
  moreover have "compare (swap a i m ! (c - 1)) (swap a i m ! (m div 2 - 1)) \<le> 0" if c: "c \<in> {2 * m, 2 * m + 1}" "c \<le> cnt" for c
  proof -
    have "node_ok compare a cnt m"
      using assms(2,5) m(2) m'(4) by (auto simp: all_but_def)
    then have "compare (a ! (c - 1)) (a ! (m - 1)) \<le> 0"
      using c by (auto simp: node_ok_def)
    then show ?thesis
      using at [of c] at [of i] c m'(3,4) assms(1-3) by auto
  qed
  ultimately show ?thesis
    unfolding all_but_def by blast
qed

text \<open>So floating down puts all nodes in order.\<close>

lemma float_down_ok:
  assumes "0 < lo" "lo \<le> i" "i \<le> cnt" "cnt \<le> length a" "all_but a cnt lo i" "lo \<le> j"
  shows "node_ok compare (float_down compare a i cnt) cnt j"
  using assms
proof (induction "cnt - i" arbitrary: a i rule: less_induct)
  case less
  define m where "m = max_child compare a cnt i"
  show ?case
  proof (cases "m = i")
    case True
    have "node_ok compare a cnt i"
      using max_child_le [of i a cnt i] True by (auto simp: node_ok_def m_def)
    then show ?thesis
      using True less.prems by (subst float_down.simps) (auto simp: m_def all_but_def)
  next
    case False
    then have r: "i < m" "m \<le> cnt"
      using max_child_range [of compare a cnt i] less.prems(1,2) by (auto simp: m_def)
    have "node_ok compare (float_down compare (swap a i m) m cnt) cnt j"
      using all_but_swap [OF less.prems(1-5) m_def False] less.prems r by (intro less.hyps) auto
    moreover have "float_down compare a i cnt = float_down compare (swap a i m) m cnt"
      using False less.prems(1,2) by (subst float_down.simps) (simp add: m_def Let_def)
    ultimately show ?thesis
      by simp
  qed
qed

text \<open>The root of a heap is the largest element.\<close>

lemma heap_root:
  assumes "\<And>j. 1 \<le> j \<Longrightarrow> node_ok compare a cnt j" "1 \<le> k" "k \<le> cnt"
  shows "compare (a ! (k - 1)) (a ! 0) \<le> 0"
  using assms(2,3)
proof (induction k rule: less_induct)
  case (less k)
  show ?case
  proof (cases "k = 1")
    case True
    then show ?thesis
      using compare_refl by simp
  next
    case False
    then have p: "1 \<le> k div 2" "k div 2 < k" "k \<in> {2 * (k div 2), 2 * (k div 2) + 1}"
      using less.prems(1) by auto
    then have "compare (a ! (k - 1)) (a ! (k div 2 - 1)) \<le> 0"
      using assms(1) [OF p(1)] less.prems(2) unfolding node_ok_def by blast
    moreover have "compare (a ! (k div 2 - 1)) (a ! 0) \<le> 0"
      using less.IH p less.prems(2) by simp
    ultimately show ?thesis
      using compare_trans by blast
  qed
qed

lemma build_heap_ok:
  assumes "\<And>j. n < j \<Longrightarrow> node_ok compare a cnt j" "n \<le> cnt" "cnt \<le> length a" "length a < 2 ^ 31"
  shows "\<exists>a'. build_heap n compare a (of_nat cnt) = Some a' \<and> (\<forall>j \<ge> 1. node_ok compare a' cnt j) \<and> mset a' = mset a"
  using assms
proof (induction n arbitrary: a)
  case (Suc n)
  let ?a = "float_down compare a (Suc n) cnt"
  have h: "heapify compare a (of_nat (Suc n)) (of_nat cnt) = Some ?a"
    using Suc.prems by (intro heapify_ok) auto
  have "all_but a cnt (Suc n) (Suc n)"
    using Suc.prems(1) by (auto simp: all_but_def)
  then have "node_ok compare ?a cnt j" if "n < j" for j
    using Suc.prems that by (intro float_down_ok [of "Suc n"]) auto
  then obtain a' where "build_heap n compare ?a (of_nat cnt) = Some a'" "\<forall>j \<ge> 1. node_ok compare a' cnt j" "mset a' = mset ?a"
    using Suc.IH [of ?a] Suc.prems(2-4) by (auto simp: float_down_length)
  then show ?case
    using h float_down_mset [of "Suc n" cnt a compare] Suc.prems(2,3) by auto
qed auto

text \<open>The state of the second loop: a heap in front of the sorted largest elements.\<close>

definition heap_sorted :: "'a list \<Rightarrow> nat \<Rightarrow> bool" where
  "heap_sorted a n \<longleftrightarrow> (\<forall>j \<ge> 1. node_ok compare a n j) \<and> sorted_wrt (\<lambda>x y. compare x y \<le> 0) (drop n a)
    \<and> (\<forall>x \<in> set (take n a). \<forall>y \<in> set (drop n a). compare x y \<le> 0)"

lemma heap_sorted_step:
  assumes "heap_sorted a (Suc n)" "1 \<le> n" "Suc n \<le> length a"
  shows "heap_sorted (float_down compare (swap a 1 (Suc n)) 1 n) n"
proof -
  let ?b = "swap a 1 (Suc n)" and ?c = "float_down compare (swap a 1 (Suc n)) 1 n"
  have at: "?b ! (k - 1) = a ! ((if k = 1 then Suc n else if k = Suc n then 1 else k) - 1)" if "0 < k" "k \<le> length a" for k
    using that assms by (intro nth_swap) auto
  have ok: "node_ok compare a (Suc n) j" if "1 \<le> j" for j
    using assms(1) that by (simp add: heap_sorted_def)
  have "node_ok compare ?b n j" if "1 \<le> j" "j \<noteq> 1" for j
    unfolding node_ok_def
  proof (intro ballI impI)
    fix c
    assume c: "c \<in> {2 * j, 2 * j + 1}" "c \<le> n"
    have "2 * j \<le> c"
      using c(1) by auto
    then have "c \<noteq> 1" "c \<noteq> Suc n" "j \<noteq> Suc n" "0 < c" "c \<le> length a" "j \<le> length a"
      using that assms(3) c(2) by linarith+
    then show "compare (?b ! (c - 1)) (?b ! (j - 1)) \<le> 0"
      using at [of c] at [of j] that ok [OF that(1)] c by (auto simp: node_ok_def)
  qed
  then have heap: "node_ok compare ?c n j" if "1 \<le> j" for j
    using that assms by (intro float_down_ok [of 1]) (auto simp: all_but_def)
  have "?c ! k = ?b ! k" if "n \<le> k" "k < length a" for k
    using float_down_above [of 1 n ?b k compare] that assms by simp
  then have "drop n ?c = drop n ?b"
    by (intro nth_equalityI) (auto simp: float_down_length)
  also have "\<dots> = a ! 0 # drop (Suc n) a"
    using assms(2,3) by (subst Cons_nth_drop_Suc [symmetric]) (simp_all add: swap_def nth_list_update drop_update_cancel)
  finally have dr: "drop n ?c = a ! 0 # drop (Suc n) a" .
  have "mset (take n ?c) + mset (drop n ?c) = mset (take (Suc n) a) + mset (drop (Suc n) a)"
    using float_down_mset [of 1 n ?b compare] mset_swap [of 1 a "Suc n"] assms by (simp flip: mset_append)
  then have "mset (take (Suc n) a) = add_mset (a ! 0) (mset (take n ?c))"
    unfolding dr by simp
  then have "set (take n ?c) \<subseteq> set (take (Suc n) a)"
    by (metis mset_subset_eq_add_mset_cancel set_mset_mset set_mset_mono subset_mset.order_refl mset_subset_eq_insertD subset_mset.less_imp_le)
  moreover have "compare x (a ! 0) \<le> 0" if "x \<in> set (take (Suc n) a)" for x
  proof -
    obtain k where "k < Suc n" "x = a ! k"
      using \<open>x \<in> set (take (Suc n) a)\<close> assms(3) by (auto simp: in_set_conv_nth)
    then show ?thesis
      using heap_root [of a "Suc n" "Suc k"] ok by simp
  qed
  moreover have "a ! 0 \<in> set (take (Suc n) a)"
    using assms(3) by (auto simp: in_set_conv_nth intro: exI [of _ 0])
  ultimately show ?thesis
    using assms(1) heap dr unfolding heap_sorted_def by auto
qed

lemma sort_heap_ok:
  assumes "heap_sorted a n" "n \<le> length a" "length a < 2 ^ 31"
  shows "\<exists>a'. sort_heap n compare a = Some a' \<and> sorted_wrt (\<lambda>x y. compare x y \<le> 0) a' \<and> mset a' = mset a"
  using assms
proof (induction n arbitrary: a)
  case (Suc n)
  show ?case
  proof (cases "n = 0")
    case True
    then have "a = a ! 0 # drop 1 a" "a ! 0 \<in> set (take 1 a)"
      using Suc.prems(2) by (cases a; simp)+
    then have "sorted_wrt (\<lambda>x y. compare x y \<le> 0) (a ! 0 # drop 1 a)"
      using Suc.prems(1) True unfolding heap_sorted_def sorted_wrt.simps by auto
    then have "sorted_wrt (\<lambda>x y. compare x y \<le> 0) a"
      using \<open>a = a ! 0 # drop 1 a\<close> by metis
    then show ?thesis
      using True by simp
  next
    case False
    let ?b = "swap a 1 (Suc n)"
    have "do_swap a 1 (of_nat (Suc n)) = Some ?b"
      using do_swap_ok [of 1 a "Suc n"] Suc.prems by simp
    moreover have "heapify compare ?b 1 (of_nat (Suc n) - 1) = Some (float_down compare ?b 1 n)"
      using heapify_ok [of 1 n ?b compare] Suc.prems False by simp
    moreover have "heap_sorted (float_down compare ?b 1 n) n"
      using heap_sorted_step Suc.prems False by simp
    moreover have "mset (float_down compare ?b 1 n) = mset a" "length (float_down compare ?b 1 n) = length a"
      using float_down_mset [of 1 n ?b compare] mset_swap [of 1 a "Suc n"] Suc.prems False by (simp_all add: float_down_length)
    ultimately show ?thesis
      using Suc.IH [of "float_down compare ?b 1 n"] Suc.prems False by auto
  qed
qed (simp add: heap_sorted_def)

lemma sort_array_ok:
  assumes "length a < 2 ^ 31"
  shows "\<exists>a'. sort_array compare a (of_nat (length a)) = Some a' \<and> sorted_wrt (\<lambda>x y. compare x y \<le> 0) a' \<and> mset a' = mset a"
proof -
  have "unat (of_nat (length a) div 2 :: size_t) = length a div 2" and len: "unat (of_nat (length a) :: size_t) = length a"
    using assms by (simp_all add: unat_div unat_of_nat)
  moreover have leaf: "node_ok compare a (length a) j" if "length a div 2 < j" for j
    using that by (auto simp: node_ok_def)
  moreover obtain b where b: "build_heap (length a div 2) compare a (of_nat (length a)) = Some b"
      "\<forall>j \<ge> 1. node_ok compare b (length a) j" "mset b = mset a"
    using build_heap_ok [of "length a div 2" a "length a", OF leaf] assms by auto
  moreover have "heap_sorted b (length a)" "length b = length a"
    using b(2,3) mset_eq_length [of b a] by (auto simp: heap_sorted_def)
  ultimately show ?thesis
    using sort_heap_ok [of b "length a"] assms by (auto simp: sort_array_def)
qed

end

interpretation fixed: comparison fix_compare
  by unfold_locales (auto simp: fix_compare_def split: if_splits)

interpretation lexicographic: comparison "\<lambda>xs ys :: bytes. if xs < ys then - 1 else if xs > ys then 1 else 0"
  by unfold_locales (auto split: if_splits)

subsection \<open>Searching\<close>

lemma binary_search_loop_ok:
  assumes "lst \<le> length a"
    and "\<And>i j. i \<le> j \<Longrightarrow> j < length a \<Longrightarrow> compare key (a ! j) > 0 \<Longrightarrow> compare key (a ! i) > 0"
    and "\<And>i j. i \<le> j \<Longrightarrow> j < length a \<Longrightarrow> compare key (a ! i) < 0 \<Longrightarrow> compare key (a ! j) < 0"
  shows "\<exists>r. binary_search_loop compare key a fst0 lst = Some r
    \<and> (case r of Some i \<Rightarrow> fst0 \<le> i \<and> i < lst \<and> compare key (a ! i) = 0
        | None \<Rightarrow> \<forall>i. fst0 \<le> i \<and> i < lst \<longrightarrow> compare key (a ! i) \<noteq> 0)"
  using assms(1)
proof (induction "lst - fst0" arbitrary: fst0 lst rule: less_induct)
  case less
  show ?case
  proof (cases "fst0 < lst")
    case True
    define mid where "mid = fst0 + (lst - fst0) div 2"
    have mid: "fst0 \<le> mid" "mid < lst" "mid < length a"
      using True less.prems by (auto simp: mid_def)
    have lt: "mid - fst0 < lst - fst0" "lst - (mid + 1) < lst - fst0" and le: "mid \<le> length a"
      using mid by auto
    have unf: "binary_search_loop compare key a fst0 lst =
        (if compare key (a ! mid) < 0 then binary_search_loop compare key a fst0 mid
         else if compare key (a ! mid) > 0 then binary_search_loop compare key a (mid + 1) lst else Some (Some mid))"
      using True mid(3) by (subst binary_search_loop.simps) (simp add: Let_def mid_def)
    consider "compare key (a ! mid) < 0" | "compare key (a ! mid) > 0" | "compare key (a ! mid) = 0"
      by linarith
    then show ?thesis
    proof cases
      case 1
      then have "compare key (a ! i) \<noteq> 0" if "mid \<le> i" "i < lst" for i
        using assms(3) [of mid i] that less.prems by force
      moreover obtain r where "binary_search_loop compare key a fst0 mid = Some r"
          "case r of Some i \<Rightarrow> fst0 \<le> i \<and> i < mid \<and> compare key (a ! i) = 0
            | None \<Rightarrow> \<forall>i. fst0 \<le> i \<and> i < mid \<longrightarrow> compare key (a ! i) \<noteq> 0"
        using less.hyps [OF lt(1) le] by blast
      ultimately show ?thesis
        using mid 1 unf by (cases r) (auto, meson not_le)
    next
      case 2
      then have "compare key (a ! i) \<noteq> 0" if "i \<le> mid" for i
        using assms(2) [of i mid] that mid by force
      moreover obtain r where "binary_search_loop compare key a (mid + 1) lst = Some r"
          "case r of Some i \<Rightarrow> mid + 1 \<le> i \<and> i < lst \<and> compare key (a ! i) = 0
            | None \<Rightarrow> \<forall>i. mid + 1 \<le> i \<and> i < lst \<longrightarrow> compare key (a ! i) \<noteq> 0"
        using less.hyps [OF lt(2) less.prems] by blast
      ultimately show ?thesis
        using mid 2 unf by (cases r) (auto, meson not_less_eq_eq)
    next
      case 3
      then show ?thesis
        using unf mid by auto
    qed
  next
    case False
    then show ?thesis
      by (subst binary_search_loop.simps) simp
  qed
qed

subsection \<open>Decimal numbers\<close>

definition digit :: "uint8_t \<Rightarrow> bool" where
  "digit c \<longleftrightarrow> isdigit (uint c)"

definition decimal :: "bytes \<Rightarrow> int" where
  "decimal ds = foldl (\<lambda>v c. 10 * v + (uint c - 48)) 0 ds"

lemma sint_digit: "isdigit (sint c) = digit c" "digit c \<Longrightarrow> sint c = uint c" for c :: uint8_t
proof -
  have r: "uint c = sint c mod 256" "- 128 \<le> sint c" "sint c < 128"
    using uint_sint [of c] sint_ge [of c] sint_less [of c] by (simp_all add: take_bit_eq_mod)
  have "uint c = sint c \<or> uint c = sint c + 256"
    using r by presburger
  then have "uint c = sint c \<or> uint c = sint c + 256 \<and> sint c < 0"
    using uint_bounded [of c] r(1) by auto
  then show "isdigit (sint c) = digit c" "digit c \<Longrightarrow> sint c = uint c"
    using r(2,3) by (auto simp: isdigit_def digit_def)
qed

lemma foldl_decimal_ge: "0 \<le> v \<Longrightarrow> \<forall>c \<in> set ds. digit c \<Longrightarrow> v \<le> foldl (\<lambda>v c. 10 * v + (uint c - 48)) v ds"
proof (induction ds arbitrary: v)
  case (Cons c ds)
  then have "0 \<le> uint c - 48"
    by (simp add: digit_def isdigit_def)
  then show ?case
    using Cons.IH [of "10 * v + (uint c - 48)"] Cons.prems by auto
qed simp

lemma atoi_digits_ok:
  assumes "str_at m p (ds @ rest)" "\<forall>c \<in> set ds. digit c" "rest = [] \<or> \<not> digit (hd rest)" "0 \<le> v"
    and "foldl (\<lambda>v c. 10 * v + (uint c - 48)) v ds \<le> 2 ^ 31"
  shows "atoi_digits m p (- v) = Some (- foldl (\<lambda>v c. 10 * v + (uint c - 48)) v ds)"
  using assms
proof (induction ds arbitrary: p v)
  case Nil
  have "\<exists>c. m p = Some c \<and> \<not> digit c"
    using Nil(1,3) by (cases rest) (auto simp: digit_def isdigit_def)
  then show ?case
    by (subst atoi_digits.simps) (auto simp: sint_digit)
next
  case (Cons c ds)
  define w where "w = 10 * v + (uint c - 48)"
  have c: "digit c" "m p = Some c" "str_at m (p + 1) (ds @ rest)" "0 \<le> w"
    using Cons.prems by (auto simp: w_def digit_def isdigit_def)
  have "w \<le> 2 ^ 31"
    using foldl_decimal_ge [OF c(4), of ds] Cons.prems(2,5) by (simp add: w_def)
  then have "to_int32 (- v * 10 - (uint c - 48)) = - w"
    using c(4) by (subst to_int32_id) (auto simp: w_def)
  moreover have "atoi_digits m (p + 1) (- w) = Some (- foldl (\<lambda>v c. 10 * v + (uint c - 48)) w ds)"
    using Cons.prems c by (intro Cons.IH) (simp_all add: w_def)
  ultimately show ?case
    using c(1,2) by (subst atoi_digits.simps) (simp add: sint_digit w_def)
qed

lemma skip_space_ok:
  "str_at m p (ws @ s) \<Longrightarrow> \<forall>c \<in> set ws. isspace (uint c) \<Longrightarrow> s \<noteq> [] \<Longrightarrow> \<not> isspace (uint (hd s)) \<Longrightarrow>
    skip_space m p = Some (p + of_nat (length ws))"
proof (induction ws arbitrary: p)
  case Nil
  then show ?case
    by (subst skip_space.simps) (auto simp: neq_Nil_conv)
next
  case (Cons c ws)
  then show ?case
    using Cons.IH [of "p + 1"] by (subst skip_space.simps) (simp add: ac_simps)
qed

subsection \<open>Properties\<close>

text \<open>C38: \<^verbatim>\<open>sort\<close>, the heap sort behind \<^verbatim>\<open>qsort\<close>, always returns; the result has the elements of
  the array in the order of the comparison function. The number of elements is below \<open>2^31\<close>, so
  that twice an index does not wrap.\<close>

theorem sort_sorts:
  assumes "comparison compare" "length a < 2 ^ 31"
  shows "\<exists>a'. qsort compare a (of_nat (length a)) = Some a' \<and> sorted_wrt (\<lambda>x y. compare x y \<le> 0) a' \<and> mset a' = mset a"
  using comparison.sort_array_ok [OF assms] by (simp add: qsort_def)

theorem sort_sorts_witness:
  "\<exists>a'. qsort fix_compare [\<lparr>fix_f = 3\<rparr>, \<lparr>fix_f = 1\<rparr>, \<lparr>fix_f = 2\<rparr>] 3 = Some a'
     \<and> sorted_wrt (\<lambda>x y. fix_compare x y \<le> 0) a' \<and> mset a' = {#\<lparr>fix_f = 3\<rparr>, \<lparr>fix_f = 1\<rparr>, \<lparr>fix_f = 2\<rparr>#}"
  using sort_sorts [OF fixed.comparison_axioms, of "[\<lparr>fix_f = 3\<rparr>, \<lparr>fix_f = 1\<rparr>, \<lparr>fix_f = 2\<rparr>]"] by simp

text \<open>\<^verbatim>\<open>binary_search\<close> on an array in order returns the position of an element that matches the key,
  and none only if no element does.\<close>

theorem binary_search_finds:
  assumes "length a < 2 ^ 32"
    and "\<forall>i j. i \<le> j \<and> j < length a \<longrightarrow> (compare key (a ! j) > 0 \<longrightarrow> compare key (a ! i) > 0)
      \<and> (compare key (a ! i) < 0 \<longrightarrow> compare key (a ! j) < 0)"
  shows "\<exists>r. binary_search compare key a (of_nat (length a)) = Some r
    \<and> (case r of Some i \<Rightarrow> i < length a \<and> compare key (a ! i) = 0 | None \<Rightarrow> \<forall>x \<in> set a. compare key x \<noteq> 0)"
proof -
  have "unat (of_nat (length a) :: size_t) = length a"
    using assms(1) by (simp add: unat_of_nat)
  then obtain r where "binary_search compare key a (of_nat (length a)) = Some r"
      "case r of Some i \<Rightarrow> 0 \<le> i \<and> i < length a \<and> compare key (a ! i) = 0
        | None \<Rightarrow> \<forall>i. 0 \<le> i \<and> i < length a \<longrightarrow> compare key (a ! i) \<noteq> 0"
    using binary_search_loop_ok [of "length a" a compare key 0] assms(2) by (auto simp: binary_search_def)
  then show ?thesis
    by (cases r) (auto simp: in_set_conv_nth)
qed

theorem binary_search_finds_witness:
  "\<exists>r. binary_search (-) 5 [1, 3, 5 :: int] 3 = Some r \<and>
     (case r of Some i \<Rightarrow> i < 3 \<and> 5 - [1, 3, 5 :: int] ! i = 0 | None \<Rightarrow> \<forall>x \<in> set [1, 3, 5 :: int]. 5 - x \<noteq> 0)"
proof -
  define a where "a = [1, 3, 5 :: int]"
  have "sorted a"
    by (simp add: a_def)
  then have ord: "\<forall>i j. i \<le> j \<and> j < length a \<longrightarrow> (5 - a ! j > 0 \<longrightarrow> 5 - a ! i > 0) \<and> (5 - a ! i < 0 \<longrightarrow> 5 - a ! j < 0)"
    using sorted_nth_mono [of a] by force
  have len: "length a < 2 ^ 32" "of_nat (length a) = (3 :: size_t)" "length a = 3"
    by (simp_all add: a_def)
  show ?thesis
    using binary_search_finds [of a "(-)" 5, OF len(1) ord] unfolding len(2) unfolding len(3) unfolding a_def .
qed

text \<open>\<^verbatim>\<open>atoi\<close> skips white space and reads a sign and decimal digits: it returns the number they stand
  for, whenever that is an \<^verbatim>\<open>int\<close>, the smallest one included.\<close>

theorem atoi_decimal:
  assumes "str_ok m p (ws @ sign @ ds @ rest)" "\<forall>c \<in> set ws. isspace (uint c)" "sign = [] \<or> sign = [43] \<or> sign = [45]"
    and "ds \<noteq> []" "\<forall>c \<in> set ds. isdigit (uint c)" "rest = [] \<or> \<not> isdigit (uint (hd rest))"
    and "decimal ds < 2 ^ 31 \<or> sign = [45] \<and> decimal ds = 2 ^ 31"
  shows "atoi m p = Some (if sign = [45] then - decimal ds else decimal ds)"
proof -
  define q where "q = p + of_nat (length ws)"
  have "sign @ ds @ rest \<noteq> []" "\<not> isspace (uint (hd (sign @ ds @ rest)))"
    using assms(3-5) by (auto simp: isspace_def isdigit_def neq_Nil_conv)
  then have skip: "skip_space m p = Some q"
    using skip_space_ok assms(1,2) unfolding str_ok_def q_def by blast
  have q: "str_at m q (sign @ ds @ rest)" "str_at m (q + of_nat (length sign)) (ds @ rest)"
    using assms(1) str_at_append [of m p ws] str_at_append [of m q sign] unfolding q_def str_ok_def by blast+
  obtain c where c: "m q = Some c" "c = 45 \<longleftrightarrow> sign = [45]" "c = 43 \<or> c = 45 \<longleftrightarrow> sign \<noteq> []"
    using q(1) assms(3-5) by (fastforce simp: neq_Nil_conv isdigit_def)
  have dig: "\<forall>c \<in> set ds. digit c" "rest = [] \<or> \<not> digit (hd rest)"
    using assms(5,6) by (auto simp: digit_def)
  have le: "decimal ds \<le> 2 ^ 31" "0 \<le> decimal ds"
    using assms(7) foldl_decimal_ge [of 0 ds] dig(1) by (auto simp: decimal_def)
  then have "atoi_digits m (q + of_nat (length sign)) 0 = Some (- decimal ds)"
    using atoi_digits_ok [OF q(2) dig, of 0] by (simp add: decimal_def)
  moreover have "(if c = 43 \<or> c = 45 then q + 1 else q) = q + of_nat (length sign)"
    using c(3) assms(3) by auto
  moreover have "to_int32 (decimal ds) = decimal ds" if "sign \<noteq> [45]"
    using assms(7) that le by (intro to_int32_id) auto
  ultimately show ?thesis
    using skip c assms(1) by (simp add: atoi_def Let_def str_ok_def)
qed

theorem atoi_decimal_witness:
  "\<exists>m. str_ok m 100 [32, 45, 50, 49, 52, 55, 52, 56, 51, 54, 52, 56] \<and> atoi m 100 = Some (- 2147483648)"
proof -
  define m where "m = write_bytes zeros 100 [32, 45, 50, 49, 52, 55, 52, 56, 51, 54, 52, 56]"
  have ok: "str_ok m 100 [32, 45, 50, 49, 52, 55, 52, 56, 51, 54, 52, 56]"
    by (simp add: m_def str_ok_def in_space_def zeros_def)
  show ?thesis
    using ok atoi_decimal [of m 100 "[32]" "[45]" "[50, 49, 52, 55, 52, 56, 51, 54, 52, 56]" "[]"]
    by (auto simp: isspace_def isdigit_def decimal_def)
qed

end
