(* ===== verification/Rc4.thy ===== *)
theory Rc4
  imports Bytes "HOL-Library.Multiset"
begin

text \<open>
  The pseudo-random numbers of \<^verbatim>\<open>lib/random.c\<close>, the stream of the cipher RC4. The state is the
  array \<^verbatim>\<open>s\<close> of 256 bytes with two indexes into it. All index arithmetic is that of
  \<^verbatim>\<open>uint8_t\<close>, so an index never leaves the array.
\<close>

subsection \<open>Operations\<close>

record rng =
  s_arr :: bytes
  s_i :: uint8_t
  s_j :: uint8_t
  inited :: bool

definition swap_byte :: "bytes \<Rightarrow> nat \<Rightarrow> nat \<Rightarrow> bytes" where
  "swap_byte s a b = s[a := s ! b, b := s ! a]"

primrec random_init_loop :: "nat \<Rightarrow> uint32_t \<Rightarrow> bytes \<Rightarrow> uint8_t \<times> bytes" where
  "random_init_loop 0 seed s = (0, s)"
| "random_init_loop (Suc i) seed s = (let (j, s) = random_init_loop i seed s;
     j = j + (s ! i + le_bytes seed ! (i mod 4))
   in (j, swap_byte s i (unat j)))"

definition random_init :: "uint32_t \<Rightarrow> rng" where
  "random_init seed = \<lparr>s_arr = snd (random_init_loop 256 seed (map of_nat [0..<256])), s_i = 0, s_j = 0, inited = True\<rparr>"

primrec random_loop :: "nat \<Rightarrow> rng \<Rightarrow> bytes \<times> rng" where
  "random_loop 0 r = ([], r)"
| "random_loop (Suc n) r = (let
     i = s_i r + 1;
     j = s_j r + s_arr r ! unat i;
     s = swap_byte (s_arr r) (unat i) (unat j);
     k = s ! unat i + s ! unat j;
     (buf, r) = random_loop n (r\<lparr>s_arr := s, s_i := i, s_j := j\<rparr>)
   in (s ! unat k # buf, r))"

definition random_bytes :: "size_t \<Rightarrow> rng \<Rightarrow> bytes \<times> rng" where
  "random_bytes sz r = random_loop (unat sz) (if inited r then r else random_init 0)"

definition random_ulong :: "rng \<Rightarrow> uint32_t \<times> rng" where
  "random_ulong r = (let (ul, r) = random_bytes 4 r in (le_word ul, r))"

subsection \<open>The state is a permutation\<close>

definition rng_ok :: "rng \<Rightarrow> bool" where
  "rng_ok r \<longleftrightarrow> (inited r \<longrightarrow> mset (s_arr r) = mset (map of_nat [0..<256]))"

lemma swap_byte_mset: "a < length s \<Longrightarrow> b < length s \<Longrightarrow> mset (swap_byte s a b) = mset s"
  by (simp add: swap_byte_def mset_swap)

lemma length_swap_byte [simp]: "length (swap_byte s a b) = length s"
  by (simp add: swap_byte_def)

lemma unat_8_less: "unat (x :: uint8_t) < 256"
  using unsigned_less [of x, where ?'a = nat] by simp

lemma random_init_loop_ok:
  "length s = 256 \<Longrightarrow> n \<le> 256 \<Longrightarrow> mset (snd (random_init_loop n seed s)) = mset s"
proof (induction n)
  case (Suc n)
  then have "length (snd (random_init_loop n seed s)) = 256"
    by (metis Suc_leD mset_eq_length)
  then show ?case
    using Suc unat_8_less by (auto simp: Let_def split_beta swap_byte_mset)
qed simp

lemma random_init_ok: "rng_ok (random_init seed)" "inited (random_init seed)"
  by (simp_all add: rng_ok_def random_init_def random_init_loop_ok)

lemma random_loop_ok:
  assumes "rng_ok r" "inited r"
  shows "rng_ok (snd (random_loop n r)) \<and> inited (snd (random_loop n r)) \<and> length (fst (random_loop n r)) = n"
  using assms
proof (induction n arbitrary: r)
  case (Suc n)
  let ?i = "s_i r + 1"
  let ?j = "s_j r + s_arr r ! unat ?i"
  let ?r = "r\<lparr>s_arr := swap_byte (s_arr r) (unat ?i) (unat ?j), s_i := ?i, s_j := ?j\<rparr>"
  have "length (s_arr r) = 256"
    using Suc.prems mset_eq_length [of "s_arr r" "map of_nat [0..<256]"] unfolding rng_ok_def by simp
  then have "rng_ok ?r" "inited ?r"
    using Suc.prems unat_8_less by (simp_all add: rng_ok_def swap_byte_mset)
  then show ?case
    using Suc.IH [of ?r] by (simp add: Let_def split_beta)
qed simp

lemma random_bytes_ok:
  assumes "rng_ok r"
  shows "rng_ok (snd (random_bytes sz r)) \<and> length (fst (random_bytes sz r)) = unat sz"
  using assms random_init_ok random_loop_ok [of "random_init 0" "unat sz"] random_loop_ok [of r "unat sz"]
  by (auto simp: random_bytes_def)

text \<open>The generator keeps its state a permutation of the 256 byte values whatever it is seeded with
  and however many bytes are drawn, and it fills exactly the bytes it was asked for.\<close>

theorem random_state_permutation:
  assumes "inited r \<longrightarrow> mset (s_arr r) = mset (map of_nat [0..<256])"
  shows "mset (s_arr (random_init seed)) = mset (map of_nat [0..<256])
    \<and> (\<exists>buf r'. random_bytes sz r = (buf, r') \<and> length buf = unat sz \<and> (inited r' \<longrightarrow> mset (s_arr r') = mset (map of_nat [0..<256])))"
  using random_bytes_ok [of r sz] assms random_init_ok [of seed] by (cases "random_bytes sz r") (auto simp: rng_ok_def)

theorem random_state_permutation_witness:
  "\<exists>buf r'. random_bytes 8 \<lparr>s_arr = replicate 256 0, s_i = 0, s_j = 0, inited = False\<rparr> = (buf, r') \<and> length buf = 8"
  using random_state_permutation [of "\<lparr>s_arr = replicate 256 0, s_i = 0, s_j = 0, inited = False\<rparr>" 0 8] by auto

end
