(* ===== verification/Args.thy ===== *)
theory Args
  imports CString Vaddr
begin

text \<open>
  How a new process gets its arguments (\<^verbatim>\<open>start_process\<close> and \<^verbatim>\<open>fill_stack\<close> of
  \<^verbatim>\<open>userprog/process.c\<close>): the command line is split into words in place, and the words and an
  array of pointers to them are put on the stack of the process. The memory is the one that the
  kernel sees while the page directory of the process is active, so that both the command line in
  kernel memory and the user stack are part of it. Local arrays of pointers are lists.
\<close>

subsection \<open>Operations\<close>

text \<open>\<open>delims\<close> is the address of the string constant that holds one space.\<close>

partial_function (option) count_tokens :: "memory \<Rightarrow> ptr \<Rightarrow> ptr \<Rightarrow> ptr \<Rightarrow> size_t \<Rightarrow> (size_t \<times> memory) option" where
  "count_tokens m delims token_count strtok_ptr argc =
     (if token_count \<noteq> NULL then do {
        (token_count, strtok_ptr, m) \<leftarrow> strtok_r m NULL delims strtok_ptr;
        count_tokens m delims token_count strtok_ptr (argc + 1) }
      else Some (argc, m))"

partial_function (option) fill_argv :: "memory \<Rightarrow> ptr \<Rightarrow> nat \<Rightarrow> ptr \<Rightarrow> ptr \<Rightarrow> ptr list \<Rightarrow> (ptr list \<times> memory) option" where
  "fill_argv m delims room token strtok_ptr argv =
     (if token \<noteq> NULL then do {
        ASSERT (length argv < room);
        let argv = argv @ [token];
        (token, strtok_ptr, m) \<leftarrow> strtok_r m NULL delims strtok_ptr;
        fill_argv m delims room token strtok_ptr argv }
      else Some (argv, m))"

definition split_args :: "memory \<Rightarrow> ptr \<Rightarrow> ptr \<Rightarrow> ptr \<Rightarrow> (size_t \<times> ptr list \<times> memory) option" where
  "split_args m file_name file_name_dup delims = do {
     len \<leftarrow> strlen m file_name;
     (_, m) \<leftarrow> strlcpy m file_name_dup file_name (len + 1);
     (token_count, strtok_ptr_count, m) \<leftarrow> strtok_r m file_name_dup delims NULL;
     (argc, m) \<leftarrow> count_tokens m delims token_count strtok_ptr_count 0;
     (token, strtok_ptr, m) \<leftarrow> strtok_r m file_name delims NULL;
     (argv, m) \<leftarrow> fill_argv m delims (unat (argc + 1)) token strtok_ptr [];
     Some (argc, argv, m) }"

definition push_word :: "ptr list \<Rightarrow> nat \<Rightarrow> ptr \<times> ptr list \<times> memory \<Rightarrow> (ptr \<times> ptr list \<times> memory) option" where
  "push_word argv index = (\<lambda>(esp, arg_addrs, m). do {
     ASSERT (index < length argv);
     len \<leftarrow> strlen m (argv ! index);
     let arg_size = len + 1;
     let esp = esp - arg_size;
     (_, m) \<leftarrow> memcpy m esp (argv ! index) arg_size;
     Some (esp, arg_addrs @ [esp], m) })"

definition fill_stack :: "memory \<Rightarrow> ptr list \<Rightarrow> size_t \<Rightarrow> ptr \<Rightarrow> (ptr \<times> memory) option" where
  "fill_stack m argv argc esp = do {
     (esp, arg_addrs, m) \<leftarrow> for_loop (unat argc) (push_word argv) (esp, [], m);
     let arg_addrs = arg_addrs @ [NULL];
     let arg_addrs_size = (argc + 1) * 4;
     let esp = esp - (esp mod 4 + arg_addrs_size);
     m \<leftarrow> store_bytes m esp (words_bytes arg_addrs);
     let esp = esp - 4;
     m \<leftarrow> store_bytes m esp (le_bytes (esp + 4));
     let esp = esp - 4;
     m \<leftarrow> store_bytes m esp (le_bytes argc);
     let esp = esp - 4;
     m \<leftarrow> store_bytes m esp (le_bytes 0);
     Some (esp, m) }"

subsection \<open>Splitting\<close>

lemma next_token_shorter:
  assumes "next_token ds s = Some (tok, rest)"
  shows "length rest < length s"
proof -
  let ?r = "dropWhile (\<lambda>c. c \<in> set ds) s"
  have r: "?r \<noteq> []" and rest: "rest = drop 1 (dropWhile (\<lambda>c. c \<notin> set ds) ?r)"
    using assms by (auto simp: next_token_def Let_def split: if_splits)
  have "0 < length ?r"
    using r by (rule length_greater_0_conv [THEN iffD2])
  moreover have "length ?r \<le> length s" "length (dropWhile (\<lambda>c. c \<notin> set ds) ?r) \<le> length ?r"
    by (rule length_dropWhile_le)+
  ultimately show ?thesis
    unfolding rest length_drop by linarith
qed

function words :: "bytes \<Rightarrow> bytes list" where
  "words s = (case next_token [32] s of None \<Rightarrow> [] | Some (tok, rest) \<Rightarrow> tok # words rest)"
  by auto
termination
  by (relation "measure length") (auto dest: next_token_shorter)

declare words.simps [simp del]

text \<open>What changes while the string is taken apart.\<close>

definition only_changed :: "(ptr \<Rightarrow> bool) \<Rightarrow> memory \<Rightarrow> memory \<Rightarrow> bool" where
  "only_changed P m m' \<longleftrightarrow> (\<forall>a. \<not> P a \<longrightarrow> m' a = m a) \<and> (\<forall>a. m' a = None \<longleftrightarrow> m a = None)"

lemma only_changed_refl: "only_changed P m m"
  by (simp add: only_changed_def)

lemma only_changed_trans: "only_changed P m m' \<Longrightarrow> only_changed Q m' m'' \<Longrightarrow> (\<And>a. P a \<Longrightarrow> R a) \<Longrightarrow> (\<And>a. Q a \<Longrightarrow> R a) \<Longrightarrow> only_changed R m m''"
  by (simp add: only_changed_def) metis

lemma only_changed_mono: "only_changed P m m' \<Longrightarrow> (\<And>a. P a \<Longrightarrow> Q a) \<Longrightarrow> only_changed Q m m'"
  using only_changed_trans only_changed_refl by blast

lemma only_changed_str: "only_changed P m m' \<Longrightarrow> str_ok m p s \<Longrightarrow> (\<And>a. within p (Suc (length s)) a \<Longrightarrow> \<not> P a) \<Longrightarrow> str_ok m' p s"
  by (rule str_ok_outside) (auto simp: only_changed_def)

lemma cut_changed: "cut m p s t tok sv rest m' \<Longrightarrow> only_changed (within p (length s)) m m'"
  by (simp add: cut_def only_changed_def)

lemma strtok_next: "sv \<noteq> NULL \<Longrightarrow> strtok_r m NULL q sv = strtok_r m sv q sv"
  by (simp add: strtok_r_def)

text \<open>\<open>apart m p n q s\<close>: the string at \<open>q\<close> does not reach into the block at \<open>p\<close>.\<close>

definition apart :: "ptr \<Rightarrow> nat \<Rightarrow> ptr \<Rightarrow> nat \<Rightarrow> bool" where
  "apart p n q k \<longleftrightarrow> unat p + n \<le> unat q \<or> unat q + k \<le> unat p"

lemma apart_within: "apart p n q k \<Longrightarrow> within p n a \<Longrightarrow> \<not> within q k a"
  by (auto simp: apart_def within_def)

lemma keep_str:
  assumes "only_changed (within sv n) m m'" "str_ok m q s" "apart sv n q (Suc (length s))"
  shows "str_ok m' q s"
  by (rule only_changed_str [OF assms(1,2)]) (use apart_within [OF assms(3)] in blast)

lemma count_tokens_ok:
  assumes "str_ok m sv rest" "str_ok m q [32]" "apart sv (length rest) q 2" "token \<noteq> NULL"
  shows "\<exists>m'. count_tokens m q token sv argc = Some (argc + 1 + of_nat (length (words rest)), m') \<and> only_changed (within sv (length rest)) m m'"
  using assms
proof (induction rest arbitrary: m sv token argc rule: words.induct)
  case (1 rest)
  have sv: "sv \<noteq> NULL"
    using 1(2) by (simp add: str_ok_def)
  show ?case
  proof (cases "next_token [32] rest")
    case None
    then have "strtok_r m NULL q sv = Some (NULL, sv + of_nat (length rest), m)"
      using strtok_r_ok [OF 1(2,3), of sv] sv by (simp add: strtok_next)
    then show ?thesis
      using 1(5) None only_changed_refl by (subst count_tokens.simps) (simp add: count_tokens.simps [of m q 0] words.simps [of rest])
  next
    case (Some p)
    obtain tok rest' where p: "p = (tok, rest')"
      by (cases p)
    obtain t sv' m' where t: "strtok_r m NULL q sv = Some (t, sv', m')" "t \<noteq> NULL" "cut m sv rest t tok sv' rest' m'"
      using strtok_r_ok [OF 1(2,3), of sv] sv Some p by (auto simp: strtok_next)
    have sub: "within sv (length rest) a" if "within sv' (length rest') a" for a
      using that t(3) by (auto simp: cut_def within_def)
    have "str_ok m' q [32]"
      using 1(4) by (intro keep_str [OF cut_changed [OF t(3)] 1(3)]) (simp add: numeral_2_eq_2)
    moreover have "apart sv' (length rest') q 2" "str_ok m' sv' rest'"
      using 1(4) t(3) by (auto simp: cut_def apart_def)
    ultimately obtain m'' where m'': "count_tokens m' q t sv' (argc + 1) = Some (argc + 1 + 1 + of_nat (length (words rest')), m'')"
        "only_changed (within sv' (length rest')) m' m''"
      using 1(1) [OF Some p [symmetric], of m' sv' t "argc + 1"] t(2) by blast
    have "only_changed (within sv (length rest)) m m''"
      using only_changed_trans [OF cut_changed [OF t(3)] m''(2)] sub by blast
    then show ?thesis
      using 1(5) t(1) m''(1) Some p by (subst count_tokens.simps) (simp add: words.simps [of rest])
  qed
qed

lemma fill_argv_ok:
  assumes "str_ok m sv rest" "str_ok m q [32]" "apart sv (length rest) q 2" "str_ok m t tok" "rest = [] \<or> unat t + length tok < unat sv"
    and "length argv + length (words rest) < room"
  shows "\<exists>ts m'. fill_argv m q room t sv argv = Some (argv @ t # ts, m') \<and> list_all2 (str_ok m') (t # ts) (tok # words rest)
    \<and> only_changed (within sv (length rest)) m m' \<and> list_all2 (\<lambda>t w. unat sv \<le> unat t \<and> unat t + length w \<le> unat sv + length rest) ts (words rest)"
  using assms
proof (induction rest arbitrary: m sv t tok argv rule: words.induct)
  case (1 rest)
  have sv: "sv \<noteq> NULL" and t: "t \<noteq> NULL"
    using 1(2,5) by (simp_all add: str_ok_def)
  have room: "length argv < room"
    using 1(7) by simp
  show ?case
  proof (cases "next_token [32] rest")
    case None
    then have "strtok_r m NULL q sv = Some (NULL, sv + of_nat (length rest), m)"
      using strtok_r_ok [OF 1(2,3), of sv] sv by (simp add: strtok_next)
    then have "fill_argv m q room t sv argv = Some (argv @ [t], m)"
      using t room by (subst fill_argv.simps) (simp add: fill_argv.simps [of m q room 0])
    then show ?thesis
      using None 1(5) only_changed_refl by (intro exI [of _ "[]"] exI [of _ m]) (simp add: words.simps [of rest])
  next
    case (Some p)
    obtain tok' rest' where p: "p = (tok', rest')"
      by (cases p)
    obtain t' sv' m' where n: "strtok_r m NULL q sv = Some (t', sv', m')" "t' \<noteq> NULL" "cut m sv rest t' tok' sv' rest' m'"
      using strtok_r_ok [OF 1(2,3), of sv] sv Some p by (auto simp: strtok_next)
    have words: "words rest = tok' # words rest'"
      using Some p by (simp add: words.simps [of rest])
    have pos: "unat sv \<le> unat t'" "unat t' + length tok' \<le> unat sv + length rest" "unat sv \<le> unat sv'" "unat sv' + length rest' = unat sv + length rest"
      using n(3) by (auto simp: cut_def)
    have "str_ok m' q [32]"
      using 1(4) by (intro keep_str [OF cut_changed [OF n(3)] 1(3)]) (simp add: numeral_2_eq_2)
    moreover have "str_ok m' sv' rest'" "str_ok m' t' tok'" "rest' = [] \<or> unat t' + length tok' < unat sv'" "apart sv' (length rest') q 2"
      using n(3) 1(4) by (auto simp: cut_def apart_def)
    ultimately obtain ts m'' where ts: "fill_argv m' q room t' sv' (argv @ [t]) = Some ((argv @ [t]) @ t' # ts, m'')"
        "list_all2 (str_ok m'') (t' # ts) (tok' # words rest')" "only_changed (within sv' (length rest')) m' m''"
        "list_all2 (\<lambda>t w. unat sv' \<le> unat t \<and> unat t + length w \<le> unat sv' + length rest') ts (words rest')"
      using 1(1) [OF Some p [symmetric], of m' sv' t' tok' "argv @ [t]"] 1(7) words by auto
    have changed: "only_changed (within sv (length rest)) m m''"
      using only_changed_trans [OF cut_changed [OF n(3)] ts(3)] pos by (auto simp: within_def)
    have "rest \<noteq> []"
      using Some by (auto simp: next_token_def)
    then have "str_ok m'' t tok"
      using 1(6) by (intro keep_str [OF changed 1(5)]) (auto simp: apart_def)
    moreover have "fill_argv m q room t sv argv = Some (argv @ t # t' # ts, m'')"
      using t room n(1) ts(1) by (subst fill_argv.simps) simp
    moreover have "list_all2 (\<lambda>t w. unat sv \<le> unat t \<and> unat t + length w \<le> unat sv + length rest) ts (words rest')"
      by (rule list_all2_mono [OF ts(4)]) (use pos in auto)
    ultimately show ?thesis
      using ts(2) changed words pos by (intro exI [of _ "t' # ts"] exI [of _ m'']) auto
  qed
qed

lemma words_length: "length (words s) \<le> length s"
proof (induction s rule: words.induct)
  case (1 s)
  show ?case
  proof (cases "next_token [32] s")
    case (Some p)
    then show ?thesis
      using 1 [OF Some] next_token_shorter [of "[32]" s] by (cases p) (fastforce simp: words.simps [of s])
  qed (simp add: words.simps [of s])
qed

lemma write_changed: "in_space p (length bs) \<Longrightarrow> mapped m p (length bs) \<Longrightarrow> only_changed (within p (length bs)) m (write_bytes m p bs)"
  unfolding only_changed_def using within_mapped [of m p "length bs"] by (simp add: write_apply)

lemma apart_sym: "apart p n q k \<Longrightarrow> apart q k p n"
  by (auto simp: apart_def)

lemma apart_le: "apart p n q k \<Longrightarrow> n' \<le> n \<Longrightarrow> k' \<le> k \<Longrightarrow> apart p n' q k'"
  by (auto simp: apart_def)

text \<open>The first call of \<^verbatim>\<open>strtok_r\<close> and the loop behind it.\<close>

lemma count_all_ok:
  assumes "str_ok m p s" "str_ok m q [32]" "apart p (length s) q 2"
  shows "\<exists>token sv m1 m'. strtok_r m p q NULL = Some (token, sv, m1) \<and> count_tokens m1 q token sv 0 = Some (of_nat (length (words s)), m')
    \<and> only_changed (within p (length s)) m m'"
proof (cases "next_token [32] s")
  case None
  then show ?thesis
    using strtok_r_ok [OF assms(1,2), of NULL] only_changed_refl by (simp add: count_tokens.simps words.simps [of s])
next
  case (Some r)
  then obtain tok rest where r: "next_token [32] s = Some (tok, rest)"
    by (cases r) simp
  obtain t sv m1 where t: "strtok_r m p q NULL = Some (t, sv, m1)" "t \<noteq> NULL" "cut m p s t tok sv rest m1"
    using strtok_r_ok [OF assms(1,2), of NULL] r by auto
  have "str_ok m1 q [32]"
    using assms(3) by (intro keep_str [OF cut_changed [OF t(3)] assms(2)]) (simp add: numeral_2_eq_2)
  moreover have "str_ok m1 sv rest" "apart sv (length rest) q 2"
    using t(3) assms(3) by (auto simp: cut_def apart_def)
  ultimately obtain m' where m': "count_tokens m1 q t sv 0 = Some (1 + of_nat (length (words rest)), m')" "only_changed (within sv (length rest)) m1 m'"
    using count_tokens_ok [of m1 sv rest q t 0] t(2) by auto
  have "only_changed (within p (length s)) m m'"
    using only_changed_trans [OF cut_changed [OF t(3)] m'(2)] t(3) by (auto simp: cut_def within_def)
  then show ?thesis
    using t(1) m'(1) r by (simp add: words.simps [of s])
qed

lemma fill_all_ok:
  assumes "str_ok m p s" "str_ok m q [32]" "apart p (length s) q 2" "length (words s) < room"
  shows "\<exists>token sv m1 m' ts. strtok_r m p q NULL = Some (token, sv, m1) \<and> fill_argv m1 q room token sv [] = Some (ts, m')
    \<and> list_all2 (str_ok m') ts (words s) \<and> only_changed (within p (length s)) m m'
    \<and> list_all2 (\<lambda>t w. unat p \<le> unat t \<and> unat t + length w \<le> unat p + length s) ts (words s)"
proof (cases "next_token [32] s")
  case None
  then show ?thesis
    using strtok_r_ok [OF assms(1,2), of NULL] only_changed_refl by (simp add: fill_argv.simps words.simps [of s])
next
  case (Some r)
  then obtain tok rest where r: "next_token [32] s = Some (tok, rest)"
    by (cases r) simp
  then have words: "words s = tok # words rest"
    by (simp add: words.simps [of s])
  obtain t sv m1 where t: "strtok_r m p q NULL = Some (t, sv, m1)" "t \<noteq> NULL" "cut m p s t tok sv rest m1"
    using strtok_r_ok [OF assms(1,2), of NULL] r by auto
  have "str_ok m1 q [32]"
    using assms(3) by (intro keep_str [OF cut_changed [OF t(3)] assms(2)]) (simp add: numeral_2_eq_2)
  moreover have "str_ok m1 sv rest" "apart sv (length rest) q 2" "str_ok m1 t tok" "rest = [] \<or> unat t + length tok < unat sv"
    using t(3) assms(3) by (auto simp: cut_def apart_def)
  ultimately obtain ts m' where m': "fill_argv m1 q room t sv [] = Some (t # ts, m')" "list_all2 (str_ok m') (t # ts) (tok # words rest)"
      "only_changed (within sv (length rest)) m1 m'"
      "list_all2 (\<lambda>t w. unat sv \<le> unat t \<and> unat t + length w \<le> unat sv + length rest) ts (words rest)"
    using fill_argv_ok [of m1 sv rest q t tok "[]" room] assms(4) words by auto
  have "only_changed (within p (length s)) m m'"
    using only_changed_trans [OF cut_changed [OF t(3)] m'(3)] t(3) by (auto simp: cut_def within_def)
  moreover have "list_all2 (\<lambda>t w. unat p \<le> unat t \<and> unat t + length w \<le> unat p + length s) ts (words rest)"
    by (rule list_all2_mono [OF m'(4)]) (use t(3) in \<open>auto simp: cut_def\<close>)
  ultimately show ?thesis
    using t(1,3) m'(1,2) words by (auto simp: cut_def)
qed

lemma split_args_ok:
  assumes f: "str_ok m f s" and q: "str_ok m q [32]" "apart f (length s) q 2"
    and dup: "dup \<noteq> NULL" "mapped m dup (Suc (length s))" "in_space dup (Suc (length s))" "apart dup (Suc (length s)) f (Suc (length s))" "apart dup (Suc (length s)) q 2"
  obtains argv m' where "split_args m f dup q = Some (of_nat (length (words s)), argv, m')" "list_all2 (str_ok m') argv (words s)"
    "only_changed (\<lambda>a. within f (length s) a \<or> within dup (Suc (length s)) a) m m'"
    "list_all2 (\<lambda>t w. unat f \<le> unat t \<and> unat t + length w \<le> unat f + length s) argv (words s)"
proof -
  have len: "unat (of_nat (length s) + 1 :: size_t) = Suc (length s)" "length s < 2 ^ 32"
    using f by (simp_all add: str_ok_def in_space_def unat_word_ariths unat_of_nat)
  define m1 where "m1 = write_bytes m dup (s @ [0])"
  have c1: "only_changed (within dup (Suc (length s))) m m1"
    using write_changed [of dup "s @ [0]" m] dup(2,3) by (simp add: m1_def)
  have "strlcpy m dup f (of_nat (length s) + 1) = Some (of_nat (length s), m1)"
    using strlcpy_ok [OF f, of "of_nat (length s) + 1" dup] dup len(1) by (simp add: m1_def apart_def word_less_nat_alt)
  moreover have "strlen m f = Some (of_nat (length s))"
    using f by (simp add: strlen_ok str_ok_def)
  moreover have d1: "str_ok m1 dup s"
    using f dup(1,3) str_at_write [of s dup m] by (simp add: m1_def str_ok_def str_at_def)
  have f1: "str_ok m1 f s" and q1: "str_ok m1 q [32]"
    using keep_str [OF c1 f] keep_str [OF c1 q(1)] dup(4,5) by (simp_all add: numeral_2_eq_2)
  obtain token sv m2 m3 where cnt: "strtok_r m1 dup q NULL = Some (token, sv, m2)" "count_tokens m2 q token sv 0 = Some (of_nat (length (words s)), m3)"
      "only_changed (within dup (length s)) m1 m3"
    using count_all_ok [OF d1 q1] apart_le [OF dup(5)] by auto
  have f3: "str_ok m3 f s" and q3: "str_ok m3 q [32]"
    using keep_str [OF cnt(3) f1 apart_le [OF dup(4)]] keep_str [OF cnt(3) q1 apart_le [OF dup(5)]] by simp_all
  have room: "unat (of_nat (length (words s)) + 1 :: size_t) = Suc (length (words s))"
    using words_length [of s] f by (simp add: str_ok_def in_space_def unat_word_ariths unat_of_nat)
  obtain token' sv' m4 m5 ts where fill: "strtok_r m3 f q NULL = Some (token', sv', m4)"
      "fill_argv m4 q (Suc (length (words s))) token' sv' [] = Some (ts, m5)" "list_all2 (str_ok m5) ts (words s)" "only_changed (within f (length s)) m3 m5"
      "list_all2 (\<lambda>t w. unat f \<le> unat t \<and> unat t + length w \<le> unat f + length s) ts (words s)"
    using fill_all_ok [OF f3 q3 q(2), of "Suc (length (words s))"] by auto
  have c: "only_changed (\<lambda>a. within f (length s) a \<or> within dup (Suc (length s)) a) m m5"
    by (rule only_changed_trans [OF only_changed_trans [OF c1 cnt(3), of "within dup (Suc (length s))"] fill(4)]) (auto simp: within_def)
  ultimately show thesis
    using that [OF _ fill(3) c fill(5)] cnt(1,2) fill(1,2) room by (simp add: split_args_def)
qed

subsection \<open>The stack\<close>

definition space :: "bytes list \<Rightarrow> nat" where
  "space ws = sum_list (map (\<lambda>w. Suc (length w)) ws)"

lemma space_take: "i < length ws \<Longrightarrow> space (take (Suc i) ws) = space (take i ws) + Suc (length (ws ! i))"
  by (simp add: space_def take_Suc_conv_app_nth)

lemma space_take_le: "space (take i ws) \<le> space ws"
proof -
  have "space ws = space (take i ws) + space (drop i ws)"
    unfolding space_def by (metis append_take_drop_id map_append sum_list_append)
  then show ?thesis
    by simp
qed

text \<open>Addresses of the stack from \<open>lo\<close> up to \<open>hi\<close>.\<close>

definition region :: "nat \<Rightarrow> nat \<Rightarrow> ptr \<Rightarrow> bool" where
  "region lo hi a \<longleftrightarrow> lo \<le> unat a \<and> unat a < hi"

definition stack :: "memory \<Rightarrow> nat \<Rightarrow> nat \<Rightarrow> bool" where
  "stack m lo hi \<longleftrightarrow> 0 < lo \<and> (\<forall>a. region lo hi a \<longrightarrow> m a \<noteq> None)"

lemma unat_minus: "n \<le> unat p \<Longrightarrow> unat (p - of_nat n :: ptr) = unat p - n"
proof -
  assume "n \<le> unat p"
  moreover have "unat (of_nat n :: ptr) = n"
    using calculation unat_32_less [of p] by (simp add: unat_of_nat)
  ultimately show ?thesis
    by (simp add: unat_sub_if')
qed

lemma stack_block:
  assumes "stack m lo hi" "lo \<le> unat p" "unat p + n \<le> hi" "hi < 2 ^ 32"
  shows "mapped m p n" "in_space p n" "p \<noteq> NULL"
proof -
  show sp: "in_space p n"
    using assms(3,4) by (simp add: in_space_def)
  show "mapped m p n"
    unfolding mapped_nth using assms unat_offset [OF sp] by (simp add: stack_def region_def)
  show "p \<noteq> NULL"
    using assms(1,2) by (auto simp: stack_def)
qed

lemma stack_changed: "only_changed P m m' \<Longrightarrow> stack m lo hi \<Longrightarrow> stack m' lo hi"
  by (simp add: stack_def only_changed_def)

lemma push_words_step:
  assumes st: "stack m lo hi" and e: "lo + Suc (length w) \<le> unat e" "unat e \<le> hi" "hi < 2 ^ 32"
    and w: "str_ok m t w" "unat t + Suc (length w) \<le> lo \<or> hi \<le> unat t"
  shows "\<exists>m'. strlen m t = Some (of_nat (length w)) \<and> memcpy m (e - (of_nat (length w) + 1)) t (of_nat (length w) + 1) = Some (e - (of_nat (length w) + 1), m')
    \<and> str_ok m' (e - (of_nat (length w) + 1)) w \<and> unat (e - (of_nat (length w) + 1)) = unat e - Suc (length w)
    \<and> only_changed (region (unat e - Suc (length w)) (unat e)) m m'"
proof -
  let ?n = "Suc (length w)" and ?p = "e - (of_nat (length w) + 1)"
  have eq: "of_nat (length w) + 1 = (of_nat ?n :: ptr)"
    by simp
  have p: "unat ?p = unat e - ?n"
    unfolding eq using e(1) by (intro unat_minus) simp
  note blk = stack_block [OF st, of ?p ?n]
  have blk: "mapped m ?p ?n" "in_space ?p ?n" "?p \<noteq> NULL"
    using blk p e by simp_all
  have t: "bytes_at m t (w @ [0])" "in_space t ?n" "t \<noteq> NULL" "0 \<notin> set w"
    using w(1) by (simp_all add: str_ok_def str_at_def)
  define m' where "m' = write_bytes m ?p (w @ [0])"
  have "memcpy m ?p t (of_nat (length (w @ [0]))) = Some (?p, m')"
    unfolding m'_def using blk t w(2) p e by (intro memcpy_ok) auto
  moreover have "str_ok m' ?p w"
    using blk t(4) str_at_write [of w ?p m] by (simp add: str_ok_def m'_def)
  moreover have "only_changed (within ?p ?n) m m'"
    using write_changed [of ?p "w @ [0]" m] blk by (simp add: m'_def)
  then have "only_changed (region (unat e - ?n) (unat e)) m m'"
    by (rule only_changed_mono) (use p e in \<open>auto simp: within_def region_def\<close>)
  ultimately show ?thesis
    using p w(1) unfolding eq [symmetric] by (auto simp: strlen_ok str_ok_def ac_simps)
qed

text \<open>The state of the loop when the words \<open>ws\<close> are on the stack.\<close>

definition pushed :: "memory \<Rightarrow> ptr \<Rightarrow> bytes list \<Rightarrow> ptr \<times> ptr list \<times> memory \<Rightarrow> bool" where
  "pushed m esp ws = (\<lambda>(e, addrs, m'). e = esp - of_nat (space ws) \<and> list_all2 (str_ok m') addrs ws
    \<and> only_changed (region (unat esp - space ws) (unat esp)) m m'
    \<and> list_all2 (\<lambda>t w. unat esp - space ws \<le> unat t \<and> unat t + Suc (length w) \<le> unat esp) addrs ws)"

lemma push_word_ok:
  assumes st: "stack m lo (unat esp)" and room: "lo + space ws + Suc (length w) \<le> unat esp"
    and t: "i < length argv" "str_ok m (argv ! i) w" "unat (argv ! i) + Suc (length w) \<le> lo \<or> unat esp \<le> unat (argv ! i)"
    and r: "pushed m esp ws r"
  shows "\<exists>r'. push_word argv i r = Some r' \<and> pushed m esp (ws @ [w]) r'"
proof -
  let ?t = "argv ! i"
  obtain e addrs m1 where e: "r = (e, addrs, m1)" "e = esp - of_nat (space ws)" "list_all2 (str_ok m1) addrs ws"
    "only_changed (region (unat esp - space ws) (unat esp)) m m1"
    "list_all2 (\<lambda>t w. unat esp - space ws \<le> unat t \<and> unat t + Suc (length w) \<le> unat esp) addrs ws"
    using r by (auto simp: pushed_def)
  have sp: "space (ws @ [w]) = space ws + Suc (length w)"
    by (simp add: space_def)
  have ue: "unat e = unat esp - space ws"
    unfolding e(2) using room by (intro unat_minus) simp
  have h: "lo + Suc (length w) \<le> unat e" "unat e \<le> unat esp" "unat esp < 2 ^ 32"
    using ue room unat_32_less [of esp] by simp_all
  have src: "str_ok m1 ?t w"
    using t(3) room by (intro only_changed_str [OF e(4) t(2)]) (auto simp: region_def within_def)
  obtain m2 where m2: "strlen m1 ?t = Some (of_nat (length w))"
    "memcpy m1 (e - (of_nat (length w) + 1)) ?t (of_nat (length w) + 1) = Some (e - (of_nat (length w) + 1), m2)"
    "str_ok m2 (e - (of_nat (length w) + 1)) w" "unat (e - (of_nat (length w) + 1)) = unat e - Suc (length w)"
    "only_changed (region (unat e - Suc (length w)) (unat e)) m1 m2"
    using push_words_step [OF stack_changed [OF e(4) st] h src t(3)] by blast
  have "only_changed (region (unat esp - space (ws @ [w])) (unat esp)) m m2"
    by (rule only_changed_trans [OF e(4) m2(5)]) (use ue sp room in \<open>auto simp: region_def\<close>)
  moreover have "str_ok m2 p v" if "str_ok m1 p v" "unat esp - space ws \<le> unat p" for p v
    using that(2) ue by (intro only_changed_str [OF m2(5) that(1)]) (auto simp: region_def within_def)
  then have "list_all2 (str_ok m2) (addrs @ [e - (of_nat (length w) + 1)]) (ws @ [w])"
    using e(3,5) m2(3) by (auto simp: list_all2_conv_all_nth nth_append)
  moreover have "list_all2 (\<lambda>t v. unat esp - space (ws @ [w]) \<le> unat t \<and> unat t + Suc (length v) \<le> unat esp) (addrs @ [e - (of_nat (length w) + 1)]) (ws @ [w])"
    using e(5) m2(4) ue sp room by (fastforce simp: list_all2_conv_all_nth nth_append)
  moreover have "e - (of_nat (length w) + 1) = esp - of_nat (space (ws @ [w]))"
    by (simp add: e(2) sp)
  ultimately show ?thesis
    using e(1) t(1) m2(1,2) by (intro exI [of _ "(e - (of_nat (length w) + 1), addrs @ [e - (of_nat (length w) + 1)], m2)"]) (simp add: push_word_def pushed_def Let_def)
qed

lemma push_words_ok:
  assumes st: "stack m lo (unat esp)" and room: "lo + space ws \<le> unat esp"
    and argv: "list_all2 (str_ok m) argv ws" "list_all2 (\<lambda>t w. unat t + Suc (length w) \<le> lo \<or> unat esp \<le> unat t) argv ws"
  shows "\<exists>r. for_loop (length ws) (push_word argv) (esp, [], m) = Some r \<and> pushed m esp ws r"
proof -
  have "\<exists>r. for_loop (length ws) (push_word argv) (esp, [], m) = Some r \<and> pushed m esp (take (length ws) ws) r"
  proof (rule for_loop_invariant)
    show "pushed m esp (take 0 ws) (esp, [], m)"
      by (simp add: pushed_def space_def only_changed_refl)
  next
    fix i r
    assume i: "i < length ws" and r: "pushed m esp (take i ws) r"
    have "space (take (Suc i) ws) \<le> space ws"
      by (rule space_take_le)
    then have "lo + space (take i ws) + Suc (length (ws ! i)) \<le> unat esp"
      using room space_take [OF i] by simp
    from push_word_ok [OF st this _ _ _ r, of i argv] show "\<exists>r'. push_word argv i r = Some r' \<and> pushed m esp (take (Suc i) ws) r'"
      using i argv by (simp add: take_Suc_conv_app_nth list_all2_conv_all_nth)
  qed
  then show ?thesis
    by simp
qed

lemma push_block:
  assumes st: "stack m lo hi" "hi < 2 ^ 32" and p: "lo + length xs \<le> unat p" "unat p + length bs \<le> hi" "bytes_at m p bs"
  obtains m' where "store_bytes m (p - of_nat (length xs)) xs = Some m'" "bytes_at m' (p - of_nat (length xs)) (xs @ bs)"
    "only_changed (region (unat p - length xs) (unat p)) m m'" "unat (p - of_nat (length xs)) = unat p - length xs"
proof -
  let ?q = "p - of_nat (length xs)"
  have q: "unat ?q = unat p - length xs"
    using p(1) by (intro unat_minus) simp
  have blk: "mapped m ?q (length xs)" "in_space ?q (length xs)"
    using stack_block [OF st(1), of ?q "length xs"] st(2) p q by simp_all
  have changed: "only_changed (region (unat p - length xs) (unat p)) m (write_bytes m ?q xs)"
    by (rule only_changed_mono [OF write_changed [OF blk(2,1)]]) (use q p in \<open>auto simp: within_def region_def\<close>)
  have "in_space p (length bs)"
    using p st(2) by (simp add: in_space_def)
  then have "bytes_at (write_bytes m ?q xs) p bs"
    by (rule bytes_at_outside [OF p(3)]) (use q p blk(2) in \<open>auto simp: within_def write_outside\<close>)
  then have "bytes_at (write_bytes m ?q xs) ?q (xs @ bs)"
    using bytes_at_write [OF blk(2)] by (simp add: bytes_at_append)
  then show thesis
    using that store_bytes_ok [OF blk(1)] changed q by blast
qed

lemma push_int:
  assumes st: "stack m lo hi" "hi < 2 ^ 32" and p: "lo + 4 \<le> unat p" "unat p + length bs \<le> hi" "bytes_at m p bs"
  obtains m' where "store_bytes m (p - 4) (le_bytes w) = Some m'" "bytes_at m' (p - 4) (le_bytes w @ bs)"
    "only_changed (region (unat p - 4) (unat p)) m m'" "unat (p - 4) = unat p - 4"
proof -
  have len: "length (le_bytes w) = 4" "of_nat (length (le_bytes w)) = (4 :: ptr)"
    by (simp_all add: le_bytes_def)
  show thesis
    by (rule push_block [OF st, of "le_bytes w" p bs, unfolded len of_nat_numeral, OF p]) (rule that)
qed

text \<open>The frame at the top of the stack: return address, argc, argv and the pointers to the words.\<close>

definition frame :: "ptr \<Rightarrow> ptr list \<Rightarrow> uint32_t list" where
  "frame esp addrs = [0, of_nat (length addrs), esp + 12] @ addrs @ [NULL]"

definition frame_size :: "ptr \<Rightarrow> bytes list \<Rightarrow> nat" where
  "frame_size esp ws = space ws + (unat esp - space ws) mod 4 + 4 * (length ws + 4)"

text \<open>One more word below the block \<open>bs\<close> at \<open>p\<close>; \<open>frame_at\<close> is what the pushes keep.\<close>

definition frame_at :: "memory \<Rightarrow> nat \<Rightarrow> nat \<Rightarrow> memory \<Rightarrow> ptr \<Rightarrow> bytes \<Rightarrow> bool" where
  "frame_at m lo hi m' p bs \<longleftrightarrow> stack m' lo hi \<and> unat p + length bs \<le> hi \<and> bytes_at m' p bs \<and> only_changed (region (unat p) hi) m m'"

lemma push_frame_int:
  assumes "frame_at m lo hi m1 p bs" "hi < 2 ^ 32" "lo + 4 \<le> unat p"
  obtains m2 where "store_bytes m1 (p - 4) (le_bytes w) = Some m2" "frame_at m lo hi m2 (p - 4) (le_bytes w @ bs)" "unat (p - 4) = unat p - 4"
proof -
  obtain m2 where m2: "store_bytes m1 (p - 4) (le_bytes w) = Some m2" "bytes_at m2 (p - 4) (le_bytes w @ bs)"
      "only_changed (region (unat p - 4) (unat p)) m1 m2" "unat (p - 4) = unat p - 4"
    using assms push_int [of m1 lo hi p bs] unfolding frame_at_def by blast
  have "only_changed (region (unat (p - 4)) hi) m m2"
    using assms m2(4) by (intro only_changed_trans [OF _ m2(3), of "region (unat p) hi"]) (auto simp: region_def frame_at_def)
  moreover have "unat (p - 4) + length (le_bytes w @ bs) \<le> hi" "stack m2 lo hi"
    using assms m2(4) stack_changed [OF m2(3)] by (simp_all add: frame_at_def)
  ultimately show thesis
    using that m2 by (simp add: frame_at_def)
qed

lemma push_frame:
  fixes e :: ptr
  assumes st: "stack m lo (unat e)" and room: "lo + k + 4 * (length addrs + 4) \<le> unat e" and k: "unat e mod 4 = k"
    and p: "p = e - (e mod 4 + (of_nat (length addrs) + 1) * 4)" and ps: "p1 = p - 4" "p2 = p1 - 4" "p3 = p2 - 4"
  obtains m1 m2 m3 m4 where "store_bytes m p (words_bytes (addrs @ [NULL])) = Some m1" "store_bytes m1 p1 (le_bytes p) = Some m2"
    "store_bytes m2 p2 (le_bytes (of_nat (length addrs))) = Some m3" "store_bytes m3 p3 (le_bytes 0) = Some m4"
    "frame_at m lo (unat e) m4 p3 (words_bytes (frame p3 addrs))" "unat p3 = unat e - (k + 4 * (length addrs + 4))"
proof -
  let ?n = "length addrs" and ?ab = "words_bytes (addrs @ [NULL])"
  have lt: "unat e < 2 ^ 32"
    by (rule unat_32_less)
  have lab: "length ?ab = 4 * (?n + 1)"
    by simp
  have "e mod 4 + (of_nat ?n + 1) * 4 = (of_nat (k + 4 * (?n + 1)) :: ptr)"
    by (rule word_unat_eq_iff [THEN iffD2]) (use room lt k in \<open>simp add: unat_mod unat_of_nat unat_word_ariths\<close>)
  then have "p = e - of_nat (k + 4 * (?n + 1))"
    unfolding p by (rule arg_cong)
  then have u: "unat p = unat e - (k + 4 * (?n + 1))"
    using unat_minus [of "k + 4 * (?n + 1)" e] room by simp
  have blk: "mapped m p (length ?ab)" "in_space p (length ?ab)"
    using stack_block [OF st, of p "length ?ab"] lt u lab room by simp_all
  define m1 where "m1 = write_bytes m p ?ab"
  have c1: "only_changed (region (unat p) (unat e)) m m1"
    unfolding m1_def by (rule only_changed_mono [OF write_changed [OF blk(2,1)]]) (use u lab room in \<open>auto simp: within_def region_def\<close>)
  have m1: "store_bytes m p ?ab = Some m1"
    using store_bytes_ok [OF blk(1)] by (simp add: m1_def)
  have f1: "frame_at m lo (unat e) m1 p ?ab"
    using bytes_at_write [OF blk(2)] stack_changed [OF c1 st] c1 u lab room by (simp add: frame_at_def m1_def)
  obtain m2 where m2: "store_bytes m1 p1 (le_bytes p) = Some m2" "frame_at m lo (unat e) m2 p1 (le_bytes p @ ?ab)" "unat p1 = unat p - 4"
    unfolding ps(1) by (rule push_frame_int [OF f1 lt]) (use u room in simp)
  obtain m3 where m3: "store_bytes m2 p2 (le_bytes (of_nat ?n)) = Some m3" "frame_at m lo (unat e) m3 p2 (le_bytes (of_nat ?n) @ le_bytes p @ ?ab)"
      "unat p2 = unat p1 - 4"
    unfolding ps(2) by (rule push_frame_int [OF m2(2) lt]) (use u room m2(3) in simp)
  obtain m4 where m4: "store_bytes m3 p3 (le_bytes 0) = Some m4" "frame_at m lo (unat e) m4 p3 (le_bytes 0 @ le_bytes (of_nat ?n) @ le_bytes p @ ?ab)"
      "unat p3 = unat p2 - 4"
    unfolding ps(3) by (rule push_frame_int [OF m3(2) lt]) (use u room m2(3) m3(3) in simp)
  have "words_bytes (frame p3 addrs) = le_bytes 0 @ le_bytes (of_nat ?n) @ le_bytes p @ ?ab"
    by (simp add: frame_def words_bytes_def ps)
  moreover have "unat p3 = unat e - (k + 4 * (?n + 4))"
    unfolding m4(3) m3(3) m2(3) u by simp
  ultimately show thesis
    using that [OF m1 m2(1) m3(1) m4(1)] m4(2) by simp
qed

lemma fill_stack_ok:
  assumes st: "stack m lo (unat esp)" and room: "lo + frame_size esp ws \<le> unat esp"
    and argv: "list_all2 (str_ok m) argv ws" "list_all2 (\<lambda>t w. unat t + Suc (length w) \<le> lo \<or> unat esp \<le> unat t) argv ws"
  obtains esp' m' addrs where "fill_stack m argv (of_nat (length ws)) esp = Some (esp', m')" "unat esp' = unat esp - frame_size esp ws" "4 dvd unat esp'"
    "bytes_at m' esp' (words_bytes (frame esp' addrs))" "list_all2 (str_ok m') addrs ws" "only_changed (region (unat esp') (unat esp)) m m'"
proof -
  let ?n = "length ws" and ?s = "space ws"
  define e where "e = esp - of_nat ?s"
  have n: "unat (of_nat ?n :: size_t) = ?n" 
    using room unat_32_less [of esp] by (simp add: frame_size_def unat_of_nat)
  obtain addrs m1 where r: "for_loop ?n (push_word argv) (esp, [], m) = Some (e, addrs, m1)" "list_all2 (str_ok m1) addrs ws"
      "only_changed (region (unat esp - ?s) (unat esp)) m m1" 
      "list_all2 (\<lambda>t w. unat esp - ?s \<le> unat t \<and> unat t + Suc (length w) \<le> unat esp) addrs ws"
    using push_words_ok [OF st _ argv] room by (auto simp: frame_size_def pushed_def e_def)
  have la: "length addrs = ?n"
    using r(2) by (rule list_all2_lengthD)
  have e: "unat e = unat esp - ?s"
    unfolding e_def using room by (intro unat_minus) (simp add: frame_size_def)
  have st1: "stack m1 lo (unat e)"
    using stack_changed [OF r(3) st] e by (auto simp: stack_def region_def)
  define k where "k = unat e mod 4"
  have fs: "frame_size esp ws = ?s + k + 4 * (?n + 4)"
    unfolding frame_size_def k_def e ..
  have room1: "lo + k + 4 * (length addrs + 4) \<le> unat e"
    using room e la fs by simp
  define p p1 p2 q where "p = e - (e mod 4 + (of_nat (length addrs) + 1) * 4)" and ps: "p1 = p - 4" "p2 = p1 - 4" "q = p2 - 4"
  obtain m2 m3 m4 m5 where f: "store_bytes m1 p (words_bytes (addrs @ [NULL])) = Some m2" "store_bytes m2 p1 (le_bytes p) = Some m3"
    "store_bytes m3 p2 (le_bytes (of_nat (length addrs))) = Some m4" "store_bytes m4 q (le_bytes 0) = Some m5"
    "frame_at m1 lo (unat e) m5 q (words_bytes (frame q addrs))" "unat q = unat e - (k + 4 * (length addrs + 4))"
    by (rule push_frame [OF st1 room1 k_def [symmetric] p_def ps])
  have p1: "p1 + 4 = p"
    by (simp add: ps)
  have "fill_stack m argv (of_nat ?n) esp = Some (q, m5)"
    unfolding fill_stack_def n Let_def r(1) by (simp only: bind.simps prod.case p_def [unfolded la, symmetric] ps [symmetric] p1 f(1,2) f(3,4) [unfolded la])
  moreover have u: "unat q = unat esp - frame_size esp ws"
    unfolding f(6) e la fs by simp
  moreover have "unat e = 4 * (unat e div 4) + k"
    by (simp add: k_def)
  then have "unat q = 4 * (unat e div 4 - (length addrs + 4))"
    unfolding f(6) diff_mult_distrib2 by linarith
  then have "4 dvd unat q"
    by simp
  moreover have c: "only_changed (region (unat q) (unat e)) m1 m5"
    using f(5) by (simp add: frame_at_def)
  have "list_all2 (str_ok m5) addrs ws"
  proof -
    have "str_ok m5 t w" if "str_ok m1 t w" "unat esp - ?s \<le> unat t" for t w
      using that(2) e by (intro only_changed_str [OF c that(1)]) (auto simp: region_def within_def)
    then show ?thesis
      using r(2,4) by (auto simp: list_all2_conv_all_nth)
  qed
  moreover have "only_changed (region (unat q) (unat esp)) m m5"
    by (rule only_changed_trans [OF r(3) c]) (use u e room fs in \<open>auto simp: region_def\<close>)
  moreover have "bytes_at m5 q (words_bytes (frame q addrs))"
    using f(5) by (simp add: frame_at_def)
  ultimately show thesis
    using that by blast
qed

subsection \<open>Properties\<close>

lemma words_spec: "concat (words s) = filter (\<lambda>c. c \<noteq> 32) s \<and> (\<forall>w \<in> set (words s). w \<noteq> [] \<and> 32 \<notin> set w)"
proof (induction s rule: words.induct)
  case (1 s)
  let ?r = "dropWhile (\<lambda>c. c = 32) s"
  let ?tok = "takeWhile (\<lambda>c. c \<noteq> 32) ?r" and ?rest = "drop 1 (dropWhile (\<lambda>c. c \<noteq> 32) ?r)"
  have lead: "filter (\<lambda>c. c \<noteq> 32) s = filter (\<lambda>c. c \<noteq> 32) ?r"
    by (induction s) auto
  have split: "filter (\<lambda>c. c \<noteq> 32) xs = takeWhile (\<lambda>c. c \<noteq> 32) xs @ filter (\<lambda>c. c \<noteq> 32) (drop 1 (dropWhile (\<lambda>c. c \<noteq> 32) xs))" for xs :: bytes
    by (induction xs) auto
  show ?case
  proof (cases "?r = []")
    case True
    then show ?thesis
      using lead by (simp add: words.simps [of s] next_token_def)
  next
    case False
    then have n: "next_token [32] s = Some (?tok, ?rest)"
      by (simp add: next_token_def Let_def)
    have "?tok \<noteq> []"
      using False hd_dropWhile [OF False] by (cases ?r) auto
    moreover have "32 \<notin> set ?tok"
      using set_takeWhileD by fastforce
    ultimately show ?thesis
      using "1.IH" [OF n refl] lead split [of ?r] n by (simp add: words.simps [of s])
  qed
qed

text \<open>Hypotheses of the property: the command line, its copy and the delimiter are strings of
  kernel memory that do not overlap, and the page under the top of user memory is mapped.\<close>

definition startable :: "memory \<Rightarrow> ptr \<Rightarrow> bytes \<Rightarrow> ptr \<Rightarrow> ptr \<Rightarrow> bool" where
  "startable m file_name s file_name_dup delims \<longleftrightarrow> str_ok m file_name s \<and> str_ok m delims [32]
     \<and> mapped m file_name_dup (Suc (length s)) \<and> in_space file_name_dup (Suc (length s))
     \<and> unat PHYS_BASE \<le> unat file_name \<and> unat PHYS_BASE \<le> unat file_name_dup \<and> unat PHYS_BASE \<le> unat delims
     \<and> apart file_name (length s) delims 2 \<and> apart file_name_dup (Suc (length s)) file_name (Suc (length s)) \<and> apart file_name_dup (Suc (length s)) delims 2
     \<and> mapped m (PHYS_BASE - PGSIZE) (unat PGSIZE)"

text \<open>C15: A new process finds its command line on its stack as the C calling convention wants it.
  When the kernel holds the command line \<open>s\<close> and the stack page under \<open>PHYS_BASE\<close> is mapped and has
  room, splitting the line and filling the stack both return; the count is the number of words of
  \<open>s\<close>; the stack pointer is aligned to 4 and at it stand, as 32-bit words, a return address 0, the
  count, the address of the array that follows, and that array: one pointer for each word, in the
  order of the line, and a null pointer; each pointer refers to a copy of its word, terminated. No byte of memory changes
  but those of the stack from the stack pointer on, of the command line, in which the ends of the
  words are marked, and of the copy of it that the kernel makes.\<close>

theorem args_on_stack:
  assumes "startable m file_name s file_name_dup delims" "frame_size PHYS_BASE (words s) \<le> unat PGSIZE"
  shows "\<exists>argc argv m1 esp m2 addrs. split_args m file_name file_name_dup delims = Some (argc, argv, m1) \<and> unat argc = length (words s)
    \<and> fill_stack m1 argv argc PHYS_BASE = Some (esp, m2) \<and> unat esp = unat PHYS_BASE - frame_size PHYS_BASE (words s) \<and> 4 dvd unat esp
    \<and> bytes_at m2 esp (words_bytes ([0, argc, esp + 12] @ addrs @ [NULL])) \<and> list_all2 (str_ok m2) addrs (words s)
    \<and> (\<forall>a. m2 a \<noteq> m a \<longrightarrow> unat esp \<le> unat a \<and> unat a < unat PHYS_BASE \<or> within file_name (length s) a \<or> within file_name_dup (Suc (length s)) a)"
proof -
  have u: "unat PHYS_BASE = 3221225472" "unat (PHYS_BASE - PGSIZE) = 3221221376" "unat PGSIZE = 4096"
    by (simp_all add: PHYS_BASE_def PGSIZE_def)
  note h = assms(1) [unfolded startable_def]
  have dup: "file_name_dup \<noteq> NULL"
    using h u by auto
  obtain argv m1 where sp: "split_args m file_name file_name_dup delims = Some (of_nat (length (words s)), argv, m1)" "list_all2 (str_ok m1) argv (words s)"
    "only_changed (\<lambda>a. within file_name (length s) a \<or> within file_name_dup (Suc (length s)) a) m m1"
    "list_all2 (\<lambda>t w. unat file_name \<le> unat t \<and> unat t + length w \<le> unat file_name + length s) argv (words s)"
    by (rule split_args_ok [of m file_name s delims file_name_dup]) (use h dup in auto)
  have "stack m 3221221376 (unat PHYS_BASE)"
  proof -
    have "m a \<noteq> None" if "region 3221221376 3221225472 a" for a
      using within_mapped [of m "PHYS_BASE - PGSIZE" "unat PGSIZE" a] h that u by (auto simp: region_def within_def)
    then show ?thesis
      by (simp add: stack_def u)
  qed
  then have st: "stack m1 3221221376 (unat PHYS_BASE)"
    by (rule stack_changed [OF sp(3)])
  have "list_all2 (\<lambda>t w. unat t + Suc (length w) \<le> 3221221376 \<or> unat PHYS_BASE \<le> unat t) argv (words s)"
    using sp(4) h by (auto simp: list_all2_conv_all_nth)
  then obtain esp m2 addrs where f: "fill_stack m1 argv (of_nat (length (words s))) PHYS_BASE = Some (esp, m2)" "unat esp = unat PHYS_BASE - frame_size PHYS_BASE (words s)"
    "4 dvd unat esp" "bytes_at m2 esp (words_bytes (frame esp addrs))" "list_all2 (str_ok m2) addrs (words s)" "only_changed (region (unat esp) (unat PHYS_BASE)) m1 m2"
    using assms(2) u by (elim fill_stack_ok [OF st _ sp(2), rotated]) simp_all
  have n: "unat (of_nat (length (words s)) :: size_t) = length (words s)"
    using assms(2) u by (simp add: frame_size_def unat_of_nat)
  have "unat esp \<le> unat a \<and> unat a < unat PHYS_BASE \<or> within file_name (length s) a \<or> within file_name_dup (Suc (length s)) a" if "m2 a \<noteq> m a" for a
    using that sp(3) f(6) unfolding only_changed_def region_def by metis
  then show ?thesis
    using sp(1) n f list_all2_lengthD [OF f(5)] by (intro exI [of _ "of_nat (length (words s))"] exI [of _ argv] exI [of _ m1] exI [of _ esp] exI [of _ m2] exI [of _ addrs]) (simp add: frame_def)
qed

definition sample_line :: bytes where
  "sample_line = [108, 115, 32, 32, 47]"

definition sample_kernel :: memory where
  "sample_kernel = write_bytes (write_bytes (\<lambda>_. Some 0) 0xc0100000 (sample_line @ [0])) 0xc0200000 [32, 0]"

lemma sample_startable: "startable sample_kernel 0xc0100000 sample_line 0xc0300000 0xc0200000"
  unfolding startable_def
  by (simp add: sample_kernel_def sample_line_def str_ok_def str_at_def in_space_def apart_def mapped_nth within_def PHYS_BASE_def PGSIZE_def)

theorem args_on_stack_witness:
  "\<exists>argc argv m1 esp m2 addrs. split_args sample_kernel 0xc0100000 0xc0300000 0xc0200000 = Some (argc, argv, m1) \<and> unat argc = 2
    \<and> fill_stack m1 argv argc PHYS_BASE = Some (esp, m2) \<and> unat esp = unat PHYS_BASE - 32 \<and> 4 dvd unat esp
    \<and> bytes_at m2 esp (words_bytes ([0, argc, esp + 12] @ addrs @ [NULL])) \<and> list_all2 (str_ok m2) addrs [[108, 115], [47]]
    \<and> (\<forall>a. m2 a \<noteq> sample_kernel a \<longrightarrow> unat esp \<le> unat a \<and> unat a < unat PHYS_BASE \<or> within 0xc0100000 (length sample_line) a
          \<or> within 0xc0300000 (Suc (length sample_line)) a)"
proof -
  have w: "words sample_line = [[108, 115], [47]]"
    by (simp add: words.simps sample_line_def next_token_def)
  have size: "frame_size PHYS_BASE [[108, 115], [47]] = 32"
    by (simp add: frame_size_def space_def PHYS_BASE_def)
  have len: "length [[108, 115], [47 :: uint8_t]] = 2" and le: "32 \<le> unat PGSIZE"
    by (simp_all add: PGSIZE_def)
  show ?thesis
    using args_on_stack [OF sample_startable] le unfolding w size len by (rule meta_mp)
qed

end
