(* ===== verification/Loader.thy ===== *)
theory Loader
  imports Filesys Palloc Pagedir
begin

text \<open>
  Loading an executable (\<^verbatim>\<open>load\<close> and its helpers in \<^verbatim>\<open>userprog/process.c\<close>, and
  \<^verbatim>\<open>tss_update\<close> of \<^verbatim>\<open>userprog/tss.c\<close>). The state joins the page allocator, the page tables and the
  file system with the fields of \<^verbatim>\<open>struct thread\<close> that the loader uses. The \<^verbatim>\<open>struct file\<close> that the
  local variable \<^verbatim>\<open>file\<close> and the field \<^verbatim>\<open>exec_file\<close> of the thread both point to is the field
  \<open>exec_file\<close>. \<open>mem\<close> says whether \<^verbatim>\<open>malloc\<close> gives memory to the file system.
\<close>

subsection \<open>Operations\<close>

record proc =
  pgs :: palloc
  mm :: mmu
  fs :: fsys
  pagedir :: ptr
  exec_file :: "file_t option"
  working_dir :: "dir option"
  cur_thread :: ptr
  tss_esp0 :: "ptr option"

definition le_half :: "bytes \<Rightarrow> uint16_t" where
  "le_half bs = ucast (bs ! 0) OR push_bit 8 (ucast (bs ! 1))"

record Elf32_Ehdr =
  e_ident :: bytes
  e_type :: uint16_t
  e_machine :: uint16_t
  e_version :: uint32_t
  e_entry :: uint32_t
  e_phoff :: uint32_t
  e_shoff :: uint32_t
  e_flags :: uint32_t
  e_ehsize :: uint16_t
  e_phentsize :: uint16_t
  e_phnum :: uint16_t
  e_shentsize :: uint16_t
  e_shnum :: uint16_t
  e_shstrndx :: uint16_t

record Elf32_Phdr =
  p_type :: uint32_t
  p_offset :: uint32_t
  p_vaddr :: uint32_t
  p_paddr :: uint32_t
  p_filesz :: uint32_t
  p_memsz :: uint32_t
  p_flags :: uint32_t
  p_align :: uint32_t

definition read_ehdr :: "bytes \<Rightarrow> Elf32_Ehdr" where
  "read_ehdr bs = \<lparr>e_ident = get_bytes bs 0 16, e_type = le_half (get_bytes bs 16 2), e_machine = le_half (get_bytes bs 18 2),
     e_version = le_word (get_bytes bs 20 4), e_entry = le_word (get_bytes bs 24 4), e_phoff = le_word (get_bytes bs 28 4),
     e_shoff = le_word (get_bytes bs 32 4), e_flags = le_word (get_bytes bs 36 4), e_ehsize = le_half (get_bytes bs 40 2),
     e_phentsize = le_half (get_bytes bs 42 2), e_phnum = le_half (get_bytes bs 44 2), e_shentsize = le_half (get_bytes bs 46 2),
     e_shnum = le_half (get_bytes bs 48 2), e_shstrndx = le_half (get_bytes bs 50 2)\<rparr>"

definition read_phdr :: "bytes \<Rightarrow> Elf32_Phdr" where
  "read_phdr bs = \<lparr>p_type = le_word (get_bytes bs 0 4), p_offset = le_word (get_bytes bs 4 4), p_vaddr = le_word (get_bytes bs 8 4),
     p_paddr = le_word (get_bytes bs 12 4), p_filesz = le_word (get_bytes bs 16 4), p_memsz = le_word (get_bytes bs 20 4),
     p_flags = le_word (get_bytes bs 24 4), p_align = le_word (get_bytes bs 28 4)\<rparr>"

definition sizeof_Ehdr :: nat where "sizeof_Ehdr = 52"
definition sizeof_Phdr :: nat where "sizeof_Phdr = 32"

definition PT_NULL :: uint32_t where "PT_NULL = 0"
definition PT_LOAD :: uint32_t where "PT_LOAD = 1"
definition PT_DYNAMIC :: uint32_t where "PT_DYNAMIC = 2"
definition PT_INTERP :: uint32_t where "PT_INTERP = 3"
definition PT_NOTE :: uint32_t where "PT_NOTE = 4"
definition PT_SHLIB :: uint32_t where "PT_SHLIB = 5"
definition PT_PHDR :: uint32_t where "PT_PHDR = 6"
definition PT_STACK :: uint32_t where "PT_STACK = 0x6474e551"
definition PF_X :: uint32_t where "PF_X = 1"
definition PF_W :: uint32_t where "PF_W = 2"
definition PF_R :: uint32_t where "PF_R = 4"

text \<open>Reading and seeking in the executable, and \<^verbatim>\<open>pagedir_set_page\<close> with the page that
  \<^verbatim>\<open>lookup_page\<close> allocates when the directory has no table for the address.\<close>

definition exec_read :: "bool \<Rightarrow> off_t \<Rightarrow> proc \<Rightarrow> (bytes \<times> proc) option" where
  "exec_read mem n s = do {
     f \<leftarrow> exec_file s;
     (buf, f, fs') \<leftarrow> file_read mem (fs s) f n;
     Some (buf, s\<lparr>fs := fs', exec_file := Some f\<rparr>) }"

definition exec_seek :: "off_t \<Rightarrow> proc \<Rightarrow> proc option" where
  "exec_seek ofs s = do {
     f \<leftarrow> exec_file s;
     f \<leftarrow> file_seek f ofs;
     Some (s\<lparr>exec_file := Some f\<rparr>) }"

definition exec_length :: "proc \<Rightarrow> off_t option" where
  "exec_length s = do { f \<leftarrow> exec_file s; file_length (fs s) f }"

definition set_kmem :: "memory \<Rightarrow> proc \<Rightarrow> proc" where
  "set_kmem m s = s\<lparr>pgs := (pgs s)\<lparr>kmem := m\<rparr>\<rparr>"

definition set_page :: "ptr \<Rightarrow> ptr \<Rightarrow> bool \<Rightarrow> proc \<Rightarrow> (bool \<times> proc) option" where
  "set_page upage kpage writable s = do {
     pde \<leftarrow> load_entry (mm s) (pagedir s, pd_no upage);
     (page, pl) \<leftarrow> (if pde = 0 then palloc_get_page PAL_ZERO (pgs s) else Some (NULL, pgs s));
     (ok, m) \<leftarrow> pagedir_set_page (pagedir s) upage kpage writable (if page = NULL then None else Some page) (mm s);
     Some (ok, s\<lparr>pgs := pl, mm := m\<rparr>) }"

definition tss_update :: "proc \<Rightarrow> proc option" where
  "tss_update s = do {
     _ \<leftarrow> tss_esp0 s;
     Some (s\<lparr>tss_esp0 := Some (cur_thread s + PGSIZE)\<rparr>) }"

definition process_activate :: "proc \<Rightarrow> proc option" where
  "process_activate s = do {
     m \<leftarrow> pagedir_activate (pagedir s) (mm s);
     tss_update (s\<lparr>mm := m\<rparr>) }"

definition install_page :: "ptr \<Rightarrow> ptr \<Rightarrow> bool \<Rightarrow> proc \<Rightarrow> (bool \<times> proc) option" where
  "install_page upage kpage writable s = do {
     k \<leftarrow> pagedir_get_page (pagedir s) upage (mm s);
     if k = NULL then set_page upage kpage writable s else Some (False, s) }"

definition free_page :: "ptr \<Rightarrow> proc \<Rightarrow> proc option" where
  "free_page kpage s = do { pl \<leftarrow> palloc_free_page kpage (pgs s); Some (s\<lparr>pgs := pl\<rparr>) }"

definition setup_stack :: "proc \<Rightarrow> (ptr option \<times> proc) option" where
  "setup_stack s = do {
     (kpage, pl) \<leftarrow> palloc_get_page (PAL_USER OR PAL_ZERO) (pgs s);
     let s = s\<lparr>pgs := pl\<rparr>;
     if kpage \<noteq> NULL then do {
       (success, s) \<leftarrow> install_page (PHYS_BASE - PGSIZE) kpage True s;
       if success then Some (Some PHYS_BASE, s)
       else do { s \<leftarrow> free_page kpage s; Some (None, s) } }
     else Some (None, s) }"

text \<open>\<open>load_page\<close> is the body of the loop in \<^verbatim>\<open>load_segment\<close>.\<close>

definition load_page :: "bool \<Rightarrow> ptr \<Rightarrow> size_t \<Rightarrow> size_t \<Rightarrow> bool \<Rightarrow> proc \<Rightarrow> (bool \<times> proc) option" where
  "load_page mem upage page_read_bytes page_zero_bytes writable s = do {
     (kpage, pl) \<leftarrow> palloc_get_page PAL_USER (pgs s);
     let s = s\<lparr>pgs := pl\<rparr>;
     if kpage = NULL then Some (False, s)
     else do {
       (buf, s) \<leftarrow> exec_read mem (sint page_read_bytes) s;
       m \<leftarrow> store_bytes (kmem (pgs s)) kpage buf;
       let s = set_kmem m s;
       if int (length buf) \<noteq> sint page_read_bytes then do { s \<leftarrow> free_page kpage s; Some (False, s) }
       else do {
         (_, m) \<leftarrow> memset (kmem (pgs s)) (kpage + page_read_bytes) 0 page_zero_bytes;
         (ok, s) \<leftarrow> install_page upage kpage writable (set_kmem m s);
         if \<not> ok then do { s \<leftarrow> free_page kpage s; Some (False, s) }
         else Some (True, s) } } }"

partial_function (option) load_pages :: "bool \<Rightarrow> ptr \<Rightarrow> uint32_t \<Rightarrow> uint32_t \<Rightarrow> bool \<Rightarrow> proc \<Rightarrow> (bool \<times> proc) option" where
  "load_pages mem upage read_bytes zero_bytes writable s =
     (if read_bytes > 0 \<or> zero_bytes > 0 then do {
        let page_read_bytes = (if read_bytes < PGSIZE then read_bytes else PGSIZE);
        let page_zero_bytes = PGSIZE - page_read_bytes;
        (ok, s) \<leftarrow> load_page mem upage page_read_bytes page_zero_bytes writable s;
        if ok then load_pages mem (upage + PGSIZE) (read_bytes - page_read_bytes) (zero_bytes - page_zero_bytes) writable s
        else Some (False, s) }
      else Some (True, s))"

definition load_segment :: "bool \<Rightarrow> off_t \<Rightarrow> ptr \<Rightarrow> uint32_t \<Rightarrow> uint32_t \<Rightarrow> bool \<Rightarrow> proc \<Rightarrow> (bool \<times> proc) option" where
  "load_segment mem ofs upage read_bytes zero_bytes writable s = do {
     ASSERT ((read_bytes + zero_bytes) mod PGSIZE = 0);
     ASSERT (pg_ofs upage = 0);
     ASSERT (ofs smod int (unat PGSIZE) = 0);
     s \<leftarrow> exec_seek ofs s;
     load_pages mem upage read_bytes zero_bytes writable s }"

definition validate_segment :: "Elf32_Phdr \<Rightarrow> proc \<Rightarrow> bool option" where
  "validate_segment phdr s =
     (if p_offset phdr AND PGMASK \<noteq> p_vaddr phdr AND PGMASK then Some False
      else do {
        len \<leftarrow> exec_length s;
        if p_offset phdr > word_of_int len then Some False
        else if p_memsz phdr < p_filesz phdr then Some False
        else if p_memsz phdr = 0 then Some False
        else if \<not> is_user_vaddr (p_vaddr phdr) then Some False
        else if \<not> is_user_vaddr (p_vaddr phdr + p_memsz phdr) then Some False
        else if p_vaddr phdr + p_memsz phdr < p_vaddr phdr then Some False
        else if p_vaddr phdr < PGSIZE then Some False
        else Some True })"

definition load_phdr :: "bool \<Rightarrow> Elf32_Phdr \<Rightarrow> proc \<Rightarrow> (bool \<times> proc) option" where
  "load_phdr mem phdr s =
     (if p_type phdr = PT_DYNAMIC \<or> p_type phdr = PT_INTERP \<or> p_type phdr = PT_SHLIB then Some (False, s)
      else if p_type phdr = PT_LOAD then do {
        valid \<leftarrow> validate_segment phdr s;
        if valid then
          (let writable = (p_flags phdr AND PF_W \<noteq> 0);
               file_page = p_offset phdr AND NOT PGMASK;
               mem_page = p_vaddr phdr AND NOT PGMASK;
               page_offset = p_vaddr phdr AND PGMASK;
               read_bytes = (if p_filesz phdr > 0 then page_offset + p_filesz phdr else 0);
               zero_bytes = (if p_filesz phdr > 0 then ROUND_UP (page_offset + p_memsz phdr) PGSIZE - read_bytes
                 else ROUND_UP (page_offset + p_memsz phdr) PGSIZE)
           in load_segment mem (sint file_page) mem_page read_bytes zero_bytes writable s)
        else Some (False, s) }
      else Some (True, s))"

primrec load_phdrs :: "bool \<Rightarrow> nat \<Rightarrow> off_t \<Rightarrow> proc \<Rightarrow> (bool \<times> proc) option" where
  "load_phdrs mem 0 file_ofs s = Some (True, s)"
| "load_phdrs mem (Suc n) file_ofs s = do {
     len \<leftarrow> exec_length s;
     if file_ofs < 0 \<or> file_ofs > len then Some (False, s)
     else do {
       s \<leftarrow> exec_seek file_ofs s;
       (buf, s) \<leftarrow> exec_read mem (int sizeof_Phdr) s;
       if length buf \<noteq> sizeof_Phdr then Some (False, s)
       else do {
         (ok, s) \<leftarrow> load_phdr mem (read_phdr buf) s;
         if ok then load_phdrs mem n (to_int32 (file_ofs + int sizeof_Phdr)) s else Some (False, s) } } }"

definition ehdr_ok :: "Elf32_Ehdr \<Rightarrow> bool" where
  "ehdr_ok ehdr \<longleftrightarrow> take 7 (e_ident ehdr) = [127, 69, 76, 70, 1, 1, 1] \<and> e_type ehdr = 2 \<and> e_machine ehdr = 3
     \<and> e_version ehdr = 1 \<and> e_phentsize ehdr = of_nat sizeof_Phdr \<and> \<not> e_phnum ehdr > 1024"

definition load_image :: "bool \<Rightarrow> proc \<Rightarrow> ((ptr \<times> ptr) option \<times> proc) option" where
  "load_image mem s = do {
     (buf, s) \<leftarrow> exec_read mem (int sizeof_Ehdr) s;
     let ehdr = read_ehdr buf;
     if length buf \<noteq> sizeof_Ehdr \<or> \<not> ehdr_ok ehdr then Some (None, s)
     else do {
       (ok, s) \<leftarrow> load_phdrs mem (unat (e_phnum ehdr)) (sint (e_phoff ehdr)) s;
       if ok then do {
         (esp, s) \<leftarrow> setup_stack s;
         Some (map_option (\<lambda>esp. (e_entry ehdr, esp)) esp, s) }
       else Some (None, s) } }"

definition load :: "bool \<Rightarrow> pathname \<Rightarrow> proc \<Rightarrow> ((ptr \<times> ptr) option \<times> proc) option" where
  "load mem file_name s = do {
     (page, pl) \<leftarrow> palloc_get_page 0 (pgs s);
     (pd, m) \<leftarrow> pagedir_create (if page = NULL then None else Some page) (mm s);
     let s = s\<lparr>pgs := pl, mm := m, pagedir := pd\<rparr>;
     if pd = NULL then Some (None, s)
     else do {
       s \<leftarrow> process_activate s;
       (opened, fs') \<leftarrow> filesys_open mem (fs s) (working_dir s) file_name;
       let s = s\<lparr>fs := fs'\<rparr>;
       case opened of
         None \<Rightarrow> Some (None, s)
       | Some f \<Rightarrow> do {
           (f, fs') \<leftarrow> file_deny_write (fs s) f;
           load_image mem (s\<lparr>fs := fs', exec_file := Some f\<rparr>) } } }"

subsection \<open>Pages\<close>

definition pages_of :: "bool \<Rightarrow> palloc \<Rightarrow> ptr set" where
  "pages_of u pl = pages_from (base (get_pool u pl)) (size_of (get_pool u pl))"

definition pool_pages :: "palloc \<Rightarrow> ptr set" where
  "pool_pages pl = pages_of False pl \<union> pages_of True pl"

definition exhausted :: "palloc \<Rightarrow> bool" where
  "exhausted pl \<longleftrightarrow> (\<exists>u. pages_of u pl \<subseteq> allocated pl)"

lemma pages_of_kmem [simp]: "pages_of u (pl\<lparr>kmem := m\<rparr>) = pages_of u pl"
  by (simp add: pages_of_def get_pool_def)

lemma pages_from_1 [simp]: "pages_from p (Suc 0) = {p}"
  by (auto simp: pages_from_def page_at_def)

lemma allocated_pages: "allocated pl \<subseteq> pool_pages pl"
  using taken_group by (auto simp: allocated_def pool_pages_def pages_of_def get_pool_def)

lemma pool_page:
  assumes "palloc_ok pl" "p \<in> pool_pages pl"
  shows "mapped (kmem pl) p 4096" "in_space p 4096" "p \<noteq> NULL" "pg_ofs p = 0"
proof -
  obtain u k where k: "p = page_at (base (get_pool u pl)) k" "k < size_of (get_pool u pl)"
    using assms(2) by (auto simp: pool_pages_def pages_of_def pages_from_def)
  show "mapped (kmem pl) p 4096" "in_space p 4096" "p \<noteq> NULL" "pg_ofs p = 0"
    using pool_run [OF pool_kmem [OF assms(1), of u], of k 1] k by (simp_all add: PGSIZE_def)
qed

lemma within_page: "pg_ofs p = 0 \<Longrightarrow> in_space p 4096 \<Longrightarrow> within p 4096 a \<longleftrightarrow> pg_round_down a = p"
proof
  assume "pg_ofs p = 0" "in_space p 4096" "within p 4096 a"
  then show "pg_round_down a = p"
    using within_pages [of p 1 a] by simp
next
  assume "pg_round_down a = p"
  then have "unat p = 4096 * (unat a div 4096)"
    using unat_round_down [of a] by simp
  then show "within p 4096 a"
    by (simp add: within_def)
qed

lemma scan_and_flip_cnt: "wf_bitmap b \<Longrightarrow> bitmap_scan_and_flip b 0 cnt v = Some (i, b') \<Longrightarrow> bit_cnt b' = bit_cnt b"
  using bitmap_scan_and_flip_Some [of b 0 cnt v] bitmap_scan_and_flip_None [of b 0 cnt v]
  by (cases "first_fit (bit_list b) 0 (unat cnt) v") auto

lemma pages_of_get:
  assumes "palloc_ok pl" "palloc_get_multiple fl n pl = Some (p, pl')"
  shows "pages_of v pl' = pages_of v pl"
proof (cases "n = 0")
  case False
  define u where "u \<longleftrightarrow> fl AND PAL_USER \<noteq> 0"
  obtain i b where b: "bitmap_scan_and_flip (used_map (get_pool u pl)) 0 n False = Some (i, b)"
      "pl' = set_used u b pl \<or> (\<exists>m. pl' = (set_used u b pl)\<lparr>kmem := m\<rparr>)"
    using assms(2) False unfolding palloc_get_multiple_def Let_def u_def [symmetric]
    by (auto simp: bind_eq_Some_conv split: if_splits)
  have "bit_cnt b = bit_cnt (used_map (get_pool u pl))"
    using scan_and_flip_cnt [OF _ b(1)] pool_kmem [OF assms(1), of u] by (simp add: pool_ok_def)
  then show ?thesis
    using b(2) by (cases u) (auto simp: pages_of_def set_used_def get_pool_def size_of_def)
qed (use assms in \<open>simp add: palloc_get_multiple_def\<close>)

lemma pages_of_free:
  assumes "palloc_ok pl" "palloc_free_multiple p n pl = Some pl'"
  shows "pages_of v pl' = pages_of v pl"
proof (cases "p = NULL \<or> n = 0")
  case False
  then obtain u i b where b: "bitmap_set_multiple (used_map (get_pool u pl)) i n False = Some b" "\<exists>m. pl' = (set_used u b pl)\<lparr>kmem := m\<rparr>"
    using assms(2) unfolding palloc_free_multiple_def Let_def by (auto simp: bind_eq_Some_conv split: if_splits prod.splits)
  have wf: "wf_bitmap (used_map (get_pool u pl))"
    using pool_kmem [OF assms(1), of u] by (simp add: pool_ok_def)
  then have "bit_cnt b = bit_cnt (used_map (get_pool u pl))"
    using b(1) bitmap_set_multiple_eq [OF wf, of i n False] bitmap_set_multiple_None [OF wf, of i n False]
    by (cases "unat i + unat n \<le> unat (bit_cnt (used_map (get_pool u pl)))") auto
  then show ?thesis
    using b(2) by (cases u) (auto simp: pages_of_def set_used_def get_pool_def size_of_def)
qed (use assms in \<open>auto simp: palloc_free_multiple_def split: if_splits\<close>)

text \<open>One page from the allocator, and back.\<close>

lemma has_run_1:
  assumes "\<not> has_run pool 1"
  shows "pages_from (base pool) (size_of pool) \<subseteq> taken pool"
proof
  fix p
  assume "p \<in> pages_from (base pool) (size_of pool)"
  then obtain k where "p = page_at (base pool) k" "k + 1 \<le> size_of pool"
    by (auto simp: pages_from_def)
  then show "p \<in> taken pool"
    using assms by (auto simp: has_run_def)
qed

lemma get_page_cases:
  assumes ok: "palloc_ok pl" and fl: "fl AND PAL_ASSERT = 0"
  obtains "palloc_get_page fl pl = Some (NULL, pl)" "pages_of (fl AND PAL_USER \<noteq> 0) pl \<subseteq> allocated pl"
  | p pl' where "palloc_get_page fl pl = Some (p, pl')" "palloc_ok pl'" "p \<in> pages_of (fl AND PAL_USER \<noteq> 0) pl" "p \<notin> allocated pl"
    "allocated pl' = insert p (allocated pl)" "\<And>u. pages_of u pl' = pages_of u pl" "\<And>a. pg_round_down a \<noteq> p \<Longrightarrow> kmem pl' a = kmem pl a"
    "fl AND PAL_ZERO \<noteq> 0 \<Longrightarrow> bytes_at (kmem pl') p (replicate 4096 0)"
proof -
  define u where "u \<longleftrightarrow> fl AND PAL_USER \<noteq> 0"
  define pool where "pool = get_pool u pl"
  obtain p pl' where g: "palloc_get_multiple fl 1 pl = Some (p, pl')" and c: "palloc_ok pl' \<and>
        (if p = NULL then pl' = pl \<and> \<not> has_run pool 1
         else pg_ofs p = 0 \<and> pages_from p 1 \<subseteq> pages_from (base pool) (size_of pool) \<and> pages_from p 1 \<inter> allocated pl = {}
           \<and> allocated pl' = allocated pl \<union> pages_from p 1 \<and> (fl AND PAL_ZERO \<noteq> 0 \<longrightarrow> bytes_at (kmem pl') p (replicate (4096 * 1) 0))
           \<and> (\<forall>a. fl AND PAL_ZERO \<noteq> 0 \<and> within p (4096 * 1) a \<or> kmem pl' a = kmem pl a))"
    using palloc_get_cases [OF ok, of 1 pool fl 1] fl
    by (cases "palloc_get_multiple fl 1 pl") (simp_all add: pool_def u_def split: prod.splits, blast)
  show thesis
  proof (cases "p = NULL")
    case True
    then have "pages_of u pl \<subseteq> allocated pl"
      using c has_run_1 [of pool] by (cases u) (auto simp: pages_of_def pool_def allocated_def get_pool_def)
    then show thesis
      using that(1) g c True by (simp add: palloc_get_page_def u_def)
  next
    case False
    then have p: "p \<in> pages_of u pl" "p \<notin> allocated pl" "allocated pl' = insert p (allocated pl)" "palloc_ok pl'"
        "fl AND PAL_ZERO \<noteq> 0 \<Longrightarrow> bytes_at (kmem pl') p (replicate 4096 0)" "\<And>a. within p 4096 a \<or> kmem pl' a = kmem pl a"
      using c by (auto simp: pages_of_def pool_def split: if_splits)
    have "p \<in> pool_pages pl"
      using p(1) by (cases u) (simp_all add: pool_pages_def)
    note pg = pool_page [OF ok this]
    show thesis
      using that(2) [OF g [folded palloc_get_page_def] p(4) p(1) [unfolded u_def] p(2,3) pages_of_get [OF ok g] _ p(5)] p(6) within_page [OF pg(4,2)]
      by blast
  qed
qed

lemma pool_pagesI: "p \<in> pages_of u pl \<Longrightarrow> p \<in> pool_pages pl"
  by (cases u) (simp_all add: pool_pages_def)

lemma free_page_ok:
  assumes ok: "palloc_ok pl" and p: "p \<in> allocated pl"
  obtains pl' where "palloc_free_page p pl = Some pl'" "palloc_ok pl'" "allocated pl' = allocated pl - {p}" "\<And>u. pages_of u pl' = pages_of u pl"
    "\<And>a. pg_round_down a \<noteq> p \<Longrightarrow> kmem pl' a = kmem pl a"
proof -
  obtain u where "pages_from p (unat (1 :: size_t)) \<subseteq> taken (get_pool u pl)"
    using p by (auto simp: allocated_def get_pool_def intro: that [of True] that [of False])
  then obtain pl' where f: "palloc_free_multiple p 1 pl = Some pl'" "palloc_ok pl'" "allocated pl' = allocated pl - {p}"
      "kmem pl' = write_bytes (kmem pl) p (replicate 4096 0xcc)"
    by (rule palloc_free_taken [OF ok one_neq_zero]) simp_all
  have pg: "in_space p 4096" "pg_ofs p = 0"
    using pool_page [OF ok] p allocated_pages by blast+
  then have "kmem pl' a = kmem pl a" if "pg_round_down a \<noteq> p" for a
    using that f(4) write_outside [of p "replicate 4096 0xcc" a] within_page [OF pg(2,1)] by simp
  then show thesis
    using that f pages_of_free [OF ok f(1)] by (simp add: palloc_free_page_def)
qed

subsection \<open>The address space\<close>

definition user_byte :: "proc \<Rightarrow> ptr \<Rightarrow> uint8_t option" where
  "user_byte s va = do {
     k \<leftarrow> pagedir_get_page (pagedir s) va (mm s);
     if k = NULL then None else kmem (pgs s) k }"

text \<open>Page tables are in pages that the allocator has handed out, and user pages lead to such pages.\<close>

definition space_ok :: "ptr set \<Rightarrow> proc \<Rightarrow> bool" where
  "space_ok pds s \<longleftrightarrow> palloc_ok (pgs s) \<and> mm_ok (mm s) pds \<and> pagedir s \<in> pds \<and> pagedir s \<noteq> init_page_dir (mm s)
     \<and> (\<forall>p \<in> pool_pages (pgs s). is_kernel_vaddr p \<and> drop_bit PTSHIFT (p - PHYS_BASE) < init_ram_pages (mm s)
         \<and> (p \<notin> allocated (pgs s) \<longrightarrow> tables (mm s) p = None))
     \<and> (\<forall>va e. is_user_vaddr va \<longrightarrow> walk (mm s) (pagedir s) va = Some e \<longrightarrow> (\<exists>k \<in> allocated (pgs s). pte_get_page e = Some k))"

lemma space_okD:
  assumes "space_ok pds s"
  shows "palloc_ok (pgs s)" "mm_ok (mm s) pds" "vm_ok (mm s) pds" "pagedir s \<in> pds" "pagedir s \<noteq> init_page_dir (mm s)" "pd_ok (mm s) (pagedir s)"
    "p \<in> pool_pages (pgs s) \<Longrightarrow> is_kernel_vaddr p" "p \<in> pool_pages (pgs s) \<Longrightarrow> drop_bit PTSHIFT (p - PHYS_BASE) < init_ram_pages (mm s)"
    "p \<in> pool_pages (pgs s) \<Longrightarrow> p \<notin> allocated (pgs s) \<Longrightarrow> tables (mm s) p = None"
    "is_user_vaddr va \<Longrightarrow> walk (mm s) (pagedir s) va = Some e \<Longrightarrow> \<exists>k \<in> allocated (pgs s). pte_get_page e = Some k"
  using assms unfolding space_ok_def mm_ok_def vm_ok_def by blast+

lemma page_offset: "pg_ofs k = 0 \<Longrightarrow> in_space k 4096 \<Longrightarrow> pg_round_down (k + pg_ofs va) = k \<and> unat (k + pg_ofs va) = unat k + unat va mod 4096"
proof -
  assume k: "pg_ofs k = 0" "in_space k 4096"
  have "unat va mod 4096 < 4096"
    by simp
  then have u: "unat (k + pg_ofs va) = unat k + unat va mod 4096"
    using k(2) by (simp add: unat_word_ariths in_space_def unat_pg_ofs)
  then have "within k 4096 (k + pg_ofs va)"
    by (simp add: within_def)
  then show ?thesis
    using within_page [OF k] u by simp
qed

lemma user_byte_walk:
  assumes "space_ok pds s" "is_user_vaddr va"
  shows "user_byte s va = (case walk (mm s) (pagedir s) va of None \<Rightarrow> None | Some e \<Rightarrow> kmem (pgs s) (the (pte_get_page e) + pg_ofs va))"
proof (cases "walk (mm s) (pagedir s) va")
  case None
  then show ?thesis
    using get_page_ok [OF space_okD(6) [OF assms(1)] assms(2)] by (simp add: user_byte_def)
next
  case (Some e)
  then obtain k where k: "k \<in> allocated (pgs s)" "pte_get_page e = Some k"
    using space_okD(10) [OF assms] by blast
  have "k \<in> pool_pages (pgs s)"
    using k(1) allocated_pages by blast
  note pg = pool_page [OF space_okD(1) [OF assms(1)] this]
  have "0 < unat k"
    using pg(3) by (simp add: unat_gt_0)
  then have "k + pg_ofs va \<noteq> NULL"
    using page_offset [OF pg(4,2), of va] by auto
  then show ?thesis
    using get_page_ok [OF space_okD(6) [OF assms(1)] assms(2)] Some k(2) by (simp add: user_byte_def)
qed

text \<open>What the loader does to the address space: allocated pages keep their contents, mapped pages
  stay mapped, new mappings are made in the region \<open>R\<close> only, and at most \<open>c u\<close> pages are taken from
  the pool \<open>u\<close>.\<close>

definition unused :: "bool \<Rightarrow> palloc \<Rightarrow> nat" where
  "unused u pl = card (pages_of u pl - allocated pl)"

lemma finite_pages_of: "finite (pages_of u pl)"
  by (simp add: pages_of_def pages_from_def)

lemma unused_insert:
  assumes "\<And>u. pages_of u pl' = pages_of u pl" "allocated pl' = insert p (allocated pl)" "palloc_ok pl" "p \<in> pages_of v pl"
  shows "unused u pl \<le> unused u pl' + of_bool (u = v)"
proof (cases "u = v")
  case True
  have "pages_of u pl - allocated pl \<subseteq> insert p (pages_of u pl - insert p (allocated pl))"
    by blast
  then have "unused u pl \<le> card (insert p (pages_of u pl - insert p (allocated pl)))"
    unfolding unused_def by (rule card_mono [rotated]) (simp add: finite_pages_of)
  then show ?thesis
    using True assms(1,2) card_insert_le_m1 [of 1] by (simp add: unused_def finite_pages_of card_insert_if split: if_splits)
next
  case False
  have "pages_of False pl \<inter> pages_of True pl = {}"
    using assms(3) by (simp add: palloc_ok_def pages_of_def get_pool_def)
  then have "p \<notin> pages_of u pl"
    using False assms(4) by (cases u; cases v) auto
  then show ?thesis
    using assms(1,2) by (simp add: unused_def)
qed

lemma not_exhausted: "exhausted pl \<longleftrightarrow> (\<exists>u. unused u pl = 0)"
  by (simp add: exhausted_def unused_def finite_pages_of)

definition grows :: "(ptr \<Rightarrow> bool) \<Rightarrow> (bool \<Rightarrow> nat) \<Rightarrow> proc \<Rightarrow> proc \<Rightarrow> bool" where
  "grows R c s s' \<longleftrightarrow> (\<forall>u. unused u (pgs s) \<le> unused u (pgs s') + c u) \<and> allocated (pgs s) \<subseteq> allocated (pgs s') \<and> (\<forall>u. pages_of u (pgs s') = pages_of u (pgs s)) \<and> pagedir s' = pagedir s
     \<and> (\<forall>a. pg_round_down a \<in> allocated (pgs s) \<longrightarrow> kmem (pgs s') a = kmem (pgs s) a)
     \<and> (\<forall>va. is_user_vaddr va \<longrightarrow> walk (mm s) (pagedir s) va \<noteq> None \<or> \<not> R va \<longrightarrow> walk (mm s') (pagedir s) va = walk (mm s) (pagedir s) va)"

lemma grows_refl: "grows R c s s"
  by (simp add: grows_def)

lemma grows_trans:
  assumes "grows P c s s'" "grows Q d s' s''" "\<And>va. P va \<Longrightarrow> R va" "\<And>va. Q va \<Longrightarrow> R va"
  shows "grows R (\<lambda>u. c u + d u) s s''"
proof -
  have "walk (mm s'') (pagedir s) va = walk (mm s) (pagedir s) va"
    if "is_user_vaddr va" "walk (mm s) (pagedir s) va \<noteq> None \<or> \<not> R va" for va
  proof -
    have "walk (mm s') (pagedir s) va = walk (mm s) (pagedir s) va"
      using assms(1,3) that unfolding grows_def by blast
    moreover have "walk (mm s'') (pagedir s') va = walk (mm s') (pagedir s') va"
      using assms(1,2,4) that calculation unfolding grows_def by metis
    ultimately show ?thesis
      using assms(1) unfolding grows_def by simp
  qed
  moreover have "kmem (pgs s'') a = kmem (pgs s) a" if "pg_round_down a \<in> allocated (pgs s)" for a
    using assms(1,2) that unfolding grows_def by (metis subsetD)
  moreover have "unused u (pgs s) \<le> unused u (pgs s'') + (c u + d u)" for u
    using assms(1,2) unfolding grows_def by (metis add.assoc add.commute add_le_mono1 le_trans)
  ultimately show ?thesis
    using assms(1,2) unfolding grows_def by auto
qed

lemma grows_mono:
  assumes "grows P c s s'" "\<And>va. P va \<Longrightarrow> R va" "\<And>u. c u \<le> d u"
  shows "grows R d s s'"
proof -
  have "unused u (pgs s) \<le> unused u (pgs s') + d u" for u
    using assms(1) assms(3) [of u] unfolding grows_def by (meson add_left_mono le_trans)
  then show ?thesis
    using assms(1,2) unfolding grows_def by blast
qed

lemma grows_user_byte:
  assumes "space_ok pds s" "space_ok pds s'" "grows R c s s'" "is_user_vaddr va" "walk (mm s) (pagedir s) va \<noteq> None \<or> \<not> R va"
  shows "user_byte s' va = user_byte s va"
proof -
  have same: "walk (mm s') (pagedir s') va = walk (mm s) (pagedir s) va" "pagedir s' = pagedir s"
    using assms(3-5) by (auto simp: grows_def)
  have "kmem (pgs s') (k + pg_ofs va) = kmem (pgs s) (k + pg_ofs va)" if "k \<in> allocated (pgs s)" for k
  proof -
    have "k \<in> pool_pages (pgs s)"
      using that allocated_pages by blast
    from pool_page [OF space_okD(1) [OF assms(1)] this] have "pg_round_down (k + pg_ofs va) = k"
      using page_offset by blast
    then show ?thesis
      using assms(3) that by (simp add: grows_def)
  qed
  then show ?thesis
    using space_okD(10) [OF assms(1,4)] unfolding user_byte_walk [OF assms(1,4)] user_byte_walk [OF assms(2,4)] same(1)
    by (fastforce split: option.splits)
qed

text \<open>Mapping one page.\<close>

lemma walk_round: "walk s pd (pg_round_down va) = walk s pd va"
  by (simp add: walk_def table_for_def round_down)

lemma store_entry_dom: "store_entry te v s = Some s' \<Longrightarrow> tables s' t = None \<longleftrightarrow> tables s t = None"
  by (cases te) (auto simp: store_entry_def bind_eq_Some_conv split: if_splits)

lemma lookup_page_dom: "lookup_page pd va create page s = Some (r, s') \<Longrightarrow> tables s' t \<noteq> None \<Longrightarrow> tables s t \<noteq> None \<or> page = Some t"
  by (auto simp: lookup_page_def bind_eq_Some_conv ASSERT_def Let_def store_entry_def split: if_splits option.splits)

lemma set_page_dom: "pagedir_set_page pd up kp w page s = Some (b, s') \<Longrightarrow> tables s' t \<noteq> None \<Longrightarrow> tables s t \<noteq> None \<or> page = Some t"
  by (auto simp: pagedir_set_page_def bind_eq_Some_conv split: if_splits option.splits dest!: lookup_page_dom [where t = t] store_entry_dom [where t = t])

lemma set_page_fails: "pagedir_set_page pd up kp w page s = Some (False, s') \<Longrightarrow> s' = s"
  by (auto simp: pagedir_set_page_def lookup_page_def bind_eq_Some_conv ASSERT_def Let_def split: if_splits option.splits)

lemma set_page_space:
  assumes sp: "space_ok pds s" and up: "pg_ofs upage = 0" "is_user_vaddr upage" "walk (mm s) (pagedir s) upage = None" and kp: "kpage \<in> allocated (pgs s)"
  obtains ok s' e where "set_page upage kpage w s = Some (ok, s')" "space_ok pds s'" "s' = s\<lparr>pgs := pgs s', mm := mm s'\<rparr>"
    "grows (\<lambda>va. pg_round_down va = upage) (\<lambda>u. of_bool (\<not> u)) s s'" "pte_get_page e = Some kpage" "bit e 1 = w"
    "\<And>va. is_user_vaddr va \<Longrightarrow> walk (mm s') (pagedir s) va = (if ok \<and> pg_round_down va = upage then Some e else walk (mm s) (pagedir s) va)"
    "\<not> ok \<Longrightarrow> pgs s' = pgs s \<and> mm s' = mm s \<and> pages_of False (pgs s) \<subseteq> allocated (pgs s)"
proof -
  note D = space_okD [OF sp]
  have kp': "kpage \<in> pool_pages (pgs s)"
    using kp allocated_pages by blast
  note pg = pool_page [OF D(1) kp']
  obtain pde where pde: "load_entry (mm s) (pagedir s, pd_no upage) = Some pde"
    using table_ok_load(1) [OF pd_okD(2) [OF D(6)]] by blast
  obtain e where e: "pte_create_user kpage w = Some e" "pte_get_page e = Some kpage" "bit e 0" "bit e 1 = w"
    using pte_create_user_ok [OF pg(4) D(7) [OF kp']] by metis
  obtain page pl where page: "(if pde = 0 then palloc_get_page PAL_ZERO (pgs s) else Some (NULL, pgs s)) = Some (page, pl)"
      "palloc_ok pl" "\<And>u. pages_of u pl = pages_of u (pgs s)" "\<And>a. pg_round_down a \<in> allocated (pgs s) \<Longrightarrow> kmem pl a = kmem (pgs s) a"
      "if page = NULL then pl = pgs s \<and> (pde = 0 \<longrightarrow> pages_of False (pgs s) \<subseteq> allocated (pgs s))
       else page \<in> pages_of False (pgs s) \<and> page \<notin> allocated (pgs s) \<and> allocated pl = insert page (allocated (pgs s))"
  proof (cases "pde = 0")
    case True
    have fl: "PAL_ZERO AND PAL_ASSERT = 0" "PAL_ZERO AND PAL_USER = 0"
      by (simp_all add: PAL_ZERO_def PAL_ASSERT_def PAL_USER_def)
    show thesis
    proof (cases rule: get_page_cases [OF D(1) fl(1)])
      case 1
      then show thesis
        using that [of NULL "pgs s"] True D(1) fl(2) by simp
    next
      case (2 p pl')
      have "kmem pl' a = kmem (pgs s) a" if "pg_round_down a \<in> allocated (pgs s)" for a
        using that 2(4,7) by metis
      then show thesis
        using that [of p pl'] True 2 fl(2) pool_page(3) [OF D(1) pool_pagesI [OF 2(3)]] by auto
    qed
  next
    case False
    then show thesis
      using that [of NULL "pgs s"] D(1) by simp
  qed
  let ?pg = "if page = NULL then None else Some page"
  have fresh: "fresh_page (mm s) pt" if "?pg = Some pt" for pt
    using that page(5) pool_page(4) [OF D(1)] D(7,9) pool_pagesI [of pt False] by (auto simp: fresh_page_def split: if_splits)
  obtain ok m where set: "pagedir_set_page (pagedir s) upage kpage w ?pg (mm s) = Some (ok, m)"
      "ok \<longleftrightarrow> ?pg \<noteq> None \<or> load_entry (mm s) (pagedir s, pd_no upage) \<noteq> Some 0"
      "\<forall>pd' \<in> pds. \<forall>va. is_user_vaddr va \<longrightarrow> walk m pd' va = (if ok \<and> pd' = pagedir s \<and> pg_round_down va = upage then Some e else walk (mm s) pd' va)"
      "init_page_dir m = init_page_dir (mm s)" "init_ram_pages m = init_ram_pages (mm s)"
    using set_page_ok [OF D(3-5) up(1,2) pg(4) D(7) [OF kp'] D(8) [OF kp'] up(3) fresh e(1,3)] by blast
  define s' where "s' = s\<lparr>pgs := pl, mm := m\<rparr>"
  have walk: "walk (mm s') (pagedir s) va = (if ok \<and> pg_round_down va = upage then Some e else walk (mm s) (pagedir s) va)" if "is_user_vaddr va" for va
    using set(3) D(4) that by (simp add: s'_def)
  have sub: "allocated (pgs s) \<subseteq> allocated pl"
    using page(5) by (auto split: if_splits)
  have "tables m p = None" if "p \<in> pool_pages (pgs s)" "p \<notin> allocated pl" for p
  proof -
    have "p \<notin> allocated (pgs s)" "?pg \<noteq> Some p"
      using that(2) sub page(5) by (auto split: if_splits)
    then show ?thesis
      using set_page_dom [OF set(1), of p] D(9) [OF that(1)] by metis
  qed
  moreover have "\<exists>k \<in> allocated pl. pte_get_page x = Some k" if "is_user_vaddr va" "walk m (pagedir s) va = Some x" for va x
    using that(2) walk [OF that(1)] sub kp e(2) D(10) [OF that(1), of x]
    by (cases "ok \<and> pg_round_down va = upage") (auto simp: s'_def)
  ultimately have sp': "space_ok pds s'"
    using page(2,3) D(4,5,7,8) set(4,5) set_page_step [OF D(2,4) fresh set(1)] by (simp add: space_ok_def s'_def pool_pages_def)
  have "unused u (pgs s) \<le> unused u pl + of_bool (\<not> u)" for u
    using page(3,5) unused_insert [OF page(3) _ D(1), of page False u] by (auto split: if_splits)
  then have "grows (\<lambda>va. pg_round_down va = upage) (\<lambda>u. of_bool (\<not> u)) s s'"
    using sub page(3,4) walk up(3) walk_round [of "mm s" "pagedir s"] by (auto simp: grows_def s'_def)
  moreover have "set_page upage kpage w s = Some (ok, s')"
    using pde page(1) set(1) by (simp add: set_page_def s'_def)
  moreover have "pgs s' = pgs s \<and> mm s' = mm s \<and> pages_of False (pgs s) \<subseteq> allocated (pgs s)" if "\<not> ok"
    using that set(1,2) page(5) pde set_page_fails [of "pagedir s" upage kpage w ?pg "mm s" m] by (auto simp: s'_def split: if_splits)
  moreover have "s' = s\<lparr>pgs := pgs s', mm := mm s'\<rparr>"
    by (simp add: s'_def)
  ultimately show thesis
    using that sp' e(2,4) walk by blast
qed

subsection \<open>The executable\<close>

text \<open>The open executable holds the bytes \<open>bs\<close> and its position is \<open>pos\<close>.\<close>

definition image_ok :: "bytes \<Rightarrow> int \<Rightarrow> proc \<Rightarrow> bool" where
  "image_ok bs pos s \<longleftrightarrow> 0 \<le> pos \<and> (\<exists>sz f i. exec_file s = Some f \<and> f_pos f = pos \<and> get_inode (fs s) (f_inode f) = Some i
     \<and> fs_ok sz (fs s) \<and> wf_inode sz (sview (fs s)) (i_data i) \<and> content (sview (fs s)) (i_data i) = bs)"

lemma exec_read_ok:
  assumes "image_ok bs pos s" "0 \<le> n"
  obtains f' fs' where "exec_read True n s = Some (take (nat n) (drop (nat pos) bs), s\<lparr>fs := fs', exec_file := f'\<rparr>)"
    "image_ok bs (pos + int (length (take (nat n) (drop (nat pos) bs)))) (s\<lparr>fs := fs', exec_file := f'\<rparr>)"
proof -
  obtain sz f i where f: "exec_file s = Some f" "f_pos f = pos" "get_inode (fs s) (f_inode f) = Some i"
      "fs_ok sz (fs s)" "wf_inode sz (sview (fs s)) (i_data i)" "content (sview (fs s)) (i_data i) = bs" "0 \<le> pos"
    using assms(1) by (auto simp: image_ok_def)
  obtain fs' where r: "inode_read_loop (fs s) (i_data i) True n (int (nat pos)) [] = Some ([] @ take (nat n) (drop (nat pos) bs), fs')"
      "moved sz (fs s) (sview (fs s)) fs'"
    using inode_read_loop_ok [OF f(4,5) assms(2), of "nat pos" "[]"] f(6) by blast
  let ?s' = "s\<lparr>fs := fs', exec_file := Some (f\<lparr>f_pos := pos + int (length (take (nat n) (drop (nat pos) bs)))\<rparr>)\<rparr>"
  have "exec_read True n s = Some (take (nat n) (drop (nat pos) bs), ?s')"
    using f(1-3,7) r(1) by (simp add: exec_read_def file_read_def inode_read_at_def)
  moreover have "image_ok bs (pos + int (length (take (nat n) (drop (nat pos) bs)))) ?s'"
    using f moved_ok [OF r(2)] moved_get_inode [OF r(2)] by (auto simp: image_ok_def)
  ultimately show thesis
    by (rule that)
qed

lemma exec_seek_ok: "image_ok bs pos s \<Longrightarrow> 0 \<le> ofs \<Longrightarrow> \<exists>f'. exec_seek ofs s = Some (s\<lparr>exec_file := f'\<rparr>) \<and> image_ok bs ofs (s\<lparr>exec_file := f'\<rparr>)"
  unfolding image_ok_def exec_seek_def file_seek_def by (fastforce intro: exI [of _ "Some (the (exec_file s)\<lparr>f_pos := ofs\<rparr>)"])

lemma exec_length_ok: "image_ok bs pos s \<Longrightarrow> exec_length s = Some (int (length bs))"
  by (auto simp: image_ok_def exec_length_def file_length_def inode_length_def content_def wf_inode_def)

lemma space_ok_image: "space_ok pds (s\<lparr>fs := x, exec_file := y\<rparr>) = space_ok pds s" "space_ok pds (s\<lparr>exec_file := y\<rparr>) = space_ok pds s"
  by (simp_all add: space_ok_def)

lemma image_ok_space: "image_ok bs pos (s\<lparr>pgs := x, mm := y\<rparr>) = image_ok bs pos s" "image_ok bs pos (s\<lparr>pgs := x\<rparr>) = image_ok bs pos s"
  by (simp_all add: image_ok_def)

subsection \<open>A fresh page\<close>

text \<open>\<open>t\<close> is \<open>s\<close> with the page \<open>k\<close> of the user pool allocated and perhaps written.\<close>

definition took :: "proc \<Rightarrow> ptr \<Rightarrow> proc \<Rightarrow> bool" where
  "took s k t \<longleftrightarrow> palloc_ok (pgs t) \<and> k \<in> pages_of True (pgs s) \<and> k \<notin> allocated (pgs s) \<and> allocated (pgs t) = insert k (allocated (pgs s))
     \<and> (\<forall>u. pages_of u (pgs t) = pages_of u (pgs s)) \<and> (\<forall>a. pg_round_down a \<noteq> k \<longrightarrow> kmem (pgs t) a = kmem (pgs s) a)
     \<and> mm t = mm s \<and> pagedir t = pagedir s"

lemma space_ok_same:
  assumes "space_ok pds s" "palloc_ok (pgs t)" "\<And>u. pages_of u (pgs t) = pages_of u (pgs s)" "allocated (pgs s) \<subseteq> allocated (pgs t)"
    and "mm t = mm s" "pagedir t = pagedir s" "\<And>a. pg_round_down a \<in> allocated (pgs s) \<Longrightarrow> kmem (pgs t) a = kmem (pgs s) a"
    and "\<And>u. unused u (pgs s) \<le> unused u (pgs t) + c u"
  shows "space_ok pds t" "grows R c s t"
proof -
  have "\<exists>k \<in> allocated (pgs t). pte_get_page e = Some k" if "is_user_vaddr va" "walk (mm s) (pagedir s) va = Some e" for va e
    using space_okD(10) [OF assms(1) that] assms(4) by blast
  then show "space_ok pds t"
    using assms by (auto simp: space_ok_def pool_pages_def)
  show "grows R c s t"
    using assms by (simp add: grows_def)
qed

lemma took_space:
  assumes "space_ok pds s" "took s k t"
  shows "space_ok pds t" "grows R of_bool s t"
proof -
  have "kmem (pgs t) a = kmem (pgs s) a" if "pg_round_down a \<in> allocated (pgs s)" for a
    using assms(2) that by (auto simp: took_def)
  moreover have "palloc_ok (pgs t)" "allocated (pgs s) \<subseteq> allocated (pgs t)" "mm t = mm s" "pagedir t = pagedir s" "\<And>u. pages_of u (pgs t) = pages_of u (pgs s)"
    using assms(2) by (auto simp: took_def)
  moreover have "unused u (pgs s) \<le> unused u (pgs t) + of_bool u" for u
    using unused_insert [of "pgs t" "pgs s" k True u] assms(2) space_okD(1) [OF assms(1)] by (simp add: took_def)
  ultimately show "space_ok pds t" "grows R of_bool s t"
    using space_ok_same [OF assms(1), of t of_bool] by simp_all
qed

lemma took_page:
  assumes "palloc_ok (pgs s)" "took s k t"
  shows "mapped (kmem (pgs t)) k 4096" "in_space k 4096" "k \<noteq> NULL" "pg_ofs k = 0"
  using pool_page [of "pgs t" k] assms pool_pagesI [of k True "pgs s"] by (simp_all add: took_def pool_pages_def)

lemma took_write:
  assumes ok: "palloc_ok (pgs s)" and t: "took s k t" and xs: "length xs \<le> 4096"
  shows "store_bytes (kmem (pgs t)) k xs = Some (write_bytes (kmem (pgs t)) k xs)" "took s k (set_kmem (write_bytes (kmem (pgs t)) k xs) t)"
proof -
  note pg = took_page [OF ok t]
  have m: "mapped (kmem (pgs t)) k (length xs)" "in_space k (length xs)"
    using mapped_le [OF pg(1) xs] pg(2) xs by (simp_all add: in_space_def)
  then show "store_bytes (kmem (pgs t)) k xs = Some (write_bytes (kmem (pgs t)) k xs)"
    by (simp add: store_bytes_ok)
  have "write_bytes (kmem (pgs t)) k xs a = kmem (pgs t) a" if "pg_round_down a \<noteq> k" for a
    using that within_page [OF pg(4,2), of a] xs m(2) by (intro write_outside) (auto simp: within_def)
  then show "took s k (set_kmem (write_bytes (kmem (pgs t)) k xs) t)"
    using t palloc_ok_write [of "pgs t" k xs] m by (simp add: took_def set_kmem_def)
qed

lemma took_free:
  assumes sp: "space_ok pds s" and t: "took s k t"
  obtains t' where "free_page k t = Some t'" "space_ok pds t'" "grows R c s t'" "t' = t\<lparr>pgs := pgs t'\<rparr>" "allocated (pgs t') = allocated (pgs s)"
    "\<And>u. pages_of u (pgs t') = pages_of u (pgs s)"
proof -
  have k: "palloc_ok (pgs t)" "k \<in> allocated (pgs t)"
    using t by (auto simp: took_def)
  obtain pl where pl: "palloc_free_page k (pgs t) = Some pl" "palloc_ok pl" "allocated pl = allocated (pgs t) - {k}" "\<And>u. pages_of u pl = pages_of u (pgs t)"
      "\<And>a. pg_round_down a \<noteq> k \<Longrightarrow> kmem pl a = kmem (pgs t) a"
    by (rule free_page_ok [OF k]) blast
  let ?t = "t\<lparr>pgs := pl\<rparr>"
  have "allocated pl = allocated (pgs s)" "\<And>u. pages_of u pl = pages_of u (pgs s)"
    using pl(3,4) t by (auto simp: took_def)
  moreover have "kmem pl a = kmem (pgs s) a" if "pg_round_down a \<in> allocated (pgs s)" for a
    using pl(5) [of a] t that by (auto simp: took_def)
  ultimately have "space_ok pds ?t" "grows R c s ?t"
    using space_ok_same [OF sp, of ?t c] pl(2) t by (simp_all add: took_def unused_def)
  then show thesis
    using that [of ?t] pl(1) \<open>allocated pl = allocated (pgs s)\<close> \<open>\<And>u. pages_of u pl = pages_of u (pgs s)\<close> by (simp add: free_page_def)
qed

lemma take_page:
  assumes "space_ok pds s" "fl AND PAL_ASSERT = 0" "fl AND PAL_USER \<noteq> 0"
  obtains "palloc_get_page fl (pgs s) = Some (NULL, pgs s)" "pages_of True (pgs s) \<subseteq> allocated (pgs s)"
  | k pl where "palloc_get_page fl (pgs s) = Some (k, pl)" "k \<noteq> NULL" "took s k (s\<lparr>pgs := pl\<rparr>)" "fl AND PAL_ZERO \<noteq> 0 \<Longrightarrow> bytes_at (kmem pl) k (replicate 4096 0)"
proof -
  note ok = space_okD(1) [OF assms(1)]
  show thesis
  proof (cases rule: get_page_cases [OF ok assms(2)])
    case 1
    then show thesis
      using that(1) assms(3) by simp
  next
    case (2 k pl)
    have "took s k (s\<lparr>pgs := pl\<rparr>)"
      using 2 assms(3) by (simp add: took_def)
    moreover have "k \<noteq> NULL"
      using pool_page(3) [OF ok pool_pagesI [OF 2(3)]] .
    ultimately show thesis
      using that(2) 2(1,8) by blast
  qed
qed

lemma took_disjoint:
  assumes "palloc_ok (pgs s)" "took s k t" "pages_of False (pgs t) \<subseteq> allocated (pgs t)"
  shows "pages_of False (pgs s) \<subseteq> allocated (pgs s)"
proof -
  have "pages_of False (pgs s) \<inter> pages_of True (pgs s) = {}"
    using assms(1) by (simp add: palloc_ok_def pages_of_def get_pool_def)
  then show ?thesis
    using assms(2,3) by (auto simp: took_def)
qed

lemma install_page_cases:
  assumes sp: "space_ok pds s" and t: "took s k t" and up: "pg_ofs upage = 0" "is_user_vaddr upage"
  obtains "install_page upage k w t = Some (False, t)" "walk (mm s) (pagedir s) upage \<noteq> None \<or> pages_of False (pgs s) \<subseteq> allocated (pgs s)"
  | t' e where "install_page upage k w t = Some (True, t')" "space_ok pds t'" "t' = t\<lparr>pgs := pgs t', mm := mm t'\<rparr>"
    "grows (\<lambda>va. pg_round_down va = upage) (\<lambda>u. of_bool (\<not> u)) t t'" "walk (mm s) (pagedir s) upage = None" "pte_get_page e = Some k" "bit e 1 = w"
    "\<And>va. is_user_vaddr va \<Longrightarrow> pg_round_down va = upage \<Longrightarrow> walk (mm t') (pagedir t') va = Some e"
proof -
  note tsp = took_space [OF sp t]
  have same: "mm t = mm s" "pagedir t = pagedir s" and k: "k \<in> allocated (pgs t)"
    using t by (simp_all add: took_def)
  show thesis
  proof (cases "walk (mm s) (pagedir s) upage")
    case (Some e)
    then obtain f where "f \<in> allocated (pgs s)" "pte_get_page e = Some f"
      using space_okD(10) [OF sp up(2)] by blast
    moreover have "pg_ofs upage = 0" "f \<noteq> NULL"
      using up calculation(1) pool_page(3) [OF space_okD(1) [OF sp], of f] allocated_pages by auto
    ultimately have "pagedir_get_page (pagedir t) upage (mm t) = Some f" "f \<noteq> NULL"
      using get_page_ok [OF space_okD(6) [OF sp] up(2)] Some by (simp_all add: same)
    then show thesis
      using that(1) Some by (simp add: install_page_def)
  next
    case None
    then have get: "pagedir_get_page (pagedir t) upage (mm t) = Some NULL"
      using get_page_ok [OF space_okD(6) [OF sp] up(2)] by (simp add: same)
    have free: "walk (mm t) (pagedir t) upage = None"
      using None by (simp add: same)
    obtain ok t' e where set: "set_page upage k w t = Some (ok, t')" "space_ok pds t'" "t' = t\<lparr>pgs := pgs t', mm := mm t'\<rparr>"
        "grows (\<lambda>va. pg_round_down va = upage) (\<lambda>u. of_bool (\<not> u)) t t'" "pte_get_page e = Some k" "bit e 1 = w"
        "\<And>va. is_user_vaddr va \<Longrightarrow> walk (mm t') (pagedir t) va = (if ok \<and> pg_round_down va = upage then Some e else walk (mm t) (pagedir t) va)"
        "\<not> ok \<Longrightarrow> pgs t' = pgs t \<and> mm t' = mm t \<and> pages_of False (pgs t) \<subseteq> allocated (pgs t)"
      by (rule set_page_space [OF tsp(1) up free k, where w = w]) blast
    have pd: "pagedir t' = pagedir t"
      using set(4) by (simp add: grows_def)
    show thesis
    proof (cases ok)
      case True
      then show thesis
        using that(2) [of t' e] set(1-7) None get by (simp add: install_page_def pd)
    next
      case False
      then have "t' = t"
        using set(3,8) by simp
      then show thesis
        using that(1) set(1,8) False get took_disjoint [OF space_okD(1) [OF sp] t] by (simp add: install_page_def)
    qed
  qed
qed

subsection \<open>Loading pages\<close>

definition seg_byte :: "bytes \<Rightarrow> nat \<Rightarrow> nat \<Rightarrow> nat \<Rightarrow> uint8_t" where
  "seg_byte bs pos rb i = (if i < rb then bs ! (pos + i) else 0)"

lemma fill_page:
  assumes ok: "palloc_ok (pgs s)" and t: "took s k t" and n: "length xs = unat prb" "unat prb \<le> 4096"
  defines "ys \<equiv> xs @ replicate (4096 - unat prb) 0"
  shows "memset (write_bytes (kmem (pgs t)) k xs) (k + prb) 0 (PGSIZE - prb) = Some (k + prb, write_bytes (kmem (pgs t)) k ys)"
    "took s k (set_kmem (write_bytes (kmem (pgs t)) k ys) t)" "pg_round_down a = k \<Longrightarrow> write_bytes (kmem (pgs t)) k ys a = Some (ys ! (unat a - unat k))"
proof -
  note pg = took_page [OF ok t]
  have z: "unat (PGSIZE - prb) = 4096 - unat prb"
    using n(2) by (simp add: unat_sub_if' PGSIZE_def word_le_nat_alt)
  have k: "unat (k + prb) = unat k + unat prb" "0 < unat k"
    using pg(2,3) n(2) by (simp_all add: in_space_def unat_word_ariths unat_gt_0)
  have xs: "mapped (kmem (pgs t)) k (length xs)" "in_space k (length xs)"
    using mapped_le [OF pg(1)] pg(2) n by (simp_all add: in_space_def)
  have "mapped (kmem (pgs t)) (k + of_nat (unat prb)) (4096 - unat prb)"
    using pg(1) n(2) by (intro mapped_drop) simp
  then have "mapped (write_bytes (kmem (pgs t)) k xs) (k + prb) (unat (PGSIZE - prb))"
    using xs z by (simp add: mapped_write)
  moreover have "k + prb \<noteq> NULL"
    using k by auto
  ultimately show "memset (write_bytes (kmem (pgs t)) k xs) (k + prb) 0 (PGSIZE - prb) = Some (k + prb, write_bytes (kmem (pgs t)) k ys)"
    using memset_ok [of "write_bytes (kmem (pgs t)) k xs" "k + prb" "PGSIZE - prb" 0] n(1) z by (simp add: ys_def write_append)
  have len: "length ys = 4096"
    using n by (simp add: ys_def)
  then show "took s k (set_kmem (write_bytes (kmem (pgs t)) k ys) t)"
    using took_write(2) [OF ok t, of ys] by simp
  show "write_bytes (kmem (pgs t)) k ys a = Some (ys ! (unat a - unat k))" if "pg_round_down a = k"
    using that write_apply [of k ys "kmem (pgs t)" a] within_page [OF pg(4,2), of a] pg(2) len by simp
qed

lemma load_page_ok:
  assumes sp: "space_ok pds s" and im: "image_ok bs pos s" and up: "pg_ofs upage = 0" "is_user_vaddr upage" and prb: "unat prb \<le> 4096"
  obtains s' pos' where "load_page True upage prb (PGSIZE - prb) w s = Some (False, s')" "space_ok pds s'" "image_ok bs pos' s'"
    "grows (\<lambda>va. pg_round_down va = upage) (\<lambda>_. 1) s s'" "length bs < nat pos + unat prb \<or> walk (mm s) (pagedir s) upage \<noteq> None \<or> exhausted (pgs s')"
  | s' where "load_page True upage prb (PGSIZE - prb) w s = Some (True, s')" "space_ok pds s'" "image_ok bs (pos + int (unat prb)) s'"
    "grows (\<lambda>va. pg_round_down va = upage) (\<lambda>_. 1) s s'" "walk (mm s) (pagedir s) upage = None"
    "\<And>va. is_user_vaddr va \<Longrightarrow> pg_round_down va = upage \<Longrightarrow> \<exists>e. walk (mm s') (pagedir s') va = Some e \<and> bit e 1 = w
       \<and> user_byte s' va = Some (seg_byte bs (nat pos) (unat prb) (unat va mod 4096))"
proof -
  note ok = space_okD(1) [OF sp]
  have fl: "PAL_USER AND PAL_ASSERT = 0" "PAL_USER AND PAL_USER \<noteq> 0"
    by (simp_all add: PAL_ASSERT_def PAL_USER_def)
  have sint: "sint prb = int (unat prb)"
    using sint_small [of "unat prb"] prb by simp
  show thesis
  proof (cases rule: take_page [OF sp fl])
    case 1
    then show thesis
      using that(1) [of s pos] sp im grows_refl by (simp add: load_page_def exhausted_def) blast
  next
    case (2 k pl)
    let ?s1 = "s\<lparr>pgs := pl\<rparr>"
    define buf where "buf = take (unat prb) (drop (nat pos) bs)"
    have "image_ok bs pos ?s1"
      using im by (simp add: image_ok_space)
    then obtain f' fs' where rd: "exec_read True (int (unat prb)) ?s1 = Some (buf, ?s1\<lparr>fs := fs', exec_file := f'\<rparr>)"
        "image_ok bs (pos + int (length buf)) (?s1\<lparr>fs := fs', exec_file := f'\<rparr>)"
      by (rule exec_read_ok [where n = "int (unat prb)"]) (simp_all add: buf_def)
    define t where "t = ?s1\<lparr>fs := fs', exec_file := f'\<rparr>"
    have t: "took s k t"
      using 2(3) by (simp add: t_def took_def)
    have "length buf \<le> 4096"
      using prb by (simp add: buf_def)
    note w1 = took_write [OF ok t this]
    have cmp: "int (length buf) = uint prb \<longleftrightarrow> length buf = unat prb"
      using of_nat_eq_iff [of "length buf" "unat prb", where ?'a = int] by simp
    show thesis
    proof (cases "length buf = unat prb")
      case False
      obtain t' where fr: "free_page k (set_kmem (write_bytes (kmem (pgs t)) k buf) t) = Some t'" "space_ok pds t'" "grows (\<lambda>va. pg_round_down va = upage) (\<lambda>_. 1) s t'"
          "t' = set_kmem (write_bytes (kmem (pgs t)) k buf) t\<lparr>pgs := pgs t'\<rparr>"
        by (rule took_free [OF sp w1(2)])
      have "load_page True upage prb (PGSIZE - prb) w s = Some (False, t')"
        using 2(1,2) rd(1) w1(1) fr(1) False cmp unfolding load_page_def sint by (simp add: t_def Let_def)
      moreover have "image_ok bs (pos + int (length buf)) t'"
        by (subst fr(4)) (use rd(2) in \<open>simp add: image_ok_def set_kmem_def t_def\<close>)
      moreover have "length bs < nat pos + unat prb"
        using False by (auto simp: buf_def)
      ultimately show thesis
        using that(1) fr(2,3) by blast
    next
      case True
      note fill = fill_page [OF ok t True prb]
      define u where "u = set_kmem (write_bytes (kmem (pgs t)) k (buf @ replicate (4096 - unat prb) 0)) t"
      have u: "took s k u"
        using fill(2) by (simp add: u_def)
      have imu: "image_ok bs (pos + int (unat prb)) u"
        using rd(2) True by (simp add: image_ok_def u_def set_kmem_def t_def)
      have load: "load_page True upage prb (PGSIZE - prb) w s = do {
          (ok, s) \<leftarrow> install_page upage k w u;
          if \<not> ok then do { s \<leftarrow> free_page k s; Some (False, s) } else Some (True, s) }"
        using 2(1,2) rd(1) w1(1) fill(1) True cmp unfolding load_page_def sint by (simp add: t_def set_kmem_def u_def)
      show thesis
      proof (cases rule: install_page_cases [OF sp u up, of w])
        case 1
        obtain t' where fr: "free_page k u = Some t'" "space_ok pds t'" "grows (\<lambda>va. pg_round_down va = upage) (\<lambda>_. 1) s t'" "t' = u\<lparr>pgs := pgs t'\<rparr>"
            "allocated (pgs t') = allocated (pgs s)" "\<And>v. pages_of v (pgs t') = pages_of v (pgs s)"
          by (rule took_free [OF sp u]) blast
        have "image_ok bs (pos + int (unat prb)) t'"
          by (subst fr(4)) (use imu in \<open>simp add: image_ok_space\<close>)
        moreover have "walk (mm s) (pagedir s) upage \<noteq> None \<or> exhausted (pgs t')"
          using 1(2) fr(5,6) by (auto simp: exhausted_def)
        ultimately show thesis
          using that(1) fr(1-3) 1(1) load by simp
      next
        case (2 t' e)
        have "user_byte t' va = Some (seg_byte bs (nat pos) (unat prb) (unat va mod 4096))" if va: "is_user_vaddr va" "pg_round_down va = upage" for va
        proof -
          note pg = took_page [OF ok u]
          have a: "pg_round_down (k + pg_ofs va) = k" "unat (k + pg_ofs va) = unat k + unat va mod 4096"
            using page_offset [OF pg(4,2)] by simp_all
          have "kmem (pgs t') (k + pg_ofs va) = kmem (pgs u) (k + pg_ofs va)"
            using 2(4) u a(1) by (simp add: grows_def took_def)
          also have "\<dots> = Some ((buf @ replicate (4096 - unat prb) 0) ! (unat va mod 4096))"
            using fill(3) [OF a(1)] a(2) by (simp add: u_def set_kmem_def)
          also have "\<dots> = Some (seg_byte bs (nat pos) (unat prb) (unat va mod 4096))"
            using True by (auto simp: seg_byte_def nth_append buf_def)
          finally show ?thesis
            using user_byte_walk [OF 2(2) va(1)] 2(6,8) va by simp
        qed
        moreover have "image_ok bs (pos + int (unat prb)) t'"
          by (subst 2(3)) (use imu in \<open>simp add: image_ok_space\<close>)
        moreover have "grows (\<lambda>va. pg_round_down va = upage) (\<lambda>_. 1) s t'"
          by (rule grows_mono [OF grows_trans [OF took_space(2) [OF sp u] 2(4)]]) auto
        ultimately show thesis
          using that(2) [of t'] 2(1,2,5,7,8) load by simp
      qed
    qed
  qed
qed

text \<open>The outcome of loading \<open>rb\<close> bytes of the file, and zeros up to \<open>n\<close> bytes, at \<open>upage\<close>.\<close>

definition loaded :: "ptr set \<Rightarrow> bytes \<Rightarrow> nat \<Rightarrow> ptr \<Rightarrow> nat \<Rightarrow> nat \<Rightarrow> bool \<Rightarrow> proc \<Rightarrow> bool \<Rightarrow> proc \<Rightarrow> bool" where
  "loaded pds bs pos upage n rb w s b s' \<longleftrightarrow> space_ok pds s' \<and> (\<exists>pos'. image_ok bs pos' s') \<and> grows (within upage n) (\<lambda>_. n div 4096) s s' \<and>
     (if b then \<forall>va. within upage n va \<longrightarrow> walk (mm s) (pagedir s) va = None
        \<and> (\<exists>e. walk (mm s') (pagedir s') va = Some e \<and> bit e 1 = w) \<and> user_byte s' va = Some (seg_byte bs pos rb (unat va - unat upage))
      else length bs < pos + rb \<or> (\<exists>va. within upage n va \<and> walk (mm s) (pagedir s) va \<noteq> None) \<or> exhausted (pgs s'))"

lemma seg_byte_page: "i < 4096 \<Longrightarrow> seg_byte bs pos (min rb 4096) i = seg_byte bs pos rb i"
  by (simp add: seg_byte_def)

lemma seg_byte_next: "4096 \<le> i \<Longrightarrow> seg_byte bs (pos + min rb 4096) (rb - min rb 4096) (i - 4096) = seg_byte bs pos rb i"
  by (auto simp: seg_byte_def min_def)

lemma user_within: "unat upage + n \<le> unat PHYS_BASE \<Longrightarrow> within upage n va \<Longrightarrow> is_user_vaddr va"
  by (simp add: is_user_vaddr_def word_less_nat_alt within_def)

lemma load_pages_step:
  assumes sp: "space_ok pds s" and p: "pg_ofs upage = 0" "unat upage + 4096 * Suc n \<le> unat PHYS_BASE" "0 \<le> pos"
    and s1: "space_ok pds s1" "grows (\<lambda>va. pg_round_down va = upage) (\<lambda>_. 1) s s1" "walk (mm s) (pagedir s) upage = None"
      "\<And>va. is_user_vaddr va \<Longrightarrow> pg_round_down va = upage \<Longrightarrow> \<exists>e. walk (mm s1) (pagedir s1) va = Some e \<and> bit e 1 = w
       \<and> user_byte s1 va = Some (seg_byte bs (nat pos) (min rb 4096) (unat va mod 4096))"
    and s2: "loaded pds bs (nat (pos + int (min rb 4096))) (upage + PGSIZE) (4096 * n) (rb - min rb 4096) w s1 b s2"
  shows "loaded pds bs (nat pos) upage (4096 * Suc n) rb w s b s2"
proof -
  have sp1: "in_space upage 4096"
    using p(2) by (simp add: in_space_def unat_base)
  have up': "unat (upage + PGSIZE) = unat upage + 4096"
    using p(2) by (simp add: unat_word_ariths PGSIZE_def unat_base)
  have split: "within upage (4096 * Suc n) va \<longleftrightarrow> pg_round_down va = upage \<or> within (upage + PGSIZE) (4096 * n) va" for va
    using within_page [OF p(1) sp1, of va] up' by (auto simp: within_def)
  have pos: "nat (pos + int (min rb 4096)) = nat pos + min rb 4096"
    using p(3) by (simp add: nat_add_distrib)
  have user: "is_user_vaddr va" if "within upage (4096 * Suc n) va" for va
    using that p(2) by (rule user_within [rotated])
  have apart: "pg_round_down va \<noteq> upage" if "within (upage + PGSIZE) (4096 * n) va" for va
    using that within_page [OF p(1) sp1, of va] up' by (auto simp: within_def)
  note L = s2 [unfolded loaded_def pos]
  have gr: "grows (within (upage + PGSIZE) (4096 * n)) (\<lambda>_. n) s1 s2"
    using L by simp
  have g: "grows (within upage (4096 * Suc n)) (\<lambda>_. 4096 * Suc n div 4096) s s2"
    by (rule grows_mono [OF grows_trans [OF s1(2) gr, of "within upage (4096 * Suc n)"]]) (use split in auto)
  have pd: "pagedir s1 = pagedir s"
    using s1(2) by (simp add: grows_def)
  have rest: "walk (mm s1) (pagedir s1) va = walk (mm s) (pagedir s) va" if "within (upage + PGSIZE) (4096 * n) va" for va
    using s1(2) apart [OF that] user [of va] split [of va] that by (simp add: grows_def)
  show ?thesis
  proof (cases b)
    case False
    then have "length bs < nat pos + rb \<or> (\<exists>va. within (upage + PGSIZE) (4096 * n) va \<and> walk (mm s1) (pagedir s1) va \<noteq> None) \<or> exhausted (pgs s2)"
      using L by (auto simp: min_def split: if_splits)
    then show ?thesis
      using False L g rest split unfolding loaded_def by auto
  next
    case True
    have "walk (mm s) (pagedir s) va = None \<and> (\<exists>e. walk (mm s2) (pagedir s2) va = Some e \<and> bit e 1 = w)
        \<and> user_byte s2 va = Some (seg_byte bs (nat pos) rb (unat va - unat upage))" if va: "within upage (4096 * Suc n) va" for va
    proof (cases "pg_round_down va = upage")
      case first: True
      have pd2: "pagedir s2 = pagedir s1"
        using gr by (simp add: grows_def)
      obtain e where e: "walk (mm s1) (pagedir s1) va = Some e" "bit e 1 = w" "user_byte s1 va = Some (seg_byte bs (nat pos) (min rb 4096) (unat va mod 4096))"
        using s1(4) [OF user [OF va] first] by blast
      have "unat va mod 4096 = unat va - unat upage"
        using unat_round_down [of va] first by (simp add: minus_mult_div_eq_mod)
      moreover have "walk (mm s2) (pagedir s2) va = Some e"
        using gr e(1) user [OF va] by (simp add: grows_def pd2)
      moreover have "user_byte s2 va = user_byte s1 va"
        using e(1) by (intro grows_user_byte [OF s1(1) _ gr user [OF va]]) (use L in simp_all)
      moreover have "walk (mm s) (pagedir s) va = None"
        using s1(3) walk_round [of "mm s" "pagedir s" va] first by simp
      ultimately show ?thesis
        using e(2,3) seg_byte_page [of "unat va mod 4096" bs "nat pos" rb] by simp
    next
      case False
      then have "within (upage + PGSIZE) (4096 * n) va" "4096 \<le> unat va - unat upage" "unat va - unat upage - 4096 = unat va - unat (upage + PGSIZE)"
        using va split up' by (auto simp: within_def)
      then show ?thesis
        using L True rest seg_byte_next [of "unat va - unat upage" bs "nat pos" rb] by fastforce
    qed
    then show ?thesis
      using True L g unfolding loaded_def by auto
  qed
qed

lemma load_pages_ok:
  assumes "space_ok pds s" "image_ok bs pos s" "pg_ofs upage = 0" "unat upage + 4096 * n \<le> unat PHYS_BASE" "unat rb + unat zb = 4096 * n"
  shows "\<exists>b s'. load_pages True upage rb zb w s = Some (b, s') \<and> loaded pds bs (nat pos) upage (4096 * n) (unat rb) w s b s'"
  using assms
proof (induction n arbitrary: s pos upage rb zb)
  case 0
  then have "rb = 0" "zb = 0"
    by (simp_all add: unat_eq_zero)
  then show ?case
    using "0.prems" grows_refl by (subst load_pages.simps) (auto simp: loaded_def)
next
  case (Suc n)
  define prb where "prb = (if rb < PGSIZE then rb else PGSIZE)"
  have prb: "unat prb = min (unat rb) 4096"
    by (simp add: prb_def word_less_nat_alt PGSIZE_def)
  have pos: "0 \<le> pos" and user: "is_user_vaddr upage"
    using Suc.prems(2,4) by (simp_all add: image_ok_def is_user_vaddr_def word_less_nat_alt)
  have "rb > 0 \<or> zb > 0"
    using Suc.prems(5) by (auto simp: word_neq_0_conv [symmetric])
  then have unfold: "load_pages True upage rb zb w s = do {
      (ok, s) \<leftarrow> load_page True upage prb (PGSIZE - prb) w s;
      if ok then load_pages True (upage + PGSIZE) (rb - prb) (zb - (PGSIZE - prb)) w s else Some (False, s) }"
    by (subst load_pages.simps) (simp add: prb_def [symmetric] Let_def)
  have page: "pg_round_down va = upage \<Longrightarrow> within upage (4096 * Suc n) va" for va
    using within_page [OF Suc.prems(3), of va] Suc.prems(4) by (simp add: in_space_def unat_base within_def)
  have "unat prb \<le> 4096"
    by (simp add: prb)
  note page_cases = load_page_ok [OF Suc.prems(1-3) user this, of w]
  show ?case
  proof (cases rule: page_cases)
    case (1 s' pos')
    have "length bs < nat pos + unat rb \<or> walk (mm s) (pagedir s) upage \<noteq> None \<or> exhausted (pgs s')"
      using 1(5) prb by linarith
    moreover have "within upage (4096 * Suc n) upage"
      by (simp add: within_def)
    ultimately have "loaded pds bs (nat pos) upage (4096 * Suc n) (unat rb) w s False s'"
      using 1(2,3) grows_mono [OF 1(4), of "within upage (4096 * Suc n)" "\<lambda>_. 4096 * Suc n div 4096"] page unfolding loaded_def by auto
    then show ?thesis
      using 1(1) unfold by (intro exI [of _ False] exI [of _ s']) simp
  next
    case (2 s1)
    have z: "unat (PGSIZE - prb) = 4096 - unat prb" "unat (rb - prb) = unat rb - min (unat rb) 4096"
      using prb by (simp_all add: unat_sub_if' PGSIZE_def word_le_nat_alt)
    have "unat (zb - (PGSIZE - prb)) = unat zb - (4096 - unat prb)" "4096 - unat prb \<le> unat zb"
      using z prb Suc.prems(5) by (simp_all add: unat_sub_if')
    then have rest: "unat (rb - prb) + unat (zb - (PGSIZE - prb)) = 4096 * n"
      using z prb Suc.prems(5) by (cases "unat rb \<le> 4096") simp_all
    have up: "unat (upage + PGSIZE) = unat upage + 4096"
      using Suc.prems(4) by (simp add: unat_word_ariths PGSIZE_def unat_base)
    have "pg_ofs (upage + PGSIZE) = 0" "unat (upage + PGSIZE) + 4096 * n \<le> unat PHYS_BASE"
      using Suc.prems(3,4) up by (simp_all add: aligned_iff)
    from Suc.IH [OF 2(2,3) this rest] obtain b s2 where "load_pages True (upage + PGSIZE) (rb - prb) (zb - (PGSIZE - prb)) w s1 = Some (b, s2)"
        "loaded pds bs (nat (pos + int (unat prb))) (upage + PGSIZE) (4096 * n) (unat (rb - prb)) w s1 b s2"
      by blast
    then show ?thesis
      using load_pages_step [OF Suc.prems(1,3,4) pos 2(2,4,5) 2(6) [unfolded prb], of b s2] 2(1) unfold unfolding prb z(2) by simp
  qed
qed

subsection \<open>Segments\<close>

definition seg_valid :: "bytes \<Rightarrow> Elf32_Phdr \<Rightarrow> bool" where
  "seg_valid bs ph \<longleftrightarrow> unat (p_offset ph) mod 4096 = unat (p_vaddr ph) mod 4096 \<and> unat (p_offset ph) \<le> length bs
     \<and> unat (p_filesz ph) \<le> unat (p_memsz ph) \<and> 0 < unat (p_memsz ph) \<and> 4096 \<le> unat (p_vaddr ph)
     \<and> unat (p_vaddr ph) + unat (p_memsz ph) < unat PHYS_BASE"

definition seg_pages :: "Elf32_Phdr \<Rightarrow> nat" where
  "seg_pages ph = (unat (p_vaddr ph) mod 4096 + unat (p_memsz ph) + 4095) div 4096"

definition in_seg :: "Elf32_Phdr \<Rightarrow> ptr \<Rightarrow> bool" where
  "in_seg ph va \<longleftrightarrow> p_type ph = PT_LOAD \<and> within (pg_round_down (p_vaddr ph)) (4096 * seg_pages ph) va"

definition seg_loaded :: "bytes \<Rightarrow> Elf32_Phdr \<Rightarrow> proc \<Rightarrow> bool" where
  "seg_loaded bs ph s \<longleftrightarrow> (\<forall>i < unat (p_memsz ph). user_byte s (p_vaddr ph + of_nat i) = Some (if i < unat (p_filesz ph) then bs ! (unat (p_offset ph) + i) else 0)
     \<and> (\<exists>e. walk (mm s) (pagedir s) (p_vaddr ph + of_nat i) = Some e \<and> bit e 1 = (p_flags ph AND PF_W \<noteq> 0)))"

lemma image_small:
  assumes "image_ok bs pos s"
  shows "length bs < 2 ^ 30"
proof -
  have "length bs div 512 < 250 + 128 * 128"
    using assms by (auto simp: image_ok_def content_def wf_inode_def)
  then show ?thesis
    by (simp add: div_less_iff_less_mult)
qed

lemma validate_segment_ok:
  assumes "image_ok bs pos s"
  shows "validate_segment ph s = Some (seg_valid bs ph)"
proof -
  have len: "unat (word_of_int (int (length bs)) :: uint32_t) = length bs"
    using image_small [OF assms] by (simp add: unat_of_nat)
  have ofs: "a AND PGMASK = b AND PGMASK \<longleftrightarrow> unat a mod 4096 = unat b mod 4096" for a b
    by (metis pg_ofs_def unat_pg_ofs word_unat_eq_iff)
  let ?v = "p_vaddr ph" and ?n = "p_memsz ph"
  have sum: "unat (?v + ?n) = (if unat ?v + unat ?n < 2 ^ 32 then unat ?v + unat ?n else unat ?v + unat ?n - 2 ^ 32)"
    using unat_32_less [of ?v] unat_32_less [of ?n] by (simp add: unat_word_ariths mod_if)
  have "seg_valid bs ph \<longleftrightarrow> p_offset ph AND PGMASK = ?v AND PGMASK \<and> \<not> p_offset ph > word_of_int (int (length bs)) \<and> \<not> ?n < p_filesz ph \<and> ?n \<noteq> 0
      \<and> is_user_vaddr ?v \<and> is_user_vaddr (?v + ?n) \<and> \<not> ?v + ?n < ?v \<and> \<not> ?v < PGSIZE"
    unfolding seg_valid_def ofs is_user_vaddr_def word_less_nat_alt sum len unat_base
    using unat_32_less [of ?n] unat_32_less [of ?v] by (auto simp: PGSIZE_def unat_gt_0 unat_eq_zero)
  then show ?thesis
    unfolding validate_segment_def exec_length_ok [OF assms] by auto
qed

text \<open>The page-rounded bounds of a valid segment.\<close>

lemma seg_bounds:
  assumes "seg_valid bs ph"
  defines "po \<equiv> p_vaddr ph AND PGMASK" and "up \<equiv> p_vaddr ph AND NOT PGMASK"
  shows "unat po = unat (p_vaddr ph) mod 4096" "unat up + unat po = unat (p_vaddr ph)" "pg_ofs up = 0" "up = pg_round_down (p_vaddr ph)"
    "unat up + 4096 * seg_pages ph \<le> unat PHYS_BASE" "unat po + unat (p_memsz ph) \<le> 4096 * seg_pages ph"
    "unat (ROUND_UP (po + p_memsz ph) PGSIZE) = 4096 * seg_pages ph" "unat (po + p_filesz ph) = unat po + unat (p_filesz ph)"
proof -
  let ?v = "p_vaddr ph" and ?n = "p_memsz ph"
  have h: "unat ?v + unat ?n < 3221225472" "unat (p_filesz ph) \<le> unat ?n"
    using assms(1) by (simp_all add: seg_valid_def unat_base)
  show po: "unat po = unat ?v mod 4096"
    by (simp add: po_def unat_pg_ofs flip: pg_ofs_def)
  show "up = pg_round_down ?v" and al: "pg_ofs up = 0"
    by (simp_all add: up_def round_down flip: pg_round_down_def)
  show sum: "unat up + unat po = unat ?v"
    using unat_round_down [of ?v] po by (simp add: up_def flip: pg_round_down_def)
  obtain c where c: "unat up = 4096 * c"
    using al by (auto simp: aligned_iff)
  have "4096 * seg_pages ph \<le> unat po + unat ?n + 4095"
    unfolding seg_pages_def po by (metis div_times_less_eq_dividend mult.commute)
  then have "c + seg_pages ph \<le> 786432"
    using sum h c by linarith
  then show "unat up + 4096 * seg_pages ph \<le> unat PHYS_BASE"
    using c by (simp add: unat_base)
  have "unat po + unat ?n + 4095 < 4096 * (seg_pages ph + 1)"
    unfolding seg_pages_def po using dividend_less_div_times [of 4096 "unat ?v mod 4096 + unat ?n + 4095"] by simp
  then show "unat po + unat ?n \<le> 4096 * seg_pages ph"
    by simp
  show "unat (po + p_filesz ph) = unat po + unat (p_filesz ph)"
    using sum h by (intro unat_add_small) simp
  have "unat (po + ?n) = unat po + unat ?n"
    using sum h by (intro unat_add_small) simp
  then have "unat (po + ?n + PGSIZE - 1) = unat po + unat ?n + 4095"
    using sum h unat_add_small [of 4095 "po + ?n"] by (simp add: PGSIZE_def)
  then have "unat ((po + ?n + PGSIZE - 1) div PGSIZE) = seg_pages ph"
    by (simp add: unat_div PGSIZE_def seg_pages_def po)
  then show "unat (ROUND_UP (po + ?n) PGSIZE) = 4096 * seg_pages ph"
    using \<open>4096 * seg_pages ph \<le> _\<close> sum h by (simp add: ROUND_UP_def unat_word_ariths PGSIZE_def)
qed

lemma load_segment_ok:
  assumes sp: "space_ok pds s" and im: "image_ok bs pos s" and v: "seg_valid bs ph"
  defines "rb \<equiv> (if p_filesz ph > 0 then (p_vaddr ph AND PGMASK) + p_filesz ph else 0)"
  shows "\<exists>b s'. load_segment True (sint (p_offset ph AND NOT PGMASK)) (p_vaddr ph AND NOT PGMASK) rb
      (ROUND_UP ((p_vaddr ph AND PGMASK) + p_memsz ph) PGSIZE - rb) w s = Some (b, s')
    \<and> loaded pds bs (4096 * (unat (p_offset ph) div 4096)) (pg_round_down (p_vaddr ph)) (4096 * seg_pages ph) (unat rb) w s b s'"
proof -
  note B = seg_bounds [OF v]
  let ?zb = "ROUND_UP ((p_vaddr ph AND PGMASK) + p_memsz ph) PGSIZE - rb" and ?ofs = "p_offset ph AND NOT PGMASK"
  have "unat rb \<le> 4096 * seg_pages ph"
    using B(6,8) v by (auto simp: rb_def seg_valid_def)
  then have sum: "unat rb + unat ?zb = 4096 * seg_pages ph"
    by (simp add: unat_sub_if' B(7))
  then have rz: "unat (rb + ?zb) = 4096 * seg_pages ph"
    using B(7) by simp
  then have mod: "(rb + ?zb) mod PGSIZE = 0"
    by (intro word_unat_eq_iff [THEN iffD2]) (simp add: unat_mod PGSIZE_def)
  have ofs: "unat ?ofs = 4096 * (unat (p_offset ph) div 4096)"
    by (simp add: unat_round_down flip: pg_round_down_def)
  have "unat ?ofs \<le> unat (p_offset ph)"
    unfolding ofs by simp
  then have "unat ?ofs < 2 ^ 31"
    using image_small [OF im] v by (simp add: seg_valid_def)
  then have "sint (of_nat (unat ?ofs) :: uint32_t) = int (unat ?ofs)"
    by (rule sint_small)
  then have sofs: "sint ?ofs = int (4096 * (unat (p_offset ph) div 4096))"
    unfolding ofs [symmetric] by simp
  obtain f' where seek: "exec_seek (sint ?ofs) s = Some (s\<lparr>exec_file := f'\<rparr>)" "image_ok bs (sint ?ofs) (s\<lparr>exec_file := f'\<rparr>)"
    using exec_seek_ok [OF im, of "sint ?ofs"] sofs by auto
  have sp': "space_ok pds (s\<lparr>exec_file := f'\<rparr>)"
    using sp by (simp add: space_ok_image)
  obtain b s' where r: "load_pages True (p_vaddr ph AND NOT PGMASK) rb ?zb w (s\<lparr>exec_file := f'\<rparr>) = Some (b, s')"
      "loaded pds bs (nat (sint ?ofs)) (p_vaddr ph AND NOT PGMASK) (4096 * seg_pages ph) (unat rb) w (s\<lparr>exec_file := f'\<rparr>) b s'"
    using load_pages_ok [OF sp' seek(2) B(3,5) sum] by blast
  moreover have "sint ?ofs smod int (unat PGSIZE) = 0"
    by (simp add: sofs signed_modulo_int_def PGSIZE_def)
  ultimately show ?thesis
    using mod B(3,4) seek(1) by (auto simp: load_segment_def sofs nat_mult_distrib loaded_def grows_def)
qed

text \<open>A segment that has been loaded is in memory byte for byte.\<close>

lemma loaded_segment:
  assumes "seg_valid bs ph"
    and "loaded pds bs (4096 * (unat (p_offset ph) div 4096)) (pg_round_down (p_vaddr ph)) (4096 * seg_pages ph)
      (unat (if p_filesz ph > 0 then (p_vaddr ph AND PGMASK) + p_filesz ph else 0)) (p_flags ph AND PF_W \<noteq> 0) s True s'"
  shows "seg_loaded bs ph s'"
  unfolding seg_loaded_def
proof (intro allI impI)
  fix i
  assume i: "i < unat (p_memsz ph)"
  note B = seg_bounds [OF assms(1)]
  let ?va = "p_vaddr ph + of_nat i" and ?po = "p_vaddr ph AND PGMASK"
  let ?rb = "if p_filesz ph > 0 then ?po + p_filesz ph else 0"
  have v: "unat (p_vaddr ph) + unat (p_memsz ph) < 3221225472" "unat (p_offset ph) mod 4096 = unat ?po"
    using assms(1) B(1) by (simp_all add: seg_valid_def unat_base)
  have va: "unat ?va = unat (p_vaddr ph) + i"
    using v(1) i by (simp add: unat_add_le)
  have "within (pg_round_down (p_vaddr ph)) (4096 * seg_pages ph) ?va"
    using B(2,4,6) va i by (simp add: within_def)
  then have "(\<exists>e. walk (mm s') (pagedir s') ?va = Some e \<and> bit e 1 = (p_flags ph AND PF_W \<noteq> 0))"
      "user_byte s' ?va = Some (seg_byte bs (4096 * (unat (p_offset ph) div 4096)) (unat ?rb) (unat ?va - unat (pg_round_down (p_vaddr ph))))"
    using assms(2) by (auto simp: loaded_def)
  moreover have "unat ?va - unat (pg_round_down (p_vaddr ph)) = unat ?po + i"
    using B(2,4) va by simp
  moreover have idx: "4096 * (unat (p_offset ph) div 4096) + (unat ?po + i) = unat (p_offset ph) + i"
    using v(2) by (simp flip: v(2))
  have lt: "unat ?po + i < unat ?rb \<longleftrightarrow> i < unat (p_filesz ph)"
    using B(8) by (simp add: word_neq_0_conv [symmetric])
  have "seg_byte bs (4096 * (unat (p_offset ph) div 4096)) (unat ?rb) (unat ?po + i) = (if i < unat (p_filesz ph) then bs ! (unat (p_offset ph) + i) else 0)"
    unfolding seg_byte_def idx lt ..
  ultimately show "user_byte s' ?va = Some (if i < unat (p_filesz ph) then bs ! (unat (p_offset ph) + i) else 0)
      \<and> (\<exists>e. walk (mm s') (pagedir s') ?va = Some e \<and> bit e 1 = (p_flags ph AND PF_W \<noteq> 0))"
    by simp
qed

lemma seg_loaded_grows:
  assumes "seg_loaded bs ph s" "seg_valid bs ph" "space_ok pds s" "space_ok pds s'" "grows R c s s'"
  shows "seg_loaded bs ph s'"
  unfolding seg_loaded_def
proof (intro allI impI)
  fix i
  assume i: "i < unat (p_memsz ph)"
  let ?va = "p_vaddr ph + of_nat i"
  have "is_user_vaddr ?va"
    using i assms(2) by (simp add: seg_valid_def unat_base is_user_vaddr_def word_less_nat_alt unat_add_le)
  moreover have "walk (mm s) (pagedir s) ?va \<noteq> None"
    using assms(1) i by (auto simp: seg_loaded_def)
  ultimately have "walk (mm s') (pagedir s') ?va = walk (mm s) (pagedir s) ?va" "user_byte s' ?va = user_byte s ?va"
    using assms(5) grows_user_byte [OF assms(3-5)] by (auto simp: grows_def)
  then show "user_byte s' ?va = Some (if i < unat (p_filesz ph) then bs ! (unat (p_offset ph) + i) else 0)
      \<and> (\<exists>e. walk (mm s') (pagedir s') ?va = Some e \<and> bit e 1 = (p_flags ph AND PF_W \<noteq> 0))"
    using assms(1) i by (simp add: seg_loaded_def)
qed

definition refused :: "Elf32_Phdr \<Rightarrow> bool" where
  "refused ph \<longleftrightarrow> p_type ph = PT_DYNAMIC \<or> p_type ph = PT_INTERP \<or> p_type ph = PT_SHLIB"

definition phdr_bad :: "bytes \<Rightarrow> Elf32_Phdr \<Rightarrow> bool" where
  "phdr_bad bs ph \<longleftrightarrow> refused ph \<or> p_type ph = PT_LOAD \<and> (\<not> seg_valid bs ph \<or> length bs < unat (p_offset ph) + unat (p_filesz ph))"

definition phdr_done :: "bytes \<Rightarrow> Elf32_Phdr \<Rightarrow> proc \<Rightarrow> bool" where
  "phdr_done bs ph s \<longleftrightarrow> \<not> refused ph \<and> (p_type ph = PT_LOAD \<longrightarrow> seg_valid bs ph \<and> seg_loaded bs ph s)"

definition phdr_pages :: "Elf32_Phdr \<Rightarrow> nat" where
  "phdr_pages ph = (if p_type ph = PT_LOAD then seg_pages ph else 0)"

lemma short_segment:
  assumes "seg_valid bs ph" "length bs < 4096 * (unat (p_offset ph) div 4096) + unat (if p_filesz ph > 0 then (p_vaddr ph AND PGMASK) + p_filesz ph else 0)"
  shows "length bs < unat (p_offset ph) + unat (p_filesz ph)"
proof -
  have "unat (p_offset ph) mod 4096 = unat (p_vaddr ph AND PGMASK)" "unat (p_offset ph) \<le> length bs"
    using assms(1) seg_bounds(1) [OF assms(1)] by (simp_all add: seg_valid_def)
  moreover have "4096 * (unat (p_offset ph) div 4096) + unat (p_offset ph) mod 4096 = unat (p_offset ph)"
    by simp
  ultimately show ?thesis
    using assms(2) seg_bounds(8) [OF assms(1)] by (simp split: if_splits)
qed

lemma load_phdr_ok:
  assumes sp: "space_ok pds s" and im: "image_ok bs pos s"
  shows "\<exists>b s' pos'. load_phdr True ph s = Some (b, s') \<and> space_ok pds s' \<and> image_ok bs pos' s' \<and> grows (in_seg ph) (\<lambda>_. phdr_pages ph) s s'
    \<and> (if b then phdr_done bs ph s' else phdr_bad bs ph \<or> (\<exists>va. in_seg ph va \<and> walk (mm s) (pagedir s) va \<noteq> None) \<or> exhausted (pgs s'))"
proof (cases "p_type ph = PT_LOAD \<and> seg_valid bs ph")
  case True
  let ?rb = "if p_filesz ph > 0 then (p_vaddr ph AND PGMASK) + p_filesz ph else 0"
  obtain b s' where r: "load_segment True (sint (p_offset ph AND NOT PGMASK)) (p_vaddr ph AND NOT PGMASK) ?rb
      (ROUND_UP ((p_vaddr ph AND PGMASK) + p_memsz ph) PGSIZE - ?rb) (p_flags ph AND PF_W \<noteq> 0) s = Some (b, s')"
    "loaded pds bs (4096 * (unat (p_offset ph) div 4096)) (pg_round_down (p_vaddr ph)) (4096 * seg_pages ph) (unat ?rb) (p_flags ph AND PF_W \<noteq> 0) s b s'"
    using load_segment_ok [OF sp im] True by blast
  have ty: "\<not> refused ph"
    using True by (simp add: refused_def PT_LOAD_def PT_DYNAMIC_def PT_INTERP_def PT_SHLIB_def)
  have ld: "load_phdr True ph s = Some (b, s')"
    using r(1) ty True validate_segment_ok [OF im, of ph] by (simp add: load_phdr_def refused_def Let_def split: if_splits)
  have seg: "in_seg ph = within (pg_round_down (p_vaddr ph)) (4096 * seg_pages ph)"
    using True by (simp add: in_seg_def fun_eq_iff)
  then have g: "grows (in_seg ph) (\<lambda>_. phdr_pages ph) s s'"
    using r(2) True by (simp add: loaded_def phdr_pages_def)
  have "phdr_bad bs ph \<or> (\<exists>va. in_seg ph va \<and> walk (mm s) (pagedir s) va \<noteq> None) \<or> exhausted (pgs s')" if "\<not> b"
    using r(2) that True short_segment [of bs ph] unfolding seg phdr_bad_def loaded_def by auto
  moreover have "phdr_done bs ph s'" if b
    using loaded_segment [of bs ph pds s s'] r(2) True that ty by (simp add: phdr_done_def)
  ultimately show ?thesis
    using r(2) ld g unfolding loaded_def by auto
next
  case False
  then show ?thesis
    using sp im grows_refl validate_segment_ok [OF im, of ph] unfolding load_phdr_def phdr_done_def phdr_bad_def refused_def by auto
qed

lemma phdr_done_grows: "phdr_done bs ph s \<Longrightarrow> space_ok pds s \<Longrightarrow> space_ok pds s' \<Longrightarrow> grows R c s s' \<Longrightarrow> phdr_done bs ph s'"
  using seg_loaded_grows by (auto simp: phdr_done_def)

definition phdr_at :: "bytes \<Rightarrow> nat \<Rightarrow> Elf32_Phdr" where
  "phdr_at bs ofs = read_phdr (take sizeof_Phdr (drop ofs bs))"

text \<open>Why header \<open>i\<close> of the table at \<open>ofs\<close> stops the loader.\<close>

definition phdr_stops :: "bytes \<Rightarrow> int \<Rightarrow> proc \<Rightarrow> nat \<Rightarrow> bool" where
  "phdr_stops bs ofs s i \<longleftrightarrow> (let ph = phdr_at bs (nat ofs + 32 * i) in
     ofs < 0 \<or> length bs < nat ofs + 32 * i + 32 \<or> phdr_bad bs ph
     \<or> (\<exists>va. in_seg ph va \<and> (walk (mm s) (pagedir s) va \<noteq> None \<or> (\<exists>j < i. in_seg (phdr_at bs (nat ofs + 32 * j)) va))))"

definition phdrs_done :: "ptr set \<Rightarrow> bytes \<Rightarrow> int \<Rightarrow> nat \<Rightarrow> proc \<Rightarrow> bool \<Rightarrow> proc \<Rightarrow> bool" where
  "phdrs_done pds bs ofs n s b s' \<longleftrightarrow> space_ok pds s' \<and> (\<exists>pos'. image_ok bs pos' s')
     \<and> grows (\<lambda>va. \<exists>i < n. in_seg (phdr_at bs (nat ofs + 32 * i)) va) (\<lambda>_. \<Sum>i < n. phdr_pages (phdr_at bs (nat ofs + 32 * i))) s s'
     \<and> (if b then \<forall>i < n. 0 \<le> ofs \<and> nat ofs + 32 * i + 32 \<le> length bs \<and> phdr_done bs (phdr_at bs (nat ofs + 32 * i)) s'
        else (\<exists>i < n. phdr_stops bs ofs s i) \<or> exhausted (pgs s'))"

lemma in_seg_user: "seg_valid bs ph \<Longrightarrow> in_seg ph va \<Longrightarrow> is_user_vaddr va"
  using user_within [of "pg_round_down (p_vaddr ph)" "4096 * seg_pages ph" va] seg_bounds(4,5) [of bs ph] by (simp add: in_seg_def)

lemma phdr_stops_next:
  assumes ofs: "0 \<le> ofs" and g: "grows (in_seg (phdr_at bs (nat ofs))) c s s2" and stops: "phdr_stops bs (ofs + 32) s2 i"
  shows "phdr_stops bs ofs s (Suc i)"
proof -
  have at: "nat (ofs + 32) + 32 * j = nat ofs + 32 * Suc j" for j
    using ofs by (simp add: nat_add_distrib)
  let ?ph = "phdr_at bs (nat ofs + 32 * Suc i)"
  show ?thesis
  proof (cases "phdr_bad bs ?ph \<or> length bs < nat ofs + 32 * Suc i + 32")
    case False
    then obtain va where va: "in_seg ?ph va" "walk (mm s2) (pagedir s2) va \<noteq> None \<or> (\<exists>j < i. in_seg (phdr_at bs (nat ofs + 32 * Suc j)) va)"
      using stops ofs unfolding phdr_stops_def Let_def at by auto
    have "is_user_vaddr va"
      using False va(1) in_seg_user [of bs ?ph va] by (simp add: phdr_bad_def in_seg_def)
    then have "walk (mm s) (pagedir s) va \<noteq> None \<or> (\<exists>j < Suc i. in_seg (phdr_at bs (nat ofs + 32 * j)) va)"
      using va(2) g by (cases "in_seg (phdr_at bs (nat ofs)) va") (auto simp: grows_def intro: exI [of _ 0])
    then show ?thesis
      using va(1) unfolding phdr_stops_def Let_def by blast
  qed (auto simp: phdr_stops_def Let_def)
qed

lemma phdrs_done_Suc:
  assumes ofs: "0 \<le> ofs" "nat ofs + 32 \<le> length bs" and s2: "space_ok pds s2" "phdr_done bs (phdr_at bs (nat ofs)) s2"
    and g: "grows (in_seg (phdr_at bs (nat ofs))) (\<lambda>_. phdr_pages (phdr_at bs (nat ofs))) s s2"
    and rest: "phdrs_done pds bs (ofs + 32) n s2 b s'"
  shows "phdrs_done pds bs ofs (Suc n) s b s'"
proof -
  have at: "nat (ofs + 32) + 32 * j = nat ofs + 32 * Suc j" for j
    using ofs by (simp add: nat_add_distrib)
  note R = rest [unfolded phdrs_done_def at]
  have gr: "grows (\<lambda>va. \<exists>i < n. in_seg (phdr_at bs (nat ofs + 32 * Suc i)) va) (\<lambda>_. \<Sum>i < n. phdr_pages (phdr_at bs (nat ofs + 32 * Suc i))) s2 s'"
    using R by blast
  have "grows (\<lambda>va. \<exists>i < Suc n. in_seg (phdr_at bs (nat ofs + 32 * i)) va) (\<lambda>_. \<Sum>i < Suc n. phdr_pages (phdr_at bs (nat ofs + 32 * i))) s s'"
    unfolding sum.lessThan_Suc_shift by (rule grows_mono [OF grows_trans [OF g gr]]) (auto intro: exI [of _ 0])
  moreover have "\<exists>i < Suc n. phdr_stops bs ofs s i" if "\<exists>i < n. phdr_stops bs (ofs + 32) s2 i"
    using phdr_stops_next [OF ofs(1) g] that by (metis Suc_mono)
  moreover have "phdr_done bs (phdr_at bs (nat ofs + 32 * i)) s' \<and> nat ofs + 32 * i + 32 \<le> length bs" if "b" "i < Suc n" for i
    using that R ofs(2) phdr_done_grows [OF s2(2,1) _ gr] by (cases i) auto
  ultimately show ?thesis
    using R ofs(1) unfolding phdrs_done_def by auto
qed

lemma load_phdrs_ok:
  assumes "space_ok pds s" "image_ok bs pos s" "file_ofs < 2 ^ 31"
  shows "\<exists>b s'. load_phdrs True n file_ofs s = Some (b, s') \<and> phdrs_done pds bs file_ofs n s b s'"
  using assms
proof (induction n arbitrary: s pos file_ofs)
  case 0
  then show ?case
    using grows_refl by (auto simp: phdrs_done_def)
next
  case (Suc n)
  let ?buf = "take sizeof_Phdr (drop (nat file_ofs) bs)" and ?ph = "phdr_at bs (nat file_ofs)"
  have stop: "\<exists>b s'. load_phdrs True (Suc n) file_ofs s = Some (b, s') \<and> phdrs_done pds bs file_ofs (Suc n) s b s'"
    if "load_phdrs True (Suc n) file_ofs s = Some (False, t)" "space_ok pds t" "image_ok bs pos' t" "grows (in_seg ?ph) (\<lambda>_. phdr_pages ?ph) s t"
      "phdr_stops bs file_ofs s 0 \<or> exhausted (pgs t)" for t pos'
  proof -
    have "grows (\<lambda>va. \<exists>i < Suc n. in_seg (phdr_at bs (nat file_ofs + 32 * i)) va) (\<lambda>_. \<Sum>i < Suc n. phdr_pages (phdr_at bs (nat file_ofs + 32 * i))) s t"
      unfolding sum.lessThan_Suc_shift by (rule grows_mono [OF that(4)]) (auto intro: exI [of _ 0])
    then show ?thesis
      using that by (intro exI [of _ False] exI [of _ t]) (auto simp: phdrs_done_def)
  qed
  show ?case
  proof (cases "file_ofs < 0 \<or> file_ofs > int (length bs)")
    case True
    then have "phdr_stops bs file_ofs s 0"
      by (auto simp: phdr_stops_def Let_def)
    then show ?thesis
      using True Suc.prems exec_length_ok [OF Suc.prems(2)] by (intro stop [of s pos]) (auto simp: grows_refl)
  next
    case False
    then have ofs: "0 \<le> file_ofs" "file_ofs \<le> int (length bs)"
      by auto
    obtain f where seek: "exec_seek file_ofs s = Some (s\<lparr>exec_file := f\<rparr>)" "image_ok bs file_ofs (s\<lparr>exec_file := f\<rparr>)"
      using exec_seek_ok [OF Suc.prems(2) ofs(1)] by blast
    obtain f' fs' where rd: "exec_read True (int sizeof_Phdr) (s\<lparr>exec_file := f\<rparr>) = Some (?buf, s\<lparr>exec_file := f\<rparr>\<lparr>fs := fs', exec_file := f'\<rparr>)"
        "image_ok bs (file_ofs + int (length ?buf)) (s\<lparr>exec_file := f\<rparr>\<lparr>fs := fs', exec_file := f'\<rparr>)"
      using exec_read_ok [OF seek(2), of "int sizeof_Phdr"] by auto
    define s1 where "s1 = s\<lparr>exec_file := f\<rparr>\<lparr>fs := fs', exec_file := f'\<rparr>"
    have sp1: "space_ok pds s1" and g1: "grows R c s1 t = grows R c s t" and w1: "walk (mm s1) (pagedir s1) = walk (mm s) (pagedir s)" for R c t
      using Suc.prems(1) by (simp_all add: s1_def space_ok_def grows_def)
    have unfold: "load_phdrs True (Suc n) file_ofs s = (if length ?buf \<noteq> sizeof_Phdr then Some (False, s1)
        else do {
          (ok, s) \<leftarrow> load_phdr True (read_phdr ?buf) s1;
          if ok then load_phdrs True n (to_int32 (file_ofs + int sizeof_Phdr)) s else Some (False, s) })"
      using False exec_length_ok [OF Suc.prems(2)] seek(1) rd(1) unfolding load_phdrs.simps s1_def by simp
    have full: "length ?buf = sizeof_Phdr \<longleftrightarrow> nat file_ofs + 32 \<le> length bs"
      using ofs by (auto simp: sizeof_Phdr_def min_def)
    obtain b1 s2 pos2 where ph: "load_phdr True (read_phdr ?buf) s1 = Some (b1, s2)" "space_ok pds s2" "image_ok bs pos2 s2"
        "grows (in_seg ?ph) (\<lambda>_. phdr_pages ?ph) s s2"
        "if b1 then phdr_done bs ?ph s2 else phdr_bad bs ?ph \<or> (\<exists>va. in_seg ?ph va \<and> walk (mm s) (pagedir s) va \<noteq> None) \<or> exhausted (pgs s2)"
      using load_phdr_ok [OF sp1 rd(2) [folded s1_def], of ?ph] unfolding g1 w1 phdr_at_def by blast
    have "file_ofs + 32 < 2 ^ 31" and nxt: "to_int32 (file_ofs + int sizeof_Phdr) = file_ofs + 32"
      using ofs image_small [OF Suc.prems(2)] by (simp_all add: to_int32_id sizeof_Phdr_def)
    from Suc.IH [OF ph(2,3) this(1)] obtain b s' where IH: "load_phdrs True n (file_ofs + 32) s2 = Some (b, s')" "phdrs_done pds bs (file_ofs + 32) n s2 b s'"
      by blast
    consider "nat file_ofs + 32 > length bs" | "nat file_ofs + 32 \<le> length bs" "\<not> b1" | "nat file_ofs + 32 \<le> length bs" b1
      by linarith
    then show ?thesis
    proof cases
      case 1
      then show ?thesis
        using unfold full sp1 rd(2) [folded s1_def] g1 [of _ _ s1] grows_refl by (intro stop [of s1]) (auto simp: phdr_stops_def Let_def)
    next
      case 2
      then show ?thesis
        using unfold full ph by (intro stop [of s2 pos2]) (auto simp: phdr_stops_def Let_def)
    next
      case 3
      then show ?thesis
        using unfold full ph(1,5) nxt IH(1) phdrs_done_Suc [OF ofs(1) 3(1) ph(2) _ ph(4) IH(2)] by auto
    qed
  qed
qed

subsection \<open>The stack and the whole image\<close>

definition stack_page :: ptr where
  "stack_page = PHYS_BASE - PGSIZE"

definition stack_ready :: "proc \<Rightarrow> bool" where
  "stack_ready s \<longleftrightarrow> (\<forall>va. within stack_page 4096 va \<longrightarrow> user_byte s va = Some 0 \<and> (\<exists>e. walk (mm s) (pagedir s) va = Some e \<and> bit e 1))"

lemma stack_page_ok: "pg_ofs stack_page = 0" "is_user_vaddr stack_page" "unat stack_page + 4096 = unat PHYS_BASE" "in_space stack_page 4096"
  by (simp_all add: stack_page_def PHYS_BASE_def PGSIZE_def pg_ofs_def PGMASK_def is_user_vaddr_def in_space_def)

lemma setup_stack_ok:
  assumes sp: "space_ok pds s" and im: "image_ok bs pos s"
  obtains s' where "setup_stack s = Some (None, s')" "space_ok pds s'" "image_ok bs pos s'" "grows (within stack_page 4096) (\<lambda>_. 1) s s'"
    "walk (mm s) (pagedir s) stack_page \<noteq> None \<or> exhausted (pgs s')"
  | s' where "setup_stack s = Some (Some PHYS_BASE, s')" "space_ok pds s'" "image_ok bs pos s'" "grows (within stack_page 4096) (\<lambda>_. 1) s s'" "stack_ready s'"
proof -
  have fl: "(PAL_USER OR PAL_ZERO) AND PAL_ASSERT = 0" "(PAL_USER OR PAL_ZERO) AND PAL_USER \<noteq> 0" "(PAL_USER OR PAL_ZERO) AND PAL_ZERO \<noteq> 0"
    by (simp_all add: PAL_ASSERT_def PAL_USER_def PAL_ZERO_def)
  note page = within_page [OF stack_page_ok(1,4)]
  show thesis
  proof (cases rule: take_page [OF sp fl(1,2)])
    case 1
    then show thesis
      using that(1) [of s] sp im grows_refl by (auto simp: setup_stack_def exhausted_def)
  next
    case (2 k pl)
    define t where "t = s\<lparr>pgs := pl\<rparr>"
    have t: "took s k t" and imt: "image_ok bs pos t"
      using 2(3) im by (simp_all add: t_def image_ok_space)
    have unfold: "setup_stack s = do {
        (success, s) \<leftarrow> install_page stack_page k True t;
        if success then Some (Some PHYS_BASE, s) else do { s \<leftarrow> free_page k s; Some (None, s) } }"
      using 2(1,2) by (simp add: setup_stack_def t_def stack_page_def)
    show thesis
    proof (cases rule: install_page_cases [OF sp t stack_page_ok(1,2), of True])
      case 1
      obtain t' where fr: "free_page k t = Some t'" "space_ok pds t'" "grows (within stack_page 4096) (\<lambda>_. 1) s t'" "t' = t\<lparr>pgs := pgs t'\<rparr>"
          "allocated (pgs t') = allocated (pgs s)" "\<And>v. pages_of v (pgs t') = pages_of v (pgs s)"
        by (rule took_free [OF sp t]) blast
      have "image_ok bs pos t'"
        by (subst fr(4)) (use imt in \<open>simp add: image_ok_space\<close>)
      moreover have "walk (mm s) (pagedir s) stack_page \<noteq> None \<or> exhausted (pgs t')"
        using 1(2) fr(5,6) by (auto simp: exhausted_def)
      ultimately show thesis
        using that(1) [of t'] fr(1-3) 1(1) unfold by simp
    next
      case (2 t' e)
      note pg = took_page [OF space_okD(1) [OF sp] t]
      have zero: "bytes_at (kmem (pgs t)) k (replicate 4096 0)"
        using \<open>_ \<Longrightarrow> bytes_at (kmem pl) k (replicate 4096 0)\<close> fl(3) by (simp add: t_def)
      have "user_byte t' va = Some 0 \<and> (\<exists>e. walk (mm t') (pagedir t') va = Some e \<and> bit e 1)" if va: "within stack_page 4096 va" for va
      proof -
        have uv: "is_user_vaddr va" "pg_round_down va = stack_page"
          using va page user_within [of stack_page 4096 va] stack_page_ok(3) by simp_all
        have a: "pg_round_down (k + pg_ofs va) = k"
          using page_offset [OF pg(4,2)] by simp
        have "kmem (pgs t') (k + pg_ofs va) = kmem (pgs t) (k + of_nat (unat va mod 4096))"
          using 2(4) t a by (simp add: grows_def took_def flip: unat_pg_ofs)
        also have "\<dots> = Some 0"
          using zero unfolding bytes_at_nth by simp
        finally show ?thesis
          using user_byte_walk [OF 2(2) uv(1)] 2(6,7) 2(8) [OF uv] by simp
      qed
      moreover have "image_ok bs pos t'"
        by (subst 2(3)) (use imt in \<open>simp add: image_ok_space\<close>)
      moreover have "grows (within stack_page 4096) (\<lambda>_. 1) s t'"
        by (rule grows_mono [OF grows_trans [OF took_space(2) [OF sp t] 2(4)]]) (use page in auto)
      ultimately show thesis
        using that(2) [of t'] 2(1,2) unfold by (simp add: stack_ready_def)
    qed
  qed
qed

text \<open>The headers of the file \<open>bs\<close>; the offset of the table is converted to a signed \<^verbatim>\<open>off_t\<close>.\<close>

definition elf_ehdr :: "bytes \<Rightarrow> Elf32_Ehdr" where
  "elf_ehdr bs = read_ehdr (take sizeof_Ehdr bs)"

definition elf_phnum :: "bytes \<Rightarrow> nat" where
  "elf_phnum bs = unat (e_phnum (elf_ehdr bs))"

definition elf_phdr :: "bytes \<Rightarrow> nat \<Rightarrow> Elf32_Phdr" where
  "elf_phdr bs i = phdr_at bs (nat (sint (e_phoff (elf_ehdr bs))) + 32 * i)"

definition image_region :: "bytes \<Rightarrow> ptr \<Rightarrow> bool" where
  "image_region bs va \<longleftrightarrow> within stack_page 4096 va \<or> (\<exists>i < elf_phnum bs. in_seg (elf_phdr bs i) va)"

definition image_pages :: "bytes \<Rightarrow> nat" where
  "image_pages bs = 1 + (\<Sum>i < elf_phnum bs. phdr_pages (elf_phdr bs i))"

definition image_stops :: "bytes \<Rightarrow> proc \<Rightarrow> bool" where
  "image_stops bs s \<longleftrightarrow> length bs < sizeof_Ehdr \<or> \<not> ehdr_ok (elf_ehdr bs)
     \<or> (\<exists>i < elf_phnum bs. phdr_stops bs (sint (e_phoff (elf_ehdr bs))) s i \<or> in_seg (elf_phdr bs i) stack_page)
     \<or> walk (mm s) (pagedir s) stack_page \<noteq> None"

lemma load_image_ok:
  assumes sp: "space_ok pds s" and im: "image_ok bs 0 s"
  shows "\<exists>r s'. load_image True s = Some (r, s') \<and> space_ok pds s' \<and> grows (image_region bs) (\<lambda>_. image_pages bs) s s'
    \<and> (case r of None \<Rightarrow> image_stops bs s \<or> exhausted (pgs s')
       | Some (eip, esp) \<Rightarrow> sizeof_Ehdr \<le> length bs \<and> ehdr_ok (elf_ehdr bs) \<and> eip = e_entry (elf_ehdr bs) \<and> esp = PHYS_BASE \<and> stack_ready s'
           \<and> (\<forall>i < elf_phnum bs. phdr_done bs (elf_phdr bs i) s'))"
proof -
  let ?buf = "take sizeof_Ehdr bs"
  obtain f' fs' where rd: "exec_read True (int sizeof_Ehdr) s = Some (?buf, s\<lparr>fs := fs', exec_file := f'\<rparr>)"
      "image_ok bs (int (length ?buf)) (s\<lparr>fs := fs', exec_file := f'\<rparr>)"
    using exec_read_ok [OF im, of "int sizeof_Ehdr"] by auto
  define s1 where "s1 = s\<lparr>fs := fs', exec_file := f'\<rparr>"
  have sp1: "space_ok pds s1" and g1: "grows R c s1 t = grows R c s t" and w1: "walk (mm s1) (pagedir s1) = walk (mm s) (pagedir s)"
    and st1: "phdr_stops bs ofs s1 i = phdr_stops bs ofs s i" for R c t ofs i
    using sp by (simp_all add: s1_def space_ok_def grows_def phdr_stops_def)
  have gs1: "grows R c s s1" for R c
    using g1 [of R c s1] grows_refl by blast
  let ?ofs = "sint (e_phoff (elf_ehdr bs))"
  have unfold: "load_image True s = (if length bs < sizeof_Ehdr \<or> \<not> ehdr_ok (elf_ehdr bs) then Some (None, s1)
      else do {
        (ok, s) \<leftarrow> load_phdrs True (elf_phnum bs) ?ofs s1;
        if ok then do {
          (esp, s) \<leftarrow> setup_stack s;
          Some (map_option (\<lambda>esp. (e_entry (elf_ehdr bs), esp)) esp, s) }
        else Some (None, s) })"
  proof -
    have len: "length ?buf \<noteq> sizeof_Ehdr \<longleftrightarrow> length bs < sizeof_Ehdr"
      by auto
    show ?thesis
      unfolding load_image_def rd(1) elf_phnum_def elf_ehdr_def s1_def Let_def by (simp only: bind.simps prod.case len)
  qed
  show ?thesis
  proof (cases "length bs < sizeof_Ehdr \<or> \<not> ehdr_ok (elf_ehdr bs)")
    case True
    then show ?thesis
      using unfold sp1 gs1 by (auto simp: image_stops_def)
  next
    case hdr: False
    have "?ofs < 2 ^ 31"
      using sint_lt [of "e_phoff (elf_ehdr bs)"] by simp
    from load_phdrs_ok [OF sp1 rd(2) [folded s1_def] this] obtain b s2 where ph: "load_phdrs True (elf_phnum bs) ?ofs s1 = Some (b, s2)"
        "phdrs_done pds bs ?ofs (elf_phnum bs) s1 b s2"
      by blast
    note D = ph(2) [unfolded phdrs_done_def g1 st1, folded elf_phdr_def]
    then obtain pos2 where sp2: "space_ok pds s2" "image_ok bs pos2 s2"
        and g2: "grows (\<lambda>va. \<exists>i < elf_phnum bs. in_seg (elf_phdr bs i) va) (\<lambda>_. \<Sum>i < elf_phnum bs. phdr_pages (elf_phdr bs i)) s s2"
      by blast
    have g2': "grows (image_region bs) (\<lambda>_. image_pages bs) s s2"
      by (rule grows_mono [OF g2]) (auto simp: image_region_def image_pages_def)
    have g3: "grows (image_region bs) (\<lambda>_. image_pages bs) s s3" if "grows (within stack_page 4096) (\<lambda>_. 1) s2 s3" for s3
      by (rule grows_mono [OF grows_trans [OF g2 that]]) (auto simp: image_region_def image_pages_def)
    show ?thesis
    proof (cases b)
      case False
      then show ?thesis
        using D unfold hdr ph(1) sp2(1) g2' by (auto simp: image_stops_def)
    next
      case True
      then have segs: "phdr_done bs (elf_phdr bs i) s2" if "i < elf_phnum bs" for i
        using D that by auto
      show ?thesis
      proof (cases rule: setup_stack_ok [OF sp2])
        case (1 s3)
        have "walk (mm s) (pagedir s) stack_page \<noteq> None \<or> (\<exists>i < elf_phnum bs. in_seg (elf_phdr bs i) stack_page)" if "walk (mm s2) (pagedir s2) stack_page \<noteq> None"
          using g2 that stack_page_ok(2) unfolding grows_def by metis
        then show ?thesis
          using 1 True unfold hdr ph(1) g3 by (auto simp: image_stops_def)
      next
        case (2 s3)
        then show ?thesis
          using True unfold hdr ph(1) g3 [OF 2(4)] phdr_done_grows [OF segs sp2(1) 2(2,4)] by auto
      qed
    qed
  qed
qed

subsection \<open>Properties\<close>

text \<open>A process with an empty address space and an executable with one segment, for the witness.\<close>

definition sample_elf :: bytes where
  "sample_elf = [127, 69, 76, 70, 1, 1, 1, 0, 0, 0, 0, 0, 0, 0, 0, 0, 2, 0, 3, 0, 1, 0, 0, 0, 0x54, 0x80, 4, 8, 52, 0, 0, 0,
     0, 0, 0, 0, 0, 0, 0, 0, 52, 0, 32, 0, 1, 0, 0, 0, 0, 0, 0, 0] @
     [1, 0, 0, 0, 0, 0, 0, 0, 0, 0x80, 4, 8, 0, 0x80, 4, 8, 90, 0, 0, 0, 0x88, 0x13, 0, 0, 7, 0, 0, 0, 0, 16, 0, 0] @
     [1, 2, 3, 4, 5, 6]"

definition sample_frames :: palloc where
  "sample_frames = \<lparr>kernel_pool = \<lparr>used_map = \<lparr>bit_cnt = 8, bits = [1]\<rparr>, base = 0xc0101000\<rparr>,
     user_pool = \<lparr>used_map = \<lparr>bit_cnt = 8, bits = [0]\<rparr>, base = 0xc0200000\<rparr>, kmem = (\<lambda>_. Some 7)\<rparr>"

definition sample_proc :: "fsys \<Rightarrow> proc" where
  "sample_proc f = \<lparr>pgs = sample_frames, mm = two_dirs, fs = f, pagedir = 0xc0101000,
     exec_file = Some \<lparr>f_inode = 5, f_pos = 0, f_deny_write = False\<rparr>, working_dir = None, cur_thread = 0xc0108000, tss_esp0 = None\<rparr>"

lemma sample_frames_ok: "palloc_ok sample_frames"
  by (auto simp: palloc_ok_def pool_ok_def sample_frames_def wf_bitmap_def size_of_def pages_from_def page_at_def mapped_nth
      pg_ofs_def PGMASK_def PGSIZE_def lessThan_nat_numeral)

lemma sample_frames_pages:
  "pages_of False sample_frames = {0xc0101000, 0xc0102000, 0xc0103000, 0xc0104000, 0xc0105000, 0xc0106000, 0xc0107000, 0xc0108000}"
  "pages_of True sample_frames = {0xc0200000, 0xc0201000, 0xc0202000, 0xc0203000, 0xc0204000, 0xc0205000, 0xc0206000, 0xc0207000}"
  "allocated sample_frames = {0xc0101000}"
proof -
  show "pages_of False sample_frames = {0xc0101000, 0xc0102000, 0xc0103000, 0xc0104000, 0xc0105000, 0xc0106000, 0xc0107000, 0xc0108000}"
    by (simp add: pages_of_def get_pool_def sample_frames_def size_of_def pages_from_def lessThan_nat_numeral page_at_def PGSIZE_def) blast
  show "pages_of True sample_frames = {0xc0200000, 0xc0201000, 0xc0202000, 0xc0203000, 0xc0204000, 0xc0205000, 0xc0206000, 0xc0207000}"
    by (simp add: pages_of_def get_pool_def sample_frames_def size_of_def pages_from_def lessThan_nat_numeral page_at_def PGSIZE_def) blast
  have "bit_list \<lparr>bit_cnt = 8, bits = [1]\<rparr> ! i \<longleftrightarrow> i = 0" "\<not> bit_list \<lparr>bit_cnt = 8, bits = [0]\<rparr> ! i" if "i < 8" for i
    using that by (simp_all add: bit_list_def bit_1_iff)
  then have t: "{i. i < 8 \<and> bit_list \<lparr>bit_cnt = 8, bits = [1]\<rparr> ! i} = {0}" "{i. i < 8 \<and> bit_list \<lparr>bit_cnt = 8, bits = [0]\<rparr> ! i} = {}"
    by auto
  show "allocated sample_frames = {0xc0101000}"
    by (simp add: allocated_def taken_def sample_frames_def size_of_def page_at_def t)
qed

lemma sample_walk: "walk two_dirs pd va = None"
  by (simp add: walk_def table_for_def two_dirs_load no_pde_0)

lemma sample_space: "space_ok {0xc0100000, 0xc0101000} (sample_proc f)"
  unfolding space_ok_def
proof (intro conjI ballI impI allI)
  fix p
  assume "p \<in> pool_pages (pgs (sample_proc f))"
  then show "is_kernel_vaddr p" "drop_bit PTSHIFT (p - PHYS_BASE) < init_ram_pages (mm (sample_proc f))"
    by (auto simp: pool_pages_def sample_proc_def sample_frames_pages two_dirs_def is_kernel_vaddr_def PHYS_BASE_def PTSHIFT_def PGBITS_def drop_bit_eq_div)
  assume "p \<notin> allocated (pgs (sample_proc f))"
  with \<open>p \<in> pool_pages _\<close> show "tables (mm (sample_proc f)) p = None"
    by (auto simp: pool_pages_def sample_proc_def sample_frames_pages two_dirs_def)
qed (simp_all add: sample_proc_def sample_frames_ok two_dirs_ok sample_walk, simp add: two_dirs_def)

lemma sample_elf_headers:
  assumes "bs = sample_elf @ replicate 610 0"
  shows "ehdr_ok (elf_ehdr bs)" "e_entry (elf_ehdr bs) = 0x8048054" "elf_phnum bs = 1" "sint (e_phoff (elf_ehdr bs)) = 52"
    "phdr_at bs 52 = \<lparr>p_type = 1, p_offset = 0, p_vaddr = 0x8048000, p_paddr = 0x8048000, p_filesz = 90, p_memsz = 5000, p_flags = 7, p_align = 4096\<rparr>"
  unfolding assms
  by (simp_all add: elf_ehdr_def elf_phnum_def sizeof_Ehdr_def sample_elf_def read_ehdr_def get_bytes_def le_half_def le_word_def ehdr_ok_def
      sizeof_Phdr_def phdr_at_def read_phdr_def)

lemma sample_image:
  obtains f where "image_ok (sample_elf @ replicate 610 0) 0 (sample_proc f)"
proof -
  have len: "90 = int (length sample_elf)"
    by (simp add: sample_elf_def)
  have "(0 :: int) \<le> 0" "(0 :: int) < 90" "0 + 90 \<le> i_length sample_inode"
    by simp_all
  from inode_write_at_within [OF sample_open_file this(1,2) len this(3)]
  obtain f v where f: "moved 20 sample_fs v f" "wrote 20 sample_inode (nat 0) sample_elf (sview sample_fs) v" "open_file 20 f 5 sample_inode"
    by blast
  have "byte_at (sview sample_fs) sample_inode i = 0" if "i < 700" for i
    unfolding byte_at_def sview_sample_fs by simp
  then have "content (sview sample_fs) sample_inode = replicate 700 0"
    by (intro nth_equalityI) (simp_all add: content_def)
  then have "content (sview f) sample_inode = sample_elf @ replicate 610 0"
    using f(2) moved_ok [OF f(1)] len by (simp add: wrote_def put_bytes_def)
  moreover obtain i where "get_inode f 5 = Some i" "i_data i = sample_inode" "fs_ok 20 f" "wf_inode 20 (sview f) sample_inode"
    using f(3) by (auto simp: open_file_def)
  ultimately have "image_ok (sample_elf @ replicate 610 0) 0 (sample_proc f)"
    unfolding image_ok_def sample_proc_def
    by (intro conjI exI [of _ 20] exI [of _ "\<lparr>f_inode = 5, f_pos = 0, f_deny_write = False\<rparr>"] exI [of _ i]) simp_all
  then show thesis
    by (rule that)
qed

text \<open>C14: What a process finds in memory when it starts. Given the bytes of the executable, and an
  address space and allocators in order, the loader returns without a panic and leaves every page
  that was mapped before as it was and every address outside the image unmapped. If it reports
  success, the entry point is the one of the header, the page under \<open>PHYS_BASE\<close> is a zeroed,
  writable stack, and every loadable segment of the program header table lies above page 0 and
  below \<open>PHYS_BASE\<close> and is in memory byte for byte: its file part as in the file, the rest zero,
  writable exactly if the header says so. It succeeds whenever the file is well formed, no two
  segments share a page and each pool has a page more than the image has pages.\<close>

theorem load_image_correct:
  assumes "space_ok pds s" "image_ok bs 0 s"
  shows "\<exists>r s'. load_image True s = Some (r, s') \<and> space_ok pds s'
    \<and> (\<forall>va. is_user_vaddr va \<and> (walk (mm s) (pagedir s) va \<noteq> None \<or> \<not> image_region bs va) \<longrightarrow> user_byte s' va = user_byte s va)
    \<and> (case r of
         None \<Rightarrow> image_stops bs s \<or> (\<exists>u. unused u (pgs s) \<le> image_pages bs)
       | Some (eip, esp) \<Rightarrow> eip = e_entry (elf_ehdr bs) \<and> esp = PHYS_BASE \<and> stack_ready s'
           \<and> (\<forall>i < elf_phnum bs. p_type (elf_phdr bs i) = PT_LOAD \<longrightarrow> seg_valid bs (elf_phdr bs i) \<and> seg_loaded bs (elf_phdr bs i) s'))"
proof -
  obtain r s' where r: "load_image True s = Some (r, s')" "space_ok pds s'" "grows (image_region bs) (\<lambda>_. image_pages bs) s s'"
    "case r of None \<Rightarrow> image_stops bs s \<or> exhausted (pgs s')
       | Some (eip, esp) \<Rightarrow> sizeof_Ehdr \<le> length bs \<and> ehdr_ok (elf_ehdr bs) \<and> eip = e_entry (elf_ehdr bs) \<and> esp = PHYS_BASE \<and> stack_ready s'
           \<and> (\<forall>i < elf_phnum bs. phdr_done bs (elf_phdr bs i) s')"
    using load_image_ok [OF assms] by blast
  have "\<exists>u. unused u (pgs s) \<le> image_pages bs" if "exhausted (pgs s')"
    using r(3) that unfolding not_exhausted grows_def by (metis add_0)
  then show ?thesis
    using r grows_user_byte [OF assms(1) r(2,3)] by (auto simp: phdr_done_def split: option.splits)
qed

theorem load_image_correct_witness:
  "\<exists>f s'. load_image True (sample_proc f) = Some (Some (0x8048054, PHYS_BASE), s') \<and> stack_ready s'
     \<and> seg_loaded (sample_elf @ replicate 610 0) \<lparr>p_type = 1, p_offset = 0, p_vaddr = 0x8048000, p_paddr = 0x8048000, p_filesz = 90, p_memsz = 5000, p_flags = 7, p_align = 4096\<rparr> s'"
proof -
  let ?bs = "sample_elf @ replicate 610 0 :: bytes"
  define ph where "ph = \<lparr>p_type = 1, p_offset = 0, p_vaddr = 0x8048000, p_paddr = 0x8048000, p_filesz = 90, p_memsz = 5000, p_flags = 7, p_align = 4096\<rparr>"
  obtain f where f: "image_ok ?bs 0 (sample_proc f)"
    by (rule sample_image)
  note H = sample_elf_headers [OF refl, folded ph_def]
  have ph: "elf_phdr ?bs 0 = ph" "phdr_at ?bs 52 = ph"
    using H(4,5) by (simp_all add: elf_phdr_def)
  have len: "length ?bs = 700"
    by (simp add: sample_elf_def)
  have "seg_pages ph = 2"
    by (simp add: seg_pages_def ph_def)
  then have pages: "image_pages ?bs = 3"
    using H(3) ph(1) by (simp add: image_pages_def phdr_pages_def) (simp add: ph_def PT_LOAD_def)
  have bad: "\<not> phdr_bad ?bs ph"
    by (simp add: phdr_bad_def len refused_def seg_valid_def unat_base) (simp add: ph_def PT_LOAD_def PT_DYNAMIC_def PT_INTERP_def PT_SHLIB_def)
  have "\<not> in_seg ph stack_page"
    using \<open>seg_pages ph = 2\<close> by (simp add: in_seg_def within_def) (simp add: ph_def unat_round_down stack_page_def PHYS_BASE_def PGSIZE_def)
  then have "\<not> image_stops ?bs (sample_proc f)"
    using H ph len bad by (simp add: image_stops_def phdr_stops_def Let_def sizeof_Ehdr_def sample_proc_def sample_walk)
  moreover have "\<not> unused u (pgs (sample_proc f)) \<le> 3" for u
    by (cases u) (simp_all add: unused_def sample_proc_def sample_frames_pages)
  moreover have "p_type (elf_phdr ?bs 0) = PT_LOAD"
    unfolding ph(1) by (simp add: ph_def PT_LOAD_def)
  moreover obtain r s' where r: "load_image True (sample_proc f) = Some (r, s')" "case r of
         None \<Rightarrow> image_stops ?bs (sample_proc f) \<or> (\<exists>u. unused u (pgs (sample_proc f)) \<le> image_pages ?bs)
       | Some (eip, esp) \<Rightarrow> eip = e_entry (elf_ehdr ?bs) \<and> esp = PHYS_BASE \<and> stack_ready s'
           \<and> (\<forall>i < elf_phnum ?bs. p_type (elf_phdr ?bs i) = PT_LOAD \<longrightarrow> seg_valid ?bs (elf_phdr ?bs i) \<and> seg_loaded ?bs (elf_phdr ?bs i) s')"
    using load_image_correct [OF sample_space f] by blast
  ultimately have "r = Some (0x8048054, PHYS_BASE) \<and> stack_ready s' \<and> seg_loaded ?bs ph s'"
    using H(2,3) unfolding pages by (auto simp: ph(1) split: option.splits)
  then show ?thesis
    using r(1) unfolding ph_def [symmetric] by blast
qed

end
