(* ===== verification/Process.thy ===== *)
theory Process
  imports DList
begin

text \<open>
  Parents, children and open files of a process (\<^verbatim>\<open>userprog/process.c\<close>: the bookkeeping of
  \<^verbatim>\<open>process_execute\<close> and \<^verbatim>\<open>start_process\<close>, \<^verbatim>\<open>process_wait\<close>, \<^verbatim>\<open>process_exit\<close>; \<^verbatim>\<open>userprog/syscall.c\<close>:
  \<^verbatim>\<open>open_fd\<close>, \<^verbatim>\<open>fd_to_file\<close>, \<^verbatim>\<open>fd_to_dir\<close>). Both the children of a process and its open files are
  lists of \<^verbatim>\<open>list.c\<close>, on the heap of theory \<open>DList\<close>. A \<^verbatim>\<open>struct wait_status\<close> and a
  \<^verbatim>\<open>struct file_entry\<close> are named by the address of their \<^verbatim>\<open>elem\<close>, so that \<^verbatim>\<open>list_entry\<close> is a lookup.
  A call that has to wait on a semaphore is the outcome \<open>Waits\<close>; the lock of a \<^verbatim>\<open>wait_status\<close> is held
  within one operation only.
\<close>

subsection \<open>Waiting for a child\<close>

type_synonym tid = int

record wait_status =
  ref_count :: int
  child_tid :: tid
  exit_code :: int
  sema_value :: nat

record procs =
  links :: list_elems
  statuses :: "ptr \<Rightarrow> wait_status option"
  children :: "tid \<Rightarrow> ptr"
  wait_st :: "tid \<Rightarrow> ptr"

datatype outcome = Waits | Returns int procs

definition TID_ERROR :: tid where "TID_ERROR = -1"

partial_function (option) wait_st_loop :: "procs \<Rightarrow> tid \<Rightarrow> ptr \<Rightarrow> ptr \<Rightarrow> ptr option" where
  "wait_st_loop s tid cur_child last_child =
     (if cur_child \<noteq> last_child then do {
        next_child \<leftarrow> list_next (links s) cur_child;
        ws \<leftarrow> statuses s cur_child;
        if child_tid ws = tid then Some cur_child else wait_st_loop s tid next_child last_child }
      else Some NULL)"

definition try_get_wait_st :: "procs \<Rightarrow> tid \<Rightarrow> tid \<Rightarrow> ptr option" where
  "try_get_wait_st s cur tid = do {
     cur_child \<leftarrow> list_begin (links s) (children s cur);
     last_child \<leftarrow> list_end (children s cur);
     wait_st_loop s tid cur_child last_child }"

text \<open>The end of \<^verbatim>\<open>start_process\<close> for thread \<open>t\<close>; \<open>e\<close> is what \<^verbatim>\<open>malloc\<close> returned for the status.\<close>

definition start_process_status :: "tid \<Rightarrow> ptr \<Rightarrow> procs \<Rightarrow> (bool \<times> procs) option" where
  "start_process_status t e s = (let s = s\<lparr>wait_st := (wait_st s)(t := e)\<rparr> in
     if e \<noteq> NULL then do {
       let s = s\<lparr>statuses := (statuses s)(e \<mapsto> \<lparr>ref_count = 2, child_tid = t, exit_code = -1, sema_value = 0\<rparr>)\<rparr>;
       h \<leftarrow> list_push_back (links s) (children s t) e;
       Some (True, s\<lparr>links := h\<rparr>) }
     else Some (False, s))"

text \<open>The end of \<^verbatim>\<open>process_execute\<close> of thread \<open>p\<close>, after the child \<open>t\<close> has signalled.\<close>

definition process_execute_status :: "tid \<Rightarrow> tid \<Rightarrow> bool \<Rightarrow> procs \<Rightarrow> (tid \<times> procs) option" where
  "process_execute_status p t success s =
     (if success then do {
        h \<leftarrow> list_push_back (links s) (children s p) (wait_st s t);
        Some (t, s\<lparr>links := h\<rparr>) }
      else Some (TID_ERROR, s))"

definition set_exit_code :: "tid \<Rightarrow> int \<Rightarrow> procs \<Rightarrow> procs option" where
  "set_exit_code t code s = do {
     ws \<leftarrow> statuses s (wait_st s t);
     Some (s\<lparr>statuses := (statuses s)(wait_st s t \<mapsto> ws\<lparr>exit_code := code\<rparr>)\<rparr>) }"

definition process_exit_status :: "tid \<Rightarrow> procs \<Rightarrow> procs option" where
  "process_exit_status t s =
     (if wait_st s t \<noteq> NULL then do {
        ws \<leftarrow> statuses s (wait_st s t);
        Some (s\<lparr>statuses := (statuses s)(wait_st s t \<mapsto> ws\<lparr>sema_value := sema_value ws + 1, ref_count := ref_count ws - 1\<rparr>)\<rparr>) }
      else Some s)"

definition process_wait_resume :: "ptr \<Rightarrow> procs \<Rightarrow> outcome option" where
  "process_wait_resume child_wait_st s = do {
     ws \<leftarrow> statuses s child_wait_st;
     if sema_value ws = 0 then Some Waits
     else do {
       let s = s\<lparr>statuses := (statuses s)(child_wait_st \<mapsto> ws\<lparr>sema_value := sema_value ws - 1\<rparr>)\<rparr>;
       (_, h) \<leftarrow> list_remove (links s) child_wait_st;
       Some (Returns (exit_code ws) (s\<lparr>links := h\<rparr>)) } }"

definition process_wait :: "tid \<Rightarrow> tid \<Rightarrow> procs \<Rightarrow> outcome option" where
  "process_wait cur tid s = do {
     child_wait_st \<leftarrow> try_get_wait_st s cur tid;
     if child_wait_st = NULL then Some (Returns (-1) s)
     else process_wait_resume child_wait_st s }"

subsection \<open>File descriptors\<close>

record ('f, 'd) file_entry =
  fd :: int
  entry_file :: "'f option"
  entry_dir :: "'d option"

record ('f, 'd) fd_table =
  elems :: list_elems
  file_entries :: "ptr \<Rightarrow> ('f, 'd) file_entry option"
  table :: ptr
  fd_count :: int

text \<open>The address of the list of children is 16 below the one of the table of files
  (\<^verbatim>\<open>threads/thread.h\<close>). The fields that \<^verbatim>\<open>list_entry\<close> finds around the tail of the table are, from
  12 bytes below it on, the link behind the tail of the list of children and the two links of the
  head of the table.\<close>

definition children_of :: "ptr \<Rightarrow> ptr" where
  "children_of tb = tb - 16"

definition entry_at :: "('f, 'd) fd_table \<Rightarrow> ptr \<Rightarrow> (int \<times> 'f option \<times> 'd option option) option" where
  "entry_at t e =
     (if e = tail_of (table t) then do {
        ASSERT (prev (elems t) (head_of (table t)) = NULL);
        Some (int (nxt (elems t) (tail_of (children_of (table t)))), None,
          if nxt (elems t) (head_of (table t)) = NULL then Some None else None) }
      else do { f \<leftarrow> file_entries t e; Some (fd f, entry_file f, Some (entry_dir f)) })"

text \<open>\<^verbatim>\<open>struct list f_table = cur->file_table\<close> copies the two elements at the ends.\<close>

definition copy_list :: "list_elems \<Rightarrow> ptr \<Rightarrow> ptr \<Rightarrow> list_elems" where
  "copy_list h l f_table = h\<lparr>prev := (prev h)(head_of f_table := prev h (head_of l), tail_of f_table := prev h (tail_of l)),
     nxt := (nxt h)(head_of f_table := nxt h (head_of l), tail_of f_table := nxt h (tail_of l))\<rparr>"

partial_function (option) fd_loop :: "list_elems \<Rightarrow> ('f, 'd) fd_table \<Rightarrow> int \<Rightarrow> ptr \<Rightarrow> ptr \<Rightarrow> (int \<times> 'f option \<times> 'd option option) option option" where
  "fd_loop h t fdn entry last_entry =
     (if entry \<noteq> last_entry then do {
        f \<leftarrow> entry_at t entry;
        if fst f = fdn then Some (Some f)
        else do { n \<leftarrow> list_next h entry; fd_loop h t fdn n last_entry } }
      else Some None)"

definition fd_entry :: "('f, 'd) fd_table \<Rightarrow> ptr \<Rightarrow> int \<Rightarrow> (int \<times> 'f option \<times> 'd option option) option option" where
  "fd_entry t f_table fdn = do {
     let h = copy_list (elems t) (table t) f_table;
     b \<leftarrow> list_begin h f_table;
     e \<leftarrow> list_end f_table;
     fd_loop h t fdn b e }"

definition fd_to_file :: "('f, 'd) fd_table \<Rightarrow> ptr \<Rightarrow> int \<Rightarrow> 'f option option" where
  "fd_to_file t f_table fdn = do {
     r \<leftarrow> fd_entry t f_table fdn;
     case r of None \<Rightarrow> Some None | Some (_, f, _) \<Rightarrow> Some f }"

text \<open>A directory pointer that is no pointer to a directory is \<open>None\<close> at once.\<close>

definition fd_to_dir :: "('f, 'd) fd_table \<Rightarrow> ptr \<Rightarrow> int \<Rightarrow> 'd option option" where
  "fd_to_dir t f_table fdn = do {
     r \<leftarrow> fd_entry t f_table fdn;
     case r of None \<Rightarrow> Some None | Some (_, _, d) \<Rightarrow> d }"

text \<open>The second half of \<^verbatim>\<open>open_fd\<close>: the entry at \<open>e\<close>, for the file \<open>f\<close> or the directory \<open>d\<close>, gets
  the next number and goes to the end of the table.\<close>

definition append_entry :: "ptr \<Rightarrow> 'f option \<Rightarrow> 'd option \<Rightarrow> ('f, 'd) fd_table \<Rightarrow> (int \<times> ('f, 'd) fd_table) option" where
  "append_entry e f d t = do {
     let new_fd = fd_count t;
     let t = t\<lparr>file_entries := (file_entries t)(e \<mapsto> \<lparr>fd = new_fd, entry_file = f, entry_dir = d\<rparr>), fd_count := to_int32 (new_fd + 1)\<rparr>;
     h \<leftarrow> list_push_back (elems t) (table t) e;
     Some (new_fd, t\<lparr>elems := h\<rparr>) }"

subsection \<open>Searching the lists\<close>

definition has_status :: "procs \<Rightarrow> ptr list \<Rightarrow> bool" where
  "has_status s es \<longleftrightarrow> (\<forall>e \<in> set es. statuses s e \<noteq> None)"

lemma wait_st_loop_dlist:
  assumes "dlist (links s) l (as @ es)" "has_status s es"
  shows "wait_st_loop s tid (hd (es @ [tail_of l])) (tail_of l) =
    Some (case find (\<lambda>e. child_tid (the (statuses s e)) = tid) es of None \<Rightarrow> NULL | Some e \<Rightarrow> e)"
  using assms
proof (induction es arbitrary: as)
  case Nil
  then show ?case
    by (subst wait_st_loop.simps) simp
next
  case (Cons e es)
  obtain ws where ws: "statuses s e = Some ws"
    using Cons.prems(2) by (auto simp: has_status_def)
  have "e \<noteq> tail_of l"
    using Cons.prems(1) by (auto simp: dlist_def)
  moreover have "list_next (links s) e = Some (hd (es @ [tail_of l]))"
    using Cons.prems(1) by (rule list_next_interior)
  moreover have "wait_st_loop s tid (hd (es @ [tail_of l])) (tail_of l) =
      Some (case find (\<lambda>e. child_tid (the (statuses s e)) = tid) es of None \<Rightarrow> NULL | Some e \<Rightarrow> e)"
    using Cons.prems by (intro Cons.IH [of "as @ [e]"]) (auto simp: has_status_def)
  ultimately show ?case
    by (subst wait_st_loop.simps) (simp add: ws)
qed

lemma try_get_wait_st_dlist:
  assumes "dlist (links s) (children s cur) es" "has_status s es"
  shows "try_get_wait_st s cur tid = Some (case find (\<lambda>e. child_tid (the (statuses s e)) = tid) es of None \<Rightarrow> NULL | Some e \<Rightarrow> e)"
  using wait_st_loop_dlist [of s "children s cur" "[]" es tid] assms
  by (simp add: try_get_wait_st_def list_begin_dlist [OF assms(1)] list_end_dlist [OF assms(1)])

text \<open>A status found by its thread, and the rest of the list without it.\<close>

definition tid_of :: "procs \<Rightarrow> ptr \<Rightarrow> tid" where
  "tid_of s e = child_tid (the (statuses s e))"

lemma find_child:
  assumes "inj_on (tid_of s) (set (as @ e # bs))" "distinct (as @ e # bs)"
  shows "find (\<lambda>x. tid_of s x = tid_of s e) (as @ e # bs) = Some e" "find (\<lambda>x. tid_of s x = tid_of s e) (as @ bs) = None"
proof -
  have "tid_of s x \<noteq> tid_of s e" if "x \<in> set as \<union> set bs" for x
    using assms that by (auto simp: inj_on_def)
  then show "find (\<lambda>x. tid_of s x = tid_of s e) (as @ e # bs) = Some e" "find (\<lambda>x. tid_of s x = tid_of s e) (as @ bs) = None"
    by (induction as) (auto simp: find_None_iff)
qed

lemma dlist_distinct:
  assumes "dlist h l xs"
  shows "distinct xs" "x \<in> set xs \<Longrightarrow> x \<noteq> NULL"
  using assms by (simp add: dlist_def) (metis assms dlist_def list.set_intros(2) set_append UnI1)

lemma process_wait_child:
  assumes l: "dlist (links s) (children s cur) (as @ e # bs)" and st: "has_status s (as @ e # bs)" and inj: "inj_on (tid_of s) (set (as @ e # bs))"
  shows "process_wait cur (tid_of s e) s = process_wait_resume e s"
  using try_get_wait_st_dlist [OF l st, of "tid_of s e"] find_child(1) [OF inj dlist_distinct(1) [OF l]] dlist_distinct(2) [OF l, of e]
  by (simp add: process_wait_def tid_of_def)

lemma process_wait_gone:
  assumes l: "dlist (links s) (children s cur) es" and st: "has_status s es" and gone: "tid \<notin> tid_of s ` set es"
  shows "process_wait cur tid s = Some (Returns (-1) s)"
proof -
  have "find (\<lambda>e. child_tid (the (statuses s e)) = tid) es = None"
    using gone by (auto simp: find_None_iff tid_of_def)
  then show ?thesis
    using try_get_wait_st_dlist [OF l st, of tid] by (simp add: process_wait_def)
qed

subsection \<open>Properties of waiting\<close>

text \<open>C16: A parent gets the exit code of a child exactly once. While the child runs, \<^verbatim>\<open>process_wait\<close>
  waits; after the child has set its exit code and left, it returns that code, takes the child off
  the list of children and leaves the other children on it; a second call for the same child
  returns \<open>-1\<close> at once, and so does every call for a thread that is not on the list. This is about
  a process whose list of children is in order.\<close>

theorem wait_gets_exit_code:
  assumes "dlist (links s) (children s p) (as @ e # bs)" "has_status s (as @ e # bs)" "inj_on (tid_of s) (set (as @ e # bs))"
    and "wait_st s c = e" "statuses s e = Some ws" "sema_value ws = 0" "child_tid ws = tid"
  shows "process_wait p tid s = Some Waits
    \<and> (\<exists>s1 s2 s3. set_exit_code c code s = Some s1 \<and> process_exit_status c s1 = Some s2 \<and> process_wait p tid s2 = Some (Returns code s3)
        \<and> dlist (links s3) (children s3 p) (as @ bs) \<and> process_wait p tid s3 = Some (Returns (-1) s3))
    \<and> (\<forall>t. t \<notin> tid_of s ` set (as @ e # bs) \<longrightarrow> process_wait p t s = Some (Returns (-1) s))"
proof -
  have tid: "tid_of s e = tid" and e: "e \<noteq> NULL"
    using assms(5,7) dlist_distinct(2) [OF assms(1), of e] by (auto simp: tid_of_def)
  have "process_wait p tid s = Some Waits"
    using process_wait_child [OF assms(1-3)] assms(5,6) tid by (simp add: process_wait_resume_def)
  define ws2 where "ws2 = ws\<lparr>exit_code := code, sema_value := 1, ref_count := ref_count ws - 1\<rparr>"
  define s1 where "s1 = s\<lparr>statuses := (statuses s)(e \<mapsto> ws\<lparr>exit_code := code\<rparr>)\<rparr>"
  define s2 where "s2 = s\<lparr>statuses := (statuses s)(e \<mapsto> ws2)\<rparr>"
  have ex: "set_exit_code c code s = Some s1" "process_exit_status c s1 = Some s2"
    using assms(4-6) e by (simp_all add: set_exit_code_def process_exit_status_def s1_def s2_def ws2_def)
  have t2: "tid_of s2 = tid_of s"
    using assms(5) by (auto simp: tid_of_def s2_def ws2_def)
  have l2: "dlist (links s2) (children s2 p) (as @ e # bs)" "has_status s2 (as @ e # bs)" "inj_on (tid_of s2) (set (as @ e # bs))"
    using assms(1-3) unfolding t2 by (auto simp: s2_def has_status_def)
  obtain h where h: "list_remove (links s) e = Some (hd (bs @ [tail_of (children s p)]), h)" "dlist h (children s p) (as @ bs)"
    using list_remove_dlist [OF assms(1)] by blast
  define s3 where "s3 = s2\<lparr>statuses := (statuses s2)(e \<mapsto> ws2\<lparr>sema_value := 0\<rparr>), links := h\<rparr>"
  have "process_wait p tid s2 = Some (Returns code s3)"
    using process_wait_child [OF l2] tid t2 h(1) by (simp add: process_wait_resume_def s2_def s3_def ws2_def)
  moreover have t3: "tid_of s3 = tid_of s"
    using assms(5) by (auto simp: tid_of_def s3_def s2_def ws2_def)
  have l3: "dlist (links s3) (children s3 p) (as @ bs)" "has_status s3 (as @ bs)"
    using h(2) assms(2) by (auto simp: s3_def s2_def has_status_def)
  have "tid \<notin> tid_of s3 ` set (as @ bs)"
    using find_child(2) [OF assms(3) dlist_distinct(1) [OF assms(1)]] unfolding t3 tid find_None_iff by auto
  ultimately show ?thesis
    using \<open>process_wait p tid s = Some Waits\<close> ex l3 process_wait_gone [OF l3] process_wait_gone [OF assms(1,2)] by blast
qed

text \<open>Two children on the list of thread 1.\<close>

definition sample_procs :: procs where
  "sample_procs = \<lparr>links = \<lparr>prev = (\<lambda>_. 0)(200 := 100, 300 := 200, 108 := 300), nxt = (\<lambda>_. 0)(100 := 200, 200 := 300, 300 := 108)\<rparr>,
     statuses = (\<lambda>_. None)(200 \<mapsto> \<lparr>ref_count = 2, child_tid = 5, exit_code = -1, sema_value = 0\<rparr>,
       300 \<mapsto> \<lparr>ref_count = 2, child_tid = 6, exit_code = -1, sema_value = 0\<rparr>),
     children = (\<lambda>t. 100 * nat t), wait_st = (\<lambda>_. 0)(5 := 200, 6 := 300)\<rparr>"

theorem wait_gets_exit_code_witness:
  "process_wait 1 6 sample_procs = Some Waits
   \<and> (\<exists>s1 s2 s3. set_exit_code 6 42 sample_procs = Some s1 \<and> process_exit_status 6 s1 = Some s2 \<and> process_wait 1 6 s2 = Some (Returns 42 s3)
        \<and> dlist (links s3) (children s3 1) [200] \<and> process_wait 1 6 s3 = Some (Returns (-1) s3))
   \<and> process_wait 1 9 sample_procs = Some (Returns (-1) sample_procs)"
proof -
  have "dlist (links sample_procs) (children sample_procs 1) ([200] @ 300 # [])"
    by (simp add: sample_procs_def dlist_def head_of_def tail_of_def)
  moreover have "has_status sample_procs ([200] @ 300 # [])" "inj_on (tid_of sample_procs) (set ([200] @ 300 # []))"
    by (simp_all add: sample_procs_def has_status_def tid_of_def)
  moreover have "wait_st sample_procs 6 = 300"
      "statuses sample_procs 300 = Some \<lparr>ref_count = 2, child_tid = 6, exit_code = -1, sema_value = 0\<rparr>"
    by (simp_all add: sample_procs_def)
  ultimately show ?thesis
    using wait_gets_exit_code [of sample_procs 1 "[200]" 300 "[]" 6 _ 6 42] by (simp add: tid_of_def) (simp add: sample_procs_def)
qed

text \<open>C39: A process that has been started cannot wait for anything that is not its child. Both
  \<^verbatim>\<open>start_process\<close> and \<^verbatim>\<open>process_execute\<close> link the status of the new process into a list, the first
  into the list of the new process itself, the second into the list of its parent. The parent's
  list is in order afterwards, but the list of the new process leads from its own status into the
  parent's list and never reaches its own end: \<^verbatim>\<open>process_wait\<close> for any other thread stops the
  kernel, and \<^verbatim>\<open>process_wait\<close> for the process itself waits on the semaphore that only its own exit
  would raise.\<close>

theorem exec_child_wait_panics:
  assumes "dlist (links s) (children s p) ps" "dlist (links s) (children s c) []"
    and "set (cells (children s p) ps) \<inter> set (cells (children s c) []) = {}"
    and "e \<notin> set (cells (children s p) ps)" "e \<notin> set (cells (children s c) [])" "e \<noteq> NULL"
  shows "\<exists>s1 s2. start_process_status c e s = Some (True, s1) \<and> process_execute_status p c True s1 = Some (c, s2)
    \<and> dlist (links s2) (children s2 p) (ps @ [e]) \<and> (\<forall>tid. tid \<noteq> c \<longrightarrow> process_wait c tid s2 = None) \<and> process_wait c c s2 = Some Waits"
proof -
  let ?lp = "children s p" and ?lc = "children s c"
  obtain h1 where h1: "list_push_back (links s) ?lc e = Some h1" "dlist h1 ?lc [e]" "unchanged_outside (insert e (set (cells ?lc []))) (links s) h1"
    using list_push_back_dlist [OF assms(2,5,6)] by auto
  have "dlist h1 ?lp ps"
    using dlist_frame [OF h1(3)] assms(1,3,4) by blast
  then obtain h2 where h2: "list_push_back h1 ?lp e = Some h2" "dlist h2 ?lp (ps @ [e])" "unchanged_outside (insert e (set (cells ?lp ps))) h1 h2"
    using list_push_back_dlist [OF _ assms(4,6)] by blast
  define s1 where "s1 = s\<lparr>wait_st := (wait_st s)(c := e), statuses := (statuses s)(e \<mapsto> \<lparr>ref_count = 2, child_tid = c, exit_code = -1, sema_value = 0\<rparr>), links := h1\<rparr>"
  define s2 where "s2 = s1\<lparr>links := h2\<rparr>"
  have ops: "start_process_status c e s = Some (True, s1)" "process_execute_status p c True s1 = Some (c, s2)"
    using h1(1) h2(1) assms(6) by (simp_all add: start_process_status_def process_execute_status_def s1_def s2_def)
  have "head_of ?lc \<notin> insert e (set (cells ?lp ps))"
    using assms(3,5) by auto
  then have "nxt h2 (head_of ?lc) = e"
    using h2(3) h1(2) by (auto simp: unchanged_outside_def dlist_def)
  then have begin_c: "list_begin h2 ?lc = Some e" "list_end ?lc = Some (tail_of ?lc)"
    using dlist_not_NULL [OF assms(2)] by (simp_all add: list_begin_def list_end_def load_next_def head_of_def)
  have next_e: "list_next h2 e = Some (tail_of ?lp)"
    using list_next_interior [of h2 ?lp ps e "[]"] h2(2) by simp
  have next_tail: "list_next h2 (tail_of ?lp) = None"
    using dlist_tail [OF h2(2)] by (simp add: list_next_def is_tail_def is_head_def is_interior_def)
  have neq: "e \<noteq> tail_of ?lc" "tail_of ?lp \<noteq> tail_of ?lc"
    using assms(3,5) by auto
  have found: "wait_st_loop s2 tid e (tail_of ?lc) = (if tid = c then Some e else None)" for tid
    using neq next_e next_tail by (subst wait_st_loop.simps) (simp add: s2_def s1_def, subst wait_st_loop.simps, simp)
  then have "try_get_wait_st s2 c tid = (if tid = c then Some e else None)" for tid
    using begin_c by (simp add: try_get_wait_st_def s2_def s1_def)
  then have "process_wait c tid s2 = (if tid = c then process_wait_resume e s2 else None)" for tid
    using assms(6) by (simp add: process_wait_def)
  moreover have "process_wait_resume e s2 = Some Waits"
    by (simp add: process_wait_resume_def s2_def s1_def)
  moreover have "dlist (links s2) (children s2 p) (ps @ [e])"
    using h2(2) by (simp add: s2_def s1_def)
  ultimately show ?thesis
    using ops by auto
qed

theorem exec_child_wait_panics_witness:
  "\<exists>s1 s2. start_process_status 7 1000 (sample_procs\<lparr>links := (links sample_procs)\<lparr>prev := (prev (links sample_procs))(708 := 700), nxt := (nxt (links sample_procs))(700 := 708)\<rparr>\<rparr>) = Some (True, s1)
     \<and> process_execute_status 1 7 True s1 = Some (7, s2) \<and> process_wait 7 9 s2 = None"
proof -
  let ?s = "sample_procs\<lparr>links := (links sample_procs)\<lparr>prev := (prev (links sample_procs))(708 := 700), nxt := (nxt (links sample_procs))(700 := 708)\<rparr>\<rparr>"
  have "dlist (links ?s) (children ?s 1) [200, 300]" "dlist (links ?s) (children ?s 7) []"
    by (simp_all add: sample_procs_def dlist_def head_of_def tail_of_def)
  moreover have "set (cells (children ?s 1) [200, 300]) \<inter> set (cells (children ?s 7) []) = {}"
      "1000 \<notin> set (cells (children ?s 1) [200, 300])" "1000 \<notin> set (cells (children ?s 7) [])" "(1000 :: nat) \<noteq> 0"
    by (simp_all add: sample_procs_def head_of_def tail_of_def)
  ultimately obtain s1 s2 where "start_process_status 7 1000 ?s = Some (True, s1)" "process_execute_status 1 7 True s1 = Some (7, s2)"
      "\<forall>tid. tid \<noteq> 7 \<longrightarrow> process_wait 7 tid s2 = None"
    using exec_child_wait_panics [of ?s 1 "[200, 300]" 7 1000] by blast
  moreover from this(3) have "process_wait 7 9 s2 = None"
    by simp
  ultimately show ?thesis
    by blast
qed

subsection \<open>Properties of descriptors\<close>

definition fd_of :: "('f, 'd) fd_table \<Rightarrow> ptr \<Rightarrow> int" where
  "fd_of t x = fd (the (file_entries t x))"

text \<open>A table with the entries \<open>xs\<close>: their numbers are distinct, are not those of the console and are
  below the next one; the list of children ends where it should.\<close>

definition fd_table_ok :: "('f, 'd) fd_table \<Rightarrow> ptr list \<Rightarrow> bool" where
  "fd_table_ok t xs \<longleftrightarrow> dlist (elems t) (table t) xs \<and> (\<forall>x \<in> set xs. file_entries t x \<noteq> None \<and> 2 \<le> fd_of t x \<and> fd_of t x < fd_count t)
     \<and> inj_on (fd_of t) (set xs) \<and> 2 \<le> fd_count t \<and> 16 \<le> table t \<and> tail_of (children_of (table t)) \<notin> set xs
     \<and> nxt (elems t) (tail_of (children_of (table t))) = NULL"

definition local_list :: "('f, 'd) fd_table \<Rightarrow> ptr list \<Rightarrow> ptr \<Rightarrow> bool" where
  "local_list t xs l \<longleftrightarrow> l \<noteq> NULL \<and> {head_of l, tail_of l} \<inter> set (cells (table t) xs) = {}"

lemma copy_list_dlist:
  assumes "dlist h l xs" "{head_of f, tail_of f} \<inter> set (cells l xs) = {}"
  shows "dlist (copy_list h l f) l xs" "nxt (copy_list h l f) (head_of f) = hd (xs @ [tail_of l])"
proof -
  have "unchanged_outside {head_of f, tail_of f} h (copy_list h l f)"
    by (simp add: unchanged_outside_def copy_list_def)
  then show "dlist (copy_list h l f) l xs"
    using dlist_frame assms by blast
  have "nxt h (head_of l) = hd (xs @ [tail_of l])"
    using dlist_split [of h l "[]" xs] assms(1) by simp
  then show "nxt (copy_list h l f) (head_of f) = hd (xs @ [tail_of l])"
    by (simp add: copy_list_def head_of_def tail_of_def)
qed

lemma fd_loop_dlist:
  assumes "dlist h (table t) (as @ xs)" "\<forall>x \<in> set xs. file_entries t x \<noteq> None" "f \<notin> set (xs @ [tail_of (table t)])"
  shows "fd_loop h t fdn (hd (xs @ [tail_of (table t)])) f = (case find (\<lambda>x. fd_of t x = fdn) xs of
      Some x \<Rightarrow> Some (entry_at t x)
    | None \<Rightarrow> do { g \<leftarrow> entry_at t (tail_of (table t)); if fst g = fdn then Some (Some g) else None })"
  using assms
proof (induction xs arbitrary: as)
  case Nil
  have "list_next h (tail_of (table t)) = None"
    using dlist_tail [of h "table t" as] Nil by (simp add: list_next_def is_tail_def is_head_def is_interior_def)
  then show ?case
    using Nil by (subst fd_loop.simps) (simp cong: if_cong)
next
  case (Cons x xs)
  then have x: "x \<noteq> tail_of (table t)" "list_next h x = Some (hd (xs @ [tail_of (table t)]))" "file_entries t x \<noteq> None" "x \<noteq> f"
    using list_next_interior [of h "table t" as x xs] by (auto simp: dlist_def)
  then obtain d where "file_entries t x = Some d"
    by blast
  moreover have "fd_loop h t fdn (hd (xs @ [tail_of (table t)])) f = (case find (\<lambda>x. fd_of t x = fdn) xs of
      Some x \<Rightarrow> Some (entry_at t x)
    | None \<Rightarrow> do { g \<leftarrow> entry_at t (tail_of (table t)); if fst g = fdn then Some (Some g) else None })"
    using Cons.prems by (intro Cons.IH [of "as @ [x]"]) auto
  ultimately show ?case
    using x by (subst fd_loop.simps) (simp add: entry_at_def fd_of_def)
qed

lemma fd_to_file_cases:
  assumes t: "fd_table_ok t xs" and l: "local_list t xs l"
  shows "fd_to_file t l fdn = (case find (\<lambda>x. fd_of t x = fdn) xs of
      Some x \<Rightarrow> Some (entry_file (the (file_entries t x))) | None \<Rightarrow> if fdn = 0 then Some None else None)"
proof -
  have d: "dlist (elems t) (table t) xs"
    using t by (simp add: fd_table_ok_def)
  let ?h = "copy_list (elems t) (table t) l"
  have c: "dlist ?h (table t) ([] @ xs)" "nxt ?h (head_of l) = hd (xs @ [tail_of (table t)])"
    using copy_list_dlist [OF d, of l] l by (simp_all add: local_list_def)
  have "fd_loop ?h t fdn (hd (xs @ [tail_of (table t)])) (tail_of l) = (case find (\<lambda>x. fd_of t x = fdn) xs of
      Some x \<Rightarrow> Some (entry_at t x)
    | None \<Rightarrow> do { g \<leftarrow> entry_at t (tail_of (table t)); if fst g = fdn then Some (Some g) else None })"
    using t l by (intro fd_loop_dlist [OF c(1)]) (auto simp: fd_table_ok_def local_list_def)
  moreover have "entry_at t (tail_of (table t)) = Some (0, None, None)"
    using t dlist_split [of "elems t" "table t" "[]" xs] dlist_head [OF d] by (simp add: entry_at_def fd_table_ok_def dlist_def is_head_def)
  moreover have "entry_at t x = Some (fd_of t x, entry_file (the (file_entries t x)), Some (entry_dir (the (file_entries t x))))" if "x \<in> set xs" for x
    using that t by (auto simp: entry_at_def fd_table_ok_def dlist_def fd_of_def)
  moreover have "x \<in> set xs" if "find (\<lambda>x. fd_of t x = fdn) xs = Some x" for x
    using that by (auto simp: find_Some_iff)
  ultimately show ?thesis
    using l c(2) by (auto simp: fd_to_file_def fd_entry_def list_begin_def list_end_def load_next_def local_list_def head_of_def split: option.splits)
qed

lemma append_entry_ok:
  assumes t: "fd_table_ok t xs" and e: "e \<notin> set (cells (table t) xs)" "e \<noteq> NULL" "e \<noteq> tail_of (children_of (table t))"
    and max: "fd_count t < 2 ^ 31 - 1"
  shows "\<exists>t'. append_entry e f d t = Some (fd_count t, t') \<and> fd_table_ok t' (xs @ [e]) \<and> table t' = table t
    \<and> file_entries t' = (file_entries t)(e \<mapsto> \<lparr>fd = fd_count t, entry_file = f, entry_dir = d\<rparr>)"
proof -
  obtain h where h: "list_push_back (elems t) (table t) e = Some h" "dlist h (table t) (xs @ [e])"
      "unchanged_outside (insert e (set (cells (table t) xs))) (elems t) h"
    using t e list_push_back_dlist by (metis fd_table_ok_def)
  let ?t = "t\<lparr>file_entries := (file_entries t)(e \<mapsto> \<lparr>fd = fd_count t, entry_file = f, entry_dir = d\<rparr>), fd_count := to_int32 (fd_count t + 1), elems := h\<rparr>"
  have max': "to_int32 (fd_count t + 1) = fd_count t + 1"
    using t max by (intro to_int32_id) (auto simp: fd_table_ok_def)
  have old: "fd_of ?t x = fd_of t x" if "x \<in> set xs" for x
    using that e by (auto simp: fd_of_def)
  have "tail_of (children_of (table t)) \<notin> set (cells (table t) xs)"
    using t by (auto simp: fd_table_ok_def children_of_def tail_of_def head_of_def)
  then have "nxt h (tail_of (children_of (table t))) = NULL"
    using h(3) t e(3) by (auto simp: unchanged_outside_def fd_table_ok_def)
  moreover have "inj_on (fd_of ?t) (set (xs @ [e]))"
    using t old by (auto simp: fd_table_ok_def inj_on_def fd_of_def)
  ultimately have "fd_table_ok ?t (xs @ [e])"
    using t h(2) e max' old by (auto simp: fd_table_ok_def fd_of_def)
  then show ?thesis
    using h(1) by (simp add: append_entry_def Let_def)
qed

text \<open>C17: A file that is given a descriptor is found under it: the new number has not been given
  before, \<^verbatim>\<open>fd_to_file\<close> of it returns the file, and the files of all other descriptors stay.\<close>

theorem fd_lookup_after_open:
  assumes "fd_table_ok t xs" "e \<notin> set (cells (table t) xs)" "e \<noteq> NULL" "e \<noteq> tail_of (children_of (table t))"
    and "fd_count t < 2 ^ 31 - 1" "local_list t (xs @ [e]) l"
  shows "\<exists>t'. append_entry e f d t = Some (fd_count t, t') \<and> fd_table_ok t' (xs @ [e])
    \<and> fd_to_file t' l (fd_count t) = Some f \<and> (\<forall>n. n \<noteq> fd_count t \<longrightarrow> fd_to_file t' l n = fd_to_file t l n)"
proof -
  obtain t' where t': "append_entry e f d t = Some (fd_count t, t')" "fd_table_ok t' (xs @ [e])" "table t' = table t"
      "file_entries t' = (file_entries t)(e \<mapsto> \<lparr>fd = fd_count t, entry_file = f, entry_dir = d\<rparr>)"
    using append_entry_ok [OF assms(1-5)] by blast
  have l: "local_list t xs l" "local_list t' (xs @ [e]) l"
    using assms(6) t'(3) by (auto simp: local_list_def)
  have old: "fd_of t' x = fd_of t x" "file_entries t' x = file_entries t x" "fd_of t x \<noteq> fd_count t" if "x \<in> set xs" for x
    using that assms(1,2) t'(4) by (auto simp: fd_of_def fd_table_ok_def)
  have new: "fd_of t' e = fd_count t" "entry_file (the (file_entries t' e)) = f"
    using t'(4) by (simp_all add: fd_of_def)
  have "find (\<lambda>x. fd_of t' x = n) (ys @ [e]) = (case find (\<lambda>x. fd_of t x = n) ys of Some x \<Rightarrow> Some x | None \<Rightarrow> if n = fd_count t then Some e else None)"
    if "set ys \<subseteq> set xs" for n ys
    using that old(1) new(1) by (induction ys) auto
  then have found: "find (\<lambda>x. fd_of t' x = n) (xs @ [e]) = (case find (\<lambda>x. fd_of t x = n) xs of Some x \<Rightarrow> Some x | None \<Rightarrow> if n = fd_count t then Some e else None)" for n
    by blast
  have found_in: "find (\<lambda>x. fd_of t x = n) xs = Some x \<Longrightarrow> x \<in> set xs" for n x
    by (auto simp: find_Some_iff)
  have "find (\<lambda>x. fd_of t x = fd_count t) xs = None"
    using old(3) by (auto simp: find_None_iff)
  then have "fd_to_file t' l (fd_count t) = Some f"
    using found new(2) by (simp add: fd_to_file_cases [OF t'(2) l(2)])
  moreover have "fd_to_file t' l n = fd_to_file t l n" if "n \<noteq> fd_count t" for n
    using that found [of n] old(2) found_in [of n] by (cases "find (\<lambda>x. fd_of t x = n) xs") (auto simp: fd_to_file_cases [OF t'(2) l(2)] fd_to_file_cases [OF assms(1) l(1)])
  ultimately show ?thesis
    using t' by blast
qed

definition sample_table :: "(nat, nat) fd_table" where
  "sample_table = \<lparr>elems = \<lparr>prev = (\<lambda>_. 0)(108 := 200, 200 := 100), nxt = (\<lambda>_. 0)(100 := 200, 200 := 108)\<rparr>,
     file_entries = [200 \<mapsto> \<lparr>fd = 2, entry_file = Some 50, entry_dir = None\<rparr>], table = 100, fd_count = 3\<rparr>"

lemma sample_table_ok: "fd_table_ok sample_table [200]" "local_list sample_table [200, 300] 1000"
  by (simp_all add: sample_table_def fd_table_ok_def local_list_def dlist_def head_of_def tail_of_def children_of_def fd_of_def)

theorem fd_lookup_after_open_witness:
  "\<exists>t'. append_entry 300 (Some 60) None sample_table = Some (3, t') \<and> fd_to_file t' 1000 3 = Some (Some 60)"
  using fd_lookup_after_open [of sample_table "[200]" 300 1000 "Some 60" None] sample_table_ok
  by (auto simp: sample_table_def head_of_def tail_of_def children_of_def)

text \<open>C40: A descriptor that is not open stops the kernel. \<^verbatim>\<open>fd_to_file\<close> walks a copy of the list header,
  so it never meets the end it compares with: for every number other than 0 that is in no entry it
  goes on to \<^verbatim>\<open>list_next\<close> of the real tail, which panics. Only for 0 does it return a null pointer,
  because the memory before the tail of the table reads as an entry with number 0 and no file.\<close>

theorem fd_lookup_unknown_panics:
  assumes "fd_table_ok t xs" "local_list t xs l" "\<forall>x \<in> set xs. fd_of t x \<noteq> n"
  shows "fd_to_file t l n = (if n = 0 then Some None else None)"
proof -
  have "find (\<lambda>x. fd_of t x = n) xs = None"
    using assms(3) by (simp add: find_None_iff)
  then show ?thesis
    using fd_to_file_cases [OF assms(1,2), of n] by simp
qed

theorem fd_lookup_unknown_panics_witness: "fd_to_file sample_table 1000 7 = None \<and> fd_to_file sample_table 1000 0 = Some None"
proof -
  have "local_list sample_table [200] 1000"
    using sample_table_ok(2) by (auto simp: local_list_def)
  then show ?thesis
    using fd_lookup_unknown_panics [OF sample_table_ok(1), of 1000 7] fd_lookup_unknown_panics [OF sample_table_ok(1), of 1000 0]
    by (simp add: fd_of_def sample_table_def)
qed

end
