(* ===== verification/Spec2Isabelle.thy ===== *)
theory Spec2Isabelle
  imports Arith64 DList Bitmap Hash Filesys Sched_Props Pagedir Malloc Stdlib Rc4 Args Loader Process
begin

text \<open>
  A verification library for the Pintos kernel of this repository (\<^verbatim>\<open>src/pintos/src\<close>).

  \<^bold>\<open>The program and the part of it modelled here.\<close> The kernel has a library of data structures
  (\<^verbatim>\<open>lib/kernel\<close>), device drivers with a block layer (\<^verbatim>\<open>devices\<close>), threads and
  synchronization (\<^verbatim>\<open>threads\<close>), processes and system calls (\<^verbatim>\<open>userprog\<close>) and a file system
  (\<^verbatim>\<open>filesys\<close>). The library covers the data structures and the C library, the block layer and
  the whole stack of the file system (from partitions through the write-back cache, inodes,
  the free map and open files to directories and path names), the scheduler with its
  synchronization primitives, memory management (page allocator, block allocator and page
  tables), and of processes the loader, the passing of arguments, the protocol of exec, exit
  and wait and the table of open files. Each layer calls the one below.

  \<^bold>\<open>How the C code is represented.\<close> A C function is a HOL function of the same name that takes
  the state it works on and returns it updated. The result is an \<open>option\<close>: \<open>None\<close> is a failed
  \<^verbatim>\<open>ASSERT\<close>, a \<^verbatim>\<open>PANIC\<close>, a CPU trap, an access through a null pointer or outside an array, or
  a loop that does not end. Errors that the code returns (\<^verbatim>\<open>false\<close>, \<^verbatim>\<open>NULL\<close>, \<^verbatim>\<open>-1\<close>) are
  ordinary values. Unsigned integers are words of their width, with the wrap-around of C;
  signed ones are integers. The argument \<open>mem\<close> of the file system operations says whether
  kernel memory is available during the call.

  \<^bold>\<open>Theories.\<close>
  \<^item> \<open>Prelude\<close>, \<open>Bytes\<close>: C types, assertions, counting loops, rounding; the little-endian
    representation of values in memory and on disk.
  \<^item> \<open>Arith64\<close> (\<^verbatim>\<open>lib/arithmetic.c\<close>): 64-bit division on a 32-bit processor. Quotients are
    correct; the unsigned remainder is characterised with the cases in which it is wrong.
  \<^item> \<open>Fifo\<close>, \<open>DList\<close> (\<^verbatim>\<open>lib/kernel/list.c\<close>): linked lists on an explicit heap of links. Every
    operation implements one on sequences; the merge sort ends, sorts and is stable. The
    locale \<open>fifo\<close> is the contract of a queue.
  \<^item> \<open>Bitmap\<close> (\<^verbatim>\<open>lib/kernel/bitmap.c\<close>) and \<open>Hash\<close> (\<^verbatim>\<open>lib/kernel/hash.c\<close>): refinement of lists
    of booleans and of finite maps, first-fit search, complete iteration.
  \<^item> \<open>Block\<close> (\<^verbatim>\<open>devices/block.c\<close>, \<^verbatim>\<open>devices/partition.c\<close>): devices, partitions and the scan for
    them. The locale \<open>sector_store\<close> is the contract of a store of sectors; a write to one
    partition leaves the others alone.
  \<^item> \<open>Buffer_Cache\<close> (\<^verbatim>\<open>filesys/buffer.c\<close>): the cache meets the same contract as the disk
    below it, its clock ends, and a flush brings the disk up to date.
  \<^item> \<open>Inode\<close>, \<open>Inode_Data\<close>, \<open>Inode_Growth\<close> (\<^verbatim>\<open>filesys/inode.c\<close>) and \<open>Free_Map\<close>
    (\<^verbatim>\<open>filesys/free-map.c\<close>): \<open>Inode\<close> holds the operations of both files, which call each
    other. The lemmas define the content of a file through its three levels of pointers
    and show what reading, writing and growing do to it. The locale \<open>sector_source\<close> is what
    growing needs of the allocator; the free map meets it.
  \<^item> \<open>File\<close> (\<^verbatim>\<open>filesys/file.c\<close>), \<open>Directory\<close> (\<^verbatim>\<open>filesys/directory.c\<close>), \<open>Filesys\<close>
    (\<^verbatim>\<open>filesys/filesys.c\<close>): open files, directories as maps from names to inodes, path names
    and the operations behind the system calls.
  \<^item> \<open>Thread\<close>, \<open>Sched\<close>, \<open>Sched_Props\<close> (\<^verbatim>\<open>threads/thread.c\<close>, \<^verbatim>\<open>threads/synch.c\<close>,
    the interrupt dispatch of \<^verbatim>\<open>threads/interrupt.c\<close>): the kernel as a step relation. Each
    thread has a stack of frames that says where inside a kernel function it is suspended; a
    step resumes the running thread, starts a call or delivers an interrupt. \<open>Sched\<close> shows
    that the queues of the scheduler stay well formed along every run, \<open>Sched_Props\<close> that no
    assertion of the scheduler fails, that locks exclude each other, that no wake-up of a
    semaphore is lost and that a ready thread runs after a bounded number of timer ticks.
  \<^item> \<open>Memory\<close>, \<open>CString\<close>, \<open>Stdlib\<close>, \<open>Rc4\<close> (\<^verbatim>\<open>lib/string.c\<close>, \<^verbatim>\<open>lib/stdlib.c\<close>,
    \<^verbatim>\<open>lib/ctype.h\<close>, \<^verbatim>\<open>lib/random.c\<close>): byte memory with unmapped addresses; strings, heap sort,
    binary search, number parsing and the random generator on it. The locale \<open>comparison\<close> is
    the contract of a comparison function.
  \<^item> \<open>FixedPoint\<close> (\<^verbatim>\<open>threads/fixed-point.h\<close>): fixed-point numbers with the overflow of
    \<^verbatim>\<open>int\<close>; where the operations are exact and where they round wrongly.
  \<^item> \<open>Vaddr\<close> (\<^verbatim>\<open>threads/vaddr.h\<close>, \<^verbatim>\<open>threads/pte.h\<close>) and \<open>Pagedir\<close>
    (\<^verbatim>\<open>userprog/pagedir.c\<close>): addresses and page table entries at the level of bits; page
    directories as maps from pages to frames, and the coherence of the processor's
    translation buffer with the tables.
  \<^item> \<open>Palloc\<close> (\<^verbatim>\<open>threads/palloc.c\<close>): both pools of pages with their bitmaps and contents. The
    locale \<open>page_allocator\<close> is what a client relies on; the kernel pool meets it.
  \<^item> \<open>Malloc\<close> (\<^verbatim>\<open>threads/malloc.c\<close>): the block allocator, a client of that locale. Its records of
    arenas and free lists are views of headers and links that every operation writes into the
    pages; the invariant ties both together. Live blocks do not overlap each other or the
    headers and links, and no operation changes the contents of a block it is not given.
  \<^item> \<open>Args\<close> (\<^verbatim>\<open>start_process\<close> and \<^verbatim>\<open>fill_stack\<close> of \<^verbatim>\<open>userprog/process.c\<close>): the command line is
    split in place and laid out on the stack of the new process.
  \<^item> \<open>Loader\<close> (\<^verbatim>\<open>load\<close> and its helpers in \<^verbatim>\<open>userprog/process.c\<close>, \<^verbatim>\<open>userprog/tss.c\<close>): ELF files from
    the file system into user pages, on the page allocator, the page tables and open files. What
    a user address holds after loading is stated byte by byte.
  \<^item> \<open>Process\<close> (\<^verbatim>\<open>userprog/process.c\<close>, \<^verbatim>\<open>userprog/syscall.c\<close>): the list of children that exec,
    exit and wait share, and the table of open files, both as linked lists of \<open>DList\<close>.

  \<^bold>\<open>Bounds and fuel.\<close> \<^verbatim>\<open>free_map_allocate\<close> and \<^verbatim>\<open>inode_write_at\<close> are mutually recursive: the map
  is stored in a file. The model nests them to a depth of two more than the number of
  sectors; each nested call has marked one more sector, so the depth is not reached.
  The properties of theory \<open>Free_Map\<close> show that the result is there. Loops that may run
  forever are \<^theory_text>\<open>partial_function (option)\<close>; the lemmas on them state that they return.
  The property on growth covers files up to 250 blocks, the reach of the direct pointers
  and the indirect block.

  \<^bold>\<open>Defects shown.\<close> Several theorems state what the code does where that differs from what
  its comments say: the partition scan may not end, \<^verbatim>\<open>bitmap_scan_and_flip\<close> does not return 0 for
  an empty group, \<^verbatim>\<open>malloc\<close> returns a block that is too small for the eleven largest sizes, exec
  corrupts the list of children of the new process, looking up a file descriptor that is not
  open stops the kernel, a one-byte append is lost, deallocation
  releases sector 0, no call extends a file of at most 250 blocks past 378 blocks, removing a
  missing name stops the kernel, rounding a negative fixed-point number goes up, and
  \<^verbatim>\<open>memmove\<close> does not return its target when it copies upwards.

  \<^bold>\<open>Not modelled.\<close> In the file system, code that runs under a lock is one step, the outcome
  of an allocation is an argument, and the working directory of the thread is passed in; the
  page tables take their pages as arguments too. In the scheduler, a thread that exits starts
  behind the call of \<^verbatim>\<open>process_exit\<close>; of that function the part on the status of the process is in
  \<open>Process\<close>, and the part that frees its memory and closes its executable is not modelled. The
  dispatch of system calls is not modelled. Drivers, start-up code, segment tables and
  consoles are input and output or assembly. Functions that only print are left out of the
  components modelled.
\<close>

end
